(* ===== verification/Prelude.thy ===== *)
theory Prelude
  imports Main "HOL-Library.Word"
begin

text \<open>
  Shared vocabulary of the development: machine integer types, physical memory as a byte
  store, the faults a kernel operation can end in, sequencing of fallible operations, and
  the generic lemmas on words, lists and byte stores that the component theories use.
\<close>

unbundle bit_operations_syntax

named_theorems fault_simps \<open>rewriting of sequenced fallible operations\<close>
named_theorems mem_simps \<open>reads of a byte store after a write\<close>
named_theorems unat_simps \<open>machine arithmetic read back as natural numbers\<close>

section \<open>Machine integers and physical memory\<close>

type_synonym u8 = "8 word"
type_synonym u32 = "32 word"
type_synonym u64 = "64 word"

text \<open>Physical memory: one byte at each 64-bit address.\<close>

type_synonym memory = "u64 \<Rightarrow> u8"

section \<open>Faults and sequencing\<close>

text \<open>
  How a C function of the kernel can fail to return to its caller:
  \<^item> \<open>Panic msg\<close>: it calls \<open>panic(msg)\<close>, which stops the machine;
  \<^item> \<open>Spin\<close>: it waits for a lock or a condition that only another CPU can change;
  \<^item> \<open>Blocked chan\<close>: it sleeps until another process calls \<open>wakeup(chan)\<close>;
  \<^item> \<open>BadAccess a\<close>: it dereferences a kernel address the kernel page table does not map;
  \<^item> \<open>Overrun obj\<close>: it accesses the array \<open>obj\<close> out of bounds;
  \<^item> \<open>OutOfFuel\<close>: the recursion depth given to a bounded model was too small;
  \<^item> \<open>Exit n\<close>: a user program calls \<open>exit(n)\<close>.
\<close>

datatype fault = Panic string | Spin | Blocked string | BadAccess u64 | Overrun string | OutOfFuel | Exit int

definition bindr :: "'e + 'a \<Rightarrow> ('a \<Rightarrow> 'e + 'b) \<Rightarrow> 'e + 'b" where
  "bindr m f = (case m of Inl e \<Rightarrow> Inl e | Inr x \<Rightarrow> f x)"

lemma bindr_Inl [simp, fault_simps]: "bindr (Inl e) f = Inl e"
  by (simp add: bindr_def)

lemma bindr_Inr [simp, fault_simps]: "bindr (Inr x) f = f x"
  by (simp add: bindr_def)

lemma bindr_eq_Inr [fault_simps]: "bindr m f = Inr y \<longleftrightarrow> (\<exists>x. m = Inr x \<and> f x = Inr y)"
  by (cases m) auto

lemma bindr_assoc: "bindr (bindr m f) g = bindr m (\<lambda>x. bindr (f x) g)"
  by (cases m) auto

lemma bindr_cong [fundef_cong]:
  "m = m' \<Longrightarrow> (\<And>x. m' = Inr x \<Longrightarrow> f x = f' x) \<Longrightarrow> bindr m f = bindr m' f'"
  by (cases m') auto

section \<open>Words read as natural numbers\<close>

lemma unat_add_nowrap [unat_simps]:
  "unat (a::u64) + unat b < 2 ^ 64 \<Longrightarrow> unat (a + b) = unat a + unat b"
  by (simp add: unat_word_ariths)

lemma unat_mult_nowrap [unat_simps]:
  "unat (a::u64) * unat b < 2 ^ 64 \<Longrightarrow> unat (a * b) = unat a * unat b"
  by (simp add: unat_word_ariths)

lemma unat_sub_nowrap [unat_simps]:
  "unat b \<le> unat a \<Longrightarrow> unat ((a::u64) - b) = unat a - unat b"
  by (simp add: unat_sub_if')

lemma unat_of_nat64 [unat_simps]: "n < 2 ^ 64 \<Longrightarrow> unat (of_nat n :: u64) = n"
  by (simp add: unat_of_nat take_bit_eq_mod)

lemma unat_lt_64: "unat (a::u64) < 2 ^ 64"
  using unsigned_less [of a] by simp

lemma u64_eqI: "unat (a::u64) = unat b \<Longrightarrow> a = b"
  by (simp add: word_unat_eq_iff)

lemma of_nat_unat64 [simp]: "of_nat (unat a) = (a::u64)"
  by simp

lemma not_bit_low: "(a::u64) AND mask k = 0 \<Longrightarrow> bit a n \<Longrightarrow> k \<le> n"
  by (metis bit_take_bit_iff bit_0_eq bot_apply bot_bool_def leI take_bit_eq_mask)

lemma and_not_mask: "(a::u64) AND NOT (mask k) = push_bit k (drop_bit k a)"
proof (rule bit_eqI)
  fix n
  show "bit (a AND NOT (mask k)) n = bit (push_bit k (drop_bit k a)) n"
    by (cases "k \<le> n") (auto simp: bit_simps dest: bit_imp_le_length)
qed

lemma unat_take_bit: "unat (take_bit k (a::u64)) = unat a mod 2 ^ k"
  by (metis take_bit_nat_def unsigned_take_bit_eq)

lemma unat_and_mask [unat_simps]: "unat ((a::u64) AND mask k) = unat a mod 2 ^ k"
  by (simp flip: take_bit_eq_mask add: unat_take_bit)

lemma unat_drop_bit [unat_simps]: "unat (drop_bit k (a::u64)) = unat a div 2 ^ k"
  by (metis unat_drop_bit_eq drop_bit_nat_def)

lemma unat_push_drop [unat_simps]:
  "unat (push_bit k (drop_bit k (a::u64))) = (unat a div 2 ^ k) * 2 ^ k"
proof -
  have "push_bit k (drop_bit k a) + take_bit k a = a"
    by (rule bits_ident)
  then have "push_bit k (drop_bit k a) = a - take_bit k a"
    by (simp add: algebra_simps)
  moreover have "unat (take_bit k a) = unat a mod 2 ^ k"
    by (rule unat_take_bit)
  ultimately show ?thesis
    by (simp add: unat_sub_nowrap minus_mod_eq_div_mult)
qed

lemma mask12: "(4095::u64) = mask 12" and mask10: "(1023::u64) = mask 10"
  and mask9: "(511::u64) = mask 9"
  by (simp_all add: mask_eq_exp_minus_1)

section \<open>Byte stores\<close>

text \<open>Little-endian load of \<open>k\<close> bytes, and the 8-byte load and store of the machine.\<close>

fun ldn :: "memory \<Rightarrow> u64 \<Rightarrow> nat \<Rightarrow> u64" where
  "ldn m a 0 = 0"
| "ldn m a (Suc k) = ucast (m a) OR push_bit 8 (ldn m (a + 1) k)"

definition ld64 :: "memory \<Rightarrow> u64 \<Rightarrow> u64" where
  "ld64 m a = ldn m a 8"

definition st64 :: "memory \<Rightarrow> u64 \<Rightarrow> u64 \<Rightarrow> memory" where
  "st64 m a v = (\<lambda>x. if unat (x - a) < 8 then ucast (drop_bit (8 * unat (x - a)) v) else m x)"

lemma bit8_bound: "bit (w::u8) n \<Longrightarrow> n < 8"
  using bit_imp_le_length [of w n] by simp

lemma bit_ldn:
  "bit (ldn m a k) n \<longleftrightarrow> n < 64 \<and> n < 8 * k \<and> bit (m (a + of_nat (n div 8))) (n mod 8)"
proof (induction k arbitrary: a n)
  case (Suc k)
  show ?case
  proof (cases "n < 8")
    case True
    then show ?thesis by (auto simp: bit_simps)
  next
    case False
    then obtain j where j: "n = j + 8"
      by (metis add.commute le_add_diff_inverse not_less)
    then have "n div 8 = Suc (j div 8)" and "n mod 8 = j mod 8"
      by auto
    then show ?thesis
      using False Suc.IH [of "a + 1" j]
      by (auto simp: bit_simps j add.assoc dest: bit8_bound)
  qed
qed simp

lemma bit_ld64: "bit (ld64 m a) n \<longleftrightarrow> n < 64 \<and> bit (m (a + of_nat (n div 8))) (n mod 8)"
  by (auto simp: ld64_def bit_ldn)

lemma ld64_cong: "(\<And>i. i < 8 \<Longrightarrow> m (a + of_nat i) = m' (a + of_nat i)) \<Longrightarrow> ld64 m a = ld64 m' a"
  by (rule bit_eqI) (simp add: bit_ld64)

lemma unat_offset [simp]: "k < 2 ^ 64 \<Longrightarrow> unat (a + of_nat k - a :: u64) = k"
  by (simp add: unat_of_nat64)

lemma ld64_st64_same [simp, mem_simps]: "ld64 (st64 m a v) a = v"
proof (rule bit_eqI)
  fix n
  assume "possible_bit TYPE(64 word) n"
  then have n: "n < 64" by simp
  then have d: "n div 8 < 8" by linarith
  then have "unat (of_nat (n div 8) :: u64) = n div 8"
    by (intro unat_of_nat64) simp
  then show "bit (ld64 (st64 m a v) a) n = bit v n"
    using n d by (simp add: bit_ld64 st64_def bit_simps)
qed

text \<open>The page an address lies in, and stores that agree outside one page.\<close>

definition page_no :: "u64 \<Rightarrow> nat" where
  "page_no a = unat a div 4096"

definition pg_aligned :: "u64 \<Rightarrow> bool" where
  "pg_aligned a \<longleftrightarrow> unat a mod 4096 = 0"

definition same_off_page :: "u64 \<Rightarrow> memory \<Rightarrow> memory \<Rightarrow> bool" where
  "same_off_page p m m' \<longleftrightarrow> (\<forall>x. page_no x \<noteq> page_no p \<longrightarrow> m' x = m x)"

lemma div_add_small: "(p::nat) mod n = 0 \<Longrightarrow> k < n \<Longrightarrow> (p + k) div n = p div n"
  by (metis add_cancel_left_right div_less div_plus_div_distrib_dvd_left mod_0_imp_dvd)

lemma div_add_room:
  assumes "(a::nat) mod n + k < n"
  shows "(a + k) div n = a div n" and "(a + k) mod n = a mod n + k"
proof -
  have "a + k = (a mod n + k) + n * (a div n)"
    by (simp add: mult_div_mod_eq add.commute)
  moreover have "0 < n"
    using assms by simp
  ultimately show "(a + k) div n = a div n" "(a + k) mod n = a mod n + k"
    using assms div_mult_self2 [of n "a mod n + k" "a div n"] mod_mult_self2 [of "a mod n + k" n "a div n"]
    by simp_all
qed

lemma pg_aligned_and: "pg_aligned a \<longleftrightarrow> a AND 4095 = 0"
proof -
  have "a AND mask 12 = 0 \<longleftrightarrow> unat (a AND mask 12) = 0"
    by (simp add: unat_eq_0)
  then show ?thesis
    by (simp add: pg_aligned_def mask12 unat_and_mask)
qed

lemma pg_aligned_add_unat:
  assumes "pg_aligned p" and "k < 4096"
  shows "unat (p + of_nat k) = unat p + k"
proof -
  have "unat p + 4096 \<le> 2 ^ 64"
    using assms(1) unat_lt_64 [of p] unfolding pg_aligned_def by (simp add: mod_eq_0_iff_dvd) (elim dvdE, simp)
  then show ?thesis
    using assms(2) by (simp add: unat_add_nowrap unat_of_nat64)
qed

lemma page_no_add [simp]: "pg_aligned p \<Longrightarrow> k < 4096 \<Longrightarrow> page_no (p + of_nat k) = page_no p"
  by (simp add: page_no_def pg_aligned_add_unat div_add_small pg_aligned_def)

lemma page_no_inj: "pg_aligned p \<Longrightarrow> pg_aligned q \<Longrightarrow> page_no p = page_no q \<Longrightarrow> p = q"
  unfolding pg_aligned_def page_no_def by (rule u64_eqI) (metis mult_div_mod_eq)

lemma same_off_page_refl [simp]: "same_off_page p m m"
  by (simp add: same_off_page_def)

lemma same_off_page_trans:
  "same_off_page p m m' \<Longrightarrow> same_off_page p m' m'' \<Longrightarrow> same_off_page p m m''"
  by (simp add: same_off_page_def)

lemma same_off_page_ld64:
  assumes "same_off_page p m m'" and "pg_aligned q" and "page_no q \<noteq> page_no p" and "i < 512"
  shows "ld64 m' (q + of_nat (8 * i)) = ld64 m (q + of_nat (8 * i))"
proof (rule ld64_cong)
  fix j :: nat
  assume "j < 8"
  then have "page_no (q + of_nat (8 * i + j)) = page_no q"
    using assms(2,4) by (intro page_no_add) simp_all
  then show "m' (q + of_nat (8 * i) + of_nat j) = m (q + of_nat (8 * i) + of_nat j)"
    using assms(1,3) by (simp add: same_off_page_def add.assoc)
qed

lemma st64_same_off_page:
  assumes "pg_aligned p" and "i < 512"
  shows "same_off_page p m (st64 m (p + of_nat (8 * i)) v)"
proof (unfold same_off_page_def, intro allI impI)
  fix x
  assume neq: "page_no x \<noteq> page_no p"
  let ?a = "p + of_nat (8 * i) :: u64"
  have "\<not> unat (x - ?a) < 8"
  proof
    assume lt: "unat (x - ?a) < 8"
    have "8 * i + unat (x - ?a) < 4096"
      using lt assms(2) by linarith
    then have "page_no (p + of_nat (8 * i + unat (x - ?a))) = page_no p"
      by (rule page_no_add [OF assms(1)])
    moreover have "p + of_nat (8 * i + unat (x - ?a)) = x"
      by simp
    ultimately show False
      using neq by simp
  qed
  then show "st64 m ?a v x = m x"
    by (simp add: st64_def)
qed

lemma ld64_st64_slot [mem_simps]:
  assumes "pg_aligned p" and "i < 512" and "j < 512" and "i \<noteq> j"
  shows "ld64 (st64 m (p + of_nat (8 * i)) v) (p + of_nat (8 * j)) = ld64 m (p + of_nat (8 * j))"
proof (rule ld64_cong)
  fix k :: nat
  assume k: "k < 8"
  let ?x = "p + of_nat (8 * j) + of_nat k :: u64" and ?a = "p + of_nat (8 * i) :: u64"
  have x: "unat ?x = unat p + (8 * j + k)"
    using pg_aligned_add_unat [OF assms(1), of "8 * j + k"] assms(3) k by (simp add: add.assoc)
  have a: "unat ?a = unat p + 8 * i"
    using pg_aligned_add_unat [OF assms(1), of "8 * i"] assms(2) by simp
  have "\<not> unat (?x - ?a) < 8"
    using assms k unat_lt_64 [of ?x] unfolding unat_sub_if' x a by auto
  then show "st64 m ?a v ?x = m ?x"
    by (simp add: st64_def)
qed

section \<open>Circular buffers\<close>

text \<open>
  A buffer of \<open>N\<close> bytes is indexed with 32-bit counters that are never reset. It holds the bytes \<open>q\<close> from the
  counter \<open>r\<close> on.
\<close>

definition ring_holds :: "nat \<Rightarrow> u8 list \<Rightarrow> u32 \<Rightarrow> u8 list \<Rightarrow> bool" where
  "ring_holds N data r q \<longleftrightarrow>
     length data = N \<and> length q \<le> N \<and> (\<forall>j<length q. data ! ((unat r + j) mod N) = q ! j)"

text \<open>The counters may wrap around because the size divides their range.\<close>

locale byte_ring =
  fixes N :: nat
  assumes pos: "0 < N" and wraps: "N dvd 2 ^ 32" and small: "N < 2 ^ 32"
begin

lemma index_mod: "unat ((r :: u32) + of_nat j) mod N = (unat r + j) mod N"
proof -
  have "unat (r + of_nat j) = (unat r + unat (of_nat j :: u32)) mod 2 ^ 32"
    by (simp add: unat_word_ariths)
  then have "unat (r + of_nat j) mod N = (unat r + unat (of_nat j :: u32)) mod N"
    using mod_mod_cancel [OF wraps, of "unat r + unat (of_nat j :: u32)"] by simp
  moreover have "unat (of_nat j :: u32) mod N = j mod N"
    using mod_mod_cancel [OF wraps, of j] by (simp add: unat_of_nat take_bit_eq_mod)
  ultimately show ?thesis
    by (metis mod_add_right_eq)
qed

lemma small_count: "n \<le> N \<Longrightarrow> unat (of_nat n :: u32) = n"
  using small by (simp add: unat_of_nat take_bit_eq_mod)

lemma count_eq: "m \<le> N \<Longrightarrow> n \<le> N \<Longrightarrow> (of_nat m :: u32) = of_nat n \<longleftrightarrow> m = n"
  by (metis small_count)

lemma slots_differ:
  assumes "(j::nat) < n" "n < N"
  shows "(r + j) mod N \<noteq> (r + n) mod N"
proof
  assume "(r + j) mod N = (r + n) mod N"
  then have "(r + n - (r + j)) mod N = 0"
    using assms by (metis add_le_cancel_left less_imp_le mod_eq_dvd_iff_nat mod_0_imp_dvd dvd_imp_mod_0)
  then show False
    using assms by simp
qed

lemma put:
  assumes "ring_holds N data r q" "length q < N"
  shows "ring_holds N (data[unat (r + of_nat (length q)) mod N := c]) r (q @ [c])"
proof -
  let ?d = "data[unat (r + of_nat (length q)) mod N := c]"
  have "?d ! ((unat r + j) mod N) = (q @ [c]) ! j" if "j < Suc (length q)" for j
  proof (cases "j = length q")
    case True
    then show ?thesis
      using assms pos by (simp add: ring_holds_def index_mod)
  next
    case False
    then have "(unat r + j) mod N \<noteq> (unat r + length q) mod N"
      using that assms(2) by (intro slots_differ) simp_all
    then show ?thesis
      using False that assms by (simp add: ring_holds_def index_mod nth_append)
  qed
  then show ?thesis
    using assms by (simp add: ring_holds_def)
qed

lemma get:
  assumes "ring_holds N data r (c # q)"
  shows "data ! (unat r mod N) = c" "ring_holds N data (r + 1) q"
proof -
  have h: "data ! ((unat r + j) mod N) = (c # q) ! j" if "j < Suc (length q)" for j
    using assms that by (simp add: ring_holds_def)
  show "data ! (unat r mod N) = c"
    using h [of 0] by simp
  have "(unat (r + 1) + j) mod N = (unat r + Suc j) mod N" for j
    using index_mod [of r 1] by (metis add.assoc add_Suc_right mod_add_left_eq of_nat_1 plus_1_eq_Suc)
  then show "ring_holds N data (r + 1) q"
    using assms h [of "Suc _"] by (simp add: ring_holds_def)
qed

end

end
