(* ===== verification/Riscv.thy ===== *)
theory Riscv
  imports Prelude
begin

text \<open>
  The Sv39 paging macros of \<^verbatim>\<open>kernel/riscv.h\<close> and the address-space layout of
  \<^verbatim>\<open>kernel/memlayout.h\<close>, as functions on 64-bit words, with the arithmetic facts the
  page-table code relies on: rounding, round trips between physical addresses and page-table
  entries, and that the three 9-bit indices identify a virtual page below MAXVA.
\<close>

section \<open>Macros of riscv.h\<close>

definition PGSIZE :: u64 where
  [simp]: "PGSIZE = 4096"

definition PGSHIFT :: nat where
  [simp]: "PGSHIFT = 12"

definition PGROUNDUP :: "u64 \<Rightarrow> u64" where
  "PGROUNDUP sz = (sz + PGSIZE - 1) AND NOT (PGSIZE - 1)"

definition PGROUNDDOWN :: "u64 \<Rightarrow> u64" where
  "PGROUNDDOWN a = a AND NOT (PGSIZE - 1)"

definition PTE_V :: u64 where "PTE_V = push_bit 0 1"
definition PTE_R :: u64 where "PTE_R = push_bit 1 1"
definition PTE_W :: u64 where "PTE_W = push_bit 2 1"
definition PTE_X :: u64 where "PTE_X = push_bit 3 1"
definition PTE_U :: u64 where "PTE_U = push_bit 4 1"

definition PA2PTE :: "u64 \<Rightarrow> u64" where
  "PA2PTE pa = push_bit 10 (drop_bit 12 pa)"

definition PTE2PA :: "u64 \<Rightarrow> u64" where
  "PTE2PA pte = push_bit 12 (drop_bit 10 pte)"

definition PTE_FLAGS :: "u64 \<Rightarrow> u64" where
  "PTE_FLAGS pte = pte AND 0x3FF"

definition PXMASK :: u64 where
  "PXMASK = 0x1FF"

definition PXSHIFT :: "nat \<Rightarrow> nat" where
  "PXSHIFT level = PGSHIFT + 9 * level"

definition PX :: "nat \<Rightarrow> u64 \<Rightarrow> u64" where
  "PX level va = drop_bit (PXSHIFT level) va AND PXMASK"

definition MAXVA :: u64 where
  "MAXVA = push_bit (9 + 9 + 9 + 12 - 1) 1"

section \<open>Layout constants of memlayout.h\<close>

definition KERNBASE :: u64 where
  "KERNBASE = 0x80000000"

definition PHYSTOP :: u64 where
  "PHYSTOP = KERNBASE + 128 * 1024 * 1024"

definition TRAMPOLINE :: u64 where
  "TRAMPOLINE = MAXVA - PGSIZE"

definition TRAPFRAME :: u64 where
  "TRAPFRAME = TRAMPOLINE - PGSIZE"

definition KSTACK :: "u64 \<Rightarrow> u64" where
  "KSTACK p = TRAMPOLINE - (p + 1) * 2 * PGSIZE"

section \<open>Constants as numbers\<close>

lemma MAXVA_num: "MAXVA = 0x4000000000"
  by (simp add: MAXVA_def)

lemma unat_MAXVA [simp]: "unat MAXVA = 2 ^ 38"
  by (simp add: MAXVA_num)

lemma PHYSTOP_num: "PHYSTOP = 0x88000000"
  by (simp add: PHYSTOP_def KERNBASE_def)

lemma unat_PHYSTOP [simp]: "unat PHYSTOP = 0x88000000"
  by (simp add: PHYSTOP_num)

lemma unat_KERNBASE [simp]: "unat KERNBASE = 0x80000000"
  by (simp add: KERNBASE_def)

lemmas pte_flag_defs = PTE_V_def PTE_R_def PTE_W_def PTE_X_def PTE_U_def

section \<open>Rounding\<close>

lemma PGROUNDDOWN_eq: "PGROUNDDOWN a = push_bit 12 (drop_bit 12 a)"
  using and_not_mask [of a 12] by (simp add: PGROUNDDOWN_def mask_eq_exp_minus_1)

lemma unat_PGROUNDDOWN [unat_simps]: "unat (PGROUNDDOWN a) = page_no a * 4096"
  by (simp add: PGROUNDDOWN_eq unat_push_drop page_no_def)

lemma PGROUNDDOWN_aligned [simp]: "pg_aligned (PGROUNDDOWN a)"
  by (simp add: pg_aligned_def unat_PGROUNDDOWN)

lemma page_no_PGROUNDDOWN [simp]: "page_no (PGROUNDDOWN a) = page_no a"
  by (simp add: page_no_def unat_PGROUNDDOWN)

lemma PGROUNDDOWN_of_aligned [simp]: "pg_aligned a \<Longrightarrow> PGROUNDDOWN a = a"
  by (rule u64_eqI) (auto simp: unat_PGROUNDDOWN page_no_def pg_aligned_def)

lemma PGROUNDUP_as_down: "PGROUNDUP sz = PGROUNDDOWN (sz + 4095)"
  by (simp add: PGROUNDUP_def PGROUNDDOWN_def add.commute)

lemma unat_PGROUNDUP [unat_simps]:
  "unat sz + 4095 < 2 ^ 64 \<Longrightarrow> unat (PGROUNDUP sz) = (unat sz + 4095) div 4096 * 4096"
  by (simp add: PGROUNDUP_as_down unat_PGROUNDDOWN page_no_def unat_add_nowrap)

lemma PGROUNDUP_aligned [simp]: "pg_aligned (PGROUNDUP a)"
  by (simp add: PGROUNDUP_as_down)

section \<open>Page-table entries\<close>

lemma PTE2PA_aligned [simp]: "pg_aligned (PTE2PA pte)"
  unfolding pg_aligned_and mask12
  by (rule bit_eqI) (auto simp: PTE2PA_def bit_simps)

lemma PTE2PA_PA2PTE:
  assumes "pg_aligned pa" and "flags AND mask 10 = flags"
  shows "PTE2PA (PA2PTE pa OR flags) = pa"
proof (rule bit_eqI)
  fix n
  have low: "pa AND mask 12 = 0"
    using assms(1) by (simp add: pg_aligned_and mask12)
  have high: "\<not> bit flags k" if "10 \<le> k" for k
    using arg_cong [OF assms(2), of "\<lambda>w. bit w k"] that by (auto simp: bit_simps)
  show "bit (PTE2PA (PA2PTE pa OR flags)) n = bit pa n"
    using not_bit_low [OF low, of n]
    by (cases "12 \<le> n") (auto simp: PTE2PA_def PA2PTE_def bit_simps high dest: bit_imp_le_length)
qed

section \<open>Indices of a virtual address\<close>

lemma unat_PX [unat_simps]: "unat (PX l va) = unat va div 2 ^ (12 + 9 * l) mod 512"
proof -
  have "unat (drop_bit (PXSHIFT l) va AND mask 9) = unat (drop_bit (PXSHIFT l) va) mod 2 ^ 9"
    by (rule unat_and_mask)
  then show ?thesis
    by (simp add: PX_def PXMASK_def mask9 unat_drop_bit PXSHIFT_def)
qed

lemma PX_bound [simp]: "unat (PX l va) < 512"
  by (simp add: unat_PX)

lemma PX_slot: "pt + 8 * PX l va = pt + of_nat (8 * unat (PX l va))"
  by simp

lemma PX_page_no:
  assumes "unat va < 2 ^ 39" and "unat va' < 2 ^ 39"
  shows "(PX 2 va = PX 2 va' \<and> PX 1 va = PX 1 va' \<and> PX 0 va = PX 0 va') \<longleftrightarrow> page_no va = page_no va'"
    (is "?L \<longleftrightarrow> ?R")
proof -
  let ?p = "page_no va" and ?q = "page_no va'"
  have px: "unat (PX 2 v) = page_no v div 2 ^ 18 mod 512" "unat (PX 1 v) = page_no v div 2 ^ 9 mod 512"
      "unat (PX 0 v) = page_no v mod 512" for v
    by (simp_all add: unat_PX page_no_def div_mult2_eq [symmetric])
  have b: "?p div 512 div 512 < 512" "?q div 512 div 512 < 512"
    using assms by (simp_all add: page_no_def div_mult2_eq [symmetric] less_mult_imp_div_less)
  have split: "x = 512 * (512 * (x div 512 div 512) + x div 512 mod 512) + x mod 512" for x :: nat
    by simp
  show ?thesis
  proof
    assume ?L
    then have "?p div 512 div 512 = ?q div 512 div 512" "?p div 512 mod 512 = ?q div 512 mod 512"
        "?p mod 512 = ?q mod 512"
      using px [of va] px [of va'] b by (simp_all add: div_mult2_eq [symmetric])
    then show ?R
      using split [of ?p] split [of ?q] by presburger
  next
    assume ?R
    then show ?L
      using px [of va] px [of va'] by (metis u64_eqI)
  qed
qed

end
