(* ===== verification/Cstring.thy ===== *)
theory Cstring
  imports Riscv
begin

text \<open>
  The byte and string routines of \<^verbatim>\<open>kernel/string.c\<close>. The copying routines work on
  the byte store with machine addresses, because overlap of source and destination matters;
  the string routines see a \<open>char *\<close> as the function from offsets to the bytes it points to.
  Pointer results (each routine returns its destination) are dropped.
\<close>

section \<open>Definitions\<close>

type_synonym cstr = "nat \<Rightarrow> u8"

text \<open>\<open>memset\<close>: the loop over \<open>i\<close>, with \<open>k\<close> iterations left.\<close>

fun memset_loop :: "memory \<Rightarrow> u64 \<Rightarrow> u8 \<Rightarrow> nat \<Rightarrow> nat \<Rightarrow> memory" where
  "memset_loop m dst c i 0 = m"
| "memset_loop m dst c i (Suc k) = memset_loop (m(dst + of_nat i := c)) dst c (Suc i) k"

definition memset :: "memory \<Rightarrow> u64 \<Rightarrow> u8 \<Rightarrow> nat \<Rightarrow> memory" where
  "memset m dst c n = memset_loop m dst c 0 n"

fun memcmp :: "cstr \<Rightarrow> cstr \<Rightarrow> nat \<Rightarrow> int" where
  "memcmp s1 s2 0 = 0"
| "memcmp s1 s2 (Suc n) =
     (if s1 0 \<noteq> s2 0 then int (unat (s1 0)) - int (unat (s2 0))
      else memcmp (\<lambda>i. s1 (Suc i)) (\<lambda>i. s2 (Suc i)) n)"

fun copy_up :: "memory \<Rightarrow> u64 \<Rightarrow> u64 \<Rightarrow> nat \<Rightarrow> memory" where
  "copy_up m d s 0 = m"
| "copy_up m d s (Suc n) = copy_up (m(d := m s)) (d + 1) (s + 1) n"

fun copy_down :: "memory \<Rightarrow> u64 \<Rightarrow> u64 \<Rightarrow> nat \<Rightarrow> memory" where
  "copy_down m d s 0 = m"
| "copy_down m d s (Suc n) = copy_down (m(d - 1 := m (s - 1))) (d - 1) (s - 1) n"

definition memmove :: "memory \<Rightarrow> u64 \<Rightarrow> u64 \<Rightarrow> nat \<Rightarrow> memory" where
  "memmove m dst src n =
     (if n = 0 then m
      else if src < dst \<and> src + of_nat n > dst
      then copy_down m (dst + of_nat n) (src + of_nat n) n
      else copy_up m dst src n)"

definition memcpy :: "memory \<Rightarrow> u64 \<Rightarrow> u64 \<Rightarrow> nat \<Rightarrow> memory" where
  "memcpy m dst src n = memmove m dst src n"

fun strncmp :: "cstr \<Rightarrow> cstr \<Rightarrow> nat \<Rightarrow> int" where
  "strncmp p q 0 = 0"
| "strncmp p q (Suc n) =
     (if p 0 \<noteq> 0 \<and> p 0 = q 0 then strncmp (\<lambda>i. p (Suc i)) (\<lambda>i. q (Suc i)) n
      else int (unat (p 0)) - int (unat (q 0)))"

text \<open>\<open>strncpy\<close>: the copying loop at offset \<open>i\<close>, then the zero-filling loop.\<close>

fun zero_fill :: "cstr \<Rightarrow> nat \<Rightarrow> nat \<Rightarrow> cstr" where
  "zero_fill s i 0 = s"
| "zero_fill s i (Suc n) = zero_fill (s(i := 0)) (Suc i) n"

fun strncpy_loop :: "cstr \<Rightarrow> cstr \<Rightarrow> nat \<Rightarrow> nat \<Rightarrow> cstr" where
  "strncpy_loop s t i 0 = s"
| "strncpy_loop s t i (Suc n) =
     (if t i \<noteq> 0 then strncpy_loop (s(i := t i)) t (Suc i) n
      else zero_fill (s(i := t i)) (Suc i) n)"

definition strncpy :: "cstr \<Rightarrow> cstr \<Rightarrow> int \<Rightarrow> cstr" where
  "strncpy s t n = strncpy_loop s t 0 (nat n)"

text \<open>\<open>safestrcpy\<close>: \<open>k\<close> is the value of \<open>n\<close> after the loop test's \<open>--n\<close>.\<close>

fun safestrcpy_loop :: "cstr \<Rightarrow> cstr \<Rightarrow> nat \<Rightarrow> nat \<Rightarrow> cstr" where
  "safestrcpy_loop s t i 0 = s(i := 0)"
| "safestrcpy_loop s t i (Suc k) =
     (if t i \<noteq> 0 then safestrcpy_loop (s(i := t i)) t (Suc i) k
      else s(i := t i, Suc i := 0))"

definition safestrcpy :: "cstr \<Rightarrow> cstr \<Rightarrow> int \<Rightarrow> cstr" where
  "safestrcpy s t n = (if n \<le> 0 then s else safestrcpy_loop s t 0 (nat n - 1))"

text \<open>\<open>strlen\<close> returns only if the bytes after \<open>s\<close> hold a NUL.\<close>

partial_function (option) strlen_from :: "cstr \<Rightarrow> nat \<Rightarrow> nat option" where
  "strlen_from s n = (if s n \<noteq> 0 then strlen_from s (Suc n) else Some n)"

definition strlen :: "cstr \<Rightarrow> nat option" where
  "strlen s = strlen_from s 0"

text \<open>The string of at most \<open>n\<close> bytes that a bounded string routine sees.\<close>

definition cstr_take :: "nat \<Rightarrow> cstr \<Rightarrow> u8 list" where
  "cstr_take n s = takeWhile (\<lambda>c. c \<noteq> 0) (map s [0..<n])"

section \<open>Filling and copying bytes\<close>

lemma memset_loop_eq:
  "i + k \<le> 2 ^ 64 \<Longrightarrow> memset_loop m dst c i k x =
     (if i \<le> unat (x - dst) \<and> unat (x - dst) < i + k then c else m x)"
proof (induction k arbitrary: m i)
  case (Suc k)
  have "x = dst + of_nat i \<longleftrightarrow> unat (x - dst) = i"
    using Suc.prems unat_offset [of i dst] by (auto simp del: unat_offset)
  then show ?case
    using Suc by auto
qed auto

lemma memset_eq [mem_simps]:
  "n \<le> 2 ^ 64 \<Longrightarrow> memset m dst c n = (\<lambda>x. if unat (x - dst) < n then c else m x)"
  by (rule ext) (simp add: memset_def memset_loop_eq)

lemma unat_minus_Suc:
  "unat (x - d :: u64) < Suc k \<longleftrightarrow> x = d \<or> unat (x - (d + 1)) < k" if "k < 2 ^ 64" for x d :: u64
proof (cases "x = d")
  case False
  then have "x - d \<noteq> 0" by simp
  then have "unat (x - d - 1) = unat (x - d) - 1" and "unat (x - d) \<noteq> 0"
    by (simp_all add: unat_minus_one unat_eq_0)
  moreover have "x - (d + 1) = x - d - 1"
    by simp
  ultimately show ?thesis
    using False by (simp only:) auto
qed (use that in auto)

lemma copy_up_eq:
  assumes "n \<le> 2 ^ 64" and "\<And>i j. i < j \<Longrightarrow> j < n \<Longrightarrow> d + of_nat i \<noteq> s + of_nat j"
  shows "copy_up m d s n x = (if unat (x - d) < n then m (s + (x - d)) else m x)"
  using assms
proof (induction n arbitrary: m d s)
  case (Suc n)
  have IH: "copy_up (m(d := m s)) (d + 1) (s + 1) n x =
      (if unat (x - (d + 1)) < n then (m(d := m s)) (s + 1 + (x - (d + 1))) else (m(d := m s)) x)"
  proof (rule Suc.IH)
    show "n \<le> 2 ^ 64" using Suc.prems(1) by simp
    fix i j :: nat
    assume "i < j" "j < n"
    then show "d + 1 + of_nat i \<noteq> s + 1 + of_nat j"
      using Suc.prems(2) [of "Suc i" "Suc j"] by (simp add: algebra_simps)
  qed
  have first: "d \<noteq> s + 1 + (x - (d + 1))" if "unat (x - (d + 1)) < n"
  proof -
    have "s + of_nat (Suc (unat (x - (d + 1)))) = s + 1 + (x - (d + 1))"
      by simp
    then show ?thesis
      using Suc.prems(2) [of 0 "Suc (unat (x - (d + 1)))"] that by simp
  qed
  have xd: "s + 1 + (x - (d + 1)) = s + (x - d)"
    by simp
  have last: "\<not> unat (d - (d + 1)) < n"
    using Suc.prems(1) by (simp add: unsigned_minus_1_eq_mask mask_eq_exp_minus_1)
  show ?case
    using Suc.prems(1) IH first last unat_minus_Suc [of n x d] unfolding xd by auto
qed simp

lemma copy_down_eq:
  assumes "n \<le> 2 ^ 64" and "\<And>i j. i < j \<Longrightarrow> j < n \<Longrightarrow> d + of_nat j \<noteq> s + of_nat i"
  shows "copy_down m (d + of_nat n) (s + of_nat n) n x = (if unat (x - d) < n then m (s + (x - d)) else m x)"
  using assms
proof (induction n arbitrary: m)
  case (Suc n)
  let ?m = "m(d + of_nat n := m (s + of_nat n))"
  have IH: "copy_down ?m (d + of_nat n) (s + of_nat n) n x =
      (if unat (x - d) < n then ?m (s + (x - d)) else ?m x)"
    using Suc.prems by (intro Suc.IH) auto
  have un: "unat (of_nat n :: u64) = n"
    using Suc.prems(1) by (simp add: unat_of_nat64)
  have top: "x = d + of_nat n \<longleftrightarrow> unat (x - d) = n"
    using un by (metis add_diff_cancel_left' diff_add_cancel add.commute of_nat_unat64)
  have first: "s + (x - d) \<noteq> d + of_nat n" if "unat (x - d) < n"
    using Suc.prems(2) [of "unat (x - d)" n] that by simp
  show ?case
    using IH first top by (auto simp: less_Suc_eq)
qed simp

lemma unat_add_of_nat: "unat a + i < 2 ^ 64 \<Longrightarrow> unat (a + of_nat i :: u64) = unat a + i"
  by (simp add: unat_add_nowrap unat_of_nat64)

lemma memmove_eq [mem_simps]:
  assumes "unat src + n < 2 ^ 64" and "unat dst + n < 2 ^ 64"
  shows "memmove m dst src n = (\<lambda>x. if unat (x - dst) < n then m (src + (x - dst)) else m x)"
proof (rule ext)
  fix x
  have ends: "unat (src + of_nat n) = unat src + n"
    using assms(1) by (rule unat_add_of_nat)
  have at: "unat (src + of_nat i) = unat src + i" "unat (dst + of_nat i) = unat dst + i" if "i < n" for i
    using that assms by (simp_all add: unat_add_of_nat)
  show "memmove m dst src n x = (if unat (x - dst) < n then m (src + (x - dst)) else m x)"
  proof (cases "src < dst \<and> src + of_nat n > dst")
    case True
    then have "dst + of_nat j \<noteq> src + of_nat i" if "i < j" "j < n" for i j
      using at [of i] at [of j] that by (auto simp: word_less_nat_alt dest: arg_cong [where f = unat])
    then show ?thesis
      using True assms(1) by (simp add: memmove_def copy_down_eq)
  next
    case False
    then have "dst + of_nat i \<noteq> src + of_nat j" if "i < j" "j < n" for i j
      using at [of i] at [of j] that ends by (auto simp: word_less_nat_alt dest!: arg_cong [where f = unat])
    then show ?thesis
      using False assms(1) by (auto simp: memmove_def copy_up_eq)
  qed
qed

section \<open>Bounded strings\<close>

lemma cstr_take_0 [simp]: "cstr_take 0 s = []"
  by (simp add: cstr_take_def)

lemma cstr_take_Suc:
  "cstr_take (Suc n) s = (if s 0 = 0 then [] else s 0 # cstr_take n (\<lambda>i. s (Suc i)))"
proof -
  have "map s [0..<Suc n] = s 0 # map (\<lambda>i. s (Suc i)) [0..<n]"
    by (simp add: upt_conv_Cons map_Suc_upt [symmetric] del: upt_Suc)
  then show ?thesis
    by (simp add: cstr_take_def del: upt_Suc)
qed

lemma cstr_take_cong: "(\<And>i. i < n \<Longrightarrow> s i = t i) \<Longrightarrow> cstr_take n s = cstr_take n t"
  unfolding cstr_take_def by (rule arg_cong [where f = "takeWhile _"]) simp

lemma memcmp_eq_0_iff: "memcmp s1 s2 n = 0 \<longleftrightarrow> (\<forall>i<n. s1 i = s2 i)"
  by (induction s1 s2 n rule: memcmp.induct)
    (auto simp: All_less_Suc2 word_uint_eq_iff)

lemma strncmp_eq_0_iff: "strncmp p q n = 0 \<longleftrightarrow> cstr_take n p = cstr_take n q"
  by (induction p q n rule: strncmp.induct)
    (auto simp: cstr_take_Suc word_uint_eq_iff)

lemma zero_fill_eq: "zero_fill s i n = (\<lambda>j. if i \<le> j \<and> j < i + n then 0 else s j)"
  by (induction n arbitrary: s i) (auto simp: fun_eq_iff)

lemma strncpy_loop_eq:
  "strncpy_loop s t i n =
     (\<lambda>j. if i \<le> j \<and> j < i + n then (if \<forall>k. i \<le> k \<longrightarrow> k < j \<longrightarrow> t k \<noteq> 0 then t j else 0) else s j)"
proof (induction n arbitrary: s i)
  case (Suc n)
  show ?case
  proof (cases "t i = 0")
    case True
    then show ?thesis
      by (auto simp: fun_eq_iff zero_fill_eq)
  next
    case False
    then have "(\<forall>k. i \<le> k \<longrightarrow> k < j \<longrightarrow> t k \<noteq> 0) \<longleftrightarrow> (\<forall>k. Suc i \<le> k \<longrightarrow> k < j \<longrightarrow> t k \<noteq> 0)" for j
      by (metis Suc_leD Suc_leI le_neq_implies_less)
    then show ?thesis
      using False by (simp add: fun_eq_iff Suc.IH)
  qed
qed (auto simp: fun_eq_iff)

lemma strncpy_eq:
  "strncpy s t n = (\<lambda>j. if int j < n then (if \<forall>k<j. t k \<noteq> 0 then t j else 0) else s j)"
  by (auto simp: strncpy_def strncpy_loop_eq fun_eq_iff)

lemma cstr_take_eqI:
  "(\<And>i. i < n \<Longrightarrow> \<forall>j<i. t j \<noteq> 0 \<Longrightarrow> s i = t i) \<Longrightarrow> cstr_take n s = cstr_take n t"
proof (induction n arbitrary: s t)
  case (Suc n)
  have hd: "s 0 = t 0"
    using Suc.prems [of 0] by simp
  have "cstr_take n (\<lambda>i. s (Suc i)) = cstr_take n (\<lambda>i. t (Suc i))" if "t 0 \<noteq> 0"
    using that by (intro Suc.IH Suc.prems) (auto simp: less_Suc_eq_0_disj)
  with hd show ?case
    by (simp add: cstr_take_Suc)
qed simp

lemma cstr_take_strncpy: "cstr_take (nat n) (strncpy s t n) = cstr_take (nat n) t"
  by (rule cstr_take_eqI) (auto simp: strncpy_eq)

section \<open>Terminated strings\<close>

lemma safestrcpy_loop_frame: "j < i \<or> i + k < j \<Longrightarrow> safestrcpy_loop s t i k j = s j"
  by (induction k arbitrary: s i) auto

lemma safestrcpy_loop_nul: "\<exists>j\<le>i + k. i \<le> j \<and> safestrcpy_loop s t i k j = 0"
proof (induction k arbitrary: s i)
  case 0
  show ?case by (rule exI [of _ i]) simp
next
  case (Suc k)
  obtain j where "j \<le> Suc i + k" "Suc i \<le> j" "safestrcpy_loop (s(i := t i)) t (Suc i) k j = 0"
    using Suc.IH by blast
  then have "t i \<noteq> 0 \<Longrightarrow> ?case"
    by (intro exI [of _ j]) simp
  moreover have "t i = 0 \<Longrightarrow> ?case"
    by (rule exI [of _ "Suc i"]) simp
  ultimately show ?case by blast
qed

lemma strlen_from_Some:
  "s m = 0 \<Longrightarrow> n \<le> m \<Longrightarrow> (\<And>i. n \<le> i \<Longrightarrow> i < m \<Longrightarrow> s i \<noteq> 0) \<Longrightarrow> strlen_from s n = Some m"
proof (induction "m - n" arbitrary: n)
  case 0
  then show ?case by (simp add: strlen_from.simps)
next
  case (Suc k)
  then have "s n \<noteq> 0" by simp
  moreover have "strlen_from s (Suc n) = Some m"
    using Suc by (intro Suc.hyps(1)) auto
  ultimately show ?case
    by (subst strlen_from.simps) simp
qed

lemma strlen_fromD: "strlen_from s n = Some m \<Longrightarrow> s m = 0 \<and> n \<le> m \<and> (\<forall>i. n \<le> i \<longrightarrow> i < m \<longrightarrow> s i \<noteq> 0)"
proof (rule strlen_from.raw_induct
    [where P = "\<lambda>s n m. s m = 0 \<and> n \<le> m \<and> (\<forall>i. n \<le> i \<longrightarrow> i < m \<longrightarrow> s i \<noteq> 0)"])
  fix f :: "cstr \<Rightarrow> nat \<Rightarrow> nat option" and s n m
  assume IH: "\<And>s n m. f s n = Some m \<Longrightarrow> s m = 0 \<and> n \<le> m \<and> (\<forall>i. n \<le> i \<longrightarrow> i < m \<longrightarrow> s i \<noteq> 0)"
    and eq: "(if s n \<noteq> 0 then f s (Suc n) else Some n) = Some m"
  show "s m = 0 \<and> n \<le> m \<and> (\<forall>i. n \<le> i \<longrightarrow> i < m \<longrightarrow> s i \<noteq> 0)"
  proof (cases "s n = 0")
    case False
    with eq have "f s (Suc n) = Some m" by simp
    from IH [OF this] False show ?thesis
      by (metis Suc_leD Suc_leI le_neq_implies_less)
  qed (use eq in simp)
qed

lemma strlen_Some_iff: "strlen s = Some n \<longleftrightarrow> s n = 0 \<and> (\<forall>i<n. s i \<noteq> 0)"
proof
  assume "strlen s = Some n"
  then show "s n = 0 \<and> (\<forall>i<n. s i \<noteq> 0)"
    using strlen_fromD [of s 0 n] by (simp add: strlen_def)
next
  assume "s n = 0 \<and> (\<forall>i<n. s i \<noteq> 0)"
  then show "strlen s = Some n"
    unfolding strlen_def by (intro strlen_from_Some) simp_all
qed

lemma cstr_take_SucI:
  assumes "\<And>i. i < k \<Longrightarrow> \<forall>j<i. t j \<noteq> 0 \<Longrightarrow> s i = t i" and "\<forall>j<k. t j \<noteq> 0 \<Longrightarrow> s k = 0"
  shows "cstr_take (Suc k) s = cstr_take k t"
  using assms
proof (induction k arbitrary: s t)
  case 0
  then show ?case by (simp add: cstr_take_Suc)
next
  case (Suc k)
  have hd: "s 0 = t 0"
    using Suc.prems(1) [of 0] by simp
  have "cstr_take (Suc k) (\<lambda>i. s (Suc i)) = cstr_take k (\<lambda>i. t (Suc i))" if "t 0 \<noteq> 0"
    using that by (intro Suc.IH Suc.prems) (auto simp: less_Suc_eq_0_disj)
  with hd show ?case
    by (simp add: cstr_take_Suc [of "Suc k" s] cstr_take_Suc [of k t])
qed

lemma safestrcpy_loop_copy:
  "i \<le> j \<Longrightarrow> j < i + k \<Longrightarrow> \<forall>m. i \<le> m \<longrightarrow> m < j \<longrightarrow> t m \<noteq> 0 \<Longrightarrow> safestrcpy_loop s t i k j = t j"
proof (induction k arbitrary: s i)
  case (Suc k)
  show ?case
  proof (cases "i = j")
    case True
    then show ?thesis by (simp add: safestrcpy_loop_frame)
  next
    case False
    then have "t i \<noteq> 0" and "Suc i \<le> j"
      using Suc.prems by simp_all
    then show ?thesis
      using Suc.prems Suc.IH [of "Suc i"] by simp
  qed
qed simp

lemma safestrcpy_loop_end:
  "\<forall>m. i \<le> m \<longrightarrow> m < i + k \<longrightarrow> t m \<noteq> 0 \<Longrightarrow> safestrcpy_loop s t i k (i + k) = 0"
proof (induction k arbitrary: s i)
  case (Suc k)
  have "safestrcpy_loop s' t (Suc i) k (Suc i + k) = 0" for s'
    using Suc.prems by (intro Suc.IH) simp
  with Suc.prems show ?case by simp
qed simp

lemma cstr_take_safestrcpy: "0 < n \<Longrightarrow> cstr_take (nat n) (safestrcpy s t n) = cstr_take (nat n - 1) t"
proof -
  assume "0 < n"
  then obtain k where k: "nat n = Suc k"
    by (metis gr0_conv_Suc zero_less_nat_eq)
  have "cstr_take (Suc k) (safestrcpy_loop s t 0 k) = cstr_take k t"
    using safestrcpy_loop_end [of 0 k t s] by (intro cstr_take_SucI safestrcpy_loop_copy) simp_all
  with \<open>0 < n\<close> k show ?thesis
    by (simp add: safestrcpy_def)
qed

end
