(* ===== verification/Spinlock.thy ===== *)
theory Spinlock
  imports Prelude
begin

text \<open>
  \<^verbatim>\<open>kernel/spinlock.c\<close>: spin locks and the nesting of interrupt disabling. The first
  part gives each function as one transition of the calling hart; the second gives the
  interleaving of any number of harts, one memory access per step, and shows mutual exclusion
  and that an uncontended \<open>acquire\<close> or \<open>release\<close> is a run of those steps.
\<close>

section \<open>Harts and locks\<close>

text \<open>
  The part of \<open>struct cpu\<close> that locking uses, with the hart's number (register \<open>tp\<close>) and its
  \<open>sstatus.SIE\<close> bit.
\<close>

record cpu =
  hartid :: nat
  noff :: int
  intena :: int
  sie :: bool

text \<open>\<open>lk_cpu\<close> is the index of the \<open>struct cpu\<close> pointed to, \<open>None\<close> for the null pointer.\<close>

record spinlock =
  locked :: u32
  lk_name :: string
  lk_cpu :: "nat option"

definition intr_on :: "cpu \<Rightarrow> cpu" where
  "intr_on c = c\<lparr>sie := True\<rparr>"

definition intr_off :: "cpu \<Rightarrow> cpu" where
  "intr_off c = c\<lparr>sie := False\<rparr>"

definition intr_get :: "cpu \<Rightarrow> int" where
  "intr_get c = (if sie c then 1 else 0)"

definition initlock :: "spinlock \<Rightarrow> string \<Rightarrow> spinlock" where
  "initlock lk name = lk\<lparr>lk_name := name, locked := 0, lk_cpu := None\<rparr>"

definition push_off :: "cpu \<Rightarrow> cpu" where
  "push_off c =
     (let old = intr_get c;
          c1 = intr_off c;
          c2 = (if noff c1 = 0 then c1\<lparr>intena := old\<rparr> else c1)
      in c2\<lparr>noff := noff c2 + 1\<rparr>)"

definition pop_off :: "cpu \<Rightarrow> fault + cpu" where
  "pop_off c =
     (if intr_get c \<noteq> 0 then Inl (Panic ''pop_off - interruptible'')
      else if noff c < 1 then Inl (Panic ''pop_off'')
      else let c1 = c\<lparr>noff := noff c - 1\<rparr>
           in Inr (if noff c1 = 0 \<and> intena c1 \<noteq> 0 then intr_on c1 else c1))"

definition holding :: "spinlock \<Rightarrow> cpu \<Rightarrow> bool" where
  "holding lk c \<longleftrightarrow> locked lk \<noteq> 0 \<and> lk_cpu lk = Some (hartid c)"

text \<open>
  \<open>acquire\<close> with no other hart moving: the test-and-set loop ends at once when the lock is
  free and never when it is not.
\<close>

definition acquire :: "spinlock \<Rightarrow> cpu \<Rightarrow> fault + spinlock \<times> cpu" where
  "acquire lk c =
     (let c1 = push_off c
      in if holding lk c1 then Inl (Panic ''acquire'')
         else if locked lk \<noteq> 0 then Inl Spin
         else Inr (lk\<lparr>locked := 1, lk_cpu := Some (hartid c1)\<rparr>, c1))"

definition release :: "spinlock \<Rightarrow> cpu \<Rightarrow> fault + spinlock \<times> cpu" where
  "release lk c =
     (if \<not> holding lk c then Inl (Panic ''release'')
      else let lk1 = lk\<lparr>lk_cpu := None\<rparr>; lk2 = lk1\<lparr>locked := 0\<rparr>
           in bindr (pop_off c) (\<lambda>c1. Inr (lk2, c1)))"

section \<open>Nesting of interrupt disabling\<close>

text \<open>A hart at rest: the nesting depth is not negative, and interrupts are off inside a nest.\<close>

definition cpu_ok :: "cpu \<Rightarrow> bool" where
  "cpu_ok c \<longleftrightarrow> 0 \<le> noff c \<and> (0 < noff c \<longrightarrow> \<not> sie c)"

text \<open>What a matched pair leaves behind: only the saved flag may differ.\<close>

definition settle :: "cpu \<Rightarrow> cpu" where
  "settle c = (if noff c = 0 then c\<lparr>intena := intr_get c\<rparr> else c)"

definition lk_free :: "spinlock \<Rightarrow> bool" where
  "lk_free lk \<longleftrightarrow> locked lk = 0 \<and> lk_cpu lk = None"

lemmas spin_defs = intr_on_def intr_off_def intr_get_def push_off_def pop_off_def holding_def
  acquire_def release_def Let_def

lemma settle_simps [simp]:
  "hartid (settle c) = hartid c" "noff (settle c) = noff c" "sie (settle c) = sie c"
  "settle (settle c) = settle c" "cpu_ok (settle c) = cpu_ok c"
  by (simp_all add: settle_def intr_get_def cpu_ok_def)

lemma push_off_ok: "cpu_ok c \<Longrightarrow> cpu_ok (push_off c)"
  by (auto simp: cpu_ok_def spin_defs)

lemma push_pop_off: "cpu_ok c \<Longrightarrow> pop_off (push_off c) = Inr (settle c)"
  by (cases c) (auto simp: cpu_ok_def settle_def spin_defs)

lemma settle_held:
  assumes "cpu_ok c" and "settle c' = settle (push_off c)"
  shows "c' = push_off c"
proof -
  have n: "noff (push_off c) \<noteq> 0"
    using assms(1) by (auto simp: cpu_ok_def spin_defs)
  have "noff c' = noff (push_off c)"
    using arg_cong [OF assms(2), of noff] by simp
  then show ?thesis
    using assms(2) n by (simp add: settle_def)
qed

lemma acquire_free: "lk_free lk \<Longrightarrow>
  acquire lk c = Inr (lk\<lparr>locked := 1, lk_cpu := Some (hartid c)\<rparr>, push_off c)"
  by (auto simp: lk_free_def spin_defs)

lemma release_held:
  "lk_free lk \<Longrightarrow> cpu_ok c \<Longrightarrow>
   release (lk\<lparr>locked := 1, lk_cpu := Some (hartid c)\<rparr>) (push_off c) = Inr (lk, settle c)"
  using push_pop_off [of c] by (cases lk) (auto simp: release_def holding_def lk_free_def push_off_def
      intr_off_def Let_def)

text \<open>\<open>k\<close> nested pushes and then \<open>k\<close> pops.\<close>

fun pop_offs :: "nat \<Rightarrow> cpu \<Rightarrow> fault + cpu" where
  "pop_offs 0 c = Inr c"
| "pop_offs (Suc k) c = bindr (pop_off c) (pop_offs k)"

lemma pop_offs_push_offs:
  "cpu_ok c \<Longrightarrow> 0 < k \<Longrightarrow> pop_offs k ((push_off ^^ k) c) = Inr (settle c)"
proof (induction k)
  case (Suc k)
  show ?case
  proof (cases "k = 0")
    case True
    then show ?thesis using Suc.prems by (simp add: push_pop_off)
  next
    case False
    have ok: "cpu_ok ((push_off ^^ k) c)" for k
      using Suc.prems(1) by (induction k) (auto intro: push_off_ok)
    have pos: "0 < noff ((push_off ^^ k) c)"
      using ok [of "k - 1"] False by (cases k) (auto simp: cpu_ok_def spin_defs)
    have "pop_off (push_off ((push_off ^^ k) c)) = Inr ((push_off ^^ k) c)"
      using push_pop_off [OF ok [of k]] pos by (simp add: settle_def)
    then show ?thesis
      using Suc False by simp
  qed
qed simp

section \<open>Interleaving of harts\<close>

text \<open>
  Where a hart is in the lock's code: outside; spinning in the test-and-set loop; past the
  swap that took the lock but before \<open>lk->cpu\<close> is written; in its critical section; in
  \<open>release\<close> after clearing \<open>lk->cpu\<close> and before clearing \<open>lk->locked\<close>; after that and
  before \<open>pop_off\<close>.
\<close>

datatype lkpc = Outside | Spinning | Taken | Critical | Dropping | Dropped

record smp =
  slock :: spinlock
  sharts :: "nat \<Rightarrow> cpu"
  spc :: "nat \<Rightarrow> lkpc"

inductive lock_step :: "smp \<Rightarrow> smp \<Rightarrow> bool" where
  enter: "spc s i = Outside \<Longrightarrow> \<not> holding (slock s) (push_off (sharts s i)) \<Longrightarrow>
     lock_step s (s\<lparr>sharts := (sharts s)(i := push_off (sharts s i)), spc := (spc s)(i := Spinning)\<rparr>)"
| spin: "spc s i = Spinning \<Longrightarrow> locked (slock s) \<noteq> 0 \<Longrightarrow>
     lock_step s (s\<lparr>slock := (slock s)\<lparr>locked := 1\<rparr>\<rparr>)"
| take_it: "spc s i = Spinning \<Longrightarrow> locked (slock s) = 0 \<Longrightarrow>
     lock_step s (s\<lparr>slock := (slock s)\<lparr>locked := 1\<rparr>, spc := (spc s)(i := Taken)\<rparr>)"
| record_cpu: "spc s i = Taken \<Longrightarrow>
     lock_step s (s\<lparr>slock := (slock s)\<lparr>lk_cpu := Some (hartid (sharts s i))\<rparr>,
                    spc := (spc s)(i := Critical)\<rparr>)"
| drop_cpu: "spc s i = Critical \<Longrightarrow> holding (slock s) (sharts s i) \<Longrightarrow>
     lock_step s (s\<lparr>slock := (slock s)\<lparr>lk_cpu := None\<rparr>, spc := (spc s)(i := Dropping)\<rparr>)"
| drop_lock: "spc s i = Dropping \<Longrightarrow>
     lock_step s (s\<lparr>slock := (slock s)\<lparr>locked := 0\<rparr>, spc := (spc s)(i := Dropped)\<rparr>)"
| leave: "spc s i = Dropped \<Longrightarrow> pop_off (sharts s i) = Inr c \<Longrightarrow>
     lock_step s (s\<lparr>sharts := (sharts s)(i := c), spc := (spc s)(i := Outside)\<rparr>)"

definition smp_init :: "smp \<Rightarrow> bool" where
  "smp_init s \<longleftrightarrow> lk_free (slock s) \<and> (\<forall>i. spc s i = Outside \<and> hartid (sharts s i) = i \<and> cpu_ok (sharts s i))"

inductive lock_reach :: "smp \<Rightarrow> bool" where
  start: "smp_init s \<Longrightarrow> lock_reach s"
| step: "lock_reach s \<Longrightarrow> lock_step s t \<Longrightarrow> lock_reach t"

definition owns :: "lkpc \<Rightarrow> bool" where
  "owns p \<longleftrightarrow> p \<in> {Taken, Critical, Dropping}"

text \<open>
  The invariant ties the lock word to the harts: at most one hart is between the swap and the
  clearing of the word, the word is set exactly then, and \<open>lk->cpu\<close> names a hart exactly
  while that hart is in its critical section.
\<close>

definition lock_inv :: "smp \<Rightarrow> bool" where
  "lock_inv s \<longleftrightarrow>
     (\<forall>i. hartid (sharts s i) = i) \<and>
     (\<forall>i j. owns (spc s i) \<longrightarrow> owns (spc s j) \<longrightarrow> i = j) \<and>
     (locked (slock s) \<noteq> 0 \<longleftrightarrow> (\<exists>i. owns (spc s i))) \<and>
     (\<forall>i. lk_cpu (slock s) = Some i \<longleftrightarrow> spc s i = Critical)"

lemma hartid_push_off [simp]: "hartid (push_off c) = hartid c"
  by (simp add: spin_defs)

lemma hartid_pop_off: "pop_off c = Inr c' \<Longrightarrow> hartid c' = hartid c"
  by (auto simp: spin_defs split: if_splits)

lemma owns_simps [simp]:
  "owns Taken" "owns Critical" "owns Dropping" "\<not> owns Outside" "\<not> owns Spinning" "\<not> owns Dropped"
  by (simp_all add: owns_def)

lemma lock_inv_init: "smp_init s \<Longrightarrow> lock_inv s"
  by (auto simp: smp_init_def lock_inv_def lk_free_def)

text \<open>A step of one hart that neither enters nor leaves the owning phase keeps the owners.\<close>

lemma ex_owns_upd: "owns p = owns (f i) \<Longrightarrow> (\<exists>j. owns ((f(i := p)) j)) = (\<exists>j. owns (f j))"
  by (metis fun_upd_apply)

lemma lock_step_inv: "lock_step s t \<Longrightarrow> lock_inv s \<Longrightarrow> lock_inv t"
proof (induction rule: lock_step.induct)
  case (enter s i)
  then show ?case
    using ex_owns_upd [of Spinning "spc s" i] by (auto simp: lock_inv_def)
next
  case (spin s i)
  then show ?case by (auto simp: lock_inv_def)
next
  case (take_it s i)
  then show ?case by (auto simp: lock_inv_def)
next
  case (record_cpu s i)
  then have "\<And>j. owns (spc s j) \<longleftrightarrow> j = i"
    unfolding lock_inv_def by (metis owns_simps(1))
  with record_cpu show ?case
    using ex_owns_upd [of Critical "spc s" i] by (auto simp: lock_inv_def) (metis owns_simps(2))
next
  case (drop_cpu s i)
  then have "\<And>j. owns (spc s j) \<longleftrightarrow> j = i"
    unfolding lock_inv_def by (metis owns_simps(2))
  with drop_cpu show ?case
    using ex_owns_upd [of Dropping "spc s" i] by (auto simp: lock_inv_def) (metis owns_simps(2))
next
  case (drop_lock s i)
  then have "\<And>j. owns (spc s j) \<longleftrightarrow> j = i"
    unfolding lock_inv_def by (metis owns_simps(3))
  with drop_lock show ?case
    by (auto simp: lock_inv_def)
next
  case (leave s i c)
  then show ?case
    using ex_owns_upd [of Outside "spc s" i] by (auto simp: lock_inv_def hartid_pop_off)
qed

lemma lock_reach_inv: "lock_reach s \<Longrightarrow> lock_inv s"
  by (induction rule: lock_reach.induct) (auto intro: lock_inv_init lock_step_inv)

inductive_simps lock_step_from: "lock_step s t"

text \<open>The first hart of a machine at rest, and the state after it took the lock.\<close>

definition smp0 :: smp where
  "smp0 = \<lparr>slock = \<lparr>locked = 0, lk_name = ''kmem'', lk_cpu = None\<rparr>,
           sharts = (\<lambda>i. \<lparr>hartid = i, noff = 0, intena = 0, sie = True\<rparr>),
           spc = (\<lambda>_. Outside)\<rparr>"

lemma smp0_init: "smp_init smp0"
  by (simp add: smp_init_def smp0_def lk_free_def cpu_ok_def)

lemma lock_reach_rtranclp: "lock_step\<^sup>*\<^sup>* s t \<Longrightarrow> lock_reach s \<Longrightarrow> lock_reach t"
  by (induction rule: rtranclp_induct) (auto intro: lock_reach.step)

lemma three_steps:
  "lock_step a b \<Longrightarrow> lock_step b c \<Longrightarrow> lock_step c d \<Longrightarrow> lock_step\<^sup>*\<^sup>* a d"
  by (meson converse_rtranclp_into_rtranclp rtranclp.rtrancl_refl)

section \<open>Properties\<close>

text \<open>
  C1. In every state any number of harts can reach by interleaving their lock operations, at
  most one is in its critical section, and \<open>holding\<close> answers yes exactly for that one, whatever
  the others are doing with the lock word at that moment.
\<close>

theorem spinlock_mutual_exclusion:
  assumes "lock_reach s"
  shows "(\<forall>i j. spc s i = Critical \<and> spc s j = Critical \<longrightarrow> i = j) \<and>
         (\<forall>i. holding (slock s) (sharts s i) \<longleftrightarrow> spc s i = Critical)"
proof -
  from assms have inv: "lock_inv s"
    by (rule lock_reach_inv)
  then have "i = j" if "spc s i = Critical" "spc s j = Critical" for i j
    using that unfolding lock_inv_def by (metis owns_simps(2))
  moreover have "holding (slock s) (sharts s i) \<longleftrightarrow> spc s i = Critical" for i
    using inv unfolding lock_inv_def holding_def by (metis owns_simps(2))
  ultimately show ?thesis by blast
qed

text \<open>
  C2. The one-transition \<open>acquire\<close> and \<open>release\<close> that the other components are modelled with
  are faithful to the interleaving: when they return, the fine-grained steps of that hart lead,
  with no other hart moving, from the same lock and hart to the same lock and hart.
\<close>

theorem acquire_release_refine:
  "(acquire (slock s) (sharts s i) = Inr (lk, c) \<and> spc s i = Outside \<longrightarrow>
      lock_step\<^sup>*\<^sup>* s (s\<lparr>slock := lk, sharts := (sharts s)(i := c), spc := (spc s)(i := Critical)\<rparr>)) \<and>
   (release (slock s) (sharts s i) = Inr (lk, c) \<and> spc s i = Critical \<longrightarrow>
      lock_step\<^sup>*\<^sup>* s (s\<lparr>slock := lk, sharts := (sharts s)(i := c), spc := (spc s)(i := Outside)\<rparr>))"
proof (intro conjI impI; elim conjE)
  assume acq: "acquire (slock s) (sharts s i) = Inr (lk, c)" and out: "spc s i = Outside"
  then have free: "locked (slock s) = 0" and c: "c = push_off (sharts s i)"
    and lk: "lk = (slock s)\<lparr>locked := 1, lk_cpu := Some (hartid c)\<rparr>"
    by (auto simp: acquire_def Let_def split: if_splits)
  let ?s1 = "s\<lparr>sharts := (sharts s)(i := c), spc := (spc s)(i := Spinning)\<rparr>"
  let ?s2 = "?s1\<lparr>slock := (slock s)\<lparr>locked := 1\<rparr>, spc := (spc s)(i := Taken)\<rparr>"
  have 1: "lock_step s ?s1"
    using lock_step.enter [OF out] free c by (simp add: holding_def)
  have 2: "lock_step ?s1 ?s2"
    using lock_step.take_it [of ?s1 i] free by simp
  have 3: "lock_step ?s2 (s\<lparr>slock := lk, sharts := (sharts s)(i := c), spc := (spc s)(i := Critical)\<rparr>)"
    using lock_step.record_cpu [of ?s2 i] lk by (cases s) simp
  from 1 2 3 show "lock_step\<^sup>*\<^sup>* s (s\<lparr>slock := lk, sharts := (sharts s)(i := c), spc := (spc s)(i := Critical)\<rparr>)"
    by (rule three_steps)
next
  assume rel: "release (slock s) (sharts s i) = Inr (lk, c)" and crit: "spc s i = Critical"
  then have h: "holding (slock s) (sharts s i)" and c: "pop_off (sharts s i) = Inr c"
    and lk: "lk = (slock s)\<lparr>lk_cpu := None, locked := 0\<rparr>"
    by (auto simp: release_def Let_def fault_simps split: if_splits)
  let ?s1 = "s\<lparr>slock := (slock s)\<lparr>lk_cpu := None\<rparr>, spc := (spc s)(i := Dropping)\<rparr>"
  let ?s2 = "s\<lparr>slock := lk, spc := (spc s)(i := Dropped)\<rparr>"
  have 1: "lock_step s ?s1"
    using lock_step.drop_cpu [OF crit h] .
  have 2: "lock_step ?s1 ?s2"
    using lock_step.drop_lock [of ?s1 i] lk by (cases s) simp
  have 3: "lock_step ?s2 (s\<lparr>slock := lk, sharts := (sharts s)(i := c), spc := (spc s)(i := Outside)\<rparr>)"
    using lock_step.leave [of ?s2 i c] c by (cases s) simp
  from 1 2 3 show "lock_step\<^sup>*\<^sup>* s (s\<lparr>slock := lk, sharts := (sharts s)(i := c), spc := (spc s)(i := Outside)\<rparr>)"
    by (rule three_steps)
qed

text \<open>The first hart enters its critical section from the initial state.\<close>

definition smp1 :: smp where
  "smp1 = smp0\<lparr>slock := (slock smp0)\<lparr>locked := 1, lk_cpu := Some 0\<rparr>,
               sharts := (sharts smp0)(0 := push_off (sharts smp0 0)),
               spc := (spc smp0)(0 := Critical)\<rparr>"

theorem acquire_release_refine_witness:
  "acquire (slock smp0) (sharts smp0 0) = Inr (slock smp1, sharts smp1 0) \<and>
   spc smp0 0 = Outside \<and> lock_step\<^sup>*\<^sup>* smp0 smp1"
proof -
  have acq: "acquire (slock smp0) (sharts smp0 0) = Inr (slock smp1, sharts smp1 0)"
    by (simp add: smp0_def smp1_def spin_defs)
  have out: "spc smp0 0 = Outside"
    by (simp add: smp0_def)
  from acquire_release_refine [of smp0 0 "slock smp1" "sharts smp1 0"] acq out show ?thesis
    by (simp add: smp1_def)
qed

lemma smp1_reach: "lock_reach smp1"
proof -
  let ?s1 = "smp0\<lparr>sharts := (sharts smp0)(0 := push_off (sharts smp0 0)), spc := (spc smp0)(0 := Spinning)\<rparr>"
  let ?s2 = "?s1\<lparr>slock := (slock smp0)\<lparr>locked := 1\<rparr>, spc := (spc smp0)(0 := Taken)\<rparr>"
  have "lock_reach smp0"
    by (rule lock_reach.start [OF smp0_init])
  moreover have "lock_step smp0 ?s1"
    by (rule lock_step.enter) (simp_all add: smp0_def holding_def)
  moreover have "lock_step ?s1 ?s2"
    using lock_step.take_it [of ?s1 0] by (simp add: smp0_def)
  moreover have "lock_step ?s2 smp1"
    using lock_step.record_cpu [of ?s2 0] by (simp add: smp0_def smp1_def)
  ultimately show ?thesis
    by (meson lock_reach.step)
qed

theorem spinlock_mutual_exclusion_witness:
  "lock_reach smp1 \<and> spc smp1 0 = Critical \<and> holding (slock smp1) (sharts smp1 0) \<and>
   \<not> holding (slock smp1) (sharts smp1 1)"
proof -
  have "spc smp1 0 = Critical" "spc smp1 1 = Outside"
    by (simp_all add: smp1_def smp0_def)
  then show ?thesis
    using spinlock_mutual_exclusion [OF smp1_reach] smp1_reach by simp
qed

text \<open>
  \<open>push_off\<close> and \<open>pop_off\<close> are matched: after any number of nested pushes and as many pops
  the nesting depth and the interrupt state of the hart are what they were, without a panic.
\<close>

lemma push_pop_off_matched:
  assumes "cpu_ok c"
  shows "\<exists>c'. pop_offs k ((push_off ^^ k) c) = Inr c' \<and> noff c' = noff c \<and> sie c' = sie c"
proof (cases "k = 0")
  case False
  with assms show ?thesis
    by (simp add: pop_offs_push_offs)
qed simp

lemma push_pop_off_matched_witness:
  "cpu_ok (sharts smp0 0) \<and>
   (\<exists>c'. pop_offs 3 ((push_off ^^ 3) (sharts smp0 0)) = Inr c' \<and> noff c' = 0 \<and> sie c')"
proof -
  have ok: "cpu_ok (sharts smp0 0)"
    by (simp add: smp0_def cpu_ok_def)
  then show ?thesis
    using push_pop_off_matched [OF ok, of 3] by (simp add: smp0_def)
qed

end
