(* ===== verification/Kalloc.thy ===== *)
theory Kalloc
  imports Cstring Spinlock
begin

text \<open>
  \<^verbatim>\<open>kernel/kalloc.c\<close>: the physical page allocator. The free list is the code's own: a
  pointer to the first free page and, in the first eight bytes of each free page, the pointer
  to the next. The abstract view is the list of free pages, which \<open>kalloc\<close> pops and \<open>kfree\<close>
  pushes.
\<close>

section \<open>State and operations\<close>

text \<open>
  \<open>mem\<close> is physical memory, \<open>kend\<close> the linker symbol \<open>end\<close> (first address after the
  kernel), \<open>freelist\<close> and \<open>kmem_lock\<close> the fields of \<open>kmem\<close>, and \<open>hart\<close> the calling hart.
\<close>

record kmem =
  mem :: memory
  kend :: u64
  freelist :: u64
  kmem_lock :: spinlock
  hart :: cpu

definition kfree :: "'a kmem_scheme \<Rightarrow> u64 \<Rightarrow> fault + 'a kmem_scheme" where
  "kfree s pa =
     (if pa mod PGSIZE \<noteq> 0 \<or> pa < kend s \<or> pa \<ge> PHYSTOP then Inl (Panic ''kfree'')
      else
        let s1 = s\<lparr>mem := memset (mem s) pa 1 (unat PGSIZE)\<rparr>
        in bindr (acquire (kmem_lock s1) (hart s1)) (\<lambda>(lk, c).
             let s2 = s1\<lparr>kmem_lock := lk, hart := c, mem := st64 (mem s1) pa (freelist s1)\<rparr>;
                 s3 = s2\<lparr>freelist := pa\<rparr>
             in bindr (release (kmem_lock s3) (hart s3)) (\<lambda>(lk, c).
                  Inr (s3\<lparr>kmem_lock := lk, hart := c\<rparr>))))"

definition kalloc :: "'a kmem_scheme \<Rightarrow> fault + 'a kmem_scheme \<times> u64" where
  "kalloc s =
     bindr (acquire (kmem_lock s) (hart s)) (\<lambda>(lk, c).
       let s1 = s\<lparr>kmem_lock := lk, hart := c\<rparr>;
           r = freelist s1;
           s2 = (if r \<noteq> 0 then s1\<lparr>freelist := ld64 (mem s1) r\<rparr> else s1)
       in bindr (release (kmem_lock s2) (hart s2)) (\<lambda>(lk, c).
            let s3 = s2\<lparr>kmem_lock := lk, hart := c\<rparr>
            in Inr (if r \<noteq> 0 then s3\<lparr>mem := memset (mem s3) r 5 (unat PGSIZE)\<rparr> else s3, r)))"

text \<open>The loop of \<open>freerange\<close>; it stops because \<open>kfree\<close> panics above \<open>PHYSTOP\<close>.\<close>

lemma kfree_InrD: "kfree s p = Inr s' \<Longrightarrow> unat p < unat PHYSTOP"
  by (auto simp: kfree_def word_le_nat_alt split: if_splits)

function freerange_loop :: "'a kmem_scheme \<Rightarrow> u64 \<Rightarrow> u64 \<Rightarrow> fault + 'a kmem_scheme" where
  "freerange_loop s p pa_end =
     (if p + PGSIZE \<le> pa_end
      then bindr (kfree s p) (\<lambda>s1. freerange_loop s1 (p + PGSIZE) pa_end)
      else Inr s)"
  by pat_completeness auto
termination
proof (relation "measure (\<lambda>(s, p, e). unat PHYSTOP + 4096 - unat p)", goal_cases)
  case (2 s p pa_end s1)
  then have "unat p < unat PHYSTOP"
    using kfree_InrD by blast
  then show ?case
    by (simp add: unat_add_nowrap)
qed simp

declare freerange_loop.simps [simp del]

definition freerange :: "'a kmem_scheme \<Rightarrow> u64 \<Rightarrow> u64 \<Rightarrow> fault + 'a kmem_scheme" where
  "freerange s pa_start pa_end = freerange_loop s (PGROUNDUP pa_start) pa_end"

definition kinit :: "'a kmem_scheme \<Rightarrow> fault + 'a kmem_scheme" where
  "kinit s = freerange (s\<lparr>kmem_lock := initlock (kmem_lock s) ''kmem''\<rparr>) (kend s) PHYSTOP"

section \<open>The free list\<close>

fun flist :: "memory \<Rightarrow> u64 \<Rightarrow> u64 list \<Rightarrow> bool" where
  "flist m p [] \<longleftrightarrow> p = 0"
| "flist m p (x # xs) \<longleftrightarrow> p = x \<and> x \<noteq> 0 \<and> flist m (ld64 m x) xs"

text \<open>An address \<open>kalloc\<close> may hand out.\<close>

definition ram_page :: "u64 \<Rightarrow> u64 \<Rightarrow> bool" where
  "ram_page e p \<longleftrightarrow> pg_aligned p \<and> unat e \<le> unat p \<and> unat p < unat PHYSTOP"

definition kmem_inv :: "'a kmem_scheme \<Rightarrow> u64 list \<Rightarrow> bool" where
  "kmem_inv s ps \<longleftrightarrow>
     flist (mem s) (freelist s) ps \<and> distinct ps \<and> (\<forall>p\<in>set ps. ram_page (kend s) p) \<and>
     unat KERNBASE \<le> unat (kend s) \<and> lk_free (kmem_lock s) \<and> cpu_ok (hart s)"

lemma ram_pageD:
  assumes "ram_page e p" and "unat KERNBASE \<le> unat e"
  shows "pg_aligned p" and "p \<noteq> 0" and "unat p + 4096 < 2 ^ 64" and "page_no p \<noteq> 0"
  using assms by (auto simp: ram_page_def page_no_def)

lemma flist_frame:
  assumes "flist m p ps" and "same_off_page q m m'" and "pg_aligned q"
    and "\<forall>x\<in>set ps. pg_aligned x" and "q \<notin> set ps"
  shows "flist m' p ps"
  using assms
proof (induction ps arbitrary: p)
  case (Cons x xs)
  have "page_no x \<noteq> page_no q"
    using page_no_inj [of x q] Cons.prems by auto
  then have "ld64 m' x = ld64 m x"
    using same_off_page_ld64 [of q m m' x 0] Cons.prems by simp
  then show ?case
    using Cons by simp
qed simp

lemma memset_same_off_page:
  assumes "pg_aligned p"
  shows "same_off_page p m (memset m p c 4096)"
proof (unfold same_off_page_def, intro allI impI)
  fix x
  assume neq: "page_no x \<noteq> page_no p"
  have "\<not> unat (x - p) < 4096"
  proof
    assume "unat (x - p) < 4096"
    from page_no_add [OF assms this] neq show False by simp
  qed
  then show "memset m p c 4096 x = m x"
    by (simp add: memset_eq)
qed

lemma st64_page_same_off_page: "pg_aligned p \<Longrightarrow> same_off_page p m (st64 m p v)"
  using st64_same_off_page [of p 0 m v] by simp

lemma memset_at: "k < n \<Longrightarrow> n \<le> 2 ^ 64 \<Longrightarrow> memset m p c n (p + of_nat k) = c"
  by (simp add: memset_eq unat_of_nat64)

lemma ld64_memset_page:
  assumes "i < 512"
  shows "ld64 (memset m p 0 4096) (p + of_nat (8 * i)) = 0"
proof (rule bit_eqI)
  fix n
  assume "possible_bit TYPE(64 word) n"
  then have "n < 64" by simp
  then have "8 * i + n div 8 < 4096"
    using assms by linarith
  then have "memset m p 0 4096 (p + of_nat (8 * i + n div 8)) = 0"
    by (rule memset_at) simp
  then show "bit (ld64 (memset m p 0 4096) (p + of_nat (8 * i))) n = bit (0::u64) n"
    by (simp add: bit_ld64 add.assoc)
qed

section \<open>Behaviour of the operations\<close>

lemma kalloc_none:
  assumes "kmem_inv s []"
  shows "kalloc s = Inr (s\<lparr>hart := settle (hart s)\<rparr>, 0)"
proof -
  have "lk_free (kmem_lock s)" "cpu_ok (hart s)" "freelist s = 0"
    using assms by (simp_all add: kmem_inv_def)
  then show ?thesis
    by (simp add: kalloc_def acquire_free release_held Let_def)
qed

lemma kalloc_some:
  assumes "kmem_inv s (p # ps)"
  shows "kalloc s = Inr (s\<lparr>hart := settle (hart s), freelist := ld64 (mem s) p,
                           mem := memset (mem s) p 5 4096\<rparr>, p)"
proof -
  have "lk_free (kmem_lock s)" "cpu_ok (hart s)" "freelist s = p" "p \<noteq> 0"
    using assms by (simp_all add: kmem_inv_def)
  then show ?thesis
    by (simp add: kalloc_def acquire_free release_held Let_def)
qed

lemma kmem_inv_kalloc:
  assumes "kmem_inv s (p # ps)"
    and "s' = s\<lparr>hart := settle (hart s), freelist := ld64 (mem s) p, mem := memset (mem s) p 5 4096\<rparr>"
  shows "kmem_inv s' ps"
proof -
  have inv: "flist (mem s) (ld64 (mem s) p) ps" "distinct (p # ps)" "\<forall>x\<in>set ps. pg_aligned x" "pg_aligned p"
    using assms(1) by (auto simp: kmem_inv_def ram_page_def)
  then have "flist (memset (mem s) p 5 4096) (ld64 (mem s) p) ps"
    by (intro flist_frame [OF inv(1) memset_same_off_page]) auto
  then show ?thesis
    using assms by (auto simp: kmem_inv_def)
qed

lemma kfree_eq:
  assumes "kmem_inv s ps" and "ram_page (kend s) p"
  shows "kfree s p = Inr (s\<lparr>hart := settle (hart s), freelist := p,
           mem := st64 (memset (mem s) p 1 4096) p (freelist s)\<rparr>)"
proof -
  have "p mod 4096 = 0"
    using assms(2) by (simp add: ram_page_def pg_aligned_def word_unat_eq_iff unat_mod)
  moreover have "lk_free (kmem_lock s)" "cpu_ok (hart s)"
    using assms by (simp_all add: kmem_inv_def)
  ultimately show ?thesis
    using assms(2)
    by (simp add: kfree_def acquire_free release_held Let_def ram_page_def word_less_nat_alt
        word_le_nat_alt)
qed

lemma kmem_inv_kfree:
  assumes "kmem_inv s ps" and "ram_page (kend s) p" and "p \<notin> set ps"
    and "s' = s\<lparr>hart := settle (hart s), freelist := p, mem := st64 (memset (mem s) p 1 4096) p (freelist s)\<rparr>"
  shows "kmem_inv s' (p # ps)"
proof -
  have p: "pg_aligned p" "p \<noteq> 0"
    using assms(1,2) ram_pageD [of "kend s" p] by (auto simp: kmem_inv_def)
  have "same_off_page p (mem s) (st64 (memset (mem s) p 1 4096) p (freelist s))"
    using p by (blast intro: same_off_page_trans memset_same_off_page st64_page_same_off_page)
  moreover have "flist (mem s) (freelist s) ps" "\<forall>x\<in>set ps. pg_aligned x"
    using assms(1) by (auto simp: kmem_inv_def ram_page_def)
  ultimately have "flist (st64 (memset (mem s) p 1 4096) p (freelist s)) (freelist s) ps"
    using p(1) assms(3) by (blast intro: flist_frame)
  then show ?thesis
    unfolding assms(4) using assms(1-3) p by (simp add: kmem_inv_def)
qed

lemma kmem_inv_page: "kmem_inv s ps \<Longrightarrow> p \<in> set ps \<Longrightarrow> ram_page (kend s) p"
  by (simp add: kmem_inv_def)

section \<open>The allocator's contract\<close>

text \<open>
  What clients of the allocator rely on: pages come and go at the front of a list of free
  pages, and only the page in question changes.
\<close>

locale page_allocator =
  fixes alloc :: "'s \<Rightarrow> fault + 's \<times> u64"
    and free :: "'s \<Rightarrow> u64 \<Rightarrow> fault + 's"
    and inv :: "'s \<Rightarrow> u64 list \<Rightarrow> bool"
    and mem_of :: "'s \<Rightarrow> memory"
    and valid :: "'s \<Rightarrow> u64 \<Rightarrow> bool"
  assumes alloc_none: "inv s [] \<Longrightarrow> \<exists>s'. alloc s = Inr (s', 0) \<and> inv s' [] \<and> mem_of s' = mem_of s"
    and alloc_some: "inv s (p # ps) \<Longrightarrow>
      \<exists>s'. alloc s = Inr (s', p) \<and> inv s' ps \<and> same_off_page p (mem_of s) (mem_of s') \<and> valid s' p"
    and free_page: "inv s ps \<Longrightarrow> valid s p \<Longrightarrow> p \<notin> set ps \<Longrightarrow>
      \<exists>s'. free s p = Inr s' \<and> inv s' (p # ps) \<and> same_off_page p (mem_of s) (mem_of s')"
    and inv_distinct: "inv s ps \<Longrightarrow> distinct ps"
    and inv_nonzero: "inv s ps \<Longrightarrow> 0 \<notin> set ps"
begin

lemma alloc_total: "inv s ps \<Longrightarrow> \<exists>s' p. alloc s = Inr (s', p) \<and> inv s' (tl ps) \<and> (p = 0 \<longleftrightarrow> ps = [])"
  using alloc_none [of s] alloc_some [of s "hd ps" "tl ps"] inv_nonzero [of s ps]
  by (cases ps) auto

lemma alloc_fresh: "inv s ps \<Longrightarrow> alloc s = Inr (s', p) \<Longrightarrow> p \<noteq> 0 \<Longrightarrow> p \<in> set ps \<and> p \<notin> set (tl ps)"
  using alloc_none [of s] alloc_some [of s "hd ps" "tl ps"] inv_distinct [of s ps]
  by (cases ps) auto

lemma alloc_free_alloc:
  assumes "inv s (p # ps)"
  shows "\<exists>s1 s2 s3. alloc s = Inr (s1, p) \<and> free s1 p = Inr s2 \<and> inv s2 (p # ps) \<and>
           alloc s2 = Inr (s3, p) \<and> inv s3 ps \<and> same_off_page p (mem_of s) (mem_of s3)"
proof -
  obtain s1 where s1: "alloc s = Inr (s1, p)" "inv s1 ps" "same_off_page p (mem_of s) (mem_of s1)" "valid s1 p"
    using alloc_some [OF assms] by blast
  have "p \<notin> set ps"
    using inv_distinct [OF assms] by simp
  then obtain s2 where s2: "free s1 p = Inr s2" "inv s2 (p # ps)" "same_off_page p (mem_of s1) (mem_of s2)"
    using free_page [OF s1(2,4)] by blast
  obtain s3 where "alloc s2 = Inr (s3, p)" "inv s3 ps" "same_off_page p (mem_of s2) (mem_of s3)"
    using alloc_some [OF s2(2)] by blast
  with s1 s2 show ?thesis
    by (blast intro: same_off_page_trans)
qed

end

interpretation kpages: page_allocator kalloc kfree kmem_inv mem "\<lambda>s. ram_page (kend s)"
proof (unfold_locales, goal_cases)
  case (1 s)
  then show ?case
    by (simp add: kalloc_none) (simp add: kmem_inv_def)
next
  case (2 s p ps)
  then have "ram_page (kend s) p"
    by (simp add: kmem_inv_page)
  then show ?case
    using kmem_inv_kalloc [OF 2 refl] by (simp add: kalloc_some [OF 2] memset_same_off_page ram_page_def)
next
  case (3 s ps p)
  have "same_off_page p (mem s) (st64 (memset (mem s) p 1 4096) p (freelist s))"
    using 3(2) unfolding ram_page_def
    by (blast intro: same_off_page_trans memset_same_off_page st64_page_same_off_page)
  then show ?case
    using kmem_inv_kfree [OF 3 refl] by (simp add: kfree_eq [OF 3(1,2)])
next
  case (4 s ps)
  then show ?case by (simp add: kmem_inv_def)
next
  case (5 s ps)
  then show ?case by (auto simp: kmem_inv_def ram_page_def)
qed

section \<open>Building the free list\<close>

definition pages_from :: "u64 \<Rightarrow> nat \<Rightarrow> u64 list" where
  "pages_from p n = map (\<lambda>i. p + of_nat (4096 * i)) [0..<n]"

lemma pages_from_Suc: "pages_from p (Suc n) = p # pages_from (p + 4096) n"
  by (simp add: pages_from_def upt_conv_Cons map_Suc_upt [symmetric] algebra_simps del: upt_Suc)

lemma freerange_loop_spec:
  assumes "kmem_inv s ps" and "pg_aligned p" and "unat (kend s) \<le> unat p"
    and "unat e = unat p + 4096 * n + r" and "r < 4096" and "unat e \<le> unat PHYSTOP"
    and "\<forall>x\<in>set ps. unat x < unat p"
  shows "\<exists>s'. freerange_loop s p e = Inr s' \<and> kmem_inv s' (rev (pages_from p n) @ ps) \<and>
           kend s' = kend s \<and> kmem.more s' = kmem.more s"
  using assms
proof (induction n arbitrary: s p ps)
  case 0
  then have "\<not> p + 4096 \<le> e"
    by (simp add: word_le_nat_alt unat_add_nowrap)
  then show ?case
    using 0 by (simp add: freerange_loop.simps pages_from_def)
next
  case (Suc n)
  have next_p: "unat (p + 4096) = unat p + 4096"
    using Suc.prems by (simp add: unat_add_nowrap)
  have page: "ram_page (kend s) p" "p \<notin> set ps"
    using Suc.prems by (auto simp: ram_page_def)
  obtain s1 where s1: "kfree s p = Inr s1" "kmem_inv s1 (p # ps)" "kend s1 = kend s"
      "kmem.more s1 = kmem.more s"
    using kmem_inv_kfree [OF Suc.prems(1) page refl] kfree_eq [OF Suc.prems(1) page(1)] by simp
  have "\<exists>s'. freerange_loop s1 (p + 4096) e = Inr s' \<and>
      kmem_inv s' (rev (pages_from (p + 4096) n) @ p # ps) \<and> kend s' = kend s1 \<and>
      kmem.more s' = kmem.more s1"
  proof (rule Suc.IH [OF s1(2)])
    show "pg_aligned (p + 4096)"
      using Suc.prems(2) next_p by (simp add: pg_aligned_def)
    show "unat e = unat (p + 4096) + 4096 * n + r"
      using Suc.prems(4) next_p by simp
  qed (use Suc.prems next_p s1(3) in auto)
  moreover have "p + 4096 \<le> e"
    using Suc.prems next_p by (simp add: word_le_nat_alt)
  ultimately show ?case
    using s1 by (subst freerange_loop.simps) (auto simp: pages_from_Suc)
qed

section \<open>Properties\<close>

text \<open>
  C3. Booting the allocator: from an empty free list \<open>kinit\<close> returns without a panic and the
  free list then holds every whole page between the end of the kernel and \<open>PHYSTOP\<close>, each
  once, and nothing else.
\<close>

theorem kinit_free_pages:
  assumes "freelist s = 0" and "cpu_ok (hart s)"
    and "unat KERNBASE \<le> unat (kend s)" and "unat (kend s) \<le> unat PHYSTOP"
  shows "\<exists>s' ps. kinit s = Inr s' \<and> kmem_inv s' ps \<and> kend s' = kend s \<and>
           set ps = {p. ram_page (kend s) p}"
proof -
  let ?s0 = "s\<lparr>kmem_lock := initlock (kmem_lock s) ''kmem''\<rparr>" and ?p = "PGROUNDUP (kend s)"
  have inv0: "kmem_inv ?s0 []"
    using assms by (simp add: kmem_inv_def initlock_def lk_free_def)
  have up: "unat ?p = (unat (kend s) + 4095) div 4096 * 4096"
    using assms(4) by (intro unat_PGROUNDUP) simp
  then have ge: "unat (kend s) \<le> unat ?p" and le: "unat ?p \<le> unat PHYSTOP"
    using assms(4) by simp_all
  define n where "n = (unat PHYSTOP - unat ?p) div 4096"
  have al: "unat ?p mod 4096 = 0"
    using PGROUNDUP_aligned by (simp add: pg_aligned_def)
  have n: "unat PHYSTOP = unat ?p + 4096 * n + 0"
    using le up unfolding n_def by simp
  obtain s' where s': "freerange_loop ?s0 ?p PHYSTOP = Inr s'" "kmem_inv s' (rev (pages_from ?p n))"
      "kend s' = kend s"
    using freerange_loop_spec [OF inv0 PGROUNDUP_aligned, of "kend s" PHYSTOP n 0] ge n by auto
  have at: "unat (?p + of_nat (4096 * i)) = unat ?p + 4096 * i" if "i < n" for i
    using that n by (intro unat_add_of_nat) simp
  have "p \<in> set (pages_from ?p n) \<longleftrightarrow> ram_page (kend s) p" for p
  proof
    assume "p \<in> set (pages_from ?p n)"
    then obtain i where "i < n" "p = ?p + of_nat (4096 * i)"
      by (auto simp: pages_from_def)
    then show "ram_page (kend s) p"
      using at [of i] ge n al by (simp add: ram_page_def pg_aligned_def mod_simps)
  next
    assume p: "ram_page (kend s) p"
    then obtain k where k: "unat p = 4096 * k"
      by (auto simp: ram_page_def pg_aligned_def)
    define i where "i = k - unat ?p div 4096"
    have "unat ?p div 4096 \<le> k" and pk: "unat ?p = 4096 * (unat ?p div 4096)"
      using p k up by (auto simp: ram_page_def)
    then have i: "unat p = unat ?p + 4096 * i"
      unfolding i_def k by (metis diff_mult_distrib2 le_add_diff_inverse mult_le_mono2)
    then have "i < n"
      using p n by (simp add: ram_page_def)
    then have "p = ?p + of_nat (4096 * i)"
      using i at [of i] by (intro u64_eqI) simp
    with \<open>i < n\<close> show "p \<in> set (pages_from ?p n)"
      by (auto simp: pages_from_def)
  qed
  then have "set (rev (pages_from ?p n)) = {p. ram_page (kend s) p}"
    by auto
  with s' show ?thesis
    unfolding kinit_def freerange_def by auto
qed

definition boot_kmem :: kmem where
  "boot_kmem = \<lparr>mem = (\<lambda>_. 0), kend = 0x80021000, freelist = 0,
     kmem_lock = \<lparr>locked = 0, lk_name = '''', lk_cpu = None\<rparr>,
     hart = \<lparr>hartid = 0, noff = 0, intena = 0, sie = False\<rparr>\<rparr>"

theorem kinit_free_pages_witness:
  "\<exists>s' ps. kinit boot_kmem = Inr s' \<and> kmem_inv s' ps \<and> 0x80021000 \<in> set ps \<and> 0x87fff000 \<in> set ps \<and>
     0x80020000 \<notin> set ps"
proof -
  have "\<exists>s' ps. kinit boot_kmem = Inr s' \<and> kmem_inv s' ps \<and> kend s' = kend boot_kmem \<and>
      set ps = {p. ram_page (kend boot_kmem) p}"
    by (rule kinit_free_pages) (simp_all add: boot_kmem_def cpu_ok_def)
  then show ?thesis
    by (force simp: ram_page_def pg_aligned_def boot_kmem_def)
qed

text \<open>
  C4. The allocator refines a stack of free pages. \<open>kalloc\<close> returns the null pointer exactly
  when no page is free and otherwise takes the top page; \<open>kfree\<close> of a page that is not free
  pushes it; each writes no byte outside the page it moves; and \<open>kfree\<close> panics exactly on an
  address that is not page-aligned or not in the allocator's range.
\<close>

theorem kalloc_kfree_stack:
  assumes "kmem_inv s ps"
  shows "(\<exists>s'. kalloc s = Inr (s', if ps = [] then 0 else hd ps) \<and> kmem_inv s' (tl ps) \<and>
            (\<forall>x. ps = [] \<or> page_no x \<noteq> page_no (hd ps) \<longrightarrow> mem s' x = mem s x)) \<and>
         (\<forall>p. ram_page (kend s) p \<and> p \<notin> set ps \<longrightarrow>
            (\<exists>s'. kfree s p = Inr s' \<and> kmem_inv s' (p # ps) \<and>
               (\<forall>x. page_no x \<noteq> page_no p \<longrightarrow> mem s' x = mem s x))) \<and>
         (\<forall>p. kfree s p = Inl (Panic ''kfree'') \<longleftrightarrow> \<not> ram_page (kend s) p)"
proof (intro conjI allI impI)
  show "\<exists>s'. kalloc s = Inr (s', if ps = [] then 0 else hd ps) \<and> kmem_inv s' (tl ps) \<and>
      (\<forall>x. ps = [] \<or> page_no x \<noteq> page_no (hd ps) \<longrightarrow> mem s' x = mem s x)"
    using assms kpages.alloc_none [of s] kpages.alloc_some [of s "hd ps" "tl ps"]
    by (cases ps) (auto simp: same_off_page_def)
next
  fix p
  assume "ram_page (kend s) p \<and> p \<notin> set ps"
  then show "\<exists>s'. kfree s p = Inr s' \<and> kmem_inv s' (p # ps) \<and>
      (\<forall>x. page_no x \<noteq> page_no p \<longrightarrow> mem s' x = mem s x)"
    using kpages.free_page [OF assms, of p] by (auto simp: same_off_page_def)
next
  fix p
  have "ram_page (kend s) p \<Longrightarrow> kfree s p \<noteq> Inl (Panic ''kfree'')"
    using kfree_eq [OF assms, of p] by simp
  moreover have "\<not> ram_page (kend s) p \<Longrightarrow> kfree s p = Inl (Panic ''kfree'')"
    by (auto simp: kfree_def ram_page_def pg_aligned_def word_less_nat_alt word_le_nat_alt
        word_unat_eq_iff unat_mod)
  ultimately show "kfree s p = Inl (Panic ''kfree'') \<longleftrightarrow> \<not> ram_page (kend s) p"
    by blast
qed

definition one_page_kmem :: kmem where
  "one_page_kmem = boot_kmem\<lparr>freelist := 0x80022000\<rparr>"

theorem kalloc_kfree_stack_witness:
  "kmem_inv one_page_kmem [0x80022000] \<and> (\<exists>s'. kalloc one_page_kmem = Inr (s', 0x80022000) \<and> kmem_inv s' []) \<and>
   kfree one_page_kmem 0x80022008 = Inl (Panic ''kfree'')"
proof -
  have "ld64 (\<lambda>_. 0) a = 0" for a
    by (rule bit_eqI) (simp add: bit_ld64)
  then have inv: "kmem_inv one_page_kmem [0x80022000]"
    by (simp add: kmem_inv_def one_page_kmem_def boot_kmem_def ram_page_def pg_aligned_def lk_free_def
        cpu_ok_def)
  show ?thesis
    using kalloc_kfree_stack [OF inv] inv by (auto simp: ram_page_def pg_aligned_def)
qed

end
