(* ===== verification/Vm.thy ===== *)
theory Vm
  imports Kalloc
begin

text \<open>
  \<^verbatim>\<open>kernel/vm.c\<close>: Sv39 page tables kept in physical memory, and the routines that build,
  change and read them. A page table is the physical address of its root page. Every function
  passes the allocator's state; a page-table entry is read and written as eight bytes of
  physical memory at the address \<open>walk\<close> computes. Loops that the code bounds only by a panic
  inside \<open>walk\<close> are recursive functions whose termination proof uses that panic.
\<close>

section \<open>Walking a page table\<close>

text \<open>The loop of \<open>walk\<close> at the given level; the result is the address of the entry or 0.\<close>

fun walk_loop :: "nat \<Rightarrow> 'a kmem_scheme \<Rightarrow> u64 \<Rightarrow> u64 \<Rightarrow> bool \<Rightarrow> fault + 'a kmem_scheme \<times> u64" where
  "walk_loop 0 s pagetable va alloc = Inr (s, pagetable + 8 * PX 0 va)"
| "walk_loop (Suc l) s pagetable va alloc =
     (let pte = pagetable + 8 * PX (Suc l) va
      in if ld64 (mem s) pte AND PTE_V \<noteq> 0
         then walk_loop l s (PTE2PA (ld64 (mem s) pte)) va alloc
         else if \<not> alloc then Inr (s, 0)
         else bindr (kalloc s) (\<lambda>(s1, child).
                if child = 0 then Inr (s1, 0)
                else let s2 = s1\<lparr>mem := memset (mem s1) child 0 (unat PGSIZE)\<rparr>;
                         s3 = s2\<lparr>mem := st64 (mem s2) pte (PA2PTE child OR PTE_V)\<rparr>
                     in walk_loop l s3 child va alloc))"

definition walk :: "'a kmem_scheme \<Rightarrow> u64 \<Rightarrow> u64 \<Rightarrow> bool \<Rightarrow> fault + 'a kmem_scheme \<times> u64" where
  "walk s pagetable va alloc =
     (if va \<ge> MAXVA then Inl (Panic ''walk'') else walk_loop 2 s pagetable va alloc)"

definition walkaddr :: "'a kmem_scheme \<Rightarrow> u64 \<Rightarrow> u64 \<Rightarrow> fault + u64" where
  "walkaddr s pagetable va =
     (if va \<ge> MAXVA then Inr 0
      else bindr (walk s pagetable va False) (\<lambda>(s1, pte).
        if pte = 0 then Inr 0
        else if ld64 (mem s1) pte AND PTE_V = 0 then Inr 0
        else if ld64 (mem s1) pte AND PTE_U = 0 then Inr 0
        else Inr (PTE2PA (ld64 (mem s1) pte))))"

section \<open>Mapping and unmapping\<close>

lemma walk_InrD: "walk s pt va alloc = Inr r \<Longrightarrow> unat va < unat MAXVA"
  by (simp add: walk_def word_le_nat_alt split: if_splits)

function mappages_loop ::
    "'a kmem_scheme \<Rightarrow> u64 \<Rightarrow> u64 \<Rightarrow> u64 \<Rightarrow> u64 \<Rightarrow> u64 \<Rightarrow> fault + 'a kmem_scheme \<times> int" where
  "mappages_loop s pagetable a a_last pa perm =
     bindr (walk s pagetable a True) (\<lambda>(s1, pte).
       if pte = 0 then Inr (s1, -1)
       else if ld64 (mem s1) pte AND PTE_V \<noteq> 0 then Inl (Panic ''mappages: remap'')
       else let s2 = s1\<lparr>mem := st64 (mem s1) pte (PA2PTE pa OR perm OR PTE_V)\<rparr>
            in if a = a_last then Inr (s2, 0)
               else mappages_loop s2 pagetable (a + PGSIZE) a_last (pa + PGSIZE) perm)"
  by pat_completeness auto
termination
proof (relation "measure (\<lambda>(s, pt, a, a_last, pa, perm). unat MAXVA + 4096 - unat a)", goal_cases)
  case (2 s pt a a_last pa perm x s1 pte s2)
  then have "unat a < unat MAXVA"
    using walk_InrD by blast
  then show ?case
    by (simp add: unat_add_nowrap)
qed simp

declare mappages_loop.simps [simp del]

definition mappages :: "'a kmem_scheme \<Rightarrow> u64 \<Rightarrow> u64 \<Rightarrow> u64 \<Rightarrow> u64 \<Rightarrow> u64 \<Rightarrow> fault + 'a kmem_scheme \<times> int" where
  "mappages s pagetable va sz pa perm =
     (if sz = 0 then Inl (Panic ''mappages: size'')
      else mappages_loop s pagetable (PGROUNDDOWN va) (PGROUNDDOWN (va + sz - 1)) pa perm)"

definition kvmmap :: "'a kmem_scheme \<Rightarrow> u64 \<Rightarrow> u64 \<Rightarrow> u64 \<Rightarrow> u64 \<Rightarrow> u64 \<Rightarrow> fault + 'a kmem_scheme" where
  "kvmmap s kpgtbl va pa sz perm =
     bindr (mappages s kpgtbl va sz pa perm) (\<lambda>(s1, r).
       if r \<noteq> 0 then Inl (Panic ''kvmmap'') else Inr s1)"

text \<open>\<open>stop\<close> is the loop bound \<open>va + npages*PGSIZE\<close>, in 64-bit arithmetic.\<close>

function uvmunmap_loop :: "'a kmem_scheme \<Rightarrow> u64 \<Rightarrow> u64 \<Rightarrow> u64 \<Rightarrow> bool \<Rightarrow> fault + 'a kmem_scheme" where
  "uvmunmap_loop s pagetable a stop do_free =
     (if a < stop then
        bindr (walk s pagetable a False) (\<lambda>(s1, pte).
          if pte = 0 then Inl (Panic ''uvmunmap: walk'')
          else if ld64 (mem s1) pte AND PTE_V = 0 then Inl (Panic ''uvmunmap: not mapped'')
          else if PTE_FLAGS (ld64 (mem s1) pte) = PTE_V then Inl (Panic ''uvmunmap: not a leaf'')
          else bindr (if do_free then kfree s1 (PTE2PA (ld64 (mem s1) pte)) else Inr s1) (\<lambda>s2.
                 uvmunmap_loop (s2\<lparr>mem := st64 (mem s2) pte 0\<rparr>) pagetable (a + PGSIZE) stop do_free))
      else Inr s)"
  by pat_completeness auto
termination
proof (relation "measure (\<lambda>(s, pt, a, stop, f). unat MAXVA + 4096 - unat a)", goal_cases)
  case (2 s pt a stop f x s1 pte s2)
  then have "unat a < unat MAXVA"
    using walk_InrD by blast
  then show ?case
    by (simp add: unat_add_nowrap)
qed simp

declare uvmunmap_loop.simps [simp del]

definition uvmunmap :: "'a kmem_scheme \<Rightarrow> u64 \<Rightarrow> u64 \<Rightarrow> u64 \<Rightarrow> bool \<Rightarrow> fault + 'a kmem_scheme" where
  "uvmunmap s pagetable va npages do_free =
     (if va mod PGSIZE \<noteq> 0 then Inl (Panic ''uvmunmap: not aligned'')
      else uvmunmap_loop s pagetable va (va + npages * PGSIZE) do_free)"

section \<open>User memory\<close>

definition uvmcreate :: "'a kmem_scheme \<Rightarrow> fault + 'a kmem_scheme \<times> u64" where
  "uvmcreate s =
     bindr (kalloc s) (\<lambda>(s1, pagetable).
       if pagetable = 0 then Inr (s1, 0)
       else Inr (s1\<lparr>mem := memset (mem s1) pagetable 0 (unat PGSIZE)\<rparr>, pagetable))"

text \<open>Bytes of a kernel object outside the page allocator, copied to physical memory.\<close>

definition put_bytes :: "memory \<Rightarrow> u64 \<Rightarrow> cstr \<Rightarrow> nat \<Rightarrow> memory" where
  "put_bytes m d src n = fold (\<lambda>i m. m(d + of_nat i := src i)) [0..<n] m"

definition get_bytes :: "memory \<Rightarrow> u64 \<Rightarrow> nat \<Rightarrow> u8 list" where
  "get_bytes m a n = map (\<lambda>i. m (a + of_nat i)) [0..<n]"

text \<open>
  \<open>npages\<close> is an \<open>int\<close> in the code: the quotient is truncated to 32 bits and sign-extended
  when it is passed as a \<open>uint64\<close>.
\<close>

definition uvmdealloc :: "'a kmem_scheme \<Rightarrow> u64 \<Rightarrow> u64 \<Rightarrow> u64 \<Rightarrow> fault + 'a kmem_scheme \<times> u64" where
  "uvmdealloc s pagetable oldsz newsz =
     (if newsz \<ge> oldsz then Inr (s, oldsz)
      else if PGROUNDUP newsz < PGROUNDUP oldsz then
        let npages = (ucast ((PGROUNDUP oldsz - PGROUNDUP newsz) div PGSIZE) :: u32)
        in bindr (uvmunmap s pagetable (PGROUNDUP newsz) (scast npages) True) (\<lambda>s1. Inr (s1, newsz))
      else Inr (s, newsz))"

lemma mappages_page_InrD: "mappages s pt a 4096 pa perm = Inr r \<Longrightarrow> unat a < unat MAXVA + 4096"
proof -
  assume "mappages s pt a 4096 pa perm = Inr r"
  then have "unat (PGROUNDDOWN a) < unat MAXVA"
    by (subst (asm) mappages_def, subst (asm) mappages_loop.simps)
      (auto simp: fault_simps dest: walk_InrD)
  then show ?thesis
    by (simp add: unat_PGROUNDDOWN page_no_def)
qed

function uvmalloc_loop :: "'a kmem_scheme \<Rightarrow> u64 \<Rightarrow> u64 \<Rightarrow> u64 \<Rightarrow> u64 \<Rightarrow> u64 \<Rightarrow> fault + 'a kmem_scheme \<times> u64" where
  "uvmalloc_loop s pagetable a oldsz newsz xperm =
     (if a < newsz then
        bindr (kalloc s) (\<lambda>(s1, mm).
          if mm = 0 then
            bindr (uvmdealloc s1 pagetable a oldsz) (\<lambda>(s2, _). Inr (s2, 0))
          else
            let s2 = s1\<lparr>mem := memset (mem s1) mm 0 (unat PGSIZE)\<rparr>
            in bindr (mappages s2 pagetable a 4096 mm (PTE_R OR PTE_U OR xperm)) (\<lambda>(s3, r).
                 if r \<noteq> 0 then
                   bindr (kfree s3 mm) (\<lambda>s4.
                     bindr (uvmdealloc s4 pagetable a oldsz) (\<lambda>(s5, _). Inr (s5, 0)))
                 else uvmalloc_loop s3 pagetable (a + PGSIZE) oldsz newsz xperm))
      else Inr (s, newsz))"
  by pat_completeness auto
termination
proof (relation "measure (\<lambda>(s, pt, a, oldsz, newsz, x). unat MAXVA + 8192 - unat a)", goal_cases)
  case (2 s pt a oldsz newsz xperm x s1 mm s2 xa s3 r)
  then have "unat a < unat MAXVA + 4096"
    using mappages_page_InrD by blast
  then show ?case
    by (simp add: unat_add_nowrap)
qed simp

declare uvmalloc_loop.simps [simp del]

definition uvmalloc :: "'a kmem_scheme \<Rightarrow> u64 \<Rightarrow> u64 \<Rightarrow> u64 \<Rightarrow> u64 \<Rightarrow> fault + 'a kmem_scheme \<times> u64" where
  "uvmalloc s pagetable oldsz newsz xperm =
     (if newsz < oldsz then Inr (s, oldsz)
      else uvmalloc_loop s pagetable (PGROUNDUP oldsz) (PGROUNDUP oldsz) newsz xperm)"

definition uvmfirst :: "'a kmem_scheme \<Rightarrow> u64 \<Rightarrow> cstr \<Rightarrow> u64 \<Rightarrow> fault + 'a kmem_scheme" where
  "uvmfirst s pagetable src sz =
     (if sz \<ge> PGSIZE then Inl (Panic ''uvmfirst: more than a page'')
      else bindr (kalloc s) (\<lambda>(s1, mm).
        if mm = 0 then Inl (BadAccess 0)
        else let s2 = s1\<lparr>mem := memset (mem s1) mm 0 (unat PGSIZE)\<rparr>
             in bindr (mappages s2 pagetable 0 PGSIZE mm (PTE_W OR PTE_R OR PTE_X OR PTE_U)) (\<lambda>(s3, _).
                  Inr (s3\<lparr>mem := put_bytes (mem s3) mm src (unat sz)\<rparr>))))"

text \<open>
  \<open>freewalk\<close> recurses into child tables with no level argument. The fuel is the recursion
  depth; three is enough for a three-level table. \<open>freewalk_loop rec k\<close> runs the last \<open>k\<close> of
  the 512 iterations with \<open>rec\<close> for the recursive call.
\<close>

fun freewalk_loop ::
    "('a kmem_scheme \<Rightarrow> u64 \<Rightarrow> fault + 'a kmem_scheme) \<Rightarrow> nat \<Rightarrow> 'a kmem_scheme \<Rightarrow> u64 \<Rightarrow> fault + 'a kmem_scheme" where
  "freewalk_loop rec 0 s pagetable = Inr s"
| "freewalk_loop rec (Suc k) s pagetable =
     (let slot = pagetable + of_nat (8 * (512 - Suc k));
          pte = ld64 (mem s) slot
      in if pte AND PTE_V \<noteq> 0 \<and> pte AND (PTE_R OR PTE_W OR PTE_X) = 0 then
           bindr (rec s (PTE2PA pte)) (\<lambda>s1.
             freewalk_loop rec k (s1\<lparr>mem := st64 (mem s1) slot 0\<rparr>) pagetable)
         else if pte AND PTE_V \<noteq> 0 then Inl (Panic ''freewalk: leaf'')
         else freewalk_loop rec k s pagetable)"

primrec freewalk :: "nat \<Rightarrow> 'a kmem_scheme \<Rightarrow> u64 \<Rightarrow> fault + 'a kmem_scheme" where
  "freewalk 0 s pagetable = Inl OutOfFuel"
| "freewalk (Suc fuel) s pagetable =
     bindr (freewalk_loop (freewalk fuel) 512 s pagetable) (\<lambda>s1. kfree s1 pagetable)"

definition uvmfree :: "nat \<Rightarrow> 'a kmem_scheme \<Rightarrow> u64 \<Rightarrow> u64 \<Rightarrow> fault + 'a kmem_scheme" where
  "uvmfree fuel s pagetable sz =
     bindr (if sz > 0 then uvmunmap s pagetable 0 (PGROUNDUP sz div PGSIZE) True else Inr s) (\<lambda>s1.
       freewalk fuel s1 pagetable)"

function uvmcopy_loop :: "'a kmem_scheme \<Rightarrow> u64 \<Rightarrow> u64 \<Rightarrow> u64 \<Rightarrow> u64 \<Rightarrow> fault + 'a kmem_scheme \<times> int" where
  "uvmcopy_loop s old new i sz =
     (if i < sz then
        bindr (walk s old i False) (\<lambda>(s0, pte).
          if pte = 0 then Inl (Panic ''uvmcopy: pte should exist'')
          else if ld64 (mem s0) pte AND PTE_V = 0 then Inl (Panic ''uvmcopy: page not present'')
          else
            let pa = PTE2PA (ld64 (mem s0) pte); flags = PTE_FLAGS (ld64 (mem s0) pte)
            in bindr (kalloc s0) (\<lambda>(s1, mm).
                 if mm = 0 then
                   bindr (uvmunmap s1 new 0 (i div PGSIZE) True) (\<lambda>s2. Inr (s2, -1))
                 else
                   let s2 = s1\<lparr>mem := memmove (mem s1) mm pa (unat PGSIZE)\<rparr>
                   in bindr (mappages s2 new i 4096 mm flags) (\<lambda>(s3, r).
                        if r \<noteq> 0 then
                          bindr (kfree s3 mm) (\<lambda>s4.
                            bindr (uvmunmap s4 new 0 (i div PGSIZE) True) (\<lambda>s5. Inr (s5, -1)))
                        else uvmcopy_loop s3 old new (i + PGSIZE) sz)))
      else Inr (s, 0))"
  by pat_completeness auto
termination
proof (relation "measure (\<lambda>(s, old, new, i, sz). unat MAXVA + 8192 - unat i)", goal_cases)
  case (2 s old new i sz x s0 pte pa flags xa s1 mm s2 xb s3 r)
  then have "unat i < unat MAXVA + 4096"
    using mappages_page_InrD by blast
  then show ?case
    by (simp add: unat_add_nowrap)
qed simp

declare uvmcopy_loop.simps [simp del]

definition uvmcopy :: "'a kmem_scheme \<Rightarrow> u64 \<Rightarrow> u64 \<Rightarrow> u64 \<Rightarrow> fault + 'a kmem_scheme \<times> int" where
  "uvmcopy s old new sz = uvmcopy_loop s old new 0 sz"

definition uvmclear :: "'a kmem_scheme \<Rightarrow> u64 \<Rightarrow> u64 \<Rightarrow> fault + 'a kmem_scheme" where
  "uvmclear s pagetable va =
     bindr (walk s pagetable va False) (\<lambda>(s1, pte).
       if pte = 0 then Inl (Panic ''uvmclear'')
       else Inr (s1\<lparr>mem := st64 (mem s1) pte (ld64 (mem s1) pte AND NOT PTE_U)\<rparr>))"

section \<open>Copying between kernel and user\<close>

text \<open>The part of a transfer that stays on the page of \<open>va\<close>.\<close>

definition chunk :: "u64 \<Rightarrow> u64 \<Rightarrow> u64" where
  "chunk va len = (let n = PGSIZE - (va - PGROUNDDOWN va) in if n > len then len else n)"

lemma unat_page_offset: "unat (va - PGROUNDDOWN va) = unat va mod 4096"
proof -
  have "page_no va * 4096 \<le> unat va"
    by (simp add: page_no_def)
  then show ?thesis
    by (simp add: unat_sub_nowrap unat_PGROUNDDOWN page_no_def minus_div_mult_eq_mod)
qed

lemma unat_chunk: "unat (chunk va len) = min (unat len) (4096 - unat va mod 4096)"
proof -
  have "unat (4096 - (va - PGROUNDDOWN va)) = 4096 - unat va mod 4096"
    by (subst unat_sub_nowrap) (simp_all add: unat_page_offset less_imp_le)
  then show ?thesis
    by (auto simp: chunk_def Let_def word_less_nat_alt)
qed

lemma chunk_decreases: "len > 0 \<Longrightarrow> unat (len - chunk va len) < unat len"
  by (simp add: unat_sub_nowrap unat_chunk word_less_nat_alt)

function copyout :: "'a kmem_scheme \<Rightarrow> u64 \<Rightarrow> u64 \<Rightarrow> cstr \<Rightarrow> u64 \<Rightarrow> fault + 'a kmem_scheme \<times> int" where
  "copyout s pagetable dstva src len =
     (if len > 0 then
        let va0 = PGROUNDDOWN dstva
        in bindr (walkaddr s pagetable va0) (\<lambda>pa0.
             if pa0 = 0 then Inr (s, -1)
             else let n = chunk dstva len
                  in copyout (s\<lparr>mem := put_bytes (mem s) (pa0 + (dstva - va0)) src (unat n)\<rparr>)
                       pagetable (va0 + PGSIZE) (\<lambda>i. src (unat n + i)) (len - n))
      else Inr (s, 0))"
  by pat_completeness auto
termination
  by (relation "measure (\<lambda>(s, pt, va, src, len). unat len)") (simp_all add: chunk_decreases)

declare copyout.simps [simp del]

text \<open>\<open>copyin\<close> and \<open>copyinstr\<close> return the status and the bytes written to \<open>dst\<close> so far.\<close>

function copyin :: "'a kmem_scheme \<Rightarrow> u64 \<Rightarrow> u64 \<Rightarrow> u64 \<Rightarrow> fault + int \<times> u8 list" where
  "copyin s pagetable srcva len =
     (if len > 0 then
        let va0 = PGROUNDDOWN srcva
        in bindr (walkaddr s pagetable va0) (\<lambda>pa0.
             if pa0 = 0 then Inr (-1, [])
             else let n = chunk srcva len;
                      bs = get_bytes (mem s) (pa0 + (srcva - va0)) (unat n)
                  in bindr (copyin s pagetable (va0 + PGSIZE) (len - n)) (\<lambda>(r, rest). Inr (r, bs @ rest)))
      else Inr (0, []))"
  by pat_completeness auto
termination
  by (relation "measure (\<lambda>(s, pt, va, len). unat len)") (simp_all add: chunk_decreases)

declare copyin.simps [simp del]

text \<open>The inner loop of \<open>copyinstr\<close>: the bytes it writes, and whether it met the NUL.\<close>

fun copyinstr_page :: "memory \<Rightarrow> u64 \<Rightarrow> nat \<Rightarrow> u8 list \<times> bool" where
  "copyinstr_page m p 0 = ([], False)"
| "copyinstr_page m p (Suc n) =
     (if m p = 0 then ([0], True)
      else let (bs, got) = copyinstr_page m (p + 1) n in (m p # bs, got))"

function copyinstr :: "'a kmem_scheme \<Rightarrow> u64 \<Rightarrow> u64 \<Rightarrow> u64 \<Rightarrow> fault + int \<times> u8 list" where
  "copyinstr s pagetable srcva mx =
     (if mx > 0 then
        let va0 = PGROUNDDOWN srcva
        in bindr (walkaddr s pagetable va0) (\<lambda>pa0.
             if pa0 = 0 then Inr (-1, [])
             else let n = chunk srcva mx;
                      (bs, got_null) = copyinstr_page (mem s) (pa0 + (srcva - va0)) (unat n)
                  in if got_null then Inr (0, bs)
                     else bindr (copyinstr s pagetable (va0 + PGSIZE) (mx - n)) (\<lambda>(r, rest).
                            Inr (r, bs @ rest)))
      else Inr (-1, []))"
  by pat_completeness auto
termination
  by (relation "measure (\<lambda>(s, pt, va, mx). unat mx)") (simp_all add: chunk_decreases)

declare copyinstr.simps [simp del]

end
