(* ===== verification/Pagetable.thy ===== *)
theory Pagetable
  imports Vm
begin

text \<open>
  What the page-table routines mean. A page table in memory denotes the function \<open>pte_at\<close> from
  virtual addresses to leaf entries. A typing of physical pages (free, table of a given level
  and position in a given tree, data) is the separation invariant \<open>vm_inv\<close>: it says which page
  is what, so that writing one table entry changes exactly one entry of one tree. Under it
  \<open>walk\<close>, \<open>mappages\<close>, \<open>uvmunmap\<close> and the copy routines refine the obvious operations on \<open>pte_at\<close>.
\<close>

section \<open>Reading a tree\<close>

definition entry :: "memory \<Rightarrow> u64 \<Rightarrow> nat \<Rightarrow> u64" where
  "entry m t i = ld64 m (t + of_nat (8 * i))"

definition pte_valid :: "u64 \<Rightarrow> bool" where
  "pte_valid e \<longleftrightarrow> e AND PTE_V \<noteq> 0"

fun descend :: "memory \<Rightarrow> nat \<Rightarrow> u64 \<Rightarrow> u64 \<Rightarrow> u64 option" where
  "descend m 0 t va = Some t"
| "descend m (Suc l) t va =
     (let e = entry m t (unat (PX (Suc l) va))
      in if pte_valid e then descend m l (PTE2PA e) va else None)"

definition lookup_from :: "memory \<Rightarrow> nat \<Rightarrow> u64 \<Rightarrow> u64 \<Rightarrow> u64" where
  "lookup_from m l t va = (case descend m l t va of None \<Rightarrow> 0 | Some t0 \<Rightarrow> entry m t0 (unat (PX 0 va)))"

definition pte_at :: "memory \<Rightarrow> u64 \<Rightarrow> u64 \<Rightarrow> u64" where
  "pte_at m root va = lookup_from m 2 root va"

lemma zero_not_valid [simp]: "\<not> pte_valid 0"
  by (simp add: pte_valid_def)

lemma entry_slot: "ld64 m (t + 8 * PX l va) = entry m t (unat (PX l va))"
  by (simp add: entry_def)

lemma lookup_from_0 [simp]: "lookup_from m 0 t va = entry m t (unat (PX 0 va))"
  by (simp add: lookup_from_def)

lemma lookup_from_Suc [simp]:
  "lookup_from m (Suc l) t va =
     (let e = entry m t (unat (PX (Suc l) va)) in if pte_valid e then lookup_from m l (PTE2PA e) va else 0)"
  by (simp add: lookup_from_def Let_def)

lemma walk_loop_noalloc:
  "walk_loop l s t va False =
     Inr (s, case descend (mem s) l t va of None \<Rightarrow> 0 | Some t0 \<Rightarrow> t0 + 8 * PX 0 va)"
  by (induction l arbitrary: t) (auto simp: Let_def entry_slot pte_valid_def simp del: PX_slot)

lemma walk_noalloc:
  "va < MAXVA \<Longrightarrow> walk s root va False =
     Inr (s, case descend (mem s) 2 root va of None \<Rightarrow> 0 | Some t0 \<Rightarrow> t0 + 8 * PX 0 va)"
  by (simp add: walk_def walk_loop_noalloc)

section \<open>Typing of physical pages\<close>

text \<open>\<open>PTab r l x\<close>: a table of level \<open>l\<close> in the tree of root \<open>r\<close> whose entries translate the
  addresses with index prefix \<open>x\<close>. \<open>PNone\<close>: not a page of the allocator.\<close>

datatype pkind = PFree | PTab u64 nat nat | PData | PNone

definition tabs_typed :: "(u64 \<Rightarrow> pkind) \<Rightarrow> memory \<Rightarrow> bool" where
  "tabs_typed T m \<longleftrightarrow>
     (\<forall>p r l x i. T p = PTab r (Suc l) x \<longrightarrow> i < 512 \<longrightarrow> pte_valid (entry m p i) \<longrightarrow>
        T (PTE2PA (entry m p i)) = PTab r l (x * 512 + i) \<and>
        entry m p i AND (PTE_R OR PTE_W OR PTE_X) = 0)"

definition leaves_typed :: "(u64 \<Rightarrow> pkind) \<Rightarrow> memory \<Rightarrow> bool" where
  "leaves_typed T m \<longleftrightarrow>
     (\<forall>p r x i. T p = PTab r 0 x \<longrightarrow> i < 512 \<longrightarrow> pte_valid (entry m p i) \<longrightarrow>
        entry m p i AND PTE_U \<noteq> 0 \<longrightarrow> T (PTE2PA (entry m p i)) = PData)"

text \<open>Every table is its tree's root or is pointed to by a table one level up; the top index is one of
  the 256 that user addresses below \<open>MAXVA\<close> use.\<close>

definition tabs_linked :: "(u64 \<Rightarrow> pkind) \<Rightarrow> memory \<Rightarrow> u64 set \<Rightarrow> bool" where
  "tabs_linked T m roots \<longleftrightarrow>
     (\<forall>p r l x. T p = PTab r l x \<longrightarrow> r \<in> roots \<and> l \<le> 2 \<and> (l = 2 \<longrightarrow> p = r) \<and>
        (l < 2 \<longrightarrow> (\<exists>q y i. T q = PTab r (Suc l) y \<and> i < 512 \<and> (l = 1 \<longrightarrow> i < 256) \<and> x = y * 512 + i \<and>
           pte_valid (entry m q i) \<and> PTE2PA (entry m q i) = p)))"

definition vm_inv :: "(u64 \<Rightarrow> pkind) \<Rightarrow> 'a kmem_scheme \<Rightarrow> u64 list \<Rightarrow> u64 set \<Rightarrow> bool" where
  "vm_inv T s ps roots \<longleftrightarrow>
     kmem_inv s ps \<and> (\<forall>p. T p = PFree \<longleftrightarrow> p \<in> set ps) \<and>
     (\<forall>p. T p \<noteq> PNone \<longrightarrow> ram_page (kend s) p) \<and> (\<forall>r\<in>roots. T r = PTab r 2 0) \<and>
     tabs_typed T (mem s) \<and> leaves_typed T (mem s) \<and> tabs_linked T (mem s) roots"

lemma tabs_linkedD:
  assumes "tabs_linked T m roots" and "T p = PTab r l x"
  shows "r \<in> roots" and "l \<le> 2" and "l = 2 \<Longrightarrow> p = r"
    and "l < 2 \<Longrightarrow> \<exists>q y i. T q = PTab r (Suc l) y \<and> i < 512 \<and> (l = 1 \<longrightarrow> i < 256) \<and> x = y * 512 + i \<and>
       pte_valid (entry m q i) \<and> PTE2PA (entry m q i) = p"
  using assms unfolding tabs_linked_def by blast+

lemma tabs_linked_keep:
  assumes "tabs_linked T m roots"
    and "\<And>q r l x i. T q = PTab r (Suc l) x \<Longrightarrow> i < 512 \<Longrightarrow> pte_valid (entry m q i) \<Longrightarrow> entry m' q i = entry m q i"
  shows "tabs_linked T m' roots"
  unfolding tabs_linked_def
proof (intro allI impI)
  fix p r l x
  assume p: "T p = PTab r l x"
  have "\<exists>q y i. T q = PTab r (Suc l) y \<and> i < 512 \<and> (l = 1 \<longrightarrow> i < 256) \<and> x = y * 512 + i \<and>
      pte_valid (entry m' q i) \<and> PTE2PA (entry m' q i) = p" if "l < 2"
    using tabs_linkedD(4) [OF assms(1) p that] assms(2) by metis
  then show "r \<in> roots \<and> l \<le> 2 \<and> (l = 2 \<longrightarrow> p = r) \<and>
      (l < 2 \<longrightarrow> (\<exists>q y i. T q = PTab r (Suc l) y \<and> i < 512 \<and> (l = 1 \<longrightarrow> i < 256) \<and> x = y * 512 + i \<and>
         pte_valid (entry m' q i) \<and> PTE2PA (entry m' q i) = p))"
    using assms(1) p unfolding tabs_linked_def by blast
qed

lemma tabs_typedD:
  "tabs_typed T m \<Longrightarrow> T p = PTab r (Suc l) x \<Longrightarrow> i < 512 \<Longrightarrow> pte_valid (entry m p i) \<Longrightarrow>
   T (PTE2PA (entry m p i)) = PTab r l (x * 512 + i)"
  unfolding tabs_typed_def by blast

lemma vm_inv_aligned: "vm_inv T s ps roots \<Longrightarrow> T p \<noteq> PNone \<Longrightarrow> pg_aligned p"
  by (auto simp: vm_inv_def ram_page_def)

lemma vm_inv_nonzero: "vm_inv T s ps roots \<Longrightarrow> T p \<noteq> PNone \<Longrightarrow> p \<noteq> 0"
  by (auto simp: vm_inv_def kmem_inv_def ram_page_def)

lemma vm_inv_ram: "vm_inv T s ps roots \<Longrightarrow> T p \<noteq> PNone \<Longrightarrow> ram_page (kend s) p"
  by (simp add: vm_inv_def)

lemma vm_inv_root: "vm_inv T s ps roots \<Longrightarrow> r \<in> roots \<Longrightarrow> T r = PTab r 2 0"
  by (simp add: vm_inv_def)

section \<open>Memory changes and entries\<close>

lemma entry_same_off:
  assumes "same_off_page q m m'" and "pg_aligned p" and "pg_aligned q" and "p \<noteq> q" and "i < 512"
  shows "entry m' p i = entry m p i"
  unfolding entry_def
  using same_off_page_ld64 [OF assms(1,2) _ assms(5)] page_no_inj [OF assms(2,3)] assms(4) by blast

lemma entry_st64:
  assumes "pg_aligned t" and "pg_aligned p" and "i < 512" and "j < 512"
  shows "entry (st64 m (t + of_nat (8 * i)) v) p j = (if p = t \<and> j = i then v else entry m p j)"
proof (cases "p = t")
  case True
  then show ?thesis
    using ld64_st64_slot [OF assms(1,3,4), of m v] by (auto simp: entry_def)
next
  case False
  then show ?thesis
    using entry_same_off [OF st64_same_off_page [OF assms(1,3)] assms(2,1) _ assms(4)] by simp
qed

lemma kmem_inv_mem:
  assumes "kmem_inv s ps" and "same_off_page q (mem s) m'" and "pg_aligned q" and "q \<notin> set ps"
  shows "kmem_inv (s\<lparr>mem := m'\<rparr>) ps"
proof -
  have "flist (mem s) (freelist s) ps" "\<forall>x\<in>set ps. pg_aligned x"
    using assms(1) by (auto simp: kmem_inv_def ram_page_def)
  then have "flist m' (freelist s) ps"
    using assms(2-4) by (blast intro: flist_frame)
  then show ?thesis
    using assms(1) by (simp add: kmem_inv_def)
qed

lemma zero_table_lookup: "(\<And>i. i < 512 \<Longrightarrow> entry m p i = 0) \<Longrightarrow> lookup_from m l p va = 0"
  by (cases l) simp_all

section \<open>Installing a child table\<close>

text \<open>Memory after \<open>walk\<close> has zeroed the fresh page \<open>c\<close> and stored its entry in slot \<open>i\<close> of \<open>t\<close>.\<close>

definition install :: "memory \<Rightarrow> u64 \<Rightarrow> nat \<Rightarrow> u64 \<Rightarrow> memory" where
  "install m t i c =
     st64 (memset (memset m c 5 4096) c 0 4096) (t + of_nat (8 * i)) (PA2PTE c OR PTE_V)"

lemma PTE_V_flags [simp]: "PTE_V AND mask 10 = PTE_V"
  by (simp add: PTE_V_def mask_eq_exp_minus_1)

lemma pte_valid_child [simp]: "pte_valid (x OR PTE_V)"
proof -
  have "bit ((x OR PTE_V) AND PTE_V) 0"
    by (simp add: PTE_V_def bit_simps)
  then show ?thesis
    unfolding pte_valid_def by (metis bit_0_eq bot_apply bot_bool_def)
qed

lemma install_entry:
  assumes "pg_aligned t" and "pg_aligned c" and "t \<noteq> c" and "i < 512" and "pg_aligned p" and "j < 512"
  shows "entry (install m t i c) p j =
    (if p = t \<and> j = i then PA2PTE c OR PTE_V else if p = c then 0 else entry m p j)"
proof -
  have zero: "entry (memset (memset m c 5 4096) c 0 4096) c j = 0"
    using ld64_memset_page [OF assms(6)] by (simp add: entry_def)
  have other: "entry (memset (memset m c 5 4096) c 0 4096) p j = entry m p j" if "p \<noteq> c"
    using that assms(2,5,6) memset_same_off_page [OF assms(2)]
    by (intro entry_same_off [where q = c]) (auto intro: same_off_page_trans)
  show ?thesis
    unfolding install_def entry_st64 [OF assms(1,5,4,6)] using assms(3) zero other by auto
qed

lemma install_other:
  assumes "pg_aligned t" and "pg_aligned c" and "i < 512" and "page_no x \<noteq> page_no t" and "page_no x \<noteq> page_no c"
  shows "install m t i c x = m x"
  using assms st64_same_off_page [OF assms(1,3)] memset_same_off_page [OF assms(2)]
  unfolding install_def same_off_page_def by metis

lemma bit_flag [simp]:
  "bit PTE_V n \<longleftrightarrow> n = 0" "bit PTE_R n \<longleftrightarrow> n = 1" "bit PTE_W n \<longleftrightarrow> n = 2"
  "bit PTE_X n \<longleftrightarrow> n = 3" "bit PTE_U n \<longleftrightarrow> n = 4"
  unfolding pte_flag_defs bit_push_bit_iff bit_1_iff by auto

lemma install_flags: "(PA2PTE c OR PTE_V) AND (PTE_R OR PTE_W OR PTE_X) = 0"
  by (rule bit_eqI) (auto simp: PA2PTE_def bit_simps)

text \<open>
  \<open>installed\<close> collects what the typing arguments need: page \<open>c\<close> was free and is all zero, slot
  \<open>i\<close> of the table \<open>t\<close> was empty and points to \<open>c\<close>, and every other entry is unchanged.
\<close>

definition installed :: "(u64 \<Rightarrow> pkind) \<Rightarrow> memory \<Rightarrow> memory \<Rightarrow> u64 \<Rightarrow> u64 \<Rightarrow> nat \<Rightarrow> nat \<Rightarrow> nat \<Rightarrow> u64 \<Rightarrow> bool" where
  "installed T m m' t r l x i c \<longleftrightarrow>
     T c = PFree \<and> pg_aligned c \<and> T t = PTab r (Suc l) x \<and> i < 512 \<and> \<not> pte_valid (entry m t i) \<and>
     (\<forall>p j. T p \<noteq> PNone \<longrightarrow> j < 512 \<longrightarrow> entry m' p j =
        (if p = t \<and> j = i then PA2PTE c OR PTE_V else if p = c then 0 else entry m p j))"

lemma installed_entry:
  assumes "installed T m m' t r l x i c" and "T p \<noteq> PNone" and "j < 512"
  shows "entry m' p j = (if p = t \<and> j = i then PA2PTE c OR PTE_V else if p = c then 0 else entry m p j)"
  using assms unfolding installed_def by blast

lemma installed_old:
  assumes "installed T m m' t r l x i c" and "T p \<noteq> PNone" and "j < 512"
    and "pte_valid (entry m' p j)" and "\<not> (p = t \<and> j = i)"
  shows "p \<noteq> c" and "entry m' p j = entry m p j"
  using installed_entry [OF assms(1-3)] assms(4,5) by (auto split: if_splits)

lemma installed_tabs:
  assumes ins: "installed T m m' t r l x i c" and tabs: "tabs_typed T m"
  shows "tabs_typed (T(c := PTab r l (x * 512 + i))) m'"
  unfolding tabs_typed_def
proof (intro allI impI)
  let ?T = "T(c := PTab r l (x * 512 + i))"
  fix p r0 l0 x0 j
  assume p: "?T p = PTab r0 (Suc l0) x0" and j: "j < 512" and v: "pte_valid (entry m' p j)"
  have c: "T c = PFree" "pg_aligned c" and t: "T t = PTab r (Suc l) x"
    using ins by (simp_all add: installed_def)
  have np: "T p \<noteq> PNone"
    using p c by (auto split: if_splits)
  show "?T (PTE2PA (entry m' p j)) = PTab r0 l0 (x0 * 512 + j) \<and>
      entry m' p j AND (PTE_R OR PTE_W OR PTE_X) = 0"
  proof (cases "p = t \<and> j = i")
    case True
    moreover have "t \<noteq> c"
      using c t by auto
    ultimately show ?thesis
      using installed_entry [OF ins np j] p t c(2) install_flags by (simp add: PTE2PA_PA2PTE)
  next
    case False
    note old = installed_old [OF ins np j v False]
    then have "T p = PTab r0 (Suc l0) x0"
      using p by simp
    then have "T (PTE2PA (entry m p j)) = PTab r0 l0 (x0 * 512 + j)"
        "entry m p j AND (PTE_R OR PTE_W OR PTE_X) = 0"
      using tabs v j unfolding tabs_typed_def old(2) by blast+
    then show ?thesis
      unfolding old(2) using c by auto
  qed
qed

lemma installed_leaves:
  assumes ins: "installed T m m' t r l x i c" and leaves: "leaves_typed T m"
  shows "leaves_typed (T(c := PTab r l (x * 512 + i))) m'"
  unfolding leaves_typed_def
proof (intro allI impI)
  let ?T = "T(c := PTab r l (x * 512 + i))"
  fix p r0 x0 j
  assume p: "?T p = PTab r0 0 x0" and j: "j < 512" and v: "pte_valid (entry m' p j)"
    and u: "entry m' p j AND PTE_U \<noteq> 0"
  have c: "T c = PFree" and t: "T t = PTab r (Suc l) x"
    using ins by (simp_all add: installed_def)
  have np: "T p \<noteq> PNone" and pt: "\<not> (p = t \<and> j = i)"
    using p c t by (auto split: if_splits)
  note old = installed_old [OF ins np j v pt]
  then have "T p = PTab r0 0 x0"
    using p by simp
  then have "T (PTE2PA (entry m p j)) = PData"
    using leaves v u j unfolding leaves_typed_def old(2) by blast
  then show "?T (PTE2PA (entry m' p j)) = PData"
    unfolding old(2) using c by auto
qed

lemma installed_linked:
  assumes ins: "installed T m m' t r l x i c" and linked: "tabs_linked T m roots" and top: "l = 1 \<Longrightarrow> i < 256"
  shows "tabs_linked (T(c := PTab r l (x * 512 + i))) m' roots"
  unfolding tabs_linked_def
proof (intro allI impI)
  let ?T = "T(c := PTab r l (x * 512 + i))"
  have c: "T c = PFree" "pg_aligned c" and t: "T t = PTab r (Suc l) x" and i: "i < 512"
    and empty: "\<not> pte_valid (entry m t i)"
    using ins by (simp_all add: installed_def)
  then have tc: "t \<noteq> c" by auto
  fix p r0 l0 x0
  assume p: "?T p = PTab r0 l0 x0"
  show "r0 \<in> roots \<and> l0 \<le> 2 \<and> (l0 = 2 \<longrightarrow> p = r0) \<and>
      (l0 < 2 \<longrightarrow> (\<exists>q y j. ?T q = PTab r0 (Suc l0) y \<and> j < 512 \<and> (l0 = 1 \<longrightarrow> j < 256) \<and> x0 = y * 512 + j \<and>
         pte_valid (entry m' q j) \<and> PTE2PA (entry m' q j) = p))"
  proof (cases "p = c")
    case True
    then have "r0 = r" "l0 = l" "x0 = x * 512 + i"
      using p by simp_all
    moreover have "r \<in> roots" "Suc l \<le> 2"
      using linked t unfolding tabs_linked_def by blast+
    moreover have "entry m' t i = PA2PTE c OR PTE_V"
      using installed_entry [OF ins, of t i] t i by simp
    moreover from this have "?T t = PTab r (Suc l) x \<and> i < 512 \<and> (l = 1 \<longrightarrow> i < 256) \<and>
        pte_valid (entry m' t i) \<and> PTE2PA (entry m' t i) = c"
      using t tc i top c(2) by (simp add: PTE2PA_PA2PTE)
    ultimately show ?thesis
      using True tc by auto
  next
    case False
    then have Tp: "T p = PTab r0 l0 x0"
      using p by simp
    have "\<exists>q y j. ?T q = PTab r0 (Suc l0) y \<and> j < 512 \<and> (l0 = 1 \<longrightarrow> j < 256) \<and> x0 = y * 512 + j \<and>
        pte_valid (entry m' q j) \<and> PTE2PA (entry m' q j) = p" if l0: "l0 < 2"
    proof -
      obtain q y j where q: "T q = PTab r0 (Suc l0) y" "j < 512" "l0 = 1 \<longrightarrow> j < 256" "x0 = y * 512 + j"
        "pte_valid (entry m q j)" "PTE2PA (entry m q j) = p"
        using tabs_linkedD(4) [OF linked Tp l0] by blast
      then have "entry m' q j = entry m q j" "q \<noteq> c"
        using installed_entry [OF ins, of q j] empty c by auto
      then show ?thesis
        using q(1-4) q(5,6) by (metis fun_upd_other)
    qed
    then show ?thesis
      using tabs_linkedD(1-3) [OF linked Tp] by blast
  qed
qed

lemma installed_lookup:
  assumes ins: "installed T m m' t r l x i c" and tabs: "tabs_typed T m" and p: "T p = PTab r' l' x'"
  shows "lookup_from m' l' p va = lookup_from m l' p va"
  using p
proof (induction l' arbitrary: p x')
  case 0
  then show ?case
    using ins unfolding installed_def by (auto simp: installed_entry [OF ins])
next
  case (Suc l')
  let ?j = "unat (PX (Suc l') va)"
  have np: "T p \<noteq> PNone" "p \<noteq> c"
    using Suc.prems ins unfolding installed_def by auto
  show ?case
  proof (cases "p = t \<and> ?j = i")
    case True
    have "lookup_from m' n c va = 0" for n
      using ins installed_entry [OF ins, of c] unfolding installed_def
      by (intro zero_table_lookup) (auto split: if_splits)
    moreover have "entry m' p ?j = PA2PTE c OR PTE_V" "\<not> pte_valid (entry m p ?j)" "pg_aligned c"
      using True ins installed_entry [OF ins np(1), of ?j] unfolding installed_def by auto
    ultimately show ?thesis
      by (simp add: PTE2PA_PA2PTE)
  next
    case False
    then have e: "entry m' p ?j = entry m p ?j"
      using installed_entry [OF ins np(1), of ?j] np(2) by auto
    have "pte_valid (entry m p ?j) \<Longrightarrow> T (PTE2PA (entry m p ?j)) = PTab r' l' (x' * 512 + ?j)"
      using tabs Suc.prems unfolding tabs_typed_def by simp
    then show ?thesis
      using Suc.IH by (simp add: e Let_def)
  qed
qed

lemma install_installed:
  assumes inv: "vm_inv T s (c # ps) roots" and t: "T t = PTab r (Suc l) x" and i: "i < 512"
    and empty: "\<not> pte_valid (entry (mem s) t i)"
  shows "installed T (mem s) (install (mem s) t i c) t r l x i c"
proof -
  have c: "T c = PFree"
    using inv by (simp add: vm_inv_def)
  with t have tc: "t \<noteq> c"
    by auto
  have "pg_aligned c" "pg_aligned t"
    using vm_inv_aligned [OF inv] c t by auto
  with tc i c t empty show ?thesis
    unfolding installed_def using install_entry [of t c i] vm_inv_aligned [OF inv] by auto
qed

lemma install_inv:
  assumes inv: "vm_inv T s (c # ps) roots" and t: "T t = PTab r (Suc l) x" and i: "i < 512"
    and empty: "\<not> pte_valid (entry (mem s) t i)" and s1: "kalloc s = Inr (s1, c)" and top: "l = 1 \<Longrightarrow> i < 256"
  shows "vm_inv (T(c := PTab r l (x * 512 + i))) (s1\<lparr>mem := install (mem s) t i c\<rparr>) ps roots"
proof -
  let ?T = "T(c := PTab r l (x * 512 + i))" and ?m = "install (mem s) t i c"
  note ins = install_installed [OF inv t i empty]
  have k: "kmem_inv s (c # ps)" and free: "\<And>p. T p = PFree \<longleftrightarrow> p \<in> set (c # ps)"
    using inv by (simp_all add: vm_inv_def)
  then have c: "T c = PFree" and tps: "t \<notin> set ps" and cps: "c \<notin> set ps"
    using t free [of t] by (auto simp: kmem_inv_def)
  have al: "pg_aligned c" "pg_aligned t"
    using vm_inv_aligned [OF inv] c t by auto
  have s1_eq: "s1 = s\<lparr>hart := settle (hart s), freelist := ld64 (mem s) c, mem := memset (mem s) c 5 4096\<rparr>"
    using s1 kalloc_some [OF k] by simp
  have "kmem_inv (s1\<lparr>mem := memset (mem s1) c 0 4096\<rparr>) ps"
    using kmem_inv_mem [OF kmem_inv_kalloc [OF k s1_eq] memset_same_off_page [OF al(1)] al(1) cps] .
  from kmem_inv_mem [OF this _ al(2) tps, of ?m] have "kmem_inv (s1\<lparr>mem := ?m\<rparr>) ps"
    using st64_same_off_page [OF al(2) i] by (simp add: install_def s1_eq)
  moreover have "?T p = PFree \<longleftrightarrow> p \<in> set ps" for p
    using free [of p] cps by auto
  moreover have "?T r = PTab r 2 0" if "r \<in> roots" for r
    using vm_inv_root [OF inv that] c by (metis fun_upd_other pkind.distinct(1))
  moreover have "?T p \<noteq> PNone \<Longrightarrow> ram_page (kend s) p" for p
    using vm_inv_ram [OF inv, of p] c by (cases "p = c") simp_all
  ultimately show ?thesis
    using installed_tabs [OF ins] installed_leaves [OF ins] installed_linked [OF ins _ top] inv
    by (simp add: vm_inv_def s1_eq)
qed

section \<open>Growing a tree\<close>

text \<open>
  What \<open>walk\<close> with \<open>alloc\<close> may do to the machine: turn free pages into tables. Translations,
  existing valid entries and the bytes of all other pages stay.
\<close>

definition vm_grow ::
    "u64 set \<Rightarrow> (u64 \<Rightarrow> pkind) \<Rightarrow> 'a kmem_scheme \<Rightarrow> u64 list \<Rightarrow> (u64 \<Rightarrow> pkind) \<Rightarrow> 'a kmem_scheme \<Rightarrow> u64 list \<Rightarrow> bool" where
  "vm_grow roots T s ps T' s' ps' \<longleftrightarrow>
     kend s' = kend s \<and> kmem.more s' = kmem.more s \<and> kmem_lock s' = kmem_lock s \<and>
     settle (hart s') = settle (hart s) \<and>
     (\<exists>used. ps = used @ ps') \<and>
     (\<forall>p. T' p \<noteq> T p \<longrightarrow> T p = PFree \<and> (\<exists>r l x. T' p = PTab r l x)) \<and>
     (\<forall>r\<in>roots. \<forall>va. pte_at (mem s') r va = pte_at (mem s) r va) \<and>
     (\<forall>p r l x i. T p = PTab r l x \<longrightarrow> i < 512 \<longrightarrow> pte_valid (entry (mem s) p i) \<longrightarrow>
        entry (mem s') p i = entry (mem s) p i) \<and>
     (\<forall>p x. (T p = PData \<or> T p = PNone) \<longrightarrow> pg_aligned p \<longrightarrow> page_no x = page_no p \<longrightarrow> mem s' x = mem s x)"

lemma vm_grow_refl [simp]: "vm_grow roots T s ps T s ps"
  by (simp add: vm_grow_def)

lemma vm_grow_PTab: "vm_grow roots T s ps T' s' ps' \<Longrightarrow> T p = PTab r l x \<Longrightarrow> T' p = PTab r l x"
  unfolding vm_grow_def by (metis pkind.distinct(1))

lemma vm_grow_PData: "vm_grow roots T s ps T' s' ps' \<Longrightarrow> T' p = PData \<longleftrightarrow> T p = PData"
  unfolding vm_grow_def by (metis pkind.distinct(3) pkind.distinct(7))

lemma vm_grow_PNone: "vm_grow roots T s ps T' s' ps' \<Longrightarrow> T' p = PNone \<longleftrightarrow> T p = PNone"
  unfolding vm_grow_def by (metis pkind.distinct(5) pkind.distinct(9))

lemma vm_grow_trans:
  assumes g1: "vm_grow roots T s ps T' s' ps'" and g2: "vm_grow roots T' s' ps' T'' s'' ps''"
  shows "vm_grow roots T s ps T'' s'' ps''"
proof -
  have "T p = PFree \<and> (\<exists>r l x. T'' p = PTab r l x)" if "T'' p \<noteq> T p" for p
    using g1 g2 that unfolding vm_grow_def by (metis pkind.distinct(1))
  moreover have "entry (mem s'') p i = entry (mem s) p i"
    if "T p = PTab r l x" "i < 512" "pte_valid (entry (mem s) p i)" for p r l x i
    using g1 g2 vm_grow_PTab [OF g1 that(1)] that unfolding vm_grow_def by metis
  moreover have "mem s'' x = mem s x"
    if "T p = PData \<or> T p = PNone" "pg_aligned p" "page_no x = page_no p" for p x
    using g1 g2 vm_grow_PData [OF g1, of p] vm_grow_PNone [OF g1, of p] that unfolding vm_grow_def by metis
  ultimately show ?thesis
    using g1 g2 unfolding vm_grow_def by auto
qed

lemma vm_inv_settle: "vm_inv T s ps roots \<Longrightarrow> vm_inv T (s\<lparr>hart := settle (hart s)\<rparr>) ps roots"
  by (simp add: vm_inv_def kmem_inv_def)

lemma vm_grow_settle: "vm_grow roots T s ps T (s\<lparr>hart := settle (hart s)\<rparr>) ps"
  by (simp add: vm_grow_def)

lemma install_grow:
  assumes inv: "vm_inv T s (c # ps) roots" and t: "T t = PTab r (Suc l) x" and i: "i < 512"
    and empty: "\<not> pte_valid (entry (mem s) t i)" and s1: "kalloc s = Inr (s1, c)"
  shows "vm_grow roots T s (c # ps) (T(c := PTab r l (x * 512 + i))) (s1\<lparr>mem := install (mem s) t i c\<rparr>) ps"
proof -
  note ins = install_installed [OF inv t i empty]
  have k: "kmem_inv s (c # ps)" and c: "T c = PFree" and tabs: "tabs_typed T (mem s)"
    using inv by (simp_all add: vm_inv_def)
  have s1_eq: "s1 = s\<lparr>hart := settle (hart s), freelist := ld64 (mem s) c, mem := memset (mem s) c 5 4096\<rparr>"
    using s1 kalloc_some [OF k] by simp
  have al: "pg_aligned c" "pg_aligned t"
    using vm_inv_aligned [OF inv] c t by auto
  have "pte_at (install (mem s) t i c) r va = pte_at (mem s) r va" if "r \<in> roots" for r va
    unfolding pte_at_def using installed_lookup [OF ins tabs vm_inv_root [OF inv that]] .
  moreover have "entry (install (mem s) t i c) p j = entry (mem s) p j"
    if "T p = PTab r' l' x'" "j < 512" "pte_valid (entry (mem s) p j)" for p r' l' x' j
    using installed_entry [OF ins, of p j] that c empty by auto
  moreover have "install (mem s) t i c y = mem s y"
    if "T p = PData \<or> T p = PNone" "pg_aligned p" "page_no y = page_no p" for p y
  proof (rule install_other [OF al(2,1) i])
    show "page_no y \<noteq> page_no t" "page_no y \<noteq> page_no c"
      using that t c al page_no_inj [of p t] page_no_inj [of p c] by auto
  qed
  ultimately show ?thesis
    using c by (simp add: vm_grow_def s1_eq)
qed

lemma slot_nonzero:
  assumes "vm_inv T s ps roots" and "T t \<noteq> PNone"
  shows "t + 8 * PX 0 va \<noteq> 0"
proof -
  have "unat (t + of_nat (8 * unat (PX 0 va))) = unat t + 8 * unat (PX 0 va)"
    using vm_inv_aligned [OF assms] PX_bound [of 0 va] by (intro pg_aligned_add_unat) simp_all
  moreover have "unat t \<noteq> 0"
    using vm_inv_nonzero [OF assms] by (simp add: unat_eq_0)
  ultimately show ?thesis
    unfolding PX_slot by (metis add_is_0 unat_0)
qed

text \<open>
  The outcome of the loop of \<open>walk\<close> from a table of level \<open>l\<close>: it never faults, it uses at most
  one free page per level, it fails only when there are fewer free pages than levels, and
  otherwise it returns the address of the leaf entry.
\<close>

definition walk_ok ::
    "u64 set \<Rightarrow> (u64 \<Rightarrow> pkind) \<Rightarrow> 'a kmem_scheme \<Rightarrow> u64 list \<Rightarrow> u64 \<Rightarrow> nat \<Rightarrow> u64 \<Rightarrow> u64 \<Rightarrow>
     'a kmem_scheme \<Rightarrow> u64 \<Rightarrow> (u64 \<Rightarrow> pkind) \<Rightarrow> u64 list \<Rightarrow> bool" where
  "walk_ok roots T s ps r l t va s' a T' ps' \<longleftrightarrow>
     walk_loop l s t va True = Inr (s', a) \<and> vm_inv T' s' ps' roots \<and>
     vm_grow roots T s ps T' s' ps' \<and> length ps \<le> length ps' + l \<and> (a = 0 \<longrightarrow> length ps < l) \<and>
     (a \<noteq> 0 \<longrightarrow> (\<exists>t0 x0. a = t0 + 8 * PX 0 va \<and> T' t0 = PTab r 0 x0 \<and> descend (mem s') l t va = Some t0))"

lemma walk_ok_present:
  assumes "T t = PTab r (Suc l) x" and v: "pte_valid (entry (mem s) t (unat (PX (Suc l) va)))"
    and w: "walk_ok roots T s ps r l (PTE2PA (entry (mem s) t (unat (PX (Suc l) va)))) va s' a T' ps'"
  shows "walk_ok roots T s ps r (Suc l) t va s' a T' ps'"
proof -
  have "entry (mem s') t (unat (PX (Suc l) va)) = entry (mem s) t (unat (PX (Suc l) va))"
    using w assms(1) v unfolding walk_ok_def vm_grow_def by simp
  then show ?thesis
    using w v unfolding walk_ok_def by (auto simp: entry_slot Let_def pte_valid_def simp del: PX_slot)
qed

lemma walk_loop_absent:
  assumes "\<not> pte_valid (entry (mem s) t (unat (PX (Suc l) va)))"
  shows "walk_loop (Suc l) s t va True =
    bindr (kalloc s) (\<lambda>(s1, child).
      if child = 0 then Inr (s1, 0)
      else walk_loop l (s1\<lparr>mem := st64 (memset (mem s1) child 0 4096)
             (t + of_nat (8 * unat (PX (Suc l) va))) (PA2PTE child OR PTE_V)\<rparr>) child va True)"
  using assms unfolding pte_valid_def entry_def by (auto simp: Let_def intro!: bindr_cong)

lemma walk_ok_absent:
  assumes inv: "vm_inv T s (c # ps) roots" and t: "T t = PTab r (Suc l) x"
    and empty: "\<not> pte_valid (entry (mem s) t (unat (PX (Suc l) va)))"
    and s1: "kalloc s = Inr (s1, c)"
    and w: "walk_ok roots (T(c := PTab r l (x * 512 + unat (PX (Suc l) va))))
        (s1\<lparr>mem := install (mem s) t (unat (PX (Suc l) va)) c\<rparr>) ps r l c va s' a T' ps'"
  shows "walk_ok roots T s (c # ps) r (Suc l) t va s' a T' ps'"
proof -
  let ?i = "unat (PX (Suc l) va)"
  let ?s2 = "s1\<lparr>mem := install (mem s) t ?i c\<rparr>" and ?T = "T(c := PTab r l (x * 512 + ?i))"
  have free: "T c = PFree"
    using inv by (simp add: vm_inv_def)
  with t have ne: "t \<noteq> c" by auto
  have al: "pg_aligned t" "pg_aligned c" "c \<noteq> 0"
    using vm_inv_aligned [OF inv] vm_inv_nonzero [OF inv] t free by auto
  have "mem s1 = memset (mem s) c 5 4096"
    using s1 kalloc_some [of s c ps] inv by (auto simp: vm_inv_def)
  then have step: "walk_loop (Suc l) s t va True = walk_loop l ?s2 c va True"
    using walk_loop_absent [OF empty] s1 al(3) by (simp add: install_def)
  have "entry (mem ?s2) t ?i = PA2PTE c OR PTE_V" "?T t = PTab r (Suc l) x"
    using install_entry [OF al(1,2) ne PX_bound al(1) PX_bound] ne t by simp_all
  then have "entry (mem s') t ?i = PA2PTE c OR PTE_V"
    using w unfolding walk_ok_def vm_grow_def by (metis PX_bound pte_valid_child)
  then have "descend (mem s') (Suc l) t va = descend (mem s') l c va"
    using al(2) by (simp add: PTE2PA_PA2PTE)
  moreover have "vm_grow roots T s (c # ps) T' s' ps'"
    using w vm_grow_trans [OF install_grow [OF inv t PX_bound empty s1]] unfolding walk_ok_def by blast
  ultimately show ?thesis
    using w step unfolding walk_ok_def by auto
qed

lemma PX_top: "va < MAXVA \<Longrightarrow> l = 1 \<Longrightarrow> unat (PX (Suc l) va) < 256"
  by (simp add: unat_PX word_less_nat_alt less_mult_imp_div_less)

lemma walk_loop_alloc:
  assumes "vm_inv T s ps roots" and "T t = PTab r l x" and va: "va < MAXVA"
  shows "\<exists>s' a T' ps'. walk_ok roots T s ps r l t va s' a T' ps'"
  using assms(1,2)
proof (induction l arbitrary: s t x T ps)
  case 0
  then have "t + 8 * PX 0 va \<noteq> 0"
    by (intro slot_nonzero) auto
  then have "walk_ok roots T s ps r 0 t va s (t + 8 * PX 0 va) T ps"
    using 0 unfolding walk_ok_def by auto
  then show ?case by blast
next
  case (Suc l)
  let ?i = "unat (PX (Suc l) va)"
  consider "pte_valid (entry (mem s) t ?i)" | "\<not> pte_valid (entry (mem s) t ?i)" "ps = []"
    | c qs where "\<not> pte_valid (entry (mem s) t ?i)" "ps = c # qs"
    by (cases ps) auto
  then show ?case
  proof cases
    case 1
    then have "T (PTE2PA (entry (mem s) t ?i)) = PTab r l (x * 512 + ?i)"
      using Suc.prems by (simp add: vm_inv_def tabs_typed_def)
    from Suc.IH [OF Suc.prems(1) this] show ?thesis
      using walk_ok_present [where T = T and s = s and va = va, OF Suc.prems(2) 1] by blast
  next
    case 2
    then have "kalloc s = Inr (s\<lparr>hart := settle (hart s)\<rparr>, 0)"
      using Suc.prems(1) by (intro kalloc_none) (simp add: vm_inv_def)
    then have "walk_ok roots T s ps r (Suc l) t va (s\<lparr>hart := settle (hart s)\<rparr>) 0 T ps"
      using walk_loop_absent [OF 2(1)] 2(2) vm_inv_settle [OF Suc.prems(1)] vm_grow_settle
      unfolding walk_ok_def by simp
    then show ?thesis by blast
  next
    case 3
    then have inv: "vm_inv T s (c # qs) roots"
      using Suc.prems(1) by simp
    then obtain s1 where s1: "kalloc s = Inr (s1, c)"
      using kalloc_some [of s c qs] by (auto simp: vm_inv_def)
    have "(T(c := PTab r l (x * 512 + ?i))) c = PTab r l (x * 512 + ?i)"
      by simp
    from Suc.IH [OF install_inv [OF inv Suc.prems(2) PX_bound 3(1) s1 PX_top [OF va]] this] show ?thesis
      using walk_ok_absent [where va = va, OF inv Suc.prems(2) 3(1) s1] unfolding 3(2) by blast
  qed
qed

section \<open>Writing a leaf entry\<close>

fun prefix_at :: "nat \<Rightarrow> nat \<Rightarrow> u64 \<Rightarrow> nat" where
  "prefix_at 0 x va = x"
| "prefix_at (Suc l) x va = prefix_at l (x * 512 + unat (PX (Suc l) va)) va"

lemma descend_typed:
  "tabs_typed T m \<Longrightarrow> T t = PTab r l x \<Longrightarrow> descend m l t va = Some t0 \<Longrightarrow> T t0 = PTab r 0 (prefix_at l x va)"
proof (induction l arbitrary: t x)
  case (Suc l)
  then have "pte_valid (entry m t (unat (PX (Suc l) va)))"
      "descend m l (PTE2PA (entry m t (unat (PX (Suc l) va)))) va = Some t0"
    by (simp_all add: Let_def split: if_splits)
  then show ?case
    using Suc.IH [OF Suc.prems(1) tabs_typedD [OF Suc.prems(1,2) PX_bound]] by simp
qed simp

lemma prefix_at_2: "prefix_at 2 0 va = unat (PX 2 va) * 512 + unat (PX 1 va)"
  by (simp add: numeral_2_eq_2)

lemma prefix_inj: "prefix_at 2 0 va = prefix_at 2 0 va' \<Longrightarrow> PX 2 va = PX 2 va' \<and> PX 1 va = PX 1 va'"
proof -
  assume eq: "prefix_at 2 0 va = prefix_at 2 0 va'"
  have "unat (PX 1 va) < 512" "unat (PX 1 va') < 512"
    by simp_all
  then have "unat (PX 2 va) = unat (PX 2 va')"
    using eq unfolding prefix_at_2 by linarith
  then show ?thesis
    using eq unfolding prefix_at_2 by (simp add: u64_eqI)
qed

lemma descend_prefix: "prefix_at 2 0 va = prefix_at 2 0 va' \<Longrightarrow> descend m 2 t va = descend m 2 t va'"
  using prefix_inj [of va va'] by (simp add: numeral_2_eq_2 Let_def)

text \<open>Writing an entry of a level-0 table leaves the path to every leaf table as it was.\<close>

lemma descend_leaf_write:
  assumes "vm_inv T s ps roots" and "T t0 = PTab r 0 x0" and "i < 512" and "T t = PTab r' l x"
  shows "descend (st64 (mem s) (t0 + of_nat (8 * i)) v) l t va = descend (mem s) l t va"
  using assms(4)
proof (induction l arbitrary: t x)
  case (Suc l)
  let ?j = "unat (PX (Suc l) va)"
  have "t \<noteq> t0" "pg_aligned t" "pg_aligned t0"
    using Suc.prems assms(2) vm_inv_aligned [OF assms(1)] by auto
  then have e: "entry (st64 (mem s) (t0 + of_nat (8 * i)) v) t ?j = entry (mem s) t ?j"
    using assms(3) entry_st64 [of t0 t i ?j] by simp
  have "pte_valid (entry (mem s) t ?j) \<Longrightarrow> T (PTE2PA (entry (mem s) t ?j)) = PTab r' l (x * 512 + ?j)"
    using assms(1) Suc.prems by (simp add: vm_inv_def tabs_typed_def)
  then show ?case
    using Suc.IH unfolding descend.simps e by (simp add: Let_def)
qed simp

lemma pte_at_leaf_write:
  assumes inv: "vm_inv T s ps roots" and roots: "root \<in> roots" "rt \<in> roots"
    and d: "descend (mem s) 2 root va = Some t0"
    and va: "va < MAXVA" "va' < MAXVA"
  shows "pte_at (st64 (mem s) (t0 + 8 * PX 0 va) v) rt va' =
     (if rt = root \<and> page_no va' = page_no va then v else pte_at (mem s) rt va')"
proof -
  let ?i = "unat (PX 0 va)" and ?m = "st64 (mem s) (t0 + of_nat (8 * unat (PX 0 va))) v"
  have tabs: "tabs_typed T (mem s)"
    using inv by (simp add: vm_inv_def)
  have t0: "T t0 = PTab root 0 (prefix_at 2 0 va)"
    using descend_typed [OF tabs vm_inv_root [OF inv roots(1)] d] .
  have same: "descend ?m 2 rt va' = descend (mem s) 2 rt va'"
    using descend_leaf_write [OF inv t0 PX_bound vm_inv_root [OF inv roots(2)]] .
  have small: "unat va < 2 ^ 39" "unat va' < 2 ^ 39"
    using va by (simp_all add: word_less_nat_alt)
  show ?thesis
  proof (cases "descend (mem s) 2 rt va'")
    case None
    then have "rt = root \<Longrightarrow> page_no va' \<noteq> page_no va"
      using d PX_page_no [OF small] descend_prefix [of va va' "mem s" root] unfolding prefix_at_2 by auto
    with None show ?thesis
      unfolding PX_slot pte_at_def lookup_from_def same by auto
  next
    case (Some t1)
    then have t1: "T t1 = PTab rt 0 (prefix_at 2 0 va')"
      using descend_typed [OF tabs vm_inv_root [OF inv roots(2)]] by blast
    have path: "page_no va' = page_no va \<longleftrightarrow>
        prefix_at 2 0 va' = prefix_at 2 0 va \<and> PX 0 va' = PX 0 va"
      using PX_page_no [OF small] prefix_inj [of va va'] unfolding prefix_at_2 by metis
    have "t1 = t0 \<longleftrightarrow> rt = root \<and> prefix_at 2 0 va' = prefix_at 2 0 va"
    proof
      assume "rt = root \<and> prefix_at 2 0 va' = prefix_at 2 0 va"
      then show "t1 = t0"
        using descend_prefix [of va' va "mem s" root] d Some by simp
    qed (use t0 t1 in simp)
    moreover have "entry ?m t1 (unat (PX 0 va')) =
        (if t1 = t0 \<and> unat (PX 0 va') = ?i then v else entry (mem s) t1 (unat (PX 0 va')))"
      using vm_inv_aligned [OF inv] t0 t1 by (intro entry_st64) auto
    ultimately show ?thesis
      unfolding PX_slot pte_at_def lookup_from_def same Some using path by (auto intro: u64_eqI)
  qed
qed

lemma leaf_write_inv:
  assumes inv: "vm_inv T s ps roots" and t0: "T t0 = PTab r 0 x0" and i: "i < 512"
    and v: "pte_valid v \<Longrightarrow> v AND PTE_U \<noteq> 0 \<Longrightarrow> T (PTE2PA v) = PData"
  shows "vm_inv T (s\<lparr>mem := st64 (mem s) (t0 + of_nat (8 * i)) v\<rparr>) ps roots"
proof -
  let ?m = "st64 (mem s) (t0 + of_nat (8 * i)) v"
  have al: "pg_aligned t0" "t0 \<notin> set ps"
    using inv t0 vm_inv_aligned [OF inv, of t0] unfolding vm_inv_def by (auto dest: spec [of _ t0])
  have e: "entry ?m p j = (if p = t0 \<and> j = i then v else entry (mem s) p j)"
    if "T p \<noteq> PNone" "j < 512" for p j
    using entry_st64 [OF al(1) vm_inv_aligned [OF inv that(1)] i that(2)] .
  have "tabs_typed T ?m"
    using inv t0 e unfolding vm_inv_def tabs_typed_def by (auto simp: t0)
  moreover have "leaves_typed T ?m"
    using inv v e unfolding vm_inv_def leaves_typed_def by auto
  moreover have "tabs_linked T ?m roots"
  proof (rule tabs_linked_keep [of T "mem s"])
    show "tabs_linked T (mem s) roots"
      using inv by (simp add: vm_inv_def)
    show "entry ?m q j = entry (mem s) q j" if "T q = PTab r (Suc l) x" "j < 512" for q r l x j
      using e [of q j] t0 that by auto
  qed
  moreover have "kmem_inv (s\<lparr>mem := ?m\<rparr>) ps"
    using inv al st64_same_off_page [OF al(1) i] by (intro kmem_inv_mem) (auto simp: vm_inv_def)
  ultimately show ?thesis
    using inv by (simp add: vm_inv_def)
qed

section \<open>Mapping one page\<close>

text \<open>What a change of leaf entries may do to the rest of the machine.\<close>

definition vm_frame :: "(u64 \<Rightarrow> pkind) \<Rightarrow> 'a kmem_scheme \<Rightarrow> (u64 \<Rightarrow> pkind) \<Rightarrow> 'a kmem_scheme \<Rightarrow> bool" where
  "vm_frame T s T' s' \<longleftrightarrow>
     kend s' = kend s \<and> kmem.more s' = kmem.more s \<and> kmem_lock s' = kmem_lock s \<and>
     settle (hart s') = settle (hart s) \<and>
     (\<forall>p. T' p = PData \<longleftrightarrow> T p = PData) \<and> (\<forall>p. T' p = PNone \<longleftrightarrow> T p = PNone) \<and>
     (\<forall>p x. (T p = PData \<or> T p = PNone) \<longrightarrow> pg_aligned p \<longrightarrow> page_no x = page_no p \<longrightarrow> mem s' x = mem s x)"

lemma vm_frame_refl [simp]: "vm_frame T s T s"
  by (simp add: vm_frame_def)

lemma vm_frame_trans: "vm_frame T s T' s' \<Longrightarrow> vm_frame T' s' T'' s'' \<Longrightarrow> vm_frame T s T'' s''"
  unfolding vm_frame_def by metis

lemma vm_grow_frame: "vm_grow roots T s ps T' s' ps' \<Longrightarrow> vm_frame T s T' s'"
  using vm_grow_PData [of roots T s ps T' s' ps'] vm_grow_PNone [of roots T s ps T' s' ps']
  unfolding vm_frame_def vm_grow_def by blast

lemma leaf_write_frame:
  assumes "vm_inv T s ps roots" and "T t0 = PTab r 0 x0" and "i < 512"
  shows "vm_frame T s T (s\<lparr>mem := st64 (mem s) (t0 + of_nat (8 * i)) v\<rparr>)"
proof -
  have al: "pg_aligned t0"
    using vm_inv_aligned [OF assms(1)] assms(2) by simp
  have "st64 (mem s) (t0 + of_nat (8 * i)) v x = mem s x"
    if "T p = PData \<or> T p = PNone" "pg_aligned p" "page_no x = page_no p" for p x
  proof -
    have "page_no x \<noteq> page_no t0"
      using page_no_inj [OF that(2) al] that(1,3) assms(2) by auto
    then show ?thesis
      using st64_same_off_page [OF al assms(3)] unfolding same_off_page_def by blast
  qed
  then show ?thesis
    by (simp add: vm_frame_def)
qed

lemma leaf_pte_facts:
  assumes "pg_aligned pa" and "perm AND mask 10 = perm"
  shows "pte_valid (PA2PTE pa OR perm OR PTE_V)" and "PTE2PA (PA2PTE pa OR perm OR PTE_V) = pa"
    and "(PA2PTE pa OR perm OR PTE_V) AND PTE_U = perm AND PTE_U"
    and "PTE_FLAGS (PA2PTE pa OR perm OR PTE_V) = perm OR PTE_V"
proof -
  have low: "\<not> bit (PA2PTE pa) n" if "n < 10" for n
    using that by (simp add: PA2PTE_def bit_simps)
  have fl: "(perm OR PTE_V) AND mask 10 = perm OR PTE_V"
    using assms(2) by (simp add: and.commute [of _ "mask 10"] bit.conj_disj_distrib)
      (metis PTE_V_flags and.commute assms(2))
  show "pte_valid (PA2PTE pa OR perm OR PTE_V)"
    using pte_valid_child [of "PA2PTE pa OR perm"] by (simp add: or.assoc)
  show "PTE2PA (PA2PTE pa OR perm OR PTE_V) = pa"
    using PTE2PA_PA2PTE [OF assms(1) fl] .
  show "(PA2PTE pa OR perm OR PTE_V) AND PTE_U = perm AND PTE_U"
    by (rule bit_eqI) (auto simp: bit_simps low)
  show "PTE_FLAGS (PA2PTE pa OR perm OR PTE_V) = perm OR PTE_V"
  proof (rule bit_eqI)
    fix n
    have "bit (perm OR PTE_V) n \<Longrightarrow> n < 10"
      using arg_cong [OF fl, of "\<lambda>w. bit w n"] by (auto simp: bit_simps)
    then show "bit (PTE_FLAGS (PA2PTE pa OR perm OR PTE_V)) n = bit (perm OR PTE_V) n"
      unfolding PTE_FLAGS_def mask10 [simplified] using low by (auto simp: mask10 bit_simps)
  qed
qed

lemma mappages_one_eq:
  assumes "pg_aligned va"
  shows "mappages s root va 4096 pa perm =
    bindr (walk s root va True) (\<lambda>(s1, pte).
      if pte = 0 then Inr (s1, -1)
      else if ld64 (mem s1) pte AND PTE_V \<noteq> 0 then Inl (Panic ''mappages: remap'')
      else Inr (s1\<lparr>mem := st64 (mem s1) pte (PA2PTE pa OR perm OR PTE_V)\<rparr>, 0))"
proof -
  have "page_no (va + of_nat 4095) = page_no va"
    using assms by (intro page_no_add) simp_all
  then have "PGROUNDDOWN (va + 4095) = va"
    using assms by (intro page_no_inj) simp_all
  then have "PGROUNDDOWN (va + 4096 - 1) = va"
    by (simp add: algebra_simps)
  then show ?thesis
    using assms unfolding mappages_def
    by (subst mappages_loop.simps) (auto simp: Let_def intro!: bindr_cong)
qed

text \<open>The effect of giving the page of \<open>va\<close> the leaf entry \<open>v\<close> in the tree of \<open>root\<close>.\<close>

definition pte_set :: "u64 set \<Rightarrow> memory \<Rightarrow> memory \<Rightarrow> u64 \<Rightarrow> u64 \<Rightarrow> u64 \<Rightarrow> bool" where
  "pte_set roots m m' root va v \<longleftrightarrow>
     (\<forall>rt\<in>roots. \<forall>va'. va' < MAXVA \<longrightarrow>
        pte_at m' rt va' = (if rt = root \<and> page_no va' = page_no va then v else pte_at m rt va'))"

definition pte_same :: "u64 set \<Rightarrow> memory \<Rightarrow> memory \<Rightarrow> bool" where
  "pte_same roots m m' \<longleftrightarrow> (\<forall>rt\<in>roots. \<forall>va. va < MAXVA \<longrightarrow> pte_at m' rt va = pte_at m rt va)"

lemma mappages_page:
  assumes inv: "vm_inv T s ps roots" and root: "root \<in> roots" and va: "pg_aligned va" "va < MAXVA"
    and unmapped: "\<not> pte_valid (pte_at (mem s) root va)"
    and pa: "pg_aligned pa" and perm: "perm AND mask 10 = perm"
    and data: "perm AND PTE_U \<noteq> 0 \<Longrightarrow> T pa = PData"
  shows "\<exists>s' rc T' ps'. mappages s root va 4096 pa perm = Inr (s', rc) \<and> vm_inv T' s' ps' roots \<and>
    vm_frame T s T' s' \<and> length ps \<le> length ps' + 2 \<and>
    (rc = 0 \<and> pte_set roots (mem s) (mem s') root va (PA2PTE pa OR perm OR PTE_V) \<or>
     rc = -1 \<and> length ps < 2 \<and> pte_same roots (mem s) (mem s'))"
proof -
  obtain s1 a T1 ps1 where w: "walk_ok roots T s ps root 2 root va s1 a T1 ps1"
    using walk_loop_alloc [OF inv vm_inv_root [OF inv root] va(2)] by blast
  then have walk: "walk s root va True = Inr (s1, a)" and inv1: "vm_inv T1 s1 ps1 roots"
    and grow: "vm_grow roots T s ps T1 s1 ps1" and len: "length ps \<le> length ps1 + 2"
    using va(2) by (simp_all add: walk_ok_def walk_def)
  have same: "pte_at (mem s1) rt va' = pte_at (mem s) rt va'" if "rt \<in> roots" for rt va'
    using grow that by (simp add: vm_grow_def)
  show ?thesis
  proof (cases "a = 0")
    case True
    then have "mappages s root va 4096 pa perm = Inr (s1, -1)" "length ps < 2"
      using walk w by (simp_all add: mappages_one_eq [OF va(1)] walk_ok_def)
    then show ?thesis
      using inv1 vm_grow_frame [OF grow] len same unfolding pte_same_def by blast
  next
    case False
    then obtain t0 x0 where t0: "a = t0 + 8 * PX 0 va" "T1 t0 = PTab root 0 x0"
        "descend (mem s1) 2 root va = Some t0"
      using w unfolding walk_ok_def by blast
    let ?v = "PA2PTE pa OR perm OR PTE_V"
    let ?s2 = "s1\<lparr>mem := st64 (mem s1) a ?v\<rparr>"
    have "ld64 (mem s1) a = pte_at (mem s1) root va"
      unfolding t0(1) entry_slot pte_at_def lookup_from_def t0(3) by simp
    then have "mappages s root va 4096 pa perm = Inr (?s2, 0)"
      using unmapped same [OF root] walk False
      by (simp add: mappages_one_eq [OF va(1)] pte_valid_def)
    moreover have "vm_inv T1 ?s2 ps1 roots"
      unfolding t0(1) PX_slot
    proof (rule leaf_write_inv [OF inv1 t0(2) PX_bound])
      assume "?v AND PTE_U \<noteq> 0"
      then show "T1 (PTE2PA ?v) = PData"
        using leaf_pte_facts [OF pa perm] data vm_grow_PData [OF grow] by simp
    qed
    moreover have "vm_frame T s T1 ?s2"
      unfolding t0(1) PX_slot
      using vm_frame_trans [OF vm_grow_frame [OF grow] leaf_write_frame [OF inv1 t0(2) PX_bound]] .
    moreover have "pte_set roots (mem s) (mem ?s2) root va ?v"
      unfolding pte_set_def t0(1)
      using pte_at_leaf_write [OF inv1 root _ t0(3) va(2)] same by simp
    ultimately show ?thesis
      using len by blast
  qed
qed

section \<open>Reading translations\<close>

lemma ld64_leaf_slot:
  "descend m 2 root va = Some t0 \<Longrightarrow> ld64 m (t0 + 8 * PX 0 va) = pte_at m root va"
  unfolding entry_slot pte_at_def lookup_from_def by simp

lemma descend_root_typed:
  assumes "vm_inv T s ps roots" and "root \<in> roots" and "descend (mem s) 2 root va = Some t0"
  shows "T t0 = PTab root 0 (prefix_at 2 0 va)"
proof -
  have "tabs_typed T (mem s)"
    using assms(1) by (simp add: vm_inv_def)
  from descend_typed [where T = T, OF this vm_inv_root [OF assms(1,2)] assms(3)] show ?thesis .
qed

lemma walk_noalloc_cases:
  assumes inv: "vm_inv T s ps roots" and root: "root \<in> roots" and va: "va < MAXVA"
  shows "(walk s root va False = Inr (s, 0) \<and> pte_at (mem s) root va = 0) \<or>
    (\<exists>t0 x0. walk s root va False = Inr (s, t0 + 8 * PX 0 va) \<and> t0 + 8 * PX 0 va \<noteq> 0 \<and>
       T t0 = PTab root 0 x0 \<and> descend (mem s) 2 root va = Some t0)"
proof (cases "descend (mem s) 2 root va")
  case None
  then show ?thesis
    using walk_noalloc [OF va, of s root] by (simp add: pte_at_def lookup_from_def)
next
  case (Some t0)
  then have "T t0 = PTab root 0 (prefix_at 2 0 va)"
    by (rule descend_root_typed [OF inv root])
  then show ?thesis
    using Some walk_noalloc [OF va, of s root] slot_nonzero [OF inv, of t0 va] by auto
qed

definition user_pte :: "u64 \<Rightarrow> bool" where
  "user_pte e \<longleftrightarrow> pte_valid e \<and> e AND PTE_U \<noteq> 0"

lemma walkaddr_eq:
  assumes "vm_inv T s ps roots" and "root \<in> roots"
  shows "walkaddr s root va =
    Inr (if va < MAXVA \<and> user_pte (pte_at (mem s) root va) then PTE2PA (pte_at (mem s) root va) else 0)"
proof (cases "va < MAXVA")
  case True
  from walk_noalloc_cases [OF assms True] show ?thesis
  proof
    assume "walk s root va False = Inr (s, 0) \<and> pte_at (mem s) root va = 0"
    then show ?thesis
      using True by (simp add: walkaddr_def user_pte_def)
  next
    assume "\<exists>t0 x0. walk s root va False = Inr (s, t0 + 8 * PX 0 va) \<and> t0 + 8 * PX 0 va \<noteq> 0 \<and>
       T t0 = PTab root 0 x0 \<and> descend (mem s) 2 root va = Some t0"
    then show ?thesis
      using True by (auto simp: walkaddr_def user_pte_def pte_valid_def ld64_leaf_slot)
  qed
next
  case False
  then have "MAXVA \<le> va"
    by simp
  then show ?thesis
    using False by (simp add: walkaddr_def)
qed

lemma user_pte_data:
  assumes "vm_inv T s ps roots" and "root \<in> roots" and "user_pte (pte_at (mem s) root va)"
  shows "T (PTE2PA (pte_at (mem s) root va)) = PData"
proof -
  obtain t0 where d: "descend (mem s) 2 root va = Some t0"
    using assms(3) by (cases "descend (mem s) 2 root va") (auto simp: user_pte_def pte_at_def lookup_from_def)
  then have "T t0 = PTab root 0 (prefix_at 2 0 va)"
    by (rule descend_root_typed [OF assms(1,2)])
  then show ?thesis
    using assms(1,3) d unfolding vm_inv_def leaves_typed_def user_pte_def
    by (simp add: pte_at_def lookup_from_def)
qed

section \<open>Unmapping without freeing\<close>

definition pte_clear :: "u64 set \<Rightarrow> memory \<Rightarrow> memory \<Rightarrow> u64 \<Rightarrow> u64 \<Rightarrow> nat \<Rightarrow> bool" where
  "pte_clear roots m m' root a n \<longleftrightarrow>
     (\<forall>rt\<in>roots. \<forall>va. va < MAXVA \<longrightarrow> pte_at m' rt va =
        (if rt = root \<and> page_no a \<le> page_no va \<and> page_no va < page_no a + n then 0 else pte_at m rt va))"

definition leaf_pte :: "u64 \<Rightarrow> bool" where
  "leaf_pte e \<longleftrightarrow> pte_valid e \<and> PTE_FLAGS e \<noteq> PTE_V"

lemma uvmunmap_loop_keep:
  assumes "vm_inv T s ps roots" and "root \<in> roots" and "pg_aligned a"
    and "unat a + 4096 * n \<le> unat MAXVA"
    and "\<And>k. k < n \<Longrightarrow> leaf_pte (pte_at (mem s) root (a + of_nat (4096 * k)))"
    and "unat stop = unat a + 4096 * n"
  shows "\<exists>s'. uvmunmap_loop s root a stop False = Inr s' \<and> vm_inv T s' ps roots \<and> vm_frame T s T s' \<and>
           pte_clear roots (mem s) (mem s') root a n"
  using assms
proof (induction n arbitrary: s a)
  case 0
  then have "\<not> a < stop"
    by (simp add: word_less_nat_alt)
  then show ?case
    using 0 by (auto simp: uvmunmap_loop.simps pte_clear_def)
next
  case (Suc n)
  have a: "a < MAXVA" "a < stop"
    using Suc.prems(4,6) by (simp_all add: word_less_nat_alt)
  have next_a: "unat (a + 4096) = unat a + 4096"
    using Suc.prems(4) by (simp add: unat_add_nowrap)
  have leaf: "leaf_pte (pte_at (mem s) root a)"
    using Suc.prems(5) [of 0] by simp
  then have "pte_at (mem s) root a \<noteq> 0"
    by (auto simp: leaf_pte_def)
  then obtain t0 x0 where t0: "walk s root a False = Inr (s, t0 + 8 * PX 0 a)" "t0 + 8 * PX 0 a \<noteq> 0"
      "T t0 = PTab root 0 x0" "descend (mem s) 2 root a = Some t0"
    using walk_noalloc_cases [OF Suc.prems(1,2) a(1)] by blast
  let ?s1 = "s\<lparr>mem := st64 (mem s) (t0 + 8 * PX 0 a) 0\<rparr>"
  have step: "uvmunmap_loop s root a stop False = uvmunmap_loop ?s1 root (a + 4096) stop False"
    using a(2) t0 leaf
    by (subst uvmunmap_loop.simps) (simp add: ld64_leaf_slot leaf_pte_def pte_valid_def)
  have inv1: "vm_inv T ?s1 ps roots" and fr1: "vm_frame T s T ?s1"
    unfolding PX_slot
    using leaf_write_inv [OF Suc.prems(1) t0(3) PX_bound, where v = 0]
      leaf_write_frame [OF Suc.prems(1) t0(3) PX_bound] by simp_all
  have set1: "pte_at (mem ?s1) rt va = (if rt = root \<and> page_no va = page_no a then 0 else pte_at (mem s) rt va)"
    if "rt \<in> roots" "va < MAXVA" for rt va
    using pte_at_leaf_write [OF Suc.prems(1,2) that(1) t0(4) a(1) that(2)] by simp
  have pages: "page_no (a + 4096) = Suc (page_no a)" "pg_aligned (a + 4096)"
    using Suc.prems(3) next_a by (simp_all add: page_no_def pg_aligned_def)
  have "leaf_pte (pte_at (mem ?s1) root (a + 4096 + of_nat (4096 * k)))" if k: "k < n" for k
  proof -
    let ?va = "a + of_nat (4096 * Suc k)"
    have u: "unat ?va = unat a + 4096 * Suc k"
      using k Suc.prems(4) by (intro unat_add_of_nat) simp
    then have "?va < MAXVA" "page_no ?va \<noteq> page_no a"
      using k Suc.prems(3,4) by (auto simp: word_less_nat_alt page_no_def)
    then have "pte_at (mem ?s1) root ?va = pte_at (mem s) root ?va"
      using set1 [OF Suc.prems(2)] by simp
    moreover have "a + 4096 + of_nat (4096 * k) = ?va"
      by (simp add: algebra_simps)
    ultimately show ?thesis
      using Suc.prems(5) [of "Suc k"] k by (simp add: add.assoc)
  qed
  then obtain s' where s': "uvmunmap_loop ?s1 root (a + 4096) stop False = Inr s'" "vm_inv T s' ps roots"
      "vm_frame T ?s1 T s'" "pte_clear roots (mem ?s1) (mem s') root (a + 4096) n"
    using Suc.IH [OF inv1 Suc.prems(2) pages(2)] Suc.prems(4,6) next_a by auto
  have "pte_clear roots (mem s) (mem s') root a (Suc n)"
    using s'(4) set1 unfolding pte_clear_def pages by auto
  then show ?case
    using s' step vm_frame_trans [OF fr1 s'(3)] by auto
qed

lemma uvmunmap_keep:
  assumes "vm_inv T s ps roots" and "root \<in> roots" and "pg_aligned a"
    and "unat a + 4096 * unat n \<le> unat MAXVA"
    and "\<And>k. k < unat n \<Longrightarrow> leaf_pte (pte_at (mem s) root (a + of_nat (4096 * k)))"
  shows "\<exists>s'. uvmunmap s root a n False = Inr s' \<and> vm_inv T s' ps roots \<and> vm_frame T s T s' \<and>
           pte_clear roots (mem s) (mem s') root a (unat n)"
proof -
  have "unat (n * 4096) = unat n * 4096"
    using assms(4) by (intro unat_mult_nowrap [of n 4096, simplified]) simp
  then have "unat (a + n * 4096) = unat a + 4096 * unat n"
    using assms(4) by (simp add: unat_add_nowrap)
  moreover have "a mod 4096 = 0"
    using assms(3) by (simp add: pg_aligned_def word_unat_eq_iff unat_mod)
  ultimately show ?thesis
    using uvmunmap_loop_keep [OF assms] by (simp add: uvmunmap_def)
qed

section \<open>Virtual pages\<close>

definition pgva :: "nat \<Rightarrow> u64" where
  "pgva v = of_nat (4096 * v)"

definition pte_pg :: "memory \<Rightarrow> u64 \<Rightarrow> nat \<Rightarrow> u64" where
  "pte_pg m root v = pte_at m root (pgva v)"

text \<open>The number of pages of the user address space.\<close>

abbreviation NPAGES :: nat where "NPAGES \<equiv> 2 ^ 26"

lemma unat_pgva: "v < 2 ^ 52 \<Longrightarrow> unat (pgva v) = 4096 * v"
  unfolding pgva_def by (rule unat_of_nat64) simp

lemma pgva_props:
  assumes "v < NPAGES"
  shows "unat (pgva v) = 4096 * v" "page_no (pgva v) = v" "pg_aligned (pgva v)" "pgva v < MAXVA"
proof -
  show u: "unat (pgva v) = 4096 * v"
    using assms by (intro unat_pgva) simp
  show "page_no (pgva v) = v" "pg_aligned (pgva v)" "pgva v < MAXVA"
    using assms by (simp_all add: page_no_def pg_aligned_def word_less_nat_alt u)
qed

lemma pgva_page_no: "va < MAXVA \<Longrightarrow> page_no va < NPAGES"
  by (simp add: page_no_def word_less_nat_alt less_mult_imp_div_less)

lemma pte_at_page:
  assumes "va < MAXVA" and "va' < MAXVA" and "page_no va = page_no va'"
  shows "pte_at m root va = pte_at m root va'"
proof -
  have "unat va < 2 ^ 39" "unat va' < 2 ^ 39"
    using assms(1,2) by (simp_all add: word_less_nat_alt)
  then have "PX 2 va = PX 2 va'" "PX 1 va = PX 1 va'" "PX 0 va = PX 0 va'"
    using PX_page_no [of va va'] assms(3) by simp_all
  then show ?thesis
    by (simp add: pte_at_def numeral_2_eq_2 Let_def)
qed

lemma pte_at_pg: "va < MAXVA \<Longrightarrow> pte_at m root va = pte_pg m root (page_no va)"
  unfolding pte_pg_def using pgva_props [OF pgva_page_no] by (intro pte_at_page) simp_all

lemma pgva_sub:
  assumes "i \<le> v" and "v < 2 ^ 52"
  shows "pgva v - of_nat i * 4096 = pgva (v - i)"
proof -
  have "(of_nat (4096 * v) :: u64) = of_nat (4096 * (v - i)) + of_nat (i * 4096)"
    using assms(1) by (metis (no_types, lifting) le_add_diff_inverse2 distrib_left mult.commute of_nat_add)
  then show ?thesis
    by (simp add: pgva_def)
qed

text \<open>
  The entries of the leaf tables are exactly the translations: each slot of each leaf table is
  the entry of one page of one process.
\<close>

lemma PX_pgva:
  assumes "v < NPAGES"
  shows "unat (PX 2 (pgva v)) = v div 2 ^ 18" "unat (PX 1 (pgva v)) = v div 2 ^ 9 mod 512"
    "unat (PX 0 (pgva v)) = v mod 512"
proof -
  have "unat (pgva v) div 2 ^ (12 + k) = v div 2 ^ k" for k
    unfolding pgva_props(1) [OF assms] by (simp add: power_add div_mult2_eq)
  from this [of 18] this [of 9] this [of 0] show "unat (PX 2 (pgva v)) = v div 2 ^ 18"
    "unat (PX 1 (pgva v)) = v div 2 ^ 9 mod 512" "unat (PX 0 (pgva v)) = v mod 512"
    using assms by (simp_all add: unat_PX less_mult_imp_div_less)
qed

lemma leaf_slot_page:
  assumes inv: "vm_inv T s ps roots" and t: "T t = PTab r 0 x" and i: "i < 512"
  shows "r \<in> roots" and "x * 512 + i < NPAGES" and "entry (mem s) t i = pte_pg (mem s) r (x * 512 + i)"
proof -
  have lk: "tabs_linked T (mem s) roots"
    using inv by (simp add: vm_inv_def)
  show r: "r \<in> roots"
    using tabs_linkedD(1) [OF lk t] .
  obtain q y i1 where q: "T q = PTab r (Suc 0) y" "i1 < 512" "x = y * 512 + i1"
    "pte_valid (entry (mem s) q i1)" "PTE2PA (entry (mem s) q i1) = t"
    using tabs_linkedD(4) [OF lk t] by auto
  obtain q2 y2 i2 where q2: "T q2 = PTab r (Suc (Suc 0)) y2" "i2 < 256" "y = y2 * 512 + i2"
    "pte_valid (entry (mem s) q2 i2)" "PTE2PA (entry (mem s) q2 i2) = q"
    using tabs_linkedD(4) [OF lk q(1)] by auto
  have "q2 = r"
    using tabs_linkedD(3) [OF lk q2(1)] by simp
  then have y2: "y2 = 0"
    using vm_inv_root [OF inv r] q2(1) by simp
  let ?v = "x * 512 + i"
  have v: "?v = i2 * 2 ^ 18 + (i1 * 512 + i)"
    using q(3) q2(3) y2 by simp
  have lo: "i1 * 512 + i < 2 ^ 18"
    using i q(2) by simp
  then show lt: "?v < NPAGES"
    using q2(2) unfolding v by simp
  have "?v div 2 ^ 18 = i2"
    using lo unfolding v by simp
  moreover have "?v div 2 ^ 9 mod 512 = i1"
  proof -
    have "?v div 2 ^ 9 = x" "x mod 512 = i1"
      using i q(2,3) by simp_all
    then show ?thesis by simp
  qed
  moreover have "?v mod 512 = i"
    using i by simp
  ultimately have px: "unat (PX 2 (pgva ?v)) = i2" "unat (PX 1 (pgva ?v)) = i1" "unat (PX 0 (pgva ?v)) = i"
    using PX_pgva [OF lt] by simp_all
  show "entry (mem s) t i = pte_pg (mem s) r ?v"
    using q(4,5) q2(4,5) \<open>q2 = r\<close> px by (simp add: pte_pg_def pte_at_def numeral_2_eq_2 Let_def)
qed

end
