(* ===== verification/Usermem.thy ===== *)
theory Usermem
  imports Pagetable
begin

text \<open>
  User memory through a page table: data pages enter and leave the allocator, writes to data
  pages leave every translation alone, and the copy routines, which move page-sized chunks,
  equal the byte-by-byte copy through the translation of each address.
\<close>

section \<open>What an operation on user memory keeps\<close>

text \<open>As \<open>vm_frame\<close>, but free pages may have become data pages.\<close>

definition vm_keep :: "(u64 \<Rightarrow> pkind) \<Rightarrow> 'a kmem_scheme \<Rightarrow> (u64 \<Rightarrow> pkind) \<Rightarrow> 'a kmem_scheme \<Rightarrow> bool" where
  "vm_keep T s T' s' \<longleftrightarrow>
     kend s' = kend s \<and> kmem.more s' = kmem.more s \<and> kmem_lock s' = kmem_lock s \<and>
     settle (hart s') = settle (hart s) \<and>
     (\<forall>p. T p = PData \<longrightarrow> T' p = PData) \<and>
     (\<forall>p x. T p = PData \<longrightarrow> page_no x = page_no p \<longrightarrow> mem s' x = mem s x)"

lemma vm_keep_refl [simp]: "vm_keep T s T s"
  by (simp add: vm_keep_def)

lemma vm_keep_trans: "vm_keep T s T' s' \<Longrightarrow> vm_keep T' s' T'' s'' \<Longrightarrow> vm_keep T s T'' s''"
  unfolding vm_keep_def by metis

lemma vm_frame_keep:
  assumes "vm_inv T s ps roots" and "vm_frame T s T' s'"
  shows "vm_keep T s T' s'"
  using assms vm_inv_aligned [OF assms(1)] unfolding vm_frame_def vm_keep_def by auto

lemma pte_same_refl [simp]: "pte_same roots m m"
  by (simp add: pte_same_def)

lemma pte_same_trans: "pte_same roots m m' \<Longrightarrow> pte_same roots m' m'' \<Longrightarrow> pte_same roots m m''"
  by (simp add: pte_same_def)

section \<open>Writes outside the tables\<close>

text \<open>A write confined to a page that is no table of any tree changes no translation.\<close>

fun is_tab :: "pkind \<Rightarrow> bool" where
  "is_tab (PTab r l x) = True"
| "is_tab _ = False"

lemma data_write_entry:
  assumes inv: "vm_inv T s ps roots" and p: "pg_aligned p" "\<not> is_tab (T p)"
    and same: "same_off_page p (mem s) m'" and t: "T t = PTab r l x" and i: "i < 512"
  shows "entry m' t i = entry (mem s) t i"
proof (rule entry_same_off [OF same _ p(1) _ i])
  show "pg_aligned t" "t \<noteq> p"
    using vm_inv_aligned [OF inv] p t by auto
qed

lemma data_write_descend:
  assumes inv: "vm_inv T s ps roots" and p: "pg_aligned p" "\<not> is_tab (T p)"
    and same: "same_off_page p (mem s) m'" and t: "T t = PTab r l x"
  shows "descend m' l t va = descend (mem s) l t va"
  using t
proof (induction l arbitrary: t x)
  case (Suc l)
  have "entry m' t (unat (PX (Suc l) va)) = entry (mem s) t (unat (PX (Suc l) va))"
    using data_write_entry [OF inv p same Suc.prems] by simp
  moreover have "tabs_typed T (mem s)"
    using inv by (simp add: vm_inv_def)
  ultimately show ?case
    using Suc.IH tabs_typedD [of T "mem s", OF _ Suc.prems] by (simp add: Let_def)
qed simp

lemma data_write_pte:
  assumes "vm_inv T s ps roots" and "pg_aligned p" and "\<not> is_tab (T p)" and "same_off_page p (mem s) m'"
  shows "pte_same roots (mem s) m'"
proof (unfold pte_same_def, intro ballI allI impI)
  fix rt va
  assume rt: "rt \<in> roots"
  note root = vm_inv_root [OF assms(1) rt]
  show "pte_at m' rt va = pte_at (mem s) rt va"
  proof (cases "descend (mem s) 2 rt va")
    case None
    then show ?thesis
      using data_write_descend [OF assms root] by (simp add: pte_at_def lookup_from_def)
  next
    case (Some t0)
    then show ?thesis
      using data_write_descend [OF assms root] data_write_entry [OF assms descend_root_typed [OF assms(1) rt Some]]
      by (simp add: pte_at_def lookup_from_def)
  qed
qed

lemma data_write_inv:
  assumes inv: "vm_inv T s ps roots" and p: "T p = PData" and same: "same_off_page p (mem s) m'"
  shows "vm_inv T (s\<lparr>mem := m'\<rparr>) ps roots"
proof -
  have al: "pg_aligned p" and "\<not> is_tab (T p)"
    using vm_inv_aligned [OF inv, of p] p by simp_all
  note e = data_write_entry [OF inv this same]
  have "tabs_typed T m'" "leaves_typed T m'"
    using inv e unfolding vm_inv_def tabs_typed_def leaves_typed_def by simp_all
  moreover have "tabs_linked T m' roots"
  proof (rule tabs_linked_keep [of T "mem s"])
    show "tabs_linked T (mem s) roots"
      using inv by (simp add: vm_inv_def)
  qed (use e in blast)
  moreover have "p \<notin> set ps"
    using inv p unfolding vm_inv_def by (metis pkind.distinct(3))
  then have "kmem_inv (s\<lparr>mem := m'\<rparr>) ps"
    using inv same al by (intro kmem_inv_mem) (auto simp: vm_inv_def)
  ultimately show ?thesis
    using inv by (simp add: vm_inv_def)
qed

section \<open>Data pages from and to the allocator\<close>

lemma tabs_typed_retype:
  assumes tabs: "tabs_typed T m" and kinds: "\<not> is_tab (T c)" "\<not> is_tab k"
    and e: "\<And>t r l x i. T t = PTab r l x \<Longrightarrow> i < 512 \<Longrightarrow> entry m' t i = entry m t i"
  shows "tabs_typed (T(c := k)) m'"
proof (unfold tabs_typed_def, intro allI impI)
  fix p r l x i
  assume p: "(T(c := k)) p = PTab r (Suc l) x" and i: "i < 512" and v: "pte_valid (entry m' p i)"
  then have Tp: "T p = PTab r (Suc l) x"
    using kinds(2) by (auto split: if_splits)
  have ei: "entry m' p i = entry m p i"
    using e [OF Tp i] .
  then have child: "T (PTE2PA (entry m' p i)) = PTab r l (x * 512 + i)"
    and fl: "entry m' p i AND (PTE_R OR PTE_W OR PTE_X) = 0"
    using tabs Tp i v unfolding tabs_typed_def by simp_all
  then have "PTE2PA (entry m' p i) \<noteq> c"
    using kinds(1) by auto
  then show "(T(c := k)) (PTE2PA (entry m' p i)) = PTab r l (x * 512 + i) \<and>
      entry m' p i AND (PTE_R OR PTE_W OR PTE_X) = 0"
    using child fl by simp
qed

lemma tabs_linked_retype:
  assumes lk: "tabs_linked T m roots" and kinds: "\<not> is_tab (T c)" "\<not> is_tab k"
    and e: "\<And>t r l x i. T t = PTab r l x \<Longrightarrow> i < 512 \<Longrightarrow> entry m' t i = entry m t i"
  shows "tabs_linked (T(c := k)) m' roots"
proof -
  have same: "(T(c := k)) p = PTab r l x \<longleftrightarrow> T p = PTab r l x" for p r l x
    using kinds by (cases "p = c") auto
  have "tabs_linked T m' roots"
    using tabs_linked_keep [OF lk] e by blast
  then show ?thesis
    unfolding tabs_linked_def same .
qed

lemma vm_inv_retype:
  assumes inv: "vm_inv T s ps roots" and k: "kmem_inv s' ps'" "kend s' = kend s"
    and c: "T c \<noteq> PNone" "\<not> is_tab (T c)" and k': "(k = PFree) = (c \<in> set ps')"
    and ps': "\<And>p. p \<noteq> c \<Longrightarrow> p \<in> set ps' \<longleftrightarrow> p \<in> set ps"
    and typed: "tabs_typed (T(c := k)) (mem s')" "leaves_typed (T(c := k)) (mem s')" "tabs_linked (T(c := k)) (mem s') roots"
  shows "vm_inv (T(c := k)) s' ps' roots"
proof -
  have "c \<notin> roots"
    using vm_inv_root [OF inv, of c] c(2) by auto
  moreover have "(T(c := k)) p = PFree \<longleftrightarrow> p \<in> set ps'" for p
    using inv k' ps' [of p] by (cases "p = c") (simp_all add: vm_inv_def)
  moreover have "ram_page (kend s) c"
    using vm_inv_ram [OF inv c(1)] .
  ultimately show ?thesis
    using inv k typed unfolding vm_inv_def by (simp add: fun_upd_def)
qed

lemma data_page_apart:
  assumes "vm_inv T s ps roots" and "T p = PData" and "page_no x = page_no p"
    and "pg_aligned c" and "T c \<noteq> PData"
  shows "page_no x \<noteq> page_no c"
  using page_no_inj [of p c] vm_inv_aligned [OF assms(1), of p] assms by auto

text \<open>A page taken by \<open>kalloc\<close>, filled with zeros and given to a process.\<close>

lemma kalloc_data:
  assumes inv: "vm_inv T s (c # ps) roots"
  shows "\<exists>s1. kalloc s = Inr (s1, c) \<and>
    vm_inv (T(c := PData)) (s1\<lparr>mem := memset (mem s1) c 0 4096\<rparr>) ps roots \<and>
    vm_keep T s (T(c := PData)) (s1\<lparr>mem := memset (mem s1) c 0 4096\<rparr>) \<and>
    pte_same roots (mem s) (memset (mem s1) c 0 4096) \<and> c \<noteq> 0 \<and> T c = PFree"
proof -
  have k: "kmem_inv s (c # ps)" and c: "T c = PFree"
    using inv by (simp_all add: vm_inv_def)
  then have al: "pg_aligned c" and c0: "c \<noteq> 0"
    using vm_inv_aligned [OF inv, of c] vm_inv_nonzero [OF inv, of c] by simp_all
  obtain s1 where s1: "kalloc s = Inr (s1, c)"
    "s1 = s\<lparr>hart := settle (hart s), freelist := ld64 (mem s) c, mem := memset (mem s) c 5 4096\<rparr>"
    using kalloc_some [OF k] by simp
  let ?m = "memset (mem s1) c 0 4096" and ?T = "T(c := PData)"
  have so: "same_off_page c (mem s) ?m"
    unfolding s1(2) using memset_same_off_page [OF al] by (auto intro: same_off_page_trans)
  have k1: "kmem_inv (s1\<lparr>mem := ?m\<rparr>) ps"
    using kmem_inv_kalloc [OF k] s1 memset_same_off_page [OF al] al k
    by (intro kmem_inv_mem) (auto simp: kmem_inv_def)
  have e: "entry ?m t i = entry (mem s) t i" if "T t = PTab r l x" "i < 512" for t r l x i
    using data_write_entry [OF inv al _ so that] c by simp
  have nt: "\<not> is_tab (T c)"
    using c by simp
  have tabs: "tabs_typed T (mem s)" and leaves: "leaves_typed T (mem s)" and lk: "tabs_linked T (mem s) roots"
    using inv by (simp_all add: vm_inv_def)
  have "tabs_typed ?T ?m"
    using tabs nt e by (intro tabs_typed_retype [of T "mem s"]) simp_all
  moreover have "tabs_linked ?T ?m roots"
    using tabs_linked_retype [OF lk nt _ e] by simp
  moreover have "leaves_typed ?T ?m"
    using leaves e unfolding leaves_typed_def by (auto split: if_splits)
  ultimately have "vm_inv ?T (s1\<lparr>mem := ?m\<rparr>) ps roots"
    using k1 k c nt by (intro vm_inv_retype [OF inv]) (auto simp: s1(2) kmem_inv_def)
  moreover have "vm_keep T s ?T (s1\<lparr>mem := ?m\<rparr>)"
    using so c data_page_apart [OF inv _ _ al] unfolding vm_keep_def same_off_page_def
    by (simp add: s1(2))
  moreover have "pte_same roots (mem s) ?m"
    using data_write_pte [OF inv al _ so] c by simp
  ultimately show ?thesis
    using s1(1) c c0 by blast
qed

text \<open>
  A data page given back with \<open>kfree\<close>, once no user entry of any tree points to it.
\<close>

definition unmapped_page :: "u64 set \<Rightarrow> memory \<Rightarrow> u64 \<Rightarrow> bool" where
  "unmapped_page roots m p \<longleftrightarrow>
     (\<forall>rt\<in>roots. \<forall>v<NPAGES. user_pte (pte_pg m rt v) \<longrightarrow> PTE2PA (pte_pg m rt v) \<noteq> p)"

lemma kfree_data:
  assumes inv: "vm_inv T s ps roots" and p: "T p = PData" and un: "unmapped_page roots (mem s) p"
  shows "\<exists>s'. kfree s p = Inr s' \<and> vm_inv (T(p := PFree)) s' (p # ps) roots \<and>
    same_off_page p (mem s) (mem s') \<and> pte_same roots (mem s) (mem s') \<and>
    kend s' = kend s \<and> kmem.more s' = kmem.more s \<and> kmem_lock s' = kmem_lock s \<and>
    settle (hart s') = settle (hart s)"
proof -
  have k: "kmem_inv s ps" and np: "p \<notin> set ps"
    using inv p unfolding vm_inv_def by (auto dest: spec [of _ p])
  have ram: "ram_page (kend s) p" and al: "pg_aligned p" and nt: "\<not> is_tab (T p)"
    using vm_inv_ram [OF inv, of p] vm_inv_aligned [OF inv, of p] p by simp_all
  obtain s' where s': "kfree s p = Inr s'" "kmem_inv s' (p # ps)" "same_off_page p (mem s) (mem s')"
    "kend s' = kend s" "kmem.more s' = kmem.more s" "kmem_lock s' = kmem_lock s" "settle (hart s') = settle (hart s)"
  proof (rule that [OF kfree_eq [OF k ram] kmem_inv_kfree [OF k ram np refl]])
    show "same_off_page p (mem s) (mem (s\<lparr>hart := settle (hart s), freelist := p,
        mem := st64 (memset (mem s) p 1 4096) p (freelist s)\<rparr>))"
      using same_off_page_trans [OF memset_same_off_page [OF al] st64_page_same_off_page [OF al]] by simp
  qed simp_all
  have e: "entry (mem s') t i = entry (mem s) t i" if "T t = PTab r l x" "i < 512" for t r l x i
    using data_write_entry [OF inv al nt s'(3) that] .
  have tabs: "tabs_typed T (mem s)" and leaves: "leaves_typed T (mem s)" and lk: "tabs_linked T (mem s) roots"
    using inv by (simp_all add: vm_inv_def)
  have "tabs_typed (T(p := PFree)) (mem s')"
    using tabs nt e by (intro tabs_typed_retype [of T "mem s"]) simp_all
  moreover have "tabs_linked (T(p := PFree)) (mem s') roots"
    using tabs_linked_retype [OF lk nt _ e] by simp
  moreover have "user_pte (entry (mem s) t i) \<Longrightarrow> PTE2PA (entry (mem s) t i) \<noteq> p"
    if "T t = PTab r 0 x" "i < 512" for t r x i
    using leaf_slot_page [OF inv that] un by (simp add: unmapped_page_def)
  then have "leaves_typed (T(p := PFree)) (mem s')"
    using leaves e unfolding leaves_typed_def user_pte_def by (auto split: if_splits) blast
  ultimately have "vm_inv (T(p := PFree)) s' (p # ps) roots"
    using p nt s' by (intro vm_inv_retype [OF inv]) auto
  then show ?thesis
    using s' data_write_pte [OF inv al nt s'(3)] by blast
qed

section \<open>Translation of user addresses\<close>

definition xlate :: "memory \<Rightarrow> u64 \<Rightarrow> u64 \<Rightarrow> u64 option" where
  "xlate m root va =
     (if va < MAXVA \<and> user_pte (pte_at m root va)
      then Some (PTE2PA (pte_at m root va) + (va - PGROUNDDOWN va)) else None)"

lemma page_no_off: "page_no (PTE2PA e + (va - PGROUNDDOWN va)) = page_no (PTE2PA e)"
proof -
  have "page_no (PTE2PA e + of_nat (unat (va - PGROUNDDOWN va))) = page_no (PTE2PA e)"
    using PTE2PA_aligned by (intro page_no_add) (simp_all add: unat_page_offset)
  then show ?thesis
    by simp
qed

lemma xlate_next:
  assumes "va < MAXVA" and "unat va mod 4096 < 4095"
  shows "va + 1 < MAXVA" and "PGROUNDDOWN (va + 1) = PGROUNDDOWN va" and "page_no (va + 1) = page_no va"
    and "unat (va + 1) = unat va + 1"
proof -
  show u: "unat (va + 1) = unat va + 1"
    using assms(1) by (simp add: unat_add_nowrap word_less_nat_alt)
  have "(unat va + 1) div 4096 = unat va div 4096"
    using assms(2) by (intro div_add_room) simp
  then show p: "page_no (va + 1) = page_no va"
    by (simp add: page_no_def u)
  have "unat va div 4096 < 2 ^ 26"
    using assms(1) by (simp add: word_less_nat_alt less_mult_imp_div_less)
  then show "va + 1 < MAXVA"
    using assms(1) u p by (simp add: word_less_nat_alt page_no_def)
  show "PGROUNDDOWN (va + 1) = PGROUNDDOWN va"
    by (rule u64_eqI) (simp add: unat_PGROUNDDOWN p)
qed

text \<open>Writing and reading user memory one byte at a time.\<close>

fun user_write :: "memory \<Rightarrow> u64 \<Rightarrow> u64 \<Rightarrow> u8 list \<Rightarrow> memory option" where
  "user_write m root va [] = Some m"
| "user_write m root va (b # bs) =
     (case xlate m root va of None \<Rightarrow> None | Some pa \<Rightarrow> user_write (m(pa := b)) root (va + 1) bs)"

fun user_read :: "memory \<Rightarrow> u64 \<Rightarrow> u64 \<Rightarrow> nat \<Rightarrow> u8 list option" where
  "user_read m root va 0 = Some []"
| "user_read m root va (Suc n) =
     (case xlate m root va of None \<Rightarrow> None
      | Some pa \<Rightarrow> map_option (\<lambda>bs. m pa # bs) (user_read m root (va + 1) n))"

lemma user_write_append:
  "user_write m root va (xs @ ys) =
     (case user_write m root va xs of None \<Rightarrow> None
      | Some m' \<Rightarrow> user_write m' root (va + of_nat (length xs)) ys)"
proof (induction xs arbitrary: m va)
  case (Cons b bs)
  then show ?case
    by (auto simp: add.assoc simp del: fun_upd_apply split: option.split)
qed simp

lemma user_read_add:
  "user_read m root va (i + j) =
     (case user_read m root va i of None \<Rightarrow> None
      | Some bs \<Rightarrow> map_option (\<lambda>cs. bs @ cs) (user_read m root (va + of_nat i) j))"
proof (induction i arbitrary: va)
  case (Suc i)
  then show ?case
    by (auto simp: add.assoc option.map_comp comp_def split: option.split intro!: option.map_cong)
qed (simp add: fun_eq_iff option.map_ident_strong)

lemma put_bytes_0 [simp]: "put_bytes m d src 0 = m"
  by (simp add: put_bytes_def)

lemma put_bytes_Suc: "put_bytes m d src (Suc n) = put_bytes (m(d := src 0)) (d + 1) (\<lambda>i. src (Suc i)) n"
proof -
  have "[0..<Suc n] = 0 # map Suc [0..<n]"
    by (simp add: map_Suc_upt upt_conv_Cons del: upt_Suc)
  then show ?thesis
    unfolding put_bytes_def by (simp add: fold_map comp_def add.assoc del: upt_Suc)
qed

lemma get_bytes_0 [simp]: "get_bytes m a 0 = []"
  by (simp add: get_bytes_def)

lemma get_bytes_Suc: "get_bytes m a (Suc n) = m a # get_bytes m (a + 1) n"
proof -
  have "[0..<Suc n] = 0 # map Suc [0..<n]"
    by (simp add: map_Suc_upt upt_conv_Cons del: upt_Suc)
  then show ?thesis
    unfolding get_bytes_def by (simp add: comp_def add.assoc del: upt_Suc)
qed

lemma map_upt_shift: "map src [0..<Suc n] = src 0 # map (\<lambda>i. src (Suc i)) [0..<n]"
  by (simp add: upt_conv_Cons map_Suc_upt [symmetric] comp_def del: upt_Suc)

section \<open>The copy routines\<close>

lemma user_write_page:
  assumes "vm_inv T s ps roots" and "root \<in> roots" and "va < MAXVA"
    and "user_pte (pte_at (mem s) root va)" and "unat va mod 4096 + n \<le> 4096"
  shows "\<exists>m'. user_write (mem s) root va (map src [0..<n]) = Some m' \<and>
     m' = put_bytes (mem s) (PTE2PA (pte_at (mem s) root va) + (va - PGROUNDDOWN va)) src n \<and>
     same_off_page (PTE2PA (pte_at (mem s) root va)) (mem s) m'"
  using assms
proof (induction n arbitrary: s va src)
  case 0
  then show ?case by simp
next
  case (Suc n)
  let ?p = "PTE2PA (pte_at (mem s) root va)"
  let ?a = "?p + (va - PGROUNDDOWN va)"
  let ?s1 = "s\<lparr>mem := (mem s)(?a := src 0)\<rparr>"
  have x: "xlate (mem s) root va = Some ?a"
    using Suc.prems by (simp add: xlate_def)
  have data: "T ?p = PData"
    using user_pte_data [OF Suc.prems(1,2,4)] .
  have so: "same_off_page ?p (mem s) (mem ?s1)"
    using page_no_off by (auto simp: same_off_page_def)
  have inv1: "vm_inv T ?s1 ps roots"
    using data_write_inv [OF Suc.prems(1) data so] by simp
  have same: "pte_at (mem ?s1) root va' = pte_at (mem s) root va'" if "va' < MAXVA" for va'
    using data_write_pte [OF Suc.prems(1) PTE2PA_aligned _ so] data Suc.prems(2) that
    by (simp add: pte_same_def)
  show ?case
  proof (cases n)
    case 0
    then show ?thesis
      using x so by (simp add: put_bytes_Suc del: fun_upd_apply)
  next
    case (Suc k)
    then have room: "unat va mod 4096 < 4095"
      using Suc.prems(5) by simp
    note nx = xlate_next [OF Suc.prems(3) room]
    have e: "pte_at (mem ?s1) root (va + 1) = pte_at (mem s) root va"
      using same [OF nx(1)] pte_at_page [OF nx(1) Suc.prems(3) nx(3)] by simp
    have a: "?p + (va + 1 - PGROUNDDOWN (va + 1)) = ?a + 1"
      unfolding nx(2) by simp
    have "unat (va + 1) mod 4096 + n \<le> 4096"
      using Suc.prems(5) room div_add_room(2) [of "unat va" 4096 1] unfolding nx(4) by simp
    then obtain m' where m': "user_write (mem ?s1) root (va + 1) (map (\<lambda>i. src (Suc i)) [0..<n]) = Some m'"
        "m' = put_bytes (mem ?s1) (?a + 1) (\<lambda>i. src (Suc i)) n" "same_off_page ?p (mem ?s1) m'"
      using Suc.IH [OF inv1 Suc.prems(2) nx(1)] Suc.prems(3,4) e a by metis
    then show ?thesis
      using x same_off_page_trans [OF so] by (simp add: map_upt_shift put_bytes_Suc del: upt_Suc fun_upd_apply)
  qed
qed

lemma put_bytes_add:
  "put_bytes m d src (i + j) = put_bytes (put_bytes m d src i) (d + of_nat i) (\<lambda>k. src (i + k)) j"
proof (induction i arbitrary: m d src)
  case (Suc i)
  show ?case
    using Suc.IH [of "m(d := src 0)" "d + 1" "\<lambda>k. src (Suc k)"]
    by (simp add: put_bytes_Suc add.assoc del: fun_upd_apply)
qed simp

lemma copyout_step:
  "len > 0 \<Longrightarrow> copyout s root dstva src len =
     bindr (walkaddr s root (PGROUNDDOWN dstva)) (\<lambda>pa0.
       if pa0 = 0 then Inr (s, -1)
       else copyout (s\<lparr>mem := put_bytes (mem s) (pa0 + (dstva - PGROUNDDOWN dstva)) src (unat (chunk dstva len))\<rparr>)
              root (PGROUNDDOWN dstva + 4096) (\<lambda>i. src (unat (chunk dstva len) + i)) (len - chunk dstva len))"
  by (subst copyout.simps) (auto simp: Let_def intro!: bindr_cong)

lemma walkaddr_page:
  assumes "vm_inv T s ps roots" and "root \<in> roots"
  shows "walkaddr s root (PGROUNDDOWN va) =
    Inr (case xlate (mem s) root va of None \<Rightarrow> 0 | Some a \<Rightarrow> PTE2PA (pte_at (mem s) root va))"
    and "xlate (mem s) root va = Some a \<Longrightarrow> PTE2PA (pte_at (mem s) root va) \<noteq> 0"
proof -
  have "PGROUNDDOWN va < MAXVA \<longleftrightarrow> va < MAXVA"
    by (simp add: word_less_nat_alt unat_PGROUNDDOWN page_no_def) linarith
  moreover have "va < MAXVA \<Longrightarrow> pte_at (mem s) root (PGROUNDDOWN va) = pte_at (mem s) root va"
    using calculation by (intro pte_at_page) simp_all
  ultimately show "walkaddr s root (PGROUNDDOWN va) =
    Inr (case xlate (mem s) root va of None \<Rightarrow> 0 | Some a \<Rightarrow> PTE2PA (pte_at (mem s) root va))"
    using walkaddr_eq [OF assms, of "PGROUNDDOWN va"] by (auto simp: xlate_def)
  assume "xlate (mem s) root va = Some a"
  then have "T (PTE2PA (pte_at (mem s) root va)) = PData"
    using user_pte_data [OF assms] by (simp add: xlate_def split: if_splits)
  then show "PTE2PA (pte_at (mem s) root va) \<noteq> 0"
    using vm_inv_nonzero [OF assms(1)] by simp
qed

lemma map_upt_split:
  "map src [0..<i + j] = map src [0..<i] @ map (\<lambda>k. src (i + k)) [0..<j]"
  by (rule nth_equalityI) (auto simp: nth_append)

lemma chunk_next:
  assumes "unat (chunk va len) < unat len"
  shows "va + of_nat (unat (chunk va len)) = PGROUNDDOWN va + 4096"
proof -
  have "chunk va len = 4096 - (va - PGROUNDDOWN va)"
    using assms by (auto simp: chunk_def Let_def split: if_splits)
  then show ?thesis
    by simp
qed

definition copyout_ok :: "(u64 \<Rightarrow> pkind) \<Rightarrow> 'a kmem_scheme \<Rightarrow> u64 list \<Rightarrow> u64 set \<Rightarrow> u64 \<Rightarrow> u64 \<Rightarrow> cstr \<Rightarrow> u64 \<Rightarrow> memory \<Rightarrow> bool" where
  "copyout_ok T s ps roots root dstva src len m' \<longleftrightarrow>
     vm_inv T (s\<lparr>mem := m'\<rparr>) ps roots \<and> pte_same roots (mem s) m' \<and>
     (case user_write (mem s) root dstva (map src [0..<unat len]) of
        None \<Rightarrow> copyout s root dstva src len = Inr (s\<lparr>mem := m'\<rparr>, -1)
      | Some m'' \<Rightarrow> m' = m'' \<and> copyout s root dstva src len = Inr (s\<lparr>mem := m'\<rparr>, 0))"

text \<open>One round of the loop: a chunk of the transfer, and the same bytes written one by one.\<close>

lemma copyout_chunk:
  assumes inv: "vm_inv T s ps roots" and root: "root \<in> roots" and len: "len > 0"
    and x: "xlate (mem s) root dstva = Some a"
  shows "\<exists>m1. vm_inv T (s\<lparr>mem := m1\<rparr>) ps roots \<and> pte_same roots (mem s) m1 \<and>
    copyout s root dstva src len = copyout (s\<lparr>mem := m1\<rparr>) root (PGROUNDDOWN dstva + 4096)
      (\<lambda>i. src (unat (chunk dstva len) + i)) (len - chunk dstva len) \<and>
    user_write (mem s) root dstva (map src [0..<unat len]) = user_write m1 root (PGROUNDDOWN dstva + 4096)
      (map (\<lambda>i. src (unat (chunk dstva len) + i)) [0..<unat (len - chunk dstva len)])"
proof -
  let ?p = "PTE2PA (pte_at (mem s) root dstva)" and ?n = "unat (chunk dstva len)"
  let ?m1 = "put_bytes (mem s) (?p + (dstva - PGROUNDDOWN dstva)) src ?n"
  let ?src = "\<lambda>i. src (?n + i)" and ?len = "len - chunk dstva len" and ?va = "PGROUNDDOWN dstva + 4096"
  have n: "0 < ?n" "?n \<le> unat len" "unat dstva mod 4096 + ?n \<le> 4096"
    using len by (simp_all add: unat_chunk word_less_nat_alt)
  have u: "dstva < MAXVA" "user_pte (pte_at (mem s) root dstva)"
    using x by (simp_all add: xlate_def split: if_splits)
  have w: "user_write (mem s) root dstva (map src [0..<?n]) = Some ?m1" and so: "same_off_page ?p (mem s) ?m1"
    using user_write_page [OF inv root u n(3), of src] by blast+
  have data: "T ?p = PData"
    using user_pte_data [OF inv root u(2)] .
  have inv1: "vm_inv T (s\<lparr>mem := ?m1\<rparr>) ps roots" and same1: "pte_same roots (mem s) ?m1"
    using data_write_inv [OF inv data so] data_write_pte [OF inv PTE2PA_aligned _ so] data by simp_all
  have ul: "unat ?len = unat len - ?n"
    using n by (intro unat_sub_nowrap)
  have "user_write (mem s) root dstva (map src [0..<unat len]) =
      user_write ?m1 root (dstva + of_nat ?n) (map ?src [0..<unat ?len])"
    using w n map_upt_split [of src ?n "unat ?len"] by (simp add: ul user_write_append)
  also have "\<dots> = user_write ?m1 root ?va (map ?src [0..<unat ?len])"
    using chunk_next [of dstva len] n by (cases "?n = unat len") (simp_all add: ul)
  finally have uw: "user_write (mem s) root dstva (map src [0..<unat len]) =
      user_write ?m1 root ?va (map ?src [0..<unat ?len])" .
  have "copyout s root dstva src len = copyout (s\<lparr>mem := ?m1\<rparr>) root ?va ?src ?len"
    using walkaddr_page [OF inv root, of dstva] x by (simp add: copyout_step [OF len])
  then show ?thesis
    using inv1 same1 uw by blast
qed

lemma copyout_spec:
  assumes "vm_inv T s ps roots" and "root \<in> roots"
  shows "\<exists>m'. copyout_ok T s ps roots root dstva src len m'"
  using assms(1)
proof (induction "unat len" arbitrary: s dstva src len rule: less_induct)
  case less
  show ?case
  proof (cases "len = 0")
    case True
    then have "copyout_ok T s ps roots root dstva src len (mem s)"
      using less.prems by (simp add: copyout_ok_def copyout.simps)
    then show ?thesis by blast
  next
    case False
    then have len: "len > 0"
      by (simp add: word_neq_0_conv)
    show ?thesis
    proof (cases "xlate (mem s) root dstva")
      case None
      have "map src [0..<unat len] = src 0 # map (\<lambda>i. src (Suc i)) [0..<unat len - 1]"
        using len map_upt_shift [of src "unat len - 1"] by (simp add: word_less_nat_alt)
      then have "copyout_ok T s ps roots root dstva src len (mem s)"
        using less.prems None walkaddr_page(1) [OF less.prems assms(2)]
        by (simp add: copyout_ok_def copyout_step [OF len])
      then show ?thesis by blast
    next
      case (Some a)
      from copyout_chunk [OF less.prems assms(2) len Some, of src] obtain m1 where
        m1: "vm_inv T (s\<lparr>mem := m1\<rparr>) ps roots" "pte_same roots (mem s) m1" and
        eqs: "copyout s root dstva src len = copyout (s\<lparr>mem := m1\<rparr>) root (PGROUNDDOWN dstva + 4096)
            (\<lambda>i. src (unat (chunk dstva len) + i)) (len - chunk dstva len)"
          "user_write (mem s) root dstva (map src [0..<unat len]) = user_write m1 root (PGROUNDDOWN dstva + 4096)
            (map (\<lambda>i. src (unat (chunk dstva len) + i)) [0..<unat (len - chunk dstva len)])"
        by blast
      from less.hyps [OF chunk_decreases [OF len, of dstva] m1(1)] obtain m' where
        "copyout_ok T (s\<lparr>mem := m1\<rparr>) ps roots root (PGROUNDDOWN dstva + 4096)
           (\<lambda>i. src (unat (chunk dstva len) + i)) (len - chunk dstva len) m'" by blast
      then have "copyout_ok T s ps roots root dstva src len m'"
        using pte_same_trans [OF m1(2)] unfolding copyout_ok_def eqs by (auto split: option.splits)
      then show ?thesis by blast
    qed
  qed
qed

text \<open>\<open>copyin\<close> is the byte-by-byte read; on an unmapped page it fails.\<close>

lemma user_read_page:
  assumes "va < MAXVA" and "user_pte (pte_at m root va)" and "unat va mod 4096 + n \<le> 4096"
  shows "user_read m root va n =
     Some (get_bytes m (PTE2PA (pte_at m root va) + (va - PGROUNDDOWN va)) n)"
  using assms
proof (induction n arbitrary: va)
  case (Suc n)
  let ?a = "PTE2PA (pte_at m root va) + (va - PGROUNDDOWN va)"
  have x: "xlate m root va = Some ?a"
    using Suc.prems by (simp add: xlate_def)
  show ?case
  proof (cases n)
    case 0
    then show ?thesis
      using x by (simp add: get_bytes_Suc)
  next
    case (Suc k)
    then have room: "unat va mod 4096 < 4095"
      using Suc.prems(3) by simp
    note nx = xlate_next [OF Suc.prems(1) room]
    have e: "pte_at m root (va + 1) = pte_at m root va"
      using pte_at_page [OF nx(1) Suc.prems(1) nx(3)] .
    have "unat (va + 1) mod 4096 + n \<le> 4096"
      using Suc.prems(3) room div_add_room(2) [of "unat va" 4096 1] unfolding nx(4) by simp
    then have "user_read m root (va + 1) n = Some (get_bytes m (?a + 1) n)"
      using Suc.IH [OF nx(1)] Suc.prems(2) unfolding e nx(2) by (simp add: algebra_simps)
    then show ?thesis
      using x by (simp add: get_bytes_Suc)
  qed
qed simp

lemma copyin_step:
  "len > 0 \<Longrightarrow> copyin s root va len =
     bindr (walkaddr s root (PGROUNDDOWN va)) (\<lambda>pa0.
       if pa0 = 0 then Inr (-1, [])
       else bindr (copyin s root (PGROUNDDOWN va + 4096) (len - chunk va len)) (\<lambda>(r, rest).
              Inr (r, get_bytes (mem s) (pa0 + (va - PGROUNDDOWN va)) (unat (chunk va len)) @ rest)))"
  by (subst copyin.simps) (auto simp: Let_def intro!: bindr_cong)

definition copyin_ok :: "'a kmem_scheme \<Rightarrow> u64 \<Rightarrow> u64 \<Rightarrow> u64 \<Rightarrow> bool" where
  "copyin_ok s root va len \<longleftrightarrow>
     (case user_read (mem s) root va (unat len) of
        None \<Rightarrow> (\<exists>bs. copyin s root va len = Inr (-1, bs))
      | Some bs \<Rightarrow> copyin s root va len = Inr (0, bs))"

lemma copyin_spec:
  assumes "vm_inv T s ps roots" and "root \<in> roots"
  shows "copyin_ok s root va len"
proof (induction "unat len" arbitrary: va len rule: less_induct)
  case less
  let ?n = "unat (chunk va len)" and ?va = "PGROUNDDOWN va + 4096" and ?len = "len - chunk va len"
  show ?case
  proof (cases "len = 0")
    case True
    then show ?thesis
      by (simp add: copyin_ok_def copyin.simps)
  next
    case False
    then have len: "len > 0"
      by (simp add: word_neq_0_conv)
    then have n: "?n \<le> unat len" "unat va mod 4096 + ?n \<le> 4096"
      by (simp_all add: unat_chunk word_less_nat_alt)
    have ul: "unat ?len = unat len - ?n"
      using n by (intro unat_sub_nowrap)
    show ?thesis
    proof (cases "xlate (mem s) root va")
      case None
      then have "user_read (mem s) root va (unat len) = None"
        using len by (cases "unat len") (simp_all add: word_less_nat_alt)
      then show ?thesis
        using None walkaddr_page(1) [OF assms] by (simp add: copyin_ok_def copyin_step [OF len])
    next
      case (Some a)
      then have r: "user_read (mem s) root va ?n =
          Some (get_bytes (mem s) (PTE2PA (pte_at (mem s) root va) + (va - PGROUNDDOWN va)) ?n)"
        using user_read_page [OF _ _ n(2)] by (simp add: xlate_def split: if_splits)
      have "user_read (mem s) root (va + of_nat ?n) (unat ?len) = user_read (mem s) root ?va (unat ?len)"
        using chunk_next [of va len] n by (cases "?n = unat len") (simp_all add: ul)
      then have "user_read (mem s) root va (unat len) =
          map_option (\<lambda>cs. get_bytes (mem s) (PTE2PA (pte_at (mem s) root va) + (va - PGROUNDDOWN va)) ?n @ cs)
            (user_read (mem s) root ?va (unat ?len))"
        using r n user_read_add [of "mem s" root va ?n "unat ?len"] by (simp add: ul)
      moreover have "copyin_ok s root ?va ?len"
        using less.hyps [OF chunk_decreases [OF len]] .
      ultimately show ?thesis
        using walkaddr_page [OF assms, of va] Some
        by (auto simp: copyin_ok_def copyin_step [OF len] split: option.splits)
    qed
  qed
qed

section \<open>What a user write changes and what reads it back\<close>

definition user_ok :: "memory \<Rightarrow> u64 \<Rightarrow> u64 \<Rightarrow> nat \<Rightarrow> bool" where
  "user_ok m root va n \<longleftrightarrow> (\<forall>i<n. xlate m root (va + of_nat i) \<noteq> None)"

lemma user_ok_Suc: "user_ok m root va (Suc n) \<longleftrightarrow> xlate m root va \<noteq> None \<and> user_ok m root (va + 1) n"
  unfolding user_ok_def by (auto simp: less_Suc_eq_0_disj add.assoc)

lemma xlate_same:
  "pte_same roots m m' \<Longrightarrow> root \<in> roots \<Longrightarrow> xlate m' root va = xlate m root va"
  by (auto simp: xlate_def pte_same_def)

text \<open>One byte written through a translation.\<close>

lemma user_write_byte:
  assumes inv: "vm_inv T s ps roots" and root: "root \<in> roots" and x: "xlate (mem s) root va = Some pa"
  shows "vm_inv T (s\<lparr>mem := (mem s)(pa := b)\<rparr>) ps roots" and "pte_same roots (mem s) ((mem s)(pa := b))"
proof -
  let ?p = "PTE2PA (pte_at (mem s) root va)"
  have u: "user_pte (pte_at (mem s) root va)" and pa: "pa = ?p + (va - PGROUNDDOWN va)"
    using x by (simp_all add: xlate_def split: if_splits)
  have data: "T ?p = PData"
    using user_pte_data [OF inv root u] .
  have so: "same_off_page ?p (mem s) ((mem s)(pa := b))"
    using page_no_off by (auto simp: same_off_page_def pa)
  show "vm_inv T (s\<lparr>mem := (mem s)(pa := b)\<rparr>) ps roots" "pte_same roots (mem s) ((mem s)(pa := b))"
    using data_write_inv [OF inv data so] data_write_pte [OF inv PTE2PA_aligned _ so] data by simp_all
qed

lemma user_write_Some:
  assumes "vm_inv T s ps roots" and "root \<in> roots" and "user_ok (mem s) root va (length bs)"
  shows "\<exists>m'. user_write (mem s) root va bs = Some m'"
  using assms(1,3)
proof (induction bs arbitrary: s va)
  case (Cons b bs)
  obtain pa where pa: "xlate (mem s) root va = Some pa"
    using Cons.prems(2) by (auto simp: user_ok_Suc)
  note w = user_write_byte [OF Cons.prems(1) assms(2) pa, of b]
  have "user_ok (mem s) root (va + 1) (length bs)"
    using Cons.prems(2) by (simp add: user_ok_Suc)
  then have "user_ok ((mem s)(pa := b)) root (va + 1) (length bs)"
    using xlate_same [OF w(2) assms(2)] by (simp add: user_ok_def)
  then show ?case
    using Cons.IH [OF w(1), of "va + 1"] pa by (simp del: fun_upd_apply)
qed simp

lemma xlate_offset: "xlate m root va = Some pa \<Longrightarrow> unat pa mod 4096 = unat va mod 4096"
proof -
  assume "xlate m root va = Some pa"
  then have "pa = PTE2PA (pte_at m root va) + of_nat (unat (va - PGROUNDDOWN va))"
    by (simp add: xlate_def split: if_splits)
  moreover have "unat (PTE2PA (pte_at m root va) + of_nat (unat (va - PGROUNDDOWN va))) =
      unat (PTE2PA (pte_at m root va)) + unat (va - PGROUNDDOWN va)"
    by (intro pg_aligned_add_unat) (simp_all add: unat_page_offset)
  moreover have "unat (PTE2PA (pte_at m root va)) mod 4096 = 0"
    using PTE2PA_aligned by (simp add: pg_aligned_def)
  ultimately show ?thesis
    using mod_add_left_eq [of "unat (PTE2PA (pte_at m root va))" 4096 "unat va mod 4096"]
    by (simp only: unat_page_offset add_0 mod_mod_trivial)
qed

lemma user_write_frame:
  assumes "vm_inv T s ps roots" and "root \<in> roots" and "user_write (mem s) root va bs = Some m'"
    and "\<And>i. i < length bs \<Longrightarrow> xlate (mem s) root (va + of_nat i) \<noteq> Some a"
  shows "m' a = mem s a"
  using assms(1,3,4)
proof (induction bs arbitrary: s va)
  case (Cons b bs)
  obtain pa where pa: "xlate (mem s) root va = Some pa"
    using Cons.prems(2) by (auto split: option.splits)
  note w = user_write_byte [OF Cons.prems(1) assms(2) pa, of b]
  have "xlate ((mem s)(pa := b)) root (va + 1 + of_nat i) \<noteq> Some a" if "i < length bs" for i
    using xlate_same [OF w(2) assms(2)] Cons.prems(3) [of "Suc i"] that by (simp add: add.assoc)
  then have "m' a = ((mem s)(pa := b)) a"
    using Cons.IH [OF w(1), of "va + 1"] Cons.prems(2) pa by (simp del: fun_upd_apply)
  then show ?case
    using Cons.prems(3) [of 0] pa by auto
qed simp

lemma mod_shift_neq: "0 < k \<Longrightarrow> k < n \<Longrightarrow> ((a::nat) + k) mod n \<noteq> a mod n"
proof
  assume k: "0 < k" "k < n" and "(a + k) mod n = a mod n"
  then have "n dvd (a + k) - a"
    using mod_eq_dvd_iff_nat [of a "a + k" n] by simp
  then show False
    using k by (auto dest: dvd_imp_le)
qed

lemma user_write_read:
  assumes "vm_inv T s ps roots" and "root \<in> roots" and "user_write (mem s) root va bs = Some m'"
    and "length bs \<le> 4096"
  shows "user_read m' root va (length bs) = Some bs \<and> pte_same roots (mem s) m' \<and> vm_inv T (s\<lparr>mem := m'\<rparr>) ps roots"
  using assms(1,3,4)
proof (induction bs arbitrary: s va)
  case (Cons b bs)
  obtain pa where pa: "xlate (mem s) root va = Some pa"
    using Cons.prems(2) by (auto split: option.splits)
  let ?s1 = "s\<lparr>mem := (mem s)(pa := b)\<rparr>"
  note w = user_write_byte [OF Cons.prems(1) assms(2) pa, of b]
  have rest: "user_write (mem ?s1) root (va + 1) bs = Some m'"
    using Cons.prems(2) pa by (simp del: fun_upd_apply)
  have IH: "user_read m' root (va + 1) (length bs) = Some bs" "pte_same roots (mem ?s1) m'" "vm_inv T (s\<lparr>mem := m'\<rparr>) ps roots"
    using Cons.IH [OF w(1) rest] Cons.prems(3) by (simp_all del: fun_upd_apply)
  have far: "xlate (mem ?s1) root (va + 1 + of_nat i) \<noteq> Some pa" if "i < length bs" for i
  proof
    assume x: "xlate (mem ?s1) root (va + 1 + of_nat i) = Some pa"
    then have lt: "va + 1 + of_nat i < MAXVA" "va < MAXVA"
      using pa by (simp_all add: xlate_def split: if_splits)
    have "unat (va + of_nat (Suc i)) = unat va + Suc i"
      using that Cons.prems(3) lt(2) by (intro unat_add_of_nat) (simp add: word_less_nat_alt)
    then have "unat (va + 1 + of_nat i) = unat va + Suc i"
      by (simp add: add.assoc)
    then have "(unat va + Suc i) mod 4096 = unat va mod 4096"
      using xlate_offset [OF x] xlate_offset [OF pa] by simp
    then show False
      using mod_shift_neq [of "Suc i" 4096 "unat va"] that Cons.prems(3) by simp
  qed
  have "m' pa = b"
    using user_write_frame [OF w(1) assms(2) rest, of pa] far by simp
  moreover have same: "pte_same roots (mem s) m'"
    using pte_same_trans [OF w(2)] IH(2) by simp
  ultimately show ?case
    using IH pa xlate_same [OF same assms(2)] by simp
qed auto

end
