(* ===== verification/Ringbuf.thy ===== *)
theory Ringbuf
  imports Usermem
begin

text \<open>
  \<^verbatim>\<open>kernel/ringbuf.c\<close> and \<^verbatim>\<open>kernel/ringbuf.h\<close>: the system call that gives a process
  a ring buffer of 16 physical pages mapped twice in a row, and below it one book page. A second
  process that opens the same name gets the same physical pages. The page table of the calling
  process (\<open>myproc()->pagetable\<close>) is the argument \<open>pagetable\<close>; \<open>myproc\<close> itself is a matched
  \<open>push_off\<close>/\<open>pop_off\<close> pair and leaves the hart as it was while the lock is held. The log
  messages under \<open>KLOG\<close> are not modelled.
\<close>

section \<open>State\<close>

definition MAX_RINGBUFS :: nat where [simp]: "MAX_RINGBUFS = 10"
definition RINGBUF_SIZE :: nat where [simp]: "RINGBUF_SIZE = 16"
definition RINGBUF_NAME_LEN :: nat where [simp]: "RINGBUF_NAME_LEN = 16"

record ringbuf =
  refcount :: int
  rb_name :: cstr
  buf :: "u64 list"
  book :: u64

record kstate = kmem +
  ringbufs :: "ringbuf list"
  ringbuf_lock :: spinlock

text \<open>The empty string literal.\<close>

definition empty_cstr :: cstr where
  "empty_cstr = (\<lambda>_. 0)"

definition RWXU :: u64 where
  "RWXU = PTE_R OR PTE_W OR PTE_X OR PTE_U"

section \<open>Finding room in the address space\<close>

text \<open>The loop of \<open>find_contiguous_pages\<close>; the result is the status and \<open>*base_va\<close>.\<close>

function fcp_loop :: "'a kmem_scheme \<Rightarrow> u64 \<Rightarrow> nat \<Rightarrow> u64 \<Rightarrow> u64 \<Rightarrow> nat \<Rightarrow> fault + int \<times> u64" where
  "fcp_loop s pagetable num va base_va count =
     (if va > KERNBASE then
        bindr (walkaddr s pagetable va) (\<lambda>pa.
          if pa = 0 then
            if count + 1 = num then Inr (0, base_va)
            else fcp_loop s pagetable num (va - PGSIZE) base_va (count + 1)
          else fcp_loop s pagetable num (va - PGSIZE) va 0)
      else Inr (-1, base_va))"
  by pat_completeness auto
termination
  by (relation "measure (\<lambda>(s, pt, num, va, base, count). unat va)")
    (simp_all add: word_less_nat_alt unat_sub_nowrap)

declare fcp_loop.simps [simp del]

definition find_contiguous_pages :: "'a kmem_scheme \<Rightarrow> u64 \<Rightarrow> nat \<Rightarrow> fault + int \<times> u64" where
  "find_contiguous_pages s pagetable num_contiguous_pages =
     (let base_va = PGROUNDUP (MAXVA - PGSIZE - PGSIZE - PGSIZE)
      in fcp_loop s pagetable num_contiguous_pages base_va base_va 0)"

section \<open>Mapping the pages\<close>

text \<open>
  Operations on a \<open>struct ringbuf *\<close> take the structure and return it updated; the caller
  stores it where the pointer points.
\<close>

definition mappage_to_book :: "'a kmem_scheme \<Rightarrow> u64 \<Rightarrow> ringbuf \<Rightarrow> u64 \<Rightarrow> fault + 'a kmem_scheme \<times> ringbuf \<times> int" where
  "mappage_to_book s pagetable rb va =
     (if refcount rb = 0 then
        bindr (kalloc s) (\<lambda>(s1, mm).
          if mm = 0 then
            bindr (uvmdealloc s1 pagetable va PGSIZE) (\<lambda>(s2, _). Inr (s2, rb, -1))
          else
            let s2 = s1\<lparr>mem := memset (mem s1) mm 0 (unat PGSIZE)\<rparr>
            in bindr (mappages s2 pagetable va PGSIZE mm RWXU) (\<lambda>(s3, r).
                 if r \<noteq> 0 then
                   bindr (kfree s3 mm) (\<lambda>s4.
                     bindr (uvmdealloc s4 pagetable va PGSIZE) (\<lambda>(s5, _). Inr (s5, rb, -1)))
                 else Inr (s3, rb\<lparr>book := mm\<rparr>, 0)))
      else
        bindr (mappages s pagetable va PGSIZE (book rb) RWXU) (\<lambda>(s1, r).
          if r \<noteq> 0 then
            bindr (kfree s1 (book rb)) (\<lambda>s2.
              bindr (uvmdealloc s2 pagetable va PGSIZE) (\<lambda>(s3, _). Inr (s3, rb, -1)))
          else Inr (s1, rb, 0)))"

text \<open>The tail shared by both loops of \<open>mappages_to_proc\<close>: map one page or clean up.\<close>

definition map_or_free :: "'a kmem_scheme \<Rightarrow> u64 \<Rightarrow> u64 \<Rightarrow> u64 \<Rightarrow> fault + 'a kmem_scheme \<times> int" where
  "map_or_free s pagetable va pa =
     bindr (mappages s pagetable va PGSIZE pa RWXU) (\<lambda>(s1, r).
       if r \<noteq> 0 then
         bindr (kfree s1 pa) (\<lambda>s2.
           bindr (uvmdealloc s2 pagetable va PGSIZE) (\<lambda>(s3, _). Inr (s3, -1)))
       else Inr (s1, 0))"

text \<open>\<open>k\<close> iterations of each loop, starting at index \<open>i\<close>.\<close>

fun map_new_loop :: "nat \<Rightarrow> nat \<Rightarrow> 'a kmem_scheme \<Rightarrow> u64 \<Rightarrow> ringbuf \<Rightarrow> u64 \<Rightarrow> fault + 'a kmem_scheme \<times> ringbuf \<times> int" where
  "map_new_loop 0 i s pagetable rb base_va = Inr (s, rb, 0)"
| "map_new_loop (Suc k) i s pagetable rb base_va =
     (let va = base_va - of_nat i * PGSIZE
      in if i < RINGBUF_SIZE then
           bindr (kalloc s) (\<lambda>(s1, mm).
             if mm = 0 then
               bindr (uvmdealloc s1 pagetable va PGSIZE) (\<lambda>(s2, _). Inr (s2, rb, -1))
             else
               let s2 = s1\<lparr>mem := memset (mem s1) mm 0 (unat PGSIZE)\<rparr>;
                   rb1 = rb\<lparr>buf := (buf rb)[i := mm]\<rparr>
               in bindr (map_or_free s2 pagetable va mm) (\<lambda>(s3, r).
                    if r \<noteq> 0 then Inr (s3, rb1, -1)
                    else map_new_loop k (Suc i) s3 pagetable rb1 base_va))
         else
           bindr (map_or_free s pagetable va (buf rb ! (i mod RINGBUF_SIZE))) (\<lambda>(s1, r).
             if r \<noteq> 0 then Inr (s1, rb, -1)
             else map_new_loop k (Suc i) s1 pagetable rb base_va))"

fun map_old_loop :: "nat \<Rightarrow> nat \<Rightarrow> 'a kmem_scheme \<Rightarrow> u64 \<Rightarrow> ringbuf \<Rightarrow> u64 \<Rightarrow> fault + 'a kmem_scheme \<times> int" where
  "map_old_loop 0 i s pagetable rb base_va = Inr (s, 0)"
| "map_old_loop (Suc k) i s pagetable rb base_va =
     (let va = base_va - of_nat i * PGSIZE
      in bindr (map_or_free s pagetable va (buf rb ! (i mod RINGBUF_SIZE))) (\<lambda>(s1, r).
           if r \<noteq> 0 then Inr (s1, -1)
           else map_old_loop k (Suc i) s1 pagetable rb base_va))"

definition mappages_to_proc :: "'a kmem_scheme \<Rightarrow> u64 \<Rightarrow> ringbuf \<Rightarrow> u64 \<Rightarrow> nat \<Rightarrow> fault + 'a kmem_scheme \<times> ringbuf \<times> int" where
  "mappages_to_proc s pagetable rb base_va num_pages =
     (if refcount rb < 0 then Inr (s, rb, -1)
      else if refcount rb = 0 then map_new_loop num_pages 0 s pagetable rb base_va
      else bindr (map_old_loop num_pages 0 s pagetable rb base_va) (\<lambda>(s1, r). Inr (s1, rb, r)))"

definition validate_pages :: "'a kmem_scheme \<Rightarrow> u64 \<Rightarrow> u64 \<Rightarrow> fault + int" where
  "validate_pages s pagetable va =
     bindr (walkaddr s pagetable va) (\<lambda>pa. Inr (if pa = 0 then -1 else 0))"

text \<open>The eight bytes of a \<open>uint64\<close> in memory.\<close>

definition u64_bytes :: "u64 \<Rightarrow> cstr" where
  "u64_bytes v = (\<lambda>i. ucast (drop_bit (8 * i) v))"

definition copyout_user_addr :: "'a kmem_scheme \<Rightarrow> u64 \<Rightarrow> u64 \<Rightarrow> u64 \<Rightarrow> fault + 'a kmem_scheme \<times> int" where
  "copyout_user_addr s pagetable base_va user_addr =
     bindr (copyout s pagetable user_addr (u64_bytes base_va) 8) (\<lambda>(s1, r).
       Inr (s1, if r < 0 then -1 else 0))"

section \<open>The table of ring buffers\<close>

definition get_ringbuf_index :: "'a kstate_scheme \<Rightarrow> nat" where
  "get_ringbuf_index s = length (filter (\<lambda>rb. strncmp (rb_name rb) empty_cstr RINGBUF_NAME_LEN \<noteq> 0) (ringbufs s))"

text \<open>The search loop that \<open>append_ringbuf\<close>, \<open>unmap_ringbuf\<close> and \<open>ringbuf\<close> repeat.\<close>

fun find_name :: "ringbuf list \<Rightarrow> cstr \<Rightarrow> nat option" where
  "find_name [] name = None"
| "find_name (rb # rbs) name =
     (if strncmp (rb_name rb) name RINGBUF_NAME_LEN = 0 then Some 0
      else map_option Suc (find_name rbs name))"

text \<open>\<open>get_ringbuf_by_name\<close> assigns only its own copy of the pointer, so its effect is the status.\<close>

definition get_ringbuf_by_name :: "'a kstate_scheme \<Rightarrow> cstr \<Rightarrow> int" where
  "get_ringbuf_by_name s name = (case find_name (ringbufs s) name of Some _ \<Rightarrow> 0 | None \<Rightarrow> -1)"

section \<open>Creating, appending, unmapping\<close>

text \<open>
  \<open>new_ringbuf\<close> is the uninitialised local variable of \<open>create_ringbuf\<close>: every field of it
  that is stored in the table has been assigned before.
\<close>

definition create_ringbuf :: "'a kstate_scheme \<Rightarrow> u64 \<Rightarrow> ringbuf \<Rightarrow> cstr \<Rightarrow> u64 \<Rightarrow> fault + 'a kstate_scheme \<times> int" where
  "create_ringbuf s pagetable new_ringbuf name addr =
     (let num_contiguous_pages = 1 + (2 * RINGBUF_SIZE) + 1;
          rb0 = new_ringbuf\<lparr>refcount := 0, rb_name := strncpy (rb_name new_ringbuf) name (int RINGBUF_NAME_LEN)\<rparr>
      in bindr (find_contiguous_pages s pagetable num_contiguous_pages) (\<lambda>(r, base0).
           if r \<noteq> 0 then Inr (s, -1)
           else let base_va = base0 - PGSIZE
           in bindr (mappages_to_proc s pagetable rb0 base_va (2 * RINGBUF_SIZE)) (\<lambda>(s1, rb1, r).
           if r \<noteq> 0 then Inr (s1, -1)
           else bindr (validate_pages s1 pagetable base_va) (\<lambda>r.
           if r \<noteq> 0 then Inr (s1, -1)
           else let book_va = base_va - of_nat (2 * RINGBUF_SIZE) * PGSIZE
           in bindr (mappage_to_book s1 pagetable rb1 book_va) (\<lambda>(s2, rb2, r).
           if r \<noteq> 0 then Inr (s2, -1)
           else bindr (validate_pages s2 pagetable book_va) (\<lambda>r.
           if r \<noteq> 0 then Inr (s2, -1)
           else bindr (copyout_user_addr s2 pagetable base_va addr) (\<lambda>(s3, r).
           if r \<noteq> 0 then Inr (s3, -1)
           else let ringbuf_index = get_ringbuf_index s3;
                    rb3 = rb2\<lparr>refcount := refcount rb2 + 1\<rparr>
                in if ringbuf_index < MAX_RINGBUFS
                   then Inr (s3\<lparr>ringbufs := (ringbufs s3)[ringbuf_index := rb3]\<rparr>, 0)
                   else Inl (Overrun ''ringbufs''))))))))"

definition append_ringbuf :: "'a kstate_scheme \<Rightarrow> u64 \<Rightarrow> cstr \<Rightarrow> u64 \<Rightarrow> fault + 'a kstate_scheme \<times> int" where
  "append_ringbuf s pagetable name addr =
     (let num_contiguous_pages = 1 + (2 * RINGBUF_SIZE) + 1
      in case find_name (ringbufs s) name of
           None \<Rightarrow> Inr (s, -1)
         | Some idx \<Rightarrow>
             bindr (find_contiguous_pages s pagetable num_contiguous_pages) (\<lambda>(r, base0).
             if r \<noteq> 0 then Inr (s, -1)
             else let base_va = base0 - PGSIZE - PGSIZE
             in bindr (mappages_to_proc s pagetable (ringbufs s ! idx) base_va (2 * RINGBUF_SIZE)) (\<lambda>(s1, rb1, r).
             let s2 = s1\<lparr>ringbufs := (ringbufs s1)[idx := rb1]\<rparr>
             in if r \<noteq> 0 then Inr (s2, -1)
             else let book_va = base_va - of_nat (2 * RINGBUF_SIZE) * PGSIZE
             in bindr (mappage_to_book s2 pagetable rb1 book_va) (\<lambda>(s3, rb2, r).
             let s4 = s3\<lparr>ringbufs := (ringbufs s3)[idx := rb2]\<rparr>
             in if r \<noteq> 0 then Inr (s4, -1)
             else bindr (copyout_user_addr s4 pagetable base_va addr) (\<lambda>(s5, r).
             if r \<noteq> 0 then Inr (s5, -1)
             else Inr (s5\<lparr>ringbufs := (ringbufs s5)[idx := rb2\<lparr>refcount := refcount rb2 + 1\<rparr>]\<rparr>, 0))))))"

fun kfree_all :: "'a kmem_scheme \<Rightarrow> u64 list \<Rightarrow> fault + 'a kmem_scheme" where
  "kfree_all s [] = Inr s"
| "kfree_all s (p # ps) = bindr (kfree s p) (\<lambda>s1. kfree_all s1 ps)"

definition unmap_ringbuf_pmem :: "'a kmem_scheme \<Rightarrow> ringbuf \<Rightarrow> fault + 'a kmem_scheme \<times> ringbuf" where
  "unmap_ringbuf_pmem s rb =
     (let rb1 = rb\<lparr>rb_name := strncpy (rb_name rb) empty_cstr (int RINGBUF_NAME_LEN)\<rparr>
      in bindr (kfree s (book rb1)) (\<lambda>s1.
           bindr (kfree_all s1 (map (\<lambda>i. buf rb1 ! i) [0..<RINGBUF_SIZE])) (\<lambda>s2. Inr (s2, rb1))))"

text \<open>
  A load through a kernel pointer: the kernel page table maps RAM one to one, and no page
  below \<open>KERNBASE\<close> that a user page table could yield.
\<close>

definition kload64 :: "'a kmem_scheme \<Rightarrow> u64 \<Rightarrow> fault + u64" where
  "kload64 s a = (if KERNBASE \<le> a \<and> a \<le> PHYSTOP - 8 then Inr (ld64 (mem s) a) else Inl (BadAccess a))"

definition unmap_ringbuf :: "'a kstate_scheme \<Rightarrow> u64 \<Rightarrow> cstr \<Rightarrow> u64 \<Rightarrow> fault + 'a kstate_scheme \<times> int" where
  "unmap_ringbuf s pagetable name addr =
     (case find_name (ringbufs s) name of
        None \<Rightarrow> Inr (s, -1)
      | Some idx \<Rightarrow>
          let rb = (ringbufs s ! idx)\<lparr>refcount := refcount (ringbufs s ! idx) - 1\<rparr>;
              s1 = s\<lparr>ringbufs := (ringbufs s)[idx := rb]\<rparr>
          in bindr (walkaddr s1 pagetable addr) (\<lambda>pa.
             bindr (kload64 s1 (pa + addr mod 4096)) (\<lambda>usr_buf_va0.
             bindr (validate_pages s1 pagetable usr_buf_va0) (\<lambda>r.
             if r \<noteq> 0 then Inr (s1, -1)
             else let usr_buf_va = usr_buf_va0 - of_nat (2 * RINGBUF_SIZE - 1) * PGSIZE
             in bindr (uvmunmap s1 pagetable usr_buf_va (of_nat (2 * RINGBUF_SIZE)) False) (\<lambda>s2.
             bindr (uvmunmap s2 pagetable (usr_buf_va - PGSIZE) 1 False) (\<lambda>s3.
             if refcount rb = 0 then
               bindr (unmap_ringbuf_pmem s3 rb) (\<lambda>(s4, rb1).
                 Inr (s4\<lparr>ringbufs := (ringbufs s4)[idx := rb1]\<rparr>, 0))
             else Inr (s3, 0)))))))"

text \<open>The system call proper. Every path that returns has released the lock.\<close>

definition ringbuf_release :: "'a kstate_scheme \<Rightarrow> int \<Rightarrow> fault + 'a kstate_scheme \<times> int" where
  "ringbuf_release s r =
     bindr (release (ringbuf_lock s) (hart s)) (\<lambda>(lk, c). Inr (s\<lparr>ringbuf_lock := lk, hart := c\<rparr>, r))"

definition ringbuf_call :: "'a kstate_scheme \<Rightarrow> u64 \<Rightarrow> ringbuf \<Rightarrow> cstr \<Rightarrow> int \<Rightarrow> u64 \<Rightarrow> fault + 'a kstate_scheme \<times> int" where
  "ringbuf_call s pagetable junk name opn addr =
     bindr (acquire (ringbuf_lock s) (hart s)) (\<lambda>(lk, c).
       let s1 = s\<lparr>ringbuf_lock := lk, hart := c\<rparr>
       in if get_ringbuf_index s1 \<ge> MAX_RINGBUFS then ringbuf_release s1 (-1)
          else case strlen name of None \<Rightarrow> Inl (BadAccess 0) | Some name_len \<Rightarrow>
            if name_len > RINGBUF_NAME_LEN then ringbuf_release s1 (-1)
            else let ringbuf_exists = (find_name (ringbufs s1) name \<noteq> None)
            in if opn \<noteq> 0 then
                 if \<not> ringbuf_exists then
                   bindr (create_ringbuf s1 pagetable junk name addr) (\<lambda>(s2, r).
                     ringbuf_release s2 (if r \<noteq> 0 then -1 else 0))
                 else
                   bindr (append_ringbuf s1 pagetable name addr) (\<lambda>(s2, r).
                     ringbuf_release s2 (if r \<noteq> 0 then -1 else 0))
               else
                 bindr (unmap_ringbuf s1 pagetable name addr) (\<lambda>(s2, r).
                   ringbuf_release s2 (if r \<noteq> 0 then -1 else 0)))"

end
