(* ===== verification/Kframe.thy ===== *)
theory Kframe
  imports Ringbuf
begin

text \<open>
  What the memory routines leave alone on every path that returns, errors included and whatever
  the state they start from: the rest of the kernel's state, and the hart up to the saved
  interrupt flag. The ring-buffer call therefore always releases its lock.
\<close>

section \<open>Framed computations\<close>

text \<open>
  A frame is a preorder on states; a computation is framed when the state it returns (selected
  by \<open>sel\<close>) is related to the one it started from. Framing goes through sequencing.
\<close>

locale frame =
  fixes R :: "'s \<Rightarrow> 's \<Rightarrow> bool"
  assumes frame_refl: "R s s"
    and frame_trans: "R s s' \<Longrightarrow> R s' s'' \<Longrightarrow> R s s''"
begin

definition framed :: "('b \<Rightarrow> 's) \<Rightarrow> 's \<Rightarrow> fault + 'b \<Rightarrow> bool" where
  "framed sel s r \<longleftrightarrow> (\<forall>b. r = Inr b \<longrightarrow> R s (sel b))"

lemma framed_Inl: "framed sel s (Inl e)"
  by (simp add: framed_def)

lemma framed_Inr: "R s (sel b) \<Longrightarrow> framed sel s (Inr b)"
  by (simp add: framed_def)

lemma framed_bind:
  "framed f s r \<Longrightarrow> (\<And>b. r = Inr b \<Longrightarrow> framed sel (f b) (k b)) \<Longrightarrow> framed sel s (bindr r k)"
  by (cases r) (auto simp: framed_def intro: frame_trans)

lemma framed_read: "(\<And>b. r = Inr b \<Longrightarrow> framed sel s (k b)) \<Longrightarrow> framed sel s (bindr r k)"
  by (cases r) (auto simp: framed_def)

lemma framed_step: "R s s' \<Longrightarrow> framed sel s' r \<Longrightarrow> framed sel s r"
  by (auto simp: framed_def intro: frame_trans)

lemma framed_if: "(c \<Longrightarrow> framed sel s a) \<Longrightarrow> (\<not> c \<Longrightarrow> framed sel s b) \<Longrightarrow> framed sel s (if c then a else b)"
  by simp

lemma framedD: "framed sel s r \<Longrightarrow> r = Inr b \<Longrightarrow> R s (sel b)"
  by (simp add: framed_def)

end

section \<open>The frame of the memory routines\<close>

definition calm :: "'a kmem_scheme \<Rightarrow> 'a kmem_scheme \<Rightarrow> bool" where
  "calm s s' \<longleftrightarrow> (cpu_ok (hart s) \<longrightarrow>
     kmem.more s' = kmem.more s \<and> settle (hart s') = settle (hart s) \<and> kend s' = kend s)"

lemma calm_mem [simp]: "calm (s\<lparr>mem := m\<rparr>) s' = calm s s'" "calm s (s'\<lparr>mem := m\<rparr>) = calm s s'"
  by (simp_all add: calm_def)

lemma calm_same: "calm s s"
  by (simp add: calm_def)

interpretation calm: frame calm
proof
  show "calm s s''" if "calm s s'" "calm s' s''" for s s' s'' :: "'a kmem_scheme"
  proof -
    have "cpu_ok (hart s')" if "cpu_ok (hart s)"
      using \<open>calm s s'\<close> that unfolding calm_def by (metis settle_simps(5))
    then show ?thesis using that by (simp add: calm_def)
  qed
qed (rule calm_same)

text \<open>A matched acquire and release of a lock, with anything in between.\<close>

lemma acquire_InrD: "acquire lk c = Inr (lk', c') \<Longrightarrow> c' = push_off c \<and> locked lk = 0 \<and>
    lk' = lk\<lparr>locked := 1, lk_cpu := Some (hartid c)\<rparr>"
  by (auto simp: acquire_def Let_def push_off_def intr_off_def intr_get_def split: if_splits)

lemma release_InrD:
  assumes "release lk (push_off c) = Inr (lk', c')" and "cpu_ok c"
  shows "c' = settle c \<and> lk' = lk\<lparr>lk_cpu := None, locked := 0\<rparr>"
  using assms push_pop_off [OF assms(2)] by (auto simp: release_def Let_def fault_simps split: if_splits)

lemma kalloc_calm: "calm.framed fst s (kalloc s)"
  unfolding kalloc_def calm.framed_def calm_def
  by (auto simp: fault_simps Let_def dest!: acquire_InrD release_InrD split: if_splits)

lemma kfree_calm: "calm.framed (\<lambda>s. s) s (kfree s pa)"
  unfolding kfree_def calm.framed_def calm_def
  by (auto simp: fault_simps Let_def dest!: acquire_InrD release_InrD split: if_splits)

lemma calm_write [simp]: "calm.framed sel (s\<lparr>mem := m\<rparr>) r = calm.framed sel s r"
  by (simp add: calm.framed_def)

lemmas calm_rules = calm.framed_Inl calm.framed_Inr calm.framed_if calm_same

lemma walk_loop_calm: "calm.framed fst s (walk_loop l s pt va al)"
proof (induction l arbitrary: s pt al)
  case (Suc l)
  show ?case
    using Suc.IH [of "s\<lparr>mem := m\<rparr>" for s m]
    by (auto simp: Let_def intro!: calm_rules calm.framed_bind [OF kalloc_calm] Suc.IH)
qed (simp add: calm_rules)

lemma walk_calm: "calm.framed fst s (walk s pt va al)"
  by (simp add: walk_def walk_loop_calm calm_rules)

lemma mappages_loop_calm: "calm.framed fst s (mappages_loop s pt a l pa perm)"
proof (induction s pt a l pa perm rule: mappages_loop.induct)
  case (1 s pt a l pa perm)
  show ?case
    by (subst mappages_loop.simps)
      (use 1 in \<open>auto simp: Let_def intro!: calm_rules calm.framed_bind [OF walk_calm]\<close>)
qed

lemma mappages_calm: "calm.framed fst s (mappages s pt va sz pa perm)"
  by (simp add: mappages_def mappages_loop_calm calm_rules)

lemma uvmunmap_loop_calm: "calm.framed (\<lambda>s. s) s (uvmunmap_loop s pt a stop f)"
proof (induction s pt a stop f rule: uvmunmap_loop.induct)
  case (1 s pt a stop f)
  show ?case
    by (subst uvmunmap_loop.simps)
      (use 1 in \<open>auto intro!: calm_rules calm.framed_bind [OF walk_calm] calm.framed_bind [OF kfree_calm]\<close>)
qed

lemma uvmunmap_calm: "calm.framed (\<lambda>s. s) s (uvmunmap s pt va n f)"
  by (simp add: uvmunmap_def uvmunmap_loop_calm calm_rules)

lemma uvmdealloc_calm: "calm.framed fst s (uvmdealloc s pt oldsz newsz)"
  unfolding uvmdealloc_def Let_def
  by (auto intro!: calm_rules calm.framed_bind [OF uvmunmap_calm])

lemma copyout_calm: "calm.framed fst s (copyout s pt dst src n)"
proof (induction s pt dst src n rule: copyout.induct)
  case (1 s pt dst src n)
  show ?case
    by (subst copyout.simps) (use 1 in \<open>auto simp: Let_def intro!: calm_rules calm.framed_read\<close>)
qed

lemmas calm_ops = calm.framed_bind [OF kalloc_calm] calm.framed_bind [OF kfree_calm]
  calm.framed_bind [OF mappages_calm] calm.framed_bind [OF uvmdealloc_calm]

lemma map_or_free_calm: "calm.framed fst s (map_or_free s pt va pa)"
  unfolding map_or_free_def by (auto intro!: calm_rules calm_ops)

lemma map_new_loop_calm: "calm.framed fst s (map_new_loop k i s pt rb base_va)"
proof (induction k arbitrary: i s rb)
  case (Suc k)
  show ?case
    using map_or_free_calm [of "s\<lparr>mem := m\<rparr>" for s m]
    by (auto simp: Let_def intro!: calm_rules calm_ops Suc.IH calm.framed_bind [where f = fst, OF map_or_free_calm]
        calm.framed_bind [where f = fst, OF map_or_free_calm [of "s\<lparr>mem := m\<rparr>" for s m, simplified]])
qed (simp add: calm_rules)

lemma map_old_loop_calm: "calm.framed fst s (map_old_loop k i s pt rb base_va)"
  by (induction k arbitrary: i s)
    (auto simp: Let_def intro!: calm_rules calm.framed_bind [OF map_or_free_calm])

lemma mappages_to_proc_calm: "calm.framed fst s (mappages_to_proc s pt rb base_va n)"
  unfolding mappages_to_proc_def
  by (auto intro!: calm_rules map_new_loop_calm calm.framed_bind [OF map_old_loop_calm])

lemma mappage_to_book_calm: "calm.framed fst s (mappage_to_book s pt rb va)"
  unfolding mappage_to_book_def Let_def
  by (auto intro!: calm_rules calm_ops calm.framed_bind [OF mappages_calm [of "s\<lparr>mem := m\<rparr>" for s m, simplified]])

section \<open>The frame of the ring-buffer operations\<close>

text \<open>The operations of \<^verbatim>\<open>ringbuf.c\<close> also write the table, but neither its length nor the lock.\<close>

definition rcalm :: "'a kstate_scheme \<Rightarrow> 'a kstate_scheme \<Rightarrow> bool" where
  "rcalm s s' \<longleftrightarrow> (cpu_ok (hart s) \<longrightarrow>
     ringbuf_lock s' = ringbuf_lock s \<and> length (ringbufs s') = length (ringbufs s) \<and>
     kstate.more s' = kstate.more s \<and> settle (hart s') = settle (hart s) \<and> kend s' = kend s)"

lemma rcalm_same: "rcalm s s"
  by (simp add: rcalm_def)

interpretation rcalm: frame rcalm
proof
  show "rcalm s s''" if "rcalm s s'" "rcalm s' s''" for s s' s'' :: "'a kstate_scheme"
  proof -
    have "cpu_ok (hart s')" if "cpu_ok (hart s)"
      using \<open>rcalm s s'\<close> that unfolding rcalm_def by (metis settle_simps(5))
    then show ?thesis using that by (simp add: rcalm_def)
  qed
qed (rule rcalm_same)

lemma calm_rcalm: "calm s s' \<Longrightarrow> rcalm s s'" for s :: "'a kstate_scheme"
  by (cases s; cases s') (simp add: calm_def rcalm_def)

lemma rcalm_framed: "calm.framed f s r \<Longrightarrow> rcalm.framed f s r" for s :: "'a kstate_scheme"
  by (simp add: calm.framed_def rcalm.framed_def calm_rcalm)

lemma rcalm_set [simp]: "rcalm.framed sel (s\<lparr>ringbufs := (ringbufs s)[i := rb]\<rparr>) r = rcalm.framed sel s r"
  by (simp add: rcalm.framed_def rcalm_def)

lemma rcalm_upd: "rcalm s (s\<lparr>ringbufs := (ringbufs s)[i := rb]\<rparr>)"
  by (simp add: rcalm_def)

lemma copyout_user_addr_calm: "calm.framed fst s (copyout_user_addr s pt base_va addr)"
  unfolding copyout_user_addr_def by (auto intro!: calm_rules calm.framed_bind [OF copyout_calm])

lemma kfree_all_calm: "calm.framed (\<lambda>s. s) s (kfree_all s ps)"
  by (induction ps arbitrary: s) (auto intro!: calm_rules calm.framed_bind [OF kfree_calm])

lemma unmap_ringbuf_pmem_calm: "calm.framed fst s (unmap_ringbuf_pmem s rb)"
  unfolding unmap_ringbuf_pmem_def Let_def
  by (auto simp del: upt.simps
      intro!: calm_rules calm.framed_bind [OF kfree_calm] calm.framed_bind [OF kfree_all_calm])

lemmas rcalm_ops = rcalm.framed_Inl rcalm.framed_Inr rcalm.framed_if rcalm_same rcalm_upd
  mappages_to_proc_calm [THEN rcalm_framed, THEN rcalm.framed_bind]
  mappage_to_book_calm [THEN rcalm_framed, THEN rcalm.framed_bind]
  copyout_user_addr_calm [THEN rcalm_framed, THEN rcalm.framed_bind]
  uvmunmap_calm [THEN rcalm_framed, THEN rcalm.framed_bind]
  unmap_ringbuf_pmem_calm [THEN rcalm_framed, THEN rcalm.framed_bind]

lemmas rcalm_sets =
  mappage_to_book_calm [of "s\<lparr>ringbufs := (ringbufs s)[i := rb]\<rparr>" for s i rb, THEN rcalm_framed, unfolded rcalm_set,
    THEN rcalm.framed_bind]
  copyout_user_addr_calm [of "s\<lparr>ringbufs := (ringbufs s)[i := rb]\<rparr>" for s i rb, THEN rcalm_framed, unfolded rcalm_set,
    THEN rcalm.framed_bind]
  uvmunmap_calm [of "s\<lparr>ringbufs := (ringbufs s)[i := rb]\<rparr>" for s i rb, THEN rcalm_framed, unfolded rcalm_set,
    THEN rcalm.framed_bind]

lemmas rcalm_reads = rcalm.framed_read [where r = "find_contiguous_pages s pt n" for s pt n]
  rcalm.framed_read [where r = "validate_pages s pt va" for s pt va]
  rcalm.framed_read [where r = "walkaddr s pt va" for s pt va] rcalm.framed_read [where r = "kload64 s a" for s a]

lemma create_ringbuf_calm: "rcalm.framed fst s (create_ringbuf s pt junk name addr)"
  unfolding create_ringbuf_def Let_def by (auto intro!: rcalm_ops rcalm_reads)

lemma append_ringbuf_calm: "rcalm.framed fst s (append_ringbuf s pt name addr)"
  unfolding append_ringbuf_def Let_def
  by (auto split: option.split intro!: rcalm_ops rcalm_sets rcalm_reads)

lemma unmap_ringbuf_calm: "rcalm.framed fst s (unmap_ringbuf s pt name addr)"
  unfolding unmap_ringbuf_def Let_def
  by (auto split: option.split intro!: rcalm_ops rcalm_sets rcalm_reads)

section \<open>The system call\<close>

lemma ringbuf_release_InrD:
  assumes "ringbuf_release s' r = Inr (s'', r')" and "rcalm (s\<lparr>ringbuf_lock := lk, hart := push_off (hart s)\<rparr>) s'"
    and "cpu_ok (hart s)"
  shows "r' = r \<and> hart s'' = settle (hart s) \<and> ringbuf_lock s'' = lk\<lparr>lk_cpu := None, locked := 0\<rparr> \<and>
    length (ringbufs s'') = length (ringbufs s)"
proof -
  let ?c = "push_off (hart s)"
  have ok: "cpu_ok ?c" using assms(3) by (rule push_off_ok)
  have fr: "ringbuf_lock s' = lk" "length (ringbufs s') = length (ringbufs s)" "settle (hart s') = settle ?c"
    using assms(2) ok by (simp_all add: rcalm_def)
  have "hart s' = ?c"
    using settle_held [OF assms(3)] fr(3) by simp
  then show ?thesis
    using assms(1,3) fr by (auto simp: ringbuf_release_def fault_simps dest!: release_InrD)
qed

text \<open>How the body of the call ends: on every path by releasing the lock of a framed state.\<close>

definition ends_released :: "'a kstate_scheme \<Rightarrow> fault + 'a kstate_scheme \<times> int \<Rightarrow> bool" where
  "ends_released s q \<longleftrightarrow> (\<forall>s' r. q = Inr (s', r) \<longrightarrow>
     (\<exists>s2. (r = 0 \<or> r = -1) \<and> rcalm s s2 \<and> ringbuf_release s2 r = Inr (s', r)))"

lemma ends_release: "rcalm s s2 \<Longrightarrow> r = 0 \<or> r = -1 \<Longrightarrow> ends_released s (ringbuf_release s2 r)"
  unfolding ends_released_def by (auto simp: ringbuf_release_def fault_simps)

lemma ends_bind: "rcalm.framed fst s q \<Longrightarrow>
    ends_released s (bindr q (\<lambda>(s2, r). ringbuf_release s2 (if r \<noteq> 0 then -1 else 0)))"
  using ends_release [of s]
  by (cases q) (auto simp: rcalm.framed_def, simp_all add: ends_released_def)

text \<open>
  C10 (safety). Whatever the state, the name, the operation and the address: when the ring-buffer
  call returns, it returns 0 or -1, with the lock released, interrupts as they were, and the
  table still of the same length. The lock must have been free.
\<close>

theorem ringbuf_call_releases:
  assumes "ringbuf_call s pagetable junk name opn addr = Inr (s', r)" and "cpu_ok (hart s)"
  shows "(r = 0 \<or> r = -1) \<and> locked (ringbuf_lock s) = 0 \<and>
    ringbuf_lock s' = (ringbuf_lock s)\<lparr>lk_cpu := None, locked := 0\<rparr> \<and> hart s' = settle (hart s) \<and>
    length (ringbufs s') = length (ringbufs s)"
proof -
  obtain lk where a: "acquire (ringbuf_lock s) (hart s) = Inr (lk, push_off (hart s))" and
      lk: "lk = (ringbuf_lock s)\<lparr>locked := 1, lk_cpu := Some (hartid (hart s))\<rparr>" "locked (ringbuf_lock s) = 0"
  proof (cases "acquire (ringbuf_lock s) (hart s)")
    case (Inr x)
    then show ?thesis
      using acquire_InrD [of "ringbuf_lock s" "hart s" "fst x" "snd x"] that by (cases x) auto
  qed (use assms(1) in \<open>simp add: ringbuf_call_def\<close>)
  let ?s1 = "s\<lparr>ringbuf_lock := lk, hart := push_off (hart s)\<rparr>"
  have "ends_released ?s1 (ringbuf_call s pagetable junk name opn addr)"
    using a by (simp add: ringbuf_call_def Let_def ends_release ends_bind rcalm_same create_ringbuf_calm
        append_ringbuf_calm unmap_ringbuf_calm ends_released_def [of ?s1 "Inl e" for e] split: option.split)
  then obtain s2 where "r = 0 \<or> r = -1" "rcalm ?s1 s2" "ringbuf_release s2 r = Inr (s', r)"
    using assms(1) unfolding ends_released_def by blast
  then show ?thesis
    using ringbuf_release_InrD [of s2 r s' r s lk] assms(2) lk by auto
qed

definition idle_k :: kstate where
  "idle_k = \<lparr>mem = (\<lambda>_. 0), kend = 0x80030000, freelist = 0, kmem_lock = \<lparr>locked = 0, lk_name = ''kmem'', lk_cpu = None\<rparr>,
     hart = \<lparr>hartid = 0, noff = 0, intena = 0, sie = True\<rparr>, ringbufs = [],
     ringbuf_lock = \<lparr>locked = 0, lk_name = ''ringbuf'', lk_cpu = None\<rparr>\<rparr>"

theorem ringbuf_call_releases_witness:
  "\<exists>s' r junk. ringbuf_call idle_k 0 junk empty_cstr 0 0 = Inr (s', r) \<and> r = -1 \<and>
    ringbuf_lock s' = ringbuf_lock idle_k \<and> sie (hart s')"
proof -
  have "strlen empty_cstr = Some 0"
    unfolding strlen_def by (rule strlen_from_Some) (simp_all add: empty_cstr_def)
  then obtain s' r junk where c: "ringbuf_call idle_k 0 junk empty_cstr 0 0 = Inr (s', r)" "r = -1"
    by (simp add: ringbuf_call_def idle_k_def get_ringbuf_index_def unmap_ringbuf_def ringbuf_release_def spin_defs)
  moreover have "cpu_ok (hart idle_k)"
    by (simp add: idle_k_def cpu_ok_def)
  ultimately show ?thesis
    using ringbuf_call_releases [OF c(1)] by (auto simp: idle_k_def)
qed

end
