(* ===== verification/Proc.thy ===== *)
theory Proc
  imports Ringbuf
begin

text \<open>
  \<^verbatim>\<open>kernel/proc.c\<close>, the part that does not need the file system: the process table, process ids,
  address spaces, sleeping and waking, the scheduler's steps, killing. A \<open>struct proc *\<close> is an
  index of the table. A context switch is the point where \<open>sched\<close> ends: what the kernel does
  before it and after it are separate definitions (\<open>sleep_enter\<close>, \<open>sleep_return\<close>).
\<close>

section \<open>Processes\<close>

definition NPROC :: nat where [simp]: "NPROC = 64"
definition NOFILE :: nat where [simp]: "NOFILE = 16"

datatype procstate = UNUSED | USED | SLEEPING | RUNNABLE | RUNNING | ZOMBIE

text \<open>The kernel objects whose addresses serve as sleep channels.\<close>

datatype wchan = WNone | WProc nat | WTicks | WLog | WLock nat | WBuf nat | WRead nat | WWrite nat | WDisk | WCons | WUart

record pcontext =
  ctx_ra :: u64
  ctx_sp :: u64
  ctx_s :: "u64 list"

record proc =
  p_lock :: spinlock
  state :: procstate
  chan :: wchan
  p_killed :: int
  xstate :: int
  pid :: int
  parent :: "nat option"
  kstack :: u64
  sz :: u64
  pagetable :: u64
  trapframe :: u64
  p_context :: pcontext
  ofile :: "nat option list"
  cwd :: "nat option"
  p_name :: cstr

text \<open>\<open>curproc\<close> is \<open>mycpu()->proc\<close>.\<close>

record pstate = kstate +
  procs :: "proc list"
  initproc :: "nat option"
  nextpid :: int
  pid_lock :: spinlock
  wait_lock :: spinlock
  curproc :: "nat option"

definition upd_proc :: "'a pstate_scheme \<Rightarrow> nat \<Rightarrow> (proc \<Rightarrow> proc) \<Rightarrow> 'a pstate_scheme" where
  "upd_proc s i f = s\<lparr>procs := (procs s)[i := f (procs s ! i)]\<rparr>"

definition acquire_proc :: "'a pstate_scheme \<Rightarrow> nat \<Rightarrow> fault + 'a pstate_scheme" where
  "acquire_proc s i =
     bindr (acquire (p_lock (procs s ! i)) (hart s)) (\<lambda>(lk, c).
       Inr (upd_proc (s\<lparr>hart := c\<rparr>) i (\<lambda>p. p\<lparr>p_lock := lk\<rparr>)))"

definition release_proc :: "'a pstate_scheme \<Rightarrow> nat \<Rightarrow> fault + 'a pstate_scheme" where
  "release_proc s i =
     bindr (release (p_lock (procs s ! i)) (hart s)) (\<lambda>(lk, c).
       Inr (upd_proc (s\<lparr>hart := c\<rparr>) i (\<lambda>p. p\<lparr>p_lock := lk\<rparr>)))"

section \<open>Initialisation\<close>

fun proc_mapstacks_loop :: "nat \<Rightarrow> nat \<Rightarrow> 'a kmem_scheme \<Rightarrow> u64 \<Rightarrow> fault + 'a kmem_scheme" where
  "proc_mapstacks_loop 0 i s kpgtbl = Inr s"
| "proc_mapstacks_loop (Suc k) i s kpgtbl =
     bindr (kalloc s) (\<lambda>(s1, pa).
       if pa = 0 then Inl (Panic ''kalloc'')
       else bindr (kvmmap s1 kpgtbl (KSTACK (of_nat i)) pa PGSIZE (PTE_R OR PTE_W)) (\<lambda>s2.
              proc_mapstacks_loop k (Suc i) s2 kpgtbl))"

definition proc_mapstacks :: "'a kmem_scheme \<Rightarrow> u64 \<Rightarrow> fault + 'a kmem_scheme" where
  "proc_mapstacks s kpgtbl = proc_mapstacks_loop NPROC 0 s kpgtbl"

definition procinit :: "'a pstate_scheme \<Rightarrow> 'a pstate_scheme" where
  "procinit s = s\<lparr>pid_lock := initlock (pid_lock s) ''nextpid'', wait_lock := initlock (wait_lock s) ''wait_lock'',
     procs := map (\<lambda>i. (procs s ! i)\<lparr>p_lock := initlock (p_lock (procs s ! i)) ''proc'', state := UNUSED,
                         kstack := KSTACK (of_nat i)\<rparr>) [0..<NPROC]\<rparr>"

definition cpuid :: "'a pstate_scheme \<Rightarrow> nat" where
  "cpuid s = hartid (hart s)"

definition mycpu :: "'a pstate_scheme \<Rightarrow> cpu" where
  "mycpu s = hart s"

definition myproc :: "'a pstate_scheme \<Rightarrow> fault + 'a pstate_scheme \<times> nat option" where
  "myproc s = (let s1 = s\<lparr>hart := push_off (hart s)\<rparr>; p = curproc s1
     in bindr (pop_off (hart s1)) (\<lambda>c. Inr (s1\<lparr>hart := c\<rparr>, p)))"

text \<open>\<open>myproc()\<close> where the code dereferences the result.\<close>

definition with_myproc :: "'a pstate_scheme \<Rightarrow> ('a pstate_scheme \<Rightarrow> nat \<Rightarrow> fault + 'b) \<Rightarrow> fault + 'b" where
  "with_myproc s f = bindr (myproc s) (\<lambda>(s1, p). case p of None \<Rightarrow> Inl (BadAccess 0) | Some i \<Rightarrow> f s1 i)"

section \<open>Allocating and freeing processes\<close>

definition allocpid :: "'a pstate_scheme \<Rightarrow> fault + 'a pstate_scheme \<times> int" where
  "allocpid s =
     bindr (acquire (pid_lock s) (hart s)) (\<lambda>(lk, c).
       let s1 = s\<lparr>pid_lock := lk, hart := c\<rparr>; p = nextpid s1; s2 = s1\<lparr>nextpid := nextpid s1 + 1\<rparr>
       in bindr (release (pid_lock s2) (hart s2)) (\<lambda>(lk1, c1). Inr (s2\<lparr>pid_lock := lk1, hart := c1\<rparr>, p)))"

text \<open>
  \<open>trampoline\<close> is the address of the code in \<^verbatim>\<open>trampoline.S\<close>. The recursion depth of
  \<open>freewalk\<close> is that of a three-level table.
\<close>

definition proc_pagetable :: "'a kmem_scheme \<Rightarrow> u64 \<Rightarrow> u64 \<Rightarrow> fault + 'a kmem_scheme \<times> u64" where
  "proc_pagetable s trampoline tf =
     bindr (uvmcreate s) (\<lambda>(s1, pt).
       if pt = 0 then Inr (s1, 0)
       else bindr (mappages s1 pt TRAMPOLINE PGSIZE trampoline (PTE_R OR PTE_X)) (\<lambda>(s2, r).
         if r < 0 then bindr (uvmfree 3 s2 pt 0) (\<lambda>s3. Inr (s3, 0))
         else bindr (mappages s2 pt TRAPFRAME PGSIZE tf (PTE_R OR PTE_W)) (\<lambda>(s3, r).
           if r < 0 then
             bindr (uvmunmap s3 pt TRAMPOLINE 1 False) (\<lambda>s4.
               bindr (uvmfree 3 s4 pt 0) (\<lambda>s5. Inr (s5, 0)))
           else Inr (s3, pt))))"

definition proc_freepagetable :: "'a kmem_scheme \<Rightarrow> u64 \<Rightarrow> u64 \<Rightarrow> fault + 'a kmem_scheme" where
  "proc_freepagetable s pt psz =
     bindr (uvmunmap s pt TRAMPOLINE 1 False) (\<lambda>s1.
       bindr (uvmunmap s1 pt TRAPFRAME 1 False) (\<lambda>s2. uvmfree 3 s2 pt psz))"

definition freeproc :: "'a pstate_scheme \<Rightarrow> nat \<Rightarrow> fault + 'a pstate_scheme" where
  "freeproc s i =
     bindr (if trapframe (procs s ! i) \<noteq> 0 then kfree s (trapframe (procs s ! i)) else Inr s) (\<lambda>s1.
       let s2 = upd_proc s1 i (\<lambda>p. p\<lparr>trapframe := 0\<rparr>); p = procs s2 ! i
       in bindr (if pagetable p \<noteq> 0 then proc_freepagetable s2 (pagetable p) (sz p) else Inr s2) (\<lambda>s3.
            Inr (upd_proc s3 i (\<lambda>p. p\<lparr>pagetable := 0, sz := 0, pid := 0, parent := None, p_name := (p_name p)(0 := 0),
                   chan := WNone, p_killed := 0, xstate := 0, state := UNUSED\<rparr>))))"

text \<open>The search of \<open>allocproc\<close>, at index \<open>i\<close> with \<open>k\<close> processes left; the result has its lock held.\<close>

fun find_unused :: "nat \<Rightarrow> nat \<Rightarrow> 'a pstate_scheme \<Rightarrow> fault + 'a pstate_scheme \<times> nat option" where
  "find_unused 0 i s = Inr (s, None)"
| "find_unused (Suc k) i s =
     bindr (acquire_proc s i) (\<lambda>s1.
       if state (procs s1 ! i) = UNUSED then Inr (s1, Some i)
       else bindr (release_proc s1 i) (\<lambda>s2. find_unused k (Suc i) s2))"

definition allocproc :: "'a pstate_scheme \<Rightarrow> u64 \<Rightarrow> u64 \<Rightarrow> fault + 'a pstate_scheme \<times> nat option" where
  "allocproc s trampoline forkret =
     bindr (find_unused NPROC 0 s) (\<lambda>(s1, r). case r of None \<Rightarrow> Inr (s1, None) | Some i \<Rightarrow>
       bindr (allocpid s1) (\<lambda>(s2, n).
       let s3 = upd_proc s2 i (\<lambda>p. p\<lparr>pid := n, state := USED\<rparr>)
       in bindr (kalloc s3) (\<lambda>(s4, tf).
       let s5 = upd_proc s4 i (\<lambda>p. p\<lparr>trapframe := tf\<rparr>)
       in if tf = 0 then
            bindr (freeproc s5 i) (\<lambda>s6. bindr (release_proc s6 i) (\<lambda>s7. Inr (s7, None)))
          else
            bindr (proc_pagetable s5 trampoline tf) (\<lambda>(s6, pt).
            let s7 = upd_proc s6 i (\<lambda>p. p\<lparr>pagetable := pt\<rparr>)
            in if pt = 0 then
                 bindr (freeproc s7 i) (\<lambda>s8. bindr (release_proc s8 i) (\<lambda>s9. Inr (s9, None)))
               else Inr (upd_proc s7 i (\<lambda>p. p\<lparr>p_context := \<lparr>ctx_ra = forkret, ctx_sp = kstack p + PGSIZE,
                           ctx_s = replicate 12 0\<rparr>\<rparr>), Some i)))))"

definition growproc :: "'a pstate_scheme \<Rightarrow> int \<Rightarrow> fault + 'a pstate_scheme \<times> int" where
  "growproc s n =
     with_myproc s (\<lambda>s1 i.
       let p = procs s1 ! i
       in if n > 0 then
            bindr (uvmalloc s1 (pagetable p) (sz p) (sz p + of_int n) PTE_W) (\<lambda>(s2, newsz).
              if newsz = 0 then Inr (s2, -1) else Inr (upd_proc s2 i (\<lambda>p. p\<lparr>sz := newsz\<rparr>), 0))
          else if n < 0 then
            bindr (uvmdealloc s1 (pagetable p) (sz p) (sz p + of_int n)) (\<lambda>(s2, newsz).
              Inr (upd_proc s2 i (\<lambda>p. p\<lparr>sz := newsz\<rparr>), 0))
          else Inr (upd_proc s1 i (\<lambda>p. p\<lparr>sz := sz p\<rparr>), 0))"

section \<open>Scheduling\<close>

text \<open>One iteration of the scheduler's loop up to the switch (True) or to its end (False).\<close>

definition scheduler_pick :: "'a pstate_scheme \<Rightarrow> nat \<Rightarrow> fault + 'a pstate_scheme \<times> bool" where
  "scheduler_pick s i =
     bindr (acquire_proc s i) (\<lambda>s1.
       if state (procs s1 ! i) = RUNNABLE
       then Inr ((upd_proc s1 i (\<lambda>p. p\<lparr>state := RUNNING\<rparr>))\<lparr>curproc := Some i\<rparr>, True)
       else bindr (release_proc s1 i) (\<lambda>s2. Inr (s2, False)))"

text \<open>The rest of the iteration after the process has switched back.\<close>

definition scheduler_back :: "'a pstate_scheme \<Rightarrow> nat \<Rightarrow> fault + 'a pstate_scheme" where
  "scheduler_back s i = release_proc (s\<lparr>curproc := None\<rparr>) i"

text \<open>\<open>sched\<close> up to the switch; the result is the saved interrupt flag.\<close>

definition sched :: "'a pstate_scheme \<Rightarrow> fault + 'a pstate_scheme \<times> int" where
  "sched s =
     with_myproc s (\<lambda>s1 i.
       if \<not> holding (p_lock (procs s1 ! i)) (hart s1) then Inl (Panic ''sched p->lock'')
       else if noff (mycpu s1) \<noteq> 1 then Inl (Panic ''sched locks'')
       else if state (procs s1 ! i) = RUNNING then Inl (Panic ''sched running'')
       else if intr_get (hart s1) \<noteq> 0 then Inl (Panic ''sched interruptible'')
       else Inr (s1, intena (mycpu s1)))"

text \<open>What \<open>sched\<close> does when the scheduler switches back.\<close>

definition sched_return :: "'a pstate_scheme \<Rightarrow> int \<Rightarrow> 'a pstate_scheme" where
  "sched_return s ie = s\<lparr>hart := (mycpu s)\<lparr>intena := ie\<rparr>\<rparr>"

definition yield_enter :: "'a pstate_scheme \<Rightarrow> fault + 'a pstate_scheme \<times> int" where
  "yield_enter s =
     with_myproc s (\<lambda>s1 i.
       bindr (acquire_proc s1 i) (\<lambda>s2. sched (upd_proc s2 i (\<lambda>p. p\<lparr>state := RUNNABLE\<rparr>))))"

definition yield_return :: "'a pstate_scheme \<Rightarrow> nat \<Rightarrow> int \<Rightarrow> fault + 'a pstate_scheme" where
  "yield_return s i ie = release_proc (sched_return s ie) i"

text \<open>Statements one after the other, up to the first that does not end.\<close>

fun run_steps :: "('s \<Rightarrow> fault + 's) list \<Rightarrow> 's \<Rightarrow> fault + 's" where
  "run_steps [] s = Inr s"
| "run_steps (f # fs) s = bindr (f s) (run_steps fs)"

text \<open>
  \<open>sleep(chan, lk)\<close> of process \<open>i\<close> on the state and the lock \<open>lk\<close>, statement by statement: between two
  of them another hart may run. First the statements before \<open>sched()\<close>, then those after it; \<open>ie\<close>
  is the interrupt flag that \<open>sched\<close> saved.
\<close>

definition sleep_steps :: "wchan \<Rightarrow> nat \<Rightarrow> ('a pstate_scheme \<times> spinlock \<Rightarrow> fault + 'a pstate_scheme \<times> spinlock) list" where
  "sleep_steps ch i =
     [\<lambda>(s, lk). bindr (acquire_proc s i) (\<lambda>s1. Inr (s1, lk)),
      \<lambda>(s, lk). bindr (release lk (hart s)) (\<lambda>(lk1, c). Inr (s\<lparr>hart := c\<rparr>, lk1)),
      \<lambda>(s, lk). Inr (upd_proc s i (\<lambda>p. p\<lparr>chan := ch\<rparr>), lk),
      \<lambda>(s, lk). Inr (upd_proc s i (\<lambda>p. p\<lparr>state := SLEEPING\<rparr>), lk)]"

definition sleep_return_steps :: "nat \<Rightarrow> int \<Rightarrow> ('a pstate_scheme \<times> spinlock \<Rightarrow> fault + 'a pstate_scheme \<times> spinlock) list" where
  "sleep_return_steps i ie =
     [\<lambda>(s, lk). Inr (sched_return s ie, lk),
      \<lambda>(s, lk). Inr (upd_proc s i (\<lambda>p. p\<lparr>chan := WNone\<rparr>), lk),
      \<lambda>(s, lk). bindr (release_proc s i) (\<lambda>s1. Inr (s1, lk)),
      \<lambda>(s, lk). bindr (acquire lk (hart s)) (\<lambda>(lk1, c). Inr (s\<lparr>hart := c\<rparr>, lk1))]"

text \<open>\<open>sleep\<close> takes the lock it releases and returns it; the second part acquires it again.\<close>

definition sleep_enter :: "'a pstate_scheme \<Rightarrow> wchan \<Rightarrow> spinlock \<Rightarrow> fault + 'a pstate_scheme \<times> spinlock \<times> int" where
  "sleep_enter s ch lk =
     with_myproc s (\<lambda>s1 i.
       bindr (run_steps (sleep_steps ch i) (s1, lk)) (\<lambda>(s2, lk1).
         bindr (sched s2) (\<lambda>(s3, ie). Inr (s3, lk1, ie))))"

definition sleep_return :: "'a pstate_scheme \<Rightarrow> nat \<Rightarrow> spinlock \<Rightarrow> int \<Rightarrow> fault + 'a pstate_scheme \<times> spinlock" where
  "sleep_return s i lk ie = run_steps (sleep_return_steps i ie) (s, lk)"

section \<open>Waking and killing\<close>

text \<open>What \<open>wakeup\<close> does for a process other than the caller, statement by statement.\<close>

definition wakeup_steps :: "wchan \<Rightarrow> nat \<Rightarrow> ('a pstate_scheme \<Rightarrow> fault + 'a pstate_scheme) list" where
  "wakeup_steps ch i =
     [\<lambda>s. acquire_proc s i,
      \<lambda>s. Inr (if state (procs s ! i) = SLEEPING \<and> chan (procs s ! i) = ch
               then upd_proc s i (\<lambda>p. p\<lparr>state := RUNNABLE\<rparr>) else s),
      \<lambda>s. release_proc s i]"

fun wakeup_loop :: "nat \<Rightarrow> nat \<Rightarrow> 'a pstate_scheme \<Rightarrow> wchan \<Rightarrow> fault + 'a pstate_scheme" where
  "wakeup_loop 0 i s ch = Inr s"
| "wakeup_loop (Suc k) i s ch =
     bindr (myproc s) (\<lambda>(s1, me).
       if me \<noteq> Some i then bindr (run_steps (wakeup_steps ch i) s1) (\<lambda>s2. wakeup_loop k (Suc i) s2 ch)
       else wakeup_loop k (Suc i) s1 ch)"

definition wakeup :: "'a pstate_scheme \<Rightarrow> wchan \<Rightarrow> fault + 'a pstate_scheme" where
  "wakeup s ch = wakeup_loop NPROC 0 s ch"

fun reparent_loop :: "nat \<Rightarrow> nat \<Rightarrow> 'a pstate_scheme \<Rightarrow> nat \<Rightarrow> fault + 'a pstate_scheme" where
  "reparent_loop 0 i s p = Inr s"
| "reparent_loop (Suc k) i s p =
     (if parent (procs s ! i) = Some p then
        let s1 = upd_proc s i (\<lambda>pp. pp\<lparr>parent := initproc s\<rparr>)
        in bindr (wakeup s1 (case initproc s1 of None \<Rightarrow> WNone | Some q \<Rightarrow> WProc q)) (\<lambda>s2. reparent_loop k (Suc i) s2 p)
      else reparent_loop k (Suc i) s p)"

definition reparent :: "'a pstate_scheme \<Rightarrow> nat \<Rightarrow> fault + 'a pstate_scheme" where
  "reparent s p = reparent_loop NPROC 0 s p"

fun kill_loop :: "nat \<Rightarrow> nat \<Rightarrow> 'a pstate_scheme \<Rightarrow> int \<Rightarrow> fault + 'a pstate_scheme \<times> int" where
  "kill_loop 0 i s n = Inr (s, -1)"
| "kill_loop (Suc k) i s n =
     bindr (acquire_proc s i) (\<lambda>s1.
       if pid (procs s1 ! i) = n then
         let s2 = upd_proc s1 i (\<lambda>p. p\<lparr>p_killed := 1\<rparr>);
             s3 = (if state (procs s2 ! i) = SLEEPING then upd_proc s2 i (\<lambda>p. p\<lparr>state := RUNNABLE\<rparr>) else s2)
         in bindr (release_proc s3 i) (\<lambda>s4. Inr (s4, 0))
       else bindr (release_proc s1 i) (\<lambda>s2. kill_loop k (Suc i) s2 n))"

definition kill :: "'a pstate_scheme \<Rightarrow> int \<Rightarrow> fault + 'a pstate_scheme \<times> int" where
  "kill s n = kill_loop NPROC 0 s n"

definition setkilled :: "'a pstate_scheme \<Rightarrow> nat \<Rightarrow> fault + 'a pstate_scheme" where
  "setkilled s i =
     bindr (acquire_proc s i) (\<lambda>s1. release_proc (upd_proc s1 i (\<lambda>p. p\<lparr>p_killed := 1\<rparr>)) i)"

definition killed :: "'a pstate_scheme \<Rightarrow> nat \<Rightarrow> fault + 'a pstate_scheme \<times> int" where
  "killed s i =
     bindr (acquire_proc s i) (\<lambda>s1.
       let k = p_killed (procs s1 ! i) in bindr (release_proc s1 i) (\<lambda>s2. Inr (s2, k)))"

section \<open>Copying to and from user or kernel addresses\<close>

definition either_copyout :: "'a pstate_scheme \<Rightarrow> bool \<Rightarrow> u64 \<Rightarrow> cstr \<Rightarrow> u64 \<Rightarrow> fault + 'a pstate_scheme \<times> int" where
  "either_copyout s user_dst dst src len =
     bindr (myproc s) (\<lambda>(s1, me).
       if user_dst then
         (case me of None \<Rightarrow> Inl (BadAccess 0) | Some i \<Rightarrow> copyout s1 (pagetable (procs s1 ! i)) dst src len)
       else Inr (s1\<lparr>mem := put_bytes (mem s1) dst src (unat len)\<rparr>, 0))"

definition either_copyin :: "'a pstate_scheme \<Rightarrow> bool \<Rightarrow> u64 \<Rightarrow> u64 \<Rightarrow> fault + 'a pstate_scheme \<times> int \<times> u8 list" where
  "either_copyin s user_src src len =
     bindr (myproc s) (\<lambda>(s1, me).
       if user_src then
         (case me of None \<Rightarrow> Inl (BadAccess 0)
          | Some i \<Rightarrow> bindr (copyin s1 (pagetable (procs s1 ! i)) src len) (\<lambda>(r, bs). Inr (s1, r, bs)))
       else Inr (s1, 0, get_bytes (mem s1) src (unat len)))"

end
