(* ===== verification/Proc_thms.thy ===== *)
theory Proc_thms
  imports Proc
begin

text \<open>
  Properties of the process table: what \<open>wakeup\<close> and \<open>kill\<close> change, that ids are fresh, and that a
  process that sleeps is resumed by a wakeup on its channel with the lock it gave up.
\<close>

section \<open>Critical sections on a process\<close>

definition idle_procs :: "'a pstate_scheme \<Rightarrow> bool" where
  "idle_procs s \<longleftrightarrow> length (procs s) = NPROC \<and> (\<forall>i<NPROC. lk_free (p_lock (procs s ! i))) \<and> cpu_ok (hart s)"

definition held_lock :: "spinlock \<Rightarrow> nat \<Rightarrow> spinlock" where
  "held_lock lk h = lk\<lparr>locked := 1, lk_cpu := Some h\<rparr>"

definition settled :: "'a kmem_scheme \<Rightarrow> 'a kmem_scheme" where
  "settled s = s\<lparr>hart := settle (hart s)\<rparr>"

lemma upd_proc_simps [simp]:
  "hart (upd_proc s i f) = hart s" "length (procs (upd_proc s i f)) = length (procs s)"
  "curproc (upd_proc s i f) = curproc s" "nextpid (upd_proc s i f) = nextpid s" "pid_lock (upd_proc s i f) = pid_lock s"
  "i < length (procs s) \<Longrightarrow> procs (upd_proc s i f) ! i = f (procs s ! i)"
  "j \<noteq> i \<Longrightarrow> procs (upd_proc s i f) ! j = procs s ! j"
  "i < length (procs s) \<Longrightarrow> upd_proc (upd_proc s i f) i g = upd_proc s i (\<lambda>p. g (f p))"
  by (auto simp: upd_proc_def)

lemma settled_simps [simp]:
  "procs (settled s) = procs s" "curproc (settled s) = curproc s" "hart (settled s) = settle (hart s)"
  "settled (settled s) = settled s" "settled (upd_proc s i f) = upd_proc (settled s) i f"
  for s :: "'a pstate_scheme"
  by (simp_all add: settled_def upd_proc_def)

lemma myproc_ok: "cpu_ok (hart s) \<Longrightarrow> myproc s = Inr (settled s, curproc s)" for s :: "'a pstate_scheme"
  by (simp add: myproc_def push_pop_off settled_def)

lemma acquire_proc_ok:
  assumes "lk_free (p_lock (procs s ! i))"
  shows "acquire_proc s i =
    Inr (upd_proc (s\<lparr>hart := push_off (hart s)\<rparr>) i (\<lambda>p. p\<lparr>p_lock := held_lock (p_lock (procs s ! i)) (hartid (hart s))\<rparr>))"
  by (simp add: acquire_proc_def acquire_free [OF assms] held_lock_def)

lemma release_proc_ok:
  assumes "lk_free (p_lock (procs s ! i))" and "cpu_ok (hart s)" and "i < length (procs s)"
    and f: "\<And>p lk. f (p\<lparr>p_lock := lk\<rparr>) = (f p)\<lparr>p_lock := lk\<rparr>"
  shows "release_proc (upd_proc (s\<lparr>hart := push_off (hart s)\<rparr>) i
      (\<lambda>p. f (p\<lparr>p_lock := held_lock (p_lock (procs s ! i)) (hartid (hart s))\<rparr>))) i = Inr (upd_proc (settled s) i f)"
proof -
  have self: "(f (procs s ! i))\<lparr>p_lock := p_lock (procs s ! i)\<rparr> = f (procs s ! i)"
    using f [where p = "procs s ! i" and lk = "p_lock (procs s ! i)"] by simp
  show ?thesis
    using release_held [OF assms(1,2)] assms(3)
    by (simp add: release_proc_def f held_lock_def settled_def upd_proc_def self)
qed

lemma crit_proc:
  assumes "idle_procs s" and "i < NPROC" and "\<And>p lk. f (p\<lparr>p_lock := lk\<rparr>) = (f p)\<lparr>p_lock := lk\<rparr>"
  shows "\<exists>s1. acquire_proc s i = Inr s1 \<and> i < length (procs s1) \<and>
    procs s1 ! i = (procs s ! i)\<lparr>p_lock := held_lock (p_lock (procs s ! i)) (hartid (hart s))\<rparr> \<and>
    release_proc s1 i = Inr (settled s) \<and> release_proc (upd_proc s1 i f) i = Inr (upd_proc (settled s) i f)"
proof -
  have s: "lk_free (p_lock (procs s ! i))" "cpu_ok (hart s)" "i < length (procs s)"
    using assms(1,2) by (simp_all add: idle_procs_def)
  have same: "upd_proc (settled s) i (\<lambda>p. p) = settled s"
    by (simp add: upd_proc_def)
  show ?thesis
    using acquire_proc_ok [OF s(1)] release_proc_ok [OF s, of "\<lambda>p. p"] release_proc_ok [OF s, of f, OF assms(3)] s(3) same
    by simp
qed

lemma idle_upd:
  assumes "idle_procs s" and "\<And>p. p_lock (f p) = p_lock p"
  shows "idle_procs (upd_proc s i f)"
proof -
  have "lk_free (p_lock (procs (upd_proc s i f) ! j))" if "j < NPROC" for j
    using assms that by (cases "j = i") (simp_all add: idle_procs_def)
  then show ?thesis
    using assms(1) by (simp add: idle_procs_def)
qed

lemma idle_settled [simp]: "idle_procs (settled s) = idle_procs s"
  by (simp add: idle_procs_def)

lemma killed_ok:
  assumes "idle_procs s" "p < NPROC"
  shows "killed s p = Inr (settled s, p_killed (procs s ! p))"
proof -
  obtain s1 where "acquire_proc s p = Inr s1"
      "procs s1 ! p = (procs s ! p)\<lparr>p_lock := held_lock (p_lock (procs s ! p)) (hartid (hart s))\<rparr>" "release_proc s1 p = Inr (settled s)"
    using crit_proc [OF assms, of "\<lambda>x. x"] by auto
  then show ?thesis
    by (simp add: killed_def)
qed

section \<open>A concrete process table\<close>

definition blank_proc :: proc where
  "blank_proc = \<lparr>p_lock = \<lparr>locked = 0, lk_name = ''proc'', lk_cpu = None\<rparr>, state = UNUSED, chan = WNone, p_killed = 0,
     xstate = 0, pid = 0, parent = None, kstack = 0, sz = 0, pagetable = 0, trapframe = 0,
     p_context = \<lparr>ctx_ra = 0, ctx_sp = 0, ctx_s = []\<rparr>, ofile = replicate 16 None, cwd = None, p_name = empty_cstr\<rparr>"

definition blank_pstate :: pstate where
  "blank_pstate = \<lparr>mem = (\<lambda>_. 0), kend = 0x80030000, freelist = 0, kmem_lock = \<lparr>locked = 0, lk_name = ''kmem'', lk_cpu = None\<rparr>,
     hart = \<lparr>hartid = 0, noff = 0, intena = 0, sie = True\<rparr>, ringbufs = [],
     ringbuf_lock = \<lparr>locked = 0, lk_name = ''ringbuf'', lk_cpu = None\<rparr>, procs = replicate 64 blank_proc, initproc = Some 0,
     nextpid = 1, pid_lock = \<lparr>locked = 0, lk_name = ''nextpid'', lk_cpu = None\<rparr>,
     wait_lock = \<lparr>locked = 0, lk_name = ''wait_lock'', lk_cpu = None\<rparr>, curproc = None\<rparr>"

section \<open>Waking\<close>

definition wake :: "wchan \<Rightarrow> nat option \<Rightarrow> nat \<Rightarrow> proc \<Rightarrow> proc" where
  "wake ch me i p = (if me \<noteq> Some i \<and> state p = SLEEPING \<and> chan p = ch then p\<lparr>state := RUNNABLE\<rparr> else p)"

lemma wakeup_step:
  assumes "idle_procs s" and "i < NPROC"
  shows "wakeup_loop (Suc k) i s ch = wakeup_loop k (Suc i) (upd_proc (settled s) i (wake ch (curproc s) i)) ch"
proof -
  have ok: "cpu_ok (hart s)"
    using assms(1) by (simp add: idle_procs_def)
  show ?thesis
  proof (cases "curproc s = Some i")
    case True
    then have "upd_proc (settled s) i (wake ch (curproc s) i) = settled s"
      by (simp add: upd_proc_def wake_def)
    then show ?thesis
      using True ok by (simp add: myproc_ok)
  next
    case False
    have "\<exists>s1. acquire_proc (settled s) i = Inr s1 \<and> i < length (procs s1) \<and>
      procs s1 ! i = (procs (settled s) ! i)\<lparr>p_lock := held_lock (p_lock (procs (settled s) ! i)) (hartid (hart (settled s)))\<rparr> \<and>
      release_proc s1 i = Inr (settled (settled s)) \<and>
      release_proc (upd_proc s1 i (\<lambda>p. p\<lparr>state := RUNNABLE\<rparr>)) i = Inr (upd_proc (settled (settled s)) i (\<lambda>p. p\<lparr>state := RUNNABLE\<rparr>))"
      using assms by (intro crit_proc) simp_all
    then obtain s1 where s1: "acquire_proc (settled s) i = Inr s1"
      "procs s1 ! i = (procs s ! i)\<lparr>p_lock := held_lock (p_lock (procs s ! i)) (hartid (hart s))\<rparr>"
      "release_proc s1 i = Inr (settled s)"
      "release_proc (upd_proc s1 i (\<lambda>p. p\<lparr>state := RUNNABLE\<rparr>)) i = Inr (upd_proc (settled s) i (\<lambda>p. p\<lparr>state := RUNNABLE\<rparr>))"
      by auto
    have "upd_proc (settled s) i (wake ch (curproc s) i) =
        (if state (procs s ! i) = SLEEPING \<and> chan (procs s ! i) = ch
         then upd_proc (settled s) i (\<lambda>p. p\<lparr>state := RUNNABLE\<rparr>) else settled s)"
      using False by (simp add: upd_proc_def wake_def)
    then show ?thesis
      using False ok s1 by (simp add: myproc_ok wakeup_steps_def)
  qed
qed

lemma wakeup_loop_eq:
  "idle_procs s \<Longrightarrow> i + k = NPROC \<Longrightarrow> wakeup_loop k i (settled s) ch =
     Inr ((settled s)\<lparr>procs := map (\<lambda>j. if i \<le> j then wake ch (curproc s) j (procs s ! j) else procs s ! j) [0..<NPROC]\<rparr>)"
proof (induction k arbitrary: i s)
  case 0
  then have "map (\<lambda>j. if i \<le> j then wake ch (curproc s) j (procs s ! j) else procs s ! j) [0..<NPROC] = procs s"
    by (intro nth_equalityI) (auto simp: idle_procs_def)
  then show ?case by simp
next
  case (Suc k)
  let ?s = "upd_proc s i (wake ch (curproc s) i)"
  have i: "i < NPROC" using Suc.prems(2) by simp
  have idle: "idle_procs ?s"
    using Suc.prems(1) by (rule idle_upd) (simp add: wake_def)
  have len: "length (procs s) = NPROC"
    using Suc.prems(1) by (simp add: idle_procs_def)
  have "wakeup_loop (Suc k) i (settled s) ch = wakeup_loop k (Suc i) (settled ?s) ch"
    using wakeup_step [of "settled s" i] Suc.prems(1) i by simp
  also have "\<dots> = Inr ((settled ?s)\<lparr>procs := map (\<lambda>j. if Suc i \<le> j then wake ch (curproc ?s) j (procs ?s ! j) else procs ?s ! j) [0..<NPROC]\<rparr>)"
    using Suc.IH [OF idle] Suc.prems(2) by simp
  also have "map (\<lambda>j. if Suc i \<le> j then wake ch (curproc ?s) j (procs ?s ! j) else procs ?s ! j) [0..<NPROC] =
      map (\<lambda>j. if i \<le> j then wake ch (curproc s) j (procs s ! j) else procs s ! j) [0..<NPROC]"
    using len i by (auto simp: upd_proc_def nth_list_update Suc_le_eq le_eq_less_or_eq)
  finally show ?case
    by (simp add: upd_proc_def settled_def)
qed

lemma wakeup_eq:
  assumes idle: "idle_procs s"
  shows "wakeup s ch = Inr (s\<lparr>hart := settle (hart s), procs := map (\<lambda>i. wake ch (curproc s) i (procs s ! i)) [0..<NPROC]\<rparr>)"
proof -
  have "wakeup s ch = wakeup_loop NPROC 0 (settled s) ch"
    using wakeup_step [OF idle, of 0 63 ch] wakeup_step [of "settled s" 0 63 ch] idle
    by (simp add: wakeup_def eval_nat_numeral(3) numeral_eq_Suc)
  also have "\<dots> = Inr ((settled s)\<lparr>procs := map (\<lambda>j. if 0 \<le> j then wake ch (curproc s) j (procs s ! j) else procs s ! j) [0..<NPROC]\<rparr>)"
    by (rule wakeup_loop_eq [OF idle]) simp
  finally show ?thesis
    by (simp add: settled_def)
qed

text \<open>
  C14 (functional). \<open>wakeup(chan)\<close>, with all process locks free: exactly the processes other than
  the caller that sleep on that channel become runnable, nothing else of any process changes,
  and every lock is free again.
\<close>

theorem wakeup_exact:
  assumes "length (procs s) = NPROC" and "\<forall>i<NPROC. lk_free (p_lock (procs s ! i))" and "cpu_ok (hart s)"
  shows "wakeup s ch = Inr (s\<lparr>hart := settle (hart s), procs := map (\<lambda>i. let p = procs s ! i in
     if curproc s \<noteq> Some i \<and> state p = SLEEPING \<and> chan p = ch then p\<lparr>state := RUNNABLE\<rparr> else p) [0..<NPROC]\<rparr>)"
  using wakeup_eq [of s ch] assms by (simp add: idle_procs_def wake_def Let_def cong: map_cong)

theorem wakeup_exact_witness:
  "\<exists>s'. wakeup (upd_proc blank_pstate 3 (\<lambda>p. p\<lparr>state := SLEEPING, chan := WTicks\<rparr>)) WTicks = Inr s' \<and>
     state (procs s' ! 3) = RUNNABLE \<and> state (procs s' ! 4) = UNUSED"
proof -
  let ?s = "upd_proc blank_pstate 3 (\<lambda>p. p\<lparr>state := SLEEPING, chan := WTicks\<rparr>)"
  have "lk_free (p_lock (procs ?s ! i))" if "i < NPROC" for i
    using that by (simp add: upd_proc_def blank_pstate_def nth_list_update blank_proc_def lk_free_def)
  moreover have "length (procs ?s) = NPROC" "cpu_ok (hart ?s)"
    by (simp_all add: blank_pstate_def cpu_ok_def)
  ultimately show ?thesis
    using wakeup_exact [of ?s WTicks] by (simp add: upd_proc_def blank_pstate_def blank_proc_def)
qed

section \<open>Sleeping and being woken\<close>

text \<open>A hart inside exactly one critical section.\<close>

definition one_lock :: "cpu \<Rightarrow> bool" where
  "one_lock c \<longleftrightarrow> noff c = 1 \<and> \<not> sie c \<and> (intena c = 0 \<or> intena c = 1)"

lemma one_lock_ok: "one_lock c \<Longrightarrow> cpu_ok c \<and> settle c = c"
  by (simp add: one_lock_def cpu_ok_def settle_def)

text \<open>The hart after the last lock has been released.\<close>

definition rest :: "cpu \<Rightarrow> cpu" where
  "rest c = c\<lparr>noff := 0, sie := (intena c = 1)\<rparr>"

lemma one_lock_pop: "one_lock c \<Longrightarrow> pop_off c = Inr (rest c)"
  by (cases c) (auto simp: one_lock_def pop_off_def rest_def intr_get_def intr_on_def Let_def)

lemma rest_push: "one_lock c \<Longrightarrow> push_off (settle (rest c)) = c"
  by (cases c) (auto simp: one_lock_def rest_def push_off_def settle_def intr_get_def intr_off_def Let_def)

lemma release_one_lock:
  assumes "one_lock c" and "lk_free lk"
  shows "release (held_lock lk (hartid c)) c = Inr (lk, rest c)"
  using assms one_lock_pop [OF assms(1)] by (cases lk) (simp add: release_def holding_def held_lock_def lk_free_def)

lemma sleep_enter_ok:
  assumes idle: "idle_procs s" and me: "curproc s = Some i" "i < NPROC" and c: "one_lock (hart s)" and lk: "lk_free lk"
  shows "sleep_enter s ch (held_lock lk (hartid (hart s))) =
    Inr (upd_proc s i (\<lambda>p. p\<lparr>p_lock := held_lock (p_lock p) (hartid (hart s)), chan := ch, state := SLEEPING\<rparr>),
         lk, intena (hart s))"
proof -
  let ?c = "hart s" and ?l = "held_lock (p_lock (procs s ! i)) (hartid (hart s))"
  note cc = one_lock_ok [OF c]
  have free: "lk_free (p_lock (procs s ! i))" and len: "i < length (procs s)"
    using idle me(2) by (simp_all add: idle_procs_def)
  have my: "myproc t = Inr (t, curproc t)" if "hart t = ?c" for t :: "'a pstate_scheme"
    using myproc_ok [of t] cc that by (simp add: settled_def)
  have rel: "release (held_lock lk (hartid ?c)) (push_off ?c) = Inr (lk, ?c)"
    using release_held [OF lk, of ?c] cc by (simp add: held_lock_def)
  have "sched (upd_proc s i (\<lambda>p. p\<lparr>p_lock := ?l, chan := ch, state := SLEEPING\<rparr>)) =
      Inr (upd_proc s i (\<lambda>p. p\<lparr>p_lock := ?l, chan := ch, state := SLEEPING\<rparr>), intena ?c)"
    using c len me(1) my [of "upd_proc s i (\<lambda>p. p\<lparr>p_lock := ?l, chan := ch, state := SLEEPING\<rparr>)"]
    by (simp add: sched_def with_myproc_def holding_def held_lock_def one_lock_def intr_get_def mycpu_def)
  then show ?thesis
    using my [of s] me(1) acquire_proc_ok [OF free] len rel
    by (simp add: sleep_enter_def sleep_steps_def with_myproc_def upd_proc_def)
qed

lemma scheduler_back_ok:
  assumes "i < length (procs s)" and "one_lock (hart s)" and "lk_free (p_lock (procs s ! i))"
    and f: "\<And>p lk. f (p\<lparr>p_lock := lk\<rparr>) = (f p)\<lparr>p_lock := lk\<rparr>"
  shows "scheduler_back (upd_proc s i (\<lambda>p. f (p\<lparr>p_lock := held_lock (p_lock p) (hartid (hart s))\<rparr>))) i =
    Inr (upd_proc (s\<lparr>curproc := None, hart := rest (hart s)\<rparr>) i f)"
proof -
  have self: "(f (procs s ! i))\<lparr>p_lock := p_lock (procs s ! i)\<rparr> = f (procs s ! i)"
    using f [where p = "procs s ! i" and lk = "p_lock (procs s ! i)"] by simp
  then show ?thesis
    using release_one_lock [OF assms(2,3)] assms(1)
    by (simp add: scheduler_back_def release_proc_def f upd_proc_def)
qed

lemma pick_return_ok:
  assumes idle: "idle_procs s" and i: "i < NPROC" and st: "state (procs s ! i) = RUNNABLE" and lk: "lk_free lk"
    and c: "one_lock c" and h: "hart s = settle (rest c)"
  shows "\<exists>s1. scheduler_pick s i = Inr (s1, True) \<and> curproc s1 = Some i \<and>
    sleep_return s1 i lk (intena c) =
      Inr (upd_proc (s\<lparr>curproc := Some i, hart := c\<rparr>) i (\<lambda>p. p\<lparr>state := RUNNING, chan := WNone\<rparr>), held_lock lk (hartid c))"
proof -
  let ?l = "p_lock (procs s ! i)"
  let ?s1 = "upd_proc (s\<lparr>hart := c, curproc := Some i\<rparr>) i (\<lambda>p. p\<lparr>p_lock := held_lock ?l (hartid c), state := RUNNING\<rparr>)"
  have free: "lk_free ?l" and len: "i < length (procs s)"
    using idle i by (simp_all add: idle_procs_def)
  have id: "hartid (rest c) = hartid c" "rest c\<lparr>intena := intena c\<rparr> = rest c"
    by (simp_all add: rest_def)
  have push: "push_off (rest c) = c"
    using c by (cases c) (auto simp: one_lock_def rest_def push_off_def intr_get_def intr_off_def Let_def)
  have pick: "scheduler_pick s i = Inr (?s1, True)"
    using acquire_proc_ok [OF free] len st rest_push [OF c] h id
    by (simp add: scheduler_pick_def) (simp add: upd_proc_def)
  have "sched_return ?s1 (intena c) = ?s1"
    by (cases c) (simp add: sched_return_def mycpu_def upd_proc_def)
  moreover have "release_proc (upd_proc ?s1 i (\<lambda>p. p\<lparr>chan := WNone\<rparr>)) i =
      Inr (upd_proc (s\<lparr>hart := rest c, curproc := Some i\<rparr>) i (\<lambda>p. p\<lparr>state := RUNNING, chan := WNone\<rparr>))"
    using release_one_lock [OF c free] len by (simp add: release_proc_def upd_proc_def)
  moreover have "acquire lk (rest c) = Inr (held_lock lk (hartid c), c)"
    using acquire_free [OF lk, of "rest c"] push id by (simp add: held_lock_def)
  ultimately have "sleep_return ?s1 i lk (intena c) =
      Inr (upd_proc (s\<lparr>curproc := Some i, hart := c\<rparr>) i (\<lambda>p. p\<lparr>state := RUNNING, chan := WNone\<rparr>), held_lock lk (hartid c))"
    by (simp add: sleep_return_def sleep_return_steps_def) (simp add: upd_proc_def)
  then show ?thesis
    using pick len by (intro exI [of _ ?s1]) simp
qed

text \<open>
  The round trip with no other hart moving: process \<open>i\<close>, inside one critical section, sleeps on \<open>ch\<close>; the
  scheduler takes over with the lock free; another process \<open>j\<close> calls \<open>wakeup(ch)\<close>; the scheduler
  picks \<open>i\<close>, and \<open>sleep\<close> returns to it with its lock held again, its channel cleared and the
  hart as it was.
\<close>

lemma sleep_wakeup_resumes:
  assumes "length (procs s) = NPROC" and "\<forall>k<NPROC. lk_free (p_lock (procs s ! k))"
    and "curproc s = Some i" and "i < NPROC" and "j \<noteq> i" and "noff (hart s) = 1" and "\<not> sie (hart s)"
    and "intena (hart s) = 0 \<or> intena (hart s) = 1"
    and "locked lk = 1" and "lk_cpu lk = Some (hartid (hart s))"
  shows "\<exists>s1 lk1 ie s2 s3 s4 s5. sleep_enter s ch lk = Inr (s1, lk1, ie) \<and> lk_free lk1 \<and>
    scheduler_back s1 i = Inr s2 \<and> state (procs s2 ! i) = SLEEPING \<and> wakeup (s2\<lparr>curproc := Some j\<rparr>) ch = Inr s3 \<and>
    scheduler_pick (s3\<lparr>curproc := None\<rparr>) i = Inr (s4, True) \<and> sleep_return s4 i lk1 ie = Inr (s5, lk) \<and>
    curproc s5 = Some i \<and> hart s5 = hart s \<and> procs s5 ! i = (procs s ! i)\<lparr>state := RUNNING, chan := WNone\<rparr>"
proof -
  let ?lk = "lk\<lparr>locked := 0, lk_cpu := None\<rparr>" and ?h = "hartid (hart s)"
  let ?sl = "\<lambda>p :: proc. p\<lparr>chan := ch, state := SLEEPING\<rparr>"
  have idle: "idle_procs s" and c: "one_lock (hart s)" and free: "lk_free ?lk" and held: "held_lock ?lk ?h = lk"
    using assms by (auto simp: idle_procs_def one_lock_def cpu_ok_def lk_free_def held_lock_def)
  let ?s1 = "upd_proc s i (\<lambda>p. ?sl (p\<lparr>p_lock := held_lock (p_lock p) ?h\<rparr>))"
  have 1: "sleep_enter s ch lk = Inr (?s1, ?lk, intena (hart s))"
    using sleep_enter_ok [OF idle assms(3,4) c free, of ch] held by simp
  let ?s2 = "upd_proc (s\<lparr>curproc := None, hart := rest (hart s)\<rparr>) i ?sl"
  have 2: "scheduler_back ?s1 i = Inr ?s2"
    using idle assms(4) c by (intro scheduler_back_ok) (auto simp: idle_procs_def)
  have idle2: "idle_procs (?s2\<lparr>curproc := Some j\<rparr>)"
    using idle_upd [of "s\<lparr>curproc := Some j, hart := rest (hart s)\<rparr>" ?sl i] idle
    by (simp add: idle_procs_def upd_proc_def cpu_ok_def rest_def)
  let ?s3 = "?s2\<lparr>curproc := Some j, hart := settle (rest (hart s)),
    procs := map (\<lambda>k. wake ch (Some j) k (procs ?s2 ! k)) [0..<NPROC]\<rparr>"
  have 3: "wakeup (?s2\<lparr>curproc := Some j\<rparr>) ch = Inr ?s3"
    using wakeup_eq [OF idle2, of ch] by simp
  have "idle_procs (?s3\<lparr>curproc := None\<rparr>)"
    using idle2 by (simp add: idle_procs_def wake_def)
  moreover have p3: "procs ?s3 ! i = (procs s ! i)\<lparr>chan := ch, state := RUNNABLE\<rparr>"
    using assms(1,4,5) by (simp add: wake_def)
  ultimately obtain s4 where "scheduler_pick (?s3\<lparr>curproc := None\<rparr>) i = Inr (s4, True)"
    "sleep_return s4 i ?lk (intena (hart s)) =
      Inr (upd_proc (?s3\<lparr>curproc := Some i, hart := hart s\<rparr>) i (\<lambda>p. p\<lparr>state := RUNNING, chan := WNone\<rparr>), held_lock ?lk ?h)"
    using pick_return_ok [OF _ assms(4) _ free c, of "?s3\<lparr>curproc := None\<rparr>"] by auto
  moreover have "i < length (procs s)"
    using assms(1,4) by simp
  ultimately show ?thesis
    using 1 2 3 free held p3 assms(4)
    by - (rule exI [of _ ?s1], rule exI [of _ ?lk], rule exI [of _ "intena (hart s)"], rule exI [of _ ?s2], rule exI [of _ ?s3],
        rule exI [of _ s4], rule exI, auto)
qed

end
