(* ===== verification/Small_machine.thy ===== *)
theory Small_machine
  imports Usermem
begin

text \<open>
  A concrete machine: two processes, each with a three-level page table that maps one user page
  at virtual address 0, and a pool of free pages. The theorems of the other theories are
  applied to it.
\<close>

section \<open>A pool of free pages\<close>

fun link_pages :: "u64 list \<Rightarrow> memory" where
  "link_pages [] = (\<lambda>_. 0)"
| "link_pages (p # ps) = st64 (link_pages ps) p (case ps of [] \<Rightarrow> 0 | q # _ \<Rightarrow> q)"

lemma link_pages_off:
  assumes "\<forall>p\<in>set ps. pg_aligned p" and "page_no x \<notin> page_no ` set ps"
  shows "link_pages ps x = 0"
  using assms
proof (induction ps)
  case (Cons p ps)
  then show ?case
    using st64_page_same_off_page [of p] unfolding same_off_page_def by fastforce
qed simp

lemma flist_link_pages:
  assumes "distinct ps" and "\<forall>p\<in>set ps. pg_aligned p \<and> p \<noteq> 0"
  shows "flist (link_pages ps) (case ps of [] \<Rightarrow> 0 | p # _ \<Rightarrow> p) ps"
  using assms
proof (induction ps)
  case (Cons p ps)
  have "same_off_page p (link_pages ps) (link_pages (p # ps))"
    using Cons.prems st64_page_same_off_page by simp
  moreover have "flist (link_pages ps) (case ps of [] \<Rightarrow> 0 | p # _ \<Rightarrow> p) ps"
    using Cons by simp
  ultimately have "flist (link_pages (p # ps)) (case ps of [] \<Rightarrow> 0 | q # _ \<Rightarrow> q) ps"
    using Cons.prems by (auto elim: flist_frame [rotated])
  then show ?case
    using Cons.prems by simp
qed simp

definition pool :: "nat \<Rightarrow> u64 list" where
  "pool n = map (\<lambda>i. 0x80100000 + of_nat (4096 * i)) [0..<n]"

lemma unat_pool: "i < 4096 \<Longrightarrow> unat (0x80100000 + of_nat (4096 * i) :: u64) = 0x80100000 + 4096 * i"
  by (subst unat_add_nowrap) (simp_all add: unat_of_nat64 unat_mult_nowrap)

lemma pool_props:
  assumes "n \<le> 4096"
  shows "distinct (pool n)" and "p \<in> set (pool n) \<Longrightarrow> pg_aligned p"
    and "p \<in> set (pool n) \<Longrightarrow> 0x80100000 \<le> unat p \<and> unat p < 0x81100000"
proof -
  have u: "unat (0x80100000 + of_nat (4096 * i) :: u64) = 0x80100000 + 4096 * i" if "i < n" for i
    using that assms by (intro unat_pool) simp
  then have "inj_on (\<lambda>i. 0x80100000 + of_nat (4096 * i) :: u64) {0..<n}"
    by (intro inj_onI) (metis add_left_cancel atLeastLessThan_iff nat_mult_eq_cancel_disj zero_neq_numeral)
  then show "distinct (pool n)"
    unfolding pool_def by (simp add: distinct_map)
  assume "p \<in> set (pool n)"
  then obtain i where i: "i < n" "p = 0x80100000 + of_nat (4096 * i)"
    unfolding pool_def by auto
  show "pg_aligned p" "0x80100000 \<le> unat p \<and> unat p < 0x81100000"
    using u [OF i(1)] i assms by (simp_all add: pg_aligned_def)
qed

section \<open>Two processes\<close>

text \<open>The tables of a process whose root page is \<open>b\<close>: one user page, readable and writable, at 0.\<close>

definition proc_tabs :: "memory \<Rightarrow> u64 \<Rightarrow> memory" where
  "proc_tabs m b =
     st64 (st64 (st64 m (b + of_nat (8 * 0)) (PA2PTE (b + 0x1000) OR PTE_V))
       (b + 0x1000 + of_nat (8 * 0)) (PA2PTE (b + 0x2000) OR PTE_V))
       (b + 0x2000 + of_nat (8 * 0)) (PA2PTE (b + 0x3000) OR (PTE_R OR PTE_W OR PTE_U) OR PTE_V)"

definition root1 :: u64 where "root1 = 0x80040000"
definition root2 :: u64 where "root2 = 0x80050000"

definition small_mem :: "nat \<Rightarrow> memory" where
  "small_mem n = proc_tabs (proc_tabs (link_pages (pool n)) root1) root2"

definition small_type :: "nat \<Rightarrow> u64 \<Rightarrow> pkind" where
  "small_type n p =
     (if p \<in> set (pool n) then PFree
      else if p = root1 then PTab root1 2 0 else if p = root1 + 0x1000 then PTab root1 1 0
      else if p = root1 + 0x2000 then PTab root1 0 0 else if p = root1 + 0x3000 then PData
      else if p = root2 then PTab root2 2 0 else if p = root2 + 0x1000 then PTab root2 1 0
      else if p = root2 + 0x2000 then PTab root2 0 0 else if p = root2 + 0x3000 then PData
      else PNone)"

definition small :: "nat \<Rightarrow> kmem" where
  "small n = \<lparr>mem = small_mem n, kend = 0x80030000, freelist = (case pool n of [] \<Rightarrow> 0 | p # _ \<Rightarrow> p),
     kmem_lock = \<lparr>locked = 0, lk_name = ''kmem'', lk_cpu = None\<rparr>,
     hart = \<lparr>hartid = 0, noff = 0, intena = 0, sie = True\<rparr>\<rparr>"

lemma proc_tabs_entry:
  assumes "pg_aligned b" and "unat b < 0x90000000" and "pg_aligned p" and "i < 512"
  shows "entry (proc_tabs m b) p i =
     (if p = b + 0x2000 \<and> i = 0 then PA2PTE (b + 0x3000) OR (PTE_R OR PTE_W OR PTE_U) OR PTE_V
      else if p = b + 0x1000 \<and> i = 0 then PA2PTE (b + 0x2000) OR PTE_V
      else if p = b \<and> i = 0 then PA2PTE (b + 0x1000) OR PTE_V else entry m p i)"
proof -
  have "unat (b + 0x1000) = unat b + 0x1000" "unat (b + 0x2000) = unat b + 0x2000"
    using assms(2) by (simp_all add: unat_add_nowrap)
  then have "pg_aligned (b + 0x1000)" "pg_aligned (b + 0x2000)"
    using assms(1) by (auto simp: pg_aligned_def)
  then show ?thesis
    using assms unfolding proc_tabs_def by (simp add: entry_st64 [where i = 0, simplified])
qed

lemma entry_zero: "(\<And>k. k < 8 \<Longrightarrow> m (p + of_nat (8 * i) + of_nat k) = 0) \<Longrightarrow> entry m p i = 0"
  unfolding entry_def by (rule bit_eqI) (simp add: bit_ld64)

lemma pool_entry:
  assumes "n \<le> 4096" and "pg_aligned p" and "p \<notin> set (pool n)" and "i < 512"
  shows "entry (link_pages (pool n)) p i = 0"
proof (rule entry_zero)
  fix k :: nat
  assume k: "k < 8"
  have "page_no (p + of_nat (8 * i + k)) = page_no p"
    using assms(2,4) k by (intro page_no_add) simp_all
  moreover have "page_no p \<notin> page_no ` set (pool n)"
    using pool_props(2) [OF assms(1)] assms(2,3) page_no_inj [of p] by auto
  ultimately show "link_pages (pool n) (p + of_nat (8 * i) + of_nat k) = 0"
    using pool_props(2) [OF assms(1)] by (intro link_pages_off) (simp_all add: add.assoc)
qed

lemma small_not_pool:
  assumes "n \<le> 4096"
  shows "unat p < 0x80100000 \<Longrightarrow> p \<notin> set (pool n)"
  using pool_props(3) [OF assms, of p] by auto

lemma small_roots:
  "pg_aligned root1" "pg_aligned root2" "unat root1 = 0x80040000" "unat root2 = 0x80050000"
  by (simp_all add: root1_def root2_def pg_aligned_def)

lemma small_entry:
  assumes "n \<le> 4096" and "pg_aligned p" and "p \<notin> set (pool n)" and "i < 512"
  shows "entry (small_mem n) p i =
    (if i \<noteq> 0 then 0
     else if p = root2 + 0x2000 then PA2PTE (root2 + 0x3000) OR (PTE_R OR PTE_W OR PTE_U) OR PTE_V
     else if p = root2 + 0x1000 then PA2PTE (root2 + 0x2000) OR PTE_V
     else if p = root2 then PA2PTE (root2 + 0x1000) OR PTE_V
     else if p = root1 + 0x2000 then PA2PTE (root1 + 0x3000) OR (PTE_R OR PTE_W OR PTE_U) OR PTE_V
     else if p = root1 + 0x1000 then PA2PTE (root1 + 0x2000) OR PTE_V
     else if p = root1 then PA2PTE (root1 + 0x1000) OR PTE_V else 0)"
  unfolding small_mem_def
  using assms small_roots pool_entry [OF assms] by (auto simp: proc_tabs_entry)

lemma small_kmem_inv:
  assumes "n \<le> 4096"
  shows "kmem_inv (small n) (pool n)"
proof -
  have off: "same_off_page p m (st64 m (p + of_nat (8 * 0)) v)" if "pg_aligned p" for p m v
    using st64_same_off_page [OF that, of 0] by simp
  have fl: "flist (proc_tabs m b) q (pool n)"
    if "flist m q (pool n)" "pg_aligned b" "unat b < 0x80050001" for m b q
  proof -
    have u: "unat (b + 0x1000) = unat b + 0x1000" "unat (b + 0x2000) = unat b + 0x2000"
      using that(3) by (simp_all add: unat_add_nowrap)
    then have al: "pg_aligned (b + 0x1000)" "pg_aligned (b + 0x2000)"
      using that(2) by (auto simp: pg_aligned_def)
    have np: "b \<notin> set (pool n)" "b + 0x1000 \<notin> set (pool n)" "b + 0x2000 \<notin> set (pool n)"
      using small_not_pool [OF assms] u that(3) by simp_all
    have ps: "\<forall>x\<in>set (pool n). pg_aligned x"
      using pool_props(2) [OF assms] by simp
    show ?thesis
      unfolding proc_tabs_def
      using flist_frame [OF flist_frame [OF flist_frame [OF that(1) off [OF that(2)] that(2) ps np(1)]
          off [OF al(1)] al(1) ps np(2)] off [OF al(2)] al(2) ps np(3)] .
  qed
  have "\<forall>p\<in>set (pool n). pg_aligned p \<and> p \<noteq> 0"
    using pool_props(2,3) [OF assms] by force
  then have "flist (small_mem n) (case pool n of [] \<Rightarrow> 0 | p # _ \<Rightarrow> p) (pool n)"
    unfolding small_mem_def
    using flist_link_pages [OF pool_props(1) [OF assms]] small_roots by (intro fl) simp_all
  moreover have "ram_page 0x80030000 p" if "p \<in> set (pool n)" for p
    using pool_props(2,3) [OF assms that] by (simp add: ram_page_def)
  ultimately show ?thesis
    using pool_props(1) [OF assms] by (simp add: kmem_inv_def small_def lk_free_def cpu_ok_def)
qed

lemma small_tab_cases:
  assumes "small_type n p = PTab r l x"
  shows "x = 0 \<and> r \<in> {root1, root2} \<and>
    (l = 2 \<and> p = r \<or> l = 1 \<and> p = r + 0x1000 \<or> l = 0 \<and> p = r + 0x2000)"
  using assms unfolding small_type_def by (auto split: if_splits)

lemma small_type_at:
  assumes "n \<le> 4096" and "b \<in> {root1, root2}"
  shows "small_type n b = PTab b 2 0" "small_type n (b + 0x1000) = PTab b 1 0"
    "small_type n (b + 0x2000) = PTab b 0 0" "small_type n (b + 0x3000) = PData"
  using assms(2) small_not_pool [OF assms(1)] unfolding small_type_def root1_def root2_def by auto

lemma small_aligned:
  assumes "b \<in> {root1, root2}"
  shows "pg_aligned b" "pg_aligned (b + 0x1000)" "pg_aligned (b + 0x2000)" "pg_aligned (b + 0x3000)"
  using assms unfolding root1_def root2_def by (auto simp: pg_aligned_def)

lemma small_entry_at:
  assumes "n \<le> 4096" and "b \<in> {root1, root2}" and "i < 512"
  shows "entry (small_mem n) b i = (if i = 0 then PA2PTE (b + 0x1000) OR PTE_V else 0)"
    "entry (small_mem n) (b + 0x1000) i = (if i = 0 then PA2PTE (b + 0x2000) OR PTE_V else 0)"
    "entry (small_mem n) (b + 0x2000) i =
       (if i = 0 then PA2PTE (b + 0x3000) OR (PTE_R OR PTE_W OR PTE_U) OR PTE_V else 0)"
proof -
  have np: "b \<notin> set (pool n)" "b + 0x1000 \<notin> set (pool n)" "b + 0x2000 \<notin> set (pool n)"
    using assms(2) small_not_pool [OF assms(1)] unfolding root1_def root2_def by auto
  show "entry (small_mem n) b i = (if i = 0 then PA2PTE (b + 0x1000) OR PTE_V else 0)"
    "entry (small_mem n) (b + 0x1000) i = (if i = 0 then PA2PTE (b + 0x2000) OR PTE_V else 0)"
    "entry (small_mem n) (b + 0x2000) i =
       (if i = 0 then PA2PTE (b + 0x3000) OR (PTE_R OR PTE_W OR PTE_U) OR PTE_V else 0)"
    using assms(2)
    unfolding small_entry [OF assms(1) small_aligned(1) [OF assms(2)] np(1) assms(3)]
      small_entry [OF assms(1) small_aligned(2) [OF assms(2)] np(2) assms(3)]
      small_entry [OF assms(1) small_aligned(3) [OF assms(2)] np(3) assms(3)]
    by (auto simp: root1_def root2_def)
qed

lemma user_flags [simp]:
  "(PTE_R OR PTE_W OR PTE_U) AND mask 10 = PTE_R OR PTE_W OR PTE_U"
  by (simp add: pte_flag_defs mask_eq_exp_minus_1)

lemma small_typed:
  assumes n: "n \<le> 4096"
  shows "tabs_typed (small_type n) (small_mem n)" and "leaves_typed (small_type n) (small_mem n)"
proof -
  show "tabs_typed (small_type n) (small_mem n)"
  proof (unfold tabs_typed_def, intro allI impI)
    fix p r l x i
    assume p: "small_type n p = PTab r (Suc l) x" and i: "i < 512" and v: "pte_valid (entry (small_mem n) p i)"
    have r: "r \<in> {root1, root2}"
      using small_tab_cases [OF p] by simp
    have "PTE2PA (PA2PTE q OR PTE_V) = q \<and> (PA2PTE q OR PTE_V) AND (PTE_R OR PTE_W OR PTE_X) = 0"
      if "pg_aligned q" for q
      using PTE2PA_PA2PTE [OF that PTE_V_flags] install_flags by simp
    then show "small_type n (PTE2PA (entry (small_mem n) p i)) = PTab r l (x * 512 + i) \<and>
        entry (small_mem n) p i AND (PTE_R OR PTE_W OR PTE_X) = 0"
      using small_tab_cases [OF p] v small_entry_at [OF n r i] small_type_at [OF n r] small_aligned [OF r]
      by (cases "i = 0") auto
  qed
  show "leaves_typed (small_type n) (small_mem n)"
  proof (unfold leaves_typed_def, intro allI impI)
    fix p r x i
    assume p: "small_type n p = PTab r 0 x" and i: "i < 512" and v: "pte_valid (entry (small_mem n) p i)"
    have r: "r \<in> {root1, root2}"
      using small_tab_cases [OF p] by simp
    show "small_type n (PTE2PA (entry (small_mem n) p i)) = PData"
      using small_tab_cases [OF p] v small_entry_at [OF n r i] small_type_at [OF n r]
        leaf_pte_facts(2) [OF small_aligned(4) [OF r] user_flags] by (cases "i = 0") auto
  qed
qed

lemma small_linked:
  assumes n: "n \<le> 4096"
  shows "tabs_linked (small_type n) (small_mem n) {root1, root2}"
  unfolding tabs_linked_def
proof (intro allI impI)
  fix p r l x
  assume p: "small_type n p = PTab r l x"
  have r: "r \<in> {root1, root2}"
    using small_tab_cases [OF p] by simp
  have pa: "PTE2PA (PA2PTE q OR PTE_V) = q" if "pg_aligned q" for q
    using PTE2PA_PA2PTE [OF that PTE_V_flags] .
  have "\<exists>q. small_type n q = PTab r (Suc l) 0 \<and> pte_valid (entry (small_mem n) q 0) \<and>
      PTE2PA (entry (small_mem n) q 0) = p" if l: "l < 2"
  proof -
    consider "l = 1" "p = r + 0x1000" | "l = 0" "p = r + 0x2000"
      using small_tab_cases [OF p] l by auto
    then show ?thesis
    proof cases
      case 1
      then show ?thesis
        using small_entry_at(1) [OF n r, of 0] small_type_at(1) [OF n r] small_aligned(2) [OF r] pa
        by (intro exI [of _ r]) (simp add: numeral_2_eq_2)
    next
      case 2
      then show ?thesis
        using small_entry_at(2) [OF n r, of 0] small_type_at(2) [OF n r] small_aligned(3) [OF r] pa
        by (intro exI [of _ "r + 0x1000"]) simp
    qed
  qed
  then show "r \<in> {root1, root2} \<and> l \<le> 2 \<and> (l = 2 \<longrightarrow> p = r) \<and>
      (l < 2 \<longrightarrow> (\<exists>q y i. small_type n q = PTab r (Suc l) y \<and> i < 512 \<and> (l = 1 \<longrightarrow> i < 256) \<and>
         x = y * 512 + i \<and> pte_valid (entry (small_mem n) q i) \<and> PTE2PA (entry (small_mem n) q i) = p))"
    using small_tab_cases [OF p] by force
qed

lemma small_inv:
  assumes n: "n \<le> 4096"
  shows "vm_inv (small_type n) (small n) (pool n) {root1, root2}"
proof -
  have "ram_page 0x80030000 p" if "small_type n p \<noteq> PNone" for p
  proof (cases "p \<in> set (pool n)")
    case True
    then show ?thesis
      using pool_props(2,3) [OF n True] by (simp add: ram_page_def)
  next
    case False
    then show ?thesis
      using that unfolding small_type_def root1_def root2_def
      by (auto simp: ram_page_def pg_aligned_def split: if_splits)
  qed
  moreover have "small_type n p = PFree \<longleftrightarrow> p \<in> set (pool n)" for p
    by (simp add: small_type_def)
  ultimately show ?thesis
    using small_kmem_inv [OF n] small_typed [OF n] small_linked [OF n] small_type_at(1) [OF n]
    unfolding vm_inv_def by (simp add: small_def)
qed

lemma small_pte_at:
  assumes n: "n \<le> 4096" and b: "b \<in> {root1, root2}" and va: "va < MAXVA"
  shows "pte_at (small_mem n) b va =
    (if page_no va = 0 then PA2PTE (b + 0x3000) OR (PTE_R OR PTE_W OR PTE_U) OR PTE_V else 0)"
proof -
  have pa: "PTE2PA (PA2PTE q OR PTE_V) = q" if "pg_aligned q" for q
    using PTE2PA_PA2PTE [OF that PTE_V_flags] .
  have "unat va < 2 ^ 39" "unat (0::u64) < 2 ^ 39"
    using va by (simp_all add: word_less_nat_alt)
  moreover have "PX l 0 = 0" for l
    by (simp add: PX_def)
  ultimately have "page_no va = 0 \<longleftrightarrow> unat (PX 2 va) = 0 \<and> unat (PX 1 va) = 0 \<and> unat (PX 0 va) = 0"
    using PX_page_no [of va 0] by (simp add: page_no_def unat_eq_0)
  then show ?thesis
    using small_entry_at [OF n b] small_aligned [OF b]
    by (auto simp: pte_at_def numeral_2_eq_2 Let_def pa)
qed

text \<open>The user page of each process: its translation, and that it is all zero.\<close>

lemma small_data_zero:
  assumes "n \<le> 4096" and "b \<in> {root1, root2}" and "i < 512"
  shows "entry (small_mem n) (b + 0x3000) i = 0"
proof -
  have "b + 0x3000 \<notin> set (pool n)"
    using assms(2) small_not_pool [OF assms(1)] unfolding root1_def root2_def by auto
  moreover have "pg_aligned (b + 0x3000)"
    using small_aligned(4) [OF assms(2)] .
  ultimately show ?thesis
    using assms pool_entry [OF assms(1)] proc_tabs_entry [of root2 "b + 0x3000" i] proc_tabs_entry [of root1 "b + 0x3000" i]
    unfolding small_mem_def root1_def root2_def by (auto simp: pg_aligned_def)
qed

lemma small_xlate:
  assumes "n \<le> 4096" and "b \<in> {root1, root2}" and "unat va < 4096"
  shows "xlate (small_mem n) b va = Some (b + 0x3000 + va)"
proof -
  have va: "va < MAXVA" "page_no va = 0"
    using assms(3) by (simp_all add: word_less_nat_alt page_no_def)
  have "PGROUNDDOWN va = 0"
    using va(2) by (intro u64_eqI) (simp add: unat_PGROUNDDOWN)
  then show ?thesis
    using small_pte_at [OF assms(1,2) va(1)] va leaf_pte_facts(1-3) [OF small_aligned(4) [OF assms(2)] user_flags]
    by (simp add: xlate_def user_pte_def pte_flag_defs)
qed

lemma small_k_user:
  assumes "n \<le> 4096" and "root \<in> {root1, root2}" and "unat va + k \<le> 4096"
  shows "user_ok (small_mem n) root va k"
  unfolding user_ok_def
proof (intro allI impI)
  fix i
  assume i: "i < k"
  have u: "unat (va + of_nat i) = unat va + i"
    using assms(3) i by (intro unat_add_of_nat) simp
  have lt: "va + of_nat i < MAXVA" and pg: "page_no (va + of_nat i) = 0"
    using assms(3) i by (simp_all add: word_less_nat_alt u page_no_def)
  show "xlate (small_mem n) root (va + of_nat i) \<noteq> None"
    using small_pte_at [OF assms(1,2) lt] lt pg leaf_pte_facts(1,3) [OF small_aligned(4) [OF assms(2)] user_flags]
    by (simp add: xlate_def user_pte_def pte_flag_defs)
qed

end
