(* ===== verification/Freewalk.thy ===== *)
theory Freewalk
  imports Small_machine
begin

text \<open>
  Giving an address space back: \<open>uvmunmap\<close> with freeing, \<open>freewalk\<close> and \<open>uvmfree\<close> under the typing of
  physical pages. Every page of the image and every page of the page table returns to the allocator, unless
  a page outside the image is still mapped: then \<open>freewalk\<close> panics.
\<close>

section \<open>Unmapping with freeing\<close>

text \<open>No other entry of any process points to the physical page of page \<open>v\<close>.\<close>

definition exclusive :: "u64 set \<Rightarrow> memory \<Rightarrow> u64 \<Rightarrow> nat \<Rightarrow> bool" where
  "exclusive roots m root v \<longleftrightarrow>
     (\<forall>rt\<in>roots. \<forall>w<NPAGES. pte_valid (pte_pg m rt w) \<longrightarrow> PTE2PA (pte_pg m rt w) = PTE2PA (pte_pg m root v) \<longrightarrow> rt = root \<and> w = v)"

lemma exclusiveD:
  "exclusive roots m root v \<Longrightarrow> rt \<in> roots \<Longrightarrow> w < NPAGES \<Longrightarrow> pte_valid (pte_pg m rt w) \<Longrightarrow>
   PTE2PA (pte_pg m rt w) = PTE2PA (pte_pg m root v) \<Longrightarrow> rt = root \<and> w = v"
  by (simp add: exclusive_def)

lemma kfree_st64_commute:
  assumes k: "kmem_inv s ps" and ram: "ram_page (kend s) p" and t: "pg_aligned t" "t \<noteq> p" "t \<notin> set ps" and i: "i < 512"
    and f: "kfree s p = Inr s1"
  shows "kfree (s\<lparr>mem := st64 (mem s) (t + of_nat (8 * i)) v\<rparr>) p = Inr (s1\<lparr>mem := st64 (mem s1) (t + of_nat (8 * i)) v\<rparr>)"
proof -
  let ?a = "t + of_nat (8 * i)" and ?s = "s\<lparr>mem := st64 (mem s) (t + of_nat (8 * i)) v\<rparr>"
  have k': "kmem_inv ?s ps"
    using kmem_inv_mem [OF k] st64_same_off_page [OF t(1) i] t by blast
  have al: "pg_aligned p"
    using ram by (simp add: ram_page_def)
  have apart: "\<not> unat (x - ?a) < 8" if "page_no x = page_no p" for x
  proof
    assume "unat (x - ?a) < 8"
    then have "x = t + of_nat (8 * i) + of_nat (unat (x - ?a))" "8 * i + unat (x - ?a) < 4096"
      using i by simp_all
    then have "page_no x = page_no t"
      using page_no_add [OF t(1), of "8 * i + unat (x - ?a)"] by (simp add: add.assoc)
    then show False
      using that page_no_inj [OF t(1) al] t(2) by simp
  qed
  have off: "page_no x = page_no p" if "unat (x - p) < 4096" for x
    using page_no_add [OF al that] by simp
  have eq: "st64 (memset (st64 m ?a v) p 1 4096) p q = st64 (st64 (memset m p 1 4096) p q) ?a v" for m q
  proof
    fix x
    show "st64 (memset (st64 m ?a v) p 1 4096) p q x = st64 (st64 (memset m p 1 4096) p q) ?a v x"
    proof (cases "page_no x = page_no p")
      case True
      then show ?thesis
        using apart [OF True] by (simp add: st64_def memset_eq)
    next
      case False
      then have "\<not> unat (x - p) < 4096" "\<not> unat (x - p) < 8"
        using off [of x] by linarith+
      then show ?thesis
        by (simp add: st64_def memset_eq)
    qed
  qed
  have "s1 = s\<lparr>hart := settle (hart s), freelist := p, mem := st64 (memset (mem s) p 1 4096) p (freelist s)\<rparr>"
    using f kfree_eq [OF k ram] by simp
  then show ?thesis
    using kfree_eq [OF k', of p] ram eq [simplified] by simp
qed

text \<open>The effect on the machine of freeing the physical pages \<open>F\<close> of an image whose pages \<open>v\<close> to \<open>v + n - 1\<close> of \<open>root\<close> are unmapped.\<close>

definition freed :: "(u64 \<Rightarrow> pkind) \<Rightarrow> u64 set \<Rightarrow> u64 \<Rightarrow> pkind" where
  "freed T F = (\<lambda>p. if p \<in> F then PFree else T p)"

definition unmapped :: "u64 set \<Rightarrow> memory \<Rightarrow> memory \<Rightarrow> u64 \<Rightarrow> nat \<Rightarrow> nat \<Rightarrow> bool" where
  "unmapped roots m m' root v n \<longleftrightarrow>
     (\<forall>rt\<in>roots. \<forall>w<NPAGES. pte_pg m' rt w = (if rt = root \<and> v \<le> w \<and> w < v + n then 0 else pte_pg m rt w))"

definition kept :: "'a kmem_scheme \<Rightarrow> 'a kmem_scheme \<Rightarrow> bool" where
  "kept s s' \<longleftrightarrow> kend s' = kend s \<and> kmem.more s' = kmem.more s \<and> kmem_lock s' = kmem_lock s \<and> settle (hart s') = settle (hart s)"

lemma kept_refl [simp]: "kept s s" "kept s (s\<lparr>mem := m\<rparr>)"
  by (simp_all add: kept_def)

lemma kept_trans: "kept s s' \<Longrightarrow> kept s' s'' \<Longrightarrow> kept s s''"
  by (simp add: kept_def)

lemma unmapped_0 [simp]: "unmapped roots m m root v 0"
  by (auto simp: unmapped_def)

lemma unmapped_Suc:
  "unmapped roots m m1 root v 1 \<Longrightarrow> unmapped roots m1 m2 root (Suc v) n \<Longrightarrow> unmapped roots m m2 root v (Suc n)"
  unfolding unmapped_def by (auto simp: le_eq_less_or_eq)

definition image_page :: "(u64 \<Rightarrow> pkind) \<Rightarrow> u64 set \<Rightarrow> memory \<Rightarrow> u64 \<Rightarrow> nat \<Rightarrow> bool" where
  "image_page T roots m root v \<longleftrightarrow>
     leaf_pte (pte_pg m root v) \<and> T (PTE2PA (pte_pg m root v)) = PData \<and> exclusive roots m root v"

lemma pgva_Suc: "pgva v + 4096 = pgva (Suc v)"
  by (simp add: pgva_def algebra_simps)

text \<open>One iteration of the loop: the page is freed, then its entry is cleared.\<close>

lemma unmap_free_page:
  assumes inv: "vm_inv T s ps roots" and r: "root \<in> roots" and v: "v < NPAGES" and im: "image_page T roots (mem s) root v"
    and stop: "unat stop > 4096 * v" and p: "p = PTE2PA (pte_pg (mem s) root v)"
  shows "\<exists>s'. uvmunmap_loop s root (pgva v) stop True = uvmunmap_loop s' root (pgva (Suc v)) stop True \<and>
    vm_inv (T(p := PFree)) s' (p # ps) roots \<and> unmapped roots (mem s) (mem s') root v 1 \<and> kept s s'"
proof -
  note a = pgva_props [OF v]
  have leaf: "leaf_pte (pte_at (mem s) root (pgva v))"
    using im by (simp add: image_page_def pte_pg_def)
  then have "pte_at (mem s) root (pgva v) \<noteq> 0"
    by (auto simp: leaf_pte_def)
  then obtain t0 x0 where t0: "walk s root (pgva v) False = Inr (s, t0 + 8 * PX 0 (pgva v))" "t0 + 8 * PX 0 (pgva v) \<noteq> 0"
      "T t0 = PTab root 0 x0" "descend (mem s) 2 root (pgva v) = Some t0"
    using walk_noalloc_cases [OF inv r a(4)] by blast
  let ?sl = "t0 + of_nat (8 * unat (PX 0 (pgva v)))"
  let ?s1 = "s\<lparr>mem := st64 (mem s) ?sl 0\<rparr>"
  have pT: "T p = PData" and k: "kmem_inv s ps" and tps: "t0 \<notin> set ps" and ne: "t0 \<noteq> p"
    using im t0(3) inv p unfolding image_page_def vm_inv_def by (auto dest: spec [of _ t0])
  have inv1: "vm_inv T ?s1 ps roots"
    using leaf_write_inv [OF inv t0(3) PX_bound, where v = 0] by simp
  have set1: "pte_at (mem ?s1) rt va = (if rt = root \<and> page_no va = v then 0 else pte_at (mem s) rt va)"
    if "rt \<in> roots" "va < MAXVA" for rt va
    using pte_at_leaf_write [OF inv r that(1) t0(4) a(4) that(2), of 0] a(2) by simp
  have pg1: "pte_pg (mem ?s1) rt w = (if rt = root \<and> w = v then 0 else pte_pg (mem s) rt w)" if "rt \<in> roots" "w < NPAGES" for rt w
    using set1 [OF that(1) pgva_props(4) [OF that(2)]] unfolding pte_pg_def pgva_props(2) [OF that(2)] .
  have un1: "unmapped roots (mem s) (mem ?s1) root v 1"
    unfolding unmapped_def using pg1 by simp
  have "unmapped_page roots (mem ?s1) p"
    unfolding unmapped_page_def
  proof (intro ballI allI impI)
    fix rt w
    assume rt: "rt \<in> roots" and w: "w < NPAGES" and u: "user_pte (pte_pg (mem ?s1) rt w)"
    then show "PTE2PA (pte_pg (mem ?s1) rt w) \<noteq> p"
      using im p unfolding pg1 [OF rt w] image_page_def exclusive_def by (auto simp: user_pte_def pte_valid_def split: if_splits)
  qed
  then obtain s2 where s2: "kfree ?s1 p = Inr s2" "vm_inv (T(p := PFree)) s2 (p # ps) roots" "pte_same roots (mem ?s1) (mem s2)"
    "kept ?s1 s2"
    using kfree_data [OF inv1 pT] unfolding kept_def by blast
  have ram: "ram_page (kend s) p"
    using vm_inv_ram [OF inv, of p] pT by simp
  obtain s3 where s3: "kfree s p = Inr s3"
    using kfree_eq [OF k ram] by blast
  have s2': "s2 = s3\<lparr>mem := st64 (mem s3) ?sl 0\<rparr>"
    using kfree_st64_commute [OF k ram _ ne tps PX_bound s3, of 0 "pgva v" 0] vm_inv_aligned [OF inv, of t0] t0(3) s2(1) by auto
  have "pgva v < stop"
    using stop a(1) by (simp add: word_less_nat_alt)
  then have step: "uvmunmap_loop s root (pgva v) stop True = uvmunmap_loop s2 root (pgva (Suc v)) stop True"
    using t0 leaf s3 p unfolding s2'
    by (subst uvmunmap_loop.simps) (simp add: ld64_leaf_slot leaf_pte_def pte_valid_def pgva_Suc pte_pg_def)
  have "pte_pg (mem s2) rt w = pte_pg (mem ?s1) rt w" if "rt \<in> roots" "w < NPAGES" for rt w
    using s2(3) that pgva_props(4) [OF that(2)] unfolding pte_same_def pte_pg_def by blast
  then have "unmapped roots (mem s) (mem s2) root v 1"
    using un1 unfolding unmapped_def by simp
  moreover have "kept s s2"
    using kept_trans [OF kept_refl(2) s2(4)] .
  ultimately show ?thesis
    using s2(2) step by blast
qed

lemma uvmunmap_loop_free:
  assumes "vm_inv T s ps roots" and "root \<in> roots" and "v + n \<le> NPAGES" and "\<forall>k<n. image_page T roots (mem s) root (v + k)"
    and "unat stop = 4096 * (v + n)"
  shows "\<exists>s' ps'. uvmunmap_loop s root (pgva v) stop True = Inr s' \<and>
    vm_inv (freed T ((\<lambda>k. PTE2PA (pte_pg (mem s) root (v + k))) ` {..<n})) s' ps' roots \<and>
    unmapped roots (mem s) (mem s') root v n \<and> kept s s'"
  using assms
proof (induction n arbitrary: T s ps v)
  case 0
  then have "\<not> pgva v < stop"
    using unat_pgva [of v] by (simp add: word_less_nat_alt)
  moreover have "freed T {} = T"
    by (simp add: freed_def)
  ultimately show ?case
    using 0 by (auto simp: uvmunmap_loop.simps)
next
  case (Suc n)
  let ?p = "PTE2PA (pte_pg (mem s) root v)" and ?f = "\<lambda>m v k. PTE2PA (pte_pg m root (v + k))"
  have v: "v < NPAGES" and im: "image_page T roots (mem s) root v"
    using Suc.prems(3,4) by auto
  obtain s1 where s1: "uvmunmap_loop s root (pgva v) stop True = uvmunmap_loop s1 root (pgva (Suc v)) stop True"
    "vm_inv (T(?p := PFree)) s1 (?p # ps) roots" "unmapped roots (mem s) (mem s1) root v 1" "kept s s1"
    using unmap_free_page [OF Suc.prems(1,2) v im _ refl, of stop] Suc.prems(5) by auto
  have same: "pte_pg (mem s1) root (Suc v + k) = pte_pg (mem s) root (v + Suc k)" if "k < n" for k
    using s1(3) Suc.prems(2,3) that unfolding unmapped_def by auto
  have ims: "image_page (T(?p := PFree)) roots (mem s1) root (Suc v + k)" if k: "k < n" for k
  proof -
    have imk: "image_page T roots (mem s) root (v + Suc k)"
      using Suc.prems(4) k by blast
    then have "?p \<noteq> PTE2PA (pte_pg (mem s) root (v + Suc k))"
      using exclusiveD [of roots "mem s" root "v + Suc k" root v] im Suc.prems(2) v unfolding image_page_def leaf_pte_def by auto
    moreover have "exclusive roots (mem s1) root (Suc v + k)"
      unfolding exclusive_def same [OF k]
    proof (intro ballI allI impI)
      fix rt w
      assume "rt \<in> roots" "w < NPAGES" "pte_valid (pte_pg (mem s1) rt w)"
        "PTE2PA (pte_pg (mem s1) rt w) = PTE2PA (pte_pg (mem s) root (v + Suc k))"
      moreover have "pte_pg (mem s1) rt w = pte_pg (mem s) rt w \<or> pte_pg (mem s1) rt w = 0"
        using s1(3) \<open>rt \<in> roots\<close> \<open>w < NPAGES\<close> unfolding unmapped_def by simp
      ultimately show "rt = root \<and> w = Suc v + k"
        using exclusiveD [of roots "mem s" root "v + Suc k" rt w] imk unfolding image_page_def by auto
    qed
    ultimately show ?thesis
      using imk unfolding image_page_def same [OF k] by simp
  qed
  have "Suc v + n \<le> NPAGES" "\<forall>k<n. image_page (T(?p := PFree)) roots (mem s1) root (Suc v + k)" "unat stop = 4096 * (Suc v + n)"
    using Suc.prems(3,5) ims by simp_all
  note IH = Suc.IH [OF s1(2) Suc.prems(2) this]
  obtain s' ps' where s': "uvmunmap_loop s1 root (pgva (Suc v)) stop True = Inr s'"
    "vm_inv (freed (T(?p := PFree)) (?f (mem s1) (Suc v) ` {..<n})) s' ps' roots"
    "unmapped roots (mem s1) (mem s') root (Suc v) n" "kept s1 s'"
    using IH by blast
  have "?f (mem s1) (Suc v) ` {..<n} = (\<lambda>k. ?f (mem s) v (Suc k)) ` {..<n}"
    using same by (intro image_cong) simp_all
  then have "freed (T(?p := PFree)) (?f (mem s1) (Suc v) ` {..<n}) = freed T (?f (mem s) v ` {..<Suc n})"
    unfolding freed_def lessThan_Suc_eq_insert_0 by (auto simp: image_image)
  then show ?case
    using s1 s' unmapped_Suc [OF s1(3) s'(3)] kept_trans [OF s1(4) s'(4)] by auto
qed

section \<open>The pages of a page table\<close>

text \<open>The tables of the tree of \<open>r\<close> below and including the one of level \<open>l\<close> with prefix \<open>x\<close>.\<close>

definition subtab :: "(u64 \<Rightarrow> pkind) \<Rightarrow> u64 \<Rightarrow> nat \<Rightarrow> nat \<Rightarrow> u64 set" where
  "subtab T r l x = {q. \<exists>l' x'. T q = PTab r l' x' \<and> l' \<le> l \<and> x' div 512 ^ (l - l') = x}"

text \<open>Some leaf entry below it is still in use.\<close>

definition leafy :: "(u64 \<Rightarrow> pkind) \<Rightarrow> memory \<Rightarrow> u64 \<Rightarrow> nat \<Rightarrow> nat \<Rightarrow> bool" where
  "leafy T m r l x \<longleftrightarrow> (\<exists>q\<in>subtab T r l x. (\<exists>y. T q = PTab r 0 y) \<and> (\<exists>i<512. pte_valid (entry m q i)))"

lemma tab_unique:
  assumes lk: "tabs_linked T m roots" and "T p = PTab r l x" and "T p' = PTab r l x"
  shows "p = p'"
  using assms(2,3)
proof (induction "2 - l" arbitrary: l x p p')
  case 0
  then have "l = 2"
    using tabs_linkedD(2) [OF lk, of p] by simp
  then show ?case
    using tabs_linkedD(3) [OF lk] 0 by metis
next
  case (Suc n)
  then have l: "l < 2" by simp
  obtain q y i where q: "T q = PTab r (Suc l) y" "i < 512" "x = y * 512 + i" "PTE2PA (entry m q i) = p"
    using tabs_linkedD(4) [OF lk Suc.prems(1) l] by blast
  obtain q' y' i' where q': "T q' = PTab r (Suc l) y'" "i' < 512" "x = y' * 512 + i'" "PTE2PA (entry m q' i') = p'"
    using tabs_linkedD(4) [OF lk Suc.prems(2) l] by blast
  have "y = y'"
    using q(2,3) q'(2,3) by linarith
  moreover from this have "i = i'"
    using q(3) q'(3) by simp
  ultimately show ?case
    using Suc.hyps(1) [of "Suc l" q y q'] Suc.hyps(2) q q' by simp
qed

lemma tab_ancestor:
  assumes lk: "tabs_linked T m roots" and "T q = PTab r l' x'" and "l' \<le> l" and "l \<le> 2"
  shows "\<exists>a. T a = PTab r l (x' div 512 ^ (l - l'))"
  using assms(3,4,2)
proof (induction "l - l'" arbitrary: l' x' q)
  case (Suc n)
  then have "l' < 2" by simp
  then obtain q1 y i where q1: "T q1 = PTab r (Suc l') y" "i < 512" "x' = y * 512 + i"
    using tabs_linkedD(4) [OF lk Suc.prems(3)] by blast
  have "n = l - Suc l'" "Suc l' \<le> l"
    using Suc.hyps(2) by simp_all
  then obtain a where "T a = PTab r l (y div 512 ^ (l - Suc l'))"
    using Suc.hyps(1) [of "Suc l'" q1 y] Suc.prems(2) q1(1) by blast
  moreover have "x' div 512 ^ (l - l') = y div 512 ^ (l - Suc l')"
  proof -
    have "x' div 512 = y" "l - l' = Suc (l - Suc l')"
      using q1(2,3) Suc.hyps(2) by simp_all
    then show ?thesis
      by (simp add: div_mult2_eq)
  qed
  ultimately show ?case by auto
qed auto

lemma subtab_0:
  assumes lk: "tabs_linked T m roots" and p: "T p = PTab r 0 x"
  shows "subtab T r 0 x = {p}"
proof -
  have "subtab T r 0 x = {q. T q = PTab r 0 x}"
    by (simp add: subtab_def)
  then show ?thesis
    using tab_unique [OF lk p] p by blast
qed

lemma subtab_Suc:
  assumes lk: "tabs_linked T m roots" and p: "T p = PTab r (Suc l) x" and l: "l < 2"
  shows "subtab T r (Suc l) x = insert p (\<Union>i\<in>{i. i < 512 \<and> pte_valid (entry m p i)}. subtab T r l (x * 512 + i))"
    (is "_ = insert p ?U")
proof
  show "insert p ?U \<subseteq> subtab T r (Suc l) x"
  proof (rule insert_subsetI)
    show "p \<in> subtab T r (Suc l) x"
      using p unfolding subtab_def by auto
    show "?U \<subseteq> subtab T r (Suc l) x"
    proof
      fix q
      assume "q \<in> ?U"
      then obtain i l' x' where i: "i < 512" and q: "T q = PTab r l' x'" and l': "l' \<le> l"
        and z: "x' div 512 ^ (l - l') = x * 512 + i"
        unfolding subtab_def by blast
      have "x' div 512 ^ (Suc l - l') = x' div 512 ^ (l - l') div 512"
        using l' by (simp add: Suc_diff_le div_mult2_eq [symmetric] mult.commute)
      then have "x' div 512 ^ (Suc l - l') = x"
        using i z by simp
      then show "q \<in> subtab T r (Suc l) x"
        using q l' unfolding subtab_def by (metis (mono_tags, lifting) le_SucI mem_Collect_eq)
    qed
  qed
  show "subtab T r (Suc l) x \<subseteq> insert p ?U"
  proof
    fix q
    assume "q \<in> subtab T r (Suc l) x"
    then obtain l' x' where q: "T q = PTab r l' x'" "l' \<le> Suc l" "x' div 512 ^ (Suc l - l') = x"
      unfolding subtab_def by blast
    show "q \<in> insert p ?U"
    proof (cases "l' = Suc l")
      case True
      then show ?thesis
        using tab_unique [OF lk p, of q] q by simp
    next
      case False
      let ?z = "x' div 512 ^ (l - l')"
      have l': "l' \<le> l" and zx: "?z div 512 = x"
        using False q(2,3) by (simp_all add: Suc_diff_le div_mult2_eq [symmetric] mult.commute)
      obtain a where a: "T a = PTab r l ?z"
        using tab_ancestor [OF lk q(1) l'] l by auto
      obtain q1 y i where q1: "T q1 = PTab r (Suc l) y" "i < 512" "?z = y * 512 + i" "pte_valid (entry m q1 i)"
        using tabs_linkedD(4) [OF lk a l] by blast
      then have "y = x"
        using zx by simp
      then have "q1 = p"
        using tab_unique [OF lk p, of q1] q1(1) by simp
      then have "q \<in> subtab T r l (x * 512 + i)" "i < 512" "pte_valid (entry m p i)"
        using q(1) l' q1 \<open>y = x\<close> unfolding subtab_def by auto
      then show ?thesis by blast
    qed
  qed
qed

lemma leafy_Suc:
  assumes lk: "tabs_linked T m roots" and p: "T p = PTab r (Suc l) x" and l: "l < 2"
  shows "leafy T m r (Suc l) x \<longleftrightarrow> (\<exists>i<512. pte_valid (entry m p i) \<and> leafy T m r l (x * 512 + i))"
  unfolding leafy_def subtab_Suc [OF assms] using p by auto

lemma leafy_0:
  assumes "tabs_linked T m roots" and "T p = PTab r 0 x"
  shows "leafy T m r 0 x \<longleftrightarrow> (\<exists>i<512. pte_valid (entry m p i))"
  unfolding leafy_def subtab_0 [OF assms] using assms(2) by auto

lemma subtab_disjoint: "i < 512 \<Longrightarrow> j < 512 \<Longrightarrow> i \<noteq> j \<Longrightarrow> subtab T r l (x * 512 + i) \<inter> subtab T r l (x * 512 + j) = {}"
  unfolding subtab_def by auto

section \<open>Freeing the tables\<close>

definition same_off :: "u64 set \<Rightarrow> memory \<Rightarrow> memory \<Rightarrow> bool" where
  "same_off P m m' \<longleftrightarrow> (\<forall>y. page_no y \<notin> page_no ` P \<longrightarrow> m' y = m y)"

lemma same_off_refl [simp]: "same_off P m m"
  by (simp add: same_off_def)

lemma same_off_trans: "same_off P m m1 \<Longrightarrow> same_off Q m1 m2 \<Longrightarrow> same_off (P \<union> Q) m m2"
  unfolding same_off_def image_Un by simp

lemma same_off_mono: "same_off P m m' \<Longrightarrow> P \<subseteq> Q \<Longrightarrow> same_off Q m m'"
  unfolding same_off_def by blast

lemma same_off_page_off: "same_off_page p m m' \<Longrightarrow> same_off {p} m m'"
  by (simp add: same_off_page_def same_off_def)

lemma same_off_entry:
  assumes "same_off P m m'" and "pg_aligned q" and "page_no q \<notin> page_no ` P" and "i < 512"
  shows "entry m' q i = entry m q i"
  unfolding entry_def
proof (rule ld64_cong)
  fix j :: nat
  assume "j < 8"
  then have "page_no (q + of_nat (8 * i) + of_nat j) = page_no q"
    using page_no_add [OF assms(2), of "8 * i + j"] assms(4) by (simp add: add.assoc)
  then show "m' (q + of_nat (8 * i) + of_nat j) = m (q + of_nat (8 * i) + of_nat j)"
    using assms(1,3) unfolding same_off_def by simp
qed

definition fw_pre :: "(u64 \<Rightarrow> pkind) \<Rightarrow> memory \<Rightarrow> u64 set \<Rightarrow> 'a kmem_scheme \<Rightarrow> u64 list \<Rightarrow> bool" where
  "fw_pre T m0 P s ps \<longleftrightarrow> kmem_inv s ps \<and>
     (\<forall>q\<in>P. q \<notin> set ps \<and> ram_page (kend s) q \<and> (\<forall>i<512. entry (mem s) q i = entry m0 q i))"

definition fw_post :: "u64 set \<Rightarrow> 'a kmem_scheme \<Rightarrow> u64 list \<Rightarrow> 'a kmem_scheme \<Rightarrow> u64 list \<Rightarrow> bool" where
  "fw_post P s ps s' ps' \<longleftrightarrow> kmem_inv s' ps' \<and> set ps' = set ps \<union> P \<and> kept s s' \<and> same_off P (mem s) (mem s')"

lemma fw_pre_after:
  assumes "fw_pre T m0 P s ps" and "kmem_inv s' ps'" and "set ps' = set ps \<union> Q" and "kept s s'"
    and "same_off (insert p Q) (mem s) (mem s')" and "P \<inter> insert p Q = {}" and "\<forall>q\<in>insert p Q. pg_aligned q"
  shows "fw_pre T m0 P s' ps'"
  unfolding fw_pre_def
proof (intro conjI ballI allI impI)
  fix q
  assume q: "q \<in> P"
  then have al: "pg_aligned q" and ram: "ram_page (kend s) q"
    using assms(1) by (auto simp: fw_pre_def ram_page_def)
  show "q \<notin> set ps'" "ram_page (kend s') q"
    using assms q ram unfolding fw_pre_def kept_def by auto
  have "page_no q \<notin> page_no ` insert p Q"
    using page_no_inj [OF al] assms(6,7) q by fastforce
  then show "entry (mem s') q i = entry m0 q i" if "i < 512" for i
    using same_off_entry [OF assms(5) al _ that] assms(1) q that unfolding fw_pre_def by simp
qed (fact assms(2))

definition fw_spec ::
    "('a kmem_scheme \<Rightarrow> u64 \<Rightarrow> fault + 'a kmem_scheme) \<Rightarrow> (u64 \<Rightarrow> pkind) \<Rightarrow> memory \<Rightarrow> u64 \<Rightarrow> u64 set \<Rightarrow> bool \<Rightarrow> bool" where
  "fw_spec f T m0 q P lf \<longleftrightarrow> (\<forall>s ps. fw_pre T m0 P s ps \<longrightarrow>
     (if lf then f s q = Inl (Panic ''freewalk: leaf'') else \<exists>s' ps'. f s q = Inr s' \<and> fw_post P s ps s' ps'))"

lemma fw_specD:
  "fw_spec f T m0 q P lf \<Longrightarrow> fw_pre T m0 P s ps \<Longrightarrow> lf \<Longrightarrow> f s q = Inl (Panic ''freewalk: leaf'')"
  "fw_spec f T m0 q P lf \<Longrightarrow> fw_pre T m0 P s ps \<Longrightarrow> \<not> lf \<Longrightarrow> \<exists>s' ps'. f s q = Inr s' \<and> fw_post P s ps s' ps'"
  unfolding fw_spec_def by (auto split: if_splits)

text \<open>The slots with a child among the last \<open>k\<close>.\<close>

definition live :: "memory \<Rightarrow> u64 \<Rightarrow> nat \<Rightarrow> nat set" where
  "live m p k = {i. 512 - k \<le> i \<and> i < 512 \<and> pte_valid (entry m p i)}"

lemma freewalk_loop_spec:
  fixes C :: "nat \<Rightarrow> u64 set" and rec :: "'a kmem_scheme \<Rightarrow> u64 \<Rightarrow> fault + 'a kmem_scheme"
  assumes rec: "\<And>i. i < 512 \<Longrightarrow> pte_valid (entry m0 p i) \<Longrightarrow> fw_spec rec T m0 (PTE2PA (entry m0 p i)) (C i) (lf i)"
    and flags: "\<And>i. i < 512 \<Longrightarrow> pte_valid (entry m0 p i) \<Longrightarrow> entry m0 p i AND (PTE_R OR PTE_W OR PTE_X) = 0"
    and al: "pg_aligned p" "\<And>i q. q \<in> C i \<Longrightarrow> pg_aligned q"
    and disj: "\<And>i j. i < 512 \<Longrightarrow> j < 512 \<Longrightarrow> i \<noteq> j \<Longrightarrow> C i \<inter> C j = {}" "\<And>i. p \<notin> C i"
    and "k \<le> 512" and "kmem_inv s ps" and "p \<notin> set ps"
    and "\<And>i. 512 - k \<le> i \<Longrightarrow> i < 512 \<Longrightarrow> entry (mem s) p i = entry m0 p i"
    and "\<And>i. 512 - k \<le> i \<Longrightarrow> i < 512 \<Longrightarrow> pte_valid (entry m0 p i) \<Longrightarrow> fw_pre T m0 (C i) s ps"
  shows "if \<exists>i\<in>live m0 p k. lf i then freewalk_loop rec k s p = Inl (Panic ''freewalk: leaf'')
    else \<exists>s' ps'. freewalk_loop rec k s p = Inr s' \<and> kmem_inv s' ps' \<and> set ps' = set ps \<union> \<Union> (C ` live m0 p k) \<and> kept s s' \<and>
      same_off (insert p (\<Union> (C ` live m0 p k))) (mem s) (mem s')"
  using assms(7-11)
proof (induction k arbitrary: s ps)
  case 0
  have "live m0 p 0 = {}" by (auto simp: live_def)
  then show ?case using 0 by auto
next
  case (Suc k)
  let ?i = "512 - Suc k"
  let ?e = "entry m0 p ?i"
  have i: "?i < 512" and Jk: "live m0 p (Suc k) = (if pte_valid ?e then insert ?i (live m0 p k) else live m0 p k)"
    using Suc.prems(1) unfolding live_def by (auto simp: le_eq_less_or_eq Suc_diff_Suc)
  have e: "ld64 (mem s) (p + of_nat (8 * ?i)) = ?e"
    using Suc.prems(4) [of ?i] i by (simp add: entry_def)
  show ?case
  proof (cases "pte_valid ?e")
    case False
    then have "freewalk_loop rec (Suc k) s p = freewalk_loop rec k s p"
      using e by (simp add: Let_def pte_valid_def del: of_nat_mult of_nat_diff)
    then show ?thesis
      using Suc.IH [of s ps] Suc.prems False unfolding Jk by auto
  next
    case True
    have pre: "fw_pre T m0 (C ?i) s ps"
      using Suc.prems(5) [of ?i] i True by simp
    have step: "freewalk_loop rec (Suc k) s p = bindr (rec s (PTE2PA ?e)) (\<lambda>s1.
        freewalk_loop rec k (s1\<lparr>mem := st64 (mem s1) (p + of_nat (8 * ?i)) 0\<rparr>) p)"
      using e True flags [OF i True] by (simp add: Let_def pte_valid_def del: of_nat_mult of_nat_diff)
    show ?thesis
    proof (cases "lf ?i")
      case True
      then have "rec s (PTE2PA ?e) = Inl (Panic ''freewalk: leaf'')"
        using fw_specD(1) [OF rec [OF i \<open>pte_valid ?e\<close>] pre] by simp
      then show ?thesis
        using step True \<open>pte_valid ?e\<close> unfolding Jk by auto
    next
      case False
      then obtain s1 ps1 where s1: "rec s (PTE2PA ?e) = Inr s1" "fw_post (C ?i) s ps s1 ps1"
        using fw_specD(2) [OF rec [OF i \<open>pte_valid ?e\<close>] pre] by blast
      let ?s2 = "s1\<lparr>mem := st64 (mem s1) (p + of_nat (8 * ?i)) 0\<rparr>"
      have sp: "same_off_page p (mem s1) (mem ?s2)"
        using st64_same_off_page [OF al(1) i] by simp
      have p1: "p \<notin> set ps1" and k1: "kmem_inv s1 ps1" and set1: "set ps1 = set ps \<union> C ?i" and kept1: "kept s s1"
        and off1: "same_off (C ?i) (mem s) (mem s1)"
        using s1(2) Suc.prems(3) disj(2) unfolding fw_post_def by auto
      have k2: "kmem_inv ?s2 ps1"
        using kmem_inv_mem [OF k1] sp al(1) p1 by simp
      have off2: "same_off (insert p (C ?i)) (mem s) (mem ?s2)"
        using same_off_trans [OF off1 same_off_page_off [OF sp]] by simp
      have kept2: "kept s ?s2"
        using kept_trans [OF kept1 kept_refl(2)] .
      have pre2: "fw_pre T m0 (C j) ?s2 ps1" if "512 - k \<le> j" "j < 512" "pte_valid (entry m0 p j)" for j
      proof (rule fw_pre_after [OF _ k2 set1 kept2 off2])
        show "fw_pre T m0 (C j) s ps"
          using Suc.prems(5) [of j] that by simp
        show "C j \<inter> insert p (C ?i) = {}"
          using disj(1) [of j ?i] disj(2) that Suc.prems(1) by auto
      qed (use al in auto)
      have ent2: "entry (mem ?s2) p j = entry m0 p j" if "512 - k \<le> j" "j < 512" for j
      proof -
        have "page_no p \<notin> page_no ` C ?i"
          using page_no_inj [OF al(1) al(2)] disj(2) by fastforce
        then have "entry (mem s1) p j = entry m0 p j"
          using same_off_entry [OF off1 al(1) _ that(2)] Suc.prems(4) [of j] that by simp
        then show ?thesis
          using entry_st64 [OF al(1) al(1) i that(2), of "mem s1" 0] that Suc.prems(1) by auto
      qed
      have kk: "k \<le> 512"
        using Suc.prems(1) by simp
      have "if \<exists>i\<in>live m0 p k. lf i then freewalk_loop rec k ?s2 p = Inl (Panic ''freewalk: leaf'')
        else \<exists>s' ps'. freewalk_loop rec k ?s2 p = Inr s' \<and> kmem_inv s' ps' \<and> set ps' = set ps1 \<union> \<Union> (C ` live m0 p k) \<and> kept ?s2 s' \<and>
          same_off (insert p (\<Union> (C ` live m0 p k))) (mem ?s2) (mem s')"
        by (rule Suc.IH [OF kk k2 p1 ent2 pre2])
      moreover have "freewalk_loop rec (Suc k) s p = freewalk_loop rec k ?s2 p"
        using step s1(1) by simp
      moreover have "(\<exists>i\<in>live m0 p (Suc k). lf i) \<longleftrightarrow> (\<exists>i\<in>live m0 p k. lf i)" "\<Union> (C ` live m0 p (Suc k)) = C ?i \<union> \<Union> (C ` live m0 p k)"
        using False \<open>pte_valid ?e\<close> unfolding Jk by auto
      moreover have "same_off (insert p (C ?i \<union> \<Union> (C ` live m0 p k))) (mem s) (mem s')"
        if "same_off (insert p (\<Union> (C ` live m0 p k))) (mem ?s2) (mem s')" for s' :: "'a kmem_scheme"
        using same_off_mono [OF same_off_trans [OF off2 that]] by auto
      ultimately show ?thesis
        using set1 kept_trans [OF kept2] by (simp only: split: if_splits) (metis (no_types, lifting) sup_assoc)+
    qed
  qed
qed

lemma freewalk_loop_leaf:
  assumes "\<And>i. i < 512 \<Longrightarrow> pte_valid (entry (mem s) p i) \<Longrightarrow> entry (mem s) p i AND (PTE_R OR PTE_W OR PTE_X) \<noteq> 0" and "k \<le> 512"
  shows "freewalk_loop rec k s p = (if live (mem s) p k \<noteq> {} then Inl (Panic ''freewalk: leaf'') else Inr s)"
  using assms(2)
proof (induction k)
  case (Suc k)
  let ?i = "512 - Suc k"
  have "live (mem s) p (Suc k) = (if pte_valid (entry (mem s) p ?i) then insert ?i (live (mem s) p k) else live (mem s) p k)"
    using Suc.prems unfolding live_def by (auto simp: le_eq_less_or_eq Suc_diff_Suc)
  then show ?case
    using Suc assms(1) [of ?i] unfolding freewalk_loop.simps Let_def
    by (auto simp: entry_def pte_valid_def simp del: of_nat_mult of_nat_diff)
qed (simp add: live_def)

lemma freewalk_free_table:
  assumes k: "kmem_inv s1 ps1" and p: "ram_page (kend s) p" "p \<notin> set ps1" and set1: "set ps1 = set ps \<union> Q" and kept1: "kept s s1"
    and off: "same_off (insert p Q) (mem s) (mem s1)"
  shows "\<exists>s' ps'. kfree s1 p = Inr s' \<and> fw_post (insert p Q) s ps s' ps'"
proof -
  have ram: "ram_page (kend s1) p" and al: "pg_aligned p"
    using p kept1 by (simp_all add: kept_def ram_page_def)
  let ?s' = "s1\<lparr>hart := settle (hart s1), freelist := p, mem := st64 (memset (mem s1) p 1 4096) p (freelist s1)\<rparr>"
  have "same_off {p} (mem s1) (mem ?s')"
    using same_off_page_trans [OF memset_same_off_page [OF al] st64_page_same_off_page [OF al]]
    by (simp add: same_off_page_off)
  from same_off_trans [OF off this] have "same_off (insert p Q) (mem s) (mem ?s')"
    by simp
  moreover have "kept s ?s'"
    using kept1 by (simp add: kept_def)
  moreover have "kmem_inv ?s' (p # ps1)"
    using kmem_inv_kfree [OF k ram p(2) refl] .
  ultimately have "fw_post (insert p Q) s ps ?s' (p # ps1)"
    using set1 by (simp add: fw_post_def)
  then show ?thesis
    using kfree_eq [OF k ram] by blast
qed

lemma freewalk_spec:
  assumes ty: "tabs_typed T m0" and lk: "tabs_linked T m0 roots"
    and rwx: "\<And>q y i. T q = PTab r 0 y \<Longrightarrow> i < 512 \<Longrightarrow> pte_valid (entry m0 q i) \<Longrightarrow> entry m0 q i AND (PTE_R OR PTE_W OR PTE_X) \<noteq> 0"
    and al: "\<And>q. T q \<noteq> PNone \<Longrightarrow> pg_aligned q" and p: "T p = PTab r l x" and l: "l \<le> 2"
  shows "fw_spec (freewalk (Suc l) :: 'a kmem_scheme \<Rightarrow> _) T m0 p (subtab T r l x) (leafy T m0 r l x)"
  using p l
proof (induction l arbitrary: p x)
  case 0
  note sub = subtab_0 [OF lk 0(1)]
  show ?case
    unfolding fw_spec_def sub leafy_0 [OF lk 0(1)]
  proof (intro allI impI)
    fix s :: "'a kmem_scheme" and ps
    assume pre: "fw_pre T m0 {p} s ps"
    then have e: "entry (mem s) p i = entry m0 p i" if "i < 512" for i
      using that by (simp add: fw_pre_def)
    have "freewalk_loop (freewalk 0) 512 s p = (if live (mem s) p 512 \<noteq> {} then Inl (Panic ''freewalk: leaf'') else Inr s)"
      by (rule freewalk_loop_leaf) (use e rwx [OF 0(1)] in simp_all)
    moreover have "live (mem s) p 512 \<noteq> {} \<longleftrightarrow> (\<exists>i<512. pte_valid (entry m0 p i))"
      using e by (auto simp: live_def)
    moreover have "\<exists>s' ps'. kfree s p = Inr s' \<and> fw_post {p} s ps s' ps'"
      using freewalk_free_table [of s ps s p ps "{}"] pre by (simp add: fw_pre_def)
    ultimately show "if \<exists>i<512. pte_valid (entry m0 p i) then freewalk (Suc 0) s p = Inl (Panic ''freewalk: leaf'')
       else \<exists>s' ps'. freewalk (Suc 0) s p = Inr s' \<and> fw_post {p} s ps s' ps'"
      by simp
  qed
next
  case (Suc l)
  let ?C = "\<lambda>i. subtab T r l (x * 512 + i)" and ?lf = "\<lambda>i. leafy T m0 r l (x * 512 + i)"
  let ?U = "\<Union> (?C ` live m0 p 512)"
  have l: "l < 2" using Suc.prems(2) by simp
  note child = tabs_typedD [OF ty Suc.prems(1)]
  have live: "live m0 p 512 = {i. i < 512 \<and> pte_valid (entry m0 p i)}"
    by (auto simp: live_def)
  have sub: "subtab T r (Suc l) x = insert p ?U"
    unfolding subtab_Suc [OF lk Suc.prems(1) l] live ..
  have leafy: "leafy T m0 r (Suc l) x \<longleftrightarrow> (\<exists>i\<in>live m0 p 512. ?lf i)"
    unfolding leafy_Suc [OF lk Suc.prems(1) l] live by blast
  have pC: "p \<notin> ?C i" for i
    using Suc.prems(1) unfolding subtab_def by auto
  have alC: "pg_aligned q" if "q \<in> ?C i" for q i
    using that al unfolding subtab_def by auto
  have alp: "pg_aligned p" using al [of p] Suc.prems(1) by simp
  have flags: "entry m0 p i AND (PTE_R OR PTE_W OR PTE_X) = 0" if "i < 512" "pte_valid (entry m0 p i)" for i
    using ty Suc.prems(1) that unfolding tabs_typed_def by blast
  have rec: "fw_spec (freewalk (Suc l) :: 'a kmem_scheme \<Rightarrow> _) T m0 (PTE2PA (entry m0 p i)) (?C i) (?lf i)" if "i < 512" "pte_valid (entry m0 p i)" for i
    by (rule Suc.IH [OF child [OF that]]) (use l in simp)
  show ?case
    unfolding fw_spec_def sub leafy
  proof (intro allI impI)
    fix s :: "'a kmem_scheme" and ps
    assume pre: "fw_pre T m0 (insert p ?U) s ps"
    then have k: "kmem_inv s ps" and pps: "p \<notin> set ps" and ram: "ram_page (kend s) p"
      and ent: "\<And>i. i < 512 \<Longrightarrow> entry (mem s) p i = entry m0 p i"
      and preC: "\<And>i. i < 512 \<Longrightarrow> pte_valid (entry m0 p i) \<Longrightarrow> fw_pre T m0 (?C i) s ps"
      unfolding fw_pre_def live by auto
    have loop: "if \<exists>i\<in>live m0 p 512. ?lf i then freewalk_loop (freewalk (Suc l)) 512 s p = Inl (Panic ''freewalk: leaf'')
      else \<exists>s' ps'. freewalk_loop (freewalk (Suc l)) 512 s p = Inr s' \<and> kmem_inv s' ps' \<and> set ps' = set ps \<union> ?U \<and> kept s s' \<and>
        same_off (insert p ?U) (mem s) (mem s')"
      using rec flags alp alC subtab_disjoint pC _ k pps ent preC by (rule freewalk_loop_spec) simp_all
    show "if \<exists>i\<in>live m0 p 512. ?lf i then freewalk (Suc (Suc l)) s p = Inl (Panic ''freewalk: leaf'')
      else \<exists>s' ps'. freewalk (Suc (Suc l)) s p = Inr s' \<and> fw_post (insert p ?U) s ps s' ps'"
    proof (cases "\<exists>i\<in>live m0 p 512. ?lf i")
      case True
      then show ?thesis using loop by simp
    next
      case False
      then obtain s1 ps1 where s1: "freewalk_loop (freewalk (Suc l)) 512 s p = Inr s1" "kmem_inv s1 ps1" "set ps1 = set ps \<union> ?U"
        "kept s s1" "same_off (insert p ?U) (mem s) (mem s1)"
        using loop by auto
      then have "p \<notin> set ps1"
        using pps pC by auto
      then show ?thesis
        using freewalk_free_table [OF s1(2) ram _ s1(3-5)] False s1(1) by simp
    qed
  qed
qed

section \<open>Freeing an address space\<close>

lemma leafy_root:
  assumes inv: "vm_inv T s ps roots" and r: "root \<in> roots"
  shows "leafy T (mem s) root 2 0 \<longleftrightarrow> (\<exists>v<NPAGES. pte_valid (pte_pg (mem s) root v))"
proof
  assume "leafy T (mem s) root 2 0"
  then obtain q y i where "T q = PTab root 0 y" "i < 512" "pte_valid (entry (mem s) q i)"
    unfolding leafy_def by blast
  then show "\<exists>v<NPAGES. pte_valid (pte_pg (mem s) root v)"
    using leaf_slot_page [OF inv, of q root y i] by auto
next
  assume "\<exists>v<NPAGES. pte_valid (pte_pg (mem s) root v)"
  then obtain v where v: "v < NPAGES" "pte_valid (pte_pg (mem s) root v)"
    by blast
  then have "pte_at (mem s) root (pgva v) \<noteq> 0"
    by (auto simp: pte_pg_def)
  then obtain t0 where d: "descend (mem s) 2 root (pgva v) = Some t0"
    using walk_noalloc_cases [OF inv r pgva_props(4) [OF v(1)]] by blast
  have lk: "tabs_linked T (mem s) roots"
    using inv by (simp add: vm_inv_def)
  have t0: "T t0 = PTab root 0 (prefix_at 2 0 (pgva v))"
    by (rule descend_root_typed [OF inv r d])
  obtain a where a: "T a = PTab root 2 (prefix_at 2 0 (pgva v) div 512 ^ 2)"
    using tab_ancestor [OF lk t0, of 2] by auto
  then have "prefix_at 2 0 (pgva v) div 512 ^ 2 = 0"
    using tabs_linkedD(3) [OF lk a] vm_inv_root [OF inv r] by simp
  then have "t0 \<in> subtab T root 2 0"
    using t0 unfolding subtab_def by (metis (mono_tags, lifting) diff_zero mem_Collect_eq zero_le)
  moreover have "pte_valid (entry (mem s) t0 (unat (PX 0 (pgva v))))"
    using v(2) d by (simp add: pte_pg_def pte_at_def lookup_from_def)
  ultimately show "leafy T (mem s) root 2 0"
    unfolding leafy_def using t0 PX_bound by blast
qed

lemma subtab_root:
  assumes inv: "vm_inv T s ps roots" and r: "root \<in> roots"
  shows "subtab T root 2 0 = {p. \<exists>l x. T p = PTab root l x}"
proof -
  have lk: "tabs_linked T (mem s) roots"
    using inv by (simp add: vm_inv_def)
  have "l \<le> 2 \<and> x div 512 ^ (2 - l) = 0" if p: "T p = PTab root l x" for p l x
  proof -
    have l: "l \<le> 2" using tabs_linkedD(2) [OF lk p] .
    obtain a where a: "T a = PTab root 2 (x div 512 ^ (2 - l))"
      using tab_ancestor [OF lk p l] by auto
    then show ?thesis
      using l tabs_linkedD(3) [OF lk a] vm_inv_root [OF inv r] by simp
  qed
  then show ?thesis
    unfolding subtab_def by blast
qed

lemma pte_pg_typed_cong:
  assumes inv: "vm_inv T s ps roots" and r: "rt \<in> roots"
    and e: "\<And>t l x i. T t = PTab rt l x \<Longrightarrow> i < 512 \<Longrightarrow> entry m' t i = entry (mem s) t i"
  shows "pte_pg m' rt v = pte_pg (mem s) rt v"
proof -
  have ty: "tabs_typed T (mem s)"
    using inv by (simp add: vm_inv_def)
  have d: "descend m' l t va = descend (mem s) l t va" if "T t = PTab rt l x" for l t x va
    using that
  proof (induction l arbitrary: t x)
    case (Suc l)
    then show ?case
      using e [OF Suc.prems] tabs_typedD [OF ty Suc.prems] by (simp add: Let_def)
  qed simp
  note root = d [OF vm_inv_root [OF inv r]]
  show ?thesis
  proof (cases "descend (mem s) 2 rt (pgva v)")
    case (Some t0)
    then show ?thesis
      using e [OF descend_root_typed [OF inv r Some] PX_bound] root by (simp add: pte_pg_def pte_at_def lookup_from_def)
  qed (simp add: pte_pg_def pte_at_def lookup_from_def root)
qed

text \<open>Every mapping of a process is readable, writable or executable, as all mappings that the kernel makes are.\<close>

definition leaves_rwx :: "memory \<Rightarrow> u64 \<Rightarrow> bool" where
  "leaves_rwx m root \<longleftrightarrow> (\<forall>v<NPAGES. pte_valid (pte_pg m root v) \<longrightarrow> pte_pg m root v AND (PTE_R OR PTE_W OR PTE_X) \<noteq> 0)"

lemma freewalk_exact:
  fixes s :: "'a kmem_scheme"
  assumes inv: "vm_inv T s ps roots" and r: "root \<in> roots" and rwx: "leaves_rwx (mem s) root"
  shows "if \<exists>v<NPAGES. pte_valid (pte_pg (mem s) root v) then freewalk 3 s root = Inl (Panic ''freewalk: leaf'')
    else \<exists>s' ps'. freewalk 3 s root = Inr s' \<and> fw_post {p. \<exists>l x. T p = PTab root l x} s ps s' ps'"
proof -
  have ty: "tabs_typed T (mem s)" and lk: "tabs_linked T (mem s) roots" and k: "kmem_inv s ps"
    using inv by (simp_all add: vm_inv_def)
  have "fw_spec (freewalk (Suc 2) :: 'a kmem_scheme \<Rightarrow> _) T (mem s) root (subtab T root 2 0) (leafy T (mem s) root 2 0)"
    using ty lk _ vm_inv_aligned [OF inv] vm_inv_root [OF inv r] order.refl
  proof (rule freewalk_spec)
    show "entry (mem s) q i AND (PTE_R OR PTE_W OR PTE_X) \<noteq> 0" if "T q = PTab root 0 y" "i < 512" "pte_valid (entry (mem s) q i)" for q y i
      using leaf_slot_page [OF inv that(1,2)] that(3) rwx unfolding leaves_rwx_def by simp
  qed
  then have spec: "fw_spec (freewalk 3 :: 'a kmem_scheme \<Rightarrow> _) T (mem s) root {p. \<exists>l x. T p = PTab root l x} (\<exists>v<NPAGES. pte_valid (pte_pg (mem s) root v))"
    unfolding subtab_root [OF inv r] leafy_root [OF inv r] by simp
  have "q \<notin> set ps" if "T q = PTab root l x" for q l x
    using inv that unfolding vm_inv_def by (metis pkind.distinct(1))
  then have pre: "fw_pre T (mem s) {p. \<exists>l x. T p = PTab root l x} s ps"
    using k vm_inv_ram [OF inv] unfolding fw_pre_def by auto
  show ?thesis
    using fw_specD [OF spec pre] by presburger
qed

lemma uvmunmap_free:
  assumes "vm_inv T s ps roots" and "root \<in> roots" and "n \<le> NPAGES" and "\<forall>v<n. image_page T roots (mem s) root v"
  shows "\<exists>s' ps'. uvmunmap s root 0 (of_nat n) True = Inr s' \<and>
    vm_inv (freed T ((\<lambda>v. PTE2PA (pte_pg (mem s) root v)) ` {..<n})) s' ps' roots \<and>
    unmapped roots (mem s) (mem s') root 0 n \<and> kept s s'"
proof -
  have "unat (of_nat n * 4096 :: u64) = 4096 * (0 + n)"
    using assms(3) unat_of_nat64 [of "4096 * n"] by (simp add: mult.commute)
  from uvmunmap_loop_free [OF assms(1,2) _ _ this] show ?thesis
    using assms(3,4) by (simp add: uvmunmap_def pgva_def)
qed

lemma vm_inv_free: "vm_inv T s ps roots \<Longrightarrow> p \<in> set ps \<longleftrightarrow> T p = PFree"
  by (simp add: vm_inv_def)

lemma fw_post_other:
  assumes inv: "vm_inv T s ps roots" and rt: "rt \<in> roots" "rt \<noteq> root" and post: "fw_post {p. \<exists>l x. T p = PTab root l x} s ps s' ps'"
  shows "pte_pg (mem s') rt v = pte_pg (mem s) rt v"
proof (rule pte_pg_typed_cong [OF inv rt(1)])
  fix t l x i
  assume t: "T t = PTab rt l x" and i: "(i :: nat) < 512"
  have "page_no t \<notin> page_no ` {p. \<exists>l x. T p = PTab root l x}"
  proof
    assume "page_no t \<in> page_no ` {p. \<exists>l x. T p = PTab root l x}"
    then obtain p l' x' where "T p = PTab root l' x'" "page_no t = page_no p"
      by blast
    then show False
      using page_no_inj [of t p] vm_inv_aligned [OF inv] t rt(2) by auto
  qed
  then show "entry (mem s') t i = entry (mem s) t i"
    using post same_off_entry [OF _ _ _ i] vm_inv_aligned [OF inv, of t] t unfolding fw_post_def by auto
qed

lemma uvmfree_spec:
  assumes "vm_inv T s ps roots" and "root \<in> roots" and "unat usz \<le> unat MAXVA" and "n = unat (PGROUNDUP usz) div 4096"
    and "\<forall>v<n. image_page T roots (mem s) root v" and "leaves_rwx (mem s) root"
  shows "if \<exists>v<NPAGES. n \<le> v \<and> pte_valid (pte_pg (mem s) root v) then uvmfree 3 s root usz = Inl (Panic ''freewalk: leaf'')
    else \<exists>s' ps'. uvmfree 3 s root usz = Inr s' \<and> kmem_inv s' ps' \<and> kept s s' \<and>
      set ps' = set ps \<union> (\<lambda>v. PTE2PA (pte_pg (mem s) root v)) ` {..<n} \<union> {p. \<exists>l x. T p = PTab root l x} \<and>
      (\<forall>rt\<in>roots - {root}. \<forall>v<NPAGES. pte_pg (mem s') rt v = pte_pg (mem s) rt v)"
proof -
  let ?F = "(\<lambda>v. PTE2PA (pte_pg (mem s) root v)) ` {..<n}"
  have up: "unat (PGROUNDUP usz) \<le> unat MAXVA"
    using assms(3) by (simp add: unat_PGROUNDUP)
  then have n: "n \<le> NPAGES"
    using assms(4) by simp
  obtain s1 ps1 where s1: "(if usz > 0 then uvmunmap s root 0 (PGROUNDUP usz div PGSIZE) True else Inr s) = Inr s1"
    "vm_inv (freed T ?F) s1 ps1 roots" "unmapped roots (mem s) (mem s1) root 0 n" "kept s s1"
  proof (cases "usz = 0")
    case True
    then have "n = 0" using assms(4) by (simp add: unat_PGROUNDUP)
    then show thesis
      using that [of s ps] True assms(1) by (simp add: freed_def)
  next
    case False
    have "PGROUNDUP usz div PGSIZE = of_nat n"
      using assms(4) n by (intro u64_eqI) (simp add: unat_div unat_of_nat64)
    then show thesis
      using that uvmunmap_free [OF assms(1,2) n assms(5)] False by (auto simp: word_gt_0)
  qed
  have FD: "T p = PData" if "p \<in> ?F" for p
    using that assms(5) by (auto simp: image_page_def)
  have same: "pte_pg (mem s1) rt v = (if rt = root \<and> v < n then 0 else pte_pg (mem s) rt v)" if "rt \<in> roots" "v < NPAGES" for rt v
    using s1(3) that unfolding unmapped_def by simp
  have rwx1: "leaves_rwx (mem s1) root"
    using assms(6) same [OF assms(2)] unfolding leaves_rwx_def by simp
  have more: "(\<exists>v<NPAGES. pte_valid (pte_pg (mem s1) root v)) \<longleftrightarrow> (\<exists>v<NPAGES. n \<le> v \<and> pte_valid (pte_pg (mem s) root v))"
    using same [OF assms(2)] by (auto simp: not_le) (metis zero_not_valid not_le)
  have tabs: "{p. \<exists>l x. freed T ?F p = PTab root l x} = {p. \<exists>l x. T p = PTab root l x}"
    unfolding freed_def using FD by auto
  have set1: "set ps1 = set ps \<union> ?F"
    using vm_inv_free [OF s1(2)] vm_inv_free [OF assms(1)] unfolding freed_def by (auto split: if_splits)
  have eq: "uvmfree 3 s root usz = freewalk 3 s1 root"
    unfolding uvmfree_def s1(1) by simp
  show ?thesis
  proof (cases "\<exists>v<NPAGES. n \<le> v \<and> pte_valid (pte_pg (mem s) root v)")
    case True
    then show ?thesis
      using freewalk_exact [OF s1(2) assms(2) rwx1] unfolding more eq if_P [OF True] by simp
  next
    case False
    obtain s' ps' where s': "freewalk 3 s1 root = Inr s'" "fw_post {p. \<exists>l x. freed T ?F p = PTab root l x} s1 ps1 s' ps'"
      using freewalk_exact [OF s1(2) assms(2) rwx1] unfolding more if_not_P [OF False] by blast
    then have "kept s s'" "kmem_inv s' ps'" "set ps' = set ps \<union> ?F \<union> {p. \<exists>l x. T p = PTab root l x}"
      using kept_trans [OF s1(4)] unfolding fw_post_def tabs set1 by auto
    moreover have "pte_pg (mem s') rt v = pte_pg (mem s) rt v" if "rt \<in> roots - {root}" "v < NPAGES" for rt v
      using fw_post_other [OF s1(2) _ _ s'(2), of rt v] same [of rt v] that by simp
    ultimately show ?thesis
      using False s'(1) unfolding eq by auto
  qed
qed

text \<open>
  C23 (functional). \<open>uvmfree\<close> of a process whose image, pages 0 to \<open>n - 1\<close>, is mapped and not shared. When nothing
  else is mapped it returns, exactly the image's pages and all pages of the page table have been added to the free
  list, and no translation of another process has changed. When any other page is still mapped it panics with
  \<open>freewalk: leaf\<close>.
\<close>

theorem uvmfree_exact:
  assumes "vm_inv T s ps roots" and "root \<in> roots" and "unat usz \<le> unat MAXVA" and "n = unat (PGROUNDUP usz) div 4096"
    and "\<forall>v<n. image_page T roots (mem s) root v" and "leaves_rwx (mem s) root"
  shows "if \<exists>v<NPAGES. n \<le> v \<and> pte_valid (pte_pg (mem s) root v) then uvmfree 3 s root usz = Inl (Panic ''freewalk: leaf'')
    else \<exists>s' ps'. uvmfree 3 s root usz = Inr s' \<and> kmem_inv s' ps' \<and>
      set ps' = set ps \<union> (\<lambda>v. PTE2PA (pte_pg (mem s) root v)) ` {..<n} \<union> {p. \<exists>l x. T p = PTab root l x} \<and>
      (\<forall>rt\<in>roots - {root}. \<forall>v<NPAGES. pte_pg (mem s') rt v = pte_pg (mem s) rt v)"
proof (cases "\<exists>v<NPAGES. n \<le> v \<and> pte_valid (pte_pg (mem s) root v)")
  case True
  show ?thesis
    using uvmfree_spec [OF assms] unfolding if_P [OF True] .
next
  case False
  show ?thesis
    using uvmfree_spec [OF assms] unfolding if_not_P [OF False] by blast
qed

lemma small_pte_pg:
  assumes "n \<le> 4096" and "b \<in> {root1, root2}" and "v < NPAGES"
  shows "pte_pg (small_mem n) b v = (if v = 0 then PA2PTE (b + 0x3000) OR (PTE_R OR PTE_W OR PTE_U) OR PTE_V else 0)"
  using small_pte_at [OF assms(1,2) pgva_props(4) [OF assms(3)]] pgva_props(2) [OF assms(3)] by (simp add: pte_pg_def)

lemma small_image:
  assumes n: "n \<le> 4096"
  shows "image_page (small_type n) {root1, root2} (small_mem n) root1 0" and "leaves_rwx (small_mem n) root1"
proof -
  let ?e = "PA2PTE (root1 + 0x3000) OR (PTE_R OR PTE_W OR PTE_U) OR PTE_V"
  note r1 = leaf_pte_facts [OF small_aligned(4) user_flags, of root1] and r2 = leaf_pte_facts [OF small_aligned(4) user_flags, of root2]
  have e: "pte_pg (small_mem n) root1 0 = ?e"
    using small_pte_pg [OF n, of root1 0] by simp
  have "exclusive {root1, root2} (small_mem n) root1 0"
    unfolding exclusive_def e
  proof (intro ballI allI impI)
    fix rt w
    assume rt: "rt \<in> {root1, root2}" and w: "w < NPAGES" and v: "pte_valid (pte_pg (small_mem n) rt w)"
      and pa: "PTE2PA (pte_pg (small_mem n) rt w) = PTE2PA ?e"
    then have "w = 0"
      using small_pte_pg [OF n rt w] by (auto split: if_splits)
    then show "rt = root1 \<and> w = 0"
      using rt pa small_pte_pg [OF n rt w] r1(2) r2(2) by (auto simp: root1_def root2_def)
  qed
  then show "image_page (small_type n) {root1, root2} (small_mem n) root1 0"
    using e r1 small_type_at [OF n, of root1] by (simp add: image_page_def leaf_pte_def pte_flag_defs)
  have "PTE_FLAGS ?e AND (PTE_R OR PTE_W OR PTE_X) \<noteq> 0"
    using r1(4) by (simp add: pte_flag_defs)
  moreover have "PTE_FLAGS x AND y = (x AND y) AND 0x3FF" for x y :: u64
    by (simp add: PTE_FLAGS_def ac_simps)
  ultimately have "?e AND (PTE_R OR PTE_W OR PTE_X) \<noteq> 0"
    by (metis bit.conj_zero_left)
  then show "leaves_rwx (small_mem n) root1"
    using small_pte_pg [OF n, of root1] unfolding leaves_rwx_def by simp
qed

theorem uvmfree_exact_witness:
  "uvmfree 3 (small 5) root1 0 = Inl (Panic ''freewalk: leaf'') \<and>
   (\<exists>s' ps'. uvmfree 3 (small 5) root1 4096 = Inr s' \<and> kmem_inv s' ps' \<and>
      set ps' = set (pool 5) \<union> {root1 + 0x3000} \<union> {p. \<exists>l x. small_type 5 p = PTab root1 l x})"
proof -
  let ?n = "\<lambda>usz. unat (PGROUNDUP usz) div 4096"
  have n: "?n 0 = 0" "?n 4096 = 1"
    by (simp_all add: unat_PGROUNDUP)
  have "(5::nat) \<le> 4096" by simp
  note im = small_image [OF this] and pg = small_pte_pg [OF this, of root1]
  have e: "PTE2PA (pte_pg (small_mem 5) root1 0) = root1 + 0x3000" "pte_valid (pte_pg (small_mem 5) root1 0)"
    using pg [of 0] leaf_pte_facts [OF small_aligned(4) user_flags, of root1] by simp_all
  have m: "mem (small 5) = small_mem 5"
    by (simp add: small_def)
  have inv: "vm_inv (small_type 5) (small 5) (pool 5) {root1, root2}"
    by (simp add: small_inv)
  have left: "\<exists>v<NPAGES. 0 \<le> v \<and> pte_valid (pte_pg (small_mem 5) root1 v)"
    using e(2) by (intro exI [of _ 0]) simp
  have "uvmfree 3 (small 5) root1 0 = Inl (Panic ''freewalk: leaf'')"
    using uvmfree_exact [OF inv, of root1 0 "?n 0"] im unfolding n m if_P [OF left] by simp
  moreover have none: "\<not> (\<exists>v<NPAGES. 1 \<le> v \<and> pte_valid (pte_pg (small_mem 5) root1 v))"
    using pg by auto
  have "\<exists>s' ps'. uvmfree 3 (small 5) root1 4096 = Inr s' \<and> kmem_inv s' ps' \<and>
      set ps' = set (pool 5) \<union> (\<lambda>v. PTE2PA (pte_pg (small_mem 5) root1 v)) ` {..<1} \<union> {p. \<exists>l x. small_type 5 p = PTab root1 l x}"
    using uvmfree_exact [OF inv, of root1 4096 "?n 4096"] im unfolding n m if_not_P [OF none] by auto
  moreover have "(\<lambda>v. PTE2PA (pte_pg (small_mem 5) root1 v)) ` {..<1} = {root1 + 0x3000}"
    using e(1) by (auto simp: lessThan_Suc)
  ultimately show ?thesis
    by simp
qed

end
