(* ===== verification/Ringbuf_spec.thy ===== *)
theory Ringbuf_spec
  imports Ringbuf Small_machine
begin

text \<open>
  What the ring-buffer system call does to address spaces. Virtual pages are named by their
  number; \<open>pte_pg\<close> is the leaf entry of a page. Under the page-table invariant the search for
  room is exact, creating a ring maps 16 fresh pages twice in a row and a book page below them,
  appending maps the same pages into a second address space, and unmapping takes the 33 pages
  out again and, for the last user, gives the physical pages back.
\<close>

section \<open>User pages\<close>

text \<open>The page the search starts at, and the page above which it stays.\<close>

abbreviation TOP :: nat where "TOP \<equiv> NPAGES - 3"
abbreviation KPAGE :: nat where "KPAGE \<equiv> 0x80000"

text \<open>Page \<open>v\<close> is mapped for the user.\<close>

definition upage :: "memory \<Rightarrow> u64 \<Rightarrow> nat \<Rightarrow> bool" where
  "upage m root v \<longleftrightarrow> user_pte (pte_pg m root v)"

lemma walkaddr_pg:
  assumes "vm_inv T s ps roots" and "root \<in> roots" and "v < NPAGES"
  shows "\<exists>pa. walkaddr s root (pgva v) = Inr pa \<and> (pa = 0 \<longleftrightarrow> \<not> upage (mem s) root v)"
proof -
  let ?e = "pte_at (mem s) root (pgva v)"
  have "user_pte ?e \<Longrightarrow> PTE2PA ?e \<noteq> 0"
    using user_pte_data [OF assms(1,2), of "pgva v"] vm_inv_nonzero [OF assms(1), of "PTE2PA ?e"] by simp
  then show ?thesis
    using walkaddr_eq [OF assms(1,2), of "pgva v"] pgva_props(4) [OF assms(3)]
    by (simp add: upage_def pte_pg_def)
qed

section \<open>The search for contiguous pages\<close>

definition fits :: "memory \<Rightarrow> u64 \<Rightarrow> nat \<Rightarrow> nat \<Rightarrow> bool" where
  "fits m root num b \<longleftrightarrow>
     b = TOP \<and> KPAGE + num \<le> b \<and> (\<forall>k<num. \<not> upage m root (b - k)) \<or>
     b \<le> TOP \<and> KPAGE + num < b \<and> upage m root b \<and> (\<forall>k<num. \<not> upage m root (b - Suc k))"

lemma fcp_loop_spec:
  assumes "vm_inv T s ps roots" and "root \<in> roots" and "v + c \<le> TOP" and "c < num"
    and "\<And>k. v < k \<Longrightarrow> k \<le> v + c \<Longrightarrow> \<not> upage (mem s) root k"
    and "b = v + c \<and> b = TOP \<or> b = Suc (v + c) \<and> b \<le> TOP \<and> upage (mem s) root b"
  shows "(\<exists>b'. fcp_loop s root num (pgva v) (pgva b) c = Inr (0, pgva b') \<and> fits (mem s) root num b' \<and>
      (\<forall>t. b' < t \<and> t \<le> v + c \<longrightarrow> (\<exists>k<num. upage (mem s) root (t - k)))) \<or>
    (\<exists>base. fcp_loop s root num (pgva v) (pgva b) c = Inr (-1, base)) \<and>
    (\<forall>t. KPAGE + num \<le> t \<and> t \<le> v + c \<longrightarrow> (\<exists>k<num. upage (mem s) root (t - k)))"
  using assms(3-)
proof (induction v arbitrary: b c)
  case 0
  have "pgva 0 = 0"
    by (simp add: pgva_def)
  then show ?case
    using 0(2) by (auto simp: fcp_loop.simps [of s root num 0])
next
  case (Suc v)
  have v: "Suc v < NPAGES"
    using Suc.prems(1) by simp
  have gt: "pgva (Suc v) > KERNBASE \<longleftrightarrow> Suc v > KPAGE"
    using pgva_props(1) [OF v] by (simp add: word_less_nat_alt)
  have prev: "pgva (Suc v) - 4096 = pgva v"
    using pgva_sub [of 1 "Suc v"] v by simp
  show ?case
  proof (cases "Suc v > KPAGE")
    case False
    then show ?thesis
      using gt Suc.prems(2) by (auto simp: fcp_loop.simps [of s root num "pgva (Suc v)"])
  next
    case True
    obtain pa where pa: "walkaddr s root (pgva (Suc v)) = Inr pa" "pa = 0 \<longleftrightarrow> \<not> upage (mem s) root (Suc v)"
      using walkaddr_pg [OF assms(1,2) v] by blast
    show ?thesis
    proof (cases "upage (mem s) root (Suc v)")
      case up: True
      then have eq: "fcp_loop s root num (pgva (Suc v)) (pgva b) c = fcp_loop s root num (pgva v) (pgva (Suc v)) 0"
        using True gt pa prev by (simp add: fcp_loop.simps [of s root num "pgva (Suc v)"])
      have hit: "\<exists>k<num. upage (mem s) root (t - k)" if "Suc v \<le> t" "t \<le> Suc v + c" for t
        using that up Suc.prems(2) by (intro exI [of _ "t - Suc v"]) auto
      have split: "(\<exists>k<num. upage (mem s) root (t - k))"
        if "\<forall>t. lo \<le> t \<and> t \<le> v + 0 \<longrightarrow> (\<exists>k<num. upage (mem s) root (t - k))"
          "lo \<le> t \<and> t \<le> Suc v + c" for lo t
        using that hit [of t] by (cases "t \<le> v") auto
      have "Suc v \<le> TOP" "0 < num"
        using Suc.prems(1,2) by linarith+
      then have "(\<exists>b'. fcp_loop s root num (pgva v) (pgva (Suc v)) 0 = Inr (0, pgva b') \<and> fits (mem s) root num b' \<and>
          (\<forall>t. b' < t \<and> t \<le> v + 0 \<longrightarrow> (\<exists>k<num. upage (mem s) root (t - k)))) \<or>
        (\<exists>base. fcp_loop s root num (pgva v) (pgva (Suc v)) 0 = Inr (-1, base)) \<and>
        (\<forall>t. KPAGE + num \<le> t \<and> t \<le> v + 0 \<longrightarrow> (\<exists>k<num. upage (mem s) root (t - k)))"
        using up by (intro Suc.IH) auto
      then show ?thesis
        unfolding eq using split [of "KPAGE + num"] split [of "Suc b'" for b'] unfolding Suc_le_eq by meson
    next
      case free: False
      have run: "\<not> upage (mem s) root k" if "v < k" "k \<le> Suc v + c" for k
        using that free Suc.prems(3) [of k] by (cases "k = Suc v") auto
      show ?thesis
      proof (cases "c + 1 = num")
        case last: True
        then have eq: "fcp_loop s root num (pgva (Suc v)) (pgva b) c = Inr (0, pgva b)"
          using True gt pa free by (simp add: fcp_loop.simps [of s root num "pgva (Suc v)"])
        have "fits (mem s) root num b"
          using Suc.prems(4) run last True unfolding fits_def by auto
        moreover have "\<not> (b < t \<and> t \<le> Suc v + c)" for t
          using Suc.prems(4) by auto
        ultimately show ?thesis
          using eq by blast
      next
        case more: False
        then have eq: "fcp_loop s root num (pgva (Suc v)) (pgva b) c = fcp_loop s root num (pgva v) (pgva b) (Suc c)"
          using True gt pa free prev by (simp add: fcp_loop.simps [of s root num "pgva (Suc v)"])
        show ?thesis
          using Suc.IH [of "Suc c" b] Suc.prems run more unfolding eq by simp
      qed
    qed
  qed
qed

lemma find_contiguous_pages_spec:
  assumes "vm_inv T s ps roots" and "root \<in> roots" and "0 < num"
  shows "(\<exists>b. find_contiguous_pages s root num = Inr (0, pgva b) \<and> fits (mem s) root num b \<and>
      (\<forall>t. b < t \<and> t \<le> TOP \<longrightarrow> (\<exists>k<num. upage (mem s) root (t - k)))) \<or>
    (\<exists>base. find_contiguous_pages s root num = Inr (-1, base)) \<and>
    (\<forall>t. KPAGE + num \<le> t \<and> t \<le> TOP \<longrightarrow> (\<exists>k<num. upage (mem s) root (t - k)))"
proof -
  have "MAXVA - PGSIZE - PGSIZE - PGSIZE = pgva TOP"
    by (simp add: MAXVA_num pgva_def)
  moreover have "PGROUNDUP (pgva TOP) = pgva TOP"
    by (simp add: PGROUNDUP_def pgva_def)
  ultimately have "find_contiguous_pages s root num = fcp_loop s root num (pgva TOP) (pgva TOP) 0"
    by (simp add: find_contiguous_pages_def Let_def)
  then show ?thesis
    using fcp_loop_spec [OF assms(1,2), of TOP 0 num TOP] assms(3) by simp
qed

section \<open>Sequences of mappings\<close>

text \<open>
  What a client may assume of an operation that maps one page: it succeeds when the entry is
  empty, the physical page is a data page and two free pages are left for tables; it changes
  the one entry; and it keeps what \<open>keep\<close> says.
\<close>

locale page_mapper =
  fixes inv :: "'t \<Rightarrow> 's \<Rightarrow> nat \<Rightarrow> bool"
    and lookup :: "'s \<Rightarrow> 'k \<Rightarrow> 'v"
    and key :: "'k \<Rightarrow> bool"
    and absent :: "'v \<Rightarrow> bool"
    and leaf :: "'p \<Rightarrow> 'v"
    and data :: "'t \<Rightarrow> 'p \<Rightarrow> bool"
    and keep :: "'t \<Rightarrow> 's \<Rightarrow> 't \<Rightarrow> 's \<Rightarrow> bool"
    and map1 :: "'s \<Rightarrow> 'k \<Rightarrow> 'p \<Rightarrow> 'e + 's \<times> int"
  assumes map1_ok: "inv t s n \<Longrightarrow> key k \<Longrightarrow> absent (lookup s k) \<Longrightarrow> data t p \<Longrightarrow> 2 \<le> n \<Longrightarrow>
      \<exists>t' s' n'. map1 s k p = Inr (s', 0) \<and> inv t' s' n' \<and> keep t s t' s' \<and> n \<le> n' + 2 \<and>
        (\<forall>k'. lookup s' k' = (if k' = k then leaf p else lookup s k'))"
    and keep_refl: "keep t s t s"
    and keep_trans: "keep t s t' s' \<Longrightarrow> keep t' s' t'' s'' \<Longrightarrow> keep t s t'' s''"
    and keep_data: "keep t s t' s' \<Longrightarrow> data t p \<Longrightarrow> data t' p"
begin

fun map_seq :: "'s \<Rightarrow> ('k \<times> 'p) list \<Rightarrow> 'e + 's \<times> int" where
  "map_seq s [] = Inr (s, 0)"
| "map_seq s ((k, p) # kps) = bindr (map1 s k p) (\<lambda>(s1, r). if r \<noteq> 0 then Inr (s1, -1) else map_seq s1 kps)"

lemma map_seq_ok:
  assumes "inv t s n" and "distinct (map fst kps)" and "2 * length kps \<le> n"
    and "\<And>k p. (k, p) \<in> set kps \<Longrightarrow> key k \<and> absent (lookup s k) \<and> data t p"
  shows "\<exists>t' s' n'. map_seq s kps = Inr (s', 0) \<and> inv t' s' n' \<and> keep t s t' s' \<and>
    n \<le> n' + 2 * length kps \<and>
    (\<forall>k. lookup s' k = (case map_of kps k of Some p \<Rightarrow> leaf p | None \<Rightarrow> lookup s k))"
  using assms
proof (induction kps arbitrary: t s n)
  case Nil
  then show ?case
    using keep_refl by auto
next
  case (Cons kp kps)
  obtain k p where kp: "kp = (k, p)"
    by force
  obtain t1 s1 n1 where 1: "map1 s k p = Inr (s1, 0)" "inv t1 s1 n1" "keep t s t1 s1" "n \<le> n1 + 2"
    "\<And>k'. lookup s1 k' = (if k' = k then leaf p else lookup s k')"
  proof -
    have "key k" "absent (lookup s k)" "data t p" "2 \<le> n"
      using Cons.prems(3) Cons.prems(4) [of k p] kp by simp_all
    from map1_ok [OF Cons.prems(1) this] that show thesis by blast
  qed
  have "key k' \<and> absent (lookup s1 k') \<and> data t1 p'" if "(k', p') \<in> set kps" for k' p'
  proof -
    have "k' \<noteq> k"
      using that Cons.prems(2) kp by force
    moreover have "key k'" "absent (lookup s k')" "data t p'"
      using that Cons.prems(4) [of k' p'] by simp_all
    ultimately show ?thesis
      using 1(5) keep_data [OF 1(3)] by simp
  qed
  then obtain t2 s2 n2 where 2: "map_seq s1 kps = Inr (s2, 0)" "inv t2 s2 n2" "keep t1 s1 t2 s2"
    "n1 \<le> n2 + 2 * length kps"
    "\<And>k. lookup s2 k = (case map_of kps k of Some p \<Rightarrow> leaf p | None \<Rightarrow> lookup s1 k)"
    using Cons.IH [OF 1(2)] Cons.prems(2,3) 1(4) by auto
  have "map_of kps k = None"
    using Cons.prems(2) kp by (simp add: map_of_eq_None_iff)
  then have "lookup s2 k' = (case map_of (kp # kps) k' of Some p \<Rightarrow> leaf p | None \<Rightarrow> lookup s k')" for k'
    using 1(5) 2(5) kp by (auto split: option.splits)
  moreover have "map_seq s (kp # kps) = Inr (s2, 0)"
    using 1(1) 2(1) kp by simp
  ultimately show ?case
    using 2(2,4) keep_trans [OF 1(3) 2(3)] 1(4) by fastforce
qed

end

section \<open>The kernel maps pages one at a time\<close>

definition leaf :: "u64 \<Rightarrow> u64" where
  "leaf pa = PA2PTE pa OR RWXU OR PTE_V"

lemma RWXU_facts [simp]: "RWXU AND mask 10 = RWXU" "RWXU AND PTE_U \<noteq> 0"
  by (simp_all add: RWXU_def pte_flag_defs mask_eq_exp_minus_1)

lemma leaf_facts:
  assumes "pg_aligned pa"
  shows "pte_valid (leaf pa)" "PTE2PA (leaf pa) = pa" "user_pte (leaf pa)" "leaf_pte (leaf pa)"
proof -
  have "RWXU OR PTE_V \<noteq> PTE_V"
    by (simp add: RWXU_def pte_flag_defs)
  then show "pte_valid (leaf pa)" "PTE2PA (leaf pa) = pa" "user_pte (leaf pa)" "leaf_pte (leaf pa)"
    unfolding leaf_def user_pte_def leaf_pte_def by (simp_all add: leaf_pte_facts [OF assms])
qed

lemma pte_set_pg:
  assumes "pte_set roots m m' root (pgva v) e" and "v < NPAGES" and "rt \<in> roots" and "w < NPAGES"
  shows "pte_pg m' rt w = (if rt = root \<and> w = v then e else pte_pg m rt w)"
  using assms pgva_props [OF assms(2)] pgva_props [OF assms(4)] unfolding pte_set_def pte_pg_def by simp

lemma map_or_free_ok:
  assumes inv: "vm_inv T s ps roots" and root: "root \<in> roots" and v: "v < NPAGES"
    and un: "\<not> pte_valid (pte_pg (mem s) root v)" and data: "T pa = PData" and len: "2 \<le> length ps"
  shows "\<exists>s' T' ps'. map_or_free s root (pgva v) pa = Inr (s', 0) \<and> vm_inv T' s' ps' roots \<and>
    vm_keep T s T' s' \<and> length ps \<le> length ps' + 2 \<and>
    (\<forall>rt\<in>roots. \<forall>w<NPAGES. pte_pg (mem s') rt w = (if rt = root \<and> w = v then leaf pa else pte_pg (mem s) rt w))"
proof -
  have al: "pg_aligned pa"
    using vm_inv_aligned [OF inv] data by simp
  obtain s' rc T' ps' where m: "mappages s root (pgva v) 4096 pa RWXU = Inr (s', rc)"
      "vm_inv T' s' ps' roots" "vm_frame T s T' s'" "length ps \<le> length ps' + 2"
      "rc = 0 \<and> pte_set roots (mem s) (mem s') root (pgva v) (leaf pa) \<or> rc = -1 \<and> length ps < 2"
    using mappages_page [OF inv root pgva_props(3,4) [OF v] _ al RWXU_facts(1)] un data
    unfolding pte_pg_def leaf_def by blast
  then have "rc = 0" and set: "pte_set roots (mem s) (mem s') root (pgva v) (leaf pa)"
    using len by auto
  then have "map_or_free s root (pgva v) pa = Inr (s', 0)"
    using m(1) by (simp add: map_or_free_def)
  then show ?thesis
    using m(2,4) vm_frame_keep [OF inv m(3)] pte_set_pg [OF set v] by blast
qed

text \<open>The interface \<open>page_mapper\<close> for the tables of a set of processes.\<close>

definition free_inv :: "u64 set \<Rightarrow> (u64 \<Rightarrow> pkind) \<Rightarrow> 'a kmem_scheme \<Rightarrow> nat \<Rightarrow> bool" where
  "free_inv roots T s n \<longleftrightarrow> (\<exists>ps. length ps = n \<and> vm_inv T s ps roots)"

definition vlookup :: "u64 set \<Rightarrow> 'a kmem_scheme \<Rightarrow> u64 \<times> nat \<Rightarrow> u64" where
  "vlookup roots s k = (if fst k \<in> roots \<and> snd k < NPAGES then pte_pg (mem s) (fst k) (snd k) else 0)"

definition map_key :: "'a kmem_scheme \<Rightarrow> u64 \<times> nat \<Rightarrow> u64 \<Rightarrow> fault + 'a kmem_scheme \<times> int" where
  "map_key s k pa = map_or_free s (fst k) (pgva (snd k)) pa"

interpretation vmap: page_mapper "free_inv roots" "vlookup roots" "\<lambda>k. fst k \<in> roots \<and> snd k < NPAGES"
  "\<lambda>e. \<not> pte_valid e" leaf "\<lambda>T p. T p = PData" vm_keep map_key for roots :: "u64 set"
proof (unfold_locales, goal_cases)
  case (1 T s n k p)
  then obtain ps where ps: "length ps = n" "vm_inv T s ps roots"
    unfolding free_inv_def by blast
  obtain s' T' ps' where "map_or_free s (fst k) (pgva (snd k)) p = Inr (s', 0)" "vm_inv T' s' ps' roots"
      "vm_keep T s T' s'" "length ps \<le> length ps' + 2"
      "\<forall>rt\<in>roots. \<forall>w<NPAGES. pte_pg (mem s') rt w =
         (if rt = fst k \<and> w = snd k then leaf p else pte_pg (mem s) rt w)"
    using map_or_free_ok [OF ps(2), of "fst k" "snd k" p] 1 ps(1) by (auto simp: vlookup_def)
  then show ?case
    using 1(2) ps(1) unfolding map_key_def free_inv_def vlookup_def
    by (intro exI [of _ T'] exI [of _ s'] exI [of _ "length ps'"]) (auto simp: prod_eq_iff)
next
  case (2 T s)
  then show ?case by simp
next
  case (3 T s T' s' T'' s'')
  then show ?case by (rule vm_keep_trans)
next
  case (4 T s T' s' p)
  then show ?case by (simp add: vm_keep_def)
qed

section \<open>The mapping loops\<close>

text \<open>The pairs of page and physical page that iterations \<open>i, \<dots>, i + k - 1\<close> map.\<close>

definition ring_pairs :: "u64 \<Rightarrow> nat \<Rightarrow> u64 list \<Rightarrow> nat \<Rightarrow> nat \<Rightarrow> ((u64 \<times> nat) \<times> u64) list" where
  "ring_pairs root P bs i k = map (\<lambda>j. ((root, P - j), bs ! (j mod 16))) [i..<i + k]"

lemma ring_pairs_0 [simp]: "ring_pairs root P bs i 0 = []"
  by (simp add: ring_pairs_def)

lemma ring_pairs_Suc: "ring_pairs root P bs i (Suc k) = ((root, P - i), bs ! (i mod 16)) # ring_pairs root P bs (Suc i) k"
  unfolding ring_pairs_def by (subst upt_conv_Cons) simp_all

lemma map_or_free_key: "map_or_free s root (pgva v) pa = map_key s (root, v) pa"
  by (simp add: map_key_def)

lemma map_old_loop_seq:
  assumes "i + k \<le> Suc P" and "P < 2 ^ 52"
  shows "map_old_loop k i s root rb (pgva P) = vmap.map_seq s (ring_pairs root P (buf rb) i k)"
  using assms(1)
proof (induction k arbitrary: i s)
  case (Suc k)
  then have "pgva P - of_nat i * 4096 = pgva (P - i)"
    using pgva_sub [of i P] assms(2) by simp
  then show ?case
    using Suc by (auto simp: ring_pairs_Suc map_or_free_key intro!: bindr_cong)
qed simp

lemma map_new_loop_seq:
  assumes "i + k \<le> Suc P" and "P < 2 ^ 52" and "16 \<le> i"
  shows "map_new_loop k i s root rb (pgva P) =
    bindr (vmap.map_seq s (ring_pairs root P (buf rb) i k)) (\<lambda>(s1, r). Inr (s1, rb, r))"
  using assms(1,3)
proof (induction k arbitrary: i s)
  case (Suc k)
  then have "pgva P - of_nat i * 4096 = pgva (P - i)"
    using pgva_sub [of i P] assms(2) by simp
  then show ?case
    using Suc by (auto simp: ring_pairs_Suc map_or_free_key bindr_assoc intro!: bindr_cong)
qed simp

lemma ring_pairs_keys:
  assumes "i + k \<le> Suc P"
  shows "distinct (map fst (ring_pairs root P bs i k))"
    and "map_of (ring_pairs root P bs i k) (rt, v) =
      (if rt = root \<and> i + v \<le> P \<and> P < i + v + k then Some (bs ! ((P - v) mod 16)) else None)"
proof -
  have inj: "inj_on (\<lambda>j. (root, P - j)) (set [i..<i + k])"
    using assms by (auto simp: inj_on_def)
  then show d: "distinct (map fst (ring_pairs root P bs i k))"
    by (simp add: ring_pairs_def comp_def distinct_map)
  show "map_of (ring_pairs root P bs i k) (rt, v) =
      (if rt = root \<and> i + v \<le> P \<and> P < i + v + k then Some (bs ! ((P - v) mod 16)) else None)"
  proof (cases "rt = root \<and> i + v \<le> P \<and> P < i + v + k")
    case True
    then have "((rt, v), bs ! ((P - v) mod 16)) \<in> set (ring_pairs root P bs i k)"
      unfolding ring_pairs_def by (auto intro!: image_eqI [of _ _ "P - v"])
    then show ?thesis
      using True d by simp
  next
    case False
    then have "(rt, v) \<notin> fst ` set (ring_pairs root P bs i k)"
      using assms unfolding ring_pairs_def by auto
    then show ?thesis
      using False by (auto simp: map_of_eq_None_iff)
  qed
qed

text \<open>A run of iterations that maps pages already allocated.\<close>

lemma map_run_ok:
  assumes inv: "vm_inv T s ps roots" and root: "root \<in> roots" and P: "P < NPAGES" and ik: "i + k \<le> Suc P"
    and len: "2 * k \<le> length ps" and bs: "\<And>j. j < 16 \<Longrightarrow> T (bs ! j) = PData"
    and un: "\<And>j. i \<le> j \<Longrightarrow> j < i + k \<Longrightarrow> \<not> pte_valid (pte_pg (mem s) root (P - j))"
  shows "\<exists>s' T' ps'. vmap.map_seq s (ring_pairs root P bs i k) = Inr (s', 0) \<and> vm_inv T' s' ps' roots \<and>
    vm_keep T s T' s' \<and> length ps \<le> length ps' + 2 * k \<and>
    (\<forall>rt\<in>roots. \<forall>v<NPAGES. pte_pg (mem s') rt v =
       (if rt = root \<and> i + v \<le> P \<and> P < i + v + k then leaf (bs ! ((P - v) mod 16)) else pte_pg (mem s) rt v))"
proof -
  let ?kps = "ring_pairs root P bs i k"
  have lk: "length ?kps = k"
    by (simp add: ring_pairs_def)
  have "(fst key \<in> roots \<and> snd key < NPAGES) \<and> \<not> pte_valid (vlookup roots s key) \<and> T p = PData"
    if kp: "(key, p) \<in> set ?kps" for key p
  proof -
    obtain j where j: "key = (root, P - j)" "p = bs ! (j mod 16)" "i \<le> j" "j < i + k"
      using kp by (auto simp: ring_pairs_def)
    then show ?thesis
      using un [OF j(3,4)] bs [of "j mod 16"] root P by (simp add: vlookup_def)
  qed
  moreover have "free_inv roots T s (length ps)" "2 * length ?kps \<le> length ps"
    using inv len lk by (auto simp: free_inv_def)
  ultimately have "\<exists>T' s' n'. vmap.map_seq s ?kps = Inr (s', 0) \<and> free_inv roots T' s' n' \<and> vm_keep T s T' s' \<and>
      length ps \<le> n' + 2 * length ?kps \<and>
      (\<forall>k. vlookup roots s' k = (case map_of ?kps k of Some p \<Rightarrow> leaf p | None \<Rightarrow> vlookup roots s k))"
    by (intro vmap.map_seq_ok ring_pairs_keys(1) [OF ik]) blast+
  then obtain T' s' ps' where r: "vmap.map_seq s ?kps = Inr (s', 0)" "vm_inv T' s' ps' roots" "vm_keep T s T' s'"
      "length ps \<le> length ps' + 2 * k"
      "\<And>k. vlookup roots s' k = (case map_of ?kps k of Some p \<Rightarrow> leaf p | None \<Rightarrow> vlookup roots s k)"
    unfolding free_inv_def lk by blast
  have "pte_pg (mem s') rt v = (if rt = root \<and> i + v \<le> P \<and> P < i + v + k then leaf (bs ! ((P - v) mod 16))
      else pte_pg (mem s) rt v)" if "rt \<in> roots" "v < NPAGES" for rt v
    using r(5) [of "(rt, v)"] that ring_pairs_keys(2) [OF ik] by (simp add: vlookup_def)
  then show ?thesis
    using r(1-4) by blast
qed

section \<open>Allocating and mapping fresh pages\<close>

definition zero_page :: "memory \<Rightarrow> u64 \<Rightarrow> bool" where
  "zero_page m c \<longleftrightarrow> (\<forall>x. page_no x = page_no c \<longrightarrow> m x = 0)"

text \<open>\<open>cs\<close> are data pages now, were not before, and are full of zeros.\<close>

definition fresh :: "(u64 \<Rightarrow> pkind) \<Rightarrow> (u64 \<Rightarrow> pkind) \<Rightarrow> memory \<Rightarrow> u64 list \<Rightarrow> bool" where
  "fresh T T' m cs \<longleftrightarrow> distinct cs \<and> (\<forall>c\<in>set cs. T c \<noteq> PData \<and> T' c = PData \<and> zero_page m c)"

lemma zero_page_memset: "pg_aligned c \<Longrightarrow> zero_page (memset m c 0 4096) c"
proof (unfold zero_page_def, intro allI impI)
  fix x
  assume c: "pg_aligned c" and x: "page_no x = page_no c"
  have "unat c \<le> unat x" "unat x < unat c + 4096"
    using c x div_mult_mod_eq [of "unat x" 4096] div_mult_mod_eq [of "unat c" 4096]
    unfolding page_no_def pg_aligned_def by linarith+
  then have "unat (x - c) < 4096"
    by (simp add: unat_sub_nowrap)
  then show "memset m c 0 4096 x = 0"
    by (simp add: memset_eq)
qed

lemma zero_page_keep: "vm_keep T s T' s' \<Longrightarrow> T c = PData \<Longrightarrow> zero_page (mem s) c \<Longrightarrow> zero_page (mem s') c"
  unfolding vm_keep_def zero_page_def by metis

lemma fresh_Cons:
  assumes "vm_keep T s T1 s1" and "vm_keep T1 s1 T2 s2" and "T c \<noteq> PData" and "T1 c = PData"
    and "zero_page (mem s1) c" and "fresh T1 T2 (mem s2) cs"
  shows "fresh T T2 (mem s2) (c # cs)"
proof -
  have "T2 c = PData" "zero_page (mem s2) c"
    using zero_page_keep [OF assms(2,4,5)] assms(2,4) by (auto simp: vm_keep_def)
  moreover have "c \<notin> set cs" "\<forall>x\<in>set cs. T x \<noteq> PData"
    using assms(1,4,6) by (auto simp: fresh_def vm_keep_def)
  ultimately show ?thesis
    using assms(3,6) by (simp add: fresh_def)
qed

lemma alloc_map_ok:
  assumes inv: "vm_inv T s ps roots" and root: "root \<in> roots" and v: "v < NPAGES"
    and un: "\<not> pte_valid (pte_pg (mem s) root v)" and len: "3 \<le> length ps"
  shows "\<exists>s1 c s' T' ps'. kalloc s = Inr (s1, c) \<and> c \<noteq> 0 \<and>
    map_or_free (s1\<lparr>mem := memset (mem s1) c 0 4096\<rparr>) root (pgva v) c = Inr (s', 0) \<and>
    vm_inv T' s' ps' roots \<and> vm_keep T s T' s' \<and> length ps \<le> length ps' + 3 \<and>
    T c \<noteq> PData \<and> T' c = PData \<and> zero_page (mem s') c \<and>
    (\<forall>rt\<in>roots. \<forall>w<NPAGES. pte_pg (mem s') rt w = (if rt = root \<and> w = v then leaf c else pte_pg (mem s) rt w))"
proof -
  obtain c qs where ps: "ps = c # qs"
    using len by (cases ps) auto
  let ?T = "T(c := PData)"
  obtain s1 where a: "kalloc s = Inr (s1, c)"
    "vm_inv ?T (s1\<lparr>mem := memset (mem s1) c 0 4096\<rparr>) qs roots"
    "vm_keep T s ?T (s1\<lparr>mem := memset (mem s1) c 0 4096\<rparr>)"
    "pte_same roots (mem s) (memset (mem s1) c 0 4096)" "c \<noteq> 0" "T c = PFree"
    using kalloc_data [OF inv [unfolded ps]] by blast
  let ?s1 = "s1\<lparr>mem := memset (mem s1) c 0 4096\<rparr>"
  have same: "pte_pg (mem ?s1) rt w = pte_pg (mem s) rt w" if "rt \<in> roots" "w < NPAGES" for rt w
    using a(4) that pgva_props(4) by (simp add: pte_same_def pte_pg_def)
  have pre: "\<not> pte_valid (pte_pg (mem ?s1) root v)" "?T c = PData" "2 \<le> length qs"
    using un same [OF root v] len ps by simp_all
  obtain s' T' ps' where m: "map_or_free ?s1 root (pgva v) c = Inr (s', 0)" "vm_inv T' s' ps' roots"
    "vm_keep ?T ?s1 T' s'" "length qs \<le> length ps' + 2"
    "\<forall>rt\<in>roots. \<forall>w<NPAGES. pte_pg (mem s') rt w = (if rt = root \<and> w = v then leaf c else pte_pg (mem ?s1) rt w)"
    using map_or_free_ok [OF a(2) root v pre] by blast
  have "pg_aligned c"
    using vm_inv_aligned [OF inv, of c] a(6) by simp
  then have "zero_page (mem s') c"
    using zero_page_keep [OF m(3)] zero_page_memset by simp
  moreover have "T' c = PData"
    using m(3) by (simp add: vm_keep_def)
  ultimately show ?thesis
    using a(1,5,6) m vm_keep_trans [OF a(3) m(3)] ps same
    by (intro exI [of _ s1] exI [of _ c] exI [of _ s'] exI [of _ T'] exI [of _ ps']) simp
qed

lemma map_new_ok:
  assumes "vm_inv T s ps roots" and root: "root \<in> roots" and P: "P < NPAGES" and "i + k \<le> Suc P"
    and "i + k \<le> 16" and "length (buf rb) = 16" and "3 * k \<le> length ps"
    and "\<And>j. i \<le> j \<Longrightarrow> j < i + k \<Longrightarrow> \<not> pte_valid (pte_pg (mem s) root (P - j))"
  shows "\<exists>s' T' ps' cs. length cs = k \<and>
    map_new_loop (k + k') i s root rb (pgva P) =
      map_new_loop k' (i + k) s' root (rb\<lparr>buf := take i (buf rb) @ cs @ drop (i + k) (buf rb)\<rparr>) (pgva P) \<and>
    vm_inv T' s' ps' roots \<and> vm_keep T s T' s' \<and> length ps \<le> length ps' + 3 * k \<and> fresh T T' (mem s') cs \<and>
    (\<forall>rt\<in>roots. \<forall>v<NPAGES. pte_pg (mem s') rt v =
       (if rt = root \<and> i + v \<le> P \<and> P < i + v + k then leaf (cs ! (P - v - i)) else pte_pg (mem s) rt v))"
  using assms(1,4-)
proof (induction k arbitrary: T s ps i rb)
  case 0
  show ?case
    by (rule exI [of _ s], rule exI [of _ T], rule exI [of _ ps], rule exI [of _ "[]"])
      (use 0 in \<open>auto simp: fresh_def\<close>)
next
  case (Suc k)
  have i: "i < 16" "P - i < NPAGES"
    using Suc.prems(3) P by auto
  have va: "pgva P - of_nat i * 4096 = pgva (P - i)"
    using pgva_sub [of i P] Suc.prems(2) P by simp
  obtain s1 c s2 T2 ps2 where a: "kalloc s = Inr (s1, c)" "c \<noteq> 0"
    "map_or_free (s1\<lparr>mem := memset (mem s1) c 0 4096\<rparr>) root (pgva (P - i)) c = Inr (s2, 0)"
    "vm_inv T2 s2 ps2 roots" "vm_keep T s T2 s2" "length ps \<le> length ps2 + 3"
    "T c \<noteq> PData" "T2 c = PData" "zero_page (mem s2) c"
    "\<forall>rt\<in>roots. \<forall>w<NPAGES. pte_pg (mem s2) rt w = (if rt = root \<and> w = P - i then leaf c else pte_pg (mem s) rt w)"
    using alloc_map_ok [OF Suc.prems(1) root i(2)] Suc.prems(5) Suc.prems(6) [of i] by auto
  let ?rb = "rb\<lparr>buf := (buf rb)[i := c]\<rparr>"
  have un: "\<not> pte_valid (pte_pg (mem s2) root (P - j))" if "Suc i \<le> j" "j < Suc i + k" for j
    using a(10) root P Suc.prems(2) Suc.prems(6) [of j] that by auto
  have "Suc i + k \<le> Suc P" "Suc i + k \<le> 16" "length (buf ?rb) = 16" "3 * k \<le> length ps2"
    using Suc.prems(2-5) a(6) by auto
  from Suc.IH [OF a(4) this un] obtain s' T' ps' cs where r: "length cs = k"
    "map_new_loop (k + k') (Suc i) s2 root ?rb (pgva P) =
       map_new_loop k' (Suc i + k) s' root (?rb\<lparr>buf := take (Suc i) (buf ?rb) @ cs @ drop (Suc i + k) (buf ?rb)\<rparr>) (pgva P)"
    "vm_inv T' s' ps' roots" "vm_keep T2 s2 T' s'" "length ps2 \<le> length ps' + 3 * k" "fresh T2 T' (mem s') cs"
    "\<forall>rt\<in>roots. \<forall>v<NPAGES. pte_pg (mem s') rt v =
       (if rt = root \<and> Suc i + v \<le> P \<and> P < Suc i + v + k then leaf (cs ! (P - v - Suc i)) else pte_pg (mem s2) rt v)"
    by auto
  have buf: "take (Suc i) ((buf rb)[i := c]) @ cs @ drop (Suc i + k) ((buf rb)[i := c]) =
      take i (buf rb) @ (c # cs) @ drop (i + Suc k) (buf rb)"
    using i Suc.prems(4) by (simp add: take_Suc_conv_app_nth drop_update_cancel)
  have "map_new_loop (Suc k + k') i s root rb (pgva P) =
      map_new_loop k' (i + Suc k) s' root (rb\<lparr>buf := take i (buf rb) @ (c # cs) @ drop (i + Suc k) (buf rb)\<rparr>) (pgva P)"
    using a(1-3) i r(2) buf by (simp add: va Let_def)
  moreover have "pte_pg (mem s') rt v =
      (if rt = root \<and> i + v \<le> P \<and> P < i + v + Suc k then leaf ((c # cs) ! (P - v - i)) else pte_pg (mem s) rt v)"
    if "rt \<in> roots" "v < NPAGES" for rt v
  proof (cases "rt = root \<and> v = P - i")
    case True
    then show ?thesis
      using r(7) a(10) that Suc.prems(2) by simp
  next
    case False
    then show ?thesis
      using r(7) a(10) that Suc.prems(2) by (auto simp: nth_Cons')
  qed
  moreover have "fresh T T' (mem s') (c # cs)" "vm_keep T s T' s'"
    using fresh_Cons [OF a(5) r(4) a(7-9) r(6)] vm_keep_trans [OF a(5) r(4)] by blast+
  moreover have "length (c # cs) = Suc k" "length ps \<le> length ps' + 3 * Suc k"
    using r(1,5) a(6) by simp_all
  ultimately show ?case
    using r(3) by blast
qed

section \<open>The two mapping routines\<close>

lemma fresh_keep: "fresh T T1 (mem s1) cs \<Longrightarrow> vm_keep T1 s1 T2 s2 \<Longrightarrow> fresh T T2 (mem s2) cs"
  using zero_page_keep [of T1 s1 T2 s2] unfolding fresh_def by (auto simp: vm_keep_def)

text \<open>The entries after all 32 pages below and including \<open>P\<close> are mapped to the pages \<open>cs\<close>, twice over.\<close>

definition ring_set :: "u64 set \<Rightarrow> memory \<Rightarrow> memory \<Rightarrow> u64 \<Rightarrow> nat \<Rightarrow> u64 list \<Rightarrow> bool" where
  "ring_set roots m m' root P cs \<longleftrightarrow>
     (\<forall>rt\<in>roots. \<forall>v<NPAGES. pte_pg m' rt v =
        (if rt = root \<and> v \<le> P \<and> P < v + 32 then leaf (cs ! ((P - v) mod 16)) else pte_pg m rt v))"

lemma mappages_new_ok:
  assumes inv: "vm_inv T s ps roots" and root: "root \<in> roots" and P: "31 \<le> P" "P < NPAGES"
    and rb: "refcount rb = 0" "length (buf rb) = 16" and len: "80 \<le> length ps"
    and un: "\<And>j. j < 32 \<Longrightarrow> \<not> pte_valid (pte_pg (mem s) root (P - j))"
  shows "\<exists>s' T' ps' cs. length cs = 16 \<and>
    mappages_to_proc s root rb (pgva P) 32 = Inr (s', rb\<lparr>buf := cs\<rparr>, 0) \<and> vm_inv T' s' ps' roots \<and>
    vm_keep T s T' s' \<and> length ps \<le> length ps' + 80 \<and> fresh T T' (mem s') cs \<and>
    ring_set roots (mem s) (mem s') root P cs"
proof -
  have "3 * 16 \<le> length ps" "0 + 16 \<le> Suc P" "0 + 16 \<le> (16::nat)"
    using len P by simp_all
  then obtain s1 T1 ps1 cs where 1: "length cs = 16"
    "map_new_loop (16 + 16) 0 s root rb (pgva P) =
       map_new_loop 16 (0 + 16) s1 root (rb\<lparr>buf := take 0 (buf rb) @ cs @ drop (0 + 16) (buf rb)\<rparr>) (pgva P)"
    "vm_inv T1 s1 ps1 roots" "vm_keep T s T1 s1" "length ps \<le> length ps1 + 3 * 16" "fresh T T1 (mem s1) cs"
    "\<forall>rt\<in>roots. \<forall>v<NPAGES. pte_pg (mem s1) rt v =
       (if rt = root \<and> 0 + v \<le> P \<and> P < 0 + v + 16 then leaf (cs ! (P - v - 0)) else pte_pg (mem s) rt v)"
    using map_new_ok [OF inv root P(2) _ _ rb(2), of 0 16 16] un by (auto 0 0)
  have data: "T1 (cs ! j) = PData" if "j < 16" for j
    using 1(1,6) that by (auto simp: fresh_def)
  have un1: "\<not> pte_valid (pte_pg (mem s1) root (P - j))" if "16 \<le> j" "j < 16 + 16" for j
    using 1(7) root un [of j] that P by auto
  have "16 + 16 \<le> Suc P" "2 * 16 \<le> length ps1"
    using P len 1(5) by simp_all
  then obtain s2 T2 ps2 where 2: "vmap.map_seq s1 (ring_pairs root P cs 16 16) = Inr (s2, 0)"
    "vm_inv T2 s2 ps2 roots" "vm_keep T1 s1 T2 s2" "length ps1 \<le> length ps2 + 2 * 16"
    "\<forall>rt\<in>roots. \<forall>v<NPAGES. pte_pg (mem s2) rt v =
       (if rt = root \<and> 16 + v \<le> P \<and> P < 16 + v + 16 then leaf (cs ! ((P - v) mod 16)) else pte_pg (mem s1) rt v)"
    using map_run_ok [OF 1(3) root P(2) _ _ data un1] by blast
  have "mappages_to_proc s root rb (pgva P) 32 = Inr (s2, rb\<lparr>buf := cs\<rparr>, 0)"
    using 1(2) 2(1) rb map_new_loop_seq [of 16 16 P s1 root "rb\<lparr>buf := cs\<rparr>"] P by (simp add: mappages_to_proc_def)
  moreover have "ring_set roots (mem s) (mem s2) root P cs"
    unfolding ring_set_def using 1(7) 2(5) by auto
  ultimately show ?thesis
    using 1(1) 2(2) vm_keep_trans [OF 1(4) 2(3)] fresh_keep [OF 1(6) 2(3)] 1(5) 2(4)
    by (intro exI [of _ s2] exI [of _ T2]) force
qed

lemma mappages_old_ok:
  assumes inv: "vm_inv T s ps roots" and root: "root \<in> roots" and P: "31 \<le> P" "P < NPAGES"
    and rb: "refcount rb > 0" and len: "64 \<le> length ps"
    and data: "\<And>j. j < 16 \<Longrightarrow> T (buf rb ! j) = PData"
    and un: "\<And>j. j < 32 \<Longrightarrow> \<not> pte_valid (pte_pg (mem s) root (P - j))"
  shows "\<exists>s' T' ps'. mappages_to_proc s root rb (pgva P) 32 = Inr (s', rb, 0) \<and> vm_inv T' s' ps' roots \<and>
    vm_keep T s T' s' \<and> length ps \<le> length ps' + 64 \<and> ring_set roots (mem s) (mem s') root P (buf rb)"
proof -
  have "0 + 32 \<le> Suc P" "2 * 32 \<le> length ps"
    using P len by simp_all
  then obtain s' T' ps' where r: "vmap.map_seq s (ring_pairs root P (buf rb) 0 32) = Inr (s', 0)"
    "vm_inv T' s' ps' roots" "vm_keep T s T' s'" "length ps \<le> length ps' + 2 * 32"
    "\<forall>rt\<in>roots. \<forall>v<NPAGES. pte_pg (mem s') rt v =
       (if rt = root \<and> 0 + v \<le> P \<and> P < 0 + v + 32 then leaf (buf rb ! ((P - v) mod 16)) else pte_pg (mem s) rt v)"
    using map_run_ok [OF inv root P(2) _ _ data, of 0 32] un by (auto 0 0)
  then have "mappages_to_proc s root rb (pgva P) 32 = Inr (s', rb, 0)"
    using rb map_old_loop_seq [of 0 32 P s root rb] P by (simp add: mappages_to_proc_def)
  moreover have "ring_set roots (mem s) (mem s') root P (buf rb)"
    using r(5) by (simp add: ring_set_def)
  ultimately show ?thesis
    using r(2-4) by (intro exI [of _ s'] exI [of _ T']) auto
qed

lemma map_or_free_0D:
  "map_or_free s root va pa = Inr (s', 0) \<Longrightarrow> mappages s root va 4096 pa RWXU = Inr (s', 0)"
  by (auto simp: map_or_free_def fault_simps split: if_splits prod.splits)

definition one_set :: "u64 set \<Rightarrow> memory \<Rightarrow> memory \<Rightarrow> u64 \<Rightarrow> nat \<Rightarrow> u64 \<Rightarrow> bool" where
  "one_set roots m m' root v pa \<longleftrightarrow>
     (\<forall>rt\<in>roots. \<forall>w<NPAGES. pte_pg m' rt w = (if rt = root \<and> w = v then leaf pa else pte_pg m rt w))"

lemma mappage_to_book_new_ok:
  assumes inv: "vm_inv T s ps roots" and root: "root \<in> roots" and v: "v < NPAGES"
    and rb: "refcount rb = 0" and len: "3 \<le> length ps" and un: "\<not> pte_valid (pte_pg (mem s) root v)"
  shows "\<exists>s' T' ps' c. mappage_to_book s root rb (pgva v) = Inr (s', rb\<lparr>book := c\<rparr>, 0) \<and>
    vm_inv T' s' ps' roots \<and> vm_keep T s T' s' \<and> length ps \<le> length ps' + 3 \<and> fresh T T' (mem s') [c] \<and>
    one_set roots (mem s) (mem s') root v c"
proof -
  obtain s1 c s' T' ps' where a: "kalloc s = Inr (s1, c)" "c \<noteq> 0"
    "map_or_free (s1\<lparr>mem := memset (mem s1) c 0 4096\<rparr>) root (pgva v) c = Inr (s', 0)"
    "vm_inv T' s' ps' roots" "vm_keep T s T' s'" "length ps \<le> length ps' + 3"
    "T c \<noteq> PData" "T' c = PData" "zero_page (mem s') c"
    "\<forall>rt\<in>roots. \<forall>w<NPAGES. pte_pg (mem s') rt w = (if rt = root \<and> w = v then leaf c else pte_pg (mem s) rt w)"
    using alloc_map_ok [OF inv root v un len] by blast
  have "mappage_to_book s root rb (pgva v) = Inr (s', rb\<lparr>book := c\<rparr>, 0)"
    using a(1,2) map_or_free_0D [OF a(3)] rb by (simp add: mappage_to_book_def)
  moreover have "fresh T T' (mem s') [c]" "one_set roots (mem s) (mem s') root v c"
    using a(7-10) by (simp_all add: fresh_def one_set_def)
  ultimately show ?thesis
    using a(4-6) by blast
qed

lemma mappage_to_book_old_ok:
  assumes inv: "vm_inv T s ps roots" and root: "root \<in> roots" and v: "v < NPAGES"
    and rb: "refcount rb > 0" "T (book rb) = PData" and len: "2 \<le> length ps"
    and un: "\<not> pte_valid (pte_pg (mem s) root v)"
  shows "\<exists>s' T' ps'. mappage_to_book s root rb (pgva v) = Inr (s', rb, 0) \<and>
    vm_inv T' s' ps' roots \<and> vm_keep T s T' s' \<and> length ps \<le> length ps' + 2 \<and>
    one_set roots (mem s) (mem s') root v (book rb)"
proof -
  obtain s' T' ps' where a: "map_or_free s root (pgva v) (book rb) = Inr (s', 0)"
    "vm_inv T' s' ps' roots" "vm_keep T s T' s'" "length ps \<le> length ps' + 2"
    "one_set roots (mem s) (mem s') root v (book rb)"
    using map_or_free_ok [OF inv root v un rb(2) len] unfolding one_set_def by blast
  have "mappage_to_book s root rb (pgva v) = Inr (s', rb, 0)"
    using map_or_free_0D [OF a(1)] rb by (simp add: mappage_to_book_def)
  then show ?thesis
    using a(2-5) by blast
qed

section \<open>Opening a ring buffer\<close>

text \<open>
  The whole window of an open ring: pages \<open>P - 31, \<dots>, P\<close> are the 16 pages \<open>cs\<close> twice over (in
  descending order) and page \<open>P - 32\<close> is the book page \<open>bk\<close>. Nothing else changes.
\<close>

definition window_set :: "u64 set \<Rightarrow> memory \<Rightarrow> memory \<Rightarrow> u64 \<Rightarrow> nat \<Rightarrow> u64 list \<Rightarrow> u64 \<Rightarrow> bool" where
  "window_set roots m m' root P cs bk \<longleftrightarrow>
     (\<forall>rt\<in>roots. \<forall>v<NPAGES. pte_pg m' rt v =
        (if rt = root \<and> v \<le> P \<and> P \<le> v + 32
         then leaf (if P = v + 32 then bk else cs ! ((P - v) mod 16)) else pte_pg m rt v))"

lemma ring_book_window:
  assumes "ring_set roots m m1 root P cs" and "one_set roots m1 m2 root (P - 32) bk" and "32 \<le> P"
  shows "window_set roots m m2 root P cs bk"
  unfolding window_set_def
proof (intro ballI allI impI)
  fix rt v
  assume "rt \<in> roots" "v < NPAGES"
  then show "pte_pg m2 rt v = (if rt = root \<and> v \<le> P \<and> P \<le> v + 32
      then leaf (if P = v + 32 then bk else cs ! ((P - v) mod 16)) else pte_pg m rt v)"
    using assms unfolding ring_set_def one_set_def by (cases "P = v + 32") auto
qed

lemma validate_pages_ok:
  assumes "vm_inv T s ps roots" and "root \<in> roots" and "v < NPAGES" and "upage (mem s) root v"
  shows "validate_pages s root (pgva v) = Inr 0"
  using walkaddr_pg [OF assms(1-3)] assms(4) by (auto simp: validate_pages_def)

text \<open>In the range the search looks at, a process has no mapping that is not a user mapping.\<close>

definition only_user :: "memory \<Rightarrow> u64 \<Rightarrow> bool" where
  "only_user m root \<longleftrightarrow> (\<forall>v. KPAGE < v \<and> v \<le> TOP \<longrightarrow> pte_valid (pte_pg m root v) \<longrightarrow> upage m root v)"

lemma fits_room:
  assumes "fits m root 34 b" and "only_user m root" and "1 \<le> j" and "j \<le> 33"
  shows "\<not> pte_valid (pte_pg m root (b - j))" and "34 \<le> b" and "b \<le> TOP"
proof -
  have b: "KPAGE + 34 \<le> b" "b \<le> TOP"
    using assms(1) unfolding fits_def by auto
  have "\<not> upage m root (b - j)"
    using assms(1,3,4) unfolding fits_def by (auto dest: spec [of _ j] spec [of _ "j - 1"])
  moreover have "KPAGE < b - j" "b - j \<le> TOP"
    using b assms(4) by auto
  ultimately show "\<not> pte_valid (pte_pg m root (b - j))"
    using assms(2) by (auto simp: only_user_def)
  show "34 \<le> b" "b \<le> TOP"
    using b by simp_all
qed

lemma copyout_user_addr_ok:
  assumes inv: "vm_inv T s ps roots" and root: "root \<in> roots" and ok: "user_ok (mem s) root addr 8"
  shows "\<exists>m'. copyout_user_addr s root v addr = Inr (s\<lparr>mem := m'\<rparr>, 0) \<and> vm_inv T (s\<lparr>mem := m'\<rparr>) ps roots \<and>
    pte_same roots (mem s) m' \<and> user_read m' root addr 8 = Some (map (u64_bytes v) [0..<8]) \<and>
    (\<forall>x. (\<forall>i<8. xlate (mem s) root (addr + of_nat i) \<noteq> Some x) \<longrightarrow> m' x = mem s x)"
proof -
  let ?bs = "map (u64_bytes v) [0..<8]"
  have lbs: "length ?bs = 8"
    by simp
  obtain m' where w: "user_write (mem s) root addr ?bs = Some m'"
    using user_write_Some [OF inv root, of addr ?bs] ok lbs by auto
  obtain m'' where c: "copyout_ok T s ps roots root addr (u64_bytes v) 8 m''"
    using copyout_spec [OF inv root] by blast
  then have "copyout s root addr (u64_bytes v) 8 = Inr (s\<lparr>mem := m'\<rparr>, 0)"
    using w by (simp add: copyout_ok_def del: upt_rec_numeral)
  then have "copyout_user_addr s root v addr = Inr (s\<lparr>mem := m'\<rparr>, 0)"
    by (simp add: copyout_user_addr_def)
  moreover have "user_read m' root addr 8 = Some ?bs \<and> pte_same roots (mem s) m' \<and> vm_inv T (s\<lparr>mem := m'\<rparr>) ps roots"
    using user_write_read [OF inv root w] lbs by (simp del: upt_rec_numeral)
  moreover have "m' x = mem s x" if "\<forall>i<8. xlate (mem s) root (addr + of_nat i) \<noteq> Some x" for x
    using user_write_frame [OF inv root w] that lbs by (simp del: upt_rec_numeral)
  ultimately show ?thesis
    by blast
qed

lemma xlate_window:
  assumes "window_set roots m m' root P cs bk" and "root \<in> roots"
    and "\<And>j. j \<le> 32 \<Longrightarrow> \<not> pte_valid (pte_pg m root (P - j))" and "xlate m root va = Some a"
  shows "xlate m' root va = Some a"
proof -
  have va: "va < MAXVA" and u: "user_pte (pte_pg m root (page_no va))"
    using assms(4) by (simp_all add: xlate_def pte_at_pg split: if_splits)
  have "P - page_no va \<le> 32" "P - (P - page_no va) = page_no va" if "page_no va \<le> P \<and> P \<le> page_no va + 32"
    using that by auto
  then have "\<not> (page_no va \<le> P \<and> P \<le> page_no va + 32)"
    using assms(3) [of "P - page_no va"] u by (auto simp: user_pte_def)
  then have "pte_pg m' root (page_no va) = pte_pg m root (page_no va)"
    using assms(1,2) pgva_page_no [OF va] by (auto simp: window_set_def)
  then show ?thesis
    using assms(4) va by (auto simp: xlate_def pte_at_pg split: if_splits)
qed

lemma user_ok_window:
  assumes "window_set roots m m' root P cs bk" and "root \<in> roots"
    and "\<And>j. j \<le> 32 \<Longrightarrow> \<not> pte_valid (pte_pg m root (P - j))" and "user_ok m root addr n"
  shows "user_ok m' root addr n"
  using xlate_window [OF assms(1-3)] assms(4) unfolding user_ok_def by blast

lemma kmem_more_kstate:
  "kmem.more s' = kmem.more s \<Longrightarrow> ringbufs s' = ringbufs s \<and> ringbuf_lock s' = ringbuf_lock s \<and>
     kstate.more s' = kstate.more s" for s s' :: "'a kstate_scheme"
  by (cases s; cases s') simp

lemma vm_inv_ringbufs [simp]: "vm_inv T (s\<lparr>ringbufs := x\<rparr>) ps roots = vm_inv T s ps roots"
  by (simp add: vm_inv_def kmem_inv_def)

text \<open>What opening a ring leaves of the rest of the system.\<close>

definition opened ::
    "u64 set \<Rightarrow> (u64 \<Rightarrow> pkind) \<Rightarrow> 'a kstate_scheme \<Rightarrow> (u64 \<Rightarrow> pkind) \<Rightarrow> 'a kstate_scheme \<Rightarrow> u64 list \<Rightarrow>
     u64 \<Rightarrow> nat \<Rightarrow> ringbuf \<Rightarrow> u64 \<Rightarrow> bool" where
  "opened roots T s T' s' ps' root P rb addr \<longleftrightarrow>
     vm_inv T' s' ps' roots \<and> window_set roots (mem s) (mem s') root P (buf rb) (book rb) \<and>
     (\<forall>p. T p = PData \<longrightarrow> T' p = PData) \<and>
     user_read (mem s') root addr 8 = Some (map (u64_bytes (pgva P)) [0..<8]) \<and>
     (\<forall>p x. T p = PData \<and> page_no x = page_no p \<and> (\<forall>i<8. xlate (mem s) root (addr + of_nat i) \<noteq> Some x)
        \<longrightarrow> mem s' x = mem s x) \<and>
     ringbuf_lock s' = ringbuf_lock s \<and> settle (hart s') = settle (hart s)"

lemma opened_ringbufs [simp]:
  "opened roots T s T' (s'\<lparr>ringbufs := x\<rparr>) ps' root P rb addr = opened roots T s T' s' ps' root P rb addr"
  unfolding opened_def by simp

text \<open>The structure of a ring in use: 17 different data pages.\<close>

definition ring_ok :: "(u64 \<Rightarrow> pkind) \<Rightarrow> ringbuf \<Rightarrow> bool" where
  "ring_ok T rb \<longleftrightarrow> length (buf rb) = 16 \<and> distinct (book rb # buf rb) \<and> (\<forall>c\<in>set (book rb # buf rb). T c = PData)"

text \<open>The part common to creating and appending, once both mapping routines have returned.\<close>

lemma open_finish:
  assumes inv: "vm_inv T2 s2 ps2 roots" and root: "root \<in> roots" and keep: "vm_keep T s T2 s2"
    and win: "window_set roots (mem s) (mem s2) root P (buf rb) (book rb)"
    and un: "\<And>j. j \<le> 32 \<Longrightarrow> \<not> pte_valid (pte_pg (mem s) root (P - j))" and ok: "user_ok (mem s) root addr 8"
  shows "\<exists>s3. copyout_user_addr s2 root (pgva P) addr = Inr (s3, 0) \<and> opened roots T s T2 s3 ps2 root P rb addr \<and>
    ringbufs s3 = ringbufs s \<and> kmem.more s3 = kmem.more s \<and>
    (\<forall>x. (\<forall>i<8. xlate (mem s) root (addr + of_nat i) \<noteq> Some x) \<longrightarrow> mem s3 x = mem s2 x)"
proof -
  obtain m' where c: "copyout_user_addr s2 root (pgva P) addr = Inr (s2\<lparr>mem := m'\<rparr>, 0)"
    "vm_inv T2 (s2\<lparr>mem := m'\<rparr>) ps2 roots" "pte_same roots (mem s2) m'"
    "user_read m' root addr 8 = Some (map (u64_bytes (pgva P)) [0..<8])"
    "\<And>x. \<forall>i<8. xlate (mem s2) root (addr + of_nat i) \<noteq> Some x \<Longrightarrow> m' x = mem s2 x"
    using copyout_user_addr_ok [OF inv root user_ok_window [OF win root un ok]] by blast
  have x: "xlate (mem s2) root (addr + of_nat i) = xlate (mem s) root (addr + of_nat i)" if "i < 8" for i
    using ok that xlate_window [OF win root un] by (auto simp: user_ok_def)
  have frame: "m' x = mem s2 x" if "\<forall>i<8. xlate (mem s) root (addr + of_nat i) \<noteq> Some x" for x
    using c(5) x that by simp
  have "window_set roots (mem s) m' root P (buf rb) (book rb)"
    using win c(3) pgva_props(4) unfolding window_set_def pte_same_def pte_pg_def by simp
  moreover have "ringbufs s2 = ringbufs s \<and> ringbuf_lock s2 = ringbuf_lock s"
    using keep kmem_more_kstate [of s2 s] by (simp add: vm_keep_def)
  moreover have "mem s2 x = mem s x" if "T p = PData" "page_no x = page_no p" for p x
    using keep that by (simp add: vm_keep_def)
  ultimately have "opened roots T s T2 (s2\<lparr>mem := m'\<rparr>) ps2 root P rb addr"
    using c(2,4) keep frame unfolding opened_def by (auto simp: vm_keep_def)
  then show ?thesis
    using c(1) frame keep \<open>ringbufs s2 = ringbufs s \<and> _\<close> by (intro exI [of _ "s2\<lparr>mem := m'\<rparr>"]) (simp add: vm_keep_def)
qed

lemma fresh_snoc:
  assumes "fresh T T1 (mem s1) cs" and "vm_keep T s T1 s1" and "fresh T1 T2 (mem s2) [c]" and "vm_keep T1 s1 T2 s2"
  shows "fresh T T2 (mem s2) (c # cs)"
  using fresh_keep [OF assms(1,4)] assms(1-3) unfolding fresh_def by (auto simp: vm_keep_def)

lemma zero_page_other:
  assumes inv: "vm_inv T s ps roots" and root: "root \<in> roots" and c: "pg_aligned c" "T c \<noteq> PData"
    and frame: "\<And>x. \<forall>i<8. xlate (mem s) root (addr + of_nat i) \<noteq> Some x \<Longrightarrow> m' x = m x" and z: "zero_page m c"
  shows "zero_page m' c"
proof (unfold zero_page_def, intro allI impI)
  fix x
  assume x: "page_no x = page_no c"
  have "xlate (mem s) root va \<noteq> Some x" for va
  proof
    assume "xlate (mem s) root va = Some x"
    then have "user_pte (pte_at (mem s) root va)" "page_no x = page_no (PTE2PA (pte_at (mem s) root va))"
      by (auto simp: xlate_def page_no_off split: if_splits)
    then show False
      using user_pte_data [OF inv root] page_no_inj [OF _ c(1)] x c(2) PTE2PA_aligned by metis
  qed
  then show "m' x = 0"
    using frame [of x] z x by (simp add: zero_page_def)
qed

lemma ring_set_at:
  assumes "ring_set roots m m' root P cs" and "root \<in> roots" and "P < NPAGES" and "j < 32" and "j \<le> P"
  shows "pte_pg m' root (P - j) = leaf (cs ! (j mod 16))"
proof -
  have "P - j < NPAGES" "P < P - j + 32" "P - (P - j) = j"
    using assms(3-5) by simp_all
  then show ?thesis
    using assms(1,2) unfolding ring_set_def by simp
qed

lemma create_ok:
  assumes inv: "vm_inv T s ps roots" and root: "root \<in> roots" and ou: "only_user (mem s) root"
    and find: "find_contiguous_pages s root 34 = Inr (0, pgva (Suc P))" and fits: "fits (mem s) root 34 (Suc P)"
    and len: "83 \<le> length ps" and ok: "user_ok (mem s) root addr 8"
    and idx: "get_ringbuf_index s < 10" and junk: "length (buf junk) = 16"
  shows "\<exists>s' T' ps' rb. create_ringbuf s root junk name addr = Inr (s', 0) \<and>
    opened roots T s T' s' ps' root P rb addr \<and> ring_ok T' rb \<and>
    (\<forall>c\<in>set (book rb # buf rb). T c \<noteq> PData \<and> zero_page (mem s') c) \<and>
    ringbufs s' = (ringbufs s)[get_ringbuf_index s := rb] \<and> refcount rb = 1 \<and> length ps \<le> length ps' + 83 \<and>
    rb_name rb = strncpy (rb_name junk) name 16"
proof -
  have P: "32 \<le> P" "31 \<le> P" "P < NPAGES" "P - 32 < NPAGES"
    using fits_room(2,3) [OF fits ou, of 1] by simp_all
  have un: "\<not> pte_valid (pte_pg (mem s) root (P - j))" if "j \<le> 32" for j
    using fits_room(1) [OF fits ou, of "Suc j"] that by simp
  let ?rb0 = "junk\<lparr>refcount := 0, rb_name := strncpy (rb_name junk) name 16\<rparr>"
  obtain s1 T1 ps1 cs where 1: "length cs = 16" "mappages_to_proc s root ?rb0 (pgva P) 32 = Inr (s1, ?rb0\<lparr>buf := cs\<rparr>, 0)"
    "vm_inv T1 s1 ps1 roots" "vm_keep T s T1 s1" "length ps \<le> length ps1 + 80" "fresh T T1 (mem s1) cs"
    "ring_set roots (mem s) (mem s1) root P cs"
    using mappages_new_ok [OF inv root P(2,3), of ?rb0] junk len un by auto
  let ?rb1 = "?rb0\<lparr>buf := cs\<rparr>"
  have al: "pg_aligned c" if "T1 c = PData" for c
    using vm_inv_aligned [OF 1(3), of c] that by simp
  have "T1 (cs ! 0) = PData"
    using 1(1,6) by (simp add: fresh_def)
  then have "upage (mem s1) root P"
    using ring_set_at [OF 1(7) root P(3), of 0] leaf_facts(3) [OF al] by (simp add: upage_def)
  then have v1: "validate_pages s1 root (pgva P) = Inr 0"
    by (rule validate_pages_ok [OF 1(3) root P(3)])
  have un1: "\<not> pte_valid (pte_pg (mem s1) root (P - 32))"
    using un [of 32] 1(7) root P by (auto simp: ring_set_def)
  obtain s2 T2 ps2 bk where 2: "mappage_to_book s1 root ?rb1 (pgva (P - 32)) = Inr (s2, ?rb1\<lparr>book := bk\<rparr>, 0)"
    "vm_inv T2 s2 ps2 roots" "vm_keep T1 s1 T2 s2" "fresh T1 T2 (mem s2) [bk]" "length ps1 \<le> length ps2 + 3"
    "one_set roots (mem s1) (mem s2) root (P - 32) bk"
    using mappage_to_book_new_ok [OF 1(3) root P(4) _ _ un1, of ?rb1] 1(5) len by auto
  let ?rb = "?rb1\<lparr>book := bk, refcount := 1\<rparr>"
  have "T2 bk = PData" "pg_aligned bk"
    using 2(4) vm_inv_aligned [OF 2(2), of bk] by (simp_all add: fresh_def)
  then have "upage (mem s2) root (P - 32)"
    using 2(6) root P leaf_facts(3) by (simp add: upage_def one_set_def)
  then have v2: "validate_pages s2 root (pgva (P - 32)) = Inr 0"
    by (rule validate_pages_ok [OF 2(2) root P(4)])
  have win: "window_set roots (mem s) (mem s2) root P (buf ?rb) (book ?rb)"
    using ring_book_window [OF 1(7) 2(6) P(1)] by simp
  note keep = vm_keep_trans [OF 1(4) 2(3)]
  obtain s3 where 3: "copyout_user_addr s2 root (pgva P) addr = Inr (s3, 0)" "opened roots T s T2 s3 ps2 root P ?rb addr"
    "ringbufs s3 = ringbufs s" "\<And>x. \<forall>i<8. xlate (mem s) root (addr + of_nat i) \<noteq> Some x \<Longrightarrow> mem s3 x = mem s2 x"
    using open_finish [OF 2(2) root keep win un ok] by blast
  let ?s' = "s3\<lparr>ringbufs := (ringbufs s3)[get_ringbuf_index s := ?rb]\<rparr>"
  have "pgva (Suc P) - 4096 = pgva P" "pgva P - of_nat 32 * 4096 = pgva (P - 32)"
    using pgva_sub [of 1 "Suc P"] pgva_sub [of 32 P] P by simp_all
  moreover have "get_ringbuf_index s3 = get_ringbuf_index s"
    using 3(3) by (simp add: get_ringbuf_index_def)
  ultimately have "create_ringbuf s root junk name addr = Inr (?s', 0)"
    using find 1(2) v1 2(1) v2 3(1) idx by (simp add: create_ringbuf_def Let_def)
  moreover have "opened roots T s T2 ?s' ps2 root P ?rb addr"
    using 3(2) by simp
  moreover have fr: "fresh T T2 (mem s2) (bk # cs)"
    using fresh_snoc [OF 1(6,4) 2(4,3)] .
  moreover have "zero_page (mem s3) c" if "c \<in> set (bk # cs)" for c
  proof (rule zero_page_other [OF inv root _ _ 3(4)])
    show "pg_aligned c" "T c \<noteq> PData" "zero_page (mem s2) c"
      using fr that vm_inv_aligned [OF 2(2), of c] by (auto simp: fresh_def)
  qed
  ultimately show ?thesis
    using 1(1,5) 2(5) 3(3) by (intro exI [of _ ?s'] exI [of _ T2] exI [of _ ps2] exI [of _ ?rb])
      (auto simp: ring_ok_def fresh_def)
qed

end
