(* ===== verification/Ringbuf_life.thy ===== *)
theory Ringbuf_life
  imports Ringbuf_spec
begin

text \<open>
  The life of a ring buffer: created by one process, appended by another, closed by both. The
  properties of the system call, over all its paths, and the cases in which it does not do what
  it is meant to do.
\<close>

section \<open>Appending\<close>

lemma append_ok:
  assumes inv: "vm_inv T s ps roots" and root: "root \<in> roots"
    and name: "find_name (ringbufs s) name = Some idx" "rb = ringbufs s ! idx"
    and rb: "refcount rb > 0" "ring_ok T rb"
    and find: "find_contiguous_pages s root 34 = Inr (0, pgva (Suc (Suc P)))" and P: "32 \<le> P" "Suc (Suc P) \<le> TOP"
    and un: "\<And>j. j \<le> 32 \<Longrightarrow> \<not> pte_valid (pte_pg (mem s) root (P - j))"
    and len: "66 \<le> length ps" and ok: "user_ok (mem s) root addr 8"
  shows "\<exists>s' T' ps'. append_ringbuf s root name addr = Inr (s', 0) \<and>
    opened roots T s T' s' ps' root P rb addr \<and> ring_ok T' rb \<and>
    ringbufs s' = (ringbufs s)[idx := rb\<lparr>refcount := refcount rb + 1\<rparr>]"
proof -
  have P': "31 \<le> P" "P < NPAGES" "P - 32 < NPAGES"
    using P by simp_all
  have data: "T (buf rb ! j) = PData" if "j < 16" for j
    using rb(2) that by (auto simp: ring_ok_def)
  obtain s1 T1 ps1 where 1: "mappages_to_proc s root rb (pgva P) 32 = Inr (s1, rb, 0)"
    "vm_inv T1 s1 ps1 roots" "vm_keep T s T1 s1" "length ps \<le> length ps1 + 64"
    "ring_set roots (mem s) (mem s1) root P (buf rb)"
    using mappages_old_ok [OF inv root P'(1,2) rb(1) _ data] len un by auto
  have un1: "\<not> pte_valid (pte_pg (mem s1) root (P - 32))"
    using un [of 32] 1(5) root P' P(1) by (auto simp: ring_set_def)
  have "T1 (book rb) = PData"
    using rb(2) 1(3) by (simp add: ring_ok_def vm_keep_def)
  then obtain s2 T2 ps2 where 2: "mappage_to_book s1 root rb (pgva (P - 32)) = Inr (s2, rb, 0)"
    "vm_inv T2 s2 ps2 roots" "vm_keep T1 s1 T2 s2" "one_set roots (mem s1) (mem s2) root (P - 32) (book rb)"
    using mappage_to_book_old_ok [OF 1(2) root P'(3) rb(1) _ _ un1] 1(4) len by auto
  note keep = vm_keep_trans [OF 1(3) 2(3)]
  have more: "ringbufs s1 = ringbufs s" "ringbufs s2 = ringbufs s"
    using 1(3) keep kmem_more_kstate [of s1 s] kmem_more_kstate [of s2 s] by (simp_all add: vm_keep_def)
  obtain s3 where 3: "copyout_user_addr s2 root (pgva P) addr = Inr (s3, 0)" "opened roots T s T2 s3 ps2 root P rb addr"
    "ringbufs s3 = ringbufs s"
    using open_finish [OF 2(2) root keep ring_book_window [OF 1(5) 2(4) P(1)] un ok] by blast
  have va: "pgva (Suc (Suc P)) - 4096 - 4096 = pgva P" "pgva P - of_nat 32 * 4096 = pgva (P - 32)"
    using pgva_sub [of 1 "Suc (Suc P)"] pgva_sub [of 1 "Suc P"] pgva_sub [of 32 P] P P' by simp_all
  have id: "s1\<lparr>ringbufs := (ringbufs s1)[idx := rb]\<rparr> = s1" "s2\<lparr>ringbufs := (ringbufs s2)[idx := rb]\<rparr> = s2"
    using more name(2) by (simp_all add: list_update_id)
  let ?s' = "s3\<lparr>ringbufs := (ringbufs s3)[idx := rb\<lparr>refcount := refcount rb + 1\<rparr>]\<rparr>"
  have "append_ringbuf s root name addr = Inr (?s', 0)"
    using name find 1(1) 2(1) 3(1) va id by (simp add: append_ringbuf_def Let_def)
  moreover have "ring_ok T2 rb"
    using rb(2) keep by (simp add: ring_ok_def vm_keep_def)
  ultimately show ?thesis
    using 3(2,3) by (intro exI [of _ ?s'] exI [of _ T2]) auto
qed

section \<open>Unmapping\<close>

lemma pte_clear_pg:
  assumes "pte_clear roots m m' root (pgva a) n" and "a < NPAGES" and "rt \<in> roots" and "v < NPAGES"
  shows "pte_pg m' rt v = (if rt = root \<and> a \<le> v \<and> v < a + n then 0 else pte_pg m rt v)"
  using assms pgva_props [OF assms(2)] pgva_props [OF assms(4)] unfolding pte_clear_def pte_pg_def by simp

lemma uvmunmap_pages:
  assumes inv: "vm_inv T s ps roots" and root: "root \<in> roots" and a: "a + n \<le> NPAGES" "0 < n" "unat k = n"
    and leafs: "\<And>v. a \<le> v \<Longrightarrow> v < a + n \<Longrightarrow> leaf_pte (pte_pg (mem s) root v)"
  shows "\<exists>s'. uvmunmap s root (pgva a) k False = Inr s' \<and> vm_inv T s' ps roots \<and> vm_frame T s T s' \<and>
    (\<forall>rt\<in>roots. \<forall>v<NPAGES. pte_pg (mem s') rt v = (if rt = root \<and> a \<le> v \<and> v < a + n then 0 else pte_pg (mem s) rt v))"
proof -
  have lt: "a < NPAGES"
    using a by simp
  have "pgva a + of_nat (4096 * j) = pgva (a + j)" for j
    by (simp add: pgva_def algebra_simps)
  then have "leaf_pte (pte_at (mem s) root (pgva a + of_nat (4096 * j)))" if "j < n" for j
    using leafs [of "a + j"] that by (simp add: pte_pg_def)
  then obtain s' where s': "uvmunmap s root (pgva a) k False = Inr s'" "vm_inv T s' ps roots" "vm_frame T s T s'"
    "pte_clear roots (mem s) (mem s') root (pgva a) n"
    using uvmunmap_keep [OF inv root pgva_props(3) [OF lt], of k] pgva_props(1) [OF lt] a by auto
  then show ?thesis
    using pte_clear_pg [OF s'(4) lt] by blast
qed

text \<open>The window of an open ring in a process.\<close>

definition window :: "memory \<Rightarrow> u64 \<Rightarrow> nat \<Rightarrow> ringbuf \<Rightarrow> bool" where
  "window m root P rb \<longleftrightarrow> 32 \<le> P \<and> P < NPAGES \<and>
     (\<forall>v. v \<le> P \<and> P \<le> v + 32 \<longrightarrow>
        pte_pg m root v = leaf (if P = v + 32 then book rb else buf rb ! ((P - v) mod 16)))"

lemma opened_window:
  assumes "opened roots T s T' s' ps' root P rb addr" and "root \<in> roots" and "32 \<le> P" and "P < NPAGES"
  shows "window (mem s') root P rb"
  using assms unfolding opened_def window_set_def window_def by auto

definition window_clear :: "u64 set \<Rightarrow> memory \<Rightarrow> memory \<Rightarrow> u64 \<Rightarrow> nat \<Rightarrow> bool" where
  "window_clear roots m m' root P \<longleftrightarrow>
     (\<forall>rt\<in>roots. \<forall>v<NPAGES. pte_pg m' rt v = (if rt = root \<and> v \<le> P \<and> P \<le> v + 32 then 0 else pte_pg m rt v))"

lemma unmap_window:
  assumes inv: "vm_inv T s ps roots" and root: "root \<in> roots" and win: "window (mem s) root P rb" and rb: "ring_ok T rb"
  shows "\<exists>s2 s3. uvmunmap s root (pgva (P - 31)) 32 False = Inr s2 \<and>
    uvmunmap s2 root (pgva (P - 32)) 1 False = Inr s3 \<and> vm_inv T s3 ps roots \<and> vm_frame T s T s3 \<and>
    window_clear roots (mem s) (mem s3) root P"
proof -
  have P: "32 \<le> P" "P < NPAGES"
    using win by (simp_all add: window_def)
  have "leaf_pte (leaf c)" if "c \<in> set (book rb # buf rb)" for c
    using rb that vm_inv_aligned [OF inv, of c] leaf_facts(4) [of c] by (auto simp: ring_ok_def)
  then have leafs: "leaf_pte (pte_pg (mem s) root v)" if "v \<le> P" "P \<le> v + 32" for v
    using win rb that by (auto simp: window_def ring_ok_def)
  obtain s2 where 2: "uvmunmap s root (pgva (P - 31)) 32 False = Inr s2" "vm_inv T s2 ps roots" "vm_frame T s T s2"
    "\<forall>rt\<in>roots. \<forall>v<NPAGES. pte_pg (mem s2) rt v =
       (if rt = root \<and> P - 31 \<le> v \<and> v < P - 31 + 32 then 0 else pte_pg (mem s) rt v)"
    using uvmunmap_pages [OF inv root, of "P - 31" 32 32] P leafs by auto
  have "leaf_pte (pte_pg (mem s2) root (P - 32))"
    using 2(4) root P leafs [of "P - 32"] by auto
  moreover have "v = P - 32" if "P - 32 \<le> v" "v < P - 32 + 1" for v
    using that by simp
  ultimately have book: "leaf_pte (pte_pg (mem s2) root v)" if "P - 32 \<le> v" "v < P - 32 + 1" for v
    using that by metis
  obtain s3 where 3: "uvmunmap s2 root (pgva (P - 32)) 1 False = Inr s3" "vm_inv T s3 ps roots" "vm_frame T s2 T s3"
    "\<forall>rt\<in>roots. \<forall>v<NPAGES. pte_pg (mem s3) rt v =
       (if rt = root \<and> P - 32 \<le> v \<and> v < P - 32 + 1 then 0 else pte_pg (mem s2) rt v)"
  proof -
    have "P - 32 + 1 \<le> NPAGES" "0 < (1::nat)" "unat (1::u64) = 1"
      using P by simp_all
    from uvmunmap_pages [OF 2(2) root this book] that show thesis by blast
  qed
  have "window_clear roots (mem s) (mem s3) root P"
    unfolding window_clear_def using 2(4) 3(4) P by auto
  then show ?thesis
    using 2(1) 3(1,2) vm_frame_trans [OF 2(3) 3(3)] by blast
qed
lemma aligned_below:
  assumes "(a::nat) mod n = 0" and "b mod n = 0" and "a < b"
  shows "a + n \<le> b"
proof -
  obtain i j where "a = n * i" "b = n * j"
    using assms(1,2) by (auto simp: mod_eq_0_iff_dvd elim!: dvdE)
  moreover from this have "Suc i \<le> j"
    using assms(3) by (simp add: Suc_leI)
  ultimately show ?thesis
    using mult_le_mono2 [of "Suc i" j n] by simp
qed

lemma u64_bytes_ld64:
  assumes "\<And>i. i < 8 \<Longrightarrow> m (a + of_nat i) = u64_bytes v i"
  shows "ld64 m a = v"
proof (rule bit_eqI)
  fix n
  assume "possible_bit TYPE(64 word) n"
  then have n: "n < 64" by simp
  then have "n div 8 < 8" "8 * (n div 8) + n mod 8 = n"
    by linarith simp
  then show "bit (ld64 m a) n = bit v n"
    using assms [of "n div 8"] n by (simp add: bit_ld64 u64_bytes_def bit_simps)
qed

text \<open>The kernel reads the user's pointer variable through its physical address.\<close>

lemma kload_user:
  assumes inv: "vm_inv T s ps roots" and root: "root \<in> roots"
    and rd: "user_read (mem s) root addr 8 = Some (map (u64_bytes v) [0..<8])" and off: "unat addr mod 4096 \<le> 4088"
  shows "\<exists>pa. walkaddr s root addr = Inr pa \<and> kload64 s (pa + addr mod 4096) = Inr v"
proof -
  let ?e = "pte_at (mem s) root addr"
  have "xlate (mem s) root addr \<noteq> None"
    using rd user_read.simps(2) [of "mem s" root addr 7] by (auto split: option.splits)
  then have u: "addr < MAXVA" "user_pte ?e"
    by (auto simp: xlate_def split: if_splits)
  have w: "walkaddr s root addr = Inr (PTE2PA ?e)"
    using walkaddr_eq [OF inv root] u by simp
  have data: "T (PTE2PA ?e) = PData"
    using user_pte_data [OF inv root u(2)] .
  have off': "addr mod 4096 = addr - PGROUNDDOWN addr"
    by (rule u64_eqI) (simp add: unat_page_offset unat_mod)
  have "user_read (mem s) root addr 8 = Some (get_bytes (mem s) (PTE2PA ?e + addr mod 4096) 8)"
    unfolding off' using user_read_page [OF u, of 8] off by simp
  then have "get_bytes (mem s) (PTE2PA ?e + addr mod 4096) 8 = map (u64_bytes v) [0..<8]"
    using rd by simp
  then have "mem s (PTE2PA ?e + addr mod 4096 + of_nat i) = u64_bytes v i" if "i < 8" for i
    unfolding get_bytes_def map_eq_conv using that by simp
  then have ld: "ld64 (mem s) (PTE2PA ?e + addr mod 4096) = v"
    by (rule u64_bytes_ld64)
  have ram: "ram_page (kend s) (PTE2PA ?e)" "unat KERNBASE \<le> unat (kend s)"
    using vm_inv_ram [OF inv, of "PTE2PA ?e"] data inv by (simp_all add: vm_inv_def kmem_inv_def)
  then have "unat (PTE2PA ?e) + 4096 \<le> unat PHYSTOP"
    unfolding ram_page_def pg_aligned_def by (intro aligned_below) simp_all
  moreover have "unat (PTE2PA ?e + addr mod 4096) = unat (PTE2PA ?e) + unat addr mod 4096"
    using pg_aligned_add_unat [of "PTE2PA ?e" "unat (addr mod 4096)"] unfolding of_nat_unat64
    by (simp add: unat_mod)
  ultimately have "KERNBASE \<le> PTE2PA ?e + addr mod 4096" "PTE2PA ?e + addr mod 4096 \<le> PHYSTOP - 8"
    using ram off by (simp_all add: ram_page_def word_le_nat_alt unat_mod PHYSTOP_num)
  then show ?thesis
    using w ld by (simp add: kload64_def)
qed

text \<open>Giving pages back one after the other.\<close>

lemma pte_same_pg: "pte_same roots m m' \<Longrightarrow> rt \<in> roots \<Longrightarrow> v < NPAGES \<Longrightarrow> pte_pg m' rt v = pte_pg m rt v"
  using pgva_props(4) by (simp add: pte_same_def pte_pg_def)

lemma kfree_all_ok:
  assumes "vm_inv T s ps roots" and "distinct cs"
    and "\<And>c. c \<in> set cs \<Longrightarrow> T c = PData \<and> unmapped_page roots (mem s) c"
  shows "\<exists>s' T'. kfree_all s cs = Inr s' \<and> vm_inv T' s' (rev cs @ ps) roots \<and> pte_same roots (mem s) (mem s') \<and>
    (\<forall>p. T' p = (if p \<in> set cs then PFree else T p)) \<and>
    (\<forall>p x. T p = PData \<and> p \<notin> set cs \<and> page_no x = page_no p \<longrightarrow> mem s' x = mem s x) \<and>
    kend s' = kend s \<and> kmem.more s' = kmem.more s \<and> kmem_lock s' = kmem_lock s \<and> settle (hart s') = settle (hart s)"
  using assms
proof (induction cs arbitrary: T s ps)
  case Nil
  then show ?case
    by (intro exI [of _ s] exI [of _ T]) simp
next
  case (Cons c cs)
  have c: "T c = PData" "unmapped_page roots (mem s) c"
    using Cons.prems(3) [of c] by simp_all
  obtain s1 where 1: "kfree s c = Inr s1" "vm_inv (T(c := PFree)) s1 (c # ps) roots"
    "same_off_page c (mem s) (mem s1)" "pte_same roots (mem s) (mem s1)" "kend s1 = kend s"
    "kmem.more s1 = kmem.more s" "kmem_lock s1 = kmem_lock s" "settle (hart s1) = settle (hart s)"
    using kfree_data [OF Cons.prems(1) c] by blast
  have al: "pg_aligned c"
    using vm_inv_aligned [OF Cons.prems(1), of c] c(1) by simp
  have "(T(c := PFree)) d = PData \<and> unmapped_page roots (mem s1) d" if "d \<in> set cs" for d
    using Cons.prems(2) Cons.prems(3) [of d] that pte_same_pg [OF 1(4)] by (auto simp: unmapped_page_def)
  then obtain s' T' where 2: "kfree_all s1 cs = Inr s'" "vm_inv T' s' (rev cs @ c # ps) roots"
    "pte_same roots (mem s1) (mem s')" "\<forall>p. T' p = (if p \<in> set cs then PFree else (T(c := PFree)) p)"
    "\<forall>p x. (T(c := PFree)) p = PData \<and> p \<notin> set cs \<and> page_no x = page_no p \<longrightarrow> mem s' x = mem s1 x"
    "kend s' = kend s1" "kmem.more s' = kmem.more s1" "kmem_lock s' = kmem_lock s1" "settle (hart s') = settle (hart s1)"
    using Cons.IH [OF 1(2)] Cons.prems(2) by auto
  have "mem s' x = mem s x" if "T p = PData" "p \<notin> set (c # cs)" "page_no x = page_no p" for p x
  proof -
    have "page_no x \<noteq> page_no c"
      using that vm_inv_aligned [OF Cons.prems(1), of p] page_no_inj [OF _ al, of p] by auto
    then have "mem s1 x = mem s x"
      using 1(3) by (simp add: same_off_page_def)
    moreover have "mem s' x = mem s1 x"
      using that by (intro 2(5) [rule_format, of p]) simp
    ultimately show ?thesis
      by simp
  qed
  then have frame: "\<forall>p x. T p = PData \<and> p \<notin> set (c # cs) \<and> page_no x = page_no p \<longrightarrow> mem s' x = mem s x"
    by blast
  have kinds: "\<forall>p. T' p = (if p \<in> set (c # cs) then PFree else T p)"
    using 2(4) by simp
  have "kfree_all s (c # cs) = Inr s'" "vm_inv T' s' (rev (c # cs) @ ps) roots"
    using 1(1) 2(1,2) by simp_all
  then show ?case
    using frame kinds pte_same_trans [OF 1(4) 2(3)] 1(5-8) 2(6-9) by metis
qed

lemma unmap_common:
  assumes inv: "vm_inv T s ps roots" and root: "root \<in> roots"
    and name: "find_name (ringbufs s) name = Some idx" "rb = ringbufs s ! idx"
    and win: "window (mem s) root P rb" and rb: "ring_ok T rb"
    and rd: "user_read (mem s) root addr 8 = Some (map (u64_bytes (pgva P)) [0..<8])"
    and off: "unat addr mod 4096 \<le> 4088"
  defines "rb' \<equiv> rb\<lparr>refcount := refcount rb - 1\<rparr>"
  shows "\<exists>s3. vm_inv T s3 ps roots \<and> vm_frame T (s\<lparr>ringbufs := (ringbufs s)[idx := rb']\<rparr>) T s3 \<and>
    window_clear roots (mem s) (mem s3) root P \<and>
    unmap_ringbuf s root name addr =
      (if refcount rb' = 0 then
         bindr (unmap_ringbuf_pmem s3 rb') (\<lambda>(s4, rb1). Inr (s4\<lparr>ringbufs := (ringbufs s4)[idx := rb1]\<rparr>, 0))
       else Inr (s3, 0))"
proof -
  let ?s1 = "s\<lparr>ringbufs := (ringbufs s)[idx := rb']\<rparr>"
  have inv1: "vm_inv T ?s1 ps roots"
    using inv by simp
  have P: "32 \<le> P" "P < NPAGES"
    using win by (simp_all add: window_def)
  obtain pa where pa: "walkaddr ?s1 root addr = Inr pa" "kload64 ?s1 (pa + addr mod 4096) = Inr (pgva P)"
    using kload_user [OF inv1 root _ off, of "pgva P"] rd by auto
  have "buf rb ! 0 \<in> set (buf rb)" "pte_pg (mem s) root P = leaf (buf rb ! 0)"
    using rb win by (simp_all add: ring_ok_def window_def)
  then have "upage (mem ?s1) root P"
    using rb vm_inv_aligned [OF inv, of "buf rb ! 0"] leaf_facts(3) by (simp add: upage_def ring_ok_def)
  then have v: "validate_pages ?s1 root (pgva P) = Inr 0"
    by (rule validate_pages_ok [OF inv1 root P(2)])
  obtain s2 s3 where u: "uvmunmap ?s1 root (pgva (P - 31)) 32 False = Inr s2"
    "uvmunmap s2 root (pgva (P - 32)) 1 False = Inr s3" "vm_inv T s3 ps roots" "vm_frame T ?s1 T s3"
    "window_clear roots (mem s) (mem s3) root P"
    using unmap_window [OF inv1 root, of P rb] win rb by auto
  have "pgva P - of_nat 31 * 4096 = pgva (P - 31)" "pgva (P - 31) - 4096 = pgva (P - 32)"
    using pgva_sub [of 31 P] pgva_sub [of 1 "P - 31"] P by simp_all
  then show ?thesis
    using name pa v u unfolding rb'_def
    by (intro exI [of _ s3]) (auto simp: unmap_ringbuf_def Let_def)
qed

lemma unmap_more_ok:
  assumes "vm_inv T s ps roots" and "root \<in> roots"
    and "find_name (ringbufs s) name = Some idx" "rb = ringbufs s ! idx"
    and "window (mem s) root P rb" and "ring_ok T rb"
    and "user_read (mem s) root addr 8 = Some (map (u64_bytes (pgva P)) [0..<8])"
    and "unat addr mod 4096 \<le> 4088" and more: "refcount rb \<noteq> 1"
  shows "\<exists>s'. unmap_ringbuf s root name addr = Inr (s', 0) \<and> vm_inv T s' ps roots \<and>
    window_clear roots (mem s) (mem s') root P \<and>
    ringbufs s' = (ringbufs s)[idx := rb\<lparr>refcount := refcount rb - 1\<rparr>] \<and>
    (\<forall>p x. T p = PData \<and> page_no x = page_no p \<longrightarrow> mem s' x = mem s x) \<and>
    ringbuf_lock s' = ringbuf_lock s \<and> settle (hart s') = settle (hart s)"
proof -
  let ?s1 = "s\<lparr>ringbufs := (ringbufs s)[idx := rb\<lparr>refcount := refcount rb - 1\<rparr>]\<rparr>"
  obtain s3 where s3: "vm_inv T s3 ps roots" "vm_frame T ?s1 T s3" "window_clear roots (mem s) (mem s3) root P"
    "unmap_ringbuf s root name addr = Inr (s3, 0)"
    using unmap_common [OF assms(1-8)] more by auto
  have "ringbufs s3 = ringbufs ?s1 \<and> ringbuf_lock s3 = ringbuf_lock ?s1"
    using s3(2) kmem_more_kstate [of s3 ?s1] by (simp add: vm_frame_def)
  moreover have "mem s3 x = mem s x" if "T p = PData" "page_no x = page_no p" for p x
    using s3(2) that vm_inv_aligned [OF assms(1), of p] by (simp add: vm_frame_def)
  moreover have "settle (hart s3) = settle (hart s)"
    using s3(2) by (simp add: vm_frame_def)
  ultimately show ?thesis
    using s3 by auto
qed

text \<open>Only the given window of \<open>root\<close> still maps the pages of the ring.\<close>

definition sole_user :: "u64 set \<Rightarrow> memory \<Rightarrow> u64 \<Rightarrow> nat \<Rightarrow> ringbuf \<Rightarrow> bool" where
  "sole_user roots m root P rb \<longleftrightarrow>
     (\<forall>rt\<in>roots. \<forall>v<NPAGES. user_pte (pte_pg m rt v) \<and> PTE2PA (pte_pg m rt v) \<in> set (book rb # buf rb) \<longrightarrow>
        rt = root \<and> v \<le> P \<and> P \<le> v + 32)"

lemma unmap_pmem_all:
  assumes "length (buf rb) = 16"
  shows "unmap_ringbuf_pmem s rb =
    bindr (kfree_all s (book rb # buf rb)) (\<lambda>s2. Inr (s2, rb\<lparr>rb_name := strncpy (rb_name rb) empty_cstr 16\<rparr>))"
proof -
  have "map (\<lambda>i. buf rb ! i) [0..<16] = buf rb"
    using assms map_nth [of "buf rb"] by simp
  then show ?thesis
    by (simp add: unmap_ringbuf_pmem_def Let_def bindr_assoc del: upt_rec_numeral)
qed

lemma cleared_unmapped:
  assumes "window_clear roots m m' root P" and "sole_user roots m root P rb" and "c \<in> set (book rb # buf rb)"
  shows "unmapped_page roots m' c"
  unfolding unmapped_page_def
proof (intro ballI allI impI)
  fix rt v
  assume rt: "rt \<in> roots" and v: "v < NPAGES" and u: "user_pte (pte_pg m' rt v)"
  have "\<not> user_pte 0"
    by (simp add: user_pte_def)
  then have "\<not> (rt = root \<and> v \<le> P \<and> P \<le> v + 32)" "pte_pg m' rt v = pte_pg m rt v"
    using assms(1) rt v u unfolding window_clear_def by (auto split: if_splits)
  then show "PTE2PA (pte_pg m' rt v) \<noteq> c"
    using assms(2,3) rt v u unfolding sole_user_def by metis
qed

lemma unmap_last_ok:
  assumes inv: "vm_inv T s ps roots" and root: "root \<in> roots"
    and name: "find_name (ringbufs s) name = Some idx" "rb = ringbufs s ! idx"
    and win: "window (mem s) root P rb" and rb: "ring_ok T rb"
    and rd: "user_read (mem s) root addr 8 = Some (map (u64_bytes (pgva P)) [0..<8])"
    and off: "unat addr mod 4096 \<le> 4088" and last: "refcount rb = 1" and sole: "sole_user roots (mem s) root P rb"
  shows "\<exists>s' T'. unmap_ringbuf s root name addr = Inr (s', 0) \<and>
    vm_inv T' s' (rev (buf rb) @ book rb # ps) roots \<and> window_clear roots (mem s) (mem s') root P \<and>
    ringbufs s' = (ringbufs s)[idx := rb\<lparr>refcount := 0, rb_name := strncpy (rb_name rb) empty_cstr 16\<rparr>] \<and>
    (\<forall>p x. T p = PData \<and> p \<notin> set (book rb # buf rb) \<and> page_no x = page_no p \<longrightarrow> mem s' x = mem s x) \<and>
    ringbuf_lock s' = ringbuf_lock s \<and> settle (hart s') = settle (hart s)"
proof -
  let ?rb' = "rb\<lparr>refcount := 0\<rparr>"
  let ?s1 = "s\<lparr>ringbufs := (ringbufs s)[idx := ?rb']\<rparr>"
  obtain s3 where s3: "vm_inv T s3 ps roots" "vm_frame T ?s1 T s3" "window_clear roots (mem s) (mem s3) root P"
    "unmap_ringbuf s root name addr = bindr (unmap_ringbuf_pmem s3 ?rb')
       (\<lambda>(s4, rb1). Inr (s4\<lparr>ringbufs := (ringbufs s4)[idx := rb1]\<rparr>, 0))"
    using unmap_common [OF inv root name win rb rd off] last by auto
  have pages: "distinct (book rb # buf rb)" "length (buf rb) = 16"
    "\<And>c. c \<in> set (book rb # buf rb) \<Longrightarrow> T c = PData \<and> unmapped_page roots (mem s3) c"
    using rb cleared_unmapped [OF s3(3) sole] by (auto simp: ring_ok_def)
  obtain s4 T4 where s4: "kfree_all s3 (book rb # buf rb) = Inr s4" "vm_inv T4 s4 (rev (book rb # buf rb) @ ps) roots"
    "pte_same roots (mem s3) (mem s4)"
    "\<forall>p x. T p = PData \<and> p \<notin> set (book rb # buf rb) \<and> page_no x = page_no p \<longrightarrow> mem s4 x = mem s3 x"
    "kmem.more s4 = kmem.more s3" "settle (hart s4) = settle (hart s3)"
    using kfree_all_ok [OF s3(1) pages(1,3)] by blast
  have "kmem.more s4 = kmem.more ?s1" "settle (hart s4) = settle (hart s)"
    using s3(2) s4(5,6) by (simp_all add: vm_frame_def)
  then have rest: "ringbufs s4 = ringbufs ?s1" "ringbuf_lock s4 = ringbuf_lock s" "settle (hart s4) = settle (hart s)"
    using kmem_more_kstate [of s4 ?s1] by simp_all
  let ?s' = "s4\<lparr>ringbufs := (ringbufs s4)[idx := ?rb'\<lparr>rb_name := strncpy (rb_name rb) empty_cstr 16\<rparr>]\<rparr>"
  have "unmap_ringbuf s root name addr = Inr (?s', 0)"
    using s3(4) s4(1) pages(2) by (simp add: unmap_pmem_all)
  moreover have "window_clear roots (mem s) (mem s4) root P"
    using s3(3) pte_same_pg [OF s4(3)] by (simp add: window_clear_def)
  moreover have "mem s3 x = mem s x" if "T p = PData" "page_no x = page_no p" for p x
    using s3(2) that vm_inv_aligned [OF inv, of p] by (simp add: vm_frame_def)
  then have "\<forall>p x. T p = PData \<and> p \<notin> set (book rb # buf rb) \<and> page_no x = page_no p \<longrightarrow> mem s4 x = mem s x"
    using s4(4) by metis
  ultimately show ?thesis
    using s4(2) rest by (intro exI [of _ ?s'] exI [of _ T4]) simp
qed

section \<open>Inside the lock\<close>

definition locked_state :: "'a kstate_scheme \<Rightarrow> 'a kstate_scheme" where
  "locked_state s = s\<lparr>ringbuf_lock := (ringbuf_lock s)\<lparr>locked := 1, lk_cpu := Some (hartid (hart s))\<rparr>,
     hart := push_off (hart s)\<rparr>"

definition unlocked_state :: "'a kstate_scheme \<Rightarrow> 'a kstate_scheme \<Rightarrow> 'a kstate_scheme" where
  "unlocked_state s s' = s'\<lparr>ringbuf_lock := ringbuf_lock s, hart := settle (hart s)\<rparr>"

lemma locked_state_simps [simp]:
  "mem (locked_state s) = mem s" "ringbufs (locked_state s) = ringbufs s" "kend (locked_state s) = kend s"
  "freelist (locked_state s) = freelist s" "kmem_lock (locked_state s) = kmem_lock s"
  "mem (unlocked_state s s') = mem s'" "ringbufs (unlocked_state s s') = ringbufs s'"
  "ringbuf_lock (unlocked_state s s') = ringbuf_lock s" "hart (unlocked_state s s') = settle (hart s)"
  by (simp_all add: locked_state_def unlocked_state_def)

lemma vm_inv_locked:
  assumes "vm_inv T s ps roots"
  shows "vm_inv T (locked_state s) ps roots"
  using assms push_off_ok unfolding vm_inv_def kmem_inv_def by (simp add: locked_state_def)

lemma vm_inv_unlocked:
  assumes "vm_inv T s ps roots" and "vm_inv T' s' ps' roots'"
  shows "vm_inv T' (unlocked_state s s') ps' roots'"
  using assms unfolding vm_inv_def kmem_inv_def by (simp add: unlocked_state_def)

lemma ringbuf_release_ok:
  assumes "lk_free (ringbuf_lock s)" and "cpu_ok (hart s)" and "ringbuf_lock s' = ringbuf_lock (locked_state s)"
    and "settle (hart s') = settle (hart (locked_state s))"
  shows "ringbuf_release s' r = Inr (unlocked_state s s', r)"
proof -
  have "hart s' = push_off (hart s)"
    using settle_held [OF assms(2), of "hart s'"] assms(4) by (simp add: locked_state_def)
  then show ?thesis
    using release_held [OF assms(1,2)] assms(3) by (simp add: ringbuf_release_def unlocked_state_def locked_state_def)
qed

lemma ringbuf_call_enter:
  assumes "lk_free (ringbuf_lock s)" and "get_ringbuf_index s < 10" and "strlen name = Some n" and "n \<le> 16"
  shows "ringbuf_call s root junk name opn addr =
    bindr (if opn \<noteq> 0 then
             if find_name (ringbufs s) name = None then create_ringbuf (locked_state s) root junk name addr
             else append_ringbuf (locked_state s) root name addr
           else unmap_ringbuf (locked_state s) root name addr)
      (\<lambda>(s2, r). ringbuf_release s2 (if r \<noteq> 0 then -1 else 0))"
  using assms unfolding ringbuf_call_def acquire_free [OF assms(1)]
  by (simp add: Let_def locked_state_def get_ringbuf_index_def)

lemma get_ringbuf_index_locked [simp]: "get_ringbuf_index (locked_state s) = get_ringbuf_index s"
  by (simp add: get_ringbuf_index_def)

lemma opened_unlocked:
  assumes "vm_inv T s ps roots" and "opened roots T (locked_state s) T' s' ps' root P rb addr"
  shows "opened roots T s T' (unlocked_state s s') ps' root P rb addr"
  using assms(2) vm_inv_unlocked [OF assms(1)] unfolding opened_def by auto

section \<open>Names\<close>

lemma find_name_None: "find_name rbs name = None \<longleftrightarrow> (\<forall>rb\<in>set rbs. cstr_take 16 (rb_name rb) \<noteq> cstr_take 16 name)"
  by (induction rbs) (auto simp: strncmp_eq_0_iff)

lemma find_name_Some:
  "find_name rbs name = Some i \<longleftrightarrow> i < length rbs \<and> cstr_take 16 (rb_name (rbs ! i)) = cstr_take 16 name \<and>
     (\<forall>j<i. cstr_take 16 (rb_name (rbs ! j)) \<noteq> cstr_take 16 name)"
proof (induction rbs arbitrary: i)
  case (Cons rb rbs)
  show ?case
  proof (cases i)
    case 0
    then show ?thesis
      by (auto simp: strncmp_eq_0_iff)
  next
    case (Suc k)
    then show ?thesis
      using Cons.IH [of k] by (auto simp: strncmp_eq_0_iff All_less_Suc2)
  qed
qed simp

lemma find_name_new:
  assumes "find_name rbs name = None" and "i < length rbs" and "cstr_take 16 (rb_name rb) = cstr_take 16 name"
  shows "find_name (rbs[i := rb]) name = Some i"
  using assms by (auto simp: find_name_None find_name_Some nth_list_update)

section \<open>The system call\<close>

definition can_call ::
    "(u64 \<Rightarrow> pkind) \<Rightarrow> 'a kstate_scheme \<Rightarrow> u64 list \<Rightarrow> u64 set \<Rightarrow> u64 \<Rightarrow> cstr \<Rightarrow> bool" where
  "can_call T s ps roots root name \<longleftrightarrow>
     vm_inv T s ps roots \<and> root \<in> roots \<and> lk_free (ringbuf_lock s) \<and> get_ringbuf_index s < 10 \<and>
     length (ringbufs s) = 10 \<and> (\<exists>n\<le>16. strlen name = Some n)"

text \<open>A run of \<open>n\<close> pages that are free in the range the search covers.\<close>

definition has_room :: "memory \<Rightarrow> u64 \<Rightarrow> nat \<Rightarrow> bool" where
  "has_room m root n \<longleftrightarrow> (\<exists>t. KPAGE + n \<le> t \<and> t \<le> TOP \<and> (\<forall>k<n. \<not> upage m root (t - k)))"

lemma call_create:
  assumes can: "can_call T s ps roots root name" and ou: "only_user (mem s) root" and room: "has_room (mem s) root 34"
    and len: "83 \<le> length ps" and ok: "user_ok (mem s) root addr 8" and junk: "length (buf junk) = 16"
    and new: "find_name (ringbufs s) name = None" and opn: "opn \<noteq> 0"
  shows "\<exists>s' T' ps' rb P. ringbuf_call s root junk name opn addr = Inr (s', 0) \<and>
    opened roots T s T' s' ps' root P rb addr \<and> window (mem s') root P rb \<and> ring_ok T' rb \<and>
    (\<forall>c\<in>set (book rb # buf rb). T c \<noteq> PData \<and> zero_page (mem s') c) \<and>
    (\<forall>j\<le>32. \<not> pte_valid (pte_pg (mem s) root (P - j))) \<and>
    ringbufs s' = (ringbufs s)[get_ringbuf_index s := rb] \<and> refcount rb = 1 \<and>
    cstr_take 16 (rb_name rb) = cstr_take 16 name \<and> length ps \<le> length ps' + 83"
proof -
  have inv: "vm_inv T s ps roots" and root: "root \<in> roots" and lk: "lk_free (ringbuf_lock s)"
    and idx: "get_ringbuf_index s < 10"
    using can by (simp_all add: can_call_def)
  obtain n where n: "strlen name = Some n" "n \<le> 16"
    using can by (auto simp: can_call_def)
  note inv' = vm_inv_locked [OF inv]
  obtain b where b: "find_contiguous_pages (locked_state s) root 34 = Inr (0, pgva b)" "fits (mem s) root 34 b"
    using find_contiguous_pages_spec [OF inv' root, of 34] room by (auto simp: has_room_def)
  then obtain P where P: "b = Suc P"
    using fits_room(2) [OF b(2) ou, of 1] by (cases b) auto
  have bounds: "32 \<le> P" "P < NPAGES" and un: "\<forall>j\<le>32. \<not> pte_valid (pte_pg (mem s) root (P - j))"
    using fits_room [OF b(2) ou] unfolding P by (force, force, metis Suc_le_mono diff_Suc_Suc eval_nat_numeral(3) le_add1 plus_1_eq_Suc)
  obtain s' T' ps' rb where c: "create_ringbuf (locked_state s) root junk name addr = Inr (s', 0)"
    "opened roots T (locked_state s) T' s' ps' root P rb addr" "ring_ok T' rb"
    "\<forall>c\<in>set (book rb # buf rb). T c \<noteq> PData \<and> zero_page (mem s') c"
    "ringbufs s' = (ringbufs s)[get_ringbuf_index s := rb]" "refcount rb = 1" "length ps \<le> length ps' + 83"
    "rb_name rb = strncpy (rb_name junk) name 16"
    using create_ok [OF inv' root, of P addr junk name] ou b len ok idx junk by (auto simp: P)
  have rel: "ringbuf_release s' 0 = Inr (unlocked_state s s', 0)"
    using c(2) lk inv by (intro ringbuf_release_ok) (auto simp: opened_def vm_inv_def kmem_inv_def)
  have "ringbuf_call s root junk name opn addr = Inr (unlocked_state s s', 0)"
    using ringbuf_call_enter [OF lk idx n] new opn c(1) rel by simp
  moreover have o: "opened roots T s T' (unlocked_state s s') ps' root P rb addr"
    using opened_unlocked [OF inv c(2)] .
  moreover have "cstr_take 16 (rb_name rb) = cstr_take 16 name"
    using cstr_take_strncpy [of 16 "rb_name junk" name] c(8) by simp
  ultimately show ?thesis
    using c(3-7) un opened_window [OF o root bounds]
    by (intro exI [of _ "unlocked_state s s'"] exI [of _ T'] exI [of _ ps'] exI [of _ rb] exI [of _ P]) auto
qed

text \<open>A process that has not opened a ring.\<close>

definition no_rings :: "memory \<Rightarrow> u64 \<Rightarrow> bool" where
  "no_rings m root \<longleftrightarrow> (\<forall>v. KPAGE < v \<and> v \<le> TOP \<longrightarrow> \<not> pte_valid (pte_pg m root v))"

lemma no_rings_upage: "no_rings m root \<Longrightarrow> KPAGE < v \<Longrightarrow> v \<le> TOP \<Longrightarrow> \<not> upage m root v"
  by (simp add: no_rings_def upage_def user_pte_def)

lemma no_rings_find:
  assumes "vm_inv T s ps roots" and "root \<in> roots" and "no_rings (mem s) root"
  shows "find_contiguous_pages s root 34 = Inr (0, pgva TOP)"
proof -
  have "\<not> upage (mem s) root (TOP - k)" if "k < 34" for k
    using that by (intro no_rings_upage [OF assms(3)]) simp_all
  moreover have "KPAGE + 34 \<le> TOP"
    by simp
  moreover have "b = TOP" if "fits (mem s) root 34 b" for b
    using that no_rings_upage [OF assms(3), of b] by (auto simp: fits_def)
  ultimately show ?thesis
    using find_contiguous_pages_spec [OF assms(1,2), of 34] by (metis order_refl zero_less_numeral)
qed

lemma call_append:
  assumes can: "can_call T s ps roots root name" and nr: "no_rings (mem s) root"
    and len: "66 \<le> length ps" and ok: "user_ok (mem s) root addr 8"
    and name: "find_name (ringbufs s) name = Some idx" "rb = ringbufs s ! idx"
    and rb: "refcount rb > 0" "ring_ok T rb" and opn: "opn \<noteq> 0"
  shows "\<exists>s' T' ps'. ringbuf_call s root junk name opn addr = Inr (s', 0) \<and>
    opened roots T s T' s' ps' root (TOP - 2) rb addr \<and> window (mem s') root (TOP - 2) rb \<and> ring_ok T' rb \<and>
    ringbufs s' = (ringbufs s)[idx := rb\<lparr>refcount := refcount rb + 1\<rparr>]"
proof -
  have inv: "vm_inv T s ps roots" and root: "root \<in> roots" and lk: "lk_free (ringbuf_lock s)"
    and idx: "get_ringbuf_index s < 10"
    using can by (simp_all add: can_call_def)
  obtain n where n: "strlen name = Some n" "n \<le> 16"
    using can by (auto simp: can_call_def)
  note inv' = vm_inv_locked [OF inv]
  have "Suc (Suc (TOP - 2)) = TOP"
    by simp
  then have find: "find_contiguous_pages (locked_state s) root 34 = Inr (0, pgva (Suc (Suc (TOP - 2))))"
    using no_rings_find [OF inv' root] nr by simp
  have un: "\<not> pte_valid (pte_pg (mem (locked_state s)) root (TOP - 2 - j))" if "j \<le> 32" for j
  proof -
    have "KPAGE < TOP - 2 - j" "TOP - 2 - j \<le> TOP"
      using that by simp_all
    then show ?thesis
      using nr unfolding no_rings_def locked_state_simps by blast
  qed
  have name': "find_name (ringbufs (locked_state s)) name = Some idx" "rb = ringbufs (locked_state s) ! idx"
    using name by simp_all
  have ok': "user_ok (mem (locked_state s)) root addr 8"
    using ok by simp
  obtain s' T' ps' where a: "append_ringbuf (locked_state s) root name addr = Inr (s', 0)"
    "opened roots T (locked_state s) T' s' ps' root (TOP - 2) rb addr" "ring_ok T' rb"
    "ringbufs s' = (ringbufs s)[idx := rb\<lparr>refcount := refcount rb + 1\<rparr>]"
    using append_ok [OF inv' root name' rb find _ _ un len ok'] by auto
  have rel: "ringbuf_release s' 0 = Inr (unlocked_state s s', 0)"
    using a(2) lk inv by (intro ringbuf_release_ok) (auto simp: opened_def vm_inv_def kmem_inv_def)
  have "ringbuf_call s root junk name opn addr = Inr (unlocked_state s s', 0)"
    using ringbuf_call_enter [OF lk idx n] name(1) opn a(1) rel by simp
  moreover have o: "opened roots T s T' (unlocked_state s s') ps' root (TOP - 2) rb addr"
    using opened_unlocked [OF inv a(2)] .
  moreover have "window (mem (unlocked_state s s')) root (TOP - 2) rb"
    by (rule opened_window [OF o root]) simp_all
  ultimately show ?thesis
    using a(3,4) by (intro exI [of _ "unlocked_state s s'"] exI [of _ T'] exI [of _ ps']) simp
qed

lemma call_close_enter:
  assumes can: "can_call T s ps roots root name"
    and u: "unmap_ringbuf (locked_state s) root name addr = Inr (s', r)"
    and keep: "ringbuf_lock s' = ringbuf_lock (locked_state s)" "settle (hart s') = settle (hart (locked_state s))"
  shows "ringbuf_call s root junk name 0 addr = Inr (unlocked_state s s', if r \<noteq> 0 then -1 else 0)"
proof -
  have inv: "vm_inv T s ps roots" and lk: "lk_free (ringbuf_lock s)" and idx: "get_ringbuf_index s < 10"
    using can by (simp_all add: can_call_def)
  obtain n where n: "strlen name = Some n" "n \<le> 16"
    using can by (auto simp: can_call_def)
  have "ringbuf_release s' q = Inr (unlocked_state s s', q)" for q
    using lk inv keep by (intro ringbuf_release_ok) (auto simp: vm_inv_def kmem_inv_def)
  then show ?thesis
    using ringbuf_call_enter [OF lk idx n] u by simp
qed

text \<open>What a process that closes a ring must have: the window, and its address in its own memory.\<close>

definition can_close :: "(u64 \<Rightarrow> pkind) \<Rightarrow> 'a kstate_scheme \<Rightarrow> u64 \<Rightarrow> cstr \<Rightarrow> u64 \<Rightarrow> nat \<Rightarrow> nat \<Rightarrow> ringbuf \<Rightarrow> bool" where
  "can_close T s root name addr idx P rb \<longleftrightarrow>
     find_name (ringbufs s) name = Some idx \<and> rb = ringbufs s ! idx \<and> window (mem s) root P rb \<and> ring_ok T rb \<and>
     user_read (mem s) root addr 8 = Some (map (u64_bytes (pgva P)) [0..<8]) \<and> unat addr mod 4096 \<le> 4088"

lemma call_close_more:
  assumes can: "can_call T s ps roots root name" and cc: "can_close T s root name addr idx P rb" and more: "refcount rb \<noteq> 1"
  shows "\<exists>s'. ringbuf_call s root junk name 0 addr = Inr (s', 0) \<and> vm_inv T s' ps roots \<and>
    window_clear roots (mem s) (mem s') root P \<and>
    ringbufs s' = (ringbufs s)[idx := rb\<lparr>refcount := refcount rb - 1\<rparr>] \<and>
    (\<forall>p x. T p = PData \<and> page_no x = page_no p \<longrightarrow> mem s' x = mem s x) \<and> ringbuf_lock s' = ringbuf_lock s"
proof -
  have inv: "vm_inv T s ps roots" and root: "root \<in> roots"
    using can by (simp_all add: can_call_def)
  have "\<exists>s'. unmap_ringbuf (locked_state s) root name addr = Inr (s', 0) \<and> vm_inv T s' ps roots \<and>
    window_clear roots (mem (locked_state s)) (mem s') root P \<and>
    ringbufs s' = (ringbufs (locked_state s))[idx := rb\<lparr>refcount := refcount rb - 1\<rparr>] \<and>
    (\<forall>p x. T p = PData \<and> page_no x = page_no p \<longrightarrow> mem s' x = mem (locked_state s) x) \<and>
    ringbuf_lock s' = ringbuf_lock (locked_state s) \<and> settle (hart s') = settle (hart (locked_state s))"
    using cc more by (intro unmap_more_ok [OF vm_inv_locked [OF inv] root]) (auto simp: can_close_def)
  then obtain s' where s': "unmap_ringbuf (locked_state s) root name addr = Inr (s', 0)" "vm_inv T s' ps roots"
    "window_clear roots (mem s) (mem s') root P" "ringbufs s' = (ringbufs s)[idx := rb\<lparr>refcount := refcount rb - 1\<rparr>]"
    "\<forall>p x. T p = PData \<and> page_no x = page_no p \<longrightarrow> mem s' x = mem s x"
    "ringbuf_lock s' = ringbuf_lock (locked_state s)" "settle (hart s') = settle (hart (locked_state s))"
    by auto
  then show ?thesis
    using call_close_enter [OF can s'(1,6,7)] vm_inv_unlocked [OF inv s'(2)]
    by (intro exI [of _ "unlocked_state s s'"]) simp
qed

lemma call_close_last:
  assumes can: "can_call T s ps roots root name" and cc: "can_close T s root name addr idx P rb"
    and last: "refcount rb = 1" and sole: "sole_user roots (mem s) root P rb"
  shows "\<exists>s' T'. ringbuf_call s root junk name 0 addr = Inr (s', 0) \<and>
    vm_inv T' s' (rev (buf rb) @ book rb # ps) roots \<and> window_clear roots (mem s) (mem s') root P \<and>
    ringbufs s' = (ringbufs s)[idx := rb\<lparr>refcount := 0, rb_name := strncpy (rb_name rb) empty_cstr 16\<rparr>] \<and>
    (\<forall>p x. T p = PData \<and> p \<notin> set (book rb # buf rb) \<and> page_no x = page_no p \<longrightarrow> mem s' x = mem s x) \<and>
    ringbuf_lock s' = ringbuf_lock s"
proof -
  have inv: "vm_inv T s ps roots" and root: "root \<in> roots"
    using can by (simp_all add: can_call_def)
  have "\<exists>s' T'. unmap_ringbuf (locked_state s) root name addr = Inr (s', 0) \<and>
    vm_inv T' s' (rev (buf rb) @ book rb # ps) roots \<and> window_clear roots (mem (locked_state s)) (mem s') root P \<and>
    ringbufs s' = (ringbufs (locked_state s))[idx := rb\<lparr>refcount := 0, rb_name := strncpy (rb_name rb) empty_cstr 16\<rparr>] \<and>
    (\<forall>p x. T p = PData \<and> p \<notin> set (book rb # buf rb) \<and> page_no x = page_no p \<longrightarrow> mem s' x = mem (locked_state s) x) \<and>
    ringbuf_lock s' = ringbuf_lock (locked_state s) \<and> settle (hart s') = settle (hart (locked_state s))"
    using cc last sole by (intro unmap_last_ok [OF vm_inv_locked [OF inv] root]) (auto simp: can_close_def)
  then obtain s' T' where s': "unmap_ringbuf (locked_state s) root name addr = Inr (s', 0)"
    "vm_inv T' s' (rev (buf rb) @ book rb # ps) roots" "window_clear roots (mem s) (mem s') root P"
    "ringbufs s' = (ringbufs s)[idx := rb\<lparr>refcount := 0, rb_name := strncpy (rb_name rb) empty_cstr 16\<rparr>]"
    "\<forall>p x. T p = PData \<and> p \<notin> set (book rb # buf rb) \<and> page_no x = page_no p \<longrightarrow> mem s' x = mem s x"
    "ringbuf_lock s' = ringbuf_lock (locked_state s)" "settle (hart s') = settle (hart (locked_state s))"
    by auto
  then show ?thesis
    using call_close_enter [OF can s'(1,6,7)] vm_inv_unlocked [OF inv s'(2)]
    by (intro exI [of _ "unlocked_state s s'"] exI [of _ T']) simp
qed

end
