(* ===== verification/Ringbuf_thms.thy ===== *)
theory Ringbuf_thms
  imports Ringbuf_life
begin

text \<open>
  The properties of the ring-buffer system call: the search for room, creating, sharing, closing,
  the round trip, the lock on every path, and the inputs on which the call fails its purpose.
\<close>

section \<open>Addresses in a window\<close>

text \<open>The physical address of byte \<open>k\<close> of a ring.\<close>

definition ring_byte :: "ringbuf \<Rightarrow> nat \<Rightarrow> u64" where
  "ring_byte rb k = buf rb ! (15 - k div 4096) + of_nat (k mod 4096)"

lemma window_xlate:
  assumes inv: "vm_inv T s ps roots" and root: "root \<in> roots" and win: "window (mem s) root P rb"
    and rb: "ring_ok T rb" and k: "k < 131072"
  shows "xlate (mem s) root (pgva (P - 31) + of_nat k) = Some (ring_byte rb (k mod 65536))"
proof -
  let ?va = "pgva (P - 31) + of_nat k" and ?i = "k div 4096"
  have P: "32 \<le> P" "P < NPAGES"
    using win by (simp_all add: window_def)
  have i: "?i < 32"
    using k by (simp add: less_mult_imp_div_less)
  have u: "unat ?va = 4096 * (P - 31) + k"
    using P k pgva_props(1) [of "P - 31"] by (subst unat_add_of_nat) simp_all
  have "4096 * (P - 31) + k < 4096 * NPAGES"
    using P k by simp
  then have va: "?va < MAXVA"
    by (simp add: word_less_nat_alt u)
  have pg: "page_no ?va = P - 31 + ?i"
    by (simp add: page_no_def u)
  have "(P - (P - 31 + ?i)) mod 16 = 15 - ?i mod 16"
  proof -
    have "P - (P - 31 + ?i) = 31 - ?i"
      using P i by simp
    moreover have "(31 - ?i) mod 16 = 15 - ?i mod 16"
      using i by (cases "?i < 16") (simp_all add: mod_if [of ?i 16] mod_if [of "31 - ?i" 16])
    ultimately show ?thesis by simp
  qed
  moreover have "P - 31 + ?i \<le> P" "P \<noteq> P - 31 + ?i + 32" "P \<le> P - 31 + ?i + 32"
    using P i by simp_all
  ultimately have e: "pte_at (mem s) root ?va = leaf (buf rb ! (15 - ?i mod 16))"
    using win by (simp add: pte_at_pg [OF va] pg window_def)
  have "T (buf rb ! (15 - ?i mod 16)) = PData"
    using rb by (simp add: ring_ok_def)
  then have al: "pg_aligned (buf rb ! (15 - ?i mod 16))"
    using vm_inv_aligned [OF inv, of "buf rb ! (15 - ?i mod 16)"] by simp
  have "?va - PGROUNDDOWN ?va = of_nat (k mod 4096)"
  proof (rule u64_eqI)
    show "unat (?va - PGROUNDDOWN ?va) = unat (of_nat (k mod 4096) :: u64)"
      unfolding unat_page_offset u by (simp add: unat_of_nat64)
  qed
  moreover have "k mod 65536 div 4096 = ?i mod 16" "k mod 65536 mod 4096 = k mod 4096"
    using mod_mult2_eq [of k 4096 16] by simp_all
  ultimately show ?thesis
    using va leaf_facts [OF al] by (simp add: xlate_def e ring_byte_def)
qed

lemma ring_byte_page:
  assumes inv: "vm_inv T s ps roots" and rb: "ring_ok T rb"
  shows "page_no (ring_byte rb k) = page_no (buf rb ! (15 - k div 4096))" and "buf rb ! (15 - k div 4096) \<in> set (buf rb)"
    and "unat (ring_byte rb k) = unat (buf rb ! (15 - k div 4096)) + k mod 4096"
proof -
  show m: "buf rb ! (15 - k div 4096) \<in> set (buf rb)"
    using rb by (simp add: ring_ok_def)
  then have "pg_aligned (buf rb ! (15 - k div 4096))"
    using vm_inv_aligned [OF inv, of "buf rb ! (15 - k div 4096)"] rb by (simp add: ring_ok_def)
  then show "page_no (ring_byte rb k) = page_no (buf rb ! (15 - k div 4096))"
    "unat (ring_byte rb k) = unat (buf rb ! (15 - k div 4096)) + k mod 4096"
    unfolding ring_byte_def by (intro page_no_add pg_aligned_add_unat; simp)+
qed

lemma ring_byte_inj:
  assumes inv: "vm_inv T s ps roots" and rb: "ring_ok T rb" and k: "k < 65536" "k' < 65536"
    and eq: "ring_byte rb k = ring_byte rb k'"
  shows "k = k'"
proof -
  have i: "k div 4096 < 16" "k' div 4096 < 16"
    using k by (simp_all add: less_mult_imp_div_less)
  have al: "pg_aligned (buf rb ! j)" if "j < 16" for j
    using vm_inv_aligned [OF inv, of "buf rb ! j"] rb that by (simp add: ring_ok_def)
  note pg = ring_byte_page(1,3) [OF inv rb]
  have "buf rb ! (15 - k div 4096) = buf rb ! (15 - k' div 4096)"
    using pg(1) [of k] pg(1) [of k'] eq by (intro page_no_inj al) simp_all
  then have "15 - k div 4096 = 15 - k' div 4096"
    using rb i nth_eq_iff_index_eq [of "buf rb"] by (simp add: ring_ok_def)
  moreover have "k mod 4096 = k' mod 4096"
    using pg(2) [of k] pg(2) [of k'] eq calculation by simp
  moreover from calculation(1) have "k div 4096 = k' div 4096"
    using i by linarith
  ultimately show ?thesis
    by (metis div_mult_mod_eq)
qed

section \<open>A small kernel\<close>

definition small_k :: "nat \<Rightarrow> kstate" where
  "small_k n = kmem.extend (small n)
     \<lparr>ringbufs = replicate 10 \<lparr>refcount = 0, rb_name = empty_cstr, buf = replicate 16 0, book = 0\<rparr>,
      ringbuf_lock = \<lparr>locked = 0, lk_name = ''ringbuf'', lk_cpu = None\<rparr>\<rparr>"

definition to_cstr :: "string \<Rightarrow> cstr" where
  "to_cstr cs = (\<lambda>i. if i < length cs then of_char (cs ! i) else 0)"

definition junk_ring :: ringbuf where
  "junk_ring = \<lparr>refcount = 7, rb_name = (\<lambda>_. 1), buf = replicate 16 5, book = 5\<rparr>"

lemma small_k_simps [simp]:
  "mem (small_k n) = small_mem n"
  "ringbufs (small_k n) = replicate 10 \<lparr>refcount = 0, rb_name = empty_cstr, buf = replicate 16 0, book = 0\<rparr>"
  "ringbuf_lock (small_k n) = \<lparr>locked = 0, lk_name = ''ringbuf'', lk_cpu = None\<rparr>" "hart (small_k n) = hart (small n)"
  by (simp_all add: small_k_def small_def kmem.extend_def kmem.make_def)

lemma small_k_inv: "n \<le> 4096 \<Longrightarrow> vm_inv (small_type n) (small_k n) (pool n) {root1, root2}"
  using small_inv [of n] unfolding vm_inv_def kmem_inv_def
  by (simp add: small_k_def small_def kmem.extend_def kmem.make_def)

lemma empty_take [simp]: "cstr_take k empty_cstr = []"
  by (induction k) (simp_all add: cstr_take_Suc, simp_all add: empty_cstr_def)

lemma small_k_index: "get_ringbuf_index (small_k n) = 0"
  by (simp add: get_ringbuf_index_def strncmp_eq_0_iff)

lemma small_k_call:
  assumes "n \<le> 4096" and "root \<in> {root1, root2}"
  shows "can_call (small_type n) (small_k n) (pool n) {root1, root2} root (to_cstr ''ring'')"
proof -
  have "strlen (to_cstr ''ring'') = Some 4"
    unfolding strlen_def by (rule strlen_from_Some) (auto simp: to_cstr_def nth_Cons')
  then show ?thesis
    using small_k_inv [OF assms(1)] assms(2) by (simp add: can_call_def small_k_index lk_free_def)
qed

lemma small_k_pg:
  assumes "n \<le> 4096" and "root \<in> {root1, root2}" and "v < NPAGES" and "v \<noteq> 0"
  shows "pte_pg (small_mem n) root v = 0"
  using small_pte_at [OF assms(1,2) pgva_props(4) [OF assms(3)]] pgva_props(2) [OF assms(3)] assms(4)
  by (simp add: pte_pg_def)

lemma small_k_no_rings: "n \<le> 4096 \<Longrightarrow> root \<in> {root1, root2} \<Longrightarrow> no_rings (small_mem n) root"
  unfolding no_rings_def by (auto simp: small_k_pg pte_valid_def)

text \<open>The small kernel with a named ring in slot 1.\<close>

definition small_hole :: "nat \<Rightarrow> kstate" where
  "small_hole n = (small_k n)\<lparr>ringbufs := (ringbufs (small_k n))[1 := junk_ring\<lparr>rb_name := to_cstr ''a''\<rparr>]\<rparr>"

lemma no_rings_room: "no_rings m root \<Longrightarrow> only_user m root \<and> has_room m root 34"
  unfolding only_user_def has_room_def using no_rings_upage [of m root "TOP - k" for k]
  by (auto simp: no_rings_def intro!: exI [of _ TOP])

lemma small_k_ready:
  assumes "n \<le> 4096" and "root \<in> {root1, root2}"
  shows "only_user (mem (small_k n)) root" "has_room (mem (small_k n)) root 34" "no_rings (mem (small_k n)) root"
    "user_ok (mem (small_k n)) root 0 8" "length (pool n) = n" "length (buf junk_ring) = 16"
    "find_name (ringbufs (small_k n)) (to_cstr ''ring'') = None" "get_ringbuf_index (small_k n) < 9"
proof -
  have "cstr_take 16 (to_cstr ''ring'') \<noteq> []"
    using cstr_take_Suc [of 15 "to_cstr ''ring''"] by (simp add: to_cstr_def)
  then show "find_name (ringbufs (small_k n)) (to_cstr ''ring'') = None"
    by (simp add: find_name_None)
qed (use assms no_rings_room small_k_no_rings [OF assms] small_k_user [OF assms, of 0 8] in
    \<open>simp_all add: pool_def junk_ring_def small_k_index\<close>)

lemma take_a: "cstr_take 16 (to_cstr ''a'') = [97]" "cstr_take 16 (to_cstr ''ring'') \<noteq> [97]"
  "cstr_take 16 (to_cstr ''ring'') \<noteq> []"
  using cstr_take_Suc [of 15 "to_cstr ''a''"] cstr_take_Suc [of 14 "\<lambda>i. to_cstr ''a'' (Suc i)"]
    cstr_take_Suc [of 15 "to_cstr ''ring''"] by (simp_all add: to_cstr_def)

lemma small_hole_names:
  assumes "i < 10"
  shows "cstr_take 16 (rb_name (ringbufs (small_hole n) ! i)) = (if i = 1 then [97] else [])"
  using assms take_a by (simp add: small_hole_def nth_list_update)

lemma small_hole_index: "get_ringbuf_index (small_hole n) = 1"
proof -
  have "get_ringbuf_index (small_hole n) = card {i. i < 10 \<and> cstr_take 16 (rb_name (ringbufs (small_hole n) ! i)) \<noteq> []}"
    by (simp add: get_ringbuf_index_def strncmp_eq_0_iff length_filter_conv_card)
      (simp add: small_hole_def)
  also have "{i. i < 10 \<and> cstr_take 16 (rb_name (ringbufs (small_hole n) ! i)) \<noteq> []} = {1}"
    using small_hole_names by (auto split: if_splits)
  finally show ?thesis by simp
qed

lemma small_hole_ready:
  assumes "n \<le> 4096" and "root \<in> {root1, root2}" and "strlen name = Some l" and "l \<le> 16"
  shows "can_call (small_type n) (small_hole n) (pool n) {root1, root2} root name"
    "find_name (ringbufs (small_hole n)) (to_cstr ''a'') = Some 1"
    "find_name (ringbufs (small_hole n)) (to_cstr ''ring'') = None" "mem (small_hole n) = mem (small_k n)"
proof -
  have len: "length (ringbufs (small_hole n)) = 10"
    by (simp add: small_hole_def)
  show "can_call (small_type n) (small_hole n) (pool n) {root1, root2} root name"
    using small_k_call [OF assms(1,2)] assms(3,4) len unfolding can_call_def small_hole_index by (simp add: small_hole_def)
  show "find_name (ringbufs (small_hole n)) (to_cstr ''a'') = Some 1"
    using take_a len small_hole_names by (simp add: find_name_Some)
  show "find_name (ringbufs (small_hole n)) (to_cstr ''ring'') = None"
    using take_a len small_hole_names by (auto simp: find_name_None in_set_conv_nth split: if_splits)
qed (simp add: small_hole_def)

lemma strlen_names: "strlen (to_cstr ''a'') = Some 1" "strlen (to_cstr ''ring'') = Some 4"
  unfolding strlen_def by (rule strlen_from_Some; auto simp: to_cstr_def nth_Cons')+

section \<open>Reads and writes through a window\<close>

lemma user_read_nth:
  "(\<And>i. i < n \<Longrightarrow> xlate m root (va + of_nat i) = Some (f i)) \<Longrightarrow>
   user_read m root va n = Some (map (\<lambda>i. m (f i)) [0..<n])"
proof (induction n arbitrary: va f)
  case (Suc n)
  have "user_read m root (va + 1) n = Some (map (\<lambda>i. m (f (Suc i))) [0..<n])"
    using Suc.prems [of "Suc i" for i] by (intro Suc.IH) (simp add: add.assoc)
  moreover have "map (\<lambda>i. m (f i)) [0..<Suc n] = m (f 0) # map (\<lambda>i. m (f (Suc i))) [0..<n]"
    by (simp add: upt_conv_Cons map_Suc_upt [symmetric] del: upt_Suc)
  ultimately show ?case
    using Suc.prems [of 0] by (simp del: upt_Suc)
qed simp

lemma user_write_nth:
  assumes "vm_inv T s ps roots" and "root \<in> roots" and "user_write (mem s) root va bs = Some m'"
    and "\<And>i. i < length bs \<Longrightarrow> xlate (mem s) root (va + of_nat i) = Some (f i)"
    and "inj_on f {..<length bs}"
  shows "pte_same roots (mem s) m' \<and> (\<forall>i<length bs. m' (f i) = bs ! i)"
  using assms(1,3-)
proof (induction bs arbitrary: s va f)
  case (Cons b bs)
  have pa: "xlate (mem s) root va = Some (f 0)"
    using Cons.prems(3) [of 0] by simp
  let ?s1 = "s\<lparr>mem := (mem s)(f 0 := b)\<rparr>"
  note w = user_write_byte [OF Cons.prems(1) assms(2) pa, of b]
  have rest: "user_write (mem ?s1) root (va + 1) bs = Some m'"
    using Cons.prems(2) pa by (simp del: fun_upd_apply)
  have x: "xlate (mem ?s1) root (va + 1 + of_nat i) = Some (f (Suc i))" if "i < length bs" for i
    using Cons.prems(3) [of "Suc i"] that xlate_same [OF w(2) assms(2)] by (simp add: add.assoc)
  have inj: "inj_on (\<lambda>i. f (Suc i)) {..<length bs}"
    using Cons.prems(4) by (auto simp: inj_on_def)
  have IH: "pte_same roots (mem ?s1) m'" "\<forall>i<length bs. m' (f (Suc i)) = bs ! i"
    using Cons.IH [OF w(1) rest x inj] by (simp_all del: fun_upd_apply)
  have "f (Suc i) \<noteq> f 0" if "i < length bs" for i
    using inj_onD [OF Cons.prems(4), of "Suc i" 0] that by auto
  then have "m' (f 0) = b"
    using user_write_frame [OF w(1) assms(2) rest, of "f 0"] x by simp
  moreover have "pte_same roots (mem s) m'"
    using pte_same_trans [OF w(2)] IH(1) by simp
  ultimately show ?case
    using IH(2) by (auto simp: less_Suc_eq_0_disj)
qed simp

text \<open>
  Two windows on the same ring: bytes stored at an offset of one are read at every offset of the
  other that is equal to it modulo 64 KB.
\<close>

lemma window_write_read:
  assumes "vm_inv T s ps roots" and "root \<in> roots" and "root' \<in> roots"
    and "window (mem s) root P rb" and "window (mem s) root' P' rb" and "ring_ok T rb"
    and "length bs \<le> 65536" and "k + length bs \<le> 131072" and "k' + length bs \<le> 131072" and "k mod 65536 = k' mod 65536"
  shows "\<exists>m'. user_write (mem s) root (pgva (P - 31) + of_nat k) bs = Some m' \<and>
    user_read m' root' (pgva (P' - 31) + of_nat k') (length bs) = Some bs"
proof -
  let ?f = "\<lambda>i. ring_byte rb ((k + i) mod 65536)"
  have eq: "(k' + i) mod 65536 = (k + i) mod 65536" for i
    using assms(10) by (metis mod_add_left_eq)
  have x: "xlate (mem s) root (pgva (P - 31) + of_nat k + of_nat i) = Some (?f i)"
    "xlate (mem s) root' (pgva (P' - 31) + of_nat k' + of_nat i) = Some (?f i)" if "i < length bs" for i
    using window_xlate [OF assms(1,2,4,6), of "k + i"] window_xlate [OF assms(1,3,5,6), of "k' + i"] that assms(8,9) eq
    by (simp_all add: add.assoc)
  obtain m' where m': "user_write (mem s) root (pgva (P - 31) + of_nat k) bs = Some m'"
    using user_write_Some [OF assms(1,2), of "pgva (P - 31) + of_nat k" bs] x(1) by (auto simp: user_ok_def)
  have "inj_on ?f {..<length bs}"
  proof (rule inj_onI)
    fix i j
    assume ij: "i \<in> {..<length bs}" "j \<in> {..<length bs}" and "?f i = ?f j"
    then have "(k + i) mod 65536 = (k + j) mod 65536"
      using ring_byte_inj [OF assms(1,6)] by simp
    moreover have "i - j < 65536" "j - i < 65536"
      using ij assms(7) by simp_all
    ultimately show "i = j"
      using mod_shift_neq [of "i - j" 65536 "k + j"] mod_shift_neq [of "j - i" 65536 "k + i"] ij assms(7)
      by (cases "i \<le> j"; cases "i = j") auto
  qed
  then have w: "pte_same roots (mem s) m'" "\<forall>i<length bs. m' (?f i) = bs ! i"
    using user_write_nth [OF assms(1,2) m', of ?f] x(1) by simp_all
  have "user_read m' root' (pgva (P' - 31) + of_nat k') (length bs) = Some (map (\<lambda>i. m' (?f i)) [0..<length bs])"
    using x(2) xlate_same [OF w(1) assms(3)] by (intro user_read_nth) simp
  also have "map (\<lambda>i. m' (?f i)) [0..<length bs] = bs"
    using w(2) by (intro nth_equalityI) simp_all
  finally show ?thesis
    using m' by blast
qed

section \<open>Creating a ring\<close>

text \<open>
  C6 (functional). A process opens a name that no ring has. With 83 free pages and a run of 34
  free pages in its address space the call returns 0, stores at \<open>addr\<close> the address of the
  window, and leaves the page tables well formed. The window is 128 KB of zeros in which
  offsets \<open>k\<close> and \<open>k'\<close> are the same physical byte exactly when they are equal modulo 64 KB. The
  slot of the table holds the ring with one user, and every other user page of every process
  is mapped as before.
\<close>

theorem ringbuf_create:
  assumes "can_call T s ps roots root name" and "only_user (mem s) root" and "has_room (mem s) root 34"
    and "83 \<le> length ps" and "user_ok (mem s) root addr 8" and "length (buf junk) = 16"
    and "find_name (ringbufs s) name = None" and "opn \<noteq> 0"
  shows "\<exists>s' T' ps' rb P. ringbuf_call s root junk name opn addr = Inr (s', 0) \<and> vm_inv T' s' ps' roots \<and>
    ringbufs s' = (ringbufs s)[get_ringbuf_index s := rb] \<and> refcount rb = 1 \<and>
    cstr_take 16 (rb_name rb) = cstr_take 16 name \<and>
    user_read (mem s') root addr 8 = Some (map (u64_bytes (pgva P)) [0..<8]) \<and>
    (\<forall>k<131072. \<exists>a. xlate (mem s') root (pgva (P - 31) + of_nat k) = Some a \<and> mem s' a = 0) \<and>
    (\<forall>k<131072. \<forall>k'<131072.
       xlate (mem s') root (pgva (P - 31) + of_nat k) = xlate (mem s') root (pgva (P - 31) + of_nat k')
         \<longleftrightarrow> k mod 65536 = k' mod 65536) \<and>
    (\<forall>rt\<in>roots. \<forall>v<NPAGES. rt = root \<and> v \<le> P \<and> P \<le> v + 32 \<or> pte_pg (mem s') rt v = pte_pg (mem s) rt v)"
proof -
  obtain s' T' ps' rb P where c: "ringbuf_call s root junk name opn addr = Inr (s', 0)"
    "opened roots T s T' s' ps' root P rb addr" "window (mem s') root P rb" "ring_ok T' rb"
    "\<forall>c\<in>set (book rb # buf rb). T c \<noteq> PData \<and> zero_page (mem s') c"
    "ringbufs s' = (ringbufs s)[get_ringbuf_index s := rb]" "refcount rb = 1" "cstr_take 16 (rb_name rb) = cstr_take 16 name"
    using call_create [OF assms] by blast
  have root: "root \<in> roots"
    using assms(1) by (simp add: can_call_def)
  have inv: "vm_inv T' s' ps' roots"
    using c(2) by (simp add: opened_def)
  note x = window_xlate [OF inv root c(3,4)]
  have "mem s' (ring_byte rb (k mod 65536)) = 0" for k
    using c(5) ring_byte_page [OF inv c(4), of "k mod 65536"] by (simp add: zero_page_def)
  moreover have "ring_byte rb (k mod 65536) = ring_byte rb (k' mod 65536) \<longleftrightarrow> k mod 65536 = k' mod 65536" for k k'
    using ring_byte_inj [OF inv c(4), of "k mod 65536" "k' mod 65536"] by auto
  moreover have "\<forall>rt\<in>roots. \<forall>v<NPAGES. rt = root \<and> v \<le> P \<and> P \<le> v + 32 \<or> pte_pg (mem s') rt v = pte_pg (mem s) rt v"
    using c(2) by (simp add: opened_def window_set_def)
  moreover have "user_read (mem s') root addr 8 = Some (map (u64_bytes (pgva P)) [0..<8])"
    using c(2) by (simp add: opened_def)
  ultimately show ?thesis
    using c(1,6-8) inv x by (intro exI [of _ s'] exI [of _ T'] exI [of _ ps'] exI [of _ rb] exI [of _ P]) simp
qed

theorem ringbuf_create_witness:
  "\<exists>s' rb P. ringbuf_call (small_k 100) root1 junk_ring (to_cstr ''ring'') 1 0 = Inr (s', 0) \<and>
    ringbufs s' = (ringbufs (small_k 100))[0 := rb] \<and> refcount rb = 1 \<and>
    user_read (mem s') root1 0 8 = Some (map (u64_bytes (pgva P)) [0..<8])"
  using ringbuf_create [OF small_k_call [of 100 root1], of 0 junk_ring 1] small_k_ready [of 100 root1]
  by (simp add: small_k_index) blast


section \<open>Sharing a ring\<close>

lemma named_update_le: "length (filter Q (xs[i := x])) \<le> Suc (length (filter Q xs))"
  by (induction xs arbitrary: i) (auto split: nat.split simp: le_SucI)

lemma window_other:
  assumes "window_set roots m m' root' P' cs bk" and "root \<in> roots" and "root \<noteq> root'"
  shows "v < NPAGES \<Longrightarrow> pte_pg m' root v = pte_pg m root v" and "window m root P rb \<Longrightarrow> window m' root P rb"
    and "xlate m' root va = xlate m root va"
proof -
  show *: "v < NPAGES \<Longrightarrow> pte_pg m' root v = pte_pg m root v" for v
    using assms by (simp add: window_set_def)
  then show "window m root P rb \<Longrightarrow> window m' root P rb"
    by (auto simp: window_def)
  show "xlate m' root va = xlate m root va"
    using * [OF pgva_page_no [of va]] pte_at_pg [of va _ root] unfolding xlate_def by (cases "va < MAXVA") simp_all
qed

lemma call_shared:
  assumes can: "can_call T s ps roots root name" and "only_user (mem s) root" and "has_room (mem s) root 34"
    and len: "149 \<le> length ps" and "user_ok (mem s) root addr 8" and "length (buf junk) = 16"
    and new: "find_name (ringbufs s) name = None" and "opn \<noteq> 0"
    and root': "root' \<in> roots" "root' \<noteq> root" and nr: "no_rings (mem s) root'" and ok': "user_ok (mem s) root' addr' 8"
    and idx: "get_ringbuf_index s < 9" and opn': "opn' \<noteq> 0"
  shows "\<exists>s1 s2 T2 ps2 rb P P'. ringbuf_call s root junk name opn addr = Inr (s1, 0) \<and>
    ringbuf_call s1 root' junk' name opn' addr' = Inr (s2, 0) \<and> vm_inv T2 s2 ps2 roots \<and>
    ringbufs s2 = (ringbufs s)[get_ringbuf_index s := rb] \<and> refcount rb = 2 \<and> ring_ok T2 rb \<and>
    cstr_take 16 (rb_name rb) = cstr_take 16 name \<and> ringbuf_lock s2 = ringbuf_lock s \<and>
    user_read (mem s1) root addr 8 = Some (map (u64_bytes (pgva P)) [0..<8]) \<and>
    user_read (mem s2) root' addr' 8 = Some (map (u64_bytes (pgva P')) [0..<8]) \<and>
    window (mem s2) root P rb \<and> window (mem s2) root' P' rb"
proof -
  let ?i = "get_ringbuf_index s"
  have root: "root \<in> roots" and len10: "length (ringbufs s) = 10" and lk: "lk_free (ringbuf_lock s)"
    and name: "\<exists>n\<le>16. strlen name = Some n"
    using can by (simp_all add: can_call_def)
  obtain s1 T1 ps1 rb P where c: "ringbuf_call s root junk name opn addr = Inr (s1, 0)"
    "opened roots T s T1 s1 ps1 root P rb addr" "window (mem s1) root P rb" "ring_ok T1 rb"
    "ringbufs s1 = (ringbufs s)[?i := rb]" "refcount rb = 1" "cstr_take 16 (rb_name rb) = cstr_take 16 name"
    "length ps \<le> length ps1 + 83"
    using call_create [OF assms(1-3) _ assms(5-8)] len by auto
  have ws: "window_set roots (mem s) (mem s1) root P (buf rb) (book rb)" and inv1: "vm_inv T1 s1 ps1 roots"
    and lk1: "ringbuf_lock s1 = ringbuf_lock s" and rd1: "user_read (mem s1) root addr 8 = Some (map (u64_bytes (pgva P)) [0..<8])"
    using c(2) by (simp_all add: opened_def)
  note same = window_other [OF ws root']
  have "get_ringbuf_index s1 \<le> Suc ?i"
    unfolding get_ringbuf_index_def c(5) by (rule named_update_le)
  then have "get_ringbuf_index s1 < 10"
    using idx by simp
  then have can1: "can_call T1 s1 ps1 roots root' name"
    using inv1 root'(1) lk lk1 len10 name by (simp add: can_call_def c(5))
  have nr1: "no_rings (mem s1) root'"
    using nr same(1) by (simp add: no_rings_def)
  have ok1: "user_ok (mem s1) root' addr' 8"
    using ok' same(3) by (simp add: user_ok_def)
  have fn: "find_name (ringbufs s1) name = Some ?i" "rb = ringbufs s1 ! ?i"
    using find_name_new [OF new, of ?i rb] idx len10 c(5,7) by simp_all
  obtain s2 T2 ps2 where a: "ringbuf_call s1 root' junk' name opn' addr' = Inr (s2, 0)"
    "opened roots T1 s1 T2 s2 ps2 root' (TOP - 2) rb addr'" "window (mem s2) root' (TOP - 2) rb" "ring_ok T2 rb"
    "ringbufs s2 = (ringbufs s1)[?i := rb\<lparr>refcount := refcount rb + 1\<rparr>]"
    using call_append [OF can1 nr1 _ ok1 fn _ c(4) opn', of junk'] c(6,8) len by auto
  have ws2: "window_set roots (mem s1) (mem s2) root' (TOP - 2) (buf rb) (book rb)" and inv2: "vm_inv T2 s2 ps2 roots"
    and rd2: "user_read (mem s2) root' addr' 8 = Some (map (u64_bytes (pgva (TOP - 2))) [0..<8])"
    using a(2) by (simp_all add: opened_def)
  have win: "window (mem s2) root P rb"
    using window_other(2) [OF ws2 root _ c(3)] root'(2) by simp
  let ?rb = "rb\<lparr>refcount := 2\<rparr>"
  have "ring_ok T2 ?rb" "ringbufs s2 = (ringbufs s)[?i := ?rb]" "cstr_take 16 (rb_name ?rb) = cstr_take 16 name"
    "window (mem s2) root P ?rb" "window (mem s2) root' (TOP - 2) ?rb" "ringbuf_lock s2 = ringbuf_lock s"
    using a(2,3,4,5) c(5,6,7) win lk1 by (simp_all add: ring_ok_def window_def opened_def)
  then show ?thesis
    using c(1) a(1) inv2 rd1 rd2
    by - (rule exI [of _ s1], rule exI [of _ s2], rule exI [of _ T2], rule exI [of _ ps2], rule exI [of _ ?rb],
        rule exI [of _ P], rule exI [of _ "TOP - 2"], simp)
qed

text \<open>
  C7 (functional). One process creates a ring and a second one opens the same name. Both calls
  return 0, the ring has two users, and the two windows are backed by the same physical pages,
  so what one process writes the other reads. The first needs room for the
  window, the second must have no ring yet, and there must be 149 free pages.
\<close>

theorem ringbuf_shared:
  assumes can: "can_call T s ps roots root name" and "only_user (mem s) root" and "has_room (mem s) root 34"
    and len: "149 \<le> length ps" and "user_ok (mem s) root addr 8" and "length (buf junk) = 16"
    and new: "find_name (ringbufs s) name = None" and "opn \<noteq> 0"
    and root': "root' \<in> roots" "root' \<noteq> root" and nr: "no_rings (mem s) root'" and ok': "user_ok (mem s) root' addr' 8"
    and idx: "get_ringbuf_index s < 9" and opn': "opn' \<noteq> 0"
  shows "\<exists>s1 s2 T2 ps2 rb P P'. ringbuf_call s root junk name opn addr = Inr (s1, 0) \<and>
    ringbuf_call s1 root' junk' name opn' addr' = Inr (s2, 0) \<and> vm_inv T2 s2 ps2 roots \<and>
    ringbufs s2 = (ringbufs s)[get_ringbuf_index s := rb] \<and> refcount rb = 2 \<and> ring_ok T2 rb \<and>
    user_read (mem s1) root addr 8 = Some (map (u64_bytes (pgva P)) [0..<8]) \<and>
    user_read (mem s2) root' addr' 8 = Some (map (u64_bytes (pgva P')) [0..<8]) \<and>
    (\<forall>k<131072. xlate (mem s2) root (pgva (P - 31) + of_nat k) = Some (ring_byte rb (k mod 65536)) \<and>
       xlate (mem s2) root' (pgva (P' - 31) + of_nat k) = Some (ring_byte rb (k mod 65536)))"
proof -
  obtain s1 s2 T2 ps2 rb P P' where c: "ringbuf_call s root junk name opn addr = Inr (s1, 0)"
    "ringbuf_call s1 root' junk' name opn' addr' = Inr (s2, 0)" "vm_inv T2 s2 ps2 roots"
    "ringbufs s2 = (ringbufs s)[get_ringbuf_index s := rb]" "refcount rb = 2" "ring_ok T2 rb"
    "user_read (mem s1) root addr 8 = Some (map (u64_bytes (pgva P)) [0..<8])"
    "user_read (mem s2) root' addr' 8 = Some (map (u64_bytes (pgva P')) [0..<8])"
    "window (mem s2) root P rb" "window (mem s2) root' P' rb"
    using call_shared [OF assms] by metis
  have "root \<in> roots"
    using can by (simp add: can_call_def)
  then show ?thesis
    using c(1-8) window_xlate [OF c(3) _ c(9,6)] window_xlate [OF c(3) root'(1) c(10,6)]
    by - (rule exI [of _ s1], rule exI [of _ s2], rule exI [of _ T2], rule exI [of _ ps2], rule exI [of _ rb],
        rule exI [of _ P], rule exI [of _ P'], simp)
qed

theorem ringbuf_shared_witness:
  "\<exists>s1 s2 rb P P'. ringbuf_call (small_k 200) root1 junk_ring (to_cstr ''ring'') 1 0 = Inr (s1, 0) \<and>
    ringbuf_call s1 root2 junk_ring (to_cstr ''ring'') 1 0 = Inr (s2, 0) \<and> refcount rb = 2 \<and>
    xlate (mem s2) root1 (pgva (P - 31) + of_nat 70000) = Some (ring_byte rb (70000 mod 65536)) \<and>
    xlate (mem s2) root2 (pgva (P' - 31) + of_nat 70000) = Some (ring_byte rb (70000 mod 65536))"
proof -
  have "root1 \<noteq> root2" by (simp add: root1_def root2_def)
  then have "\<exists>s1 s2 T2 ps2 rb P P'. ringbuf_call (small_k 200) root1 junk_ring (to_cstr ''ring'') 1 0 = Inr (s1, 0) \<and>
    ringbuf_call s1 root2 junk_ring (to_cstr ''ring'') 1 0 = Inr (s2, 0) \<and> vm_inv T2 s2 ps2 {root1, root2} \<and>
    ringbufs s2 = (ringbufs (small_k 200))[get_ringbuf_index (small_k 200) := rb] \<and> refcount rb = 2 \<and> ring_ok T2 rb \<and>
    user_read (mem s1) root1 0 8 = Some (map (u64_bytes (pgva P)) [0..<8]) \<and>
    user_read (mem s2) root2 0 8 = Some (map (u64_bytes (pgva P')) [0..<8]) \<and>
    (\<forall>k<131072. xlate (mem s2) root1 (pgva (P - 31) + of_nat k) = Some (ring_byte rb (k mod 65536)) \<and>
       xlate (mem s2) root2 (pgva (P' - 31) + of_nat k) = Some (ring_byte rb (k mod 65536)))"
    using small_k_ready [of 200 root1] small_k_ready [of 200 root2] by (intro ringbuf_shared [OF small_k_call]) simp_all
  moreover have "(70000::nat) < 131072" by simp
  ultimately show ?thesis by blast
qed

lemma small_shared:
  "\<exists>s1 s2 T2 ps2 rb P P'. ringbuf_call (small_k 200) root1 junk_ring (to_cstr ''ring'') 1 0 = Inr (s1, 0) \<and>
    ringbuf_call s1 root2 junk_ring (to_cstr ''ring'') 1 0 = Inr (s2, 0) \<and> vm_inv T2 s2 ps2 {root1, root2} \<and>
    ringbufs s2 = (ringbufs (small_k 200))[get_ringbuf_index (small_k 200) := rb] \<and> refcount rb = 2 \<and> ring_ok T2 rb \<and>
    cstr_take 16 (rb_name rb) = cstr_take 16 (to_cstr ''ring'') \<and> ringbuf_lock s2 = ringbuf_lock (small_k 200) \<and>
    user_read (mem s1) root1 0 8 = Some (map (u64_bytes (pgva P)) [0..<8]) \<and>
    user_read (mem s2) root2 0 8 = Some (map (u64_bytes (pgva P')) [0..<8]) \<and>
    window (mem s2) root1 P rb \<and> window (mem s2) root2 P' rb"
  using small_k_ready [of 200 root1] small_k_ready [of 200 root2]
  by (intro call_shared [OF small_k_call]) (simp_all add: root1_def root2_def)

text \<open>
  C5 (functional). Zero copy: one process creates a ring with the system call and a second one
  opens the same name. Each call stores the address of the window it made, \<open>pgva P\<close> and \<open>pgva P'\<close>.
  From then on what either process stores at an offset \<open>k\<close> of its 128 KB window, over the end of the
  first copy of the ring or not, the other loads at every offset that is equal to \<open>k\<close> modulo 64 KB of its
  own window, at once and without a system call. The two windows need not be at the same address.
\<close>

theorem ringbuf_zero_copy:
  assumes can: "can_call T s ps roots root name" and "only_user (mem s) root" and "has_room (mem s) root 34"
    and len: "149 \<le> length ps" and "user_ok (mem s) root addr 8" and "length (buf junk) = 16"
    and new: "find_name (ringbufs s) name = None" and "opn \<noteq> 0"
    and root': "root' \<in> roots" "root' \<noteq> root" and nr: "no_rings (mem s) root'" and ok': "user_ok (mem s) root' addr' 8"
    and idx: "get_ringbuf_index s < 9" and opn': "opn' \<noteq> 0"
  shows "\<exists>s1 s2 P P'. ringbuf_call s root junk name opn addr = Inr (s1, 0) \<and>
    ringbuf_call s1 root' junk' name opn' addr' = Inr (s2, 0) \<and>
    user_read (mem s1) root addr 8 = Some (map (u64_bytes (pgva P)) [0..<8]) \<and>
    user_read (mem s2) root' addr' 8 = Some (map (u64_bytes (pgva P')) [0..<8]) \<and>
    (\<forall>bs k k'. length bs \<le> 65536 \<and> k + length bs \<le> 131072 \<and> k' + length bs \<le> 131072 \<and> k mod 65536 = k' mod 65536 \<longrightarrow>
       (\<exists>m. user_write (mem s2) root (pgva (P - 31) + of_nat k) bs = Some m \<and>
          user_read m root' (pgva (P' - 31) + of_nat k') (length bs) = Some bs) \<and>
       (\<exists>m. user_write (mem s2) root' (pgva (P' - 31) + of_nat k) bs = Some m \<and>
          user_read m root (pgva (P - 31) + of_nat k') (length bs) = Some bs))"
proof -
  obtain s1 s2 T2 ps2 rb P P' where c: "ringbuf_call s root junk name opn addr = Inr (s1, 0)"
    "ringbuf_call s1 root' junk' name opn' addr' = Inr (s2, 0)" "vm_inv T2 s2 ps2 roots" "ring_ok T2 rb"
    "user_read (mem s1) root addr 8 = Some (map (u64_bytes (pgva P)) [0..<8])"
    "user_read (mem s2) root' addr' 8 = Some (map (u64_bytes (pgva P')) [0..<8])"
    "window (mem s2) root P rb" "window (mem s2) root' P' rb"
    using call_shared [OF assms] by metis
  have "root \<in> roots"
    using can by (simp add: can_call_def)
  then show ?thesis
    using c(1,2,5,6) window_write_read [OF c(3) _ root'(1) c(7,8,4)] window_write_read [OF c(3) root'(1) _ c(8,7,4)]
    by - (rule exI [of _ s1], rule exI [of _ s2], rule exI [of _ P], rule exI [of _ P'], simp)
qed

theorem ringbuf_zero_copy_witness:
  "\<exists>s1 s2 P P' m. ringbuf_call (small_k 200) root1 junk_ring (to_cstr ''ring'') 1 0 = Inr (s1, 0) \<and>
    ringbuf_call s1 root2 junk_ring (to_cstr ''ring'') 1 0 = Inr (s2, 0) \<and>
    user_write (mem s2) root1 (pgva (P - 31) + of_nat 65535) [7, 8, 9] = Some m \<and>
    user_read m root2 (pgva (P' - 31) + of_nat 65535) (length [7, 8, 9 :: u8]) = Some [7, 8, 9]"
proof -
  have roots_neq: "root2 \<noteq> root1" by (simp add: root1_def root2_def)
  have "\<exists>s1 s2 P P'. ringbuf_call (small_k 200) root1 junk_ring (to_cstr ''ring'') 1 0 = Inr (s1, 0) \<and>
    ringbuf_call s1 root2 junk_ring (to_cstr ''ring'') 1 0 = Inr (s2, 0) \<and>
    user_read (mem s1) root1 0 8 = Some (map (u64_bytes (pgva P)) [0..<8]) \<and>
    user_read (mem s2) root2 0 8 = Some (map (u64_bytes (pgva P')) [0..<8]) \<and>
    (\<forall>bs k k'. length bs \<le> 65536 \<and> k + length bs \<le> 131072 \<and> k' + length bs \<le> 131072 \<and> k mod 65536 = k' mod 65536 \<longrightarrow>
       (\<exists>m. user_write (mem s2) root1 (pgva (P - 31) + of_nat k) bs = Some m \<and>
          user_read m root2 (pgva (P' - 31) + of_nat k') (length bs) = Some bs) \<and>
       (\<exists>m. user_write (mem s2) root2 (pgva (P' - 31) + of_nat k) bs = Some m \<and>
          user_read m root1 (pgva (P - 31) + of_nat k') (length bs) = Some bs))"
    using small_k_ready [of 200 root1] small_k_ready [of 200 root2] roots_neq
    by (intro ringbuf_zero_copy [OF small_k_call]) simp_all
  then obtain s1 s2 P P' where c: "ringbuf_call (small_k 200) root1 junk_ring (to_cstr ''ring'') 1 0 = Inr (s1, 0)"
    "ringbuf_call s1 root2 junk_ring (to_cstr ''ring'') 1 0 = Inr (s2, 0)"
    and z: "\<And>bs k k'. length bs \<le> 65536 \<and> k + length bs \<le> 131072 \<and> k' + length bs \<le> 131072 \<and> k mod 65536 = k' mod 65536 \<Longrightarrow>
       \<exists>m. user_write (mem s2) root1 (pgva (P - 31) + of_nat k) bs = Some m \<and>
          user_read m root2 (pgva (P' - 31) + of_nat k') (length bs) = Some bs"
    by blast
  show ?thesis
    using c z [of "[7, 8, 9]" 65535 65535] by auto
qed

section \<open>Closing a ring\<close>

lemma fresh_sole_user:
  assumes inv: "vm_inv T s ps roots" and o: "opened roots T s T' s' ps' root P rb addr"
    and fresh: "\<forall>c\<in>set (book rb # buf rb). T c \<noteq> PData"
  shows "sole_user roots (mem s') root P rb"
  unfolding sole_user_def
proof (intro ballI allI impI)
  fix rt v
  assume rt: "rt \<in> roots" and v: "v < NPAGES"
    and u: "user_pte (pte_pg (mem s') rt v) \<and> PTE2PA (pte_pg (mem s') rt v) \<in> set (book rb # buf rb)"
  show "rt = root \<and> v \<le> P \<and> P \<le> v + 32"
  proof (rule ccontr)
    assume "\<not> (rt = root \<and> v \<le> P \<and> P \<le> v + 32)"
    then have "pte_pg (mem s') rt v = pte_pg (mem s) rt v"
      using o rt v by (auto simp: opened_def window_set_def)
    then have "T (PTE2PA (pte_pg (mem s') rt v)) = PData"
      using user_pte_data [OF inv rt, of "pgva v"] u by (simp add: pte_pg_def)
    then show False
      using u fresh by blast
  qed
qed

lemma xlate_pgs:
  assumes "\<And>v. v < NPAGES \<Longrightarrow> user_pte (pte_pg m' rt v) = user_pte (pte_pg m rt v)"
    and "\<And>v. v < NPAGES \<Longrightarrow> user_pte (pte_pg m rt v) \<Longrightarrow> pte_pg m' rt v = pte_pg m rt v"
  shows "xlate m' rt va = xlate m rt va"
  using assms [OF pgva_page_no [of va]] pte_at_pg [of va _ rt] unfolding xlate_def by (cases "va < MAXVA") auto

lemma closed_xlate:
  assumes set: "window_set roots m m1 root P cs bk" and clr: "window_clear roots m1 m2 root P"
    and un: "\<forall>j\<le>32. \<not> pte_valid (pte_pg m root (P - j))" and rt: "rt \<in> roots"
  shows "xlate m2 rt va = xlate m rt va"
proof (rule xlate_pgs)
  fix v
  assume v: "v < NPAGES"
  have "pte_pg m2 rt v = (if rt = root \<and> v \<le> P \<and> P \<le> v + 32 then 0 else pte_pg m rt v)"
    using set clr rt v by (simp add: window_set_def window_clear_def)
  moreover have "\<not> pte_valid (pte_pg m root v)" if "v \<le> P" "P \<le> v + 32"
    using un [rule_format, of "P - v"] that by simp
  ultimately show "user_pte (pte_pg m2 rt v) = user_pte (pte_pg m rt v)"
    "user_pte (pte_pg m rt v) \<Longrightarrow> pte_pg m2 rt v = pte_pg m rt v"
    by (auto simp: user_pte_def pte_valid_def)
qed

text \<open>
  C8 (roundtrip). Opening a new ring and closing it again: both calls return 0, every process
  translates every address as before, the table has the slot of the ring empty, and all user memory
  but the eight bytes at \<open>addr\<close> is as it was. The close returns exactly the ring's 17 pages: after it the
  free list is the one the open left, with the page of the counters and the 16 pages of data of the
  ring, which were not user pages before, pushed on it. Of the pages that were free before the open
  at most 66 stay allocated, two page-table pages for each of its 33 mappings.
\<close>

theorem ringbuf_open_close:
  assumes can: "can_call T s ps roots root name" and ou: "only_user (mem s) root" and room: "has_room (mem s) root 34"
    and len: "83 \<le> length ps" and ok: "user_ok (mem s) root addr 8" and junk: "length (buf junk) = 16"
    and new: "find_name (ringbufs s) name = None" and opn: "opn \<noteq> 0"
    and idx: "get_ringbuf_index s < 9" and off: "unat addr mod 4096 \<le> 4088"
  shows "\<exists>s1 s2 T1 T2 ps1 ps2 rb rb'. ringbuf_call s root junk name opn addr = Inr (s1, 0) \<and>
    ringbuf_call s1 root junk' name 0 addr = Inr (s2, 0) \<and> vm_inv T1 s1 ps1 roots \<and> vm_inv T2 s2 ps2 roots \<and>
    ringbufs s1 = (ringbufs s)[get_ringbuf_index s := rb'] \<and> refcount rb' = 1 \<and>
    ps2 = rev (buf rb') @ book rb' # ps1 \<and> length (buf rb') = 16 \<and> (\<forall>c\<in>set (book rb' # buf rb'). T c \<noteq> PData) \<and>
    length ps \<le> length ps2 + 66 \<and>
    (\<forall>rt\<in>roots. \<forall>va. xlate (mem s2) rt va = xlate (mem s) rt va) \<and>
    ringbufs s2 = (ringbufs s)[get_ringbuf_index s := rb] \<and> refcount rb = 0 \<and> cstr_take 16 (rb_name rb) = [] \<and>
    (\<forall>p x. T p = PData \<and> page_no x = page_no p \<and> (\<forall>i<8. xlate (mem s) root (addr + of_nat i) \<noteq> Some x)
       \<longrightarrow> mem s2 x = mem s x)"
proof -
  let ?i = "get_ringbuf_index s"
  have inv: "vm_inv T s ps roots" and root: "root \<in> roots" and len10: "length (ringbufs s) = 10"
    and lk: "lk_free (ringbuf_lock s)" and name: "\<exists>n\<le>16. strlen name = Some n"
    using can by (simp_all add: can_call_def)
  obtain s1 T1 ps1 rb P where c: "ringbuf_call s root junk name opn addr = Inr (s1, 0)"
    "opened roots T s T1 s1 ps1 root P rb addr" "window (mem s1) root P rb" "ring_ok T1 rb"
    "ringbufs s1 = (ringbufs s)[?i := rb]" "refcount rb = 1" "cstr_take 16 (rb_name rb) = cstr_take 16 name"
    "length ps \<le> length ps1 + 83" "\<forall>c\<in>set (book rb # buf rb). T c \<noteq> PData"
    "\<forall>j\<le>32. \<not> pte_valid (pte_pg (mem s) root (P - j))"
    using call_create [OF can ou room len ok junk new opn] by metis
  have ws: "window_set roots (mem s) (mem s1) root P (buf rb) (book rb)" and inv1: "vm_inv T1 s1 ps1 roots"
    and lk1: "ringbuf_lock s1 = ringbuf_lock s" and rd: "user_read (mem s1) root addr 8 = Some (map (u64_bytes (pgva P)) [0..<8])"
    and keep: "\<And>p. T p = PData \<Longrightarrow> T1 p = PData"
    using c(2) by (simp_all add: opened_def)
  have "get_ringbuf_index s1 \<le> Suc ?i"
    unfolding get_ringbuf_index_def c(5) by (rule named_update_le)
  then have can1: "can_call T1 s1 ps1 roots root name"
    using idx inv1 root lk lk1 len10 name by (simp add: can_call_def c(5))
  have "can_close T1 s1 root name addr ?i P rb"
    using find_name_new [OF new, of ?i rb] idx len10 c(3-5,7) rd off by (simp add: can_close_def)
  then obtain s2 T2 where d: "ringbuf_call s1 root junk' name 0 addr = Inr (s2, 0)"
    "vm_inv T2 s2 (rev (buf rb) @ book rb # ps1) roots" "window_clear roots (mem s1) (mem s2) root P"
    "ringbufs s2 = (ringbufs s1)[?i := rb\<lparr>refcount := 0, rb_name := strncpy (rb_name rb) empty_cstr 16\<rparr>]"
    "\<forall>p x. T1 p = PData \<and> p \<notin> set (book rb # buf rb) \<and> page_no x = page_no p \<longrightarrow> mem s2 x = mem s1 x"
    using call_close_last [OF can1 _ c(6) fresh_sole_user [OF inv c(2,9)], of addr ?i junk'] by metis
  have "xlate (mem s2) rt va = xlate (mem s) rt va" if "rt \<in> roots" for rt va
    using closed_xlate [OF ws d(3) _ that] c(10) by blast
  moreover have "mem s2 x = mem s x"
    if "T p = PData" "page_no x = page_no p" "\<forall>i<8. xlate (mem s) root (addr + of_nat i) \<noteq> Some x" for p x
  proof -
    have "mem s1 x = mem s x"
      using c(2) that unfolding opened_def by blast
    moreover have "p \<notin> set (book rb # buf rb)"
      using c(9) that(1) by blast
    ultimately show ?thesis
      using d(5) keep [OF that(1)] that(2) by metis
  qed
  moreover have len16: "length (buf rb) = 16"
    using c(4) by (simp add: ring_ok_def)
  moreover have "length ps \<le> length (rev (buf rb) @ book rb # ps1) + 66"
    using c(8) len16 by simp
  ultimately show ?thesis
    using c(1,5,6,9) d(1,2,4) inv1 len16 cstr_take_strncpy [of 16 "rb_name rb" empty_cstr]
    by - (rule exI [of _ s1], rule exI [of _ s2], rule exI [of _ T1], rule exI [of _ T2], rule exI [of _ ps1],
        rule exI [of _ "rev (buf rb) @ book rb # ps1"],
        rule exI [of _ "rb\<lparr>refcount := 0, rb_name := strncpy (rb_name rb) empty_cstr 16\<rparr>"], rule exI [of _ rb], auto)
qed

theorem ringbuf_open_close_witness:
  "\<exists>s1 s2 T1 T2 ps1 ps2. ringbuf_call (small_k 100) root1 junk_ring (to_cstr ''ring'') 1 0 = Inr (s1, 0) \<and>
    ringbuf_call s1 root1 junk_ring (to_cstr ''ring'') 0 0 = Inr (s2, 0) \<and>
    vm_inv T1 s1 ps1 {root1, root2} \<and> vm_inv T2 s2 ps2 {root1, root2} \<and> length ps2 = length ps1 + 17 \<and>
    (\<forall>va. xlate (mem s2) root2 va = xlate (small_mem 100) root2 va)"
proof -
  have "\<exists>s1 s2 T1 T2 ps1 ps2 rb rb'. ringbuf_call (small_k 100) root1 junk_ring (to_cstr ''ring'') 1 0 = Inr (s1, 0) \<and>
    ringbuf_call s1 root1 junk_ring (to_cstr ''ring'') 0 0 = Inr (s2, 0) \<and>
    vm_inv T1 s1 ps1 {root1, root2} \<and> vm_inv T2 s2 ps2 {root1, root2} \<and>
    ringbufs s1 = (ringbufs (small_k 100))[get_ringbuf_index (small_k 100) := rb'] \<and> refcount rb' = 1 \<and>
    ps2 = rev (buf rb') @ book rb' # ps1 \<and> length (buf rb') = 16 \<and>
    (\<forall>c\<in>set (book rb' # buf rb'). small_type 100 c \<noteq> PData) \<and>
    length (pool 100) \<le> length ps2 + 66 \<and>
    (\<forall>rt\<in>{root1, root2}. \<forall>va. xlate (mem s2) rt va = xlate (mem (small_k 100)) rt va) \<and>
    ringbufs s2 = (ringbufs (small_k 100))[get_ringbuf_index (small_k 100) := rb] \<and> refcount rb = 0 \<and>
    cstr_take 16 (rb_name rb) = [] \<and>
    (\<forall>p x. small_type 100 p = PData \<and> page_no x = page_no p \<and>
       (\<forall>i<8. xlate (mem (small_k 100)) root1 (0 + of_nat i) \<noteq> Some x) \<longrightarrow> mem s2 x = mem (small_k 100) x)"
    using small_k_ready [of 100 root1] by (intro ringbuf_open_close [OF small_k_call]) simp_all
  then show ?thesis
    by (elim exE conjE) (intro exI conjI, assumption+, simp_all)
qed


text \<open>
  C9 (functional). Closing a ring that other processes still have open: the window disappears
  from the caller only, the pages stay allocated with their contents, and the count goes down.
\<close>

theorem ringbuf_close_shared:
  assumes "can_call T s ps roots root name" and "can_close T s root name addr idx P rb" and "refcount rb \<noteq> 1"
  shows "\<exists>s'. ringbuf_call s root junk name 0 addr = Inr (s', 0) \<and> vm_inv T s' ps roots \<and>
    (\<forall>rt\<in>roots. \<forall>v<NPAGES. pte_pg (mem s') rt v =
       (if rt = root \<and> v \<le> P \<and> P \<le> v + 32 then 0 else pte_pg (mem s) rt v)) \<and>
    ringbufs s' = (ringbufs s)[idx := rb\<lparr>refcount := refcount rb - 1\<rparr>] \<and>
    (\<forall>p x. T p = PData \<and> page_no x = page_no p \<longrightarrow> mem s' x = mem s x) \<and> ringbuf_lock s' = ringbuf_lock s"
  using call_close_more [OF assms] unfolding window_clear_def .

theorem ringbuf_close_shared_witness:
  "\<exists>s1 s2 s3. ringbuf_call (small_k 200) root1 junk_ring (to_cstr ''ring'') 1 0 = Inr (s1, 0) \<and>
    ringbuf_call s1 root2 junk_ring (to_cstr ''ring'') 1 0 = Inr (s2, 0) \<and>
    ringbuf_call s2 root2 junk_ring (to_cstr ''ring'') 0 0 = Inr (s3, 0) \<and> refcount (ringbufs s3 ! 0) = 1"
proof -
  obtain s1 s2 T2 ps2 rb P P' where c: "ringbuf_call (small_k 200) root1 junk_ring (to_cstr ''ring'') 1 0 = Inr (s1, 0)"
    "ringbuf_call s1 root2 junk_ring (to_cstr ''ring'') 1 0 = Inr (s2, 0)" "vm_inv T2 s2 ps2 {root1, root2}"
    "ringbufs s2 = (ringbufs (small_k 200))[get_ringbuf_index (small_k 200) := rb]" "refcount rb = 2" "ring_ok T2 rb"
    "cstr_take 16 (rb_name rb) = cstr_take 16 (to_cstr ''ring'')" "ringbuf_lock s2 = ringbuf_lock (small_k 200)"
    "user_read (mem s2) root2 0 8 = Some (map (u64_bytes (pgva P')) [0..<8])" "window (mem s2) root2 P' rb"
    using small_shared by metis
  have "get_ringbuf_index s2 \<le> Suc (get_ringbuf_index (small_k 200))"
    unfolding get_ringbuf_index_def [of s2] c(4) unfolding get_ringbuf_index_def by (rule named_update_le)
  then have "can_call T2 s2 ps2 {root1, root2} root2 (to_cstr ''ring'')"
    using c(3,4,8) small_k_call [of 200 root2] by (simp add: can_call_def small_k_index)
  moreover have "can_close T2 s2 root2 (to_cstr ''ring'') 0 0 P' rb"
    using find_name_new [OF small_k_ready(7) [of 200 root1], of 0 rb] c(4,6,7,9,10)
    by (simp add: can_close_def small_k_index)
  ultimately show ?thesis
    using ringbuf_close_shared [of T2 s2 ps2 "{root1, root2}" root2 "to_cstr ''ring''" 0 0 P' rb junk_ring] c(1,2,4,5)
    by (auto simp: small_k_index)
qed


section \<open>Where the call fails its purpose\<close>

text \<open>
  C13 (error). A process that closes a ring with an address that is not mapped in its own memory
  does not get an error: the kernel dereferences the address modulo 4096.
\<close>

theorem ringbuf_close_unmapped_addr:
  assumes "can_call T s ps roots root name" and "find_name (ringbufs s) name = Some idx"
    and "xlate (mem s) root addr = None"
  shows "ringbuf_call s root junk name 0 addr = Inl (BadAccess (addr mod 4096))"
proof -
  have inv: "vm_inv T s ps roots" and root: "root \<in> roots" and lk: "lk_free (ringbuf_lock s)"
    and idx: "get_ringbuf_index s < 10"
    using assms(1) by (simp_all add: can_call_def)
  obtain n where n: "strlen name = Some n" "n \<le> 16"
    using assms(1) by (auto simp: can_call_def)
  let ?s1 = "(locked_state s)\<lparr>ringbufs := (ringbufs s)[idx := (ringbufs s ! idx)\<lparr>refcount := refcount (ringbufs s ! idx) - 1\<rparr>]\<rparr>"
  have "vm_inv T ?s1 ps roots"
    using vm_inv_locked [OF inv] by simp
  then have w: "walkaddr ?s1 root addr = Inr 0"
    using walkaddr_eq [of T ?s1 ps roots root addr] root assms(3) by (auto simp: xlate_def split: if_splits)
  have "unat (addr mod 4096) < 4096"
    by (simp add: unat_mod)
  then have "kload64 ?s1 (addr mod 4096) = Inl (BadAccess (addr mod 4096))"
    unfolding kload64_def by (auto simp: KERNBASE_def word_le_nat_alt)
  then show ?thesis
    using ringbuf_call_enter [OF lk idx n] assms(2) w by (simp add: unmap_ringbuf_def Let_def)
qed

theorem ringbuf_close_unmapped_addr_witness:
  "ringbuf_call (small_hole 5) root1 junk_ring (to_cstr ''a'') 0 (2 ^ 60 + 8) = Inl (BadAccess 8)"
  using ringbuf_close_unmapped_addr [OF small_hole_ready(1,2) [of 5 root1, OF _ _ strlen_names(1)],
      where addr = "2 ^ 60 + 8" and junk = junk_ring]
  by (simp add: xlate_def MAXVA_num)


text \<open>
  C12 (error). The table is filled by count, not by free slot. If the first slot has been freed and
  slots 1 to \<open>k\<close> hold rings, the next new ring overwrites slot \<open>k\<close>: the name of the ring there
  can no longer be opened or closed although its pages are still mapped.
\<close>

theorem ringbuf_create_overwrites:
  assumes "can_call T s ps roots root name" and "only_user (mem s) root" and "has_room (mem s) root 34"
    and "83 \<le> length ps" and "user_ok (mem s) root addr 8" and "length (buf junk) = 16"
    and "find_name (ringbufs s) name = None" and "opn \<noteq> 0"
    and "1 \<le> k" and "k < 10" and "\<forall>i<10. cstr_take 16 (rb_name (ringbufs s ! i)) \<noteq> [] \<longleftrightarrow> 1 \<le> i \<and> i \<le> k"
    and "\<forall>i<10. i \<noteq> k \<longrightarrow> cstr_take 16 (rb_name (ringbufs s ! i)) \<noteq> cstr_take 16 lost"
    and "cstr_take 16 (rb_name (ringbufs s ! k)) = cstr_take 16 lost"
  shows "find_name (ringbufs s) lost = Some k \<and>
    (\<exists>s'. ringbuf_call s root junk name opn addr = Inr (s', 0) \<and> find_name (ringbufs s') lost = None)"
proof -
  have len: "length (ringbufs s) = 10"
    using assms(1) by (simp add: can_call_def)
  have "get_ringbuf_index s = card {i. i < 10 \<and> cstr_take 16 (rb_name (ringbufs s ! i)) \<noteq> []}"
    by (simp add: get_ringbuf_index_def strncmp_eq_0_iff length_filter_conv_card len)
  also have "{i. i < 10 \<and> cstr_take 16 (rb_name (ringbufs s ! i)) \<noteq> []} = {i. i < 10 \<and> 1 \<le> i \<and> i \<le> k}"
    using assms(11) by blast
  also have "\<dots> = {1..k}"
    using assms(10) by auto
  finally have k: "get_ringbuf_index s = k"
    by simp
  obtain s' rb where c: "ringbuf_call s root junk name opn addr = Inr (s', 0)"
    "ringbufs s' = (ringbufs s)[k := rb]" "cstr_take 16 (rb_name rb) = cstr_take 16 name"
    using call_create [OF assms(1-8)] unfolding k by blast
  have "cstr_take 16 name \<noteq> cstr_take 16 lost"
    using assms(7,10,13) len nth_mem [of k "ringbufs s"] by (auto simp: find_name_None)
  then have "cstr_take 16 (rb_name (ringbufs s' ! i)) \<noteq> cstr_take 16 lost" if "i < 10" for i
    using assms(12) c(2,3) len that by (cases "i = k") simp_all
  then have "find_name (ringbufs s') lost = None"
    using c(2) len unfolding find_name_None by (auto simp: in_set_conv_nth simp del: nth_list_update)
  moreover have "find_name (ringbufs s) lost = Some k"
    using assms(10,12,13) len by (auto simp: find_name_Some)
  ultimately show ?thesis
    using c(1) by blast
qed

theorem ringbuf_create_overwrites_witness:
  "find_name (ringbufs (small_hole 100)) (to_cstr ''a'') = Some 1 \<and>
   (\<exists>s'. ringbuf_call (small_hole 100) root1 junk_ring (to_cstr ''ring'') 1 0 = Inr (s', 0) \<and>
      find_name (ringbufs s') (to_cstr ''a'') = None)"
  using small_k_ready [of 100 root1] small_hole_ready(3,4) [OF _ _ strlen_names(1), of 100 root1]
    small_hole_names [of _ 100] take_a
  by (intro ringbuf_create_overwrites [OF small_hole_ready(1) [OF _ _ strlen_names(2)], where k = 1]) simp_all


lemma find_top:
  assumes inv: "vm_inv T s ps roots" and root: "root \<in> roots" and num: "0 < num" "num \<le> 1000"
    and un: "\<And>j. j < num \<Longrightarrow> \<not> upage (mem s) root (TOP - j)"
  shows "find_contiguous_pages s root num = Inr (0, pgva TOP)"
proof -
  have "KPAGE + num \<le> TOP"
    using num(2) by simp
  then obtain b where b: "find_contiguous_pages s root num = Inr (0, pgva b)" "fits (mem s) root num b"
      "\<forall>t. b < t \<and> t \<le> TOP \<longrightarrow> (\<exists>k<num. upage (mem s) root (t - k))"
    using find_contiguous_pages_spec [OF inv root num(1)] un by (metis order_refl)
  then have "b = TOP"
    using un by (metis fits_def le_neq_implies_less order_refl)
  then show ?thesis
    using b(1) by simp
qed

lemma walk_loop_present: "descend (mem s) l t va = Some t0 \<Longrightarrow> walk_loop l s t va al = Inr (s, t0 + 8 * PX 0 va)"
  by (induction l arbitrary: t) (auto simp: Let_def entry_slot pte_valid_def simp del: PX_slot split: if_splits)

lemma mappages_remap:
  assumes inv: "vm_inv T s ps roots" and root: "root \<in> roots" and v: "v < NPAGES" and "pte_valid (pte_pg (mem s) root v)"
  shows "mappages s root (pgva v) 4096 pa perm = Inl (Panic ''mappages: remap'')"
proof -
  have "descend (mem s) 2 root (pgva v) \<noteq> None"
    using assms(4) by (auto simp: pte_pg_def pte_at_def lookup_from_def split: option.splits)
  then obtain t0 where t0: "descend (mem s) 2 root (pgva v) = Some t0"
    by blast
  then have "walk s root (pgva v) True = Inr (s, t0 + 8 * PX 0 (pgva v))"
    using walk_loop_present [OF t0] pgva_props(4) [OF v] by (simp add: walk_def not_le [symmetric])
  moreover have "t0 + 8 * PX 0 (pgva v) \<noteq> 0"
    using slot_nonzero [OF inv, of t0 "pgva v"] descend_root_typed [OF inv root t0] by simp
  moreover have "ld64 (mem s) (t0 + 8 * PX 0 (pgva v)) AND PTE_V \<noteq> 0"
    using assms(4) ld64_leaf_slot [OF t0] by (simp add: pte_pg_def pte_valid_def del: PX_slot)
  ultimately show ?thesis
    by (simp add: mappages_one_eq [OF pgva_props(3) [OF v]] del: PX_slot)
qed

text \<open>
  C11 (error). \<open>append_ringbuf\<close> asks for 34 free pages and then uses 35: two guard pages, 32 ring
  pages and the book page. If exactly the 34 pages below the trampoline, the trap frame and the
  next page are free and the page under them is mapped, opening an existing ring brings the kernel down.
\<close>

theorem ringbuf_append_panics:
  assumes can: "can_call T s ps roots root name" and name: "find_name (ringbufs s) name = Some idx"
    and rb: "refcount (ringbufs s ! idx) > 0" "ring_ok T (ringbufs s ! idx)"
    and len: "64 \<le> length ps" and opn: "opn \<noteq> 0"
    and un: "\<forall>j<34. \<not> pte_valid (pte_pg (mem s) root (TOP - j))" and mapped: "pte_valid (pte_pg (mem s) root (TOP - 34))"
  shows "ringbuf_call s root junk name opn addr = Inl (Panic ''mappages: remap'')"
proof -
  let ?s = "locked_state s" and ?rb = "ringbufs s ! idx"
  have inv: "vm_inv T ?s ps roots" and root: "root \<in> roots" and lk: "lk_free (ringbuf_lock s)"
    and idx: "get_ringbuf_index s < 10"
    using can vm_inv_locked by (auto simp: can_call_def)
  obtain n where n: "strlen name = Some n" "n \<le> 16"
    using can by (auto simp: can_call_def)
  have "\<not> upage (mem ?s) root (TOP - j)" if "j < 34" for j
    using un that by (simp add: upage_def user_pte_def)
  then have "find_contiguous_pages ?s root 34 = Inr (0, pgva TOP)"
    by (intro find_top [OF inv root]) simp_all
  moreover have "pgva TOP - 4096 - 4096 = pgva (TOP - 2)" "pgva (TOP - 2) - 131072 = pgva (TOP - 34)"
    by (simp_all add: pgva_def)
  moreover obtain s1 T1 ps1 where m: "mappages_to_proc ?s root ?rb (pgva (TOP - 2)) 32 = Inr (s1, ?rb, 0)"
    "vm_inv T1 s1 ps1 roots" "ring_set roots (mem ?s) (mem s1) root (TOP - 2) (buf ?rb)"
    using mappages_old_ok [OF inv root, of "TOP - 2" ?rb] rb len un [rule_format, of "Suc (Suc j)" for j]
    by (auto simp: ring_ok_def)
  moreover have "pte_valid (pte_pg (mem s1) root (TOP - 34))"
    using m(3) root mapped by (simp add: ring_set_def)
  then have "mappages (s1\<lparr>ringbufs := rbs\<rparr>) root (pgva (TOP - 34)) 4096 (book ?rb) RWXU = Inl (Panic ''mappages: remap'')" for rbs
    using m(2) root by (intro mappages_remap) simp_all
  ultimately have "append_ringbuf ?s root name addr = Inl (Panic ''mappages: remap'')"
    using name rb(1) by (simp add: append_ringbuf_def mappage_to_book_def Let_def)
  then show ?thesis
    using ringbuf_call_enter [OF lk idx n] name opn by simp
qed

theorem ringbuf_append_panics_witness:
  "\<exists>s :: kstate. ringbuf_call s root1 junk_ring (to_cstr ''ring'') 1 0 = Inl (Panic ''mappages: remap'')"
proof -
  obtain s1 T1 ps1 rb P where c: "opened {root1, root2} (small_type 200) (small_k 200) T1 s1 ps1 root2 P rb 0"
    "ring_ok T1 rb" "ringbufs s1 = (ringbufs (small_k 200))[0 := rb]" "refcount rb = 1"
    "cstr_take 16 (rb_name rb) = cstr_take 16 (to_cstr ''ring'')" "length (pool 200) \<le> length ps1 + 83"
    using call_create [OF small_k_call [of 200 root2], of 0 junk_ring 1] small_k_ready [of 200 root2]
    by (auto simp: small_k_index)
  have inv: "vm_inv T1 s1 ps1 {root1, root2}" and ws: "window_set {root1, root2} (small_mem 200) (mem s1) root2 P (buf rb) (book rb)"
    and lk: "ringbuf_lock s1 = ringbuf_lock (small_k 200)"
    using c(1) by (simp_all add: opened_def)
  have free: "pte_pg (mem s1) root1 v = 0" if "v < NPAGES" "v \<noteq> 0" for v
    using window_other(1) [OF ws _ _ that(1)] small_k_pg [of 200 root1 v] that by (simp add: root1_def root2_def)
  have data: "T1 (buf rb ! 0) = PData"
    using c(2) by (simp add: ring_ok_def)
  obtain s2 T2 ps2 where m: "vm_inv T2 s2 ps2 {root1, root2}" "vm_keep T1 s1 T2 s2" "length ps1 \<le> length ps2 + 2"
    "\<forall>rt\<in>{root1, root2}. \<forall>w<NPAGES. pte_pg (mem s2) rt w =
       (if rt = root1 \<and> w = TOP - 34 then leaf (buf rb ! 0) else pte_pg (mem s1) rt w)"
    using map_or_free_ok [OF inv _ _ _ data, of root1 "TOP - 34"] free c(6) small_k_ready(5) [of 200 root1] by auto
  have kept: "ringbufs s2 = ringbufs s1" "ringbuf_lock s2 = ringbuf_lock s1" "ring_ok T2 rb"
    using m(2) kmem_more_kstate [of s2 s1] c(2) by (auto simp: vm_keep_def ring_ok_def)
  have len: "length (ringbufs (small_k 200)) = 10"
    by simp
  have "get_ringbuf_index s2 \<le> Suc (get_ringbuf_index (small_k 200))"
    unfolding get_ringbuf_index_def kept c(3) by (rule named_update_le)
  then have "can_call T2 s2 ps2 {root1, root2} root1 (to_cstr ''ring'')"
    using m(1) kept lk c(3) small_k_call [of 200 root1] by (simp add: can_call_def small_k_index)
  moreover have "find_name (ringbufs s2) (to_cstr ''ring'') = Some 0" "ringbufs s2 ! 0 = rb"
    using find_name_new [OF small_k_ready(7) [of 200 root1], of 0 rb] kept c(3,5) by simp_all
  moreover have "pte_valid (pte_pg (mem s2) root1 (TOP - 34))"
    using m(4) leaf_facts(1) vm_inv_aligned [OF inv, of "buf rb ! 0"] data by simp
  moreover have "\<not> pte_valid (pte_pg (mem s2) root1 (TOP - j))" if "j < 34" for j
  proof -
    have "TOP - j < NPAGES" "TOP - j \<noteq> 0" "TOP - j \<noteq> TOP - 34"
      using that by simp_all
    then show ?thesis
      using m(4) free [of "TOP - j"] by (metis insertI1 zero_not_valid)
  qed
  ultimately have "ringbuf_call s2 root1 junk_ring (to_cstr ''ring'') 1 0 = Inl (Panic ''mappages: remap'')"
    using kept(3) c(4,6) m(3) small_k_ready(5) [of 200 root1]
    by (intro ringbuf_append_panics [where T = T2 and ps = ps2 and roots = "{root1, root2}" and idx = 0]) simp_all
  then show ?thesis by blast
qed


end
