(* ===== verification/Proc_free.thy ===== *)
theory Proc_free
  imports Proc_thms Freewalk Ringbuf_thms
begin

text \<open>
  Freeing a process: \<open>freeproc\<close>, which \<open>wait\<close> calls for a zombie, under the typing of physical pages.
\<close>

definition image_pages :: "proc \<Rightarrow> nat" where
  "image_pages p = unat (PGROUNDUP (sz p)) div 4096"

text \<open>
  The address space of a process as the kernel builds it: an unshared image below the trap frame, the trap frame
  page and the trampoline at their places, every mapping with some permission.
\<close>

definition proc_space :: "(u64 \<Rightarrow> pkind) \<Rightarrow> u64 set \<Rightarrow> memory \<Rightarrow> proc \<Rightarrow> bool" where
  "proc_space T roots m p \<longleftrightarrow>
     pagetable p \<in> roots \<and> unat (sz p) \<le> unat TRAPFRAME \<and> T (trapframe p) = PData \<and>
     leaf_pte (pte_pg m (pagetable p) (NPAGES - 1)) \<and> leaf_pte (pte_pg m (pagetable p) (NPAGES - 2)) \<and>
     PTE2PA (pte_pg m (pagetable p) (NPAGES - 2)) = trapframe p \<and> unmapped_page roots m (trapframe p) \<and>
     (\<forall>v<image_pages p. image_page T roots m (pagetable p) v) \<and> leaves_rwx m (pagetable p)"

lemma pgva_top: "TRAMPOLINE = pgva (NPAGES - 1)" "TRAPFRAME = pgva (NPAGES - 2)"
  by (simp_all add: pgva_def TRAMPOLINE_def TRAPFRAME_def MAXVA_num)

lemma image_pages_le: "unat (sz p) \<le> unat TRAPFRAME \<Longrightarrow> image_pages p \<le> NPAGES - 2"
  by (simp add: image_pages_def unat_PGROUNDUP TRAPFRAME_def TRAMPOLINE_def MAXVA_num)

text \<open>Unmapping one page that stays allocated.\<close>

lemma uvmunmap_one:
  assumes inv: "vm_inv T s ps roots" and r: "root \<in> roots" and v: "v < NPAGES" and leaf: "leaf_pte (pte_pg (mem s) root v)"
  shows "\<exists>s'. uvmunmap s root (pgva v) 1 False = Inr s' \<and> vm_inv T s' ps roots \<and> unmapped roots (mem s) (mem s') root v 1 \<and>
    kmem.more s' = kmem.more s"
proof -
  note a = pgva_props [OF v]
  obtain s' where s': "uvmunmap s root (pgva v) 1 False = Inr s'" "vm_inv T s' ps roots" "vm_frame T s T s'"
    "pte_clear roots (mem s) (mem s') root (pgva v) (unat (1 :: u64))"
    using uvmunmap_keep [OF inv r a(3), of 1] leaf a v by (auto simp: pte_pg_def MAXVA_num)
  have "pte_pg (mem s') rt w = (if rt = root \<and> v \<le> w \<and> w < v + 1 then 0 else pte_pg (mem s) rt w)" if "rt \<in> roots" "w < NPAGES" for rt w
    using s'(4) that pgva_props(2,4) [OF that(2)] a(2) unfolding pte_clear_def pte_pg_def by simp
  then show ?thesis
    using s' unfolding unmapped_def vm_frame_def by auto
qed

lemma vm_inv_upd_proc [simp]: "vm_inv T (upd_proc s i f) ps roots \<longleftrightarrow> vm_inv T s ps roots"
  by (simp add: vm_inv_def kmem_inv_def upd_proc_def)

lemma mem_upd_proc [simp]: "mem (upd_proc s i f) = mem s"
  by (simp add: upd_proc_def)

lemma image_page_kept:
  assumes "image_page T roots m root v" and "root \<in> roots" and "v < NPAGES"
    and same: "\<And>rt w. rt \<in> roots \<Longrightarrow> w < NPAGES \<Longrightarrow> pte_pg m' rt w = (if (rt, w) \<in> X then 0 else pte_pg m rt w)"
    and "(root, v) \<notin> X" and "T' (PTE2PA (pte_pg m root v)) = T (PTE2PA (pte_pg m root v))"
  shows "image_page T' roots m' root v"
proof -
  have e: "pte_pg m' root v = pte_pg m root v"
    using same [OF assms(2,3)] assms(5) by simp
  have "exclusive roots m' root v"
    unfolding exclusive_def e
  proof (intro ballI allI impI)
    fix rt w
    assume "rt \<in> roots" "w < NPAGES" "pte_valid (pte_pg m' rt w)" "PTE2PA (pte_pg m' rt w) = PTE2PA (pte_pg m root v)"
    then show "rt = root \<and> w = v"
      using same [of rt w] exclusiveD [of roots m root v rt w] assms(1) by (auto simp: image_page_def split: if_splits)
  qed
  then show ?thesis
    using assms(1,6) by (simp add: image_page_def e)
qed

text \<open>The fixed pages are unmapped first; what is left is the image and what else the process has mapped.\<close>

lemma proc_freepagetable_spec:
  assumes inv: "vm_inv T s ps roots" and r: "root \<in> roots" and usz: "unat usz \<le> unat TRAPFRAME"
    and top: "leaf_pte (pte_pg (mem s) root (NPAGES - 1))" "leaf_pte (pte_pg (mem s) root (NPAGES - 2))"
    and n: "n = unat (PGROUNDUP usz) div 4096" and im: "\<forall>v<n. image_page T roots (mem s) root v" and rwx: "leaves_rwx (mem s) root"
  shows "if \<exists>v<NPAGES - 2. n \<le> v \<and> pte_valid (pte_pg (mem s) root v)
    then proc_freepagetable s root usz = Inl (Panic ''freewalk: leaf'')
    else \<exists>s' ps'. proc_freepagetable s root usz = Inr s' \<and> kmem_inv s' ps' \<and> kmem.more s' = kmem.more s \<and>
      set ps' = set ps \<union> (\<lambda>v. PTE2PA (pte_pg (mem s) root v)) ` {..<n} \<union> {p. \<exists>l x. T p = PTab root l x}"
proof -
  let ?N = "NPAGES"
  have nle: "n \<le> ?N - 2" and uszM: "unat usz \<le> unat MAXVA"
    using n usz by (simp_all add: unat_PGROUNDUP TRAPFRAME_def TRAMPOLINE_def MAXVA_num)
  obtain s1 where s1: "uvmunmap s root TRAMPOLINE 1 False = Inr s1" "vm_inv T s1 ps roots"
    "unmapped roots (mem s) (mem s1) root (?N - 1) 1" "kmem.more s1 = kmem.more s"
    using uvmunmap_one [OF inv r _ top(1)] unfolding pgva_top by auto
  have top2: "leaf_pte (pte_pg (mem s1) root (?N - 2))"
    using s1(3) r top(2) unfolding unmapped_def by simp
  obtain s2 where s2: "uvmunmap s1 root TRAPFRAME 1 False = Inr s2" "vm_inv T s2 ps roots"
    "unmapped roots (mem s1) (mem s2) root (?N - 2) 1" "kmem.more s2 = kmem.more s1"
    using uvmunmap_one [OF s1(2) r _ top2] unfolding pgva_top by auto
  let ?X = "{(root, ?N - 1), (root, ?N - 2)}"
  have same: "pte_pg (mem s2) rt w = (if (rt, w) \<in> ?X then 0 else pte_pg (mem s) rt w)" if "rt \<in> roots" "w < ?N" for rt w
    using s1(3) s2(3) that unfolding unmapped_def by auto
  have low: "pte_pg (mem s2) root v = pte_pg (mem s) root v" if "v < ?N - 2" for v
    using same [OF r, of v] that by simp
  have im2: "\<forall>v<n. image_page T roots (mem s2) root v"
    using image_page_kept [where m = "mem s" and T = T and X = ?X and m' = "mem s2"] im r nle same by auto
  have rwx2: "leaves_rwx (mem s2) root"
    using rwx same [OF r] unfolding leaves_rwx_def by simp
  have more: "(\<exists>v<?N. n \<le> v \<and> pte_valid (pte_pg (mem s2) root v)) \<longleftrightarrow> (\<exists>v<?N - 2. n \<le> v \<and> pte_valid (pte_pg (mem s) root v))"
  proof
    assume "\<exists>v<?N. n \<le> v \<and> pte_valid (pte_pg (mem s2) root v)"
    then obtain v where v: "v < ?N" "n \<le> v" "pte_valid (pte_pg (mem s2) root v)" by blast
    then have "v \<noteq> ?N - 1" "v \<noteq> ?N - 2"
      using same [OF r v(1)] by auto
    then have "v < ?N - 2" using v(1) by simp
    then show "\<exists>v<?N - 2. n \<le> v \<and> pte_valid (pte_pg (mem s) root v)"
      using v low by auto
  next
    assume "\<exists>v<?N - 2. n \<le> v \<and> pte_valid (pte_pg (mem s) root v)"
    then obtain v where v: "v < ?N - 2" "n \<le> v" "pte_valid (pte_pg (mem s) root v)" by blast
    then show "\<exists>v<?N. n \<le> v \<and> pte_valid (pte_pg (mem s2) root v)"
      using low [OF v(1)] by (intro exI [of _ v]) simp
  qed
  have F: "(\<lambda>v. PTE2PA (pte_pg (mem s2) root v)) ` {..<n} = (\<lambda>v. PTE2PA (pte_pg (mem s) root v)) ` {..<n}"
    using low nle by (intro image_cong) auto
  have eq: "proc_freepagetable s root usz = uvmfree 3 s2 root usz"
    unfolding proc_freepagetable_def s1(1) using s2(1) by simp
  show ?thesis
  proof (cases "\<exists>v<?N - 2. n \<le> v \<and> pte_valid (pte_pg (mem s) root v)")
    case True
    then show ?thesis
      using uvmfree_spec [OF s2(2) r uszM n im2 rwx2] unfolding more eq if_P [OF True] by simp
  next
    case False
    show ?thesis
      using uvmfree_spec [OF s2(2) r uszM n im2 rwx2] s1(4) s2(4) unfolding more eq if_not_P [OF False] F kept_def by auto
  qed
qed

text \<open>
  C24 (error). A process that still has a ring mapped cannot be freed: \<open>freeproc\<close>, which \<open>wait\<close> calls for an exited
  child, frees the trap frame and the image and then panics with \<open>freewalk: leaf\<close>, because nothing on the way from
  \<open>exit\<close> to \<open>freeproc\<close> unmaps the window of the ring.
\<close>

theorem freeproc_open_ring:
  assumes "vm_inv T s ps roots" and "i < length (procs s)" and "proc_space T roots (mem s) (procs s ! i)"
    and "window (mem s) (pagetable (procs s ! i)) P rb" and "ring_ok T rb" and "image_pages (procs s ! i) \<le> P" and "P \<le> TOP"
  shows "freeproc s i = Inl (Panic ''freewalk: leaf'')"
proof -
  let ?p = "procs s ! i"
  let ?root = "pagetable (procs s ! i)" and ?tf = "trapframe (procs s ! i)"
  have sp: "?root \<in> roots" "unat (sz ?p) \<le> unat TRAPFRAME" "T ?tf = PData" "unmapped_page roots (mem s) ?tf"
    "leaf_pte (pte_pg (mem s) ?root (NPAGES - 1))" "leaf_pte (pte_pg (mem s) ?root (NPAGES - 2))"
    "PTE2PA (pte_pg (mem s) ?root (NPAGES - 2)) = ?tf"
    "\<forall>v<image_pages ?p. image_page T roots (mem s) ?root v" "leaves_rwx (mem s) ?root"
    using assms(3) by (simp_all add: proc_space_def)
  have nz: "?tf \<noteq> 0" "?root \<noteq> 0"
    using vm_inv_nonzero [OF assms(1)] sp(3) vm_inv_root [OF assms(1) sp(1)] by simp_all
  obtain s1 where s1: "kfree s ?tf = Inr s1" "vm_inv (T(?tf := PFree)) s1 (?tf # ps) roots" "pte_same roots (mem s) (mem s1)"
    "kmem.more s1 = kmem.more s"
    using kfree_data [OF assms(1) sp(3,4)] by blast
  have same: "pte_pg (mem s1) rt w = pte_pg (mem s) rt w" if "rt \<in> roots" "w < NPAGES" for rt w
    using s1(3) that pgva_props(4) [OF that(2)] unfolding pte_same_def pte_pg_def by blast
  have procs1: "procs s1 = procs s"
    using s1(4) by (cases s1, cases s) simp
  let ?s2 = "upd_proc s1 i (\<lambda>p. p\<lparr>trapframe := 0\<rparr>)"
  have p2: "pagetable (procs ?s2 ! i) = ?root" "sz (procs ?s2 ! i) = sz ?p"
    using assms(2) procs1 by (simp_all add: upd_proc_def)
  have nle: "image_pages ?p \<le> NPAGES - 2"
    using image_pages_le [OF sp(2)] .
  have "image_page (T(?tf := PFree)) roots (mem ?s2) ?root v" if v: "v < image_pages ?p" for v
  proof -
    have im: "image_page T roots (mem s) ?root v"
      using sp(8) v by blast
    then have "PTE2PA (pte_pg (mem s) ?root v) \<noteq> ?tf"
      using exclusiveD [of roots "mem s" ?root v ?root "NPAGES - 2"] sp(1,6,7) v nle by (auto simp: image_page_def leaf_pte_def)
    then show ?thesis
      using image_page_kept [OF im sp(1), of "mem ?s2" "{}" "T(?tf := PFree)"] same v nle by simp
  qed
  then have im2: "\<forall>v<image_pages ?p. image_page (T(?tf := PFree)) roots (mem ?s2) ?root v" by blast
  have top2: "leaf_pte (pte_pg (mem ?s2) ?root (NPAGES - 1))" "leaf_pte (pte_pg (mem ?s2) ?root (NPAGES - 2))"
    and rwx2: "leaves_rwx (mem ?s2) ?root"
    using sp(1,5,6,9) same unfolding leaves_rwx_def by simp_all
  have "pte_valid (pte_pg (mem s) ?root P)"
    using assms(4,5) leaf_facts(1) vm_inv_aligned [OF assms(1)] unfolding window_def ring_ok_def by auto
  then have extra: "\<exists>v<NPAGES - 2. image_pages ?p \<le> v \<and> pte_valid (pte_pg (mem ?s2) ?root v)"
    using assms(6,7) same [OF sp(1), of P] by (intro exI [of _ P]) simp
  have "proc_freepagetable ?s2 ?root (sz ?p) = Inl (Panic ''freewalk: leaf'')"
    using proc_freepagetable_spec [of "T(?tf := PFree)" ?s2 "?tf # ps" roots ?root, OF _ sp(1,2) top2 _ im2 rwx2] s1(2) extra
    unfolding image_pages_def by simp
  then show ?thesis
    unfolding freeproc_def using s1(1) nz p2 by (simp add: Let_def)
qed

section \<open>A process with an open ring\<close>

definition fixed_pte :: "u64 \<Rightarrow> u64 \<Rightarrow> u64" where
  "fixed_pte pa perm = PA2PTE pa OR perm OR PTE_V"

definition tf_page :: u64 where "tf_page = hd (pool 200)"
definition tramp_page :: u64 where "tramp_page = 0x80001000"

lemma tf_tramp: "tf_page \<noteq> tramp_page"
  by (simp add: tf_page_def tramp_page_def pool_def hd_map)

lemma fixed_pte_facts:
  assumes "pg_aligned pa" and "perm = (PTE_R OR PTE_W) \<or> perm = (PTE_R OR PTE_X)"
  shows "leaf_pte (fixed_pte pa perm)" "PTE2PA (fixed_pte pa perm) = pa" "\<not> user_pte (fixed_pte pa perm)"
    "fixed_pte pa perm AND (PTE_R OR PTE_W OR PTE_X) \<noteq> 0"
proof -
  have fl: "perm AND mask 10 = perm"
    using assms(2) by (auto simp: pte_flag_defs mask_eq_exp_minus_1)
  note f = leaf_pte_facts [OF assms(1) fl]
  show "leaf_pte (fixed_pte pa perm)" "PTE2PA (fixed_pte pa perm) = pa" "\<not> user_pte (fixed_pte pa perm)"
    using f assms(2) by (auto simp: fixed_pte_def leaf_pte_def user_pte_def pte_flag_defs)
  have "PTE_FLAGS (fixed_pte pa perm) AND (PTE_R OR PTE_W OR PTE_X) \<noteq> 0"
    using f(4) assms(2) by (auto simp: fixed_pte_def pte_flag_defs)
  moreover have "PTE_FLAGS x AND y = (x AND y) AND 0x3FF" for x y :: u64
    by (simp add: PTE_FLAGS_def ac_simps)
  ultimately show "fixed_pte pa perm AND (PTE_R OR PTE_W OR PTE_X) \<noteq> 0"
    by (metis bit.conj_zero_left)
qed

lemma map_fixed:
  assumes inv: "vm_inv T s ps roots" and r: "root \<in> roots" and v: "v < NPAGES" and un: "\<not> pte_valid (pte_pg (mem s) root v)"
    and pa: "pg_aligned pa" and perm: "perm = (PTE_R OR PTE_W) \<or> perm = (PTE_R OR PTE_X)" and len: "2 \<le> length ps"
  shows "\<exists>s' T' ps'. mappages s root (pgva v) 4096 pa perm = Inr (s', 0) \<and> vm_inv T' s' ps' roots \<and>
    kmem.more s' = kmem.more s \<and> (\<forall>p. T p = PData \<longrightarrow> T' p = PData) \<and> length ps \<le> length ps' + 2 \<and>
    (\<forall>rt\<in>roots. \<forall>w<NPAGES. pte_pg (mem s') rt w = (if rt = root \<and> w = v then fixed_pte pa perm else pte_pg (mem s) rt w))"
proof -
  note a = pgva_props [OF v]
  have fl: "perm AND mask 10 = perm" "perm AND PTE_U = 0"
    using perm by (auto simp: pte_flag_defs mask_eq_exp_minus_1)
  obtain s' rc T' ps' where m: "mappages s root (pgva v) 4096 pa perm = Inr (s', rc)" "vm_inv T' s' ps' roots"
    "vm_frame T s T' s'" "length ps \<le> length ps' + 2"
    "rc = 0 \<and> pte_set roots (mem s) (mem s') root (pgva v) (PA2PTE pa OR perm OR PTE_V) \<or>
     rc = -1 \<and> length ps < 2 \<and> pte_same roots (mem s) (mem s')"
    using mappages_page [OF inv r a(3,4) _ pa fl(1)] un fl(2) by (auto simp: pte_pg_def)
  have "pte_pg (mem s') rt w = (if rt = root \<and> w = v then fixed_pte pa perm else pte_pg (mem s) rt w)"
    if "rt \<in> roots" "w < NPAGES" for rt w
    using m(5) len that pgva_props(2,4) [OF that(2)] a(2) unfolding pte_set_def pte_pg_def fixed_pte_def by auto
  moreover have "rc = 0" "kmem.more s' = kmem.more s" "\<forall>p. T p = PData \<longrightarrow> T' p = PData"
    using m(3,5) len unfolding vm_frame_def by auto
  ultimately show ?thesis
    using m(1,2,4) by (intro exI [of _ s'] exI [of _ T'] exI [of _ ps']) simp
qed

lemma tf_machine:
  "\<exists>s1 s2 s3 T ps. kalloc (small_k 200) = Inr (s1, tf_page) \<and>
    mappages (s1\<lparr>mem := memset (mem s1) tf_page 0 4096\<rparr>) root1 TRAPFRAME 4096 tf_page (PTE_R OR PTE_W) = Inr (s2, 0) \<and>
    mappages s2 root1 TRAMPOLINE 4096 tramp_page (PTE_R OR PTE_X) = Inr (s3, 0) \<and>
    vm_inv T s3 ps {root1, root2} \<and> kmem.more s3 = kmem.more (small_k 200) \<and> 195 \<le> length ps \<and>
    T tf_page = PData \<and> T (root1 + 0x3000) = PData \<and> tf_page \<noteq> root1 + 0x3000 \<and> tf_page \<noteq> root2 + 0x3000 \<and>
    (\<forall>rt\<in>{root1, root2}. \<forall>v<NPAGES. pte_pg (mem s3) rt v =
       (if rt = root1 \<and> v = NPAGES - 1 then fixed_pte tramp_page (PTE_R OR PTE_X)
        else if rt = root1 \<and> v = NPAGES - 2 then fixed_pte tf_page (PTE_R OR PTE_W) else pte_pg (small_mem 200) rt v))"
proof -
  let ?R = "{root1, root2}"
  have "length (pool 200) = 200"
    by (simp add: pool_def)
  then obtain ps where pool: "pool 200 = tf_page # ps" and len: "length ps = 199"
    by (cases "pool 200") (simp_all add: tf_page_def)
  have inv: "vm_inv (small_type 200) (small_k 200) (tf_page # ps) ?R"
    using small_k_inv [of 200] pool by simp
  obtain s1 where s1: "kalloc (small_k 200) = Inr (s1, tf_page)" "small_type 200 tf_page = PFree"
    "vm_inv ((small_type 200)(tf_page := PData)) (s1\<lparr>mem := memset (mem s1) tf_page 0 4096\<rparr>) ps ?R"
    "vm_keep (small_type 200) (small_k 200) ((small_type 200)(tf_page := PData)) (s1\<lparr>mem := memset (mem s1) tf_page 0 4096\<rparr>)"
    "pte_same ?R (mem (small_k 200)) (memset (mem s1) tf_page 0 4096)"
    using kalloc_data [OF inv] by blast
  let ?s1 = "s1\<lparr>mem := memset (mem s1) tf_page 0 4096\<rparr>"
  have e1: "pte_pg (mem ?s1) rt v = pte_pg (small_mem 200) rt v" if "rt \<in> ?R" "v < NPAGES" for rt v
    using s1(5) that pgva_props(4) [OF that(2)] unfolding pte_same_def pte_pg_def by auto
  have al: "pg_aligned tf_page" "pg_aligned tramp_page"
    using vm_inv_aligned [OF inv, of tf_page] s1(2) by (simp_all add: tramp_page_def pg_aligned_def)
  have un: "\<not> pte_valid (pte_pg (mem ?s1) root1 (NPAGES - 2))" "\<not> pte_valid (pte_pg (mem ?s1) root1 (NPAGES - 1))"
    using e1 [of root1 "NPAGES - 2"] e1 [of root1 "NPAGES - 1"] small_pte_pg [of 200 root1] by simp_all
  obtain s2 T2 ps2 where s2: "mappages ?s1 root1 (pgva (NPAGES - 2)) 4096 tf_page (PTE_R OR PTE_W) = Inr (s2, 0)" "vm_inv T2 s2 ps2 ?R"
    "kmem.more s2 = kmem.more ?s1" "\<forall>p. ((small_type 200)(tf_page := PData)) p = PData \<longrightarrow> T2 p = PData" "length ps \<le> length ps2 + 2"
    "\<forall>rt\<in>?R. \<forall>w<NPAGES. pte_pg (mem s2) rt w = (if rt = root1 \<and> w = NPAGES - 2 then fixed_pte tf_page (PTE_R OR PTE_W) else pte_pg (mem ?s1) rt w)"
    using map_fixed [OF s1(3) _ _ un(1) al(1), of "PTE_R OR PTE_W"] len by auto
  have un2: "\<not> pte_valid (pte_pg (mem s2) root1 (NPAGES - 1))"
    using s2(6) un(2) by simp
  obtain s3 T3 ps3 where s3: "mappages s2 root1 (pgva (NPAGES - 1)) 4096 tramp_page (PTE_R OR PTE_X) = Inr (s3, 0)" "vm_inv T3 s3 ps3 ?R"
    "kmem.more s3 = kmem.more s2" "\<forall>p. T2 p = PData \<longrightarrow> T3 p = PData" "length ps2 \<le> length ps3 + 2"
    "\<forall>rt\<in>?R. \<forall>w<NPAGES. pte_pg (mem s3) rt w = (if rt = root1 \<and> w = NPAGES - 1 then fixed_pte tramp_page (PTE_R OR PTE_X) else pte_pg (mem s2) rt w)"
    using map_fixed [OF s2(2) _ _ un2 al(2), of "PTE_R OR PTE_X"] s2(5) len by auto
  have t: "small_type 200 (root1 + 0x3000) = PData" "small_type 200 (root2 + 0x3000) = PData"
    using small_type_at(4) [of 200] by simp_all
  have "T3 tf_page = PData" "T3 (root1 + 0x3000) = PData" "tf_page \<noteq> root1 + 0x3000" "tf_page \<noteq> root2 + 0x3000"
    using s1(2) t s2(4) s3(4) by auto
  moreover have "kmem.more s3 = kmem.more (small_k 200)"
    using s1(4) s2(3) s3(3) unfolding vm_keep_def by simp
  moreover have "\<forall>rt\<in>?R. \<forall>v<NPAGES. pte_pg (mem s3) rt v =
       (if rt = root1 \<and> v = NPAGES - 1 then fixed_pte tramp_page (PTE_R OR PTE_X)
        else if rt = root1 \<and> v = NPAGES - 2 then fixed_pte tf_page (PTE_R OR PTE_W) else pte_pg (small_mem 200) rt v)"
    using s2(6) s3(6) e1 by simp
  ultimately show ?thesis
    using s1(1) s2(1,5) s3(1,2,5) len unfolding pgva_top
    by (intro exI [of _ s1] exI [of _ s2] exI [of _ s3] exI [of _ T3] exI [of _ ps3]) simp
qed

definition ring_pstate :: "kstate \<Rightarrow> pstate" where
  "ring_pstate s = kstate.extend s
     \<lparr>procs = [blank_proc\<lparr>state := ZOMBIE, pagetable := root1, sz := 4096, trapframe := tf_page\<rparr>], initproc = None,
      nextpid = 2, pid_lock = \<lparr>locked = 0, lk_name = ''nextpid'', lk_cpu = None\<rparr>,
      wait_lock = \<lparr>locked = 0, lk_name = ''wait_lock'', lk_cpu = None\<rparr>, curproc = None\<rparr>"

lemma ring_pstate_simps [simp]:
  "mem (ring_pstate s) = mem s" "vm_inv T (ring_pstate s) ps roots \<longleftrightarrow> vm_inv T s ps roots"
  "procs (ring_pstate s) = [blank_proc\<lparr>state := ZOMBIE, pagetable := root1, sz := 4096, trapframe := tf_page\<rparr>]"
  by (simp_all add: ring_pstate_def kstate.extend_def vm_inv_def kmem_inv_def)

lemma leaf_rwx: "leaf pa AND (PTE_R OR PTE_W OR PTE_X) \<noteq> 0"
proof
  assume "leaf pa AND (PTE_R OR PTE_W OR PTE_X) = 0"
  then have "\<not> bit (leaf pa AND (PTE_R OR PTE_W OR PTE_X)) 1"
    by simp
  then show False
    by (simp add: leaf_def RWXU_def pte_flag_defs bit_simps)
qed

lemma ring_space:
  assumes inv: "vm_inv T s ps {root1, root2}" and T: "T tf_page = PData" "T (root1 + 0x3000) = PData"
    and tf: "tf_page \<noteq> root1 + 0x3000" "tf_page \<noteq> root2 + 0x3000"
    and ring: "ring_ok T rb" "tf_page \<notin> set (book rb # buf rb)" "root1 + 0x3000 \<notin> set (book rb # buf rb)" and P: "P \<le> TOP" "32 < P"
    and pte: "\<forall>rt\<in>{root1, root2}. \<forall>v<NPAGES. pte_pg (mem s) rt v =
       (if rt = root1 \<and> v \<le> P \<and> P \<le> v + 32 then leaf (if P = v + 32 then book rb else buf rb ! ((P - v) mod 16))
        else if rt = root1 \<and> v = NPAGES - 1 then fixed_pte tramp_page (PTE_R OR PTE_X)
        else if rt = root1 \<and> v = NPAGES - 2 then fixed_pte tf_page (PTE_R OR PTE_W) else pte_pg (small_mem 200) rt v)"
  shows "proc_space T {root1, root2} (mem s) (procs (ring_pstate s) ! 0)"
proof -
  let ?R = "{root1, root2}"
  have al: "pg_aligned tf_page" "pg_aligned tramp_page"
    using vm_inv_aligned [OF inv, of tf_page] T by (simp_all add: tramp_page_def pg_aligned_def)
  note ft = fixed_pte_facts [OF al(1), of "PTE_R OR PTE_W"] and fr = fixed_pte_facts [OF al(2), of "PTE_R OR PTE_X"]
  note r1 = leaf_pte_facts [OF small_aligned(4) user_flags, of root1] and r2 = leaf_pte_facts [OF small_aligned(4) user_flags, of root2]
  have top: "pte_pg (mem s) root1 (NPAGES - 1) = fixed_pte tramp_page (PTE_R OR PTE_X)"
    "pte_pg (mem s) root1 (NPAGES - 2) = fixed_pte tf_page (PTE_R OR PTE_W)"
    and p0: "pte_pg (mem s) root1 0 = PA2PTE (root1 + 0x3000) OR (PTE_R OR PTE_W OR PTE_U) OR PTE_V"
    using pte P small_pte_pg [of 200 root1 0] by simp_all
  have points: "PTE2PA (pte_pg (mem s) rt v) \<in> set (book rb # buf rb) \<or> PTE2PA (pte_pg (mem s) rt v) = tramp_page \<or>
      PTE2PA (pte_pg (mem s) rt v) = tf_page \<and> \<not> user_pte (pte_pg (mem s) rt v) \<or> v = 0 \<and> PTE2PA (pte_pg (mem s) rt v) = rt + 0x3000"
    if rv: "rt \<in> ?R" "v < NPAGES" "pte_valid (pte_pg (mem s) rt v)" for rt v
  proof -
    note e = bspec [OF pte rv(1), rule_format, OF rv(2)]
    consider (win) "rt = root1 \<and> v \<le> P \<and> P \<le> v + 32" | (tramp) "pte_pg (mem s) rt v = fixed_pte tramp_page (PTE_R OR PTE_X)"
      | (tf) "pte_pg (mem s) rt v = fixed_pte tf_page (PTE_R OR PTE_W)" | (small) "pte_pg (mem s) rt v = pte_pg (small_mem 200) rt v"
      using e by argo
    then show ?thesis
    proof cases
      case win
      let ?c = "if P = v + 32 then book rb else buf rb ! ((P - v) mod 16)"
      have c: "?c \<in> set (book rb # buf rb)"
        using ring(1) by (auto simp: ring_ok_def)
      then have "pg_aligned ?c"
        using ring(1) vm_inv_aligned [OF inv, of ?c] by (simp only: ring_ok_def) fastforce
      then show ?thesis
        using leaf_facts(2) [of ?c] c e win by simp
    next
      case small
      then show ?thesis
        using small_pte_pg [of 200 rt v] rv r1(2) r2(2) by (auto split: if_splits)
    qed (use ft fr in simp_all)
  qed
  have "exclusive ?R (mem s) root1 0"
    unfolding exclusive_def p0 r1(2) [OF insertI1]
  proof (intro ballI allI impI)
    fix rt w
    assume a: "rt \<in> ?R" "w < NPAGES" "pte_valid (pte_pg (mem s) rt w)" "PTE2PA (pte_pg (mem s) rt w) = root1 + 0x3000"
    then have "w = 0 \<and> root1 + 0x3000 = rt + 0x3000"
      using points [OF a(1-3)] ring(3) tf(1) by (auto simp: tramp_page_def root1_def)
    then show "rt = root1 \<and> w = 0"
      using a(1) by auto
  qed
  then have "image_page T ?R (mem s) root1 0"
    using p0 r1 T(2) by (simp add: image_page_def leaf_pte_def pte_flag_defs)
  moreover have "unmapped_page ?R (mem s) tf_page"
    unfolding unmapped_page_def
  proof (intro ballI allI impI)
    fix rt v
    assume "rt \<in> ?R" "v < NPAGES" "user_pte (pte_pg (mem s) rt v)"
    then show "PTE2PA (pte_pg (mem s) rt v) \<noteq> tf_page"
      using points [of rt v] ring(2) tf tf_tramp by (auto simp: user_pte_def)
  qed
  moreover have "leaves_rwx (mem s) root1"
    unfolding leaves_rwx_def
  proof (intro allI impI)
    fix v
    assume v: "v < NPAGES" and val: "pte_valid (pte_pg (mem s) root1 v)"
    have "pte_pg (small_mem 200) root1 v AND (PTE_R OR PTE_W OR PTE_X) \<noteq> 0" if "pte_valid (pte_pg (small_mem 200) root1 v)"
      using small_image(2) [of 200] v that unfolding leaves_rwx_def by simp
    then show "pte_pg (mem s) root1 v AND (PTE_R OR PTE_W OR PTE_X) \<noteq> 0"
      using pte v val leaf_rwx ft(4) fr(4) by (auto split: if_splits)
  qed
  moreover have "image_pages (procs (ring_pstate s) ! 0) = 1"
    by (simp add: image_pages_def unat_PGROUNDUP)
  ultimately show ?thesis
    using T(1) ft fr unfolding proc_space_def by (simp add: top [simplified] TRAPFRAME_def TRAMPOLINE_def MAXVA_num)
qed

theorem freeproc_open_ring_witness:
  "\<exists>s1 s2 s3 s4. kalloc (small_k 200) = Inr (s1, tf_page) \<and>
    mappages (s1\<lparr>mem := memset (mem s1) tf_page 0 4096\<rparr>) root1 TRAPFRAME 4096 tf_page (PTE_R OR PTE_W) = Inr (s2, 0) \<and>
    mappages s2 root1 TRAMPOLINE 4096 tramp_page (PTE_R OR PTE_X) = Inr (s3, 0) \<and>
    ringbuf_call s3 root1 junk_ring (to_cstr ''ring'') 1 0 = Inr (s4, 0) \<and>
    freeproc (ring_pstate s4) 0 = Inl (Panic ''freewalk: leaf'')"
proof -
  let ?R = "{root1, root2}"
  obtain s1 s2 s3 T ps where m: "kalloc (small_k 200) = Inr (s1, tf_page)"
    "mappages (s1\<lparr>mem := memset (mem s1) tf_page 0 4096\<rparr>) root1 TRAPFRAME 4096 tf_page (PTE_R OR PTE_W) = Inr (s2, 0)"
    "mappages s2 root1 TRAMPOLINE 4096 tramp_page (PTE_R OR PTE_X) = Inr (s3, 0)"
    "vm_inv T s3 ps ?R" "kmem.more s3 = kmem.more (small_k 200)" "195 \<le> length ps"
    "T tf_page = PData" "T (root1 + 0x3000) = PData" "tf_page \<noteq> root1 + 0x3000" "tf_page \<noteq> root2 + 0x3000"
    and pte: "\<forall>rt\<in>?R. \<forall>v<NPAGES. pte_pg (mem s3) rt v =
       (if rt = root1 \<and> v = NPAGES - 1 then fixed_pte tramp_page (PTE_R OR PTE_X)
        else if rt = root1 \<and> v = NPAGES - 2 then fixed_pte tf_page (PTE_R OR PTE_W) else pte_pg (small_mem 200) rt v)"
    using tf_machine by metis
  have more: "ringbufs s3 = ringbufs (small_k 200)" "ringbuf_lock s3 = ringbuf_lock (small_k 200)"
    using m(5) by (cases s3, cases "small_k 200", simp)+
  have can: "can_call T s3 ps ?R root1 (to_cstr ''ring'')"
    using small_k_call [of 200 root1] m(4) more unfolding can_call_def get_ringbuf_index_def by simp
  have low: "pte_pg (mem s3) root1 v = pte_pg (small_mem 200) root1 v" if "v \<le> TOP" for v
    using pte that by simp
  have nr: "no_rings (mem s3) root1"
    using small_k_no_rings [of 200 root1] low unfolding no_rings_def by simp
  then have room: "only_user (mem s3) root1" "has_room (mem s3) root1 34"
    using no_rings_room by blast+
  have "xlate (mem s3) root1 va = xlate (small_mem 200) root1 va" if "unat va < 4096" for va
  proof -
    have "va < MAXVA" "page_no va = 0"
      using that by (simp_all add: word_less_nat_alt page_no_def MAXVA_num)
    then show ?thesis
      using low [of 0] by (simp add: xlate_def pte_at_pg)
  qed
  then have uok: "user_ok (mem s3) root1 0 8"
    using small_k_user [of 200 root1 0 8] unfolding user_ok_def by (simp add: unat_of_nat64)
  obtain s4 T4 ps4 rb P where c: "ringbuf_call s3 root1 junk_ring (to_cstr ''ring'') 1 0 = Inr (s4, 0)"
    "opened ?R T s3 T4 s4 ps4 root1 P rb 0" "window (mem s4) root1 P rb" "ring_ok T4 rb"
    "\<forall>c\<in>set (book rb # buf rb). T c \<noteq> PData \<and> zero_page (mem s4) c" "\<forall>j\<le>32. \<not> pte_valid (pte_pg (mem s3) root1 (P - j))"
    using call_create [OF can room _ uok, of junk_ring 1] m(6) more small_k_ready [of 200 root1] by auto
  have al: "pg_aligned tf_page" "pg_aligned tramp_page"
    using vm_inv_aligned [OF m(4), of tf_page] m(7) by (simp_all add: tramp_page_def pg_aligned_def)
  have "pte_valid (pte_pg (mem s3) root1 (NPAGES - 1))" "pte_valid (pte_pg (mem s3) root1 (NPAGES - 2))" "pte_valid (pte_pg (mem s3) root1 0)"
    using pte fixed_pte_facts(1) [OF al(1), of "PTE_R OR PTE_W"] fixed_pte_facts(1) [OF al(2), of "PTE_R OR PTE_X"]
      small_pte_pg [of 200 root1 0] leaf_pte_facts(1) [OF small_aligned(4) user_flags, of root1]
    by (auto simp: leaf_pte_def)
  moreover have "32 \<le> P" "P < NPAGES"
    using c(3) by (simp_all add: window_def)
  moreover from calculation have "P \<noteq> NPAGES - 1" "P \<noteq> NPAGES - 2" "P \<noteq> 32"
    using c(6) [rule_format, of 0] c(6) [rule_format, of 32] by auto
  ultimately have P: "P \<le> TOP" "32 < P"
    by linarith+
  have inv4: "vm_inv T4 s4 ps4 ?R" and T4: "T4 tf_page = PData" "T4 (root1 + 0x3000) = PData"
    using c(2) m(7,8) by (simp_all add: opened_def)
  have "tf_page \<notin> set (book rb # buf rb)" "root1 + 0x3000 \<notin> set (book rb # buf rb)"
    using c(5) m(7,8) by blast+
  moreover have "\<forall>rt\<in>?R. \<forall>v<NPAGES. pte_pg (mem s4) rt v =
       (if rt = root1 \<and> v \<le> P \<and> P \<le> v + 32 then leaf (if P = v + 32 then book rb else buf rb ! ((P - v) mod 16))
        else if rt = root1 \<and> v = NPAGES - 1 then fixed_pte tramp_page (PTE_R OR PTE_X)
        else if rt = root1 \<and> v = NPAGES - 2 then fixed_pte tf_page (PTE_R OR PTE_W) else pte_pg (small_mem 200) rt v)"
    using c(2) pte unfolding opened_def window_set_def by simp
  ultimately have sp: "proc_space T4 ?R (mem s4) (procs (ring_pstate s4) ! 0)"
    by (rule ring_space [OF inv4 T4 m(9,10) c(4) _ _ P])
  have "freeproc (ring_pstate s4) 0 = Inl (Panic ''freewalk: leaf'')"
    using sp c(3,4) P inv4 by (intro freeproc_open_ring [where P = P and rb = rb]) (simp_all add: image_pages_def unat_PGROUNDUP)
  then show ?thesis
    using m(1-3) c(1) by (intro exI [of _ s1] exI [of _ s2] exI [of _ s3] exI [of _ s4]) simp
qed

end
