(* ===== verification/Syscall.thy ===== *)
theory Syscall
  imports Proc
begin

text \<open>
  \<^verbatim>\<open>kernel/syscall.c\<close> and the handlers of \<^verbatim>\<open>kernel/sysproc.c\<close> that need only the process
  table: fetching arguments from the trap frame and from user memory, and the dispatch on the
  system call number. The trap frame of a process is the page at \<open>p->trapframe\<close>.
\<close>

section \<open>The trap frame\<close>

text \<open>Offsets of the members of \<open>struct trapframe\<close>.\<close>

definition tf_epc :: u64 where "tf_epc = 24"
definition tf_sp :: u64 where "tf_sp = 48"

definition tf_a :: "nat \<Rightarrow> u64" where
  "tf_a n = 112 + 8 * of_nat n"

definition get_tf :: "'a pstate_scheme \<Rightarrow> nat \<Rightarrow> u64 \<Rightarrow> u64" where
  "get_tf s i off = ld64 (mem s) (trapframe (procs s ! i) + off)"

definition set_tf :: "'a pstate_scheme \<Rightarrow> nat \<Rightarrow> u64 \<Rightarrow> u64 \<Rightarrow> 'a pstate_scheme" where
  "set_tf s i off v = s\<lparr>mem := st64 (mem s) (trapframe (procs s ! i) + off) v\<rparr>"

section \<open>Fetching arguments\<close>

text \<open>Eight bytes of memory as a \<open>uint64\<close>, and the low half of a register as an \<open>int\<close>.\<close>

definition le64 :: "u8 list \<Rightarrow> u64" where
  "le64 bs = ld64 (\<lambda>a. bs ! unat a) 0"

definition to_int :: "u64 \<Rightarrow> int" where
  "to_int v = sint (ucast v :: u32)"

text \<open>A buffer after the first bytes of it have been overwritten.\<close>

definition fill :: "cstr \<Rightarrow> u8 list \<Rightarrow> cstr" where
  "fill dst bs = (\<lambda>i. if i < length bs then bs ! i else dst i)"

definition fetchaddr :: "'a pstate_scheme \<Rightarrow> u64 \<Rightarrow> fault + 'a pstate_scheme \<times> int \<times> u64 option" where
  "fetchaddr s addr =
     with_myproc s (\<lambda>s1 i.
       let p = procs s1 ! i
       in if addr \<ge> sz p \<or> addr + 8 > sz p then Inr (s1, -1, None)
          else bindr (copyin s1 (pagetable p) addr 8) (\<lambda>(r, bs).
                 if r \<noteq> 0 then Inr (s1, -1, None) else Inr (s1, 0, Some (le64 bs))))"

definition fetchstr :: "'a pstate_scheme \<Rightarrow> u64 \<Rightarrow> cstr \<Rightarrow> u64 \<Rightarrow> fault + 'a pstate_scheme \<times> int \<times> cstr" where
  "fetchstr s addr dst mx =
     with_myproc s (\<lambda>s1 i.
       bindr (copyinstr s1 (pagetable (procs s1 ! i)) addr mx) (\<lambda>(r, bs).
         let buf1 = fill dst bs
         in if r < 0 then Inr (s1, -1, buf1)
            else case strlen buf1 of None \<Rightarrow> Inl (BadAccess 0) | Some n \<Rightarrow> Inr (s1, int n, buf1)))"

definition argraw :: "'a pstate_scheme \<Rightarrow> nat \<Rightarrow> fault + 'a pstate_scheme \<times> u64" where
  "argraw s n =
     with_myproc s (\<lambda>s1 i. if n \<le> 5 then Inr (s1, get_tf s1 i (tf_a n)) else Inl (Panic ''argraw''))"

definition argint :: "'a pstate_scheme \<Rightarrow> nat \<Rightarrow> fault + 'a pstate_scheme \<times> int" where
  "argint s n = bindr (argraw s n) (\<lambda>(s1, v). Inr (s1, to_int v))"

definition arguint64 :: "'a pstate_scheme \<Rightarrow> nat \<Rightarrow> fault + 'a pstate_scheme \<times> u64" where
  "arguint64 s n = argraw s n"

definition argaddr :: "'a pstate_scheme \<Rightarrow> nat \<Rightarrow> fault + 'a pstate_scheme \<times> u64" where
  "argaddr s n = argraw s n"

definition argstr :: "'a pstate_scheme \<Rightarrow> nat \<Rightarrow> cstr \<Rightarrow> u64 \<Rightarrow> fault + 'a pstate_scheme \<times> int \<times> cstr" where
  "argstr s n dst mx = bindr (argaddr s n) (\<lambda>(s1, addr). fetchstr s1 addr dst mx)"

section \<open>Handlers\<close>

text \<open>
  \<open>name\<close> and \<open>junk\<close> are the uninitialised local buffers of \<open>sys_ringbuf\<close> and \<open>create_ringbuf\<close>.
  The result of \<open>argstr\<close> is ignored.
\<close>

definition sys_ringbuf :: "cstr \<Rightarrow> ringbuf \<Rightarrow> 'a pstate_scheme \<Rightarrow> fault + 'a pstate_scheme \<times> u64" where
  "sys_ringbuf name junk s =
     bindr (argstr s 0 name 16) (\<lambda>(s1, _, name1).
     bindr (argint s1 1) (\<lambda>(s2, opn).
     bindr (argaddr s2 2) (\<lambda>(s3, uaddr).
     with_myproc s3 (\<lambda>s4 i.
     bindr (ringbuf_call s4 (pagetable (procs s4 ! i)) junk name1 opn uaddr) (\<lambda>(s5, r). Inr (s5, of_int r))))))"

definition sys_getpid :: "'a pstate_scheme \<Rightarrow> fault + 'a pstate_scheme \<times> u64" where
  "sys_getpid s = with_myproc s (\<lambda>s1 i. Inr (s1, of_int (pid (procs s1 ! i))))"

definition sys_sbrk :: "'a pstate_scheme \<Rightarrow> fault + 'a pstate_scheme \<times> u64" where
  "sys_sbrk s =
     bindr (argint s 0) (\<lambda>(s1, n).
     with_myproc s1 (\<lambda>s2 i.
       let addr = sz (procs s2 ! i)
       in bindr (growproc s2 n) (\<lambda>(s3, r). if r < 0 then Inr (s3, -1) else Inr (s3, addr))))"

definition sys_kill :: "'a pstate_scheme \<Rightarrow> fault + 'a pstate_scheme \<times> u64" where
  "sys_kill s = bindr (argint s 0) (\<lambda>(s1, n). bindr (kill s1 n) (\<lambda>(s2, r). Inr (s2, of_int r)))"

section \<open>The clock\<close>

record tstate = pstate +
  ticks :: u32
  tickslock :: spinlock

text \<open>
  The loop of \<open>sys_sleep\<close>: it ends when enough ticks have passed or the process was killed, and
  sleeps otherwise.
\<close>

definition sys_sleep_test :: "'a tstate_scheme \<Rightarrow> int \<Rightarrow> u32 \<Rightarrow> fault + 'a tstate_scheme \<times> u64" where
  "sys_sleep_test s n ticks0 =
     (if ticks s - ticks0 < of_int n then
        with_myproc s (\<lambda>s1 i.
        bindr (killed s1 i) (\<lambda>(s2, k).
          if k \<noteq> 0 then
            bindr (release (tickslock s2) (hart s2)) (\<lambda>(lk, c). Inr (s2\<lparr>tickslock := lk, hart := c\<rparr>, -1))
          else Inl (Blocked ''ticks'')))
      else
        bindr (release (tickslock s) (hart s)) (\<lambda>(lk, c). Inr (s\<lparr>tickslock := lk, hart := c\<rparr>, 0)))"

definition sys_sleep :: "'a tstate_scheme \<Rightarrow> fault + 'a tstate_scheme \<times> u64" where
  "sys_sleep s =
     bindr (argint s 0) (\<lambda>(s1, n).
     bindr (acquire (tickslock s1) (hart s1)) (\<lambda>(lk, c).
       let s2 = s1\<lparr>tickslock := lk, hart := c\<rparr> in sys_sleep_test s2 n (ticks s2)))"

definition sys_uptime :: "'a tstate_scheme \<Rightarrow> fault + 'a tstate_scheme \<times> u64" where
  "sys_uptime s =
     bindr (acquire (tickslock s) (hart s)) (\<lambda>(lk, c).
       let s1 = s\<lparr>tickslock := lk, hart := c\<rparr>; xticks = ticks s1
       in bindr (release (tickslock s1) (hart s1)) (\<lambda>(lk1, c1). Inr (s1\<lparr>tickslock := lk1, hart := c1\<rparr>, ucast xticks)))"

section \<open>Dispatch\<close>

text \<open>\<open>syscalls\<close> is the array of handlers, indexed by the number; it has no entry at 0.\<close>

definition syscall :: "('a pstate_scheme \<Rightarrow> fault + 'a pstate_scheme \<times> u64) option list \<Rightarrow> 'a pstate_scheme \<Rightarrow> fault + 'a pstate_scheme" where
  "syscall syscalls s =
     with_myproc s (\<lambda>s1 i.
       let num = to_int (get_tf s1 i (tf_a 7))
       in if 0 < num \<and> num < int (length syscalls) \<and> syscalls ! nat num \<noteq> None
          then bindr (the (syscalls ! nat num) s1) (\<lambda>(s2, r). Inr (set_tf s2 i (tf_a 0) r))
          else Inr (set_tf s1 i (tf_a 0) (-1)))"

end
