(* ===== verification/Sleeplock.thy ===== *)
theory Sleeplock
  imports Syscall
begin

text \<open>
  \<^verbatim>\<open>kernel/sleeplock.c\<close>. A sleep lock is taken as an argument and returned updated. \<open>acquiresleep\<close> of
  a lock that is taken sleeps: the result is \<open>Blocked\<close>. The channel of a lock is its address.
\<close>

record sleeplock =
  sl_locked :: u32
  sl_lk :: spinlock
  sl_name :: string
  sl_pid :: int

definition initsleeplock :: "sleeplock \<Rightarrow> string \<Rightarrow> sleeplock" where
  "initsleeplock lk name = lk\<lparr>sl_lk := initlock (sl_lk lk) ''sleep lock'', sl_name := name, sl_locked := 0, sl_pid := 0\<rparr>"

definition acquiresleep :: "'a pstate_scheme \<Rightarrow> sleeplock \<Rightarrow> fault + 'a pstate_scheme \<times> sleeplock" where
  "acquiresleep s lk =
     bindr (acquire (sl_lk lk) (hart s)) (\<lambda>(l, c).
       let s1 = s\<lparr>hart := c\<rparr>
       in if sl_locked lk \<noteq> 0 then Inl (Blocked (sl_name lk))
          else with_myproc s1 (\<lambda>s2 i.
            let lk1 = lk\<lparr>sl_lk := l, sl_locked := 1, sl_pid := pid (procs s2 ! i)\<rparr>
            in bindr (release l (hart s2)) (\<lambda>(l1, c1). Inr (s2\<lparr>hart := c1\<rparr>, lk1\<lparr>sl_lk := l1\<rparr>))))"

definition releasesleep :: "'a pstate_scheme \<Rightarrow> wchan \<Rightarrow> sleeplock \<Rightarrow> fault + 'a pstate_scheme \<times> sleeplock" where
  "releasesleep s ch lk =
     bindr (acquire (sl_lk lk) (hart s)) (\<lambda>(l, c).
       let lk1 = lk\<lparr>sl_lk := l, sl_locked := 0, sl_pid := 0\<rparr>
       in bindr (wakeup (s\<lparr>hart := c\<rparr>) ch) (\<lambda>s1.
            bindr (release l (hart s1)) (\<lambda>(l1, c1). Inr (s1\<lparr>hart := c1\<rparr>, lk1\<lparr>sl_lk := l1\<rparr>))))"

definition holdingsleep :: "'a pstate_scheme \<Rightarrow> sleeplock \<Rightarrow> fault + 'a pstate_scheme \<times> sleeplock \<times> bool" where
  "holdingsleep s lk =
     bindr (acquire (sl_lk lk) (hart s)) (\<lambda>(l, c).
       with_myproc (s\<lparr>hart := c\<rparr>) (\<lambda>s1 i.
         let r = (sl_locked lk \<noteq> 0 \<and> sl_pid lk = pid (procs s1 ! i))
         in bindr (release l (hart s1)) (\<lambda>(l1, c1). Inr (s1\<lparr>hart := c1\<rparr>, lk\<lparr>sl_lk := l1\<rparr>, r))))"

end
