(* ===== verification/Sleep_thms.thy ===== *)
theory Sleep_thms
  imports Proc_thms Sleeplock
begin

text \<open>
  Two harts at once: one process is in \<open>acquiresleep\<close> of \<^verbatim>\<open>kernel/sleeplock.c\<close> and waits in \<open>sleep\<close>
  for a lock that is taken, and its holder is in \<open>releasesleep\<close> and calls \<open>wakeup\<close>. The harts
  interleave statement by statement; a statement that spins on a lock is not a step. The theory shows
  that the wakeup is never lost, which rests on the order of the first two statements of \<open>sleep\<close>.
\<close>

section \<open>The two routines, statement by statement\<close>

text \<open>
  Where the process in \<open>acquiresleep\<close> is: the call of \<open>acquire\<close>, the loop's test, a statement of \<open>sleep\<close>
  before \<open>sched\<close> with process \<open>p\<close>, the scheduler releasing the process's lock, the process off the
  hart, a statement of \<open>sleep\<close> after \<open>sched\<close>, the two assignments, the call of \<open>release\<close>, the end.
\<close>

datatype acquire_pc = ATake | ATest | ASleep nat nat | ASwitch nat int | AOff nat int | ABack nat int nat | AOwn | AGive | ADone

text \<open>
  Where the process in \<open>releasesleep\<close> is: the call of \<open>acquire\<close>, the two assignments, the head of the loop
  of \<open>wakeup\<close> at process \<open>k\<close>, a statement of its body, the call of \<open>release\<close>, the end.
\<close>

datatype release_pc = RTake | RClear | RScan nat | RWake nat nat | RGive | RDone

text \<open>
  The shared state with the sleep lock, and of each hart the \<open>struct cpu\<close>. The fields \<open>hart\<close> and
  \<open>curproc\<close> of the shared state are those of the hart that moved last.
\<close>

record smp =
  sm_ps :: pstate
  sm_sl :: sleeplock
  apc :: acquire_pc
  a_cpu :: cpu
  a_proc :: "nat option"
  rpc :: release_pc
  r_cpu :: cpu
  r_proc :: "nat option"

definition view_a :: "smp \<Rightarrow> pstate" where
  "view_a w = (sm_ps w)\<lparr>hart := a_cpu w, curproc := a_proc w\<rparr>"

definition put_a :: "smp \<Rightarrow> pstate \<Rightarrow> smp" where
  "put_a w s = w\<lparr>sm_ps := s, a_cpu := hart s, a_proc := curproc s\<rparr>"

definition view_r :: "smp \<Rightarrow> pstate" where
  "view_r w = (sm_ps w)\<lparr>hart := r_cpu w, curproc := r_proc w\<rparr>"

definition put_r :: "smp \<Rightarrow> pstate \<Rightarrow> smp" where
  "put_r w s = w\<lparr>sm_ps := s, r_cpu := hart s, r_proc := curproc s\<rparr>"

definition a_step :: "wchan \<Rightarrow> smp \<Rightarrow> fault + smp" where
  "a_step ch w = (let l = sm_sl w in case apc w of
     ATake \<Rightarrow> bindr (acquire (sl_lk l) (a_cpu w)) (\<lambda>(lk, c). Inr (w\<lparr>sm_sl := l\<lparr>sl_lk := lk\<rparr>, a_cpu := c, apc := ATest\<rparr>))
   | ATest \<Rightarrow>
       if sl_locked l \<noteq> 0 then with_myproc (view_a w) (\<lambda>s p. Inr ((put_a w s)\<lparr>apc := ASleep p 0\<rparr>))
       else Inr (w\<lparr>apc := AOwn\<rparr>)
   | ASleep p n \<Rightarrow>
       if n < length (sleep_steps ch p :: (pstate \<times> spinlock \<Rightarrow> fault + pstate \<times> spinlock) list) then
         bindr ((sleep_steps ch p ! n) (view_a w, sl_lk l)) (\<lambda>(s, lk).
           Inr ((put_a w s)\<lparr>sm_sl := l\<lparr>sl_lk := lk\<rparr>, apc := ASleep p (Suc n)\<rparr>))
       else bindr (sched (view_a w)) (\<lambda>(s, ie). Inr ((put_a w s)\<lparr>apc := ASwitch p ie\<rparr>))
   | ASwitch p ie \<Rightarrow> bindr (scheduler_back (view_a w) p) (\<lambda>s. Inr ((put_a w s)\<lparr>apc := AOff p ie\<rparr>))
   | AOff p ie \<Rightarrow>
       bindr (scheduler_pick (view_a w) p) (\<lambda>(s, picked).
         Inr ((put_a w s)\<lparr>apc := if picked then ABack p ie 0 else AOff p ie\<rparr>))
   | ABack p ie n \<Rightarrow>
       bindr ((sleep_return_steps p ie ! n) (view_a w, sl_lk l)) (\<lambda>(s, lk).
         Inr ((put_a w s)\<lparr>sm_sl := l\<lparr>sl_lk := lk\<rparr>,
           apc := if Suc n < length (sleep_return_steps p ie :: (pstate \<times> spinlock \<Rightarrow> fault + pstate \<times> spinlock) list)
                  then ABack p ie (Suc n) else ATest\<rparr>))
   | AOwn \<Rightarrow>
       with_myproc (view_a w) (\<lambda>s p.
         Inr ((put_a w s)\<lparr>sm_sl := l\<lparr>sl_locked := 1, sl_pid := pid (procs s ! p)\<rparr>, apc := AGive\<rparr>))
   | AGive \<Rightarrow> bindr (release (sl_lk l) (a_cpu w)) (\<lambda>(lk, c). Inr (w\<lparr>sm_sl := l\<lparr>sl_lk := lk\<rparr>, a_cpu := c, apc := ADone\<rparr>))
   | ADone \<Rightarrow> Inr w)"

definition r_step :: "wchan \<Rightarrow> smp \<Rightarrow> fault + smp" where
  "r_step ch w = (let l = sm_sl w in case rpc w of
     RTake \<Rightarrow> bindr (acquire (sl_lk l) (r_cpu w)) (\<lambda>(lk, c). Inr (w\<lparr>sm_sl := l\<lparr>sl_lk := lk\<rparr>, r_cpu := c, rpc := RClear\<rparr>))
   | RClear \<Rightarrow> Inr (w\<lparr>sm_sl := l\<lparr>sl_locked := 0, sl_pid := 0\<rparr>, rpc := RScan 0\<rparr>)
   | RScan k \<Rightarrow>
       if k < NPROC then
         bindr (myproc (view_r w)) (\<lambda>(s, me). Inr ((put_r w s)\<lparr>rpc := if me \<noteq> Some k then RWake k 0 else RScan (Suc k)\<rparr>))
       else Inr (w\<lparr>rpc := RGive\<rparr>)
   | RWake k n \<Rightarrow>
       bindr ((wakeup_steps ch k ! n) (view_r w)) (\<lambda>s.
         Inr ((put_r w s)\<lparr>rpc := if Suc n < length (wakeup_steps ch k :: (pstate \<Rightarrow> fault + pstate) list)
                                then RWake k (Suc n) else RScan (Suc k)\<rparr>))
   | RGive \<Rightarrow> bindr (release (sl_lk l) (r_cpu w)) (\<lambda>(lk, c). Inr (w\<lparr>sm_sl := l\<lparr>sl_lk := lk\<rparr>, r_cpu := c, rpc := RDone\<rparr>))
   | RDone \<Rightarrow> Inr w)"

inductive smp_step :: "wchan \<Rightarrow> smp \<Rightarrow> smp \<Rightarrow> bool" for ch where
  acquirer: "a_step ch w = Inr w' \<Longrightarrow> smp_step ch w w'"
| releaser: "r_step ch w = Inr w' \<Longrightarrow> smp_step ch w w'"

text \<open>Process \<open>i\<close> on one hart calls \<open>acquiresleep\<close>, process \<open>j\<close> on another calls \<open>releasesleep\<close>.\<close>

definition smp_init :: "pstate \<Rightarrow> sleeplock \<Rightarrow> nat \<Rightarrow> cpu \<Rightarrow> nat \<Rightarrow> cpu \<Rightarrow> smp" where
  "smp_init s l i ca j cr = \<lparr>sm_ps = s, sm_sl = l, apc = ATake, a_cpu = ca, a_proc = Some i, rpc = RTake, r_cpu = cr, r_proc = Some j\<rparr>"

section \<open>Locks and interrupt depth\<close>

definition lock_by :: "spinlock \<Rightarrow> nat option \<Rightarrow> bool" where
  "lock_by l h \<longleftrightarrow> lk_cpu l = h \<and> (locked l = 0 \<longleftrightarrow> h = None)"

definition cpu_at :: "cpu \<Rightarrow> nat \<Rightarrow> nat \<Rightarrow> bool" where
  "cpu_at c h n \<longleftrightarrow> hartid c = h \<and> noff c = int n \<and> (0 < n \<longrightarrow> \<not> sie c)"

lemma acquire_by:
  assumes "cpu_at c h n"
  shows "lock_by l None \<Longrightarrow> \<exists>l' c'. acquire l c = Inr (l', c') \<and> lock_by l' (Some h) \<and> cpu_at c' h (Suc n)"
    and "lock_by l (Some h') \<Longrightarrow> h' \<noteq> h \<Longrightarrow> acquire l c = Inl Spin"
  using assms by (auto simp: lock_by_def cpu_at_def acquire_def holding_def push_off_def intr_off_def intr_get_def Let_def)

lemma release_by:
  assumes "cpu_at c h (Suc n)" and "lock_by l (Some h)"
  shows "\<exists>l' c'. release l c = Inr (l', c') \<and> lock_by l' None \<and> cpu_at c' h n"
  using assms by (auto simp: lock_by_def cpu_at_def release_def holding_def pop_off_def intr_on_def intr_get_def Let_def)

lemma acquire_proc_by:
  assumes "cpu_at (hart s) h n"
  shows "lock_by (p_lock (procs s ! k)) None \<Longrightarrow> \<exists>l c. acquire_proc s k = Inr (upd_proc (s\<lparr>hart := c\<rparr>) k (\<lambda>p. p\<lparr>p_lock := l\<rparr>)) \<and>
      lock_by l (Some h) \<and> cpu_at c h (Suc n)"
    and "lock_by (p_lock (procs s ! k)) (Some h') \<Longrightarrow> h' \<noteq> h \<Longrightarrow> acquire_proc s k = Inl Spin"
  using acquire_by [OF assms, of "p_lock (procs s ! k)"] by (auto simp: acquire_proc_def) blast

lemma release_proc_by:
  assumes "cpu_at (hart s) h (Suc n)" and "lock_by (p_lock (procs s ! k)) (Some h)"
  shows "\<exists>l c. release_proc s k = Inr (upd_proc (s\<lparr>hart := c\<rparr>) k (\<lambda>p. p\<lparr>p_lock := l\<rparr>)) \<and> lock_by l None \<and> cpu_at c h n"
  using release_by [OF assms] by (auto simp: release_proc_def) blast

lemma myproc_by:
  fixes s :: "'a pstate_scheme"
  assumes "cpu_at (hart s) h n"
  shows "\<exists>c. myproc s = Inr (s\<lparr>hart := c\<rparr>, curproc s) \<and> cpu_at c h n"
proof -
  have "cpu_ok (hart s)" "cpu_at (settle (hart s)) h n"
    using assms by (auto simp: cpu_at_def cpu_ok_def)
  then show ?thesis
    using myproc_ok [of s] by (auto simp: settled_def)
qed

section \<open>The invariant\<close>

text \<open>Which locks a process holds where, as far as the two routines take them.\<close>

fun a_lk :: "acquire_pc \<Rightarrow> bool" where
  "a_lk ATest = True"
| "a_lk (ASleep p n) = (n \<le> 1)"
| "a_lk AOwn = True"
| "a_lk AGive = True"
| "a_lk _ = False"

fun a_pl :: "acquire_pc \<Rightarrow> bool" where
  "a_pl (ASleep p n) = (1 \<le> n)"
| "a_pl (ASwitch p ie) = True"
| "a_pl (ABack p ie n) = (n \<le> 2)"
| "a_pl _ = False"

fun r_lk :: "release_pc \<Rightarrow> bool" where
  "r_lk RTake = False"
| "r_lk RDone = False"
| "r_lk _ = True"

fun r_pl :: "release_pc \<Rightarrow> nat \<Rightarrow> bool" where
  "r_pl (RWake k n) i = (k = i \<and> 1 \<le> n)"
| "r_pl _ i = False"

fun r_depth :: "release_pc \<Rightarrow> nat" where
  "r_depth RTake = 0"
| "r_depth RDone = 0"
| "r_depth (RWake k n) = (if 1 \<le> n then Suc 1 else 1)"
| "r_depth _ = 1"

text \<open>The releaser has not cleared the lock; it has not yet tested process \<open>i\<close>.\<close>

fun r_early :: "release_pc \<Rightarrow> bool" where
  "r_early RTake = True"
| "r_early RClear = True"
| "r_early _ = False"

fun before :: "nat \<Rightarrow> release_pc \<Rightarrow> bool" where
  "before i (RScan k) = (k \<le> i)"
| "before i (RWake k n) = (k < i \<or> k = i \<and> n \<le> 1)"
| "before i pc = r_early pc"

fun r_ok :: "nat \<Rightarrow> release_pc \<Rightarrow> bool" where
  "r_ok j (RScan k) = (k \<le> NPROC)"
| "r_ok j (RWake k n) = (k < NPROC \<and> n \<le> 2 \<and> k \<noteq> j)"
| "r_ok j _ = True"

text \<open>The state of process \<open>i\<close> at each place, and where it is bound to wait for a wakeup.\<close>

fun a_ok :: "wchan \<Rightarrow> nat \<Rightarrow> acquire_pc \<Rightarrow> procstate \<Rightarrow> wchan \<Rightarrow> bool" where
  "a_ok ch i (ASleep p n) st c =
     (p = i \<and> n \<le> 4 \<and> st = (if n < 4 then RUNNING else SLEEPING) \<and> (3 \<le> n \<longrightarrow> c = ch))"
| "a_ok ch i (ASwitch p ie) st c = (p = i \<and> st = SLEEPING \<and> c = ch)"
| "a_ok ch i (AOff p ie) st c = (p = i \<and> (st = SLEEPING \<or> st = RUNNABLE) \<and> c = ch)"
| "a_ok ch i (ABack p ie n) st c = (p = i \<and> n \<le> 3 \<and> st = RUNNING)"
| "a_ok ch i _ st c = (st = RUNNING)"

fun waits :: "acquire_pc \<Rightarrow> procstate \<Rightarrow> bool" where
  "waits (ASleep p n) st = True"
| "waits (ASwitch p ie) st = True"
| "waits (AOff p ie) st = (st = SLEEPING)"
| "waits _ st = False"

fun a_cur :: "nat \<Rightarrow> acquire_pc \<Rightarrow> nat option" where
  "a_cur i (AOff p ie) = None"
| "a_cur i _ = Some i"

text \<open>The owners of the process locks; \<open>a\<close> and \<open>r\<close> say which of them the two harts hold.\<close>

definition plocks :: "nat \<Rightarrow> bool \<Rightarrow> (nat \<Rightarrow> bool) \<Rightarrow> nat \<Rightarrow> nat \<Rightarrow> proc list \<Rightarrow> bool" where
  "plocks i a r ha hr ps \<longleftrightarrow> (\<forall>k<length ps. lock_by (p_lock (ps ! k)) (if k = i \<and> a then Some ha else if r k then Some hr else None))"

lemma plocks_same:
  assumes "k < length ps" and "p_lock p = p_lock (ps ! k)"
  shows "plocks i a r ha hr (ps[k := p]) = plocks i a r ha hr ps"
proof -
  have "p_lock (ps[k := p] ! k') = p_lock (ps ! k')" for k'
    using assms by (cases "k' = k") simp_all
  then show ?thesis
    by (simp add: plocks_def)
qed

lemma plocks_a:
  assumes "plocks i a r ha hr ps" and "\<not> r i" and "lock_by (p_lock p) (if a' then Some ha else None)"
  shows "plocks i a' r ha hr (ps[i := p])"
  unfolding plocks_def
proof (intro allI impI)
  fix k
  assume "k < length (ps[i := p])"
  then show "lock_by (p_lock (ps[i := p] ! k)) (if k = i \<and> a' then Some ha else if r k then Some hr else None)"
    using assms(2,3) assms(1) [unfolded plocks_def, rule_format, of k] by (cases "k = i") (auto split: if_split_asm)
qed

lemmas plocks_own = plocks_a [where a = False and a' = True, simplified] plocks_a [where a = True and a' = False, simplified]
  plocks_a [where a = False and a' = False, simplified]

lemma plocks_r:
  assumes "plocks i a r ha hr ps" and "\<not> (k = i \<and> a)" and "lock_by (p_lock p) (if r' k then Some hr else None)"
    and "\<And>k'. k' \<noteq> k \<Longrightarrow> r' k' = r k'"
  shows "plocks i a r' ha hr (ps[k := p])"
  unfolding plocks_def
proof (intro allI impI)
  fix k'
  assume "k' < length (ps[k := p])"
  then show "lock_by (p_lock (ps[k := p] ! k')) (if k' = i \<and> a then Some ha else if r' k' then Some hr else None)"
    using assms(2,3) assms(4) [of k'] assms(1) [unfolded plocks_def, rule_format, of k'] by (cases "k' = k") (auto split: if_split_asm)
qed

definition smp_inv :: "wchan \<Rightarrow> nat \<Rightarrow> nat \<Rightarrow> nat \<Rightarrow> nat \<Rightarrow> int \<Rightarrow> smp \<Rightarrow> bool" where
  "smp_inv ch i j ha hr pd w \<longleftrightarrow>
     length (procs (sm_ps w)) = NPROC \<and> i < NPROC \<and> j \<noteq> i \<and> ha \<noteq> hr \<and> pid (procs (sm_ps w) ! i) = pd \<and>
     cpu_at (a_cpu w) ha (of_bool (a_lk (apc w)) + of_bool (a_pl (apc w))) \<and> a_proc w = a_cur i (apc w) \<and>
     cpu_at (r_cpu w) hr (r_depth (rpc w)) \<and> r_proc w = Some j \<and>
     r_ok j (rpc w) \<and> a_ok ch i (apc w) (state (procs (sm_ps w) ! i)) (chan (procs (sm_ps w) ! i)) \<and>
     \<not> (a_lk (apc w) \<and> r_lk (rpc w)) \<and> \<not> (a_pl (apc w) \<and> r_pl (rpc w) i) \<and>
     lock_by (sl_lk (sm_sl w)) (if a_lk (apc w) then Some ha else if r_lk (rpc w) then Some hr else None) \<and>
     plocks i (a_pl (apc w)) (r_pl (rpc w)) ha hr (procs (sm_ps w)) \<and>
     (waits (apc w) (state (procs (sm_ps w) ! i)) \<longrightarrow> before i (rpc w)) \<and>
     (sl_locked (sm_sl w) \<noteq> 0 \<longleftrightarrow> r_early (rpc w) \<or> apc w \<in> {AGive, ADone}) \<and>
     (apc w \<in> {AOwn, AGive, ADone} \<longrightarrow> \<not> r_early (rpc w)) \<and>
     (apc w \<in> {AGive, ADone} \<longrightarrow> sl_locked (sm_sl w) = 1 \<and> sl_pid (sm_sl w) = pd)"

lemma view_simps [simp]:
  "procs (view_a w) = procs (sm_ps w)" "hart (view_a w) = a_cpu w" "curproc (view_a w) = a_proc w"
  "procs (view_r w) = procs (sm_ps w)" "hart (view_r w) = r_cpu w" "curproc (view_r w) = r_proc w"
  by (simp_all add: view_a_def view_r_def)

lemma procs_upd: "procs (upd_proc s i f) = (procs s)[i := f (procs s ! i)]"
  by (simp add: upd_proc_def)

lemma smp_plock:
  assumes "smp_inv ch i j ha hr pd w"
  shows "k < NPROC \<Longrightarrow> lock_by (p_lock (procs (sm_ps w) ! k))
      (if k = i \<and> a_pl (apc w) then Some ha else if r_pl (rpc w) k then Some hr else None)" and "i < NPROC"
  using assms unfolding smp_inv_def plocks_def by auto

text \<open>The hart of the acquirer, or of the releaser, moves to a place \<open>pc\<close> and keeps the invariant.\<close>

definition a_moves :: "wchan \<Rightarrow> nat \<Rightarrow> nat \<Rightarrow> nat \<Rightarrow> nat \<Rightarrow> int \<Rightarrow> smp \<Rightarrow> acquire_pc \<Rightarrow> bool" where
  "a_moves ch i j ha hr pd w pc \<longleftrightarrow> (\<exists>w'. a_step ch w = Inr w' \<and> smp_inv ch i j ha hr pd w' \<and> apc w' = pc \<and> rpc w' = rpc w)"

definition r_moves :: "wchan \<Rightarrow> nat \<Rightarrow> nat \<Rightarrow> nat \<Rightarrow> nat \<Rightarrow> int \<Rightarrow> smp \<Rightarrow> release_pc \<Rightarrow> bool" where
  "r_moves ch i j ha hr pd w pc \<longleftrightarrow> (\<exists>w'. r_step ch w = Inr w' \<and> smp_inv ch i j ha hr pd w' \<and> rpc w' = pc \<and> apc w' = apc w)"

lemma a_take:
  assumes inv: "smp_inv ch i j ha hr pd w" and pc: "apc w = ATake"
  shows "\<not> r_lk (rpc w) \<Longrightarrow> a_moves ch i j ha hr pd w ATest" and "r_lk (rpc w) \<Longrightarrow> a_step ch w = Inl Spin"
proof -
  have c: "cpu_at (a_cpu w) ha 0"
    using inv pc by (simp add: smp_inv_def)
  show "a_moves ch i j ha hr pd w ATest" if free: "\<not> r_lk (rpc w)"
  proof -
    obtain lk c where "acquire (sl_lk (sm_sl w)) (a_cpu w) = Inr (lk, c)" "lock_by lk (Some ha)" "cpu_at c ha (Suc 0)"
      using acquire_by(1) [OF c, of "sl_lk (sm_sl w)"] inv pc free by (auto simp: smp_inv_def)
    then show ?thesis
      using inv pc free by (simp add: a_moves_def a_step_def smp_inv_def)
  qed
  show "a_step ch w = Inl Spin" if "r_lk (rpc w)"
    using acquire_by(2) [OF c, of "sl_lk (sm_sl w)" hr] inv pc that by (simp add: smp_inv_def a_step_def)
qed

lemma a_test:
  assumes inv: "smp_inv ch i j ha hr pd w" and pc: "apc w = ATest"
  shows "a_moves ch i j ha hr pd w (if r_early (rpc w) then ASleep i 0 else AOwn)"
proof -
  have "cpu_at (hart (view_a w)) ha 1"
    using inv pc by (simp add: smp_inv_def)
  then obtain c where "myproc (view_a w) = Inr ((view_a w)\<lparr>hart := c\<rparr>, Some i)" "cpu_at c ha 1"
    using myproc_by [of "view_a w" ha 1] inv pc by (auto simp: smp_inv_def)
  moreover have "before i (rpc w)" if "r_early (rpc w)"
    using that by (cases "rpc w") simp_all
  ultimately show ?thesis
    using inv pc by (simp add: a_moves_def a_step_def smp_inv_def with_myproc_def put_a_def)
qed

lemma a_own:
  assumes inv: "smp_inv ch i j ha hr pd w" and pc: "apc w = AOwn"
  shows "a_moves ch i j ha hr pd w AGive"
proof -
  have "cpu_at (hart (view_a w)) ha 1"
    using inv pc by (simp add: smp_inv_def)
  then obtain c where "myproc (view_a w) = Inr ((view_a w)\<lparr>hart := c\<rparr>, Some i)" "cpu_at c ha 1"
    using myproc_by [of "view_a w" ha 1] inv pc by (auto simp: smp_inv_def)
  then show ?thesis
    using inv pc by (simp add: a_moves_def a_step_def smp_inv_def with_myproc_def put_a_def)
qed

lemma a_give:
  assumes inv: "smp_inv ch i j ha hr pd w" and pc: "apc w = AGive"
  shows "a_moves ch i j ha hr pd w ADone"
proof -
  obtain lk c where "release (sl_lk (sm_sl w)) (a_cpu w) = Inr (lk, c)" "lock_by lk None" "cpu_at c ha 0"
    using release_by [of "a_cpu w" ha 0 "sl_lk (sm_sl w)"] inv pc by (auto simp: smp_inv_def)
  then show ?thesis
    using inv pc by (simp add: a_moves_def a_step_def smp_inv_def)
qed

lemma a_sleep_lock:
  assumes inv: "smp_inv ch i j ha hr pd w" and pc: "apc w = ASleep i 0"
  shows "\<not> r_pl (rpc w) i \<Longrightarrow> a_moves ch i j ha hr pd w (ASleep i 1)" and "r_pl (rpc w) i \<Longrightarrow> a_step ch w = Inl Spin"
proof -
  have c: "cpu_at (hart (view_a w)) ha 1"
    using inv pc by (simp add: smp_inv_def)
  show "a_moves ch i j ha hr pd w (ASleep i 1)" if free: "\<not> r_pl (rpc w) i"
  proof -
    have "lock_by (p_lock (procs (view_a w) ! i)) None"
      using smp_plock(1) [OF inv smp_plock(2) [OF inv]] pc free by simp
    then obtain lk c where "acquire_proc (view_a w) i = Inr (upd_proc ((view_a w)\<lparr>hart := c\<rparr>) i (\<lambda>p. p\<lparr>p_lock := lk\<rparr>))"
      "lock_by lk (Some ha)" "cpu_at c ha (Suc 1)"
      using acquire_proc_by(1) [OF c] by blast
    then show ?thesis
      using inv pc free by (simp add: a_moves_def a_step_def smp_inv_def sleep_steps_def put_a_def procs_upd plocks_same plocks_own)
  qed
  show "a_step ch w = Inl Spin" if "r_pl (rpc w) i"
    using acquire_proc_by(2) [OF c, of i hr] smp_plock(1) [OF inv smp_plock(2) [OF inv]] inv pc that by (simp add: smp_inv_def a_step_def sleep_steps_def)
qed

lemma a_sleep_unlock:
  assumes inv: "smp_inv ch i j ha hr pd w" and pc: "apc w = ASleep i 1"
  shows "a_moves ch i j ha hr pd w (ASleep i 2)"
proof -
  obtain lk c where "release (sl_lk (sm_sl w)) (a_cpu w) = Inr (lk, c)" "lock_by lk None" "cpu_at c ha 1"
    using release_by [of "a_cpu w" ha 1 "sl_lk (sm_sl w)"] inv pc by (auto simp: smp_inv_def)
  then show ?thesis
    using inv pc by (simp add: a_moves_def a_step_def smp_inv_def sleep_steps_def put_a_def)
qed

lemma a_sleep_set:
  assumes inv: "smp_inv ch i j ha hr pd w" and pc: "apc w = ASleep i n" and n: "n = 2 \<or> n = 3"
  shows "a_moves ch i j ha hr pd w (ASleep i (Suc n))"
  using n
proof
  assume "n = 2"
  then show ?thesis
    using inv pc by (simp add: a_moves_def a_step_def smp_inv_def sleep_steps_def put_a_def procs_upd plocks_same plocks_own)
next
  assume "n = 3"
  then show ?thesis
    using inv pc by (simp add: a_moves_def a_step_def smp_inv_def sleep_steps_def put_a_def procs_upd plocks_same plocks_own)
qed

lemma a_sched:
  assumes inv: "smp_inv ch i j ha hr pd w" and pc: "apc w = ASleep i 4"
  shows "\<exists>ie. a_moves ch i j ha hr pd w (ASwitch i ie)"
proof -
  have "cpu_at (hart (view_a w)) ha 1"
    using inv pc by (simp add: smp_inv_def)
  then obtain c where c: "myproc (view_a w) = Inr ((view_a w)\<lparr>hart := c\<rparr>, Some i)" "cpu_at c ha 1"
    using myproc_by [of "view_a w" ha 1] inv pc by (auto simp: smp_inv_def)
  have "holding (p_lock (procs (sm_ps w) ! i)) c" "noff c = 1" "intr_get c = 0"
    using smp_plock(1) [OF inv smp_plock(2) [OF inv]] inv pc c(2) by (auto simp: smp_inv_def holding_def lock_by_def cpu_at_def intr_get_def)
  then have "sched (view_a w) = Inr ((view_a w)\<lparr>hart := c\<rparr>, intena c)"
    using c(1) inv pc by (simp add: sched_def with_myproc_def mycpu_def smp_inv_def)
  then show ?thesis
    using inv pc c(2) by (intro exI [of _ "intena c"]) (simp add: a_moves_def a_step_def smp_inv_def sleep_steps_def put_a_def)
qed

lemma a_switch:
  assumes inv: "smp_inv ch i j ha hr pd w" and pc: "apc w = ASwitch i ie"
  shows "a_moves ch i j ha hr pd w (AOff i ie)"
proof -
  let ?s = "(view_a w)\<lparr>curproc := None\<rparr>"
  have "cpu_at (hart ?s) ha (Suc 0)" "lock_by (p_lock (procs ?s ! i)) (Some ha)"
    using smp_plock(1) [OF inv smp_plock(2) [OF inv]] inv pc by (simp_all add: smp_inv_def)
  then obtain lk c where "release_proc ?s i = Inr (upd_proc (?s\<lparr>hart := c\<rparr>) i (\<lambda>p. p\<lparr>p_lock := lk\<rparr>))" "lock_by lk None" "cpu_at c ha 0"
    using release_proc_by by blast
  then show ?thesis
    using inv pc by (simp add: a_moves_def a_step_def smp_inv_def scheduler_back_def put_a_def procs_upd plocks_same plocks_own)
qed

lemma a_off:
  assumes inv: "smp_inv ch i j ha hr pd w" and pc: "apc w = AOff i ie"
  shows "\<not> r_pl (rpc w) i \<Longrightarrow> a_moves ch i j ha hr pd w (if state (procs (sm_ps w) ! i) = RUNNABLE then ABack i ie 0 else AOff i ie)"
    and "r_pl (rpc w) i \<Longrightarrow> a_step ch w = Inl Spin"
proof -
  have c: "cpu_at (hart (view_a w)) ha 0"
    using inv pc by (simp add: smp_inv_def)
  show "a_moves ch i j ha hr pd w (if state (procs (sm_ps w) ! i) = RUNNABLE then ABack i ie 0 else AOff i ie)"
    if free: "\<not> r_pl (rpc w) i"
  proof -
    have "lock_by (p_lock (procs (view_a w) ! i)) None"
      using smp_plock(1) [OF inv smp_plock(2) [OF inv]] pc free by simp
    then obtain lk c where a: "acquire_proc (view_a w) i = Inr (upd_proc ((view_a w)\<lparr>hart := c\<rparr>) i (\<lambda>p. p\<lparr>p_lock := lk\<rparr>))"
      (is "_ = Inr ?s") and lk: "lock_by lk (Some ha)" "cpu_at c ha (Suc 0)"
      using acquire_proc_by(1) [OF c] by blast
    have "cpu_at (hart ?s) ha (Suc 0)" "lock_by (p_lock (procs ?s ! i)) (Some ha)"
      using inv lk by (simp_all add: smp_inv_def)
    then obtain lk' c' where "release_proc ?s i = Inr (upd_proc (?s\<lparr>hart := c'\<rparr>) i (\<lambda>p. p\<lparr>p_lock := lk'\<rparr>))" "lock_by lk' None" "cpu_at c' ha 0"
      using release_proc_by by blast
    then show ?thesis
      using inv pc free a lk by (auto simp: a_moves_def a_step_def smp_inv_def scheduler_pick_def put_a_def procs_upd plocks_same plocks_own)
  qed
  show "a_step ch w = Inl Spin" if "r_pl (rpc w) i"
    using acquire_proc_by(2) [OF c, of i hr] smp_plock(1) [OF inv smp_plock(2) [OF inv]] inv pc that by (simp add: smp_inv_def a_step_def scheduler_pick_def)
qed

lemma a_back:
  assumes inv: "smp_inv ch i j ha hr pd w" and pc: "apc w = ABack i ie n" and n: "n < 3"
  shows "a_moves ch i j ha hr pd w (ABack i ie (Suc n))"
proof -
  consider "n = 0" | "n = 1" | "n = 2"
    using n by linarith
  then show ?thesis
  proof cases
    case 1
    have "cpu_at ((a_cpu w)\<lparr>intena := ie\<rparr>) ha 1"
      using inv pc 1 by (simp add: smp_inv_def cpu_at_def)
    then show ?thesis
      using inv pc 1 by (simp add: a_moves_def a_step_def smp_inv_def sleep_return_steps_def sched_return_def mycpu_def put_a_def)
  next
    case 2
    then show ?thesis
      using inv pc by (simp add: a_moves_def a_step_def smp_inv_def sleep_return_steps_def put_a_def procs_upd plocks_same plocks_own)
  next
    case 3
    have "cpu_at (hart (view_a w)) ha (Suc 0)" "lock_by (p_lock (procs (view_a w) ! i)) (Some ha)"
      using smp_plock(1) [OF inv smp_plock(2) [OF inv]] inv pc 3 by (simp_all add: smp_inv_def)
    then obtain lk c where "release_proc (view_a w) i = Inr (upd_proc ((view_a w)\<lparr>hart := c\<rparr>) i (\<lambda>p. p\<lparr>p_lock := lk\<rparr>))"
      "lock_by lk None" "cpu_at c ha 0"
      using release_proc_by by blast
    then show ?thesis
      using inv pc 3 by (simp add: a_moves_def a_step_def smp_inv_def sleep_return_steps_def put_a_def procs_upd plocks_same plocks_own)
  qed
qed

lemma a_back_lock:
  assumes inv: "smp_inv ch i j ha hr pd w" and pc: "apc w = ABack i ie 3"
  shows "\<not> r_lk (rpc w) \<Longrightarrow> a_moves ch i j ha hr pd w ATest" and "r_lk (rpc w) \<Longrightarrow> a_step ch w = Inl Spin"
proof -
  have c: "cpu_at (a_cpu w) ha 0"
    using inv pc by (simp add: smp_inv_def)
  show "a_moves ch i j ha hr pd w ATest" if free: "\<not> r_lk (rpc w)"
  proof -
    obtain lk c where "acquire (sl_lk (sm_sl w)) (a_cpu w) = Inr (lk, c)" "lock_by lk (Some ha)" "cpu_at c ha (Suc 0)"
      using acquire_by(1) [OF c, of "sl_lk (sm_sl w)"] inv pc free by (auto simp: smp_inv_def)
    then show ?thesis
      using inv pc free by (simp add: a_moves_def a_step_def smp_inv_def sleep_return_steps_def put_a_def)
  qed
  show "a_step ch w = Inl Spin" if "r_lk (rpc w)"
    using acquire_by(2) [OF c, of "sl_lk (sm_sl w)" hr] inv pc that by (simp add: smp_inv_def a_step_def sleep_return_steps_def)
qed

lemma r_take:
  assumes inv: "smp_inv ch i j ha hr pd w" and pc: "rpc w = RTake"
  shows "\<not> a_lk (apc w) \<Longrightarrow> r_moves ch i j ha hr pd w RClear" and "a_lk (apc w) \<Longrightarrow> r_step ch w = Inl Spin"
proof -
  have c: "cpu_at (r_cpu w) hr 0"
    using inv pc by (simp add: smp_inv_def)
  show "r_moves ch i j ha hr pd w RClear" if free: "\<not> a_lk (apc w)"
  proof -
    obtain lk c where "acquire (sl_lk (sm_sl w)) (r_cpu w) = Inr (lk, c)" "lock_by lk (Some hr)" "cpu_at c hr (Suc 0)"
      using acquire_by(1) [OF c, of "sl_lk (sm_sl w)"] inv pc free by (auto simp: smp_inv_def)
    moreover have "r_pl RTake = r_pl RClear" by (simp add: fun_eq_iff)
    ultimately show ?thesis
      using inv pc free by (auto simp: r_moves_def r_step_def smp_inv_def)
  qed
  show "r_step ch w = Inl Spin" if "a_lk (apc w)"
    using acquire_by(2) [OF c, of "sl_lk (sm_sl w)" ha] inv pc that by (simp add: smp_inv_def r_step_def)
qed

lemma r_clear:
  assumes inv: "smp_inv ch i j ha hr pd w" and pc: "rpc w = RClear"
  shows "r_moves ch i j ha hr pd w (RScan 0)"
proof -
  have "r_pl RClear = r_pl (RScan 0)" by (simp add: fun_eq_iff)
  then show ?thesis
    using inv pc by (auto simp: r_moves_def r_step_def smp_inv_def)
qed

lemma r_scan:
  assumes inv: "smp_inv ch i j ha hr pd w" and pc: "rpc w = RScan k"
  shows "r_moves ch i j ha hr pd w (if k < NPROC then if k = j then RScan (Suc k) else RWake k 0 else RGive)"
proof -
  have "cpu_at (hart (view_r w)) hr 1"
    using inv pc by (simp add: smp_inv_def)
  then obtain c where "myproc (view_r w) = Inr ((view_r w)\<lparr>hart := c\<rparr>, Some j)" "cpu_at c hr 1"
    using myproc_by [of "view_r w" hr 1] inv pc by (auto simp: smp_inv_def)
  moreover have "r_pl (RScan k) = r_pl (RScan (Suc k))" "r_pl (RScan k) = r_pl (RWake k 0)" "r_pl (RScan k) = r_pl RGive"
    by (simp_all add: fun_eq_iff)
  ultimately show ?thesis
    using inv pc by (auto simp: r_moves_def r_step_def smp_inv_def put_r_def)
qed

lemma r_wake_lock:
  assumes inv: "smp_inv ch i j ha hr pd w" and pc: "rpc w = RWake k 0"
  shows "\<not> (k = i \<and> a_pl (apc w)) \<Longrightarrow> r_moves ch i j ha hr pd w (RWake k 1)"
    and "k = i \<and> a_pl (apc w) \<Longrightarrow> r_step ch w = Inl Spin"
proof -
  have c: "cpu_at (hart (view_r w)) hr 1" and k: "k < NPROC"
    using inv pc by (simp_all add: smp_inv_def)
  show "r_moves ch i j ha hr pd w (RWake k 1)" if free: "\<not> (k = i \<and> a_pl (apc w))"
  proof -
    have "lock_by (p_lock (procs (view_r w) ! k)) None"
      using smp_plock(1) [OF inv k] pc free by auto
    then obtain lk c where "acquire_proc (view_r w) k = Inr (upd_proc ((view_r w)\<lparr>hart := c\<rparr>) k (\<lambda>p. p\<lparr>p_lock := lk\<rparr>))"
      and lk: "lock_by lk (Some hr)" "cpu_at c hr (Suc 1)"
      using acquire_proc_by(1) [OF c] by blast
    moreover have "plocks i (a_pl (apc w)) (r_pl (RWake k 1)) ha hr ((procs (sm_ps w))[k := (procs (sm_ps w) ! k)\<lparr>p_lock := lk\<rparr>])"
      using inv lk free pc by (intro plocks_r [of i "a_pl (apc w)" "r_pl (rpc w)"]) (auto simp: smp_inv_def)
    ultimately show ?thesis
      using inv pc free by (cases "k = i") (auto simp: r_moves_def r_step_def smp_inv_def wakeup_steps_def put_r_def procs_upd)
  qed
  show "r_step ch w = Inl Spin" if "k = i \<and> a_pl (apc w)"
    using acquire_proc_by(2) [OF c, of k ha] smp_plock(1) [OF inv k] inv pc that by (simp add: smp_inv_def r_step_def wakeup_steps_def)
qed

lemma r_wake_test:
  assumes inv: "smp_inv ch i j ha hr pd w" and pc: "rpc w = RWake k 1"
  shows "r_moves ch i j ha hr pd w (RWake k 2)"
proof -
  let ?ps = "procs (sm_ps w)"
  let ?q = "if state (?ps ! k) = SLEEPING \<and> chan (?ps ! k) = ch then ?ps[k := (?ps ! k)\<lparr>state := RUNNABLE\<rparr>] else ?ps"
  have "k < NPROC"
    using inv pc by (simp add: smp_inv_def)
  moreover have "r_pl (RWake k 1) = r_pl (RWake k 2)"
    by (simp add: fun_eq_iff)
  ultimately have "plocks i (a_pl (apc w)) (r_pl (RWake k 2)) ha hr ?q"
    using inv pc by (auto simp: smp_inv_def plocks_same)
  then show ?thesis
    using inv pc by (cases "k = i"; cases "apc w") (auto simp: r_moves_def r_step_def smp_inv_def wakeup_steps_def put_r_def procs_upd numeral_2_eq_2)
qed

lemma r_wake_unlock:
  assumes inv: "smp_inv ch i j ha hr pd w" and pc: "rpc w = RWake k 2"
  shows "r_moves ch i j ha hr pd w (RScan (Suc k))"
proof -
  have c: "cpu_at (hart (view_r w)) hr (Suc 1)" and k: "k < NPROC" and n: "\<not> (k = i \<and> a_pl (apc w))"
    using inv pc by (auto simp: smp_inv_def eval_nat_numeral)
  have "lock_by (p_lock (procs (view_r w) ! k)) (Some hr)"
    using smp_plock(1) [OF inv k] pc n by auto
  then obtain lk c where "release_proc (view_r w) k = Inr (upd_proc ((view_r w)\<lparr>hart := c\<rparr>) k (\<lambda>p. p\<lparr>p_lock := lk\<rparr>))"
    and lk: "lock_by lk None" "cpu_at c hr 1"
    using release_proc_by [OF c] by blast
  moreover have "plocks i (a_pl (apc w)) (r_pl (RScan (Suc k))) ha hr ((procs (sm_ps w))[k := (procs (sm_ps w) ! k)\<lparr>p_lock := lk\<rparr>])"
    using inv lk n pc by (intro plocks_r [of i "a_pl (apc w)" "r_pl (rpc w)"]) (auto simp: smp_inv_def)
  ultimately show ?thesis
    using inv pc k by (cases "k = i"; cases "apc w") (auto simp: r_moves_def r_step_def smp_inv_def wakeup_steps_def put_r_def procs_upd)
qed

lemma r_give:
  assumes inv: "smp_inv ch i j ha hr pd w" and pc: "rpc w = RGive"
  shows "r_moves ch i j ha hr pd w RDone"
proof -
  obtain lk c where "release (sl_lk (sm_sl w)) (r_cpu w) = Inr (lk, c)" "lock_by lk None" "cpu_at c hr 0"
    using release_by [of "r_cpu w" hr 0 "sl_lk (sm_sl w)"] inv pc by (auto simp: smp_inv_def)
  moreover have "r_pl RGive = r_pl RDone" by (simp add: fun_eq_iff)
  ultimately show ?thesis
    using inv pc by (auto simp: r_moves_def r_step_def smp_inv_def)
qed

section \<open>No wakeup is lost\<close>

lemma a_step_cases:
  assumes inv: "smp_inv ch i j ha hr pd w"
  shows "a_step ch w = Inl Spin \<or> (\<exists>w'. a_step ch w = Inr w' \<and> smp_inv ch i j ha hr pd w')"
proof -
  have *: "a_moves ch i j ha hr pd w pc \<Longrightarrow> ?thesis" for pc
    by (auto simp: a_moves_def)
  have ok: "a_ok ch i (apc w) (state (procs (sm_ps w) ! i)) (chan (procs (sm_ps w) ! i))"
    using inv unfolding smp_inv_def by blast
  show ?thesis
  proof (cases "apc w")
    case ATake then show ?thesis using a_take [OF inv] * by blast
  next
    case ATest then show ?thesis using a_test [OF inv] * by blast
  next
    case (ASleep p n)
    then have "p = i" "n = 0 \<or> n = 1 \<or> n = 2 \<or> n = 3 \<or> n = 4"
      using ok by auto
    then show ?thesis
      using ASleep a_sleep_lock [OF inv] a_sleep_unlock [OF inv] a_sleep_set [OF inv] a_sched [OF inv] * by metis
  next
    case (ASwitch p ie) then show ?thesis using a_switch [OF inv] ok * by auto
  next
    case (AOff p ie) then show ?thesis using a_off [OF inv] ok * by (metis a_ok.simps(3))
  next
    case (ABack p ie n)
    then have "p = i" "n < 3 \<or> n = 3"
      using ok by auto
    then show ?thesis
      using ABack a_back [OF inv] a_back_lock [OF inv] * by metis
  next
    case AOwn then show ?thesis using a_own [OF inv] * by blast
  next
    case AGive then show ?thesis using a_give [OF inv] * by blast
  next
    case ADone then show ?thesis using inv by (simp add: a_step_def)
  qed
qed

lemma r_step_cases:
  assumes inv: "smp_inv ch i j ha hr pd w"
  shows "r_step ch w = Inl Spin \<or> (\<exists>w'. r_step ch w = Inr w' \<and> smp_inv ch i j ha hr pd w')"
proof -
  have *: "r_moves ch i j ha hr pd w pc \<Longrightarrow> ?thesis" for pc
    by (auto simp: r_moves_def)
  show ?thesis
  proof (cases "rpc w")
    case RTake then show ?thesis using r_take [OF inv] * by blast
  next
    case RClear then show ?thesis using r_clear [OF inv] * by blast
  next
    case (RScan k) then show ?thesis using r_scan [OF inv] * by blast
  next
    case (RWake k n)
    then have "n = 0 \<or> n = 1 \<or> n = 2"
      using inv by (auto simp: smp_inv_def)
    then show ?thesis
      using RWake r_wake_lock [OF inv] r_wake_test [OF inv] r_wake_unlock [OF inv] * by metis
  next
    case RGive then show ?thesis using r_give [OF inv] * by blast
  next
    case RDone then show ?thesis using inv by (simp add: r_step_def)
  qed
qed

lemma smp_inv_steps: "(smp_step ch)\<^sup>*\<^sup>* w w' \<Longrightarrow> smp_inv ch i j ha hr pd w \<Longrightarrow> smp_inv ch i j ha hr pd w'"
proof (induction rule: rtranclp_induct)
  case (step w1 w2)
  then show ?case
    using a_step_cases [of ch i j ha hr pd w1] r_step_cases [of ch i j ha hr pd w1] by (auto elim!: smp_step.cases)
qed

lemma smp_inv_init:
  assumes "length (procs s) = NPROC" and "\<forall>k<NPROC. lk_free (p_lock (procs s ! k))" and "i < NPROC" and "state (procs s ! i) = RUNNING"
    and "j \<noteq> i" and "lk_free (sl_lk l)" and "sl_locked l \<noteq> 0" and "noff ca = 0" and "noff cr = 0" and "hartid ca \<noteq> hartid cr"
  shows "smp_inv ch i j (hartid ca) (hartid cr) (pid (procs s ! i)) (smp_init s l i ca j cr)"
  using assms by (auto simp: smp_inv_def smp_init_def lock_by_def lk_free_def cpu_at_def plocks_def)

text \<open>
  A measure of what is left to do: the releaser goes first, and the acquirer moves when the releaser
  spins on a lock or is done.
\<close>

fun r_rank :: "release_pc \<Rightarrow> nat" where
  "r_rank RTake = 300"
| "r_rank RClear = 290"
| "r_rank (RScan k) = 4 * (NPROC - k) + 4"
| "r_rank (RWake k n) = 4 * (NPROC - k) + 3 - n"
| "r_rank RGive = 1"
| "r_rank RDone = 0"

fun a_rank :: "bool \<Rightarrow> acquire_pc \<Rightarrow> nat" where
  "a_rank d (ABack p ie n) = 20 - n"
| "a_rank d ATake = 20"
| "a_rank d ATest = 10"
| "a_rank d AOwn = 9"
| "a_rank d AGive = 8"
| "a_rank d (ASleep p n) = 9 - n"
| "a_rank d (ASwitch p ie) = 4"
| "a_rank d (AOff p ie) = (if d then 30 else 3)"
| "a_rank d ADone = 0"

definition smp_rank :: "smp \<Rightarrow> nat" where
  "smp_rank w = 100 * r_rank (rpc w) + a_rank (rpc w = RDone) (apc w)"

lemma a_rank_le: "a_rank d pc \<le> 30"
  by (cases pc) auto

lemma r_rank_moves:
  assumes "r_moves ch i j ha hr pd w pc" and "r_rank pc < r_rank (rpc w)"
  shows "\<exists>w'. smp_step ch w w' \<and> smp_inv ch i j ha hr pd w' \<and> smp_rank w' < smp_rank w"
proof -
  obtain w' where "r_step ch w = Inr w'" "smp_inv ch i j ha hr pd w'" "rpc w' = pc"
    using assms(1) by (auto simp: r_moves_def)
  moreover have "smp_rank w' < smp_rank w"
    using a_rank_le [of "rpc w' = RDone" "apc w'"] assms(2) \<open>rpc w' = pc\<close> unfolding smp_rank_def by simp
  ultimately show ?thesis
    using smp_step.releaser by blast
qed

lemma a_rank_moves:
  assumes "a_moves ch i j ha hr pd w pc" and "a_rank (rpc w = RDone) pc < a_rank (rpc w = RDone) (apc w)"
  shows "\<exists>w'. smp_step ch w w' \<and> smp_inv ch i j ha hr pd w' \<and> smp_rank w' < smp_rank w"
proof -
  obtain w' where "a_step ch w = Inr w'" "smp_inv ch i j ha hr pd w'" "apc w' = pc" "rpc w' = rpc w"
    using assms(1) by (auto simp: a_moves_def)
  then show ?thesis
    using assms(2) smp_step.acquirer by (intro exI [of _ w']) (simp add: smp_rank_def)
qed

lemma a_progress_lk:
  assumes inv: "smp_inv ch i j ha hr pd w" and r: "rpc w = RTake" and lk: "a_lk (apc w)"
  shows "\<exists>w'. smp_step ch w w' \<and> smp_inv ch i j ha hr pd w' \<and> smp_rank w' < smp_rank w"
proof (cases "apc w")
  case ATest
  then show ?thesis
    using a_rank_moves [OF a_test [OF inv ATest]] r by simp
next
  case (ASleep p n)
  then have "p = i" "n = 0 \<or> n = 1"
    using inv lk by (auto simp: smp_inv_def)
  then show ?thesis
    using a_rank_moves [OF a_sleep_lock(1) [OF inv]] a_rank_moves [OF a_sleep_unlock [OF inv]] r ASleep by auto
qed (use inv lk r in \<open>simp_all add: smp_inv_def\<close>)

lemma a_progress_pl:
  assumes inv: "smp_inv ch i j ha hr pd w" and r: "rpc w = RWake i 0" and pl: "a_pl (apc w)"
  shows "\<exists>w'. smp_step ch w w' \<and> smp_inv ch i j ha hr pd w' \<and> smp_rank w' < smp_rank w"
proof (cases "apc w")
  case (ASleep p n)
  then have n: "p = i" "n = 1 \<or> (n = 2 \<or> n = 3) \<or> n = 4"
    using inv pl by (auto simp: smp_inv_def)
  have "n \<noteq> 1"
    using inv r ASleep by (auto simp: smp_inv_def)
  then show ?thesis
    using a_rank_moves [OF a_sleep_set [OF inv]] a_sched [OF inv] a_rank_moves [where ?pc = "ASwitch i _"] n ASleep by fastforce
next
  case (ASwitch p ie)
  then have "p = i"
    using inv by (auto simp: smp_inv_def)
  then show ?thesis
    using a_rank_moves [OF a_switch [OF inv]] r ASwitch by simp
next
  case (ABack p ie n)
  then have "p = i" "n < 3"
    using inv pl by (auto simp: smp_inv_def)
  then show ?thesis
    using a_rank_moves [OF a_back [OF inv]] ABack by simp
qed (use pl in simp_all)

lemma r_progress:
  assumes inv: "smp_inv ch i j ha hr pd w" and r: "rpc w \<noteq> RDone"
  shows "\<exists>w'. smp_step ch w w' \<and> smp_inv ch i j ha hr pd w' \<and> smp_rank w' < smp_rank w"
proof (cases "rpc w")
  case RTake
  then show ?thesis
    using r_rank_moves [OF r_take(1) [OF inv]] a_progress_lk [OF inv] by (cases "a_lk (apc w)") simp_all
next
  case RClear
  then show ?thesis
    using r_rank_moves [OF r_clear [OF inv]] by simp
next
  case (RScan k)
  then show ?thesis
    by (intro r_rank_moves [OF r_scan [OF inv RScan]]) auto
next
  case (RWake k n)
  then have k: "k < NPROC" and n: "n = 0 \<or> n = 1 \<or> n = 2"
    using inv by (auto simp: smp_inv_def)
  show ?thesis
  proof (cases "n = 0 \<and> k = i \<and> a_pl (apc w)")
    case True
    then show ?thesis
      using a_progress_pl [OF inv] RWake by simp
  next
    case False
    then show ?thesis
      using r_rank_moves [OF r_wake_lock(1) [OF inv]] r_rank_moves [OF r_wake_test [OF inv]]
        r_rank_moves [OF r_wake_unlock [OF inv]] n k RWake by auto
  qed
next
  case RGive
  then show ?thesis
    using r_rank_moves [OF r_give [OF inv]] by simp
qed (use r in simp)

lemma a_progress:
  assumes inv: "smp_inv ch i j ha hr pd w" and r: "rpc w = RDone" and a: "apc w \<noteq> ADone"
  shows "\<exists>w'. smp_step ch w w' \<and> smp_inv ch i j ha hr pd w' \<and> smp_rank w' < smp_rank w"
proof (cases "apc w")
  case ATake
  then show ?thesis
    using a_rank_moves [OF a_take(1) [OF inv]] r by simp
next
  case ATest
  then show ?thesis
    using a_rank_moves [OF a_test [OF inv]] r by simp
next
  case (AOff p ie)
  then have "p = i" "state (procs (sm_ps w) ! i) = RUNNABLE"
    using inv r by (auto simp: smp_inv_def)
  then show ?thesis
    using a_rank_moves [OF a_off(1) [OF inv]] r AOff by simp
next
  case (ABack p ie n)
  then have "p = i" "n < 3 \<or> n = 3"
    using inv by (auto simp: smp_inv_def)
  then show ?thesis
    using a_rank_moves [OF a_back [OF inv]] a_rank_moves [OF a_back_lock(1) [OF inv]] r ABack by auto
next
  case AOwn
  then show ?thesis
    using a_rank_moves [OF a_own [OF inv]] by simp
next
  case AGive
  then show ?thesis
    using a_rank_moves [OF a_give [OF inv]] by simp
qed (use inv r a in \<open>simp_all add: smp_inv_def\<close>)

lemma smp_finishes:
  assumes "smp_inv ch i j ha hr pd w"
  shows "\<exists>w'. (smp_step ch)\<^sup>*\<^sup>* w w' \<and> smp_inv ch i j ha hr pd w' \<and> apc w' = ADone \<and> rpc w' = RDone"
  using assms
proof (induction "smp_rank w" arbitrary: w rule: less_induct)
  case less
  show ?case
  proof (cases "apc w = ADone \<and> rpc w = RDone")
    case True
    then show ?thesis
      using less.prems by blast
  next
    case False
    then obtain w1 where "smp_step ch w w1" "smp_inv ch i j ha hr pd w1" "smp_rank w1 < smp_rank w"
      using r_progress [OF less.prems] a_progress [OF less.prems] by blast
    then show ?thesis
      using less.hyps [of w1] by (meson converse_rtranclp_into_rtranclp)
  qed
qed

lemma smp_falls_asleep:
  assumes "smp_inv ch i j ha hr pd w0" and "apc w0 = ATake" and "rpc w0 = RTake"
  shows "\<exists>w ie. (smp_step ch)\<^sup>*\<^sup>* w0 w \<and> apc w = ASwitch i ie \<and> state (procs (sm_ps w) ! i) = SLEEPING"
proof -
  define R where "R pc \<longleftrightarrow> (\<exists>w. (smp_step ch)\<^sup>*\<^sup>* w0 w \<and> smp_inv ch i j ha hr pd w \<and> apc w = pc \<and> rpc w = RTake)" for pc
  have step: "R pc'" if "R pc" and "\<And>w. smp_inv ch i j ha hr pd w \<Longrightarrow> apc w = pc \<Longrightarrow> rpc w = RTake \<Longrightarrow> a_moves ch i j ha hr pd w pc'" for pc pc'
    using that smp_step.acquirer unfolding R_def a_moves_def by (metis rtranclp.rtrancl_into_rtrancl)
  have "R ATake"
    using assms unfolding R_def by blast
  then have "R ATest"
    by (rule step) (simp add: a_take(1))
  then have "R (ASleep i 0)"
    by (rule step) (use a_test in fastforce)
  then have "R (ASleep i 1)"
    by (rule step) (use a_sleep_lock(1) in fastforce)
  then have "R (ASleep i 2)"
    by (rule step) (rule a_sleep_unlock)
  then have "R (ASleep i 3)"
    by (rule step) (use a_sleep_set [of ch i j ha hr pd _ 2] in \<open>simp add: eval_nat_numeral\<close>)
  then have "R (ASleep i 4)"
    by (rule step) (use a_sleep_set [of ch i j ha hr pd _ 3] in \<open>simp add: eval_nat_numeral\<close>)
  then obtain w where w: "(smp_step ch)\<^sup>*\<^sup>* w0 w" "smp_inv ch i j ha hr pd w" "apc w = ASleep i 4"
    unfolding R_def by blast
  then obtain ie w' where "a_step ch w = Inr w'" "smp_inv ch i j ha hr pd w'" "apc w' = ASwitch i ie"
    using a_sched [OF w(2,3)] by (auto simp: a_moves_def)
  moreover have "state (procs (sm_ps w') ! i) = SLEEPING"
    using calculation(2,3) by (simp add: smp_inv_def)
  ultimately show ?thesis
    using rtranclp.rtrancl_into_rtrancl [OF w(1) smp_step.acquirer] by blast
qed

text \<open>
  C15 (liveness). No wakeup is lost. Process \<open>i\<close> on one hart calls \<open>acquiresleep\<close> for a sleep lock that is
  taken while process \<open>j\<close> on another hart calls \<open>releasesleep\<close>; the harts interleave in any way, statement
  by statement of \<open>sleep\<close>, of \<open>wakeup\<close> and of the two callers. In every state they reach, neither has
  failed (a hart that cannot move spins on a lock); once \<open>wakeup\<close> has gone through the table,
  process \<open>i\<close> is not asleep; and from there both calls can still return, with the sleep lock owned
  by process \<open>i\<close>, every spin lock free and both harts out of every critical section.
\<close>

theorem no_lost_wakeup:
  assumes "length (procs s) = NPROC" and "\<forall>k<NPROC. lk_free (p_lock (procs s ! k))" and "i < NPROC" and "state (procs s ! i) = RUNNING"
    and "j \<noteq> i" and "lk_free (sl_lk l)" and "sl_locked l \<noteq> 0" and "noff ca = 0" and "noff cr = 0" and "hartid ca \<noteq> hartid cr"
    and "(smp_step ch)\<^sup>*\<^sup>* (smp_init s l i ca j cr) w"
  shows "(\<forall>f. a_step ch w = Inl f \<or> r_step ch w = Inl f \<longrightarrow> f = Spin) \<and>
    (rpc w = RGive \<or> rpc w = RDone \<longrightarrow> state (procs (sm_ps w) ! i) \<noteq> SLEEPING) \<and>
    (\<exists>w'. (smp_step ch)\<^sup>*\<^sup>* w w' \<and> apc w' = ADone \<and> rpc w' = RDone \<and> state (procs (sm_ps w') ! i) = RUNNING \<and>
       sl_locked (sm_sl w') = 1 \<and> sl_pid (sm_sl w') = pid (procs s ! i) \<and> lk_free (sl_lk (sm_sl w')) \<and>
       (\<forall>k<NPROC. lk_free (p_lock (procs (sm_ps w') ! k))) \<and> noff (a_cpu w') = 0 \<and> noff (r_cpu w') = 0)"
proof -
  have inv: "smp_inv ch i j (hartid ca) (hartid cr) (pid (procs s ! i)) w"
    using smp_inv_steps [OF assms(11) smp_inv_init] assms(1-10) by blast
  obtain w' where w': "(smp_step ch)\<^sup>*\<^sup>* w w'" "smp_inv ch i j (hartid ca) (hartid cr) (pid (procs s ! i)) w'"
    "apc w' = ADone" "rpc w' = RDone"
    using smp_finishes [OF inv] by blast
  have "state (procs (sm_ps w') ! i) = RUNNING" "sl_locked (sm_sl w') = 1" "sl_pid (sm_sl w') = pid (procs s ! i)"
    "lk_free (sl_lk (sm_sl w'))" "noff (a_cpu w') = 0" "noff (r_cpu w') = 0"
    using w'(2-4) by (simp_all add: smp_inv_def lk_free_def lock_by_def cpu_at_def)
  moreover have "lk_free (p_lock (procs (sm_ps w') ! k))" if "k < NPROC" for k
    using smp_plock(1) [OF w'(2) that] w'(3,4) by (simp add: lk_free_def lock_by_def)
  moreover have "state (procs (sm_ps w) ! i) \<noteq> SLEEPING" if "rpc w = RGive \<or> rpc w = RDone"
    using inv that by (cases "apc w") (auto simp: smp_inv_def)
  ultimately show ?thesis
    using w'(1,3,4) a_step_cases [OF inv] r_step_cases [OF inv] by auto
qed

theorem no_lost_wakeup_witness:
  "\<exists>w ie w'. let s = upd_proc blank_pstate 2 (\<lambda>p. p\<lparr>state := RUNNING, pid := 7\<rparr>);
       l = \<lparr>sl_locked = 1, sl_lk = \<lparr>locked = 0, lk_name = ''sleep lock'', lk_cpu = None\<rparr>, sl_name = ''inode'', sl_pid = 5\<rparr>;
       w0 = smp_init s l 2 \<lparr>hartid = 0, noff = 0, intena = 0, sie = True\<rparr> 1 \<lparr>hartid = 1, noff = 0, intena = 0, sie = True\<rparr>
     in (smp_step (WLock 0))\<^sup>*\<^sup>* w0 w \<and> apc w = ASwitch 2 ie \<and> state (procs (sm_ps w) ! 2) = SLEEPING \<and>
       (smp_step (WLock 0))\<^sup>*\<^sup>* w w' \<and> apc w' = ADone \<and> rpc w' = RDone \<and> state (procs (sm_ps w') ! 2) = RUNNING \<and> sl_pid (sm_sl w') = 7"
proof -
  let ?s = "upd_proc blank_pstate 2 (\<lambda>p. p\<lparr>state := RUNNING, pid := 7\<rparr>)"
  let ?l = "\<lparr>sl_locked = 1, sl_lk = \<lparr>locked = 0, lk_name = ''sleep lock'', lk_cpu = None\<rparr>, sl_name = ''inode'', sl_pid = 5\<rparr> :: sleeplock"
  let ?ca = "\<lparr>hartid = 0, noff = 0, intena = 0, sie = True\<rparr> :: cpu" and ?cr = "\<lparr>hartid = 1, noff = 0, intena = 0, sie = True\<rparr> :: cpu"
  let ?w0 = "smp_init ?s ?l 2 ?ca 1 ?cr"
  have "lk_free (p_lock (procs ?s ! k))" if "k < NPROC" for k
    using that by (simp add: upd_proc_def blank_pstate_def nth_list_update blank_proc_def lk_free_def)
  then have h: "length (procs ?s) = NPROC" "\<forall>k<NPROC. lk_free (p_lock (procs ?s ! k))" "2 < NPROC" "state (procs ?s ! 2) = RUNNING"
    "1 \<noteq> (2::nat)" "lk_free (sl_lk ?l)" "sl_locked ?l \<noteq> 0" "noff ?ca = 0" "noff ?cr = 0" "hartid ?ca \<noteq> hartid ?cr" "pid (procs ?s ! 2) = 7"
    by (simp_all add: lk_free_def blank_pstate_def)
  have "apc ?w0 = ATake" "rpc ?w0 = RTake"
    by (simp_all add: smp_init_def)
  then obtain w ie where w: "(smp_step (WLock 0))\<^sup>*\<^sup>* ?w0 w" "apc w = ASwitch 2 ie" "state (procs (sm_ps w) ! 2) = SLEEPING"
    using smp_falls_asleep [OF smp_inv_init [OF h(1-10)], of "WLock 0"] by blast
  then show ?thesis
    using no_lost_wakeup [OF h(1-10) w(1)] h(11) unfolding Let_def by metis
qed

end
