(* ===== verification/Vm_thms.thy ===== *)
theory Vm_thms
  imports Small_machine
begin

text \<open>
  The properties of the virtual-memory routines: mapping and unmapping a page, and the equivalence
  of the page-by-page copy loops with copying one byte at a time through the page table.
\<close>

section \<open>Strings in user memory\<close>

text \<open>Reading a string one byte at a time: the status, and the bytes read, the NUL included.\<close>

fun user_str :: "memory \<Rightarrow> u64 \<Rightarrow> u64 \<Rightarrow> nat \<Rightarrow> int \<times> u8 list" where
  "user_str m root va 0 = (-1, [])"
| "user_str m root va (Suc n) =
     (case xlate m root va of None \<Rightarrow> (-1, [])
      | Some pa \<Rightarrow> if m pa = 0 then (0, [0])
                  else let (r, bs) = user_str m root (va + 1) n in (r, m pa # bs))"

lemma user_str_page:
  assumes "va < MAXVA" and "user_pte (pte_at m root va)" and "unat va mod 4096 + n \<le> 4096"
  shows "user_str m root va (n + k) =
    (case copyinstr_page m (PTE2PA (pte_at m root va) + (va - PGROUNDDOWN va)) n of (bs, got) \<Rightarrow>
       if got then (0, bs)
       else case user_str m root (va + of_nat n) k of (r, rest) \<Rightarrow> (r, bs @ rest))"
  using assms
proof (induction n arbitrary: va)
  case (Suc n)
  let ?a = "PTE2PA (pte_at m root va) + (va - PGROUNDDOWN va)"
  have x: "xlate m root va = Some ?a"
    using Suc.prems by (simp add: xlate_def)
  show ?case
  proof (cases n)
    case 0
    then show ?thesis
      using x by (auto simp: Let_def split: prod.split)
  next
    case (Suc j)
    then have room: "unat va mod 4096 < 4095"
      using Suc.prems(3) by simp
    note nx = xlate_next [OF Suc.prems(1) room]
    have e: "pte_at m root (va + 1) = pte_at m root va"
      using pte_at_page [OF nx(1) Suc.prems(1) nx(3)] .
    have "unat (va + 1) mod 4096 + n \<le> 4096"
      using Suc.prems(3) room div_add_room(2) [of "unat va" 4096 1] unfolding nx(4) by simp
    then have "user_str m root (va + 1) (n + k) = (case copyinstr_page m (?a + 1) n of (bs, got) \<Rightarrow>
       if got then (0, bs) else case user_str m root (va + 1 + of_nat n) k of (r, rest) \<Rightarrow> (r, bs @ rest))"
      using Suc.IH [OF nx(1)] Suc.prems(2) unfolding e nx(2) by (simp add: algebra_simps)
    then show ?thesis
      using x by (auto simp: Let_def add.assoc split: prod.splits if_splits)
  qed
qed (simp split: prod.split)

lemma copyinstr_step:
  "mx > 0 \<Longrightarrow> copyinstr s root va mx =
     bindr (walkaddr s root (PGROUNDDOWN va)) (\<lambda>pa0.
       if pa0 = 0 then Inr (-1, [])
       else case copyinstr_page (mem s) (pa0 + (va - PGROUNDDOWN va)) (unat (chunk va mx)) of (bs, got) \<Rightarrow>
              if got then Inr (0, bs)
              else bindr (copyinstr s root (PGROUNDDOWN va + 4096) (mx - chunk va mx)) (\<lambda>(r, rest). Inr (r, bs @ rest)))"
  by (subst copyinstr.simps) (auto simp: Let_def intro!: bindr_cong split: prod.split)

lemma copyinstr_spec:
  assumes "vm_inv T s ps roots" and "root \<in> roots"
  shows "copyinstr s root va mx = Inr (user_str (mem s) root va (unat mx))"
proof (induction "unat mx" arbitrary: va mx rule: less_induct)
  case less
  let ?n = "unat (chunk va mx)" and ?va = "PGROUNDDOWN va + 4096" and ?mx = "mx - chunk va mx"
  show ?case
  proof (cases "mx = 0")
    case True
    then show ?thesis
      by (simp add: copyinstr.simps)
  next
    case False
    then have mx: "mx > 0"
      by (simp add: word_neq_0_conv)
    then have n: "?n \<le> unat mx" "unat va mod 4096 + ?n \<le> 4096"
      by (simp_all add: unat_chunk word_less_nat_alt)
    have um: "unat ?mx = unat mx - ?n"
      using n by (intro unat_sub_nowrap)
    show ?thesis
    proof (cases "xlate (mem s) root va")
      case None
      then have "user_str (mem s) root va (unat mx) = (-1, [])"
        using mx by (cases "unat mx") (simp_all add: word_less_nat_alt)
      then show ?thesis
        using None walkaddr_page(1) [OF assms] by (simp add: copyinstr_step [OF mx])
    next
      case (Some a)
      then have u: "va < MAXVA" "user_pte (pte_at (mem s) root va)"
        by (simp_all add: xlate_def split: if_splits)
      have "user_str (mem s) root (va + of_nat ?n) (unat ?mx) = user_str (mem s) root ?va (unat ?mx)"
        using chunk_next [of va mx] n by (cases "?n = unat mx") (simp_all add: um)
      moreover have "copyinstr s root ?va ?mx = Inr (user_str (mem s) root ?va (unat ?mx))"
        using less.hyps [OF chunk_decreases [OF mx]] .
      ultimately show ?thesis
        using walkaddr_page [OF assms, of va] Some user_str_page [OF u n(2), of "unat ?mx"] n(1)
        by (auto simp: copyinstr_step [OF mx] um split: prod.splits)
    qed
  qed
qed

section \<open>Properties\<close>

text \<open>
  C16 (invariant). Mapping one page with \<open>mappages\<close>: with two free pages for tables it returns 0 and the
  page's entry is the requested one; with fewer it may return -1 and no translation of any
  process has changed. Either way the page tables of all processes stay well formed, and no
  user page is written.
\<close>

theorem mappages_one_page:
  assumes "vm_inv T s ps roots" and "root \<in> roots" and "pg_aligned va" and "va < MAXVA"
    and "\<not> pte_valid (pte_at (mem s) root va)" and "pg_aligned pa" and "perm AND mask 10 = perm"
    and "perm AND PTE_U \<noteq> 0 \<Longrightarrow> T pa = PData"
  shows "\<exists>s' rc T' ps'. mappages s root va PGSIZE pa perm = Inr (s', rc) \<and> vm_inv T' s' ps' roots \<and>
    (rc = 0 \<or> rc = -1 \<and> length ps < 2) \<and>
    (\<forall>rt\<in>roots. \<forall>va'<MAXVA. pte_at (mem s') rt va' =
       (if rc = 0 \<and> rt = root \<and> page_no va' = page_no va then PA2PTE pa OR perm OR PTE_V else pte_at (mem s) rt va')) \<and>
    (\<forall>p x. T p = PData \<longrightarrow> page_no x = page_no p \<longrightarrow> mem s' x = mem s x)"
proof -
  obtain s' rc T' ps' where m: "mappages s root va 4096 pa perm = Inr (s', rc)" "vm_inv T' s' ps' roots" "vm_frame T s T' s'"
    "rc = 0 \<and> pte_set roots (mem s) (mem s') root va (PA2PTE pa OR perm OR PTE_V) \<or>
     rc = -1 \<and> length ps < 2 \<and> pte_same roots (mem s) (mem s')"
    using mappages_page [OF assms] by blast
  have "mem s' x = mem s x" if "T p = PData" "page_no x = page_no p" for p x
    using m(3) that vm_inv_aligned [OF assms(1), of p] unfolding vm_frame_def by simp
  then show ?thesis
    using m(1,2,4) by (intro exI [of _ s'] exI [of _ rc] exI [of _ T'] exI [of _ ps']) (auto simp: pte_set_def pte_same_def)
qed

theorem mappages_one_page_witness:
  "\<exists>s' rc. mappages (small 5) root1 0x10000 PGSIZE (root1 + 0x3000) (PTE_R OR PTE_W OR PTE_U) = Inr (s', rc) \<and>
    rc = 0 \<and> pte_at (mem s') root1 0x10000 = PA2PTE (root1 + 0x3000) OR (PTE_R OR PTE_W OR PTE_U) OR PTE_V"
proof -
  have va: "(0x10000 :: u64) < MAXVA" "pg_aligned 0x10000" "page_no 0x10000 = 16"
    by (simp_all add: MAXVA_num pg_aligned_def page_no_def)
  have "\<exists>s' rc T' ps'. mappages (small 5) root1 0x10000 PGSIZE (root1 + 0x3000) (PTE_R OR PTE_W OR PTE_U) = Inr (s', rc) \<and>
    vm_inv T' s' ps' {root1, root2} \<and> (rc = 0 \<or> rc = -1 \<and> length (pool 5) < 2) \<and>
    (\<forall>rt\<in>{root1, root2}. \<forall>va'<MAXVA. pte_at (mem s') rt va' =
       (if rc = 0 \<and> rt = root1 \<and> page_no va' = page_no 0x10000 then PA2PTE (root1 + 0x3000) OR (PTE_R OR PTE_W OR PTE_U) OR PTE_V
        else pte_at (mem (small 5)) rt va')) \<and>
    (\<forall>p x. small_type 5 p = PData \<longrightarrow> page_no x = page_no p \<longrightarrow> mem s' x = mem (small 5) x)"
    using va small_pte_at [of 5 root1 "0x10000"] small_aligned(4) [of root1] small_type_at [of 5 root1]
    by (intro mappages_one_page small_inv) (simp_all add: small_def)
  then show ?thesis
    using va by (auto simp: pool_def)
qed

text \<open>
  C17 (functional). \<open>uvmunmap\<close> without freeing, on a range of pages that are all mapped as leaves: it returns,
  exactly the entries of the range are cleared, and the free list, the page tables and the user
  pages of every process are otherwise as before.
\<close>

theorem uvmunmap_clears:
  assumes "vm_inv T s ps roots" and "root \<in> roots" and "pg_aligned a" and "unat a + 4096 * unat n \<le> unat MAXVA"
    and "\<forall>k<unat n. leaf_pte (pte_at (mem s) root (a + of_nat (4096 * k)))"
  shows "\<exists>s'. uvmunmap s root a n False = Inr s' \<and> vm_inv T s' ps roots \<and>
    (\<forall>rt\<in>roots. \<forall>va<MAXVA. pte_at (mem s') rt va =
       (if rt = root \<and> page_no a \<le> page_no va \<and> page_no va < page_no a + unat n then 0 else pte_at (mem s) rt va)) \<and>
    (\<forall>p x. T p = PData \<longrightarrow> page_no x = page_no p \<longrightarrow> mem s' x = mem s x)"
proof -
  obtain s' where u: "uvmunmap s root a n False = Inr s'" "vm_inv T s' ps roots" "vm_frame T s T s'"
    "pte_clear roots (mem s) (mem s') root a (unat n)"
    using uvmunmap_keep [OF assms(1-4)] assms(5) by blast
  have "mem s' x = mem s x" if "T p = PData" "page_no x = page_no p" for p x
    using u(3) that vm_inv_aligned [OF assms(1), of p] unfolding vm_frame_def by simp
  then show ?thesis
    using u(1,2,4) by (intro exI [of _ s']) (auto simp: pte_clear_def)
qed

theorem uvmunmap_clears_witness:
  "\<exists>s'. uvmunmap (small 5) root1 0 1 False = Inr s' \<and> pte_at (mem s') root1 0 = 0"
proof -
  have z: "(0 :: u64) < MAXVA" "pg_aligned 0" "page_no (0 :: u64) = 0"
    by (simp_all add: MAXVA_num pg_aligned_def page_no_def)
  have "leaf_pte (pte_at (small_mem 5) root1 0)"
    using small_pte_at [of 5 root1 0] z leaf_pte_facts(1,4) [OF small_aligned(4) user_flags, of root1]
    by (simp add: leaf_pte_def pte_flag_defs)
  then have "\<exists>s'. uvmunmap (small 5) root1 0 1 False = Inr s' \<and> vm_inv (small_type 5) s' (pool 5) {root1, root2} \<and>
    (\<forall>rt\<in>{root1, root2}. \<forall>va<MAXVA. pte_at (mem s') rt va =
       (if rt = root1 \<and> page_no 0 \<le> page_no va \<and> page_no va < page_no 0 + unat (1 :: u64) then 0 else pte_at (mem (small 5)) rt va)) \<and>
    (\<forall>p x. small_type 5 p = PData \<longrightarrow> page_no x = page_no p \<longrightarrow> mem s' x = mem (small 5) x)"
    using z by (intro uvmunmap_clears small_inv) (simp_all add: small_def)
  then show ?thesis
    using z by auto
qed

text \<open>
  C18 (equivalence). \<open>copyout\<close>, which copies page by page, writes exactly what writing the bytes one at a
  time through the page table writes, fails exactly when one of the bytes is not mapped for
  the user, and keeps every page table well formed.
\<close>

theorem copyout_bytewise:
  assumes "vm_inv T s ps roots" and "root \<in> roots"
  shows "case user_write (mem s) root dstva (map src [0..<unat len]) of
      Some m' \<Rightarrow> copyout s root dstva src len = Inr (s\<lparr>mem := m'\<rparr>, 0) \<and> vm_inv T (s\<lparr>mem := m'\<rparr>) ps roots
    | None \<Rightarrow> \<exists>m'. copyout s root dstva src len = Inr (s\<lparr>mem := m'\<rparr>, -1) \<and> vm_inv T (s\<lparr>mem := m'\<rparr>) ps roots"
  using copyout_spec [OF assms, of dstva src len] by (auto simp: copyout_ok_def split: option.splits)

lemma small_xlate_0: "xlate (small_mem 5) root1 0 \<noteq> None" "xlate (small_mem 5) root1 0x2000 = None"
proof -
  have z: "(0 :: u64) < MAXVA" "(0x2000 :: u64) < MAXVA" "page_no (0 :: u64) = 0" "page_no (0x2000 :: u64) = 2"
    by (simp_all add: MAXVA_num page_no_def)
  show "xlate (small_mem 5) root1 0 \<noteq> None" "xlate (small_mem 5) root1 0x2000 = None"
    using small_pte_at [of 5 root1 0] small_pte_at [of 5 root1 "0x2000"] z
      leaf_pte_facts(1,3) [OF small_aligned(4) user_flags, of root1]
    by (simp_all add: xlate_def user_pte_def pte_flag_defs pte_valid_def)
qed

theorem copyout_bytewise_witness:
  "(\<exists>m'. copyout (small 5) root1 0 (\<lambda>_. 42) 1 = Inr ((small 5)\<lparr>mem := m'\<rparr>, 0)) \<and>
   (\<exists>m'. copyout (small 5) root1 0x2000 (\<lambda>_. 42) 1 = Inr ((small 5)\<lparr>mem := m'\<rparr>, -1))"
  using copyout_bytewise [OF small_inv [of 5], of root1 0 "\<lambda>_. 42" 1] copyout_bytewise [OF small_inv [of 5], of root1 "0x2000" "\<lambda>_. 42" 1]
    small_xlate_0 by (auto simp: small_def split: option.splits)

text \<open>
  C19 (equivalence). \<open>copyin\<close> and \<open>copyinstr\<close> read exactly what reading one byte at a time through the page
  table reads. \<open>copyin\<close> fails exactly when a byte is not mapped; \<open>copyinstr\<close> stops after the first
  NUL and fails if the limit or an unmapped byte comes first.
\<close>

theorem copyin_copyinstr_bytewise:
  assumes "vm_inv T s ps roots" and "root \<in> roots"
  shows "(case user_read (mem s) root srcva (unat len) of
      Some bs \<Rightarrow> copyin s root srcva len = Inr (0, bs) | None \<Rightarrow> \<exists>bs. copyin s root srcva len = Inr (-1, bs)) \<and>
    copyinstr s root srcva len = Inr (user_str (mem s) root srcva (unat len))"
  using copyin_spec [OF assms, of srcva len] copyinstr_spec [OF assms, of srcva len]
  by (auto simp: copyin_ok_def split: option.splits)

theorem copyin_copyinstr_bytewise_witness:
  "(\<exists>b. copyin (small 5) root1 0 1 = Inr (0, [b])) \<and>
    (\<exists>bs. copyin (small 5) root1 0x2000 1 = Inr (-1, bs)) \<and> copyinstr (small 5) root1 0x2000 1 = Inr (-1, [])"
  using copyin_copyinstr_bytewise [OF small_inv [of 5], of root1 0 1] copyin_copyinstr_bytewise [OF small_inv [of 5], of root1 "0x2000" 1]
    small_xlate_0 by (auto simp: small_def)

end
