(* ===== verification/Uring.thy ===== *)
theory Uring
  imports Syscall Vm_thms
begin

text \<open>
  \<^verbatim>\<open>user/ringbuf.c\<close> and \<^verbatim>\<open>user/ringbuf.h\<close>: the user library over the ring-buffer system call. A
  process writes into the window at the address \<open>ringbuf_start_write\<close> gives it and then
  commits; another reads at the address \<open>ringbuf_start_read\<close> gives it and then commits. The two
  counters are in the book page. User memory is reached through the page table of the process.
\<close>

section \<open>State\<close>

definition MAX_USR_RINGBUF :: int where [simp]: "MAX_USR_RINGBUF = 10"
definition USR_RINGBUF_SIZE :: u64 where [simp]: "USR_RINGBUF_SIZE = 16"

text \<open>The macro is not parenthesised: \<open>x % MAX_RINGBUF_BYTES\<close> is \<open>(x % 16) * 4096\<close>.\<close>

definition mod_MAX_RINGBUF_BYTES :: "u64 \<Rightarrow> u64" where
  "mod_MAX_RINGBUF_BYTES x = x mod USR_RINGBUF_SIZE * PGSIZE"

definition MAX_RINGBUF_BYTES :: u64 where
  [simp]: "MAX_RINGBUF_BYTES = USR_RINGBUF_SIZE * PGSIZE"

record user_ring_buf =
  ub_buf :: u64
  ub_book :: u64
  ub_exists :: int

text \<open>Members of \<open>struct book\<close>, as offsets.\<close>

definition off_read_done :: u64 where [simp]: "off_read_done = 0"
definition off_write_done :: u64 where [simp]: "off_write_done = 8"

definition load :: "memory \<Rightarrow> u64 \<Rightarrow> u64 \<Rightarrow> fault + u64" where
  "load m root p = (case xlate m root p of None \<Rightarrow> Inl (BadAccess p) | Some pa \<Rightarrow> Inr (ld64 m pa))"

definition store :: "memory \<Rightarrow> u64 \<Rightarrow> u64 \<Rightarrow> u64 \<Rightarrow> fault + memory" where
  "store m root p v = (case xlate m root p of None \<Rightarrow> Inl (BadAccess p) | Some pa \<Rightarrow> Inr (st64 m pa v))"

section \<open>Reading and writing\<close>

definition is_rd_valid :: "user_ring_buf list \<Rightarrow> int \<Rightarrow> fault + int" where
  "is_rd_valid urbs rd =
     (if rd < 0 \<or> rd > MAX_USR_RINGBUF then Inr (-1)
      else if nat rd \<ge> length urbs then Inl (Overrun ''user_ring_bufs'')
      else if ub_exists (urbs ! nat rd) = 0 then Inr (-1) else Inr 0)"

text \<open>What the four operations compute from the two counters.\<close>

definition read_bytes :: "u64 \<Rightarrow> u64 \<Rightarrow> int" where
  "read_bytes read write = to_int (write - read)"

definition write_bytes :: "u64 \<Rightarrow> u64 \<Rightarrow> int" where
  "write_bytes read write = to_int (MAX_RINGBUF_BYTES - (write - read))"

definition read_done_after :: "u64 \<Rightarrow> u64 \<Rightarrow> int \<Rightarrow> u64 option" where
  "read_done_after read write bytes =
     (if of_int bytes > write - read then None
      else if of_int bytes \<le> write then Some (read + of_int bytes) else None)"

definition write_done_after :: "u64 \<Rightarrow> u64 \<Rightarrow> int \<Rightarrow> u64 option" where
  "write_done_after read write bytes =
     (if of_int bytes > MAX_RINGBUF_BYTES - (write - read) then None else Some (write + of_int bytes))"

text \<open>The common beginning: validate the descriptor and load both counters.\<close>

definition with_counters ::
    "user_ring_buf list \<Rightarrow> memory \<Rightarrow> u64 \<Rightarrow> int \<Rightarrow> (user_ring_buf \<Rightarrow> u64 \<Rightarrow> u64 \<Rightarrow> fault + 'b) \<Rightarrow> fault + 'b" where
  "with_counters urbs m root rd f =
     bindr (is_rd_valid urbs rd) (\<lambda>ok.
       if ok \<noteq> 0 then Inl (Exit 1)
       else let rb = urbs ! nat rd
            in bindr (load m root (ub_book rb + off_read_done)) (\<lambda>read.
               bindr (load m root (ub_book rb + off_write_done)) (\<lambda>write. f rb read write)))"

definition ringbuf_start_read :: "user_ring_buf list \<Rightarrow> memory \<Rightarrow> u64 \<Rightarrow> int \<Rightarrow> fault + u64 \<times> int" where
  "ringbuf_start_read urbs m root rd =
     with_counters urbs m root rd (\<lambda>rb read write.
       Inr (ub_buf rb + mod_MAX_RINGBUF_BYTES read, read_bytes read write))"

definition ringbuf_finish_read :: "user_ring_buf list \<Rightarrow> memory \<Rightarrow> u64 \<Rightarrow> int \<Rightarrow> int \<Rightarrow> fault + memory" where
  "ringbuf_finish_read urbs m root rd bytes =
     with_counters urbs m root rd (\<lambda>rb read write.
       case read_done_after read write bytes of None \<Rightarrow> Inr m | Some r \<Rightarrow> store m root (ub_book rb + off_read_done) r)"

definition ringbuf_start_write :: "user_ring_buf list \<Rightarrow> memory \<Rightarrow> u64 \<Rightarrow> int \<Rightarrow> fault + u64 \<times> int" where
  "ringbuf_start_write urbs m root rd =
     with_counters urbs m root rd (\<lambda>rb read write.
       Inr (ub_buf rb + write mod MAX_RINGBUF_BYTES, write_bytes read write))"

definition ringbuf_finish_write :: "user_ring_buf list \<Rightarrow> memory \<Rightarrow> u64 \<Rightarrow> int \<Rightarrow> int \<Rightarrow> fault + memory" where
  "ringbuf_finish_write urbs m root rd bytes =
     with_counters urbs m root rd (\<lambda>rb read write.
       case write_done_after read write bytes of None \<Rightarrow> Inl (Exit 1) | Some w \<Rightarrow> store m root (ub_book rb + off_write_done) w)"

section \<open>Opening and closing\<close>

definition SYS_ringbuf :: u64 where [simp]: "SYS_ringbuf = 22"

text \<open>
  The system call \<open>ringbuf(name, open, addr)\<close> of process \<open>i\<close>: the stub puts the arguments in
  registers, the trap saves them in the trap frame, and the result comes back in \<open>a0\<close>.
\<close>

definition usys_ringbuf ::
    "('a pstate_scheme \<Rightarrow> fault + 'a pstate_scheme \<times> u64) option list \<Rightarrow> 'a pstate_scheme \<Rightarrow> nat \<Rightarrow>
     u64 \<Rightarrow> int \<Rightarrow> u64 \<Rightarrow> fault + 'a pstate_scheme \<times> int" where
  "usys_ringbuf syscalls s i name opn addr =
     (let s1 = set_tf (set_tf (set_tf (set_tf s i (tf_a 0) name) i (tf_a 1) (of_int opn)) i (tf_a 2) addr) i (tf_a 7) SYS_ringbuf
      in bindr (syscall syscalls s1) (\<lambda>s2. Inr (s2, to_int (get_tf s2 i (tf_a 0)))))"

text \<open>The first slot that is not in use.\<close>

fun first_slot :: "user_ring_buf list \<Rightarrow> nat option" where
  "first_slot [] = None"
| "first_slot (rb # rbs) = (if ub_exists rb \<noteq> 1 then Some 0 else map_option Suc (first_slot rbs))"

text \<open>\<open>addr\<close> is the address of the local variable that the kernel fills.\<close>

definition ringbuf_open ::
    "('a pstate_scheme \<Rightarrow> fault + 'a pstate_scheme \<times> u64) option list \<Rightarrow> 'a pstate_scheme \<Rightarrow> nat \<Rightarrow>
     user_ring_buf list \<Rightarrow> u64 \<Rightarrow> u64 \<Rightarrow> fault + 'a pstate_scheme \<times> user_ring_buf list \<times> int" where
  "ringbuf_open syscalls s i urbs name addr =
     bindr (usys_ringbuf syscalls s i name 1 addr) (\<lambda>(s1, r).
       if r \<noteq> 0 then Inr (s1, urbs, -1)
       else case first_slot (take (nat MAX_USR_RINGBUF) urbs) of None \<Rightarrow> Inr (s1, urbs, -1) | Some k \<Rightarrow>
         bindr (load (mem s1) (pagetable (procs s1 ! i)) addr) (\<lambda>a.
           let b = a - (2 * USR_RINGBUF_SIZE - 1) * PGSIZE; bk = b - PGSIZE
           in Inr (s1, urbs[k := \<lparr>ub_buf = b, ub_book = bk, ub_exists = 1\<rparr>], int k)))"

definition ringbuf_close ::
    "('a pstate_scheme \<Rightarrow> fault + 'a pstate_scheme \<times> u64) option list \<Rightarrow> 'a pstate_scheme \<Rightarrow> nat \<Rightarrow>
     user_ring_buf list \<Rightarrow> int \<Rightarrow> u64 \<Rightarrow> u64 \<Rightarrow> fault + 'a pstate_scheme \<times> user_ring_buf list \<times> int" where
  "ringbuf_close syscalls s i urbs rd name addr =
     bindr (is_rd_valid urbs rd) (\<lambda>ok.
       if ok \<noteq> 0 then Inl (Exit 1)
       else bindr (store (mem s) (pagetable (procs s ! i)) addr
                     (ub_buf (urbs ! nat rd) + (2 * USR_RINGBUF_SIZE - 1) * PGSIZE)) (\<lambda>m.
         bindr (usys_ringbuf syscalls (s\<lparr>mem := m\<rparr>) i name 0 addr) (\<lambda>(s1, r).
           if r \<noteq> 0 then Inr (s1, urbs, -1)
           else Inr (s1, urbs[nat rd := \<lparr>ub_buf = 0, ub_book = 0, ub_exists = 0\<rparr>], 0))))"

end
