(* ===== verification/Spsc.thy ===== *)
theory Spsc
  imports Uring
begin

text \<open>
  One process writes a ring and another reads it, with the library of \<^verbatim>\<open>user/ringbuf.c\<close>: every
  load and store of a counter and every byte copied is a step, and the steps of the two
  processes interleave in any order. The ring is the 64 KB of shared physical memory; an offset
  of a window and the same offset plus 64 KB are the same byte.
\<close>

section \<open>Steps\<close>

text \<open>
  \<open>PStart r\<close>: \<open>start_write\<close> has loaded \<open>read_done\<close>. \<open>PFill n bs\<close>: it has returned \<open>n\<close> free bytes, of which
  \<open>bs\<close> have been stored. \<open>PFin bs r\<close>: \<open>finish_write\<close> has loaded \<open>read_done\<close>. The reader's states are
  the same with \<open>write_done\<close>.
\<close>

datatype writer = PIdle | PStart u64 | PFill nat "u8 list" | PFin "u8 list" u64 | PExit
datatype reader = CIdle | CStart u64 | CTake nat "u8 list" | CFin "u8 list" u64

text \<open>\<open>sent\<close> and \<open>recv\<close> are the bytes committed by each side so far.\<close>

record spsc =
  rdone :: u64
  wdone :: u64
  ring :: "nat \<Rightarrow> u8"
  wr :: writer
  rd :: reader
  sent :: "u8 list"
  recv :: "u8 list"

definition spsc_init :: "(nat \<Rightarrow> u8) \<Rightarrow> spsc" where
  "spsc_init m = \<lparr>rdone = 0, wdone = 0, ring = m, wr = PIdle, rd = CIdle, sent = [], recv = []\<rparr>"

definition ring_off :: "u64 \<Rightarrow> nat" where
  "ring_off off = unat off mod 65536"

text \<open>
  \<open>roff\<close> maps \<open>read_done\<close> to the offset at which the reader copies, \<open>okn\<close> says how many bytes a
  reader may take at a time.
\<close>

inductive spsc_step :: "(u64 \<Rightarrow> u64) \<Rightarrow> (nat \<Rightarrow> bool) \<Rightarrow> spsc \<Rightarrow> spsc \<Rightarrow> bool" for roff okn where
  start_write_read: "wr s = PIdle \<Longrightarrow> spsc_step roff okn s (s\<lparr>wr := PStart (rdone s)\<rparr>)"
| start_write_write: "wr s = PStart r \<Longrightarrow> spsc_step roff okn s (s\<lparr>wr := PFill (nat (write_bytes r (wdone s))) []\<rparr>)"
| fill: "wr s = PFill n bs \<Longrightarrow> length bs < n \<Longrightarrow> spsc_step roff okn s
    (s\<lparr>ring := (ring s)(ring_off (wdone s mod MAX_RINGBUF_BYTES + of_nat (length bs)) := b), wr := PFill n (bs @ [b])\<rparr>)"
| finish_write_read: "wr s = PFill n bs \<Longrightarrow> length (sent s) + length bs < 2 ^ 64 \<Longrightarrow>
    spsc_step roff okn s (s\<lparr>wr := PFin bs (rdone s)\<rparr>)"
| finish_write_store: "wr s = PFin bs r \<Longrightarrow> write_done_after r (wdone s) (int (length bs)) = Some w \<Longrightarrow>
    spsc_step roff okn s (s\<lparr>wdone := w, sent := sent s @ bs, wr := PIdle\<rparr>)"
| finish_write_exit: "wr s = PFin bs r \<Longrightarrow> write_done_after r (wdone s) (int (length bs)) = None \<Longrightarrow>
    spsc_step roff okn s (s\<lparr>wr := PExit\<rparr>)"
| start_read_read: "rd s = CIdle \<Longrightarrow> spsc_step roff okn s (s\<lparr>rd := CStart (rdone s)\<rparr>)"
| start_read_write: "rd s = CStart r \<Longrightarrow> spsc_step roff okn s (s\<lparr>rd := CTake (nat (read_bytes r (wdone s))) []\<rparr>)"
| take: "rd s = CTake n bs \<Longrightarrow> length bs < n \<Longrightarrow> spsc_step roff okn s
    (s\<lparr>rd := CTake n (bs @ [ring s (ring_off (roff (rdone s) + of_nat (length bs)))])\<rparr>)"
| finish_read_write: "rd s = CTake n bs \<Longrightarrow> okn (length bs) \<Longrightarrow> spsc_step roff okn s (s\<lparr>rd := CFin bs (wdone s)\<rparr>)"
| finish_read_store: "rd s = CFin bs w \<Longrightarrow> read_done_after (rdone s) w (int (length bs)) = Some r \<Longrightarrow>
    spsc_step roff okn s (s\<lparr>rdone := r, recv := recv s @ bs, rd := CIdle\<rparr>)"
| finish_read_keep: "rd s = CFin bs w \<Longrightarrow> read_done_after (rdone s) w (int (length bs)) = None \<Longrightarrow>
    spsc_step roff okn s (s\<lparr>rd := CIdle\<rparr>)"

section \<open>Arithmetic of the counters\<close>

lemma unat_ucast32: "unat (ucast (v :: u64) :: u32) = unat v mod 2 ^ 32"
proof (transfer, goal_cases)
  case (1 v)
  show ?case
    using nat_mod_distrib [of "v mod 2 ^ 64" "2 ^ 32"] by (simp add: take_bit_eq_mod mod_mod_cancel)
qed

lemma to_int_small: "unat v \<le> 65536 \<Longrightarrow> to_int v = int (unat v)"
proof -
  assume v: "unat v \<le> 65536"
  have "unat (ucast v :: u32) = unat v"
    using v by (simp add: unat_ucast32)
  then have "uint (ucast v :: u32) = int (unat v)"
    by (metis uint_nat)
  moreover have "sint (ucast v :: u32) = signed_take_bit 31 (uint (ucast v :: u32))"
    by (simp add: sint_uint)
  moreover have "uint v \<le> 65536" "0 \<le> uint v"
    using v by (simp_all only: unat_eq_nat_uint uint_nonnegative)
  ultimately show ?thesis
    unfolding to_int_def by (simp add: signed_take_bit_int_eq_self)
qed

lemma unat_of_nat_mod: "unat (of_nat n :: u64) = n mod 2 ^ 64"
  by (simp add: unat_of_nat take_bit_eq_mod)

lemma ring_off_write: "k < 65536 \<Longrightarrow> ring_off (of_nat W mod MAX_RINGBUF_BYTES + of_nat k) = (W + k) mod 65536"
proof -
  assume k: "k < 65536"
  have a: "unat (of_nat W mod 65536 :: u64) = W mod 65536"
    by (simp add: unat_mod unat_of_nat_mod mod_mod_cancel)
  then have "unat (of_nat W mod 65536 + of_nat k :: u64) = W mod 65536 + k"
    using k by (subst unat_add_of_nat) simp_all
  then show ?thesis
    unfolding ring_off_def by (simp add: mod_add_left_eq)
qed

lemma counter_diff:
  assumes "R \<le> W" and "W \<le> R + 65536"
  shows "unat (of_nat W - of_nat R :: u64) = W - R"
proof -
  have "of_nat W - of_nat R = (of_nat (W - R) :: u64)"
    using assms(1) by (simp add: of_nat_diff)
  then show ?thesis
    using assms(2) by (simp add: unat_of_nat64)
qed

lemma free_diff:
  assumes "R \<le> W" and "W \<le> R + 65536"
  shows "unat (65536 - (of_nat W - of_nat R) :: u64) = 65536 - (W - R)"
  using counter_diff [OF assms] assms by (subst unat_sub_nowrap) simp_all

lemma write_done_after_eq:
  assumes "R \<le> W" and "W + n \<le> R + 65536"
  shows "write_done_after (of_nat R) (of_nat W) (int n) = Some (of_nat (W + n))"
proof -
  have "\<not> (of_nat n :: u64) > 65536 - (of_nat W - of_nat R)"
    using assms free_diff [of R W] by (simp add: word_less_nat_alt unat_of_nat64)
  then show ?thesis
    by (simp add: write_done_after_def)
qed

lemma read_done_after_eq:
  assumes "R + n \<le> W" and "W \<le> R + 65536" and "W < 2 ^ 64"
  shows "read_done_after (of_nat R) (of_nat W) (int n) = Some (of_nat (R + n))"
proof -
  have "\<not> (of_nat n :: u64) > of_nat W - of_nat R" "(of_nat n :: u64) \<le> of_nat W"
    using assms counter_diff [of R W] by (simp_all add: word_less_nat_alt word_le_nat_alt unat_of_nat64)
  then show ?thesis
    by (simp add: read_done_after_def)
qed

lemma read_bytes_eq: "R \<le> W \<Longrightarrow> W \<le> R + 65536 \<Longrightarrow> read_bytes (of_nat R) (of_nat W) = int (W - R)"
  unfolding read_bytes_def by (subst to_int_small) (simp_all add: counter_diff)

lemma write_bytes_eq: "R \<le> W \<Longrightarrow> W \<le> R + 65536 \<Longrightarrow> write_bytes (of_nat R) (of_nat W) = int (65536 - (W - R))"
  unfolding write_bytes_def by (subst to_int_small) (simp_all add: free_diff)

section \<open>The invariant\<close>

text \<open>\<open>R\<close> and \<open>W\<close> are the numbers of bytes received and sent so far.\<close>

definition stored :: "spsc \<Rightarrow> nat \<Rightarrow> u8 list \<Rightarrow> bool" where
  "stored s W bs \<longleftrightarrow> (\<forall>k<length bs. ring s ((W + k) mod 65536) = bs ! k)"

definition writer_ok :: "spsc \<Rightarrow> nat \<Rightarrow> nat \<Rightarrow> bool" where
  "writer_ok s R W \<longleftrightarrow> (case wr s of
     PIdle \<Rightarrow> True
   | PStart r \<Rightarrow> \<exists>R0\<le>R. r = of_nat R0 \<and> W \<le> R0 + 65536
   | PFill n bs \<Rightarrow> length bs \<le> n \<and> W + n \<le> R + 65536 \<and> stored s W bs
   | PFin bs r \<Rightarrow> (\<exists>R0\<le>R. r = of_nat R0 \<and> W + length bs \<le> R0 + 65536) \<and> W + length bs < 2 ^ 64 \<and> stored s W bs
   | PExit \<Rightarrow> False)"

definition reader_ok :: "spsc \<Rightarrow> nat \<Rightarrow> nat \<Rightarrow> bool" where
  "reader_ok s R W \<longleftrightarrow> (case rd s of
     CIdle \<Rightarrow> True
   | CStart r \<Rightarrow> r = of_nat R
   | CTake n bs \<Rightarrow> length bs \<le> n \<and> R + n \<le> W
   | CFin bs w \<Rightarrow> \<exists>W0\<le>W. w = of_nat W0 \<and> R + length bs \<le> W0)"

definition counters_ok :: "spsc \<Rightarrow> nat \<Rightarrow> nat \<Rightarrow> bool" where
  "counters_ok s R W \<longleftrightarrow> rdone s = of_nat R \<and> wdone s = of_nat W \<and> R \<le> W \<and> W \<le> R + 65536 \<and> W < 2 ^ 64 \<and>
     (\<forall>k. R \<le> k \<and> k < W \<longrightarrow> ring s (k mod 65536) = sent s ! k)"

definition spsc_inv :: "spsc \<Rightarrow> bool" where
  "spsc_inv s \<longleftrightarrow> counters_ok s (length (recv s)) (length (sent s)) \<and>
     writer_ok s (length (recv s)) (length (sent s)) \<and> reader_ok s (length (recv s)) (length (sent s))"

lemma spsc_inv_init: "spsc_inv (spsc_init m)"
  by (simp add: spsc_inv_def spsc_init_def counters_ok_def writer_ok_def reader_ok_def)

lemma fill_keeps:
  assumes "counters_ok s R W" and "writer_ok s R W" and "wr s = PFill n bs" and "length bs < n"
    and "s' = s\<lparr>ring := (ring s)(ring_off (wdone s mod MAX_RINGBUF_BYTES + of_nat (length bs)) := b), wr := PFill n (bs @ [b])\<rparr>"
  shows "counters_ok s' R W \<and> writer_ok s' R W"
proof -
  have w: "W + n \<le> R + 65536" "stored s W bs" and c: "wdone s = of_nat W" "R \<le> W"
    using assms(1-3) by (simp_all add: writer_ok_def counters_ok_def)
  have off: "ring_off (wdone s mod MAX_RINGBUF_BYTES + of_nat (length bs)) = (W + length bs) mod 65536"
    using w(1) c assms(4) by (simp add: ring_off_write [unfolded MAX_RINGBUF_BYTES_def, simplified])
  have far: "k mod 65536 \<noteq> (W + length bs) mod 65536" if "R \<le> k" "k < W + length bs" for k
  proof -
    have "W + length bs - k < 65536"
      using that w(1) assms(4) by linarith
    then show ?thesis
      using mod_shift_neq [of "W + length bs - k" 65536 k] that by simp
  qed
  have "counters_ok s' R W"
    using assms(1) far off unfolding counters_ok_def assms(5) by (auto simp del: MAX_RINGBUF_BYTES_def)
  moreover have "stored s' W (bs @ [b])"
    using w(2) far [of "W + k" for k] off c(2) unfolding stored_def assms(5)
    by (auto simp: nth_append less_Suc_eq simp del: MAX_RINGBUF_BYTES_def)
  ultimately show ?thesis
    using assms(4) w(1) by (simp add: writer_ok_def assms(5))
qed

lemma store_keeps:
  assumes "counters_ok s R W" and "writer_ok s R W" and "reader_ok s R W" and "wr s = PFin bs r"
    and "W = length (sent s)"
  shows "write_done_after r (wdone s) (int (length bs)) = Some (of_nat (W + length bs))"
    and "counters_ok (s\<lparr>wdone := of_nat (W + length bs), sent := sent s @ bs, wr := PIdle\<rparr>) R (W + length bs)"
    and "reader_ok (s\<lparr>wdone := of_nat (W + length bs), sent := sent s @ bs, wr := PIdle\<rparr>) R (W + length bs)"
proof -
  obtain R0 where r: "R0 \<le> R" "r = of_nat R0" "W + length bs \<le> R0 + 65536" "W + length bs < 2 ^ 64" "stored s W bs"
    using assms(2,4) by (auto simp: writer_ok_def)
  have c: "rdone s = of_nat R" "wdone s = of_nat W" "R \<le> W" "\<forall>k. R \<le> k \<and> k < W \<longrightarrow> ring s (k mod 65536) = sent s ! k"
    using assms(1) by (simp_all add: counters_ok_def)
  show "write_done_after r (wdone s) (int (length bs)) = Some (of_nat (W + length bs))"
    using write_done_after_eq [of R0 W "length bs"] r c by simp
  have "ring s (k mod 65536) = (sent s @ bs) ! k" if "R \<le> k" "k < W + length bs" for k
    using that c(4) r(5) [unfolded stored_def, rule_format, of "k - W"] assms(5)
    by (cases "k < W") (simp_all add: nth_append)
  then show "counters_ok (s\<lparr>wdone := of_nat (W + length bs), sent := sent s @ bs, wr := PIdle\<rparr>) R (W + length bs)"
    using c r by (simp add: counters_ok_def)
  show "reader_ok (s\<lparr>wdone := of_nat (W + length bs), sent := sent s @ bs, wr := PIdle\<rparr>) R (W + length bs)"
    using assms(3) by (auto simp: reader_ok_def split: reader.splits intro: trans_le_add1)
qed

lemma consume_keeps:
  assumes "counters_ok s R W" and "writer_ok s R W" and "reader_ok s R W" and "rd s = CFin bs w"
  shows "read_done_after (rdone s) w (int (length bs)) = Some (of_nat (R + length bs))"
    and "counters_ok (s\<lparr>rdone := of_nat (R + length bs), recv := recv s @ bs, rd := CIdle\<rparr>) (R + length bs) W"
    and "writer_ok (s\<lparr>rdone := of_nat (R + length bs), recv := recv s @ bs, rd := CIdle\<rparr>) (R + length bs) W"
proof -
  obtain W0 where w: "W0 \<le> W" "w = of_nat W0" "R + length bs \<le> W0"
    using assms(3,4) by (auto simp: reader_ok_def)
  have c: "rdone s = of_nat R" "W \<le> R + 65536" "W < 2 ^ 64"
    using assms(1) by (simp_all add: counters_ok_def)
  show "read_done_after (rdone s) w (int (length bs)) = Some (of_nat (R + length bs))"
    using read_done_after_eq [of R "length bs" W0] w c by simp
  show "counters_ok (s\<lparr>rdone := of_nat (R + length bs), recv := recv s @ bs, rd := CIdle\<rparr>) (R + length bs) W"
    using assms(1) w by (simp add: counters_ok_def)
  show "writer_ok (s\<lparr>rdone := of_nat (R + length bs), recv := recv s @ bs, rd := CIdle\<rparr>) (R + length bs) W"
    using assms(2) by (auto simp: writer_ok_def stored_def split: writer.splits intro: trans_le_add1)
qed

lemma frame_ok [simp]:
  "counters_ok (s\<lparr>wr := x\<rparr>) R W = counters_ok s R W" "counters_ok (s\<lparr>rd := y\<rparr>) R W = counters_ok s R W"
  "reader_ok (s\<lparr>wr := x\<rparr>) R W = reader_ok s R W" "writer_ok (s\<lparr>rd := y\<rparr>) R W = writer_ok s R W"
  "stored (s\<lparr>wr := x\<rparr>) W bs = stored s W bs"
  by (simp_all add: counters_ok_def reader_ok_def writer_ok_def stored_def cong: writer.case_cong)

lemma spsc_inv_step: "spsc_step roff okn s s' \<Longrightarrow> spsc_inv s \<Longrightarrow> spsc_inv s'"
proof (induction rule: spsc_step.induct)
  case (start_write_read s)
  then show ?case by (auto simp: spsc_inv_def writer_ok_def counters_ok_def)
next
  case (start_write_write s r)
  then obtain R0 where "R0 \<le> length (recv s)" "r = of_nat R0" "length (sent s) \<le> R0 + 65536"
      "wdone s = of_nat (length (sent s))" "length (recv s) \<le> length (sent s)"
    by (auto simp: spsc_inv_def writer_ok_def counters_ok_def)
  then show ?case
    using start_write_write write_bytes_eq [of R0 "length (sent s)"] by (simp add: spsc_inv_def writer_ok_def stored_def)
next
  case (fill s n bs b)
  then show ?case
    using fill_keeps [OF _ _ fill(1,2) refl] by (simp add: spsc_inv_def reader_ok_def)
next
  case (finish_write_read s n bs)
  then show ?case by (auto simp: spsc_inv_def writer_ok_def counters_ok_def)
next
  case (finish_write_store s bs r w)
  then show ?case
    using store_keeps [of s "length (recv s)" "length (sent s)" bs r] by (simp add: spsc_inv_def writer_ok_def)
next
  case (finish_write_exit s bs r)
  then show ?case
    using store_keeps(1) [of s "length (recv s)" "length (sent s)" bs r] by (simp add: spsc_inv_def)
next
  case (start_read_read s)
  then show ?case by (auto simp: spsc_inv_def reader_ok_def counters_ok_def)
next
  case (start_read_write s r)
  then show ?case
    using read_bytes_eq [of "length (recv s)" "length (sent s)"]
    by (auto simp: spsc_inv_def reader_ok_def counters_ok_def simp flip: of_nat_diff)
next
  case (take s n bs)
  then show ?case by (simp add: spsc_inv_def reader_ok_def)
next
  case (finish_read_write s n bs)
  then show ?case by (auto simp: spsc_inv_def reader_ok_def counters_ok_def)
next
  case (finish_read_store s bs w r)
  then show ?case
    using consume_keeps [of s "length (recv s)" "length (sent s)" bs w] by (simp add: spsc_inv_def reader_ok_def)
next
  case (finish_read_keep s bs w)
  then show ?case by (simp add: spsc_inv_def reader_ok_def)
qed

section \<open>First in, first out\<close>

text \<open>
  What the reader must be given for the bytes it copies to be the oldest unread ones: at the
  counts \<open>S\<close> it can reach, the offset is the count modulo 64 KB.
\<close>

locale ring_reader =
  fixes roff :: "u64 \<Rightarrow> u64" and okn :: "nat \<Rightarrow> bool" and S :: "nat set"
  assumes start: "0 \<in> S"
    and advance: "R \<in> S \<Longrightarrow> okn n \<Longrightarrow> R + n \<in> S"
    and offset: "R \<in> S \<Longrightarrow> k < 65536 \<Longrightarrow> ring_off (roff (of_nat R) + of_nat k) = (R + k) mod 65536"
begin

definition fifo_ok :: "spsc \<Rightarrow> bool" where
  "fifo_ok s \<longleftrightarrow> length (recv s) \<in> S \<and> recv s = take (length (recv s)) (sent s) \<and>
     (case rd s of CTake n bs \<Rightarrow> bs = take (length bs) (drop (length (recv s)) (sent s))
      | CFin bs w \<Rightarrow> okn (length bs) \<and> bs = take (length bs) (drop (length (recv s)) (sent s)) | _ \<Rightarrow> True)"

lemma fifo_step:
  assumes "spsc_step roff okn s s'" and "spsc_inv s" and "fifo_ok s"
  shows "fifo_ok s'"
  using assms
proof (induction rule: spsc_step.induct)
  case (finish_write_store s bs r w)
  have "length (recv s) \<le> length (sent s)"
    using finish_write_store(3) by (simp add: spsc_inv_def counters_ok_def)
  moreover have "length bs' \<le> length (sent s) - length (recv s)" if "rd s = CTake n bs' \<or> rd s = CFin bs' v" for n bs' v
    using finish_write_store(3) that by (auto simp: spsc_inv_def reader_ok_def)
  ultimately show ?case
    using finish_write_store(4) by (auto simp: fifo_ok_def split: reader.splits)
next
  case (take s n bs)
  let ?R = "length (recv s)" and ?W = "length (sent s)"
  have c: "rdone s = of_nat ?R" "?W \<le> ?R + 65536" "?R + n \<le> ?W" "\<forall>k. ?R \<le> k \<and> k < ?W \<longrightarrow> ring s (k mod 65536) = sent s ! k"
    using take by (simp_all add: spsc_inv_def counters_ok_def reader_ok_def)
  have "ring s (ring_off (roff (rdone s) + of_nat (length bs))) = sent s ! (?R + length bs)"
    using offset [of ?R "length bs"] take(2,4) c by (simp add: fifo_ok_def)
  then show ?case
    using take c by (simp add: fifo_ok_def take_Suc_conv_app_nth)
next
  case (finish_read_store s bs w r)
  then show ?case
    using advance [of "length (recv s)" "length bs"] by (auto simp: fifo_ok_def take_add)
qed (auto simp: fifo_ok_def split: reader.splits)

lemma fifo_reachable:
  assumes "(spsc_step roff okn)\<^sup>*\<^sup>* (spsc_init m) s"
  shows "spsc_inv s \<and> fifo_ok s"
  using assms
proof (induction rule: rtranclp_induct)
  case base
  show ?case
    using spsc_inv_init start by (simp add: fifo_ok_def spsc_init_def)
next
  case (step s s')
  then show ?case
    using spsc_inv_step fifo_step by blast
qed

end

lemma read_offset_code:
  assumes "65536 dvd R" and "k < 65536"
  shows "ring_off (mod_MAX_RINGBUF_BYTES (of_nat R) + of_nat k) = (R + k) mod 65536"
proof -
  have "unat (of_nat R mod 16 :: u64) = R mod 16"
    by (simp add: unat_mod unat_of_nat_mod mod_mod_cancel)
  moreover have "R mod 16 = 0"
    using dvd_trans [OF _ assms(1), of 16] by simp
  ultimately have "of_nat R mod 16 = (0 :: u64)"
    by (simp add: unat_eq_0 [symmetric] del: unat_eq_0)
  then show ?thesis
    using assms by (auto simp: mod_MAX_RINGBUF_BYTES_def ring_off_def unat_of_nat64 elim!: dvdE)
qed

interpretation code_reader: ring_reader mod_MAX_RINGBUF_BYTES "\<lambda>n. 65536 dvd n" "{R. 65536 dvd R}"
  by unfold_locales (simp_all add: read_offset_code)

lemma inv_reachable: "(spsc_step roff okn)\<^sup>*\<^sup>* (spsc_init m) s \<Longrightarrow> spsc_inv s"
  by (induction rule: rtranclp_induct) (auto intro: spsc_inv_init spsc_inv_step)

section \<open>Properties\<close>

text \<open>
  C20 (invariant). In every interleaving of one writer and one reader, with chunks of any size: at
  most 64 KB are unread, the unread bytes are in the ring as they were sent (no byte is overwritten
  before it is read), \<open>finish_write\<close> never terminates the writer, and \<open>finish_read\<close> always
  advances the counter by what was read. The runs are those in which the writer has sent fewer than
  2^64 bytes, so that \<open>write_done\<close> has not wrapped around; \<open>finish_read\<close> compares with it.
\<close>

theorem spsc_no_overwrite:
  assumes "(spsc_step mod_MAX_RINGBUF_BYTES (\<lambda>_. True))\<^sup>*\<^sup>* (spsc_init m) s"
  shows "unat (wdone s - rdone s) = length (sent s) - length (recv s) \<and> length (sent s) \<le> length (recv s) + 65536 \<and>
    (\<forall>k. length (recv s) \<le> k \<and> k < length (sent s) \<longrightarrow> ring s (k mod 65536) = sent s ! k) \<and> wr s \<noteq> PExit \<and>
    (\<forall>bs w. rd s = CFin bs w \<longrightarrow> read_done_after (rdone s) w (int (length bs)) = Some (rdone s + of_nat (length bs)))"
proof -
  have inv: "spsc_inv s"
    using inv_reachable [OF assms] .
  then have "counters_ok s (length (recv s)) (length (sent s))" "wr s \<noteq> PExit"
    by (auto simp: spsc_inv_def writer_ok_def)
  moreover have "read_done_after (rdone s) w (int (length bs)) = Some (rdone s + of_nat (length bs))" if "rd s = CFin bs w" for bs w
    using consume_keeps(1) [of s "length (recv s)" "length (sent s)" bs w] inv that
    by (simp add: spsc_inv_def counters_ok_def)
  ultimately show ?thesis
    using counter_diff by (auto simp: counters_ok_def)
qed

text \<open>
  With the code as it is and a reader that takes multiples of 64 KB, so that the offset it computes
  is always 0, what has been received is a prefix of what has been sent.
\<close>

lemma spsc_fifo_code:
  assumes "(spsc_step mod_MAX_RINGBUF_BYTES (\<lambda>n. 65536 dvd n))\<^sup>*\<^sup>* (spsc_init m) s"
  shows "recv s = take (length (recv s)) (sent s)"
  using code_reader.fifo_reachable [OF assms] by (simp add: code_reader.fifo_ok_def)

text \<open>
  C21 (error). \<open>ringbuf_start_read\<close> returns the address of the oldest unread byte, \<open>read\<close> modulo 64 KB into
  the ring, exactly when the number of bytes read so far is a multiple of 64 KB: the macro has no
  parentheses, so \<open>read % MAX_RINGBUF_BYTES\<close> expands to \<open>read % 16 * 4096\<close>.
\<close>

theorem start_read_address:
  assumes "ringbuf_start_read urbs m root d = Inr (a, n)" and "load m root (ub_book (urbs ! nat d)) = Inr read"
  shows "a = ub_buf (urbs ! nat d) + read mod 65536 \<longleftrightarrow> 65536 dvd unat read"
proof -
  have a: "a = ub_buf (urbs ! nat d) + read mod 16 * 4096"
    using assms by (auto simp: ringbuf_start_read_def with_counters_def mod_MAX_RINGBUF_BYTES_def Let_def fault_simps split: if_splits)
  have u: "unat (read mod 16 * 4096) = unat read mod 16 * 4096" "unat (read mod 65536) = unat read mod 65536"
    by (simp_all add: unat_mult_nowrap unat_mod)
  have "unat read mod 16 * 4096 = unat read mod 65536 \<longleftrightarrow> unat read mod 65536 = 0"
  proof
    assume e: "unat read mod 16 * 4096 = unat read mod 65536"
    have "unat read mod 16 = unat read mod 65536 mod 16"
      by (simp add: mod_mod_cancel)
    also have "\<dots> = 0"
      unfolding e [symmetric] by simp
    finally show "unat read mod 65536 = 0"
      using e by simp
  next
    assume "unat read mod 65536 = 0"
    then show "unat read mod 16 * 4096 = unat read mod 65536"
      using dvd_trans [of 16 65536 "unat read"] by (simp add: dvd_eq_mod_eq_0)
  qed
  then have "unat (read mod 16 * 4096) = unat (read mod 65536) \<longleftrightarrow> 65536 dvd unat read"
    by (simp only: u dvd_eq_mod_eq_0)
  then show ?thesis
    unfolding a by (simp only: word_unat_eq_iff [symmetric] add_left_cancel)
qed

section \<open>A run\<close>

text \<open>Two bytes are sent; then the reader takes them one at a time.\<close>

definition run_sent :: spsc where
  "run_sent = \<lparr>rdone = 0, wdone = 2, ring = (\<lambda>_. 0)(0 := 1, 1 := 2), wr = PIdle, rd = CIdle, sent = [1, 2], recv = []\<rparr>"

definition run_read :: "u8 list \<Rightarrow> spsc" where
  "run_read bs = run_sent\<lparr>rdone := of_nat (length bs), recv := bs\<rparr>"

lemma run_sent_reachable: "(spsc_step roff okn)\<^sup>*\<^sup>* (spsc_init (\<lambda>_. 0)) run_sent"
proof -
  let ?s = "\<lambda>w m. (spsc_init m)\<lparr>wr := w\<rparr>" and ?z = "\<lambda>_ :: nat. 0 :: u8"
  have wb: "write_bytes 0 0 = 65536"
    using write_bytes_eq [of 0 0] by simp
  have off: "ring_off (0 mod MAX_RINGBUF_BYTES + of_nat 0) = 0" "ring_off (0 mod MAX_RINGBUF_BYTES + of_nat 1) = 1"
    by (simp_all add: ring_off_def)
  have "spsc_step roff okn (spsc_init ?z) (?s (PStart 0) ?z)"
    using spsc_step.start_write_read [of "spsc_init ?z" roff okn] by (simp add: spsc_init_def)
  moreover have "spsc_step roff okn (?s (PStart 0) ?z) (?s (PFill 65536 []) ?z)"
    using spsc_step.start_write_write [of "?s (PStart 0) ?z" 0 roff okn] wb by (simp add: spsc_init_def)
  moreover have "spsc_step roff okn (?s (PFill 65536 []) ?z) (?s (PFill 65536 [1]) (?z(0 := 1)))"
    using spsc_step.fill [of "?s (PFill 65536 []) ?z" 65536 "[]" roff okn 1] off by (simp add: spsc_init_def)
  moreover have "spsc_step roff okn (?s (PFill 65536 [1]) (?z(0 := 1))) (?s (PFill 65536 [1, 2]) (?z(0 := 1, 1 := 2)))"
    using spsc_step.fill [of "?s (PFill 65536 [1]) (?z(0 := 1))" 65536 "[1]" roff okn 2] off by (simp add: spsc_init_def)
  moreover have "spsc_step roff okn (?s (PFill 65536 [1, 2]) (?z(0 := 1, 1 := 2))) (?s (PFin [1, 2] 0) (?z(0 := 1, 1 := 2)))"
    using spsc_step.finish_write_read [of "?s (PFill 65536 [1, 2]) (?z(0 := 1, 1 := 2))" 65536 "[1, 2]" roff okn]
    by (simp add: spsc_init_def)
  moreover have "spsc_step roff okn (?s (PFin [1, 2] 0) (?z(0 := 1, 1 := 2))) run_sent"
    using spsc_step.finish_write_store [of "?s (PFin [1, 2] 0) (?z(0 := 1, 1 := 2))" "[1, 2]" 0 2 roff okn]
      write_done_after_eq [of 0 0 2] by (simp add: spsc_init_def run_sent_def)
  ultimately show ?thesis
    by (meson converse_rtranclp_into_rtranclp rtranclp.rtrancl_refl)
qed

lemma run_read_step:
  assumes "okn 1" and "length bs < 2" and "b = ring run_sent (ring_off (roff (of_nat (length bs))))"
  shows "(spsc_step roff okn)\<^sup>*\<^sup>* (run_read bs) (run_read (bs @ [b]))"
proof -
  let ?n = "length bs" and ?s = "\<lambda>c. (run_read bs)\<lparr>rd := c\<rparr>"
  have rb: "read_bytes (of_nat ?n) 2 = int (2 - ?n)"
    using read_bytes_eq [of ?n 2] assms(2) by simp
  have "spsc_step roff okn (run_read bs) (?s (CStart (of_nat ?n)))"
    using spsc_step.start_read_read [of "run_read bs" roff okn] by (simp add: run_read_def run_sent_def)
  moreover have "spsc_step roff okn (?s (CStart (of_nat ?n))) (?s (CTake (2 - ?n) []))"
    using spsc_step.start_read_write [of "?s (CStart (of_nat ?n))" "of_nat ?n" roff okn] rb
    by (simp add: run_read_def run_sent_def)
  moreover have "spsc_step roff okn (?s (CTake (2 - ?n) [])) (?s (CTake (2 - ?n) [b]))"
    using spsc_step.take [of "?s (CTake (2 - ?n) [])" "2 - ?n" "[]" roff okn] assms(2,3)
    by (simp add: run_read_def run_sent_def)
  moreover have "spsc_step roff okn (?s (CTake (2 - ?n) [b])) (?s (CFin [b] 2))"
    using spsc_step.finish_read_write [of "?s (CTake (2 - ?n) [b])" "2 - ?n" "[b]" okn roff] assms(1)
    by (simp add: run_read_def run_sent_def)
  moreover have "spsc_step roff okn (?s (CFin [b] 2)) (run_read (bs @ [b]))"
    using spsc_step.finish_read_store [of "?s (CFin [b] 2)" "[b]" 2 "of_nat (Suc ?n)" roff okn]
      read_done_after_eq [of ?n 1 2] assms(2) by (simp add: run_read_def run_sent_def)
  ultimately show ?thesis
    by (meson converse_rtranclp_into_rtranclp rtranclp.rtrancl_refl)
qed

lemma run_read_reachable:
  assumes "okn 1" and "ring_off (roff 0) = 0"
  shows "(spsc_step roff okn)\<^sup>*\<^sup>* (spsc_init (\<lambda>_. 0)) (run_read [1])"
proof -
  have "run_read [] = run_sent"
    by (simp add: run_read_def run_sent_def)
  then show ?thesis
    using run_sent_reachable [of roff okn] run_read_step [of okn "[]" 1 roff] assms by (simp add: run_sent_def)
qed

text \<open>
  C22 (error). With the code as it is, a reader that takes one byte at a time gets a byte that was never
  sent: after the bytes 1 and 2 have been sent it receives 1 and then 0.
\<close>

theorem spsc_reader_wrong:
  "\<exists>s. (spsc_step mod_MAX_RINGBUF_BYTES (\<lambda>_. True))\<^sup>*\<^sup>* (spsc_init (\<lambda>_. 0)) s \<and> sent s = [1, 2] \<and> recv s = [1, 0]"
proof -
  have off: "ring_off (mod_MAX_RINGBUF_BYTES 0) = 0" "ring_off (mod_MAX_RINGBUF_BYTES 1) = 4096"
    by (simp_all add: ring_off_def mod_MAX_RINGBUF_BYTES_def)
  have "(spsc_step mod_MAX_RINGBUF_BYTES (\<lambda>_. True))\<^sup>*\<^sup>* (spsc_init (\<lambda>_. 0)) (run_read [1, 0])"
    using run_read_reachable [of "\<lambda>_. True" mod_MAX_RINGBUF_BYTES]
      run_read_step [of "\<lambda>_. True" "[1]" 0 mod_MAX_RINGBUF_BYTES] off by (simp add: run_sent_def)
  then show ?thesis
    by (intro exI [of _ "run_read [1, 0]"]) (simp add: run_read_def run_sent_def)
qed

theorem spsc_no_overwrite_witness: "ring (run_read [1]) 1 = 2 \<and> unat (wdone (run_read [1]) - rdone (run_read [1])) = 1"
proof -
  have "ring_off (mod_MAX_RINGBUF_BYTES 0) = 0"
    by (simp add: ring_off_def mod_MAX_RINGBUF_BYTES_def)
  then show ?thesis
    using spsc_no_overwrite [OF run_read_reachable [of "\<lambda>_. True" mod_MAX_RINGBUF_BYTES]]
    by (simp add: run_read_def run_sent_def)
qed

theorem start_read_address_witness:
  "\<exists>m a n. load m root1 0 = Inr 1 \<and> ringbuf_start_read [\<lparr>ub_buf = 0x5000, ub_book = 0, ub_exists = 1\<rparr>] m root1 0 = Inr (a, n) \<and>
    a \<noteq> 0x5000 + (1 :: u64) mod 65536"
proof -
  let ?u = "[\<lparr>ub_buf = 0x5000, ub_book = 0, ub_exists = 1\<rparr>] :: user_ring_buf list"
  let ?p = "root1 + 0x3000" and ?s = "small 5"
  let ?m = "st64 (small_mem 5) ?p 1"
  have inv: "vm_inv (small_type 5) ?s (pool 5) {root1, root2}" and m: "mem ?s = small_mem 5"
    by (rule small_inv) (simp_all add: small_def)
  have x: "xlate (mem ?s) root1 0 = Some ?p" "xlate (mem ?s) root1 8 \<noteq> None"
    using small_xlate [of 5 root1 0] small_xlate [of 5 root1 8] by (simp_all add: m)
  then have "user_pte (pte_at (mem ?s) root1 0)" "PTE2PA (pte_at (mem ?s) root1 0) = ?p"
    by (simp_all add: xlate_def PGROUNDDOWN_def split: if_splits)
  then have d: "small_type 5 ?p = PData"
    using user_pte_data [OF inv, of root1 0] by simp
  have "pte_same {root1, root2} (mem ?s) ?m"
    using data_write_pte [OF inv vm_inv_aligned [OF inv], of ?p ?m] st64_page_same_off_page [of ?p "small_mem 5" 1] d
      vm_inv_aligned [OF inv, of ?p] by (simp add: m)
  then have "xlate ?m root1 0 = Some ?p" "xlate ?m root1 8 \<noteq> None"
    using xlate_same [of "{root1, root2}" "mem ?s" ?m root1] x by simp_all
  then have ld: "load ?m root1 0 = Inr 1" "\<exists>v. load ?m root1 8 = Inr v"
    by (auto simp: load_def)
  then obtain a n where r: "ringbuf_start_read ?u ?m root1 0 = Inr (a, n)"
    by (auto simp: ringbuf_start_read_def with_counters_def is_rd_valid_def)
  then show ?thesis
    using start_read_address [of ?u ?m root1 0 a n 1] ld(1) by auto
qed

end
