(* ===== verification/Virtio.thy ===== *)
theory Virtio
  imports Sleeplock
begin

text \<open>
  \<^verbatim>\<open>kernel/virtio_disk.c\<close>: the descriptors, the two rings and the life of one request. The device
  is a parameter, the state component \<open>dev_io\<close>: what it does with the medium and the buffer for
  a request, and the status byte it writes.
\<close>

section \<open>State\<close>

type_synonym u16 = "16 word"

definition NUM :: nat where [simp]: "NUM = 8"
definition BSIZE :: nat where [simp]: "BSIZE = 1024"

definition VRING_DESC_F_NEXT :: u16 where "VRING_DESC_F_NEXT = 1"
definition VRING_DESC_F_WRITE :: u16 where "VRING_DESC_F_WRITE = 2"
definition VIRTIO_BLK_T_IN :: u32 where "VIRTIO_BLK_T_IN = 0"
definition VIRTIO_BLK_T_OUT :: u32 where "VIRTIO_BLK_T_OUT = 1"

text \<open>What a descriptor can point to: nothing, a command header, the data of a buffer, a status byte.\<close>

datatype dptr = DNull | DOps nat | DData nat | DStatus nat

record virtq_desc =
  d_addr :: dptr
  d_len :: u32
  d_flags :: u16
  d_next :: u16

record virtio_blk_req =
  r_type :: u32
  r_reserved :: u32
  r_sector :: u64

record vinfo =
  i_b :: "nat option"
  i_status :: u8

record vdisk =
  desc :: "virtq_desc list"
  avail_idx :: u16
  avail_ring :: "u16 list"
  dev_used_idx :: u16
  used_ring :: "u32 list"
  dfree :: "bool list"
  used_idx :: u16
  info :: "vinfo list"
  ops :: "virtio_blk_req list"
  vdisk_lock :: spinlock

text \<open>A \<open>struct buf\<close>; \<open>prev\<close> and \<open>next\<close> are indices.\<close>

record bufr =
  b_valid :: int
  b_disk :: int
  b_dev :: u32
  b_blockno :: u32
  b_lock :: sleeplock
  b_refcnt :: u32
  b_prev :: nat
  b_next :: nat
  b_data :: "u8 list"

text \<open>The disk is the list of the writes it has completed, the newest first: a sector and the bytes.\<close>

type_synonym medium = "(u64 \<times> u8 list) list"

record bstate = tstate +
  medium :: medium
  dev_io :: "medium \<Rightarrow> u32 \<Rightarrow> u64 \<Rightarrow> u8 list \<Rightarrow> medium \<times> u8 list \<times> u8"
  vdisk :: vdisk
  bc_lock :: spinlock
  bufs :: "bufr list"

definition upd_buf :: "'a bstate_scheme \<Rightarrow> nat \<Rightarrow> (bufr \<Rightarrow> bufr) \<Rightarrow> 'a bstate_scheme" where
  "upd_buf s b f = s\<lparr>bufs := (bufs s)[b := f (bufs s ! b)]\<rparr>"

section \<open>Descriptors\<close>

text \<open>The first free descriptor.\<close>

fun first_free :: "bool list \<Rightarrow> nat option" where
  "first_free [] = None"
| "first_free (f # fs) = (if f then Some 0 else map_option Suc (first_free fs))"

definition alloc_desc :: "vdisk \<Rightarrow> vdisk \<times> int" where
  "alloc_desc d = (case first_free (dfree d) of None \<Rightarrow> (d, -1) | Some i \<Rightarrow> (d\<lparr>dfree := (dfree d)[i := False]\<rparr>, int i))"

definition free_desc :: "'a bstate_scheme \<Rightarrow> nat \<Rightarrow> fault + 'a bstate_scheme" where
  "free_desc s i =
     (if i \<ge> NUM then Inl (Panic ''free_desc 1'')
      else if dfree (vdisk s) ! i then Inl (Panic ''free_desc 2'')
      else let d = vdisk s;
               d1 = d\<lparr>desc := (desc d)[i := \<lparr>d_addr = DNull, d_len = 0, d_flags = 0, d_next = 0\<rparr>], dfree := (dfree d)[i := True]\<rparr>
           in wakeup (s\<lparr>vdisk := d1\<rparr>) WDisk)"

text \<open>The chain is at most as long as the table; \<open>k\<close> bounds the loop.\<close>

fun free_chain :: "nat \<Rightarrow> 'a bstate_scheme \<Rightarrow> nat \<Rightarrow> fault + 'a bstate_scheme" where
  "free_chain 0 s i = Inl OutOfFuel"
| "free_chain (Suc k) s i =
     (let flag = d_flags (desc (vdisk s) ! i); nxt = d_next (desc (vdisk s) ! i)
      in bindr (free_desc s i) (\<lambda>s1.
           if flag AND VRING_DESC_F_NEXT \<noteq> 0 then free_chain k s1 (unat nxt) else Inr s1))"

fun free_descs :: "'a bstate_scheme \<Rightarrow> nat list \<Rightarrow> fault + 'a bstate_scheme" where
  "free_descs s [] = Inr s"
| "free_descs s (i # is) = bindr (free_desc s i) (\<lambda>s1. free_descs s1 is)"

text \<open>\<open>k\<close> descriptors are still to be allocated, \<open>is\<close> have been.\<close>

fun alloc_descs :: "nat \<Rightarrow> 'a bstate_scheme \<Rightarrow> nat list \<Rightarrow> fault + 'a bstate_scheme \<times> nat list option" where
  "alloc_descs 0 s is = Inr (s, Some is)"
| "alloc_descs (Suc k) s is =
     (case alloc_desc (vdisk s) of (d, i) \<Rightarrow>
        if i < 0 then bindr (free_descs (s\<lparr>vdisk := d\<rparr>) is) (\<lambda>s1. Inr (s1, None))
        else alloc_descs k (s\<lparr>vdisk := d\<rparr>) (is @ [nat i]))"

definition alloc3_desc :: "'a bstate_scheme \<Rightarrow> fault + 'a bstate_scheme \<times> nat list option" where
  "alloc3_desc s = alloc_descs 3 s []"

section \<open>A request\<close>

text \<open>Formatting the three descriptors and the command, and putting the chain on the available ring.\<close>

definition format_req :: "vdisk \<Rightarrow> nat \<Rightarrow> nat \<Rightarrow> nat \<Rightarrow> nat \<Rightarrow> u32 \<Rightarrow> bool \<Rightarrow> vdisk" where
  "format_req d i0 i1 i2 b blockno write =
     (let sector = ucast (blockno * of_nat (BSIZE div 512));
          req = \<lparr>r_type = (if write then VIRTIO_BLK_T_OUT else VIRTIO_BLK_T_IN), r_reserved = 0, r_sector = sector\<rparr>;
          d0 = \<lparr>d_addr = DOps i0, d_len = 16, d_flags = VRING_DESC_F_NEXT, d_next = of_nat i1\<rparr>;
          d1 = \<lparr>d_addr = DData b, d_len = of_nat BSIZE,
                d_flags = (if write then 0 else VRING_DESC_F_WRITE) OR VRING_DESC_F_NEXT, d_next = of_nat i2\<rparr>;
          d2 = \<lparr>d_addr = DStatus i0, d_len = 1, d_flags = VRING_DESC_F_WRITE, d_next = 0\<rparr>
      in d\<lparr>ops := (ops d)[i0 := req], desc := (desc d)[i0 := d0, i1 := d1, i2 := d2],
           info := (info d)[i0 := \<lparr>i_b = Some b, i_status = 0xff\<rparr>],
           avail_ring := (avail_ring d)[unat (avail_idx d mod of_nat NUM) := of_nat i0], avail_idx := avail_idx d + 1\<rparr>)"

text \<open>
  The device serves the request at the head of the available ring: it follows the chain to the
  command, the data and the status byte, applies \<open>dev_io\<close>, and puts the head on the used ring.
\<close>

definition device_serve :: "'a bstate_scheme \<Rightarrow> 'a bstate_scheme" where
  "device_serve s =
     (let d = vdisk s;
          head = unat (avail_ring d ! unat ((avail_idx d - 1) mod of_nat NUM));
          d1 = unat (d_next (desc d ! head)); d2 = unat (d_next (desc d ! d1))
      in case (d_addr (desc d ! head), d_addr (desc d ! d1), d_addr (desc d ! d2)) of
           (DOps q, DData b, DStatus j) \<Rightarrow>
             let req = ops d ! q;
                 (m, data, st) = dev_io s (medium s) (r_type req) (r_sector req) (b_data (bufs s ! b))
             in (upd_buf s b (\<lambda>x. x\<lparr>b_data := data\<rparr>))\<lparr>medium := m,
                   vdisk := d\<lparr>info := (info d)[j := (info d ! j)\<lparr>i_status := st\<rparr>],
                              used_ring := (used_ring d)[unat (dev_used_idx d mod of_nat NUM) := of_nat head],
                              dev_used_idx := dev_used_idx d + 1\<rparr>\<rparr>
         | _ \<Rightarrow> s)"

text \<open>The loop of the interrupt handler over the used ring; \<open>k\<close> bounds the entries the device has added.\<close>

fun virtio_intr_loop :: "nat \<Rightarrow> 'a bstate_scheme \<Rightarrow> fault + 'a bstate_scheme" where
  "virtio_intr_loop 0 s = (if used_idx (vdisk s) \<noteq> dev_used_idx (vdisk s) then Inl OutOfFuel else Inr s)"
| "virtio_intr_loop (Suc k) s =
     (let d = vdisk s
      in if used_idx d \<noteq> dev_used_idx d then
           let id = unat (used_ring d ! unat (used_idx d mod of_nat NUM))
           in if i_status (info d ! id) \<noteq> 0 then Inl (Panic ''virtio_disk_intr status'')
              else case i_b (info d ! id) of None \<Rightarrow> Inl (BadAccess 0) | Some b \<Rightarrow>
                bindr (wakeup (upd_buf s b (\<lambda>x. x\<lparr>b_disk := 0\<rparr>)) (WBuf b)) (\<lambda>s1.
                  virtio_intr_loop k (s1\<lparr>vdisk := (vdisk s1)\<lparr>used_idx := used_idx (vdisk s1) + 1\<rparr>\<rparr>))
         else Inr s)"

definition acquire_vdisk :: "'a bstate_scheme \<Rightarrow> fault + 'a bstate_scheme" where
  "acquire_vdisk s = bindr (acquire (vdisk_lock (vdisk s)) (hart s)) (\<lambda>(l, c).
     Inr (s\<lparr>vdisk := (vdisk s)\<lparr>vdisk_lock := l\<rparr>, hart := c\<rparr>))"

definition release_vdisk :: "'a bstate_scheme \<Rightarrow> fault + 'a bstate_scheme" where
  "release_vdisk s = bindr (release (vdisk_lock (vdisk s)) (hart s)) (\<lambda>(l, c).
     Inr (s\<lparr>vdisk := (vdisk s)\<lparr>vdisk_lock := l\<rparr>, hart := c\<rparr>))"

definition virtio_disk_intr :: "'a bstate_scheme \<Rightarrow> fault + 'a bstate_scheme" where
  "virtio_disk_intr s =
     bindr (acquire_vdisk s) (\<lambda>s1. bindr (virtio_intr_loop NUM s1) (\<lambda>s2. release_vdisk s2))"

text \<open>
  While the caller sleeps on the buffer the lock is free, the device serves the request and its
  interrupt is handled; \<open>sleep\<close> then returns with the lock held.
\<close>

definition virtio_disk_rw :: "'a bstate_scheme \<Rightarrow> nat \<Rightarrow> bool \<Rightarrow> fault + 'a bstate_scheme" where
  "virtio_disk_rw s b write =
     bindr (acquire_vdisk s) (\<lambda>s1.
     bindr (alloc3_desc s1) (\<lambda>(s2, r). case r of None \<Rightarrow> Inl (Blocked ''disk.free'') | Some idx \<Rightarrow>
       let s3 = (upd_buf s2 b (\<lambda>x. x\<lparr>b_disk := 1\<rparr>))\<lparr>vdisk :=
                  format_req (vdisk s2) (idx ! 0) (idx ! 1) (idx ! 2) b (b_blockno (bufs s2 ! b)) write\<rparr>
       in bindr (release_vdisk s3) (\<lambda>s4.
          bindr (virtio_disk_intr (device_serve s4)) (\<lambda>s5.
          bindr (acquire_vdisk s5) (\<lambda>s6.
            if b_disk (bufs s6 ! b) = 1 then Inl (Blocked ''buf'')
            else let d = vdisk s6;
                     s7 = s6\<lparr>vdisk := d\<lparr>info := (info d)[idx ! 0 := (info d ! (idx ! 0))\<lparr>i_b := None\<rparr>]\<rparr>\<rparr>
                 in bindr (free_chain NUM s7 (idx ! 0)) (\<lambda>s8. release_vdisk s8))))))"

end
