(* ===== verification/Bio.thy ===== *)
theory Bio
  imports Virtio
begin

text \<open>
  \<^verbatim>\<open>kernel/bio.c\<close>: the buffer cache. The buffers are entries 0 to \<open>NBUF - 1\<close> of \<open>bufs\<close> and the list
  head \<open>bcache.head\<close> is entry \<open>NBUF\<close>; \<open>b_prev\<close> and \<open>b_next\<close> are the links of the list, most
  recently used first. Walks along the links have a bound of \<open>NBUF + 1\<close> steps.
\<close>

definition NBUF :: nat where [simp]: "NBUF = 30"

definition acquire_bcache :: "'a bstate_scheme \<Rightarrow> fault + 'a bstate_scheme" where
  "acquire_bcache s = bindr (acquire (bc_lock s) (hart s)) (\<lambda>(l, c). Inr (s\<lparr>bc_lock := l, hart := c\<rparr>))"

definition release_bcache :: "'a bstate_scheme \<Rightarrow> fault + 'a bstate_scheme" where
  "release_bcache s = bindr (release (bc_lock s) (hart s)) (\<lambda>(l, c). Inr (s\<lparr>bc_lock := l, hart := c\<rparr>))"

text \<open>Insertion of \<open>b\<close> right after the head.\<close>

definition link_front :: "bufr list \<Rightarrow> nat \<Rightarrow> bufr list" where
  "link_front bs b =
     (let n = b_next (bs ! NBUF);
          bs1 = bs[b := (bs ! b)\<lparr>b_next := n, b_prev := NBUF\<rparr>];
          bs2 = bs1[n := (bs1 ! n)\<lparr>b_prev := b\<rparr>]
      in bs2[NBUF := (bs2 ! NBUF)\<lparr>b_next := b\<rparr>])"

definition binit :: "'a bstate_scheme \<Rightarrow> 'a bstate_scheme" where
  "binit s =
     (let s1 = s\<lparr>bc_lock := initlock (bc_lock s) ''bcache'',
                 bufs := (bufs s)[NBUF := (bufs s ! NBUF)\<lparr>b_prev := NBUF, b_next := NBUF\<rparr>]\<rparr>
      in s1\<lparr>bufs := fold (\<lambda>b bs. let bs1 = bs[b := (bs ! b)\<lparr>b_lock := initsleeplock (b_lock (bs ! b)) ''buffer''\<rparr>]
                                in link_front bs1 b) [0..<NBUF] (bufs s1)\<rparr>)"

text \<open>The walk along \<open>next\<close> for a cached block, and along \<open>prev\<close> for an unused buffer.\<close>

fun find_cached :: "nat \<Rightarrow> bufr list \<Rightarrow> nat \<Rightarrow> u32 \<Rightarrow> u32 \<Rightarrow> fault + nat option" where
  "find_cached 0 bs b dev blockno = Inl OutOfFuel"
| "find_cached (Suc k) bs b dev blockno =
     (if b = NBUF then Inr None
      else if b_dev (bs ! b) = dev \<and> b_blockno (bs ! b) = blockno then Inr (Some b)
      else find_cached k bs (b_next (bs ! b)) dev blockno)"

fun find_unused_buf :: "nat \<Rightarrow> bufr list \<Rightarrow> nat \<Rightarrow> fault + nat option" where
  "find_unused_buf 0 bs b = Inl OutOfFuel"
| "find_unused_buf (Suc k) bs b =
     (if b = NBUF then Inr None
      else if b_refcnt (bs ! b) = 0 then Inr (Some b)
      else find_unused_buf k bs (b_prev (bs ! b)))"

definition acquiresleep_buf :: "'a bstate_scheme \<Rightarrow> nat \<Rightarrow> fault + 'a bstate_scheme" where
  "acquiresleep_buf s b =
     bindr (acquiresleep s (b_lock (bufs s ! b))) (\<lambda>(s1, lk). Inr (upd_buf s1 b (\<lambda>x. x\<lparr>b_lock := lk\<rparr>)))"

definition bget :: "'a bstate_scheme \<Rightarrow> u32 \<Rightarrow> u32 \<Rightarrow> fault + 'a bstate_scheme \<times> nat" where
  "bget s dev blockno =
     bindr (acquire_bcache s) (\<lambda>s1.
     bindr (find_cached (NBUF + 1) (bufs s1) (b_next (bufs s1 ! NBUF)) dev blockno) (\<lambda>r.
       case r of
         Some b \<Rightarrow>
           bindr (release_bcache (upd_buf s1 b (\<lambda>x. x\<lparr>b_refcnt := b_refcnt x + 1\<rparr>))) (\<lambda>s2.
           bindr (acquiresleep_buf s2 b) (\<lambda>s3. Inr (s3, b)))
       | None \<Rightarrow>
           bindr (find_unused_buf (NBUF + 1) (bufs s1) (b_prev (bufs s1 ! NBUF))) (\<lambda>r.
             case r of
               Some b \<Rightarrow>
                 bindr (release_bcache (upd_buf s1 b (\<lambda>x. x\<lparr>b_dev := dev, b_blockno := blockno, b_valid := 0, b_refcnt := 1\<rparr>))) (\<lambda>s2.
                 bindr (acquiresleep_buf s2 b) (\<lambda>s3. Inr (s3, b)))
             | None \<Rightarrow> Inl (Panic ''bget: no buffers''))))"

definition bread :: "'a bstate_scheme \<Rightarrow> u32 \<Rightarrow> u32 \<Rightarrow> fault + 'a bstate_scheme \<times> nat" where
  "bread s dev blockno =
     bindr (bget s dev blockno) (\<lambda>(s1, b).
       if b_valid (bufs s1 ! b) = 0
       then bindr (virtio_disk_rw s1 b False) (\<lambda>s2. Inr (upd_buf s2 b (\<lambda>x. x\<lparr>b_valid := 1\<rparr>), b))
       else Inr (s1, b))"

definition holdingsleep_buf :: "'a bstate_scheme \<Rightarrow> nat \<Rightarrow> fault + 'a bstate_scheme \<times> bool" where
  "holdingsleep_buf s b =
     bindr (holdingsleep s (b_lock (bufs s ! b))) (\<lambda>(s1, lk, r). Inr (upd_buf s1 b (\<lambda>x. x\<lparr>b_lock := lk\<rparr>), r))"

definition bwrite :: "'a bstate_scheme \<Rightarrow> nat \<Rightarrow> fault + 'a bstate_scheme" where
  "bwrite s b =
     bindr (holdingsleep_buf s b) (\<lambda>(s1, h).
       if \<not> h then Inl (Panic ''bwrite'') else virtio_disk_rw s1 b True)"

text \<open>Removal of \<open>b\<close> from its place in the list.\<close>

definition unlink_buf :: "bufr list \<Rightarrow> nat \<Rightarrow> bufr list" where
  "unlink_buf bs b =
     (let bs1 = bs[b_next (bs ! b) := (bs ! b_next (bs ! b))\<lparr>b_prev := b_prev (bs ! b)\<rparr>]
      in bs1[b_prev (bs1 ! b) := (bs1 ! b_prev (bs1 ! b))\<lparr>b_next := b_next (bs1 ! b)\<rparr>])"

definition releasesleep_buf :: "'a bstate_scheme \<Rightarrow> nat \<Rightarrow> fault + 'a bstate_scheme" where
  "releasesleep_buf s b =
     bindr (releasesleep s (WLock b) (b_lock (bufs s ! b))) (\<lambda>(s1, lk). Inr (upd_buf s1 b (\<lambda>x. x\<lparr>b_lock := lk\<rparr>)))"

definition brelse :: "'a bstate_scheme \<Rightarrow> nat \<Rightarrow> fault + 'a bstate_scheme" where
  "brelse s b =
     bindr (holdingsleep_buf s b) (\<lambda>(s1, h).
       if \<not> h then Inl (Panic ''brelse'')
       else bindr (releasesleep_buf s1 b) (\<lambda>s2.
            bindr (acquire_bcache s2) (\<lambda>s3.
              let s4 = upd_buf s3 b (\<lambda>x. x\<lparr>b_refcnt := b_refcnt x - 1\<rparr>);
                  s5 = (if b_refcnt (bufs s4 ! b) = 0 then s4\<lparr>bufs := link_front (unlink_buf (bufs s4) b) b\<rparr> else s4)
              in release_bcache s5)))"

definition bpin :: "'a bstate_scheme \<Rightarrow> nat \<Rightarrow> fault + 'a bstate_scheme" where
  "bpin s b = bindr (acquire_bcache s) (\<lambda>s1. release_bcache (upd_buf s1 b (\<lambda>x. x\<lparr>b_refcnt := b_refcnt x + 1\<rparr>)))"

definition bunpin :: "'a bstate_scheme \<Rightarrow> nat \<Rightarrow> fault + 'a bstate_scheme" where
  "bunpin s b = bindr (acquire_bcache s) (\<lambda>s1. release_bcache (upd_buf s1 b (\<lambda>x. x\<lparr>b_refcnt := b_refcnt x - 1\<rparr>)))"

end
