(* ===== verification/Log.thy ===== *)
theory Log
  imports Bio
begin

text \<open>
  \<^verbatim>\<open>kernel/log.c\<close>: the redo log. Block numbers that the code keeps as \<open>int\<close> are 32-bit words here.
  The header block is the bytes of \<open>struct logheader\<close>: the count and the block numbers, each four
  bytes, little endian.
\<close>

section \<open>Words in a block\<close>

definition ld32 :: "u8 list \<Rightarrow> nat \<Rightarrow> u32" where
  "ld32 bs k = ucast (bs ! k) OR push_bit 8 (ucast (bs ! (k + 1))) OR push_bit 16 (ucast (bs ! (k + 2))) OR push_bit 24 (ucast (bs ! (k + 3)))"

definition st32 :: "u8 list \<Rightarrow> nat \<Rightarrow> u32 \<Rightarrow> u8 list" where
  "st32 bs k v = bs[k := ucast v, k + 1 := ucast (drop_bit 8 v), k + 2 := ucast (drop_bit 16 v), k + 3 := ucast (drop_bit 24 v)]"

section \<open>State\<close>

definition MAXOPBLOCKS :: int where [simp]: "MAXOPBLOCKS = 10"
definition LOGSIZE :: int where [simp]: "LOGSIZE = MAXOPBLOCKS * 3"

text \<open>\<open>lh_block\<close> is the whole array; only the first \<open>lh_n\<close> entries are in use.\<close>

record logst =
  l_lock :: spinlock
  l_start :: u32
  l_size :: int
  outstanding :: int
  committing :: int
  l_dev :: u32
  lh_n :: nat
  lh_block :: "u32 list"

record lstate = bstate +
  log :: logst

definition acquire_log :: "'a lstate_scheme \<Rightarrow> fault + 'a lstate_scheme" where
  "acquire_log s = bindr (acquire (l_lock (log s)) (hart s)) (\<lambda>(l, c). Inr (s\<lparr>log := (log s)\<lparr>l_lock := l\<rparr>, hart := c\<rparr>))"

definition release_log :: "'a lstate_scheme \<Rightarrow> fault + 'a lstate_scheme" where
  "release_log s = bindr (release (l_lock (log s)) (hart s)) (\<lambda>(l, c). Inr (s\<lparr>log := (log s)\<lparr>l_lock := l\<rparr>, hart := c\<rparr>))"

section \<open>Installing and the header\<close>

text \<open>The loops run over \<open>tail\<close>; \<open>k\<close> iterations are left.\<close>

fun install_loop :: "nat \<Rightarrow> nat \<Rightarrow> 'a lstate_scheme \<Rightarrow> bool \<Rightarrow> fault + 'a lstate_scheme" where
  "install_loop 0 t s recovering = Inr s"
| "install_loop (Suc k) t s recovering =
     bindr (bread s (l_dev (log s)) (l_start (log s) + of_nat t + 1)) (\<lambda>(s1, lbuf).
     bindr (bread s1 (l_dev (log s1)) (lh_block (log s1) ! t)) (\<lambda>(s2, dbuf).
     let s3 = upd_buf s2 dbuf (\<lambda>x. x\<lparr>b_data := b_data (bufs s2 ! lbuf)\<rparr>)
     in bindr (bwrite s3 dbuf) (\<lambda>s4.
        bindr (if \<not> recovering then bunpin s4 dbuf else Inr s4) (\<lambda>s5.
        bindr (brelse s5 lbuf) (\<lambda>s6.
        bindr (brelse s6 dbuf) (\<lambda>s7. install_loop k (Suc t) s7 recovering))))))"

definition install_trans :: "'a lstate_scheme \<Rightarrow> bool \<Rightarrow> fault + 'a lstate_scheme" where
  "install_trans s recovering = install_loop (lh_n (log s)) 0 s recovering"

text \<open>
  A count above \<open>LOGSIZE\<close> in the header makes the copy run past the array of the structure in
  memory. A negative count copies and installs nothing, as the count 0 does.
\<close>

definition read_head :: "'a lstate_scheme \<Rightarrow> fault + 'a lstate_scheme" where
  "read_head s =
     bindr (bread s (l_dev (log s)) (l_start (log s))) (\<lambda>(s1, b).
       let data = b_data (bufs s1 ! b); n = nat (sint (ld32 data 0))
       in if int n > LOGSIZE then Inl (Overrun ''log.lh.block'')
          else let s2 = s1\<lparr>log := (log s1)\<lparr>lh_n := n,
                         lh_block := map (\<lambda>i. ld32 data (4 + 4 * i)) [0..<n] @ drop n (lh_block (log s1))\<rparr>\<rparr>
               in brelse s2 b)"

definition write_head :: "'a lstate_scheme \<Rightarrow> fault + 'a lstate_scheme" where
  "write_head s =
     bindr (bread s (l_dev (log s)) (l_start (log s))) (\<lambda>(s1, b).
       let n = lh_n (log s1);
           data = fold (\<lambda>i d. st32 d (4 + 4 * i) (lh_block (log s1) ! i)) [0..<n] (st32 (b_data (bufs s1 ! b)) 0 (of_nat n))
       in bindr (bwrite (upd_buf s1 b (\<lambda>x. x\<lparr>b_data := data\<rparr>)) b) (\<lambda>s2. brelse s2 b))"

definition recover_from_log :: "'a lstate_scheme \<Rightarrow> fault + 'a lstate_scheme" where
  "recover_from_log s =
     bindr (read_head s) (\<lambda>s1.
     bindr (install_trans s1 True) (\<lambda>s2. write_head (s2\<lparr>log := (log s2)\<lparr>lh_n := 0\<rparr>\<rparr>)))"

text \<open>The check of the header's size against \<open>BSIZE\<close> is a constant: 124 bytes against 1024.\<close>

definition initlog :: "'a lstate_scheme \<Rightarrow> u32 \<Rightarrow> u32 \<Rightarrow> u32 \<Rightarrow> fault + 'a lstate_scheme" where
  "initlog s dev logstart nlog =
     recover_from_log (s\<lparr>log := (log s)\<lparr>l_lock := initlock (l_lock (log s)) ''log'', l_start := logstart,
       l_size := sint nlog, l_dev := dev\<rparr>\<rparr>)"

section \<open>Transactions\<close>

definition begin_op :: "'a lstate_scheme \<Rightarrow> fault + 'a lstate_scheme" where
  "begin_op s =
     bindr (acquire_log s) (\<lambda>s1.
       if committing (log s1) \<noteq> 0 then Inl (Blocked ''log'')
       else if int (lh_n (log s1)) + (outstanding (log s1) + 1) * MAXOPBLOCKS > LOGSIZE then Inl (Blocked ''log'')
       else release_log (s1\<lparr>log := (log s1)\<lparr>outstanding := outstanding (log s1) + 1\<rparr>\<rparr>))"

fun write_log_loop :: "nat \<Rightarrow> nat \<Rightarrow> 'a lstate_scheme \<Rightarrow> fault + 'a lstate_scheme" where
  "write_log_loop 0 t s = Inr s"
| "write_log_loop (Suc k) t s =
     bindr (bread s (l_dev (log s)) (l_start (log s) + of_nat t + 1)) (\<lambda>(s1, tob).
     bindr (bread s1 (l_dev (log s1)) (lh_block (log s1) ! t)) (\<lambda>(s2, fromb).
     let s3 = upd_buf s2 tob (\<lambda>x. x\<lparr>b_data := b_data (bufs s2 ! fromb)\<rparr>)
     in bindr (bwrite s3 tob) (\<lambda>s4.
        bindr (brelse s4 fromb) (\<lambda>s5.
        bindr (brelse s5 tob) (\<lambda>s6. write_log_loop k (Suc t) s6)))))"

definition write_log :: "'a lstate_scheme \<Rightarrow> fault + 'a lstate_scheme" where
  "write_log s = write_log_loop (lh_n (log s)) 0 s"

definition commit :: "'a lstate_scheme \<Rightarrow> fault + 'a lstate_scheme" where
  "commit s =
     (if lh_n (log s) > 0 then
        bindr (write_log s) (\<lambda>s1.
        bindr (write_head s1) (\<lambda>s2.
        bindr (install_trans s2 False) (\<lambda>s3.
          write_head (s3\<lparr>log := (log s3)\<lparr>lh_n := 0\<rparr>\<rparr>))))
      else Inr s)"

definition end_op :: "'a lstate_scheme \<Rightarrow> fault + 'a lstate_scheme" where
  "end_op s =
     bindr (acquire_log s) (\<lambda>s1.
       let s2 = s1\<lparr>log := (log s1)\<lparr>outstanding := outstanding (log s1) - 1\<rparr>\<rparr>
       in if committing (log s2) \<noteq> 0 then Inl (Panic ''log.committing'')
          else if outstanding (log s2) = 0 then
            bindr (release_log (s2\<lparr>log := (log s2)\<lparr>committing := 1\<rparr>\<rparr>)) (\<lambda>s3.
            bindr (commit s3) (\<lambda>s4.
            bindr (acquire_log s4) (\<lambda>s5.
            bindr (wakeup (s5\<lparr>log := (log s5)\<lparr>committing := 0\<rparr>\<rparr>) WLog) (\<lambda>s6. release_log s6))))
          else bindr (wakeup s2 WLog) (\<lambda>s3. release_log s3))"

text \<open>The position of a block among the logged ones, or the count.\<close>

fun log_index :: "u32 list \<Rightarrow> nat \<Rightarrow> nat \<Rightarrow> u32 \<Rightarrow> nat" where
  "log_index bl 0 i b = i"
| "log_index bl (Suc k) i b = (if bl ! i = b then i else log_index bl k (Suc i) b)"

definition log_write :: "'a lstate_scheme \<Rightarrow> nat \<Rightarrow> fault + 'a lstate_scheme" where
  "log_write s b =
     bindr (acquire_log s) (\<lambda>s1.
       let l = log s1
       in if int (lh_n l) \<ge> LOGSIZE \<or> int (lh_n l) \<ge> l_size l - 1 then Inl (Panic ''too big a transaction'')
          else if outstanding l < 1 then Inl (Panic ''log_write outside of trans'')
          else let i = log_index (lh_block l) (lh_n l) 0 (b_blockno (bufs s1 ! b));
                   s2 = s1\<lparr>log := l\<lparr>lh_block := (lh_block l)[i := b_blockno (bufs s1 ! b)]\<rparr>\<rparr>
               in if i = lh_n l
                  then bindr (bpin s2 b) (\<lambda>s3. release_log (s3\<lparr>log := (log s3)\<lparr>lh_n := lh_n (log s3) + 1\<rparr>\<rparr>))
                  else release_log s2)"

end
