(* ===== verification/Fs.thy ===== *)
theory Fs
  imports Log
begin

text \<open>
  \<^verbatim>\<open>kernel/fs.c\<close> and \<^verbatim>\<open>kernel/fs.h\<close>: blocks, inodes, file contents, directories and path names.
  A \<open>struct inode *\<close> is an index of the inode table. On-disk structures are bytes of a block.
\<close>

section \<open>State\<close>

definition ROOTINO :: u32 where [simp]: "ROOTINO = 1"
definition ROOTDEV :: u32 where [simp]: "ROOTDEV = 1"
definition NINODE :: nat where [simp]: "NINODE = 50"
definition FSMAGIC :: u32 where [simp]: "FSMAGIC = 0x10203040"
definition NDIRECT :: nat where [simp]: "NDIRECT = 12"
definition NINDIRECT :: nat where [simp]: "NINDIRECT = BSIZE div 4"
definition MAXFILE :: nat where [simp]: "MAXFILE = NDIRECT + NINDIRECT"
definition IPB :: nat where [simp]: "IPB = BSIZE div 64"
definition BPB :: nat where [simp]: "BPB = BSIZE * 8"
definition DIRSIZ :: nat where [simp]: "DIRSIZ = 14"
definition T_DIR :: u16 where [simp]: "T_DIR = 1"
definition T_FILE :: u16 where [simp]: "T_FILE = 2"
definition T_DEVICE :: u16 where [simp]: "T_DEVICE = 3"

record superblock =
  sb_magic :: u32
  sb_size :: u32
  sb_nblocks :: u32
  sb_ninodes :: u32
  sb_nlog :: u32
  sb_logstart :: u32
  sb_inodestart :: u32
  sb_bmapstart :: u32

record inode =
  i_dev :: u32
  i_inum :: u32
  i_ref :: int
  i_lock :: sleeplock
  i_valid :: int
  i_type :: u16
  i_major :: u16
  i_minor :: u16
  i_nlink :: u16
  i_size :: u32
  i_addrs :: "u32 list"

record istate = lstate +
  sb :: superblock
  it_lock :: spinlock
  inodes :: "inode list"

definition upd_inode :: "'a istate_scheme \<Rightarrow> nat \<Rightarrow> (inode \<Rightarrow> inode) \<Rightarrow> 'a istate_scheme" where
  "upd_inode s ip f = s\<lparr>inodes := (inodes s)[ip := f (inodes s ! ip)]\<rparr>"

definition set_data :: "'a bstate_scheme \<Rightarrow> nat \<Rightarrow> u8 list \<Rightarrow> 'a bstate_scheme" where
  "set_data s b d = upd_buf s b (\<lambda>x. x\<lparr>b_data := d\<rparr>)"

definition acquire_itable :: "'a istate_scheme \<Rightarrow> fault + 'a istate_scheme" where
  "acquire_itable s = bindr (acquire (it_lock s) (hart s)) (\<lambda>(l, c). Inr (s\<lparr>it_lock := l, hart := c\<rparr>))"

definition release_itable :: "'a istate_scheme \<Rightarrow> fault + 'a istate_scheme" where
  "release_itable s = bindr (release (it_lock s) (hart s)) (\<lambda>(l, c). Inr (s\<lparr>it_lock := l, hart := c\<rparr>))"

definition IBLOCK :: "u32 \<Rightarrow> superblock \<Rightarrow> u32" where
  "IBLOCK i sp = i div of_nat IPB + sb_inodestart sp"

definition BBLOCK :: "u32 \<Rightarrow> superblock \<Rightarrow> u32" where
  "BBLOCK b sp = b div of_nat BPB + sb_bmapstart sp"

section \<open>The super block\<close>

definition readsb :: "'a istate_scheme \<Rightarrow> u32 \<Rightarrow> fault + 'a istate_scheme" where
  "readsb s dev =
     bindr (bread s dev 1) (\<lambda>(s1, bp).
       let d = b_data (bufs s1 ! bp)
       in brelse (s1\<lparr>sb := \<lparr>sb_magic = ld32 d 0, sb_size = ld32 d 4, sb_nblocks = ld32 d 8, sb_ninodes = ld32 d 12,
            sb_nlog = ld32 d 16, sb_logstart = ld32 d 20, sb_inodestart = ld32 d 24, sb_bmapstart = ld32 d 28\<rparr>\<rparr>) bp)"

definition fsinit :: "'a istate_scheme \<Rightarrow> u32 \<Rightarrow> fault + 'a istate_scheme" where
  "fsinit s dev =
     bindr (readsb s dev) (\<lambda>s1.
       if sb_magic (sb s1) \<noteq> FSMAGIC then Inl (Panic ''invalid file system'')
       else initlog s1 dev (sb_logstart (sb s1)) (sb_nlog (sb s1)))"

section \<open>Blocks\<close>

definition bzero :: "'a lstate_scheme \<Rightarrow> u32 \<Rightarrow> u32 \<Rightarrow> fault + 'a lstate_scheme" where
  "bzero s dev bno =
     bindr (bread s dev bno) (\<lambda>(s1, bp).
     bindr (log_write (set_data s1 bp (replicate BSIZE 0)) bp) (\<lambda>s2. brelse s2 bp))"

text \<open>The mask \<open>1 << (bi % 8)\<close> and the test, setting and clearing of bit \<open>bi\<close> of a bitmap block.\<close>

definition bmask :: "nat \<Rightarrow> u8" where
  "bmask bi = push_bit (bi mod 8) 1"

definition bit_free :: "u8 list \<Rightarrow> nat \<Rightarrow> bool" where
  "bit_free d bi \<longleftrightarrow> d ! (bi div 8) AND bmask bi = 0"

text \<open>\<open>n\<close> iterations of the outer loop are left, at block \<open>b\<close>.\<close>

fun balloc_loop :: "nat \<Rightarrow> 'a istate_scheme \<Rightarrow> u32 \<Rightarrow> nat \<Rightarrow> fault + 'a istate_scheme \<times> u32" where
  "balloc_loop 0 s dev b = Inr (s, 0)"
| "balloc_loop (Suc n) s dev b =
     bindr (bread s dev (BBLOCK (of_nat b) (sb s))) (\<lambda>(s1, bp).
       let d = b_data (bufs s1 ! bp)
       in case List.find (bit_free d) [0..<min BPB (unat (sb_size (sb s1)) - b)] of
            Some bi \<Rightarrow>
              bindr (log_write (set_data s1 bp (d[bi div 8 := d ! (bi div 8) OR bmask bi])) bp) (\<lambda>s2.
              bindr (brelse s2 bp) (\<lambda>s3.
              bindr (bzero s3 dev (of_nat (b + bi))) (\<lambda>s4. Inr (s4, of_nat (b + bi)))))
          | None \<Rightarrow> bindr (brelse s1 bp) (\<lambda>s2. balloc_loop n s2 dev (b + BPB)))"

definition balloc :: "'a istate_scheme \<Rightarrow> u32 \<Rightarrow> fault + 'a istate_scheme \<times> u32" where
  "balloc s dev = balloc_loop ((unat (sb_size (sb s)) + (BPB - 1)) div BPB) s dev 0"

definition bfree :: "'a istate_scheme \<Rightarrow> u32 \<Rightarrow> u32 \<Rightarrow> fault + 'a istate_scheme" where
  "bfree s dev b =
     bindr (bread s dev (BBLOCK b (sb s))) (\<lambda>(s1, bp).
       let d = b_data (bufs s1 ! bp); bi = unat b mod BPB
       in if bit_free d bi then Inl (Panic ''freeing free block'')
          else bindr (log_write (set_data s1 bp (d[bi div 8 := d ! (bi div 8) AND NOT (bmask bi)])) bp) (\<lambda>s2. brelse s2 bp))"

section \<open>Inodes\<close>

definition ld16 :: "u8 list \<Rightarrow> nat \<Rightarrow> u16" where
  "ld16 bs k = ucast (bs ! k) OR push_bit 8 (ucast (bs ! (k + 1)))"

definition st16 :: "u8 list \<Rightarrow> nat \<Rightarrow> u16 \<Rightarrow> u8 list" where
  "st16 bs k v = bs[k := ucast v, k + 1 := ucast (drop_bit 8 v)]"

text \<open>The place of an inode in its block, and the copies between it and the table entry.\<close>

definition dip_off :: "u32 \<Rightarrow> nat" where
  "dip_off inum = 64 * (unat inum mod IPB)"

definition inode_to_disk :: "inode \<Rightarrow> u8 list \<Rightarrow> nat \<Rightarrow> u8 list" where
  "inode_to_disk ip d k =
     fold (\<lambda>j d. st32 d (k + 12 + 4 * j) (i_addrs ip ! j)) [0..<NDIRECT + 1]
       (st32 (st16 (st16 (st16 (st16 d k (i_type ip)) (k + 2) (i_major ip)) (k + 4) (i_minor ip)) (k + 6) (i_nlink ip))
         (k + 8) (i_size ip))"

definition inode_from_disk :: "inode \<Rightarrow> u8 list \<Rightarrow> nat \<Rightarrow> inode" where
  "inode_from_disk ip d k = ip\<lparr>i_type := ld16 d k, i_major := ld16 d (k + 2), i_minor := ld16 d (k + 4),
     i_nlink := ld16 d (k + 6), i_size := ld32 d (k + 8), i_addrs := map (\<lambda>j. ld32 d (k + 12 + 4 * j)) [0..<NDIRECT + 1]\<rparr>"

definition iinit :: "'a istate_scheme \<Rightarrow> 'a istate_scheme" where
  "iinit s = s\<lparr>it_lock := initlock (it_lock s) ''itable'',
     inodes := map (\<lambda>i. (inodes s ! i)\<lparr>i_lock := initsleeplock (i_lock (inodes s ! i)) ''inode''\<rparr>) [0..<NINODE]\<rparr>"

definition iget :: "'a istate_scheme \<Rightarrow> u32 \<Rightarrow> u32 \<Rightarrow> fault + 'a istate_scheme \<times> nat" where
  "iget s dev inum =
     bindr (acquire_itable s) (\<lambda>s1.
       case List.find (\<lambda>i. let ip = inodes s1 ! i in i_ref ip > 0 \<and> i_dev ip = dev \<and> i_inum ip = inum) [0..<NINODE] of
         Some i \<Rightarrow> bindr (release_itable (upd_inode s1 i (\<lambda>ip. ip\<lparr>i_ref := i_ref ip + 1\<rparr>))) (\<lambda>s2. Inr (s2, i))
       | None \<Rightarrow>
           (case List.find (\<lambda>i. i_ref (inodes s1 ! i) = 0) [0..<NINODE] of
              None \<Rightarrow> Inl (Panic ''iget: no inodes'')
            | Some i \<Rightarrow>
                bindr (release_itable (upd_inode s1 i (\<lambda>ip. ip\<lparr>i_dev := dev, i_inum := inum, i_ref := 1, i_valid := 0\<rparr>))) (\<lambda>s2.
                  Inr (s2, i))))"

text \<open>\<open>n\<close> inodes are left to look at, from \<open>inum\<close> on. The result 0 of the code is \<open>None\<close>.\<close>

fun ialloc_loop :: "nat \<Rightarrow> 'a istate_scheme \<Rightarrow> u32 \<Rightarrow> u16 \<Rightarrow> u32 \<Rightarrow> fault + 'a istate_scheme \<times> nat option" where
  "ialloc_loop 0 s dev type inum = Inr (s, None)"
| "ialloc_loop (Suc n) s dev type inum =
     bindr (bread s dev (IBLOCK inum (sb s))) (\<lambda>(s1, bp).
       let d = b_data (bufs s1 ! bp); k = dip_off inum
       in if ld16 d k = 0 then
            let d1 = st16 (take k d @ replicate 64 0 @ drop (k + 64) d) k type
            in bindr (log_write (set_data s1 bp d1) bp) (\<lambda>s2.
               bindr (brelse s2 bp) (\<lambda>s3.
               bindr (iget s3 dev inum) (\<lambda>(s4, ip). Inr (s4, Some ip))))
          else bindr (brelse s1 bp) (\<lambda>s2. ialloc_loop n s2 dev type (inum + 1)))"

definition ialloc :: "'a istate_scheme \<Rightarrow> u32 \<Rightarrow> u16 \<Rightarrow> fault + 'a istate_scheme \<times> nat option" where
  "ialloc s dev type = ialloc_loop (unat (sb_ninodes (sb s)) - 1) s dev type 1"

definition iupdate :: "'a istate_scheme \<Rightarrow> nat \<Rightarrow> fault + 'a istate_scheme" where
  "iupdate s ip =
     (let i = inodes s ! ip
      in bindr (bread s (i_dev i) (IBLOCK (i_inum i) (sb s))) (\<lambda>(s1, bp).
         let i1 = inodes s1 ! ip; d = inode_to_disk i1 (b_data (bufs s1 ! bp)) (dip_off (i_inum i1))
         in bindr (log_write (set_data s1 bp d) bp) (\<lambda>s2. brelse s2 bp)))"

definition idup :: "'a istate_scheme \<Rightarrow> nat \<Rightarrow> fault + 'a istate_scheme \<times> nat" where
  "idup s ip =
     bindr (acquire_itable s) (\<lambda>s1.
     bindr (release_itable (upd_inode s1 ip (\<lambda>i. i\<lparr>i_ref := i_ref i + 1\<rparr>))) (\<lambda>s2. Inr (s2, ip)))"

definition acquiresleep_inode :: "'a istate_scheme \<Rightarrow> nat \<Rightarrow> fault + 'a istate_scheme" where
  "acquiresleep_inode s ip =
     bindr (acquiresleep s (i_lock (inodes s ! ip))) (\<lambda>(s1, lk). Inr (upd_inode s1 ip (\<lambda>i. i\<lparr>i_lock := lk\<rparr>)))"

text \<open>Channels of inode locks come after those of the buffers.\<close>

definition releasesleep_inode :: "'a istate_scheme \<Rightarrow> nat \<Rightarrow> fault + 'a istate_scheme" where
  "releasesleep_inode s ip =
     bindr (releasesleep s (WLock (NBUF + ip)) (i_lock (inodes s ! ip))) (\<lambda>(s1, lk). Inr (upd_inode s1 ip (\<lambda>i. i\<lparr>i_lock := lk\<rparr>)))"

definition holdingsleep_inode :: "'a istate_scheme \<Rightarrow> nat \<Rightarrow> fault + 'a istate_scheme \<times> bool" where
  "holdingsleep_inode s ip =
     bindr (holdingsleep s (i_lock (inodes s ! ip))) (\<lambda>(s1, lk, r). Inr (upd_inode s1 ip (\<lambda>i. i\<lparr>i_lock := lk\<rparr>), r))"

definition ilock :: "'a istate_scheme \<Rightarrow> nat \<Rightarrow> fault + 'a istate_scheme" where
  "ilock s ip =
     (if i_ref (inodes s ! ip) < 1 then Inl (Panic ''ilock'')
      else bindr (acquiresleep_inode s ip) (\<lambda>s1.
        if i_valid (inodes s1 ! ip) = 0 then
          bindr (bread s1 (i_dev (inodes s1 ! ip)) (IBLOCK (i_inum (inodes s1 ! ip)) (sb s1))) (\<lambda>(s2, bp).
          let s3 = upd_inode s2 ip (\<lambda>i. inode_from_disk i (b_data (bufs s2 ! bp)) (dip_off (i_inum i)))
          in bindr (brelse s3 bp) (\<lambda>s4.
             let s5 = upd_inode s4 ip (\<lambda>i. i\<lparr>i_valid := 1\<rparr>)
             in if i_type (inodes s5 ! ip) = 0 then Inl (Panic ''ilock: no type'') else Inr s5))
        else Inr s1))"

definition iunlock :: "'a istate_scheme \<Rightarrow> nat \<Rightarrow> fault + 'a istate_scheme" where
  "iunlock s ip =
     bindr (holdingsleep_inode s ip) (\<lambda>(s1, h).
       if \<not> h \<or> i_ref (inodes s1 ! ip) < 1 then Inl (Panic ''iunlock'') else releasesleep_inode s1 ip)"

section \<open>File contents\<close>

definition bmap :: "'a istate_scheme \<Rightarrow> nat \<Rightarrow> nat \<Rightarrow> fault + 'a istate_scheme \<times> u32" where
  "bmap s ip bn =
     (let dev = i_dev (inodes s ! ip)
      in if bn < NDIRECT then
           let addr = i_addrs (inodes s ! ip) ! bn
           in if addr = 0 then
                bindr (balloc s dev) (\<lambda>(s1, addr).
                  if addr = 0 then Inr (s1, 0)
                  else Inr (upd_inode s1 ip (\<lambda>i. i\<lparr>i_addrs := (i_addrs i)[bn := addr]\<rparr>), addr))
              else Inr (s, addr)
         else if bn - NDIRECT < NINDIRECT then
           let bn1 = bn - NDIRECT; addr = i_addrs (inodes s ! ip) ! NDIRECT
           in bindr (if addr = 0 then
                       bindr (balloc s dev) (\<lambda>(s1, addr).
                         if addr = 0 then Inr (s1, 0)
                         else Inr (upd_inode s1 ip (\<lambda>i. i\<lparr>i_addrs := (i_addrs i)[NDIRECT := addr]\<rparr>), addr))
                     else Inr (s, addr)) (\<lambda>(s2, addr).
                if addr = 0 then Inr (s2, 0)
                else bindr (bread s2 dev addr) (\<lambda>(s3, bp).
                  let addr1 = ld32 (b_data (bufs s3 ! bp)) (4 * bn1)
                  in bindr (if addr1 = 0 then
                              bindr (balloc s3 dev) (\<lambda>(s4, addr2).
                                if addr2 \<noteq> 0 then
                                  bindr (log_write (set_data s4 bp (st32 (b_data (bufs s4 ! bp)) (4 * bn1) addr2)) bp) (\<lambda>s5. Inr (s5, addr2))
                                else Inr (s4, addr2))
                            else Inr (s3, addr1)) (\<lambda>(s6, addr3).
                     bindr (brelse s6 bp) (\<lambda>s7. Inr (s7, addr3)))))
         else Inl (Panic ''bmap: out of range''))"

fun itrunc_direct :: "nat \<Rightarrow> nat \<Rightarrow> 'a istate_scheme \<Rightarrow> nat \<Rightarrow> fault + 'a istate_scheme" where
  "itrunc_direct 0 i s ip = Inr s"
| "itrunc_direct (Suc n) i s ip =
     (if i_addrs (inodes s ! ip) ! i \<noteq> 0 then
        bindr (bfree s (i_dev (inodes s ! ip)) (i_addrs (inodes s ! ip) ! i)) (\<lambda>s1.
          itrunc_direct n (Suc i) (upd_inode s1 ip (\<lambda>x. x\<lparr>i_addrs := (i_addrs x)[i := 0]\<rparr>)) ip)
      else itrunc_direct n (Suc i) s ip)"

fun itrunc_indirect :: "nat \<Rightarrow> nat \<Rightarrow> 'a istate_scheme \<Rightarrow> nat \<Rightarrow> nat \<Rightarrow> fault + 'a istate_scheme" where
  "itrunc_indirect 0 j s ip bp = Inr s"
| "itrunc_indirect (Suc n) j s ip bp =
     (let a = ld32 (b_data (bufs s ! bp)) (4 * j)
      in if a \<noteq> 0 then bindr (bfree s (i_dev (inodes s ! ip)) a) (\<lambda>s1. itrunc_indirect n (Suc j) s1 ip bp)
         else itrunc_indirect n (Suc j) s ip bp)"

definition itrunc :: "'a istate_scheme \<Rightarrow> nat \<Rightarrow> fault + 'a istate_scheme" where
  "itrunc s ip =
     bindr (itrunc_direct NDIRECT 0 s ip) (\<lambda>s1.
     bindr (if i_addrs (inodes s1 ! ip) ! NDIRECT \<noteq> 0 then
              bindr (bread s1 (i_dev (inodes s1 ! ip)) (i_addrs (inodes s1 ! ip) ! NDIRECT)) (\<lambda>(s2, bp).
              bindr (itrunc_indirect NINDIRECT 0 s2 ip bp) (\<lambda>s3.
              bindr (brelse s3 bp) (\<lambda>s4.
              bindr (bfree s4 (i_dev (inodes s4 ! ip)) (i_addrs (inodes s4 ! ip) ! NDIRECT)) (\<lambda>s5.
                Inr (upd_inode s5 ip (\<lambda>x. x\<lparr>i_addrs := (i_addrs x)[NDIRECT := 0]\<rparr>))))))
            else Inr s1) (\<lambda>s6. iupdate (upd_inode s6 ip (\<lambda>x. x\<lparr>i_size := 0\<rparr>)) ip))"

definition iput :: "'a istate_scheme \<Rightarrow> nat \<Rightarrow> fault + 'a istate_scheme" where
  "iput s ip =
     bindr (acquire_itable s) (\<lambda>s1.
     bindr (let i = inodes s1 ! ip
            in if i_ref i = 1 \<and> i_valid i \<noteq> 0 \<and> i_nlink i = 0 then
                 bindr (acquiresleep_inode s1 ip) (\<lambda>s2.
                 bindr (release_itable s2) (\<lambda>s3.
                 bindr (itrunc s3 ip) (\<lambda>s4.
                 bindr (iupdate (upd_inode s4 ip (\<lambda>x. x\<lparr>i_type := 0\<rparr>)) ip) (\<lambda>s5.
                 bindr (releasesleep_inode (upd_inode s5 ip (\<lambda>x. x\<lparr>i_valid := 0\<rparr>)) ip) (\<lambda>s6. acquire_itable s6)))))
               else Inr s1) (\<lambda>s7.
       release_itable (upd_inode s7 ip (\<lambda>x. x\<lparr>i_ref := i_ref x - 1\<rparr>))))"

definition iunlockput :: "'a istate_scheme \<Rightarrow> nat \<Rightarrow> fault + 'a istate_scheme" where
  "iunlockput s ip = bindr (iunlock s ip) (\<lambda>s1. iput s1 ip)"

text \<open>
  The kernel-side buffer of a transfer is a user address, a kernel address, or a local variable of the
  caller, whose bytes are then passed as values.
\<close>

datatype copydst = ToUser u64 | ToKernel u64 | ToLocal
datatype copysrc = FromUser u64 | FromKernel u64 | FromLocal "u8 list"

fun dst_copyout :: "'a pstate_scheme \<Rightarrow> copydst \<Rightarrow> u8 list \<Rightarrow> fault + 'a pstate_scheme \<times> int \<times> u8 list" where
  "dst_copyout s (ToUser a) bs =
     bindr (either_copyout s True a (\<lambda>i. bs ! i) (of_nat (length bs))) (\<lambda>(s1, r). Inr (s1, r, []))"
| "dst_copyout s (ToKernel a) bs =
     bindr (either_copyout s False a (\<lambda>i. bs ! i) (of_nat (length bs))) (\<lambda>(s1, r). Inr (s1, r, []))"
| "dst_copyout s ToLocal bs = Inr (s, 0, bs)"

fun src_copyin :: "'a pstate_scheme \<Rightarrow> copysrc \<Rightarrow> nat \<Rightarrow> fault + 'a pstate_scheme \<times> int \<times> u8 list" where
  "src_copyin s (FromUser a) n = either_copyin s True a (of_nat n)"
| "src_copyin s (FromKernel a) n = either_copyin s False a (of_nat n)"
| "src_copyin s (FromLocal bs) n = Inr (s, 0, take n bs)"

fun dst_next :: "copydst \<Rightarrow> nat \<Rightarrow> copydst" where
  "dst_next (ToUser a) n = ToUser (a + of_nat n)"
| "dst_next (ToKernel a) n = ToKernel (a + of_nat n)"
| "dst_next ToLocal n = ToLocal"

fun src_next :: "copysrc \<Rightarrow> nat \<Rightarrow> copysrc" where
  "src_next (FromUser a) n = FromUser (a + of_nat n)"
| "src_next (FromKernel a) n = FromKernel (a + of_nat n)"
| "src_next (FromLocal bs) n = FromLocal (drop n bs)"

text \<open>A \<open>struct stat\<close> is the 24 bytes of the caller's variable.\<close>

definition stati :: "inode \<Rightarrow> u8 list \<Rightarrow> u8 list" where
  "stati ip st = st32 (st32 (st16 (st16 (st32 (st32 st 0 (i_dev ip)) 4 (i_inum ip)) 8 (i_type ip)) 10 (i_nlink ip))
     16 (i_size ip)) 20 0"

text \<open>
  The loops of \<open>readi\<close> and \<open>writei\<close> with \<open>n - tot\<close> bytes left; the offsets fit 32 bits by the tests before
  the loops. \<open>readi\<close> returns the bytes for a local buffer as well.
\<close>

definition block_part :: "nat \<Rightarrow> nat \<Rightarrow> nat" where
  "block_part left off = min left (BSIZE - off mod BSIZE)"

lemma block_part_pos: "0 < left \<Longrightarrow> 0 < block_part left off"
  by (simp add: block_part_def)

function readi_loop :: "'a istate_scheme \<Rightarrow> nat \<Rightarrow> copydst \<Rightarrow> nat \<Rightarrow> nat \<Rightarrow> nat \<Rightarrow> u8 list \<Rightarrow> fault + 'a istate_scheme \<times> int \<times> u8 list" where
  "readi_loop s ip dst off left tot acc =
     (if left = 0 then Inr (s, int tot, acc)
      else bindr (bmap s ip (off div BSIZE)) (\<lambda>(s1, addr).
        if addr = 0 then Inr (s1, int tot, acc)
        else bindr (bread s1 (i_dev (inodes s1 ! ip)) addr) (\<lambda>(s2, bp).
          let m = block_part left off
          in bindr (dst_copyout s2 dst (take m (drop (off mod BSIZE) (b_data (bufs s2 ! bp))))) (\<lambda>(s3, r, bs).
             bindr (brelse s3 bp) (\<lambda>s4.
               if r = -1 then Inr (s4, -1, acc)
               else readi_loop s4 ip (dst_next dst m) (off + m) (left - m) (tot + m) (acc @ bs))))))"
  by pat_completeness auto
termination
  by (relation "measure (\<lambda>(s, ip, dst, off, left, tot, acc). left)") (auto simp: block_part_pos)

declare readi_loop.simps [simp del]

definition readi :: "'a istate_scheme \<Rightarrow> nat \<Rightarrow> copydst \<Rightarrow> u32 \<Rightarrow> u32 \<Rightarrow> fault + 'a istate_scheme \<times> int \<times> u8 list" where
  "readi s ip dst off n =
     (let isz = i_size (inodes s ! ip)
      in if off > isz \<or> off + n < off then Inr (s, 0, [])
         else readi_loop s ip dst (unat off) (unat (if off + n > isz then isz - off else n)) 0 [])"

function writei_loop :: "'a istate_scheme \<Rightarrow> nat \<Rightarrow> copysrc \<Rightarrow> nat \<Rightarrow> nat \<Rightarrow> nat \<Rightarrow> fault + 'a istate_scheme \<times> nat \<times> nat" where
  "writei_loop s ip src off left tot =
     (if left = 0 then Inr (s, off, tot)
      else bindr (bmap s ip (off div BSIZE)) (\<lambda>(s1, addr).
        if addr = 0 then Inr (s1, off, tot)
        else bindr (bread s1 (i_dev (inodes s1 ! ip)) addr) (\<lambda>(s2, bp).
          let m = block_part left off
          in bindr (src_copyin s2 src m) (\<lambda>(s3, r, bs).
             let d = b_data (bufs s3 ! bp); k = off mod BSIZE;
                 s4 = set_data s3 bp (take k d @ bs @ drop (k + length bs) d)
             in if r = -1 then bindr (brelse s4 bp) (\<lambda>s5. Inr (s5, off, tot))
                else bindr (log_write s4 bp) (\<lambda>s5.
                     bindr (brelse s5 bp) (\<lambda>s6.
                       writei_loop s6 ip (src_next src m) (off + m) (left - m) (tot + m)))))))"
  by pat_completeness auto
termination
  by (relation "measure (\<lambda>(s, ip, src, off, left, tot). left)") (auto simp: block_part_pos)

declare writei_loop.simps [simp del]

definition writei :: "'a istate_scheme \<Rightarrow> nat \<Rightarrow> copysrc \<Rightarrow> u32 \<Rightarrow> u32 \<Rightarrow> fault + 'a istate_scheme \<times> int" where
  "writei s ip src off n =
     (if off > i_size (inodes s ! ip) \<or> off + n < off then Inr (s, -1)
      else if off + n > of_nat (MAXFILE * BSIZE) then Inr (s, -1)
      else bindr (writei_loop s ip src (unat off) (unat n) 0) (\<lambda>(s1, off1, tot).
        let s2 = (if of_nat off1 > i_size (inodes s1 ! ip) then upd_inode s1 ip (\<lambda>i. i\<lparr>i_size := of_nat off1\<rparr>) else s1)
        in bindr (iupdate s2 ip) (\<lambda>s3. Inr (s3, int tot))))"

section \<open>Directories\<close>

text \<open>A \<open>struct dirent\<close> is 16 bytes: the inode number and a name of at most 14 bytes.\<close>

definition de_inum :: "u8 list \<Rightarrow> u16" where
  "de_inum de = ld16 de 0"

definition de_name :: "u8 list \<Rightarrow> cstr" where
  "de_name de = (\<lambda>i. de ! (2 + i))"

definition mk_dirent :: "cstr \<Rightarrow> u16 \<Rightarrow> u8 list" where
  "mk_dirent name inum = st16 (replicate 2 0) 0 inum @ map (strncpy (\<lambda>_. 0) name (int DIRSIZ)) [0..<DIRSIZ]"

definition namecmp :: "cstr \<Rightarrow> cstr \<Rightarrow> int" where
  "namecmp s t = strncmp s t DIRSIZ"

text \<open>Number of iterations of a loop over the entries of a directory; its size does not change in the loop.\<close>

definition dirents :: "'a istate_scheme \<Rightarrow> nat \<Rightarrow> nat" where
  "dirents s dp = (unat (i_size (inodes s ! dp)) + 15) div 16"

fun dirlookup_loop :: "nat \<Rightarrow> 'a istate_scheme \<Rightarrow> nat \<Rightarrow> cstr \<Rightarrow> u32 \<Rightarrow> fault + 'a istate_scheme \<times> (nat \<times> u32) option" where
  "dirlookup_loop 0 s dp name off = Inr (s, None)"
| "dirlookup_loop (Suc n) s dp name off =
     bindr (readi s dp ToLocal off 16) (\<lambda>(s1, r, de).
       if r \<noteq> 16 then Inl (Panic ''dirlookup read'')
       else if de_inum de = 0 then dirlookup_loop n s1 dp name (off + 16)
       else if namecmp name (de_name de) = 0 then
         bindr (iget s1 (i_dev (inodes s1 ! dp)) (ucast (de_inum de))) (\<lambda>(s2, ip). Inr (s2, Some (ip, off)))
       else dirlookup_loop n s1 dp name (off + 16))"

definition dirlookup :: "'a istate_scheme \<Rightarrow> nat \<Rightarrow> cstr \<Rightarrow> fault + 'a istate_scheme \<times> (nat \<times> u32) option" where
  "dirlookup s dp name =
     (if i_type (inodes s ! dp) \<noteq> T_DIR then Inl (Panic ''dirlookup not DIR'')
      else dirlookup_loop (dirents s dp) s dp name 0)"

fun dirlink_slot :: "nat \<Rightarrow> 'a istate_scheme \<Rightarrow> nat \<Rightarrow> u32 \<Rightarrow> fault + 'a istate_scheme \<times> u32" where
  "dirlink_slot 0 s dp off = Inr (s, off)"
| "dirlink_slot (Suc n) s dp off =
     bindr (readi s dp ToLocal off 16) (\<lambda>(s1, r, de).
       if r \<noteq> 16 then Inl (Panic ''dirlink read'')
       else if de_inum de = 0 then Inr (s1, off)
       else dirlink_slot n s1 dp (off + 16))"

definition dirlink :: "'a istate_scheme \<Rightarrow> nat \<Rightarrow> cstr \<Rightarrow> u32 \<Rightarrow> fault + 'a istate_scheme \<times> int" where
  "dirlink s dp name inum =
     bindr (dirlookup s dp name) (\<lambda>(s1, r).
       case r of
         Some (ip, _) \<Rightarrow> bindr (iput s1 ip) (\<lambda>s2. Inr (s2, -1))
       | None \<Rightarrow>
           bindr (dirlink_slot (dirents s1 dp) s1 dp 0) (\<lambda>(s2, off).
           bindr (writei s2 dp (FromLocal (mk_dirent name (ucast inum))) off 16) (\<lambda>(s3, w).
             Inr (s3, if w \<noteq> 16 then -1 else 0))))"

section \<open>Path names\<close>

text \<open>A path is the list of its bytes before the NUL.\<close>

definition SLASH :: u8 where [simp]: "SLASH = 47"

definition skipelem :: "u8 list \<Rightarrow> cstr \<Rightarrow> (u8 list \<times> cstr) option" where
  "skipelem path name =
     (let p = dropWhile (\<lambda>c. c = SLASH) path
      in if p = [] then None
         else let el = takeWhile (\<lambda>c. c \<noteq> SLASH) p;
                  name1 = (if length el \<ge> DIRSIZ then fill name (take DIRSIZ el) else (fill name el)(length el := 0))
              in Some (dropWhile (\<lambda>c. c = SLASH) (dropWhile (\<lambda>c. c \<noteq> SLASH) p), name1))"

lemma skipelem_shorter: "length path' < length path" if "skipelem path name = Some (path', name')"
proof -
  let ?p = "dropWhile (\<lambda>c. c = SLASH) path"
  have ne: "?p \<noteq> []" and p': "path' = dropWhile (\<lambda>c. c = SLASH) (dropWhile (\<lambda>c. c \<noteq> SLASH) ?p)"
    using that by (simp_all add: skipelem_def Let_def split: if_splits)
  from ne obtain c r where cr: "?p = c # r"
    by (cases ?p) simp_all
  have "c \<noteq> SLASH"
    using hd_dropWhile [OF ne] unfolding cr by simp
  then have "length path' < length ?p"
    using length_dropWhile_le [of "\<lambda>c. c = SLASH" "dropWhile (\<lambda>c. c \<noteq> SLASH) r"] length_dropWhile_le [of "\<lambda>c. c \<noteq> SLASH" r]
    unfolding p' cr by simp
  then show ?thesis
    using length_dropWhile_le [of "\<lambda>c. c = SLASH" path] by simp
qed

function namex_loop :: "'a istate_scheme \<Rightarrow> nat \<Rightarrow> u8 list \<Rightarrow> bool \<Rightarrow> cstr \<Rightarrow> fault + 'a istate_scheme \<times> nat option \<times> cstr" where
  "namex_loop s ip path nameiparent name =
     (case skipelem path name of
        None \<Rightarrow> if nameiparent then bindr (iput s ip) (\<lambda>s1. Inr (s1, None, name)) else Inr (s, Some ip, name)
      | Some (path1, name1) \<Rightarrow>
          bindr (ilock s ip) (\<lambda>s1.
            if i_type (inodes s1 ! ip) \<noteq> T_DIR then bindr (iunlockput s1 ip) (\<lambda>s2. Inr (s2, None, name1))
            else if nameiparent \<and> path1 = [] then bindr (iunlock s1 ip) (\<lambda>s2. Inr (s2, Some ip, name1))
            else bindr (dirlookup s1 ip name1) (\<lambda>(s2, r).
              case r of
                None \<Rightarrow> bindr (iunlockput s2 ip) (\<lambda>s3. Inr (s3, None, name1))
              | Some (nxt, _) \<Rightarrow> bindr (iunlockput s2 ip) (\<lambda>s3. namex_loop s3 nxt path1 nameiparent name1))))"
  by pat_completeness auto
termination
  by (relation "measure (\<lambda>(s, ip, path, np, name). length path)") (auto simp: skipelem_shorter)

declare namex_loop.simps [simp del]

definition namex :: "'a istate_scheme \<Rightarrow> u8 list \<Rightarrow> bool \<Rightarrow> cstr \<Rightarrow> fault + 'a istate_scheme \<times> nat option \<times> cstr" where
  "namex s path nameiparent name =
     bindr (if path \<noteq> [] \<and> hd path = SLASH then iget s ROOTDEV ROOTINO
            else with_myproc s (\<lambda>s1 p. case cwd (procs s1 ! p) of None \<Rightarrow> Inl (BadAccess 0) | Some ip \<Rightarrow> idup s1 ip)) (\<lambda>(s2, ip).
       namex_loop s2 ip path nameiparent name)"

text \<open>The local \<open>name\<close> of \<open>namei\<close> starts with the unknown bytes \<open>name0\<close>.\<close>

definition namei :: "'a istate_scheme \<Rightarrow> u8 list \<Rightarrow> cstr \<Rightarrow> fault + 'a istate_scheme \<times> nat option" where
  "namei s path name0 = bindr (namex s path False name0) (\<lambda>(s1, ip, _). Inr (s1, ip))"

definition nameiparent :: "'a istate_scheme \<Rightarrow> u8 list \<Rightarrow> cstr \<Rightarrow> fault + 'a istate_scheme \<times> nat option \<times> cstr" where
  "nameiparent s path name = namex s path True name"

end
