(* ===== verification/Pipe.thy ===== *)
theory Pipe
  imports Fs
begin

text \<open>
  \<^verbatim>\<open>kernel/pipe.c\<close>: closing, writing and reading a pipe (\<open>pipealloc\<close> is with the file table). A
  \<open>struct pipe *\<close> is the address of the page the pipe was allocated in. A writer or reader that has to
  wait stops at the call of \<open>sleep\<close>: the result says how far it came, and the loop goes on from there when
  the process runs again.
\<close>

definition PIPESIZE :: nat where [simp]: "PIPESIZE = 512"

record pipe =
  pi_lock :: spinlock
  pi_data :: "u8 list"
  nread :: u32
  nwrite :: u32
  readopen :: bool
  writeopen :: bool

record pistate = istate +
  pipes :: "u64 \<Rightarrow> pipe"

definition upd_pipe :: "'a pistate_scheme \<Rightarrow> u64 \<Rightarrow> (pipe \<Rightarrow> pipe) \<Rightarrow> 'a pistate_scheme" where
  "upd_pipe s pi f = s\<lparr>pipes := (pipes s)(pi := f (pipes s pi))\<rparr>"

definition acquire_pipe :: "'a pistate_scheme \<Rightarrow> u64 \<Rightarrow> fault + 'a pistate_scheme" where
  "acquire_pipe s pi =
     bindr (acquire (pi_lock (pipes s pi)) (hart s)) (\<lambda>(l, c). Inr (upd_pipe (s\<lparr>hart := c\<rparr>) pi (\<lambda>p. p\<lparr>pi_lock := l\<rparr>)))"

definition release_pipe :: "'a pistate_scheme \<Rightarrow> u64 \<Rightarrow> fault + 'a pistate_scheme" where
  "release_pipe s pi =
     bindr (release (pi_lock (pipes s pi)) (hart s)) (\<lambda>(l, c). Inr (upd_pipe (s\<lparr>hart := c\<rparr>) pi (\<lambda>p. p\<lparr>pi_lock := l\<rparr>)))"

abbreviation wread :: "u64 \<Rightarrow> wchan" where "wread pi \<equiv> WRead (unat pi)"
abbreviation wwrite :: "u64 \<Rightarrow> wchan" where "wwrite pi \<equiv> WWrite (unat pi)"

definition pipeclose :: "'a pistate_scheme \<Rightarrow> u64 \<Rightarrow> bool \<Rightarrow> fault + 'a pistate_scheme" where
  "pipeclose s pi writable =
     bindr (acquire_pipe s pi) (\<lambda>s1.
     bindr (if writable then wakeup (upd_pipe s1 pi (\<lambda>p. p\<lparr>writeopen := False\<rparr>)) (wread pi)
            else wakeup (upd_pipe s1 pi (\<lambda>p. p\<lparr>readopen := False\<rparr>)) (wwrite pi)) (\<lambda>s2.
       if \<not> readopen (pipes s2 pi) \<and> \<not> writeopen (pipes s2 pi) then bindr (release_pipe s2 pi) (\<lambda>s3. kfree s3 pi)
       else release_pipe s2 pi))"

text \<open>How a transfer ends: with the value returned, or asleep after \<open>i\<close> bytes.\<close>

datatype ptransfer = Returned int | Asleep nat

definition put_char :: "pipe \<Rightarrow> u8 \<Rightarrow> pipe" where
  "put_char p ch = p\<lparr>pi_data := (pi_data p)[unat (nwrite p) mod PIPESIZE := ch], nwrite := nwrite p + 1\<rparr>"

definition get_char :: "pipe \<Rightarrow> u8 \<times> pipe" where
  "get_char p = (pi_data p ! (unat (nread p) mod PIPESIZE), p\<lparr>nread := nread p + 1\<rparr>)"

definition pipe_full :: "pipe \<Rightarrow> bool" where
  "pipe_full p \<longleftrightarrow> nwrite p = nread p + of_nat PIPESIZE"

definition pipe_empty :: "pipe \<Rightarrow> bool" where
  "pipe_empty p \<longleftrightarrow> nread p = nwrite p"

text \<open>The loop of \<open>pipewrite\<close>, with \<open>left = n - i\<close> bytes to write.\<close>

fun pipewrite_loop :: "nat \<Rightarrow> 'a pistate_scheme \<Rightarrow> nat \<Rightarrow> u64 \<Rightarrow> u64 \<Rightarrow> nat \<Rightarrow> fault + 'a pistate_scheme \<times> ptransfer" where
  "pipewrite_loop 0 s pr pi addr i =
     bindr (wakeup s (wread pi)) (\<lambda>s1. bindr (release_pipe s1 pi) (\<lambda>s2. Inr (s2, Returned (int i))))"
| "pipewrite_loop (Suc left) s pr pi addr i =
     bindr (if \<not> readopen (pipes s pi) then Inr (s, True) else bindr (killed s pr) (\<lambda>(s1, k). Inr (s1, k \<noteq> 0))) (\<lambda>(s1, stop).
       if stop then bindr (release_pipe s1 pi) (\<lambda>s2. Inr (s2, Returned (-1)))
       else if pipe_full (pipes s1 pi) then bindr (wakeup s1 (wread pi)) (\<lambda>s2. Inr (s2, Asleep i))
       else bindr (copyin s1 (pagetable (procs s1 ! pr)) (addr + of_nat i) 1) (\<lambda>(r, bs).
         if r = -1 then bindr (wakeup s1 (wread pi)) (\<lambda>s2. bindr (release_pipe s2 pi) (\<lambda>s3. Inr (s3, Returned (int i))))
         else pipewrite_loop left (upd_pipe s1 pi (\<lambda>p. put_char p (bs ! 0))) pr pi addr (Suc i)))"

definition pipewrite :: "'a pistate_scheme \<Rightarrow> u64 \<Rightarrow> u64 \<Rightarrow> int \<Rightarrow> fault + 'a pistate_scheme \<times> ptransfer" where
  "pipewrite s pi addr n =
     with_myproc s (\<lambda>s1 pr. bindr (acquire_pipe s1 pi) (\<lambda>s2. pipewrite_loop (nat n) s2 pr pi addr 0))"

text \<open>The copying loop of \<open>piperead\<close>, then the loop that waits for data.\<close>

fun piperead_copy :: "nat \<Rightarrow> 'a pistate_scheme \<Rightarrow> nat \<Rightarrow> u64 \<Rightarrow> u64 \<Rightarrow> nat \<Rightarrow> fault + 'a pistate_scheme \<times> nat" where
  "piperead_copy 0 s pr pi addr i = Inr (s, i)"
| "piperead_copy (Suc left) s pr pi addr i =
     (if pipe_empty (pipes s pi) then Inr (s, i)
      else let (ch, p1) = get_char (pipes s pi); s1 = upd_pipe s pi (\<lambda>_. p1)
           in bindr (copyout s1 (pagetable (procs s1 ! pr)) (addr + of_nat i) (\<lambda>_. ch) 1) (\<lambda>(s2, r).
                if r = -1 then Inr (s2, i) else piperead_copy left s2 pr pi addr (Suc i)))"

definition piperead_locked :: "'a pistate_scheme \<Rightarrow> nat \<Rightarrow> u64 \<Rightarrow> u64 \<Rightarrow> int \<Rightarrow> fault + 'a pistate_scheme \<times> ptransfer" where
  "piperead_locked s pr pi addr n =
     (if pipe_empty (pipes s pi) \<and> writeopen (pipes s pi) then
        bindr (killed s pr) (\<lambda>(s1, k).
          if k \<noteq> 0 then bindr (release_pipe s1 pi) (\<lambda>s2. Inr (s2, Returned (-1))) else Inr (s1, Asleep 0))
      else bindr (piperead_copy (nat n) s pr pi addr 0) (\<lambda>(s1, i).
           bindr (wakeup s1 (wwrite pi)) (\<lambda>s2.
           bindr (release_pipe s2 pi) (\<lambda>s3. Inr (s3, Returned (int i))))))"

definition piperead :: "'a pistate_scheme \<Rightarrow> u64 \<Rightarrow> u64 \<Rightarrow> int \<Rightarrow> fault + 'a pistate_scheme \<times> ptransfer" where
  "piperead s pi addr n =
     with_myproc s (\<lambda>s1 pr. bindr (acquire_pipe s1 pi) (\<lambda>s2. piperead_locked s2 pr pi addr n))"

end
