(* ===== verification/File.thy ===== *)
theory File
  imports Pipe
begin

text \<open>
  \<^verbatim>\<open>kernel/file.c\<close> and \<open>pipealloc\<close> of \<^verbatim>\<open>kernel/pipe.c\<close>: the table of open files. A \<open>struct file *\<close> is an
  index of the table. The device switch, an array of function pointers, is an argument of the operations
  that call through it.
\<close>

definition NFILE :: nat where [simp]: "NFILE = 100"
definition NDEV :: nat where [simp]: "NDEV = 10"
definition CONSOLE :: nat where [simp]: "CONSOLE = 1"

datatype ftype = FD_NONE | FD_PIPE | FD_INODE | FD_DEVICE

record filer =
  f_type :: ftype
  f_ref :: int
  f_readable :: bool
  f_writable :: bool
  f_pipe :: u64
  f_ip :: nat
  f_off :: u32
  f_major :: u16

record fstate = pistate +
  ft_lock :: spinlock
  files :: "filer list"

type_synonym 's devfun = "'s \<Rightarrow> bool \<Rightarrow> u64 \<Rightarrow> int \<Rightarrow> fault + 's \<times> int"

record 's devswr =
  dev_read :: "'s devfun option"
  dev_write :: "'s devfun option"

definition upd_file :: "'a fstate_scheme \<Rightarrow> nat \<Rightarrow> (filer \<Rightarrow> filer) \<Rightarrow> 'a fstate_scheme" where
  "upd_file s f g = s\<lparr>files := (files s)[f := g (files s ! f)]\<rparr>"

definition acquire_ftable :: "'a fstate_scheme \<Rightarrow> fault + 'a fstate_scheme" where
  "acquire_ftable s = bindr (acquire (ft_lock s) (hart s)) (\<lambda>(l, c). Inr (s\<lparr>ft_lock := l, hart := c\<rparr>))"

definition release_ftable :: "'a fstate_scheme \<Rightarrow> fault + 'a fstate_scheme" where
  "release_ftable s = bindr (release (ft_lock s) (hart s)) (\<lambda>(l, c). Inr (s\<lparr>ft_lock := l, hart := c\<rparr>))"

definition fileinit :: "'a fstate_scheme \<Rightarrow> 'a fstate_scheme" where
  "fileinit s = s\<lparr>ft_lock := initlock (ft_lock s) ''ftable''\<rparr>"

definition filealloc :: "'a fstate_scheme \<Rightarrow> fault + 'a fstate_scheme \<times> nat option" where
  "filealloc s =
     bindr (acquire_ftable s) (\<lambda>s1.
       case List.find (\<lambda>f. f_ref (files s1 ! f) = 0) [0..<NFILE] of
         Some f \<Rightarrow> bindr (release_ftable (upd_file s1 f (\<lambda>x. x\<lparr>f_ref := 1\<rparr>))) (\<lambda>s2. Inr (s2, Some f))
       | None \<Rightarrow> bindr (release_ftable s1) (\<lambda>s2. Inr (s2, None)))"

definition filedup :: "'a fstate_scheme \<Rightarrow> nat \<Rightarrow> fault + 'a fstate_scheme \<times> nat" where
  "filedup s f =
     bindr (acquire_ftable s) (\<lambda>s1.
       if f_ref (files s1 ! f) < 1 then Inl (Panic ''filedup'')
       else bindr (release_ftable (upd_file s1 f (\<lambda>x. x\<lparr>f_ref := f_ref x + 1\<rparr>))) (\<lambda>s2. Inr (s2, f)))"

definition fileclose :: "'a fstate_scheme \<Rightarrow> nat \<Rightarrow> fault + 'a fstate_scheme" where
  "fileclose s f =
     bindr (acquire_ftable s) (\<lambda>s1.
       if f_ref (files s1 ! f) < 1 then Inl (Panic ''fileclose'')
       else let s2 = upd_file s1 f (\<lambda>x. x\<lparr>f_ref := f_ref x - 1\<rparr>)
            in if f_ref (files s2 ! f) > 0 then release_ftable s2
               else let ff = files s2 ! f
                    in bindr (release_ftable (upd_file s2 f (\<lambda>x. x\<lparr>f_ref := 0, f_type := FD_NONE\<rparr>))) (\<lambda>s3.
                         if f_type ff = FD_PIPE then pipeclose s3 (f_pipe ff) (f_writable ff)
                         else if f_type ff = FD_INODE \<or> f_type ff = FD_DEVICE then
                           bindr (begin_op s3) (\<lambda>s4. bindr (iput s4 (f_ip ff)) (\<lambda>s5. end_op s5))
                         else Inr s3))"

text \<open>\<open>st\<close> is what the local variable held before, padding included.\<close>

definition filestat :: "'a fstate_scheme \<Rightarrow> nat \<Rightarrow> u64 \<Rightarrow> u8 list \<Rightarrow> fault + 'a fstate_scheme \<times> int" where
  "filestat s f addr st =
     bindr (myproc s) (\<lambda>(s1, me).
       let x = files s1 ! f
       in if f_type x = FD_INODE \<or> f_type x = FD_DEVICE then
            bindr (ilock s1 (f_ip x)) (\<lambda>s2.
            let st1 = stati (inodes s2 ! f_ip x) st
            in bindr (iunlock s2 (f_ip x)) (\<lambda>s3.
               case me of None \<Rightarrow> Inl (BadAccess 0)
               | Some p \<Rightarrow> bindr (copyout s3 (pagetable (procs s3 ! p)) addr (\<lambda>i. st1 ! i) 24) (\<lambda>(s4, r).
                             Inr (s4, if r < 0 then -1 else 0))))
          else Inr (s1, -1))"

text \<open>A transfer that has to wait is \<open>Blocked\<close> for the callers of the file layer.\<close>

fun awake :: "fault + 's \<times> ptransfer \<Rightarrow> fault + 's \<times> int" where
  "awake (Inl e) = Inl e"
| "awake (Inr (s, Returned r)) = Inr (s, r)"
| "awake (Inr (s, Asleep i)) = Inl (Blocked ''sleep'')"

definition major_dev :: "u16 \<Rightarrow> nat option" where
  "major_dev mj = (if sint mj < 0 \<or> sint mj \<ge> int NDEV then None else Some (unat mj))"

definition fileread :: "(nat \<Rightarrow> 'a fstate_scheme devswr) \<Rightarrow> 'a fstate_scheme \<Rightarrow> nat \<Rightarrow> u64 \<Rightarrow> int \<Rightarrow> fault + 'a fstate_scheme \<times> int" where
  "fileread devsw s f addr n =
     (let x = files s ! f
      in if \<not> f_readable x then Inr (s, -1)
         else case f_type x of
           FD_PIPE \<Rightarrow> awake (piperead s (f_pipe x) addr n)
         | FD_DEVICE \<Rightarrow>
             (case major_dev (f_major x) of None \<Rightarrow> Inr (s, -1)
              | Some mj \<Rightarrow> (case dev_read (devsw mj) of None \<Rightarrow> Inr (s, -1) | Some rd \<Rightarrow> rd s True addr n))
         | FD_INODE \<Rightarrow>
             bindr (ilock s (f_ip x)) (\<lambda>s1.
             bindr (readi s1 (f_ip x) (ToUser addr) (f_off x) (of_int n)) (\<lambda>(s2, r, _).
             let s3 = (if r > 0 then upd_file s2 f (\<lambda>y. y\<lparr>f_off := f_off y + of_int r\<rparr>) else s2)
             in bindr (iunlock s3 (f_ip x)) (\<lambda>s4. Inr (s4, r))))
         | FD_NONE \<Rightarrow> Inl (Panic ''fileread''))"

definition max_write :: nat where
  "max_write = nat ((MAXOPBLOCKS - 1 - 1 - 2) div 2) * BSIZE"

text \<open>The transactions of \<open>filewrite\<close>, with \<open>left = n - i\<close> bytes to go; the result is \<open>i\<close>.\<close>

lemma max_write_pos: "0 < max_write"
  by (simp add: max_write_def MAXOPBLOCKS_def)

function filewrite_loop :: "nat \<Rightarrow> 'a fstate_scheme \<Rightarrow> nat \<Rightarrow> u64 \<Rightarrow> nat \<Rightarrow> fault + 'a fstate_scheme \<times> nat" where
  "filewrite_loop left s f addr i =
     (if left = 0 then Inr (s, i)
      else let n1 = min left max_write; ip = f_ip (files s ! f)
           in bindr (begin_op s) (\<lambda>s1.
              bindr (ilock s1 ip) (\<lambda>s2.
              bindr (writei s2 ip (FromUser (addr + of_nat i)) (f_off (files s2 ! f)) (of_nat n1)) (\<lambda>(s3, r).
              let s4 = (if r > 0 then upd_file s3 f (\<lambda>y. y\<lparr>f_off := f_off y + of_int r\<rparr>) else s3)
              in bindr (iunlock s4 ip) (\<lambda>s5.
                 bindr (end_op s5) (\<lambda>s6.
                   if r \<noteq> int n1 then Inr (s6, i) else filewrite_loop (left - n1) s6 f addr (i + n1)))))))"
  by pat_completeness auto
termination
  by (relation "measure (\<lambda>(left, s, f, addr, i). left)") (auto simp: max_write_pos)

declare filewrite_loop.simps [simp del]

definition filewrite :: "(nat \<Rightarrow> 'a fstate_scheme devswr) \<Rightarrow> 'a fstate_scheme \<Rightarrow> nat \<Rightarrow> u64 \<Rightarrow> int \<Rightarrow> fault + 'a fstate_scheme \<times> int" where
  "filewrite devsw s f addr n =
     (let x = files s ! f
      in if \<not> f_writable x then Inr (s, -1)
         else case f_type x of
           FD_PIPE \<Rightarrow> awake (pipewrite s (f_pipe x) addr n)
         | FD_DEVICE \<Rightarrow>
             (case major_dev (f_major x) of None \<Rightarrow> Inr (s, -1)
              | Some mj \<Rightarrow> (case dev_write (devsw mj) of None \<Rightarrow> Inr (s, -1) | Some wr \<Rightarrow> wr s True addr n))
         | FD_INODE \<Rightarrow> bindr (filewrite_loop (nat n) s f addr 0) (\<lambda>(s1, i). Inr (s1, if int i = n then n else -1))
         | FD_NONE \<Rightarrow> Inl (Panic ''filewrite''))"

section \<open>Making a pipe\<close>

definition close_opt :: "'a fstate_scheme \<Rightarrow> nat option \<Rightarrow> fault + 'a fstate_scheme" where
  "close_opt s fo = (case fo of None \<Rightarrow> Inr s | Some f \<Rightarrow> fileclose s f)"

text \<open>The two file pointers, or \<open>None\<close> where the code returns -1.\<close>

definition pipealloc :: "'a fstate_scheme \<Rightarrow> fault + 'a fstate_scheme \<times> (nat \<times> nat) option" where
  "pipealloc s =
     bindr (filealloc s) (\<lambda>(s1, f0).
       case f0 of None \<Rightarrow> Inr (s1, None)
       | Some a \<Rightarrow>
           bindr (filealloc s1) (\<lambda>(s2, f1).
             case f1 of None \<Rightarrow> bindr (close_opt s2 f0) (\<lambda>s3. Inr (s3, None))
             | Some b \<Rightarrow>
                 bindr (kalloc s2) (\<lambda>(s3, pi).
                   if pi = 0 then bindr (close_opt s3 f0) (\<lambda>s4. bindr (close_opt s4 f1) (\<lambda>s5. Inr (s5, None)))
                   else
                     let s4 = upd_pipe s3 pi (\<lambda>p. p\<lparr>readopen := True, writeopen := True, nwrite := 0, nread := 0,
                                                    pi_lock := initlock (pi_lock p) ''pipe''\<rparr>);
                         s5 = upd_file s4 a (\<lambda>x. x\<lparr>f_type := FD_PIPE, f_readable := True, f_writable := False, f_pipe := pi\<rparr>);
                         s6 = upd_file s5 b (\<lambda>x. x\<lparr>f_type := FD_PIPE, f_readable := False, f_writable := True, f_pipe := pi\<rparr>)
                     in Inr (s6, Some (a, b)))))"

end
