(* ===== verification/Exec.thy ===== *)
theory Exec
  imports File
begin

text \<open>
  \<^verbatim>\<open>kernel/exec.c\<close>: replacing the user image of a process. The headers of the executable are decoded
  from the bytes read into the local variables; \<open>argv\<close> is the list of the kernel addresses of the argument
  strings, up to the null pointer. \<open>u k\<close> are the unknown bytes in the \<open>k\<close>th uninitialised local buffer.
\<close>

definition MAXARG :: nat where [simp]: "MAXARG = 32"
definition MAXPATH :: nat where [simp]: "MAXPATH = 128"
definition ELF_MAGIC :: u32 where [simp]: "ELF_MAGIC = 0x464C457F"
definition ELF_PROG_LOAD :: u32 where [simp]: "ELF_PROG_LOAD = 1"

definition rd64 :: "u8 list \<Rightarrow> nat \<Rightarrow> u64" where
  "rd64 bs k = le64 (take 8 (drop k bs))"

record elfhdr =
  e_magic :: u32
  e_entry :: u64
  e_phoff :: u64
  e_phnum :: u16

definition elfhdr_of :: "u8 list \<Rightarrow> elfhdr" where
  "elfhdr_of bs = \<lparr>e_magic = ld32 bs 0, e_entry = rd64 bs 24, e_phoff = rd64 bs 32, e_phnum = ld16 bs 56\<rparr>"

record proghdr =
  ph_type :: u32
  ph_flags :: u32
  ph_off :: u64
  ph_vaddr :: u64
  ph_filesz :: u64
  ph_memsz :: u64

definition proghdr_of :: "u8 list \<Rightarrow> proghdr" where
  "proghdr_of bs = \<lparr>ph_type = ld32 bs 0, ph_flags = ld32 bs 4, ph_off = rd64 bs 8, ph_vaddr = rd64 bs 16,
     ph_filesz = rd64 bs 32, ph_memsz = rd64 bs 40\<rparr>"

definition flags2perm :: "u32 \<Rightarrow> u64" where
  "flags2perm flags = (let perm = (if flags AND 1 \<noteq> 0 then PTE_X else 0) in if flags AND 2 \<noteq> 0 then perm OR PTE_W else perm)"

text \<open>
  \<open>loadseg\<close>: the loop takes one iteration for every page of \<open>sz\<close>; only a size in the last page of the 32-bit range
  would make the counter wrap and the loop go on, which is \<open>OutOfFuel\<close>.
\<close>

fun loadseg_loop :: "nat \<Rightarrow> 'a istate_scheme \<Rightarrow> u64 \<Rightarrow> u64 \<Rightarrow> nat \<Rightarrow> u32 \<Rightarrow> u32 \<Rightarrow> u32 \<Rightarrow> fault + 'a istate_scheme \<times> int" where
  "loadseg_loop 0 s pt va ip offset n i = (if i < n then Inl OutOfFuel else Inr (s, 0))"
| "loadseg_loop (Suc k) s pt va ip offset n i =
     (if i < n then
        bindr (walkaddr s pt (va + ucast i)) (\<lambda>pa.
          if pa = 0 then Inl (Panic ''loadseg: address should exist'')
          else let c = (if n - i < ucast PGSIZE then n - i else ucast PGSIZE)
               in bindr (readi s ip (ToKernel pa) (offset + i) c) (\<lambda>(s1, r, _).
                    if r \<noteq> int (unat c) then Inr (s1, -1) else loadseg_loop k s1 pt va ip offset n (i + ucast PGSIZE)))
      else Inr (s, 0))"

definition loadseg :: "'a istate_scheme \<Rightarrow> u64 \<Rightarrow> u64 \<Rightarrow> nat \<Rightarrow> u32 \<Rightarrow> u32 \<Rightarrow> fault + 'a istate_scheme \<times> int" where
  "loadseg s pt va ip offset n = loadseg_loop ((unat n + 4095) div 4096) s pt va ip offset n 0"

text \<open>The loop over the program headers, \<open>k\<close> of them left; the size of the image so far, and whether all went well.\<close>

fun exec_load :: "nat \<Rightarrow> 'a istate_scheme \<Rightarrow> u64 \<Rightarrow> nat \<Rightarrow> u32 \<Rightarrow> u64 \<Rightarrow> fault + 'a istate_scheme \<times> u64 \<times> bool" where
  "exec_load 0 s pt ip off usz = Inr (s, usz, True)"
| "exec_load (Suc k) s pt ip off usz =
     bindr (readi s ip ToLocal off 56) (\<lambda>(s1, r, bs).
       let ph = proghdr_of bs
       in if r \<noteq> 56 then Inr (s1, usz, False)
          else if ph_type ph \<noteq> ELF_PROG_LOAD then exec_load k s1 pt ip (off + 56) usz
          else if ph_memsz ph < ph_filesz ph then Inr (s1, usz, False)
          else if ph_vaddr ph + ph_memsz ph < ph_vaddr ph then Inr (s1, usz, False)
          else if ph_vaddr ph mod PGSIZE \<noteq> 0 then Inr (s1, usz, False)
          else bindr (uvmalloc s1 pt usz (ph_vaddr ph + ph_memsz ph) (flags2perm (ph_flags ph))) (\<lambda>(s2, sz1).
            if sz1 = 0 then Inr (s2, usz, False)
            else bindr (loadseg s2 pt (ph_vaddr ph) ip (ucast (ph_off ph)) (ucast (ph_filesz ph))) (\<lambda>(s3, l).
              if l < 0 then Inr (s3, sz1, False) else exec_load k s3 pt ip (off + 56) sz1)))"

text \<open>
  Pushing the argument strings: the stack pointer and the pointers so far; \<open>None\<close> is the jump to \<open>bad\<close>. With
  \<open>MAXARG\<close> strings the code stores behind the end of \<open>ustack\<close>.
\<close>

fun exec_args :: "'a kmem_scheme \<Rightarrow> u64 \<Rightarrow> u64 \<Rightarrow> u64 \<Rightarrow> u64 list \<Rightarrow> u64 list \<Rightarrow> fault + 'a kmem_scheme \<times> (u64 \<times> u64 list) option" where
  "exec_args s pt stackbase sp ustack [] =
     (if length ustack \<ge> MAXARG then Inl (Overrun ''ustack'') else Inr (s, Some (sp, ustack @ [0])))"
| "exec_args s pt stackbase sp ustack (a # argv) =
     (if length ustack \<ge> MAXARG then Inr (s, None)
      else case strlen (\<lambda>i. mem s (a + of_nat i)) of
        None \<Rightarrow> Inl (BadAccess a)
      | Some n \<Rightarrow>
          let sp1 = sp - of_nat (n + 1); sp2 = sp1 - sp1 mod 16
          in if sp2 < stackbase then Inr (s, None)
             else bindr (copyout s pt sp2 (\<lambda>i. mem s (a + of_nat i)) (of_nat (n + 1))) (\<lambda>(s1, r).
               if r < 0 then Inr (s1, None) else exec_args s1 pt stackbase sp2 (ustack @ [sp2]) argv))"

definition cstr_of :: "u8 list \<Rightarrow> cstr" where
  "cstr_of l = (\<lambda>i. if i < length l then l ! i else 0)"

definition path_last :: "u8 list \<Rightarrow> u8 list" where
  "path_last path = rev (takeWhile (\<lambda>c. c \<noteq> SLASH) (rev path))"

text \<open>The label \<open>bad\<close>.\<close>

definition exec_bad :: "'a istate_scheme \<Rightarrow> u64 \<Rightarrow> u64 \<Rightarrow> nat option \<Rightarrow> fault + 'a istate_scheme \<times> int" where
  "exec_bad s pt usz ipo =
     bindr (if pt \<noteq> 0 then proc_freepagetable s pt usz else Inr s) (\<lambda>s1.
     bindr (case ipo of None \<Rightarrow> Inr s1 | Some ip \<Rightarrow> bindr (iunlockput s1 ip) (\<lambda>s2. end_op s2)) (\<lambda>s3. Inr (s3, -1)))"

text \<open>From the allocation of the user stack to the return.\<close>

definition exec_commit :: "'a istate_scheme \<Rightarrow> u8 list \<Rightarrow> u64 list \<Rightarrow> u64 \<Rightarrow> u64 \<Rightarrow> u64 \<Rightarrow> fault + 'a istate_scheme \<times> int" where
  "exec_commit s path argv pc0 pt usz0 =
     with_myproc s (\<lambda>s1 p.
       let oldsz = sz (procs s1 ! p); usz = PGROUNDUP usz0
       in bindr (uvmalloc s1 pt usz (usz + 2 * PGSIZE) PTE_W) (\<lambda>(s2, sz1).
          if sz1 = 0 then exec_bad s2 pt usz None
          else bindr (uvmclear s2 pt (sz1 - 2 * PGSIZE)) (\<lambda>s3.
            let stackbase = sz1 - PGSIZE
            in bindr (exec_args s3 pt stackbase sz1 [] argv) (\<lambda>(s4, res).
               case res of None \<Rightarrow> exec_bad s4 pt sz1 None
               | Some (sp, ustack) \<Rightarrow>
                   let sp1 = sp - of_nat (length ustack) * 8; sp2 = sp1 - sp1 mod 16; bytes = concat (map (\<lambda>v. map (u64_bytes v) [0..<8]) ustack)
                   in if sp2 < stackbase then exec_bad s4 pt sz1 None
                      else bindr (copyout s4 pt sp2 (\<lambda>i. bytes ! i) (of_nat (length bytes))) (\<lambda>(s5, r).
                        if r < 0 then exec_bad s5 pt sz1 None
                        else
                          let s6 = set_tf s5 p (tf_a 1) sp2;
                              oldpt = pagetable (procs s6 ! p);
                              s7 = upd_proc s6 p (\<lambda>x. x\<lparr>p_name := safestrcpy (p_name x) (cstr_of (path_last path)) 16,
                                                       pagetable := pt, sz := sz1\<rparr>);
                              s8 = set_tf (set_tf s7 p tf_epc pc0) p tf_sp sp2
                          in bindr (proc_freepagetable s8 oldpt oldsz) (\<lambda>s9. Inr (s9, int (length ustack) - 1)))))))"

definition exec :: "u64 \<Rightarrow> (nat \<Rightarrow> cstr) \<Rightarrow> 'a istate_scheme \<Rightarrow> u8 list \<Rightarrow> u64 list \<Rightarrow> fault + 'a istate_scheme \<times> int" where
  "exec trampoline u s path argv =
     with_myproc s (\<lambda>s0 p.
     bindr (begin_op s0) (\<lambda>s1.
     bindr (namei s1 path (u 0)) (\<lambda>(s2, ipo).
       case ipo of None \<Rightarrow> bindr (end_op s2) (\<lambda>s3. Inr (s3, -1))
       | Some ip \<Rightarrow>
           bindr (ilock s2 ip) (\<lambda>s3.
           bindr (readi s3 ip ToLocal 0 64) (\<lambda>(s4, r, bs).
           let elf = elfhdr_of bs
           in if r \<noteq> 64 \<or> e_magic elf \<noteq> ELF_MAGIC then exec_bad s4 0 0 (Some ip)
              else bindr (proc_pagetable s4 trampoline (trapframe (procs s4 ! p))) (\<lambda>(s5, pt).
                if pt = 0 then exec_bad s5 0 0 (Some ip)
                else bindr (exec_load (unat (e_phnum elf)) s5 pt ip (ucast (e_phoff elf)) 0) (\<lambda>(s6, usz, ok).
                  if \<not> ok then exec_bad s6 pt usz (Some ip)
                  else bindr (iunlockput s6 ip) (\<lambda>s7.
                       bindr (end_op s7) (\<lambda>s8. exec_commit s8 path argv (e_entry elf) pt usz)))))))))"

end
