(* ===== verification/Sysfile.thy ===== *)
theory Sysfile
  imports Exec
begin

text \<open>
  \<^verbatim>\<open>kernel/sysfile.c\<close>: the file-system calls. Every handler returns the state and the value for \<open>a0\<close>.
  \<open>u k\<close> are the unknown bytes in the \<open>k\<close>th uninitialised local buffer of a handler and the calls below it.
\<close>

section \<open>Descriptors\<close>

definition argfd :: "'a pstate_scheme \<Rightarrow> nat \<Rightarrow> fault + 'a pstate_scheme \<times> (nat \<times> nat) option" where
  "argfd s n =
     bindr (argint s n) (\<lambda>(s1, fd).
       if fd < 0 \<or> fd \<ge> int NOFILE then Inr (s1, None)
       else with_myproc s1 (\<lambda>s2 p.
         case ofile (procs s2 ! p) ! nat fd of None \<Rightarrow> Inr (s2, None) | Some f \<Rightarrow> Inr (s2, Some (nat fd, f))))"

definition set_ofile :: "'a pstate_scheme \<Rightarrow> nat \<Rightarrow> nat \<Rightarrow> nat option \<Rightarrow> 'a pstate_scheme" where
  "set_ofile s p fd fo = upd_proc s p (\<lambda>x. x\<lparr>ofile := (ofile x)[fd := fo]\<rparr>)"

definition fdalloc :: "'a pstate_scheme \<Rightarrow> nat \<Rightarrow> fault + 'a pstate_scheme \<times> nat option" where
  "fdalloc s f =
     with_myproc s (\<lambda>s1 p.
       case List.find (\<lambda>fd. ofile (procs s1 ! p) ! fd = None) [0..<NOFILE] of
         Some fd \<Rightarrow> Inr (set_ofile s1 p fd (Some f), Some fd)
       | None \<Rightarrow> Inr (s1, None))"

section \<open>Handlers on descriptors\<close>

definition sys_dup :: "'a fstate_scheme \<Rightarrow> fault + 'a fstate_scheme \<times> u64" where
  "sys_dup s =
     bindr (argfd s 0) (\<lambda>(s1, a).
       case a of None \<Rightarrow> Inr (s1, -1)
       | Some (_, f) \<Rightarrow>
           bindr (fdalloc s1 f) (\<lambda>(s2, fdo).
             case fdo of None \<Rightarrow> Inr (s2, -1)
             | Some fd \<Rightarrow> bindr (filedup s2 f) (\<lambda>(s3, _). Inr (s3, of_nat fd))))"

definition sys_read :: "(nat \<Rightarrow> 'a fstate_scheme devswr) \<Rightarrow> 'a fstate_scheme \<Rightarrow> fault + 'a fstate_scheme \<times> u64" where
  "sys_read devsw s =
     bindr (argaddr s 1) (\<lambda>(s1, p).
     bindr (argint s1 2) (\<lambda>(s2, n).
     bindr (argfd s2 0) (\<lambda>(s3, a).
       case a of None \<Rightarrow> Inr (s3, -1)
       | Some (_, f) \<Rightarrow> bindr (fileread devsw s3 f p n) (\<lambda>(s4, r). Inr (s4, of_int r)))))"

definition sys_write :: "(nat \<Rightarrow> 'a fstate_scheme devswr) \<Rightarrow> 'a fstate_scheme \<Rightarrow> fault + 'a fstate_scheme \<times> u64" where
  "sys_write devsw s =
     bindr (argaddr s 1) (\<lambda>(s1, p).
     bindr (argint s1 2) (\<lambda>(s2, n).
     bindr (argfd s2 0) (\<lambda>(s3, a).
       case a of None \<Rightarrow> Inr (s3, -1)
       | Some (_, f) \<Rightarrow> bindr (filewrite devsw s3 f p n) (\<lambda>(s4, r). Inr (s4, of_int r)))))"

definition sys_close :: "'a fstate_scheme \<Rightarrow> fault + 'a fstate_scheme \<times> u64" where
  "sys_close s =
     bindr (argfd s 0) (\<lambda>(s1, a).
       case a of None \<Rightarrow> Inr (s1, -1)
       | Some (fd, f) \<Rightarrow>
           with_myproc s1 (\<lambda>s2 p. bindr (fileclose (set_ofile s2 p fd None) f) (\<lambda>s3. Inr (s3, 0))))"

definition sys_fstat :: "u8 list \<Rightarrow> 'a fstate_scheme \<Rightarrow> fault + 'a fstate_scheme \<times> u64" where
  "sys_fstat st0 s =
     bindr (argaddr s 1) (\<lambda>(s1, st).
     bindr (argfd s1 0) (\<lambda>(s2, a).
       case a of None \<Rightarrow> Inr (s2, -1)
       | Some (_, f) \<Rightarrow> bindr (filestat s2 f st st0) (\<lambda>(s3, r). Inr (s3, of_int r))))"

section \<open>Links\<close>

text \<open>A path fetched from user memory: its bytes before the NUL, or \<open>None\<close> where \<open>argstr\<close> fails.\<close>

definition argpath :: "'a pstate_scheme \<Rightarrow> nat \<Rightarrow> cstr \<Rightarrow> fault + 'a pstate_scheme \<times> u8 list option" where
  "argpath s n buf0 =
     bindr (argstr s n buf0 (of_nat MAXPATH)) (\<lambda>(s1, r, b). Inr (s1, if r < 0 then None else Some (cstr_take MAXPATH b)))"

definition end_op_ret :: "'a lstate_scheme \<Rightarrow> u64 \<Rightarrow> fault + 'a lstate_scheme \<times> u64" where
  "end_op_ret s r = bindr (end_op s) (\<lambda>s1. Inr (s1, r))"

definition sys_link_bad :: "'a istate_scheme \<Rightarrow> nat \<Rightarrow> fault + 'a istate_scheme \<times> u64" where
  "sys_link_bad s ip =
     bindr (ilock s ip) (\<lambda>s1.
     bindr (iupdate (upd_inode s1 ip (\<lambda>i. i\<lparr>i_nlink := i_nlink i - 1\<rparr>)) ip) (\<lambda>s2.
     bindr (iunlockput s2 ip) (\<lambda>s3. end_op_ret s3 (-1))))"

definition sys_link :: "(nat \<Rightarrow> cstr) \<Rightarrow> 'a istate_scheme \<Rightarrow> fault + 'a istate_scheme \<times> u64" where
  "sys_link u s =
     bindr (argpath s 0 (u 0)) (\<lambda>(s1, oldo). case oldo of None \<Rightarrow> Inr (s1, -1) | Some old \<Rightarrow>
     bindr (argpath s1 1 (u 1)) (\<lambda>(s2, newo). case newo of None \<Rightarrow> Inr (s2, -1) | Some nw \<Rightarrow>
     bindr (begin_op s2) (\<lambda>s3.
     bindr (namei s3 old (u 2)) (\<lambda>(s4, ipo). case ipo of None \<Rightarrow> end_op_ret s4 (-1) | Some ip \<Rightarrow>
     bindr (ilock s4 ip) (\<lambda>s5.
       if i_type (inodes s5 ! ip) = T_DIR then bindr (iunlockput s5 ip) (\<lambda>s6. end_op_ret s6 (-1))
       else
         bindr (iupdate (upd_inode s5 ip (\<lambda>i. i\<lparr>i_nlink := i_nlink i + 1\<rparr>)) ip) (\<lambda>s6.
         bindr (iunlock s6 ip) (\<lambda>s7.
         bindr (nameiparent s7 nw (u 3)) (\<lambda>(s8, dpo, name). case dpo of None \<Rightarrow> sys_link_bad s8 ip | Some dp \<Rightarrow>
         bindr (ilock s8 dp) (\<lambda>s9.
         bindr (if i_dev (inodes s9 ! dp) \<noteq> i_dev (inodes s9 ! ip) then Inr (s9, -1)
                else dirlink s9 dp name (i_inum (inodes s9 ! ip))) (\<lambda>(s10, r).
         bindr (iunlockput s10 dp) (\<lambda>s11.
           if r < 0 then sys_link_bad s11 ip
           else bindr (iput s11 ip) (\<lambda>s12. end_op_ret s12 0))))))))))))"

fun isdirempty_loop :: "nat \<Rightarrow> 'a istate_scheme \<Rightarrow> nat \<Rightarrow> u32 \<Rightarrow> fault + 'a istate_scheme \<times> bool" where
  "isdirempty_loop 0 s dp off = Inr (s, True)"
| "isdirempty_loop (Suc n) s dp off =
     bindr (readi s dp ToLocal off 16) (\<lambda>(s1, r, de).
       if r \<noteq> 16 then Inl (Panic ''isdirempty: readi'')
       else if de_inum de \<noteq> 0 then Inr (s1, False)
       else isdirempty_loop n s1 dp (off + 16))"

definition isdirempty :: "'a istate_scheme \<Rightarrow> nat \<Rightarrow> fault + 'a istate_scheme \<times> bool" where
  "isdirempty s dp = isdirempty_loop (dirents s dp - 2) s dp 32"

definition DOT :: "u8 list" where "DOT = [46]"
definition DOTDOT :: "u8 list" where "DOTDOT = [46, 46]"

text \<open>The label \<open>bad\<close> of \<open>sys_unlink\<close>, and what follows the checks.\<close>

definition sys_unlink_bad :: "'a istate_scheme \<Rightarrow> nat \<Rightarrow> fault + 'a istate_scheme \<times> u64" where
  "sys_unlink_bad s dp = bindr (iunlockput s dp) (\<lambda>s1. end_op_ret s1 (-1))"

definition sys_unlink_do :: "'a istate_scheme \<Rightarrow> nat \<Rightarrow> nat \<Rightarrow> u32 \<Rightarrow> fault + 'a istate_scheme \<times> u64" where
  "sys_unlink_do s dp ip off =
     bindr (writei s dp (FromLocal (replicate 16 0)) off 16) (\<lambda>(s1, w).
       if w \<noteq> 16 then Inl (Panic ''unlink: writei'')
       else
         bindr (if i_type (inodes s1 ! ip) = T_DIR
                then iupdate (upd_inode s1 dp (\<lambda>i. i\<lparr>i_nlink := i_nlink i - 1\<rparr>)) dp else Inr s1) (\<lambda>s2.
         bindr (iunlockput s2 dp) (\<lambda>s3.
         bindr (iupdate (upd_inode s3 ip (\<lambda>i. i\<lparr>i_nlink := i_nlink i - 1\<rparr>)) ip) (\<lambda>s4.
         bindr (iunlockput s4 ip) (\<lambda>s5. end_op_ret s5 0)))))"

definition sys_unlink :: "(nat \<Rightarrow> cstr) \<Rightarrow> 'a istate_scheme \<Rightarrow> fault + 'a istate_scheme \<times> u64" where
  "sys_unlink u s =
     bindr (argpath s 0 (u 0)) (\<lambda>(s1, po). case po of None \<Rightarrow> Inr (s1, -1) | Some path \<Rightarrow>
     bindr (begin_op s1) (\<lambda>s2.
     bindr (nameiparent s2 path (u 1)) (\<lambda>(s3, dpo, name). case dpo of None \<Rightarrow> end_op_ret s3 (-1) | Some dp \<Rightarrow>
     bindr (ilock s3 dp) (\<lambda>s4.
       if namecmp name (cstr_of DOT) = 0 \<or> namecmp name (cstr_of DOTDOT) = 0 then sys_unlink_bad s4 dp
       else bindr (dirlookup s4 dp name) (\<lambda>(s5, r). case r of None \<Rightarrow> sys_unlink_bad s5 dp | Some (ip, off) \<Rightarrow>
         bindr (ilock s5 ip) (\<lambda>s6.
           if sint (i_nlink (inodes s6 ! ip)) < 1 then Inl (Panic ''unlink: nlink < 1'')
           else bindr (if i_type (inodes s6 ! ip) = T_DIR then isdirempty s6 ip else Inr (s6, True)) (\<lambda>(s7, e).
             if \<not> e then bindr (iunlockput s7 ip) (\<lambda>s8. sys_unlink_bad s8 dp)
             else sys_unlink_do s7 dp ip off)))))))"

section \<open>Creating and opening\<close>

text \<open>The label \<open>fail\<close> of \<open>create\<close>, and the part after the new inode was allocated and locked.\<close>

definition create_fail :: "'a istate_scheme \<Rightarrow> nat \<Rightarrow> nat \<Rightarrow> fault + 'a istate_scheme \<times> nat option" where
  "create_fail s dp ip =
     bindr (iupdate (upd_inode s ip (\<lambda>i. i\<lparr>i_nlink := 0\<rparr>)) ip) (\<lambda>s1.
     bindr (iunlockput s1 ip) (\<lambda>s2.
     bindr (iunlockput s2 dp) (\<lambda>s3. Inr (s3, None))))"

definition create_link :: "'a istate_scheme \<Rightarrow> nat \<Rightarrow> nat \<Rightarrow> cstr \<Rightarrow> u16 \<Rightarrow> fault + 'a istate_scheme \<times> nat option" where
  "create_link s dp ip name type =
     bindr (if type = T_DIR then
              bindr (dirlink s ip (cstr_of DOT) (i_inum (inodes s ! ip))) (\<lambda>(s1, r).
                if r < 0 then Inr (s1, r) else dirlink s1 ip (cstr_of DOTDOT) (i_inum (inodes s1 ! dp)))
            else Inr (s, 0)) (\<lambda>(s2, r).
       if r < 0 then create_fail s2 dp ip
       else bindr (dirlink s2 dp name (i_inum (inodes s2 ! ip))) (\<lambda>(s3, r1).
         if r1 < 0 then create_fail s3 dp ip
         else bindr (if type = T_DIR then iupdate (upd_inode s3 dp (\<lambda>i. i\<lparr>i_nlink := i_nlink i + 1\<rparr>)) dp else Inr s3) (\<lambda>s4.
              bindr (iunlockput s4 dp) (\<lambda>s5. Inr (s5, Some ip)))))"

definition create :: "(nat \<Rightarrow> cstr) \<Rightarrow> 'a istate_scheme \<Rightarrow> u8 list \<Rightarrow> u16 \<Rightarrow> u16 \<Rightarrow> u16 \<Rightarrow> fault + 'a istate_scheme \<times> nat option" where
  "create u s path type mj mn =
     bindr (nameiparent s path (u 0)) (\<lambda>(s1, dpo, name). case dpo of None \<Rightarrow> Inr (s1, None) | Some dp \<Rightarrow>
     bindr (ilock s1 dp) (\<lambda>s2.
     bindr (dirlookup s2 dp name) (\<lambda>(s3, r).
       case r of
         Some (ip, _) \<Rightarrow>
           bindr (iunlockput s3 dp) (\<lambda>s4.
           bindr (ilock s4 ip) (\<lambda>s5.
             if type = T_FILE \<and> (i_type (inodes s5 ! ip) = T_FILE \<or> i_type (inodes s5 ! ip) = T_DEVICE) then Inr (s5, Some ip)
             else bindr (iunlockput s5 ip) (\<lambda>s6. Inr (s6, None))))
       | None \<Rightarrow>
           bindr (ialloc s3 (i_dev (inodes s3 ! dp)) type) (\<lambda>(s4, ipo). case ipo of
             None \<Rightarrow> bindr (iunlockput s4 dp) (\<lambda>s5. Inr (s5, None))
           | Some ip \<Rightarrow>
               bindr (ilock s4 ip) (\<lambda>s5.
               bindr (iupdate (upd_inode s5 ip (\<lambda>i. i\<lparr>i_major := mj, i_minor := mn, i_nlink := 1\<rparr>)) ip) (\<lambda>s6.
                 create_link s6 dp ip name type))))))"

definition O_WRONLY :: u32 where [simp]: "O_WRONLY = 1"
definition O_RDWR :: u32 where [simp]: "O_RDWR = 2"
definition O_CREATE :: u32 where [simp]: "O_CREATE = 0x200"
definition O_TRUNC :: u32 where [simp]: "O_TRUNC = 0x400"

text \<open>The last part of \<open>sys_open\<close>: the inode is locked, and a file and a descriptor are needed.\<close>

definition sys_open_ip :: "'a fstate_scheme \<Rightarrow> nat \<Rightarrow> u32 \<Rightarrow> fault + 'a fstate_scheme \<times> u64" where
  "sys_open_ip s ip omode =
     (if i_type (inodes s ! ip) = T_DEVICE \<and> major_dev (i_major (inodes s ! ip)) = None then
        bindr (iunlockput s ip) (\<lambda>s1. end_op_ret s1 (-1))
      else bindr (filealloc s) (\<lambda>(s1, fo).
        case fo of None \<Rightarrow> bindr (iunlockput s1 ip) (\<lambda>s2. end_op_ret s2 (-1))
        | Some f \<Rightarrow>
            bindr (fdalloc s1 f) (\<lambda>(s2, fdo).
              case fdo of
                None \<Rightarrow> bindr (fileclose s2 f) (\<lambda>s3. bindr (iunlockput s3 ip) (\<lambda>s4. end_op_ret s4 (-1)))
              | Some fd \<Rightarrow>
                  let s3 = (if i_type (inodes s2 ! ip) = T_DEVICE
                            then upd_file s2 f (\<lambda>x. x\<lparr>f_type := FD_DEVICE, f_major := i_major (inodes s2 ! ip)\<rparr>)
                            else upd_file s2 f (\<lambda>x. x\<lparr>f_type := FD_INODE, f_off := 0\<rparr>));
                      s4 = upd_file s3 f (\<lambda>x. x\<lparr>f_ip := ip, f_readable := (omode AND O_WRONLY = 0),
                             f_writable := (omode AND O_WRONLY \<noteq> 0 \<or> omode AND O_RDWR \<noteq> 0)\<rparr>)
                  in bindr (if omode AND O_TRUNC \<noteq> 0 \<and> i_type (inodes s4 ! ip) = T_FILE then itrunc s4 ip else Inr s4) (\<lambda>s5.
                     bindr (iunlock s5 ip) (\<lambda>s6. end_op_ret s6 (of_nat fd))))))"

definition sys_open :: "(nat \<Rightarrow> cstr) \<Rightarrow> 'a fstate_scheme \<Rightarrow> fault + 'a fstate_scheme \<times> u64" where
  "sys_open u s =
     bindr (argint s 1) (\<lambda>(s1, om).
     bindr (argpath s1 0 (u 0)) (\<lambda>(s2, po). case po of None \<Rightarrow> Inr (s2, -1) | Some path \<Rightarrow>
     bindr (begin_op s2) (\<lambda>s3.
       let omode = of_int om
       in if omode AND O_CREATE \<noteq> 0 then
            bindr (create (\<lambda>k. u (k + 1)) s3 path T_FILE 0 0) (\<lambda>(s4, ipo).
              case ipo of None \<Rightarrow> end_op_ret s4 (-1) | Some ip \<Rightarrow> sys_open_ip s4 ip omode)
          else
            bindr (namei s3 path (u 1)) (\<lambda>(s4, ipo).
              case ipo of None \<Rightarrow> end_op_ret s4 (-1)
              | Some ip \<Rightarrow> bindr (ilock s4 ip) (\<lambda>s5.
                  if i_type (inodes s5 ! ip) = T_DIR \<and> om \<noteq> 0 then bindr (iunlockput s5 ip) (\<lambda>s6. end_op_ret s6 (-1))
                  else sys_open_ip s5 ip omode)))))"

definition sys_mkdir :: "(nat \<Rightarrow> cstr) \<Rightarrow> 'a istate_scheme \<Rightarrow> fault + 'a istate_scheme \<times> u64" where
  "sys_mkdir u s =
     bindr (begin_op s) (\<lambda>s1.
     bindr (argpath s1 0 (u 0)) (\<lambda>(s2, po). case po of None \<Rightarrow> end_op_ret s2 (-1) | Some path \<Rightarrow>
     bindr (create (\<lambda>k. u (k + 1)) s2 path T_DIR 0 0) (\<lambda>(s3, ipo). case ipo of None \<Rightarrow> end_op_ret s3 (-1) | Some ip \<Rightarrow>
       bindr (iunlockput s3 ip) (\<lambda>s4. end_op_ret s4 0))))"

definition sys_mknod :: "(nat \<Rightarrow> cstr) \<Rightarrow> 'a istate_scheme \<Rightarrow> fault + 'a istate_scheme \<times> u64" where
  "sys_mknod u s =
     bindr (begin_op s) (\<lambda>s1.
     bindr (argint s1 1) (\<lambda>(s2, mj).
     bindr (argint s2 2) (\<lambda>(s3, mn).
     bindr (argpath s3 0 (u 0)) (\<lambda>(s4, po). case po of None \<Rightarrow> end_op_ret s4 (-1) | Some path \<Rightarrow>
     bindr (create (\<lambda>k. u (k + 1)) s4 path T_DEVICE (of_int mj) (of_int mn)) (\<lambda>(s5, ipo).
       case ipo of None \<Rightarrow> end_op_ret s5 (-1) | Some ip \<Rightarrow> bindr (iunlockput s5 ip) (\<lambda>s6. end_op_ret s6 0))))))"

definition sys_chdir :: "(nat \<Rightarrow> cstr) \<Rightarrow> 'a istate_scheme \<Rightarrow> fault + 'a istate_scheme \<times> u64" where
  "sys_chdir u s =
     with_myproc s (\<lambda>s0 p.
     bindr (begin_op s0) (\<lambda>s1.
     bindr (argpath s1 0 (u 0)) (\<lambda>(s2, po). case po of None \<Rightarrow> end_op_ret s2 (-1) | Some path \<Rightarrow>
     bindr (namei s2 path (u 1)) (\<lambda>(s3, ipo). case ipo of None \<Rightarrow> end_op_ret s3 (-1) | Some ip \<Rightarrow>
     bindr (ilock s3 ip) (\<lambda>s4.
       if i_type (inodes s4 ! ip) \<noteq> T_DIR then bindr (iunlockput s4 ip) (\<lambda>s5. end_op_ret s5 (-1))
       else bindr (iunlock s4 ip) (\<lambda>s5.
         case cwd (procs s5 ! p) of None \<Rightarrow> Inl (BadAccess 0)
         | Some old \<Rightarrow> bindr (iput s5 old) (\<lambda>s6. bindr (end_op s6) (\<lambda>s7.
             Inr (upd_proc s7 p (\<lambda>x. x\<lparr>cwd := Some ip\<rparr>), 0)))))))))"

section \<open>Exec and pipes\<close>

text \<open>
  The loop of \<open>sys_exec\<close> that copies the argument strings into kernel pages, with \<open>n\<close> entries of \<open>argv\<close> left;
  the pages so far, and whether the null pointer was found.
\<close>

fun fetch_argv :: "nat \<Rightarrow> 'a pstate_scheme \<Rightarrow> u64 \<Rightarrow> u64 list \<Rightarrow> fault + 'a pstate_scheme \<times> u64 list \<times> bool" where
  "fetch_argv 0 s uargv argv = Inr (s, argv, False)"
| "fetch_argv (Suc n) s uargv argv =
     bindr (fetchaddr s (uargv + 8 * of_nat (length argv))) (\<lambda>(s1, r, uarg).
       case uarg of None \<Rightarrow> Inr (s1, argv, False)
       | Some ua \<Rightarrow>
           if ua = 0 then Inr (s1, argv, True)
           else bindr (kalloc s1) (\<lambda>(s2, pg).
             if pg = 0 then Inr (s2, argv, False)
             else bindr (fetchstr s2 ua (\<lambda>i. mem s2 (pg + of_nat i)) PGSIZE) (\<lambda>(s3, r1, str).
               let s4 = s3\<lparr>mem := put_bytes (mem s3) pg str 4096\<rparr>
               in if r1 < 0 then Inr (s4, argv @ [pg], False) else fetch_argv n s4 uargv (argv @ [pg]))))"

fun kfree_argv :: "'a kmem_scheme \<Rightarrow> u64 list \<Rightarrow> fault + 'a kmem_scheme" where
  "kfree_argv s [] = Inr s"
| "kfree_argv s (a # as) = bindr (kfree s a) (\<lambda>s1. kfree_argv s1 as)"

definition sys_exec :: "u64 \<Rightarrow> (nat \<Rightarrow> cstr) \<Rightarrow> 'a istate_scheme \<Rightarrow> fault + 'a istate_scheme \<times> u64" where
  "sys_exec trampoline u s =
     bindr (argaddr s 1) (\<lambda>(s1, uargv).
     bindr (argpath s1 0 (u 0)) (\<lambda>(s2, po). case po of None \<Rightarrow> Inr (s2, -1) | Some path \<Rightarrow>
     bindr (fetch_argv MAXARG s2 uargv []) (\<lambda>(s3, argv, ok).
       if ok then
         bindr (exec trampoline (\<lambda>k. u (k + 1)) s3 path argv) (\<lambda>(s4, ret).
         bindr (kfree_argv s4 argv) (\<lambda>s5. Inr (s5, of_int ret)))
       else bindr (kfree_argv s3 argv) (\<lambda>s4. Inr (s4, -1)))))"

definition u32_bytes :: "u32 \<Rightarrow> u8 list" where
  "u32_bytes v = map (\<lambda>i. ucast (drop_bit (8 * i) v)) [0..<4]"

definition close_both :: "'a fstate_scheme \<Rightarrow> nat \<Rightarrow> nat \<Rightarrow> fault + 'a fstate_scheme \<times> u64" where
  "close_both s frd fwr = bindr (fileclose s frd) (\<lambda>s1. bindr (fileclose s1 fwr) (\<lambda>s2. Inr (s2, -1)))"

definition sys_pipe :: "'a fstate_scheme \<Rightarrow> fault + 'a fstate_scheme \<times> u64" where
  "sys_pipe s =
     with_myproc s (\<lambda>s0 p.
     bindr (argaddr s0 0) (\<lambda>(s1, fdarray).
     bindr (pipealloc s1) (\<lambda>(s2, fs). case fs of None \<Rightarrow> Inr (s2, -1) | Some (frd, fwr) \<Rightarrow>
     bindr (fdalloc s2 frd) (\<lambda>(s3, fd0o). case fd0o of None \<Rightarrow> close_both s3 frd fwr | Some fd0 \<Rightarrow>
     bindr (fdalloc s3 fwr) (\<lambda>(s4, fd1o). case fd1o of None \<Rightarrow> close_both (set_ofile s4 p fd0 None) frd fwr | Some fd1 \<Rightarrow>
     bindr (bindr (copyout s4 (pagetable (procs s4 ! p)) fdarray (\<lambda>i. u32_bytes (of_nat fd0) ! i) 4) (\<lambda>(s5, r).
              if r < 0 then Inr (s5, r)
              else copyout s5 (pagetable (procs s5 ! p)) (fdarray + 4) (\<lambda>i. u32_bytes (of_nat fd1) ! i) 4)) (\<lambda>(s6, r).
       if r < 0 then close_both (set_ofile (set_ofile s6 p fd0 None) p fd1 None) frd fwr
       else Inr (s6, 0)))))))"

end
