(* ===== verification/Proc_life.thy ===== *)
theory Proc_life
  imports Sysfile
begin

text \<open>
  The part of \<^verbatim>\<open>kernel/proc.c\<close> that needs the file system: the first process, \<open>fork\<close>, \<open>exit\<close> and \<open>wait\<close>,
  with their system calls. \<open>exit\<close> never returns: its result is the state at the last context switch. A \<open>wait\<close> that
  finds no zombie stops at the call of \<open>sleep\<close>.
\<close>

definition initcode :: "u8 list" where
  "initcode =
    [0x17, 0x05, 0x00, 0x00, 0x13, 0x05, 0x45, 0x02,
     0x97, 0x05, 0x00, 0x00, 0x93, 0x85, 0x35, 0x02,
     0x93, 0x08, 0x70, 0x00, 0x73, 0x00, 0x00, 0x00,
     0x93, 0x08, 0x20, 0x00, 0x73, 0x00, 0x00, 0x00,
     0xef, 0xf0, 0x9f, 0xff, 0x2f, 0x69, 0x6e, 0x69,
     0x74, 0x00, 0x00, 0x24, 0x00, 0x00, 0x00, 0x00,
     0x00, 0x00, 0x00, 0x00]"

definition initcode_name :: "u8 list" where
  "initcode_name = [0x69, 0x6e, 0x69, 0x74, 0x63, 0x6f, 0x64, 0x65]"

text \<open>A failed \<open>allocproc\<close> is a null pointer that \<open>userinit\<close> dereferences.\<close>

definition userinit :: "u64 \<Rightarrow> u64 \<Rightarrow> cstr \<Rightarrow> 'a istate_scheme \<Rightarrow> fault + 'a istate_scheme" where
  "userinit trampoline forkret name0 s =
     bindr (allocproc s trampoline forkret) (\<lambda>(s1, po).
       let s2 = s1\<lparr>initproc := po\<rparr>
       in case po of None \<Rightarrow> Inl (BadAccess 0)
       | Some p \<Rightarrow>
           bindr (uvmfirst s2 (pagetable (procs s2 ! p)) (cstr_of initcode) (of_nat (length initcode))) (\<lambda>s3.
           let s4 = upd_proc s3 p (\<lambda>x. x\<lparr>sz := PGSIZE\<rparr>);
               s5 = set_tf (set_tf s4 p tf_epc 0) p tf_sp PGSIZE;
               s6 = upd_proc s5 p (\<lambda>x. x\<lparr>p_name := safestrcpy (p_name x) (cstr_of initcode_name) 16\<rparr>)
           in bindr (namei s6 [SLASH] name0) (\<lambda>(s7, ipo).
              release_proc (upd_proc s7 p (\<lambda>x. x\<lparr>cwd := ipo, state := RUNNABLE\<rparr>)) p)))"

text \<open>The references of the child to the open files, from descriptor \<open>i\<close> on.\<close>

fun fork_files :: "nat \<Rightarrow> nat \<Rightarrow> 'a fstate_scheme \<Rightarrow> nat \<Rightarrow> nat \<Rightarrow> fault + 'a fstate_scheme" where
  "fork_files 0 i s p np = Inr s"
| "fork_files (Suc k) i s p np =
     (case ofile (procs s ! p) ! i of
        None \<Rightarrow> fork_files k (Suc i) s p np
      | Some f \<Rightarrow> bindr (filedup s f) (\<lambda>(s1, f1). fork_files k (Suc i) (set_ofile s1 np i (Some f1)) p np))"

definition acquire_wait :: "'a pstate_scheme \<Rightarrow> fault + 'a pstate_scheme" where
  "acquire_wait s = bindr (acquire (wait_lock s) (hart s)) (\<lambda>(l, c). Inr (s\<lparr>wait_lock := l, hart := c\<rparr>))"

definition release_wait :: "'a pstate_scheme \<Rightarrow> fault + 'a pstate_scheme" where
  "release_wait s = bindr (release (wait_lock s) (hart s)) (\<lambda>(l, c). Inr (s\<lparr>wait_lock := l, hart := c\<rparr>))"

text \<open>The second half of \<open>fork\<close>, once the memory has been copied.\<close>

definition fork_child :: "'a fstate_scheme \<Rightarrow> nat \<Rightarrow> nat \<Rightarrow> fault + 'a fstate_scheme \<times> int" where
  "fork_child s p np =
     (let s1 = upd_proc s np (\<lambda>x. x\<lparr>sz := sz (procs s ! p)\<rparr>);
          s2 = s1\<lparr>mem := put_bytes (mem s1) (trapframe (procs s1 ! np)) (\<lambda>i. mem s1 (trapframe (procs s1 ! p) + of_nat i)) 288\<rparr>;
          s3 = set_tf s2 np (tf_a 0) 0
      in bindr (fork_files NOFILE 0 s3 p np) (\<lambda>s4.
         bindr (case cwd (procs s4 ! p) of None \<Rightarrow> Inl (BadAccess 0) | Some ip \<Rightarrow> idup s4 ip) (\<lambda>(s5, ip).
         let s6 = upd_proc s5 np (\<lambda>x. x\<lparr>cwd := Some ip, p_name := safestrcpy (p_name x) (p_name (procs s5 ! p)) 16\<rparr>);
             n = pid (procs s6 ! np)
         in bindr (release_proc s6 np) (\<lambda>s7.
            bindr (acquire_wait s7) (\<lambda>s8.
            bindr (release_wait (upd_proc s8 np (\<lambda>x. x\<lparr>parent := Some p\<rparr>))) (\<lambda>s9.
            bindr (acquire_proc s9 np) (\<lambda>s10.
            bindr (release_proc (upd_proc s10 np (\<lambda>x. x\<lparr>state := RUNNABLE\<rparr>)) np) (\<lambda>s11. Inr (s11, n)))))))))"

definition fork :: "u64 \<Rightarrow> u64 \<Rightarrow> 'a fstate_scheme \<Rightarrow> fault + 'a fstate_scheme \<times> int" where
  "fork trampoline forkret s =
     with_myproc s (\<lambda>s1 p.
     bindr (allocproc s1 trampoline forkret) (\<lambda>(s2, npo).
       case npo of None \<Rightarrow> Inr (s2, -1)
       | Some np \<Rightarrow>
           bindr (uvmcopy s2 (pagetable (procs s2 ! p)) (pagetable (procs s2 ! np)) (sz (procs s2 ! p))) (\<lambda>(s3, r).
             if r < 0 then bindr (freeproc s3 np) (\<lambda>s4. bindr (release_proc s4 np) (\<lambda>s5. Inr (s5, -1)))
             else fork_child s3 p np)))"

fun exit_files :: "nat \<Rightarrow> nat \<Rightarrow> 'a fstate_scheme \<Rightarrow> nat \<Rightarrow> fault + 'a fstate_scheme" where
  "exit_files 0 fd s p = Inr s"
| "exit_files (Suc k) fd s p =
     (case ofile (procs s ! p) ! fd of
        None \<Rightarrow> exit_files k (Suc fd) s p
      | Some f \<Rightarrow> bindr (fileclose s f) (\<lambda>s1. exit_files k (Suc fd) (set_ofile s1 p fd None) p))"

definition exit :: "'a fstate_scheme \<Rightarrow> int \<Rightarrow> fault + 'a fstate_scheme \<times> int" where
  "exit s status =
     with_myproc s (\<lambda>s0 p.
       if Some p = initproc s0 then Inl (Panic ''init exiting'')
       else
         bindr (exit_files NOFILE 0 s0 p) (\<lambda>s1.
         bindr (begin_op s1) (\<lambda>s2.
         bindr (case cwd (procs s2 ! p) of None \<Rightarrow> Inl (BadAccess 0) | Some ip \<Rightarrow> iput s2 ip) (\<lambda>s3.
         bindr (end_op s3) (\<lambda>s4.
         bindr (acquire_wait (upd_proc s4 p (\<lambda>x. x\<lparr>cwd := None\<rparr>))) (\<lambda>s5.
         bindr (reparent s5 p) (\<lambda>s6.
         bindr (wakeup s6 (case parent (procs s6 ! p) of None \<Rightarrow> WNone | Some q \<Rightarrow> WProc q)) (\<lambda>s7.
         bindr (acquire_proc s7 p) (\<lambda>s8.
         bindr (release_wait (upd_proc s8 p (\<lambda>x. x\<lparr>xstate := status, state := ZOMBIE\<rparr>))) (\<lambda>s9. sched s9))))))))))"

text \<open>One scan of \<open>wait\<close> over the table: the value it returns, or whether there are children at all.\<close>

datatype wscan = WDone int | WScanned bool

fun wait_scan :: "nat \<Rightarrow> nat \<Rightarrow> 'a pstate_scheme \<Rightarrow> nat \<Rightarrow> u64 \<Rightarrow> bool \<Rightarrow> fault + 'a pstate_scheme \<times> wscan" where
  "wait_scan 0 i s p addr havekids = Inr (s, WScanned havekids)"
| "wait_scan (Suc k) i s p addr havekids =
     (if parent (procs s ! i) = Some p then
        bindr (acquire_proc s i) (\<lambda>s1.
          if state (procs s1 ! i) = ZOMBIE then
            let n = pid (procs s1 ! i)
            in bindr (if addr \<noteq> 0
                      then copyout s1 (pagetable (procs s1 ! p)) addr (\<lambda>j. u32_bytes (of_int (xstate (procs s1 ! i))) ! j) 4
                      else Inr (s1, 0)) (\<lambda>(s2, r).
                 if r < 0 then bindr (release_proc s2 i) (\<lambda>s3. bindr (release_wait s3) (\<lambda>s4. Inr (s4, WDone (-1))))
                 else bindr (freeproc s2 i) (\<lambda>s3.
                      bindr (release_proc s3 i) (\<lambda>s4.
                      bindr (release_wait s4) (\<lambda>s5. Inr (s5, WDone n)))))
          else bindr (release_proc s1 i) (\<lambda>s2. wait_scan k (Suc i) s2 p addr True))
      else wait_scan k (Suc i) s p addr havekids)"

text \<open>A round of the outer loop, with the lock held.\<close>

definition wait_round :: "'a pstate_scheme \<Rightarrow> nat \<Rightarrow> u64 \<Rightarrow> fault + 'a pstate_scheme \<times> ptransfer" where
  "wait_round s p addr =
     bindr (wait_scan NPROC 0 s p addr False) (\<lambda>(s1, w).
       case w of WDone r \<Rightarrow> Inr (s1, Returned r)
       | WScanned kids \<Rightarrow>
           bindr (if \<not> kids then Inr (s1, True) else bindr (killed s1 p) (\<lambda>(s2, k). Inr (s2, k \<noteq> 0))) (\<lambda>(s2, stop).
             if stop then bindr (release_wait s2) (\<lambda>s3. Inr (s3, Returned (-1))) else Inr (s2, Asleep 0)))"

definition wait :: "'a pstate_scheme \<Rightarrow> u64 \<Rightarrow> fault + 'a pstate_scheme \<times> ptransfer" where
  "wait s addr = with_myproc s (\<lambda>s1 p. bindr (acquire_wait s1) (\<lambda>s2. wait_round s2 p addr))"

section \<open>System calls\<close>

definition sys_exit :: "'a fstate_scheme \<Rightarrow> fault + 'a fstate_scheme \<times> int" where
  "sys_exit s = bindr (argint s 0) (\<lambda>(s1, n). exit s1 n)"

definition sys_fork :: "u64 \<Rightarrow> u64 \<Rightarrow> 'a fstate_scheme \<Rightarrow> fault + 'a fstate_scheme \<times> u64" where
  "sys_fork trampoline forkret s = bindr (fork trampoline forkret s) (\<lambda>(s1, r). Inr (s1, of_int r))"

definition sys_wait :: "'a pstate_scheme \<Rightarrow> fault + 'a pstate_scheme \<times> u64" where
  "sys_wait s = bindr (argaddr s 0) (\<lambda>(s1, p). bindr (awake (wait s1 p)) (\<lambda>(s2, r). Inr (s2, of_int r)))"

end
