(* ===== verification/Virtio_thms.thy ===== *)
theory Virtio_thms
  imports Virtio Proc_thms
begin

text \<open>
  One request through the disk driver: with the disk idle, \<open>virtio_disk_rw\<close> allocates a chain of
  three descriptors, the device serves it, the interrupt completes it, and the chain is free again.
\<close>

section \<open>Frames\<close>

text \<open>Waking processes changes their states only.\<close>

definition woken :: "proc list \<Rightarrow> proc list \<Rightarrow> bool" where
  "woken ps qs \<longleftrightarrow> length qs = length ps \<and> (\<forall>i<length ps. \<exists>st. qs ! i = (ps ! i)\<lparr>state := st\<rparr>)"

lemma same_state [simp]: "\<exists>st. p = p\<lparr>state := st\<rparr>" for p :: proc
  by (rule exI [of _ "state p"]) simp

lemma woken_refl [simp]: "woken ps ps"
  by (simp add: woken_def)

lemma woken_trans: "woken ps qs \<Longrightarrow> woken qs rs \<Longrightarrow> woken ps rs"
  by (force simp: woken_def)

lemma wokenD:
  assumes "woken ps qs" and "i < length ps"
  shows "p_lock (qs ! i) = p_lock (ps ! i)" "pid (qs ! i) = pid (ps ! i)"
  using assms by (force simp: woken_def)+

lemma idle_woken: "idle_procs s \<Longrightarrow> woken (procs s) ps \<Longrightarrow> cpu_ok c \<Longrightarrow> idle_procs (s\<lparr>hart := c, procs := ps\<rparr>)"
  using wokenD(1) [of "procs s" ps] by (auto simp: idle_procs_def woken_def)

lemma wakeup_woken:
  assumes "idle_procs s"
  shows "\<exists>ps. wakeup s ch = Inr (s\<lparr>hart := settle (hart s), procs := ps\<rparr>) \<and> woken (procs s) ps"
proof -
  have "woken (procs s) (map (\<lambda>i. wake ch (curproc s) i (procs s ! i)) [0..<NPROC])"
    using assms by (auto simp: woken_def idle_procs_def wake_def)
  then show ?thesis
    using wakeup_eq [OF assms] by blast
qed

lemma settle_push_off [simp]: "cpu_ok c \<Longrightarrow> settle (push_off c) = push_off c"
  by (auto simp: settle_def cpu_ok_def spin_defs)

lemma push_off_settle [simp]: "push_off (settle c) = push_off c"
  by (cases c) (auto simp: settle_def spin_defs)

text \<open>Updates of different fields are written in the order of the fields.\<close>

lemma io_order [simp]:
  "hart_update f (procs_update g s) = procs_update g (hart_update f s)"
  "hart_update f (medium_update h t) = medium_update h (hart_update f t)"
  "hart_update f (vdisk_update k t) = vdisk_update k (hart_update f t)"
  "hart_update f (bc_lock_update l t) = bc_lock_update l (hart_update f t)"
  "hart_update f (bufs_update m t) = bufs_update m (hart_update f t)"
  "procs_update g (medium_update h t) = medium_update h (procs_update g t)"
  "procs_update g (vdisk_update k t) = vdisk_update k (procs_update g t)"
  "procs_update g (bc_lock_update l t) = bc_lock_update l (procs_update g t)"
  "procs_update g (bufs_update m t) = bufs_update m (procs_update g t)"
  "medium_update h (vdisk_update k t) = vdisk_update k (medium_update h t)"
  "medium_update h (bc_lock_update l t) = bc_lock_update l (medium_update h t)"
  "medium_update h (bufs_update m t) = bufs_update m (medium_update h t)"
  "vdisk_update k (bc_lock_update l t) = bc_lock_update l (vdisk_update k t)"
  "vdisk_update k (bufs_update m t) = bufs_update m (vdisk_update k t)"
  "bc_lock_update l (bufs_update m t) = bufs_update m (bc_lock_update l t)"
  for s :: "'a pstate_scheme" and t :: "'b bstate_scheme"
  by (cases s; simp; fail | cases t; simp)+

section \<open>The driver's lock\<close>

lemma acquire_vdisk_ok:
  "lk_free (vdisk_lock (vdisk s)) \<Longrightarrow> acquire_vdisk s =
     Inr (s\<lparr>vdisk := (vdisk s)\<lparr>vdisk_lock := held_lock (vdisk_lock (vdisk s)) (hartid (hart s))\<rparr>, hart := push_off (hart s)\<rparr>)"
  by (simp add: acquire_vdisk_def acquire_free held_lock_def)

lemma release_vdisk_ok:
  assumes "lk_free lk" and "cpu_ok c" and "vdisk_lock (vdisk s) = held_lock lk (hartid c)" and "hart s = push_off c"
  shows "release_vdisk s = Inr (s\<lparr>vdisk := (vdisk s)\<lparr>vdisk_lock := lk\<rparr>, hart := settle c\<rparr>)"
  using release_held [OF assms(1,2)] assms(3,4) by (simp add: release_vdisk_def held_lock_def)

section \<open>A request on the idle disk\<close>

definition vd_idle :: "vdisk \<Rightarrow> bool" where
  "vd_idle d \<longleftrightarrow> dfree d = replicate NUM True \<and> length (desc d) = NUM \<and> length (avail_ring d) = NUM \<and>
     length (used_ring d) = NUM \<and> length (info d) = NUM \<and> length (ops d) = NUM \<and> used_idx d = dev_used_idx d \<and>
     lk_free (vdisk_lock d)"

lemma mod_NUM: "unat ((x :: u16) mod of_nat NUM) < NUM"
  by (simp add: unat_mod)

lemma alloc3_idle:
  assumes "dfree (vdisk s) = replicate NUM True"
  shows "alloc3_desc s = Inr (s\<lparr>vdisk := (vdisk s)\<lparr>dfree := [False, False, False, True, True, True, True, True]\<rparr>\<rparr>, Some [0, 1, 2])"
  using assms by (simp add: alloc3_desc_def alloc_desc_def numeral_eq_Suc)


definition null_desc :: virtq_desc where
  "null_desc = \<lparr>d_addr = DNull, d_len = 0, d_flags = 0, d_next = 0\<rparr>"

lemma free_desc_ok:
  assumes "idle_procs s" and "i < NUM" and "\<not> dfree (vdisk s) ! i"
  shows "\<exists>ps. free_desc s i = Inr (s\<lparr>hart := settle (hart s), procs := ps,
      vdisk := (vdisk s)\<lparr>desc := (desc (vdisk s))[i := null_desc], dfree := (dfree (vdisk s))[i := True]\<rparr>\<rparr>) \<and> woken (procs s) ps"
proof -
  let ?s = "s\<lparr>vdisk := (vdisk s)\<lparr>desc := (desc (vdisk s))[i := null_desc], dfree := (dfree (vdisk s))[i := True]\<rparr>\<rparr>"
  have "idle_procs ?s"
    using assms(1) by (simp add: idle_procs_def)
  then obtain ps where "wakeup ?s WDisk = Inr (?s\<lparr>hart := settle (hart ?s), procs := ps\<rparr>)" "woken (procs ?s) ps"
    using wakeup_woken by blast
  then show ?thesis
    using assms(2,3) by (intro exI [of _ ps]) (simp add: free_desc_def null_desc_def Let_def)
qed

text \<open>A chain of the descriptors 0, 1 and 2 is given back.\<close>

lemma free_chain_ok:
  assumes "idle_procs s" and "settle (hart s) = hart s"
    and "dfree (vdisk s) = [False, False, False, True, True, True, True, True]" and "length (desc (vdisk s)) = NUM"
    and "d_flags (desc (vdisk s) ! 0) AND VRING_DESC_F_NEXT \<noteq> 0" "d_next (desc (vdisk s) ! 0) = 1"
    and "d_flags (desc (vdisk s) ! 1) AND VRING_DESC_F_NEXT \<noteq> 0" "d_next (desc (vdisk s) ! 1) = 2"
    and "d_flags (desc (vdisk s) ! 2) AND VRING_DESC_F_NEXT = 0"
  shows "\<exists>ps. free_chain NUM s 0 = Inr (s\<lparr>procs := ps,
      vdisk := (vdisk s)\<lparr>desc := (desc (vdisk s))[0 := null_desc, 1 := null_desc, 2 := null_desc], dfree := replicate NUM True\<rparr>\<rparr>) \<and>
      woken (procs s) ps"
proof -
  obtain ps where ps: "free_desc s 0 = Inr (s\<lparr>hart := settle (hart s), procs := ps,
      vdisk := (vdisk s)\<lparr>desc := (desc (vdisk s))[0 := null_desc], dfree := (dfree (vdisk s))[0 := True]\<rparr>\<rparr>)" "woken (procs s) ps"
    using free_desc_ok [OF assms(1), of 0] assms(3) by auto
  let ?s1 = "s\<lparr>procs := ps, vdisk := (vdisk s)\<lparr>desc := (desc (vdisk s))[0 := null_desc], dfree := (dfree (vdisk s))[0 := True]\<rparr>\<rparr>"
  have i1: "idle_procs ?s1"
    using idle_woken [OF assms(1) ps(2), of "hart s"] assms(1) by (simp add: idle_procs_def)
  obtain qs where qs: "free_desc ?s1 1 = Inr (?s1\<lparr>hart := settle (hart ?s1), procs := qs,
      vdisk := (vdisk ?s1)\<lparr>desc := (desc (vdisk ?s1))[1 := null_desc], dfree := (dfree (vdisk ?s1))[1 := True]\<rparr>\<rparr>)" "woken ps qs"
    using free_desc_ok [OF i1, of 1] assms(3) by auto
  let ?s2 = "?s1\<lparr>procs := qs, vdisk := (vdisk ?s1)\<lparr>desc := (desc (vdisk ?s1))[1 := null_desc], dfree := (dfree (vdisk ?s1))[1 := True]\<rparr>\<rparr>"
  have i2: "idle_procs ?s2"
    using idle_woken [OF i1, of qs "hart s"] qs(2) assms(1) by (simp add: idle_procs_def)
  obtain rs where rs: "free_desc ?s2 2 = Inr (?s2\<lparr>hart := settle (hart ?s2), procs := rs,
      vdisk := (vdisk ?s2)\<lparr>desc := (desc (vdisk ?s2))[2 := null_desc], dfree := (dfree (vdisk ?s2))[2 := True]\<rparr>\<rparr>)" "woken qs rs"
    using free_desc_ok [OF i2, of 2] assms(3) by auto
  have "woken (procs s) rs"
    using ps(2) qs(2) rs(2) by (blast intro: woken_trans)
  moreover have "free_chain NUM s 0 = free_chain 7 ?s1 1"
    using ps(1) assms(2,5,6) free_chain.simps(2) [of 7 s 0] by (simp add: Let_def)
  moreover have "free_chain 7 ?s1 1 = free_chain 6 ?s2 2"
    using qs(1) assms(2,4,7,8) free_chain.simps(2) [of 6 ?s1 1] by (simp add: Let_def)
  moreover have "free_chain 6 ?s2 2 = Inr (?s2\<lparr>procs := rs,
      vdisk := (vdisk ?s2)\<lparr>desc := (desc (vdisk ?s2))[2 := null_desc], dfree := (dfree (vdisk ?s2))[2 := True]\<rparr>\<rparr>)"
    using rs(1) assms(2,4,9) free_chain.simps(2) [of 5 ?s2 2] by (simp add: Let_def)
  ultimately show ?thesis
    using assms(3) by (intro exI [of _ rs]) (simp add: numeral_eq_Suc)
qed


definition sector_of :: "u32 \<Rightarrow> u64" where
  "sector_of blockno = ucast (blockno * of_nat (BSIZE div 512))"

definition rw_type :: "bool \<Rightarrow> u32" where
  "rw_type write = (if write then VIRTIO_BLK_T_OUT else VIRTIO_BLK_T_IN)"

text \<open>The device finds the request that was just put on the available ring.\<close>

lemma device_serve_ok:
  assumes d: "length (desc d) = NUM" "length (avail_ring d) = NUM" "length (info d) = NUM" "length (ops d) = NUM"
    and v: "vdisk s = (format_req d 0 1 2 b blockno write)\<lparr>vdisk_lock := lk\<rparr>"
    and io: "dev_io s (medium s) (rw_type write) (sector_of blockno) (b_data (bufs s ! b)) = (m, data, st)"
  shows "device_serve s = s\<lparr>bufs := (bufs s)[b := (bufs s ! b)\<lparr>b_data := data\<rparr>], medium := m,
    vdisk := (vdisk s)\<lparr>info := (info (vdisk s))[0 := \<lparr>i_b = Some b, i_status = st\<rparr>],
      used_ring := (used_ring d)[unat (dev_used_idx d mod of_nat NUM) := 0], dev_used_idx := dev_used_idx d + 1\<rparr>\<rparr>"
proof -
  have "avail_ring (vdisk s) ! unat ((avail_idx (vdisk s) - 1) mod of_nat NUM) = 0"
    using d(2) mod_NUM [of "avail_idx d"] by (simp add: v format_req_def Let_def)
  moreover have "desc (vdisk s) ! 0 = \<lparr>d_addr = DOps 0, d_len = 16, d_flags = VRING_DESC_F_NEXT, d_next = 1\<rparr>"
    "d_addr (desc (vdisk s) ! 1) = DData b" "d_next (desc (vdisk s) ! 1) = 2" "d_addr (desc (vdisk s) ! 2) = DStatus 0"
    "r_type (ops (vdisk s) ! 0) = rw_type write" "r_sector (ops (vdisk s) ! 0) = sector_of blockno"
    "info (vdisk s) ! 0 = \<lparr>i_b = Some b, i_status = 0xff\<rparr>"
    "used_ring (vdisk s) = used_ring d" "dev_used_idx (vdisk s) = dev_used_idx d"
    using d by (simp_all add: v format_req_def Let_def rw_type_def sector_of_def)
  ultimately show ?thesis
    using io by (simp add: device_serve_def Let_def upd_buf_def)
qed

text \<open>The interrupt for one served request, and for one the device failed.\<close>

lemma virtio_disk_intr_ok:
  assumes p: "idle_procs s" and lk: "lk_free (vdisk_lock (vdisk s))"
    and u: "dev_used_idx (vdisk s) = used_idx (vdisk s) + 1" "used_ring (vdisk s) ! unat (used_idx (vdisk s) mod of_nat NUM) = 0"
    and i: "info (vdisk s) ! 0 = \<lparr>i_b = Some b, i_status = st\<rparr>"
  shows "if st \<noteq> 0 then virtio_disk_intr s = Inl (Panic ''virtio_disk_intr status'')
    else \<exists>ps. virtio_disk_intr s = Inr (s\<lparr>hart := settle (hart s), procs := ps, bufs := (bufs s)[b := (bufs s ! b)\<lparr>b_disk := 0\<rparr>],
      vdisk := (vdisk s)\<lparr>used_idx := used_idx (vdisk s) + 1\<rparr>\<rparr>) \<and> woken (procs s) ps"
proof -
  let ?c = "hart s"
  have c: "cpu_ok ?c"
    using p by (simp add: idle_procs_def)
  let ?d1 = "(vdisk s)\<lparr>vdisk_lock := held_lock (vdisk_lock (vdisk s)) (hartid ?c)\<rparr>"
  let ?s1 = "s\<lparr>vdisk := ?d1, hart := push_off ?c\<rparr>"
  let ?s2 = "upd_buf ?s1 b (\<lambda>x. x\<lparr>b_disk := 0\<rparr>)"
  have "idle_procs ?s2"
    using p push_off_ok [OF c] by (simp add: idle_procs_def upd_buf_def)
  then obtain ps where ps: "wakeup ?s2 (WBuf b) = Inr (?s2\<lparr>hart := settle (hart ?s2), procs := ps\<rparr>)" "woken (procs ?s2) ps"
    using wakeup_woken by blast
  let ?s3 = "?s2\<lparr>procs := ps, vdisk := ?d1\<lparr>used_idx := used_idx (vdisk s) + 1\<rparr>\<rparr>"
  have acq: "acquire_vdisk s = Inr ?s1"
    using acquire_vdisk_ok [OF lk] by simp
  have loop: "virtio_intr_loop NUM ?s1 =
      (if st \<noteq> 0 then Inl (Panic ''virtio_disk_intr status'') else virtio_intr_loop 7 ?s3)"
    using virtio_intr_loop.simps(2) [of 7 ?s1] ps(1) u i c by (simp add: Let_def upd_buf_def)
  have rest: "virtio_intr_loop 7 ?s3 = Inr ?s3"
    using virtio_intr_loop.simps(2) [of 6 ?s3] u by (simp add: upd_buf_def)
  have "release_vdisk ?s3 = Inr (?s3\<lparr>vdisk := (vdisk ?s3)\<lparr>vdisk_lock := vdisk_lock (vdisk s)\<rparr>, hart := settle ?c\<rparr>)"
    by (rule release_vdisk_ok [OF lk c]) (simp_all add: upd_buf_def)
  then show ?thesis
    using acq loop rest ps(2) unfolding virtio_disk_intr_def by (auto simp: upd_buf_def intro!: exI [of _ ps])
qed


lemma format_req_simps [simp]:
  "used_idx (format_req d i j k b blockno write) = used_idx d" "vdisk_lock (format_req d i j k b blockno write) = vdisk_lock d"
  "dfree (format_req d i j k b blockno write) = dfree d" "length (info (format_req d i j k b blockno write)) = length (info d)"
  "length (desc (format_req d i j k b blockno write)) = length (desc d)"
  by (simp_all add: format_req_def Let_def)

lemma format_req_chain:
  assumes "length (desc d) = NUM"
  shows "d_flags (desc (format_req d 0 1 2 b blockno write) ! 0) AND VRING_DESC_F_NEXT \<noteq> 0" "d_next (desc (format_req d 0 1 2 b blockno write) ! 0) = 1"
    "d_flags (desc (format_req d 0 1 2 b blockno write) ! 1) AND VRING_DESC_F_NEXT \<noteq> 0" "d_next (desc (format_req d 0 1 2 b blockno write) ! 1) = 2"
    "d_flags (desc (format_req d 0 1 2 b blockno write) ! 2) AND VRING_DESC_F_NEXT = 0"
  using assms by (simp_all add: format_req_def Let_def VRING_DESC_F_NEXT_def VRING_DESC_F_WRITE_def)

lemma virtio_disk_rw_ok:
  assumes p: "idle_procs s" and v: "vd_idle (vdisk s)" and b: "b < length (bufs s)"
    and io: "dev_io s (medium s) (rw_type write) (sector_of (b_blockno (bufs s ! b))) (b_data (bufs s ! b)) = (m, data, st)"
  shows "if st \<noteq> 0 then virtio_disk_rw s b write = Inl (Panic ''virtio_disk_intr status'')
    else \<exists>ps d. virtio_disk_rw s b write = Inr (s\<lparr>hart := settle (hart s), procs := ps, medium := m, vdisk := d,
        bufs := (bufs s)[b := (bufs s ! b)\<lparr>b_data := data, b_disk := 0\<rparr>]\<rparr>) \<and> woken (procs s) ps \<and> vd_idle d"
proof -
  let ?c = "hart s" and ?lk = "vdisk_lock (vdisk s)" and ?bn = "b_blockno (bufs s ! b)"
  have c: "cpu_ok ?c" and lk: "lk_free ?lk" and l: "length (desc (vdisk s)) = NUM" "length (avail_ring (vdisk s)) = NUM"
    "length (info (vdisk s)) = NUM" "length (ops (vdisk s)) = NUM" "length (used_ring (vdisk s)) = NUM"
    and u: "used_idx (vdisk s) = dev_used_idx (vdisk s)" and df: "dfree (vdisk s) = replicate NUM True"
    using p v by (simp_all add: idle_procs_def vd_idle_def)
  let ?d1 = "(vdisk s)\<lparr>vdisk_lock := held_lock ?lk (hartid ?c), dfree := [False, False, False, True, True, True, True, True]\<rparr>"
  let ?f = "format_req ?d1 0 1 2 b ?bn write"
  let ?s3 = "s\<lparr>hart := push_off ?c, vdisk := ?f, bufs := (bufs s)[b := (bufs s ! b)\<lparr>b_disk := 1\<rparr>]\<rparr>"
  let ?s4 = "?s3\<lparr>hart := settle ?c, vdisk := ?f\<lparr>vdisk_lock := ?lk\<rparr>\<rparr>"
  have start: "virtio_disk_rw s b write = bindr (virtio_disk_intr (device_serve ?s4)) (\<lambda>s5. bindr (acquire_vdisk s5) (\<lambda>s6.
            if b_disk (bufs s6 ! b) = 1 then Inl (Blocked ''buf'')
            else let d = vdisk s6; s7 = s6\<lparr>vdisk := d\<lparr>info := (info d)[0 := (info d ! 0)\<lparr>i_b := None\<rparr>]\<rparr>\<rparr>
                 in bindr (free_chain NUM s7 0) (\<lambda>s8. release_vdisk s8)))"
    using acquire_vdisk_ok [OF lk] alloc3_idle [of "s\<lparr>vdisk := (vdisk s)\<lparr>vdisk_lock := held_lock ?lk (hartid ?c)\<rparr>, hart := push_off ?c\<rparr>"]
      release_vdisk_ok [OF lk c, of ?s3] df
    by (simp add: virtio_disk_rw_def upd_buf_def Let_def cong: if_cong)
  let ?f5 = "?f\<lparr>vdisk_lock := ?lk, info := (info ?f)[0 := \<lparr>i_b = Some b, i_status = st\<rparr>],
      used_ring := (used_ring (vdisk s))[unat (used_idx (vdisk s) mod of_nat NUM) := 0], dev_used_idx := dev_used_idx (vdisk s) + 1\<rparr>"
  let ?s5 = "s\<lparr>hart := settle ?c, medium := m, vdisk := ?f5, bufs := (bufs s)[b := (bufs s ! b)\<lparr>b_disk := 1, b_data := data\<rparr>]\<rparr>"
  have serve: "device_serve ?s4 = ?s5"
    using device_serve_ok [where d = ?d1 and s = ?s4 and lk = ?lk] l io u b by simp
  have "dev_used_idx ?f5 = used_idx ?f5 + 1" "used_ring ?f5 ! unat (used_idx ?f5 mod of_nat NUM) = 0"
    "info ?f5 ! 0 = \<lparr>i_b = Some b, i_status = st\<rparr>"
    using l u mod_NUM [of "used_idx (vdisk s)"] by simp_all
  note intr = virtio_disk_intr_ok [of ?s5 b st, simplified, OF _ _ this [simplified]]
  show ?thesis
  proof (cases "st = 0")
    case False
    then show ?thesis
      using start serve intr p lk by (simp add: idle_procs_def)
  next
    case True
    then obtain ps where ps: "virtio_disk_intr ?s5 = Inr (s\<lparr>hart := settle ?c, procs := ps, medium := m, vdisk := ?f5\<lparr>used_idx := used_idx ?f5 + 1\<rparr>,
        bufs := (bufs s)[b := (bufs s ! b)\<lparr>b_data := data, b_disk := 0\<rparr>]\<rparr>)" "woken (procs s) ps"
      using intr p lk b by (auto simp: idle_procs_def)
    let ?d6 = "?f5\<lparr>used_idx := used_idx ?f5 + 1\<rparr>"
    let ?s6 = "s\<lparr>hart := push_off ?c, procs := ps, medium := m, vdisk := ?d6\<lparr>vdisk_lock := held_lock ?lk (hartid ?c)\<rparr>,
        bufs := (bufs s)[b := (bufs s ! b)\<lparr>b_data := data, b_disk := 0\<rparr>]\<rparr>"
    let ?s7 = "?s6\<lparr>vdisk := (vdisk ?s6)\<lparr>info := (info ?d6)[0 := (info ?d6 ! 0)\<lparr>i_b := None\<rparr>]\<rparr>\<rparr>"
    have "idle_procs ?s7"
      using idle_woken [OF p ps(2) push_off_ok [OF c]] by (simp add: idle_procs_def)
    then obtain qs where qs: "free_chain NUM ?s7 0 = Inr (?s7\<lparr>procs := qs, vdisk := (vdisk ?s7)\<lparr>
        desc := (desc (vdisk ?s7))[0 := null_desc, 1 := null_desc, 2 := null_desc], dfree := replicate NUM True\<rparr>\<rparr>)" "woken (procs ?s7) qs"
      using free_chain_ok [of ?s7] c format_req_chain [where d = ?d1] l(1) by auto
    let ?d7 = "(vdisk ?s7)\<lparr>desc := (desc (vdisk ?s7))[0 := null_desc, 1 := null_desc, 2 := null_desc], dfree := replicate NUM True\<rparr>"
    let ?d8 = "?d7\<lparr>vdisk_lock := ?lk\<rparr>"
    have "release_vdisk (?s7\<lparr>procs := qs, vdisk := ?d7\<rparr>) =
        Inr (?s7\<lparr>hart := settle ?c, procs := qs, vdisk := ?d8\<rparr>)"
      by (subst release_vdisk_ok [OF lk c]) simp_all
    moreover have "acquire_vdisk (s\<lparr>hart := settle ?c, procs := ps, medium := m, vdisk := ?d6,
        bufs := (bufs s)[b := (bufs s ! b)\<lparr>b_data := data, b_disk := 0\<rparr>]\<rparr>) = Inr ?s6"
      using lk by (subst acquire_vdisk_ok) simp_all
    moreover have "vd_idle ?d8"
      using v by (auto simp: vd_idle_def format_req_def Let_def)
    moreover have "woken (procs s) qs"
      using ps(2) qs(2) woken_trans by simp
    ultimately show ?thesis
      using True start serve ps(1) qs(1) b by (auto simp: Let_def intro!: exI [of _ qs] exI [of _ ?d8])
  qed
qed


section \<open>A disk\<close>

text \<open>
  What a disk holds at a sector is the last write there; a disk that was never written is zero.
  A device behaves as a disk when a write is added to the completed writes, a read returns what the
  disk holds, and the status is 0.
\<close>

definition disk_at :: "medium \<Rightarrow> u64 \<Rightarrow> u8 list" where
  "disk_at m sec = (case map_of m sec of Some data \<Rightarrow> data | None \<Rightarrow> replicate BSIZE 0)"

definition dev_ok :: "(medium \<Rightarrow> u32 \<Rightarrow> u64 \<Rightarrow> u8 list \<Rightarrow> medium \<times> u8 list \<times> u8) \<Rightarrow> bool" where
  "dev_ok io \<longleftrightarrow> (\<forall>m sec data. length data = BSIZE \<longrightarrow>
     io m VIRTIO_BLK_T_OUT sec data = ((sec, data) # m, data, 0) \<and> io m VIRTIO_BLK_T_IN sec data = (m, disk_at m sec, 0))"

lemma disk_at_Cons [simp]: "disk_at ((sec, data) # m) sec' = (if sec' = sec then data else disk_at m sec')"
  by (simp add: disk_at_def)

definition disk_dev :: "medium \<Rightarrow> u32 \<Rightarrow> u64 \<Rightarrow> u8 list \<Rightarrow> medium \<times> u8 list \<times> u8" where
  "disk_dev m t sec data = (if t = VIRTIO_BLK_T_OUT then ((sec, data) # m, data, 0) else (m, disk_at m sec, 0))"

lemma disk_dev_ok: "dev_ok disk_dev"
  by (simp add: dev_ok_def disk_dev_def VIRTIO_BLK_T_IN_def VIRTIO_BLK_T_OUT_def)

lemma unat_sector_of: "a < 2 ^ 31 \<Longrightarrow> unat (sector_of a) = 2 * unat a"
proof -
  assume "a < 2 ^ 31"
  then have "unat (a * 2) = 2 * unat a"
    by (simp add: word_less_nat_alt unat_word_ariths)
  moreover have "unat (ucast (a * 2) :: u64) = unat (a * 2)"
    by transfer (simp add: take_bit_eq_mod nat_mod_distrib)
  ultimately show ?thesis
    by (simp add: sector_of_def)
qed

lemma sector_inj: "a < 2 ^ 31 \<Longrightarrow> b < 2 ^ 31 \<Longrightarrow> sector_of a = sector_of b \<longleftrightarrow> a = b"
  using unat_sector_of [of a] unat_sector_of [of b] by (auto simp: word_unat_eq_iff)

end
