(* ===== verification/Bio_thms.thy ===== *)
theory Bio_thms
  imports Bio Virtio_thms
begin

text \<open>
  The buffer cache. The list of the buffers is a list in the sense of HOL: a walk along \<open>next\<close> or \<open>prev\<close>
  ends, \<open>brelse\<close> moves a buffer to the front, and \<open>bget\<close> recycles the least recently used one. On
  top of it the cache is transparent: what \<open>bread\<close> returns is a function of the disk and of what
  was put into held or pinned buffers.
\<close>

section \<open>The list of the buffers\<close>

fun linked :: "bufr list \<Rightarrow> nat list \<Rightarrow> bool" where
  "linked bs (x # y # r) \<longleftrightarrow> b_next (bs ! x) = y \<and> b_prev (bs ! y) = x \<and> linked bs (y # r)"
| "linked bs _ \<longleftrightarrow> True"

definition lru :: "bufr list \<Rightarrow> nat list \<Rightarrow> bool" where
  "lru bs L \<longleftrightarrow> length bs = NBUF + 1 \<and> distinct L \<and> set L = {..<NBUF} \<and> linked bs (NBUF # L @ [NBUF])"

lemma linked_append: "linked bs (xs @ x # ys) \<longleftrightarrow> linked bs (xs @ [x]) \<and> linked bs (x # ys)"
proof (induction xs)
  case (Cons z xs)
  then show ?case by (cases xs) auto
qed simp

lemma linked_snoc:
  "linked bs (x # L @ [b]) \<longleftrightarrow> linked bs (x # L) \<and> b_next (bs ! last (x # L)) = b \<and> b_prev (bs ! b) = last (x # L)"
  by (induction L arbitrary: x) auto

lemma linked_join:
  "linked bs (x # xs @ y # ys) \<longleftrightarrow> linked bs (x # xs) \<and> b_next (bs ! last (x # xs)) = y \<and> b_prev (bs ! y) = last (x # xs) \<and> linked bs (y # ys)"
  by (induction xs arbitrary: x) auto

lemma linked_cong:
  "(\<And>x. x \<in> set (butlast xs) \<Longrightarrow> b_next (bs' ! x) = b_next (bs ! x)) \<Longrightarrow> (\<And>x. x \<in> set (tl xs) \<Longrightarrow> b_prev (bs' ! x) = b_prev (bs ! x)) \<Longrightarrow>
   linked bs' xs = linked bs xs"
  by (induction bs xs rule: linked.induct) (auto split: if_splits)

lemma find_cached_linked:
  "linked bs (L @ [NBUF]) \<Longrightarrow> NBUF \<notin> set L \<Longrightarrow> length L < k \<Longrightarrow>
   find_cached k bs (hd (L @ [NBUF])) dev blockno = Inr (find (\<lambda>b. b_dev (bs ! b) = dev \<and> b_blockno (bs ! b) = blockno) L)"
proof (induction L arbitrary: k)
  case Nil
  then show ?case by (cases k) auto
next
  case (Cons b L)
  then show ?case by (cases k; cases L) auto
qed

lemma find_unused_linked:
  "linked bs (NBUF # L) \<Longrightarrow> NBUF \<notin> set L \<Longrightarrow> length L < k \<Longrightarrow>
   find_unused_buf k bs (last (NBUF # L)) = Inr (find (\<lambda>b. b_refcnt (bs ! b) = 0) (rev L))"
proof (induction L arbitrary: k rule: rev_induct)
  case Nil
  then show ?case by (cases k) auto
next
  case (snoc b L)
  have "b_prev (bs ! b) = last (NBUF # L)" "linked bs (NBUF # L)"
    using snoc.prems(1) linked_snoc [of bs NBUF L b] by simp_all
  then show ?case
    using snoc by (cases k) auto
qed

lemma lru_len: "lru bs L \<Longrightarrow> length L = NBUF"
  unfolding lru_def by (metis card_lessThan distinct_card)

lemma lru_find:
  assumes "lru bs L"
  shows "find_cached (NBUF + 1) bs (b_next (bs ! NBUF)) dev blockno =
      Inr (find (\<lambda>b. b_dev (bs ! b) = dev \<and> b_blockno (bs ! b) = blockno) L)"
    "find_unused_buf (NBUF + 1) bs (b_prev (bs ! NBUF)) = Inr (find (\<lambda>b. b_refcnt (bs ! b) = 0) (rev L))"
proof -
  have l: "length L < NBUF + 1" "NBUF \<notin> set L"
    using lru_len [OF assms] assms by (simp_all add: lru_def)
  have "linked bs (NBUF # L @ [NBUF])"
    using assms by (simp add: lru_def)
  then have h: "b_next (bs ! NBUF) = hd (L @ [NBUF])" "linked bs (L @ [NBUF])"
    "b_prev (bs ! NBUF) = last (NBUF # L)" "linked bs (NBUF # L)"
    using linked_snoc [of bs NBUF L NBUF] by (cases L; simp)+
  show "find_cached (NBUF + 1) bs (b_next (bs ! NBUF)) dev blockno =
      Inr (find (\<lambda>b. b_dev (bs ! b) = dev \<and> b_blockno (bs ! b) = blockno) L)"
    unfolding h(1) by (rule find_cached_linked [OF h(2) l(2,1)])
  show "find_unused_buf (NBUF + 1) bs (b_prev (bs ! NBUF)) = Inr (find (\<lambda>b. b_refcnt (bs ! b) = 0) (rev L))"
    unfolding h(3) by (rule find_unused_linked [OF h(4) l(2,1)])
qed


lemma lru_cong:
  assumes "length bs' = length bs" and "\<And>x. x < NBUF + 1 \<Longrightarrow> b_next (bs' ! x) = b_next (bs ! x) \<and> b_prev (bs' ! x) = b_prev (bs ! x)"
  shows "lru bs' L = lru bs L"
proof -
  have "linked bs' (NBUF # L @ [NBUF]) = linked bs (NBUF # L @ [NBUF])" if "set L = {..<NBUF}"
    using that assms(2) by (intro linked_cong) (auto dest!: in_set_butlastD)
  then show ?thesis
    using assms(1) by (auto simp: lru_def)
qed

text \<open>Unlinking a buffer removes it, linking it puts it first.\<close>

lemma unlink_linked:
  assumes "linked bs (NBUF # xs @ b # ys @ [NBUF])" and "distinct (xs @ b # ys)" and "set (xs @ b # ys) \<subseteq> {..<NBUF}" and "length bs = NBUF + 1"
  shows "linked (unlink_buf bs b) (NBUF # xs @ ys @ [NBUF])"
proof -
  define p n where "p = last (NBUF # xs)" and "n = hd (ys @ [NBUF])"
  obtain zs where zs: "ys @ [NBUF] = n # zs"
    unfolding n_def by (metis Nil_is_append_conv list.collapse not_Cons_self2)
  have old: "linked bs (NBUF # xs)" "b_prev (bs ! b) = p" "b_next (bs ! b) = n" "linked bs (n # zs)"
    using assms(1) unfolding zs linked_join p_def by simp_all
  have pn: "p \<in> insert NBUF (set xs)" "n \<in> insert NBUF (set ys)"
    unfolding p_def n_def by (cases xs; force) (cases ys; simp)
  then have ne: "n \<noteq> b" "p \<noteq> b" "p < length bs" "n < length bs" "b < length bs"
    using assms(2,3,4) by auto
  let ?bs = "unlink_buf bs b"
  have nx: "b_next (?bs ! x) = (if x = p then n else b_next (bs ! x))" and pv: "b_prev (?bs ! x) = (if x = n then p else b_prev (bs ! x))"
    if "x < length bs" for x
    using ne old that by (auto simp: unlink_buf_def Let_def nth_list_update)
  have d: "distinct (NBUF # xs)" "distinct (ys @ [NBUF])"
    using assms(2,3) by auto
  have "p \<notin> set (butlast (NBUF # xs))"
    using d(1) append_butlast_last_id [of "NBUF # xs"] unfolding p_def by (metis disjoint_insert(1) distinct_append list.distinct(1) list.simps(15))
  moreover have "n \<notin> set zs"
    using d(2) unfolding zs by simp
  moreover have "p \<notin> set (butlast (n # zs))" "n \<notin> set xs"
    using pn assms(2,3) unfolding zs [symmetric] by auto
  ultimately have lst: "p \<notin> set (butlast (NBUF # xs))" "p \<notin> set (butlast (n # zs))" "n \<notin> set xs" "n \<notin> set zs"
    by simp_all
  have sub: "x < length bs" if "x \<in> set (NBUF # xs) \<union> set (ys @ [NBUF])" for x
    using that assms(3,4) by auto
  have "linked ?bs (NBUF # xs) = linked bs (NBUF # xs)"
  proof (rule linked_cong)
    show "b_next (?bs ! x) = b_next (bs ! x)" if "x \<in> set (butlast (NBUF # xs))" for x
      using nx [of x] sub [of x] in_set_butlastD [OF that] lst(1) that by (cases "x = p") auto
    show "b_prev (?bs ! x) = b_prev (bs ! x)" if "x \<in> set (tl (NBUF # xs))" for x
      using pv [of x] sub [of x] lst(3) that by (cases "x = n") auto
  qed
  moreover have "linked ?bs (n # zs) = linked bs (n # zs)"
  proof (rule linked_cong)
    show "b_next (?bs ! x) = b_next (bs ! x)" if "x \<in> set (butlast (n # zs))" for x
      using nx [of x] sub [unfolded zs, of x] in_set_butlastD [OF that] lst(2) that by (cases "x = p") auto
    show "b_prev (?bs ! x) = b_prev (bs ! x)" if "x \<in> set (tl (n # zs))" for x
      using pv [of x] sub [unfolded zs, of x] lst(4) that by (cases "x = n") auto
  qed
  ultimately show ?thesis
    using old nx [OF ne(3)] pv [OF ne(4)] unfolding zs linked_join p_def by simp
qed

lemma link_front_linked:
  assumes "linked bs (NBUF # ys @ [NBUF])" and "distinct ys" and "set ys \<subseteq> {..<NBUF}" and "b < NBUF" and "b \<notin> set ys" and "length bs = NBUF + 1"
  shows "linked (link_front bs b) (NBUF # b # ys @ [NBUF])"
proof -
  define n where "n = hd (ys @ [NBUF])"
  obtain zs where zs: "ys @ [NBUF] = n # zs"
    unfolding n_def by (metis Nil_is_append_conv list.collapse not_Cons_self2)
  have old: "b_next (bs ! NBUF) = n" "linked bs (n # zs)"
    using assms(1) unfolding zs by simp_all
  have n: "n \<in> insert NBUF (set ys)"
    unfolding n_def by (cases ys) simp_all
  have ne: "n \<noteq> b" "b \<noteq> NBUF" "n < length bs" "b < length bs" "NBUF < length bs"
    using n assms(3-6) by auto
  let ?bs = "link_front bs b"
  have nx: "b_next (?bs ! x) = (if x = NBUF then b else if x = b then n else b_next (bs ! x))"
    and pv: "b_prev (?bs ! x) = (if x = n then b else if x = b then NBUF else b_prev (bs ! x))" if "x < length bs" for x
    using ne old(1) that by (auto simp: link_front_def Let_def nth_list_update)
  have d: "distinct (n # zs)"
    using assms(2,3) unfolding zs [symmetric] by auto
  have sub: "x < length bs \<and> x \<noteq> b" if "x \<in> set (n # zs)" for x
    using that assms(3-6) unfolding zs [symmetric] by auto
  have "linked ?bs (n # zs) = linked bs (n # zs)"
  proof (rule linked_cong)
    show "b_next (?bs ! x) = b_next (bs ! x)" if x: "x \<in> set (butlast (n # zs))" for x
    proof -
      have "x \<noteq> NBUF"
        using x assms(3) unfolding zs [symmetric] by auto
      then show ?thesis
        using nx [of x] sub [OF in_set_butlastD [OF x]] by simp
    qed
    show "b_prev (?bs ! x) = b_prev (bs ! x)" if "x \<in> set (tl (n # zs))" for x
      using pv [of x] sub [of x] that d by auto
  qed
  then show ?thesis
    using old(2) nx ne pv unfolding zs by simp
qed

text \<open>The list operations change the links only.\<close>

definition unlinked :: "bufr \<Rightarrow> bufr" where
  "unlinked b = b\<lparr>b_prev := 0, b_next := 0\<rparr>"

lemma unlinked_simps [simp]:
  "unlinked (b\<lparr>b_prev := p\<rparr>) = unlinked b" "unlinked (b\<lparr>b_next := n\<rparr>) = unlinked b"
  by (simp_all add: unlinked_def)

lemma unlinkedD:
  assumes "unlinked b = unlinked c"
  shows "b_valid b = b_valid c" "b_disk b = b_disk c" "b_dev b = b_dev c" "b_blockno b = b_blockno c" "b_lock b = b_lock c"
    "b_refcnt b = b_refcnt c" "b_data b = b_data c"
  using assms by (cases b; cases c; simp add: unlinked_def)+

lemma unlinked_upd: "unlinked v = unlinked (bs ! i) \<Longrightarrow> unlinked (bs[i := v] ! x) = unlinked (bs ! x)"
  by (cases "i < length bs") (auto simp: nth_list_update list_update_beyond)

lemma unlinked_links [simp]:
  "unlinked (link_front bs b ! x) = unlinked (bs ! x)" "unlinked (unlink_buf bs b ! x) = unlinked (bs ! x)"
  "length (link_front bs b) = length bs" "length (unlink_buf bs b) = length bs"
  unfolding link_front_def unlink_buf_def Let_def by (simp_all only: unlinked_upd unlinked_simps length_list_update)

lemma brelse_list_lru:
  assumes "lru bs L" and "b < NBUF"
  shows "lru (link_front (unlink_buf bs b) b) (b # remove1 b L)"
proof -
  have L: "distinct L" "set L = {..<NBUF}" "length bs = NBUF + 1" "linked bs (NBUF # L @ [NBUF])"
    using assms(1) by (simp_all add: lru_def)
  then have "b \<in> set L"
    using assms(2) by simp
  then obtain xs ys where xs: "L = xs @ b # ys"
    by (blast dest: split_list)
  have "remove1 b L = xs @ ys"
    using L(1) by (simp add: xs remove1_append)
  moreover have "linked (link_front (unlink_buf bs b) b) (NBUF # b # (xs @ ys) @ [NBUF])"
    using L assms(2) unlink_linked [of bs xs b ys] unfolding xs by (intro link_front_linked) auto
  ultimately show ?thesis
    using L by (auto simp: lru_def xs)
qed


section \<open>Locks of the cache\<close>

lemma with_myproc_ok: "cpu_ok (hart s) \<Longrightarrow> curproc s = Some me \<Longrightarrow> with_myproc s f = f (s\<lparr>hart := settle (hart s)\<rparr>) me"
  by (simp add: with_myproc_def myproc_ok settled_def)

lemma acquiresleep_ok:
  assumes "cpu_ok (hart s)" and "curproc s = Some me" and "lk_free (sl_lk lk)" and "sl_locked lk = 0"
  shows "acquiresleep s lk = Inr (s\<lparr>hart := settle (hart s)\<rparr>, lk\<lparr>sl_locked := 1, sl_pid := pid (procs s ! me)\<rparr>)"
  using assms release_held [OF assms(3,1)] push_off_ok [OF assms(1)]
  by (simp add: acquiresleep_def acquire_free with_myproc_ok Let_def)

lemma holdingsleep_ok:
  assumes "cpu_ok (hart s)" and "curproc s = Some me" and "lk_free (sl_lk lk)"
  shows "holdingsleep s lk = Inr (s\<lparr>hart := settle (hart s)\<rparr>, lk, sl_locked lk \<noteq> 0 \<and> sl_pid lk = pid (procs s ! me))"
  using assms release_held [OF assms(3,1)] push_off_ok [OF assms(1)]
  by (simp add: holdingsleep_def acquire_free with_myproc_ok Let_def)

lemma releasesleep_ok:
  assumes "idle_procs s" and "lk_free (sl_lk lk)"
  shows "\<exists>ps. releasesleep s ch lk = Inr (s\<lparr>hart := settle (hart s), procs := ps\<rparr>, lk\<lparr>sl_locked := 0, sl_pid := 0\<rparr>) \<and> woken (procs s) ps"
proof -
  let ?s = "s\<lparr>hart := push_off (hart s)\<rparr>"
  have c: "cpu_ok (hart s)"
    using assms(1) by (simp add: idle_procs_def)
  have "idle_procs ?s"
    using assms(1) push_off_ok [OF c] by (simp add: idle_procs_def)
  then obtain ps where "wakeup ?s ch = Inr (?s\<lparr>hart := settle (hart ?s), procs := ps\<rparr>)" "woken (procs ?s) ps"
    using wakeup_woken by blast
  then show ?thesis
    using acquire_free [OF assms(2), of "hart s"] release_held [OF assms(2) c] c
    by (intro exI [of _ ps]) (simp add: releasesleep_def Let_def)
qed

lemma bcache_lock_ok:
  assumes "cpu_ok (hart s)" and "lk_free (bc_lock s)"
  shows "\<exists>s1. acquire_bcache s = Inr s1 \<and> bufs s1 = bufs s \<and>
    (\<forall>f. release_bcache (s1\<lparr>bufs := f\<rparr>) = Inr (s\<lparr>hart := settle (hart s), bufs := f\<rparr>))"
  using acquire_free [OF assms(2), of "hart s"] release_held [OF assms(2,1)]
  by (simp add: acquire_bcache_def release_bcache_def)

lemma acquiresleep_buf_ok:
  assumes "cpu_ok (hart s)" and "curproc s = Some me" and "lk_free (sl_lk (b_lock (bufs s ! b)))" and "sl_locked (b_lock (bufs s ! b)) = 0"
  shows "acquiresleep_buf s b = Inr (s\<lparr>hart := settle (hart s), bufs := (bufs s)[b := (bufs s ! b)\<lparr>b_lock :=
     (b_lock (bufs s ! b))\<lparr>sl_locked := 1, sl_pid := pid (procs s ! me)\<rparr>\<rparr>]\<rparr>)"
  using acquiresleep_ok [OF assms] by (simp add: acquiresleep_buf_def upd_buf_def)

lemma holdingsleep_buf_ok:
  assumes "cpu_ok (hart s)" and "curproc s = Some me" and "lk_free (sl_lk (b_lock (bufs s ! b)))"
  shows "holdingsleep_buf s b = Inr (s\<lparr>hart := settle (hart s)\<rparr>,
     sl_locked (b_lock (bufs s ! b)) \<noteq> 0 \<and> sl_pid (b_lock (bufs s ! b)) = pid (procs s ! me))"
  using holdingsleep_ok [OF assms] by (simp add: holdingsleep_buf_def upd_buf_def)

lemma releasesleep_buf_ok:
  assumes "idle_procs s" and "lk_free (sl_lk (b_lock (bufs s ! b)))"
  shows "\<exists>ps. releasesleep_buf s b = Inr (s\<lparr>hart := settle (hart s), procs := ps, bufs := (bufs s)[b := (bufs s ! b)\<lparr>b_lock :=
     (b_lock (bufs s ! b))\<lparr>sl_locked := 0, sl_pid := 0\<rparr>\<rparr>]\<rparr>) \<and> woken (procs s) ps"
  using releasesleep_ok [OF assms, of "WLock b"] by (auto simp: releasesleep_buf_def upd_buf_def)


section \<open>The invariant of the cache\<close>

text \<open>
  For one process \<open>me\<close> and one device: \<open>H\<close> are the buffers the process holds, \<open>P\<close> the blocks that are
  pinned. A buffer that is neither held nor pinned has the contents of the disk.
\<close>

definition caches :: "u32 \<Rightarrow> bufr \<Rightarrow> u32 \<Rightarrow> bool" where
  "caches dev b blockno \<longleftrightarrow> b_dev b = dev \<and> b_blockno b = blockno"

definition buf_ok :: "int \<Rightarrow> u32 \<Rightarrow> nat set \<Rightarrow> u32 set \<Rightarrow> medium \<Rightarrow> nat \<Rightarrow> bufr \<Rightarrow> bool" where
  "buf_ok p dev H P m i b \<longleftrightarrow>
     lk_free (sl_lk (b_lock b)) \<and> length (b_data b) = BSIZE \<and>
     (if i \<in> H then sl_locked (b_lock b) \<noteq> 0 \<and> sl_pid (b_lock b) = p \<and> b_valid b \<noteq> 0 \<and> b_dev b = dev else sl_locked (b_lock b) = 0) \<and>
     b_refcnt b = of_bool (i \<in> H) + of_bool (b_dev b = dev \<and> b_blockno b \<in> P) \<and>
     (b_dev b = dev \<longrightarrow> b_blockno b < 2 ^ 31) \<and> (b_dev b \<noteq> dev \<longrightarrow> b_valid b = 0) \<and>
     (b_dev b = dev \<and> b_blockno b \<in> P \<longrightarrow> b_valid b \<noteq> 0) \<and>
     (b_valid b \<noteq> 0 \<and> i \<notin> H \<and> b_blockno b \<notin> P \<longrightarrow> b_data b = disk_at m (sector_of (b_blockno b)))"

definition blocks_ok :: "medium \<Rightarrow> bool" where
  "blocks_ok m \<longleftrightarrow> (\<forall>w\<in>set m. length (snd w) = BSIZE)"

lemma disk_at_len: "blocks_ok m \<Longrightarrow> length (disk_at m sec) = BSIZE"
  by (auto simp: disk_at_def blocks_ok_def split: option.splits dest!: map_of_SomeD)

definition one_copy :: "u32 \<Rightarrow> bufr list \<Rightarrow> bool" where
  "one_copy dev bs \<longleftrightarrow> (\<forall>i<NBUF. \<forall>j<NBUF. i \<noteq> j \<longrightarrow> b_dev (bs ! i) = dev \<longrightarrow> b_dev (bs ! j) = dev \<longrightarrow> b_blockno (bs ! i) \<noteq> b_blockno (bs ! j))"

definition bc_inv :: "nat \<Rightarrow> u32 \<Rightarrow> nat set \<Rightarrow> u32 set \<Rightarrow> 'a bstate_scheme \<Rightarrow> bool" where
  "bc_inv me dev H P s \<longleftrightarrow>
     idle_procs s \<and> curproc s = Some me \<and> me < NPROC \<and> vd_idle (vdisk s) \<and> lk_free (bc_lock s) \<and> dev_ok (dev_io s) \<and>
     (\<exists>L. lru (bufs s) L) \<and> (\<forall>i<NBUF. buf_ok (pid (procs s ! me)) dev H P (medium s) i (bufs s ! i)) \<and> one_copy dev (bufs s) \<and>
     H \<subseteq> {..<NBUF} \<and> (\<forall>blockno\<in>P. \<exists>i<NBUF. caches dev (bufs s ! i) blockno) \<and> blocks_ok (medium s)"

text \<open>What the cache and the disk together hold in a block.\<close>

definition view :: "u32 \<Rightarrow> 'a bstate_scheme \<Rightarrow> u32 \<Rightarrow> u8 list" where
  "view dev s blockno =
     (case find (\<lambda>i. caches dev (bufs s ! i) blockno \<and> b_valid (bufs s ! i) \<noteq> 0) [0..<NBUF] of
        Some i \<Rightarrow> b_data (bufs s ! i) | None \<Rightarrow> disk_at (medium s) (sector_of blockno))"

lemma one_copyD: "one_copy dev bs \<Longrightarrow> caches dev (bs ! i) n \<Longrightarrow> caches dev (bs ! j) n \<Longrightarrow> i < NBUF \<Longrightarrow> j < NBUF \<Longrightarrow> i = j"
  by (auto simp: one_copy_def caches_def)

lemma view_cached:
  assumes "one_copy dev (bufs s)" and "i < NBUF" and "caches dev (bufs s ! i) blockno" and "b_valid (bufs s ! i) \<noteq> 0"
  shows "view dev s blockno = b_data (bufs s ! i)"
proof -
  let ?P = "\<lambda>i. caches dev (bufs s ! i) blockno \<and> b_valid (bufs s ! i) \<noteq> 0"
  obtain j where "find ?P [0..<NBUF] = Some j"
    using assms(2-4) by (cases "find ?P [0..<NBUF]") (auto simp: find_None_iff)
  moreover then have "?P j" "j < NBUF"
    by (auto simp: find_Some_iff)
  ultimately show ?thesis
    using one_copyD [OF assms(1), of i blockno j] assms(2,3) by (simp add: view_def)
qed

lemma view_disk:
  assumes "\<And>i. i < NBUF \<Longrightarrow> caches dev (bufs s ! i) blockno \<Longrightarrow> b_valid (bufs s ! i) = 0"
  shows "view dev s blockno = disk_at (medium s) (sector_of blockno)"
proof -
  have "find (\<lambda>i. caches dev (bufs s ! i) blockno \<and> b_valid (bufs s ! i) \<noteq> 0) [0..<NBUF] = None"
    using assms by (auto simp: find_None_iff)
  then show ?thesis by (simp add: view_def)
qed

text \<open>A step of the driver or of the cache, for the rest of the state.\<close>

definition io_step :: "'a bstate_scheme \<Rightarrow> 'a bstate_scheme \<Rightarrow> bool" where
  "io_step s t \<longleftrightarrow> (\<exists>c ps m d bs. t = s\<lparr>hart := c, procs := ps, medium := m, vdisk := d, bufs := bs\<rparr> \<and>
     settle c = settle (hart s) \<and> woken (procs s) ps)"

lemma io_stepI: "settle c = settle (hart s) \<Longrightarrow> woken (procs s) ps \<Longrightarrow>
   io_step s (s\<lparr>hart := c, procs := ps, medium := m, vdisk := d, bufs := bs\<rparr>)"
  unfolding io_step_def by blast

lemma io_step_trans:
  assumes "io_step s t" and "io_step t u"
  shows "io_step s u"
proof -
  obtain c ps m d bs where t: "t = s\<lparr>hart := c, procs := ps, medium := m, vdisk := d, bufs := bs\<rparr>" "settle c = settle (hart s)" "woken (procs s) ps"
    using assms(1) unfolding io_step_def by blast
  obtain c' ps' m' d' bs' where u: "u = t\<lparr>hart := c', procs := ps', medium := m', vdisk := d', bufs := bs'\<rparr>" "settle c' = settle (hart t)" "woken (procs t) ps'"
    using assms(2) unfolding io_step_def by blast
  have "u = s\<lparr>hart := c', procs := ps', medium := m', vdisk := d', bufs := bs'\<rparr>"
    using t(1) u(1) by simp
  moreover have "settle c' = settle (hart s)" "woken (procs s) ps'"
    using t u woken_trans by auto
  ultimately show ?thesis
    using io_stepI by metis
qed

lemma io_step_refl [simp]: "io_step s s"
proof -
  have "s = s\<lparr>hart := hart s, procs := procs s, medium := medium s, vdisk := vdisk s, bufs := bufs s\<rparr>"
    by simp
  then show ?thesis
    using io_stepI [of "hart s" s "procs s"] by (metis woken_refl)
qed


text \<open>The invariant after a step that changes one buffer.\<close>

lemma bc_invD:
  assumes "bc_inv me dev H P s"
  shows "idle_procs s" "curproc s = Some me" "me < NPROC" "vd_idle (vdisk s)" "lk_free (bc_lock s)" "dev_ok (dev_io s)"
    "one_copy dev (bufs s)" "H \<subseteq> {..<NBUF}" "length (bufs s) = NBUF + 1" "cpu_ok (hart s)" "length (procs s) = NPROC" "\<exists>L. lru (bufs s) L"
    "i < NBUF \<Longrightarrow> buf_ok (pid (procs s ! me)) dev H P (medium s) i (bufs s ! i)"
    "blockno \<in> P \<Longrightarrow> \<exists>i<NBUF. caches dev (bufs s ! i) blockno" "blocks_ok (medium s)"
  using assms by (auto simp: bc_inv_def lru_def idle_procs_def)

lemma buf_ok_other:
  assumes "buf_ok p dev H P m i b" and "i \<in> H' \<longleftrightarrow> i \<in> H" and "b_dev b = dev \<Longrightarrow> b_blockno b \<in> P' \<longleftrightarrow> b_blockno b \<in> P"
    and "b_dev b = dev \<Longrightarrow> disk_at m' (sector_of (b_blockno b)) = disk_at m (sector_of (b_blockno b))"
  shows "buf_ok p dev H' P' m' i b"
  using assms by (cases "b_dev b = dev"; cases "i \<in> H") (simp_all add: buf_ok_def)

lemma bc_inv_step:
  assumes inv: "bc_inv me dev H P s" and b: "b < NBUF"
    and t: "t = s\<lparr>hart := c, procs := ps, medium := m, vdisk := d, bufs := (bufs s)[b := x]\<rparr>"
    and fr: "settle c = settle (hart s)" "woken (procs s) ps" "vd_idle d" "blocks_ok m"
    and lk: "b_next x = b_next (bufs s ! b)" "b_prev x = b_prev (bufs s ! b)"
    and x: "buf_ok (pid (procs s ! me)) dev H' P' m b x"
    and ex: "b_dev x = dev \<Longrightarrow> (\<forall>j<NBUF. j \<noteq> b \<longrightarrow> \<not> caches dev (bufs s ! j) (b_blockno x))"
    and o: "\<And>j. j \<noteq> b \<Longrightarrow> j \<in> H' \<longleftrightarrow> j \<in> H"
      "\<And>j. j < NBUF \<Longrightarrow> j \<noteq> b \<Longrightarrow> b_dev (bufs s ! j) = dev \<Longrightarrow> b_blockno (bufs s ! j) \<in> P' \<longleftrightarrow> b_blockno (bufs s ! j) \<in> P"
      "\<And>j. j < NBUF \<Longrightarrow> j \<noteq> b \<Longrightarrow> b_dev (bufs s ! j) = dev \<Longrightarrow> b_blockno (bufs s ! j) < 2 ^ 31 \<Longrightarrow>
         disk_at m (sector_of (b_blockno (bufs s ! j))) = disk_at (medium s) (sector_of (b_blockno (bufs s ! j)))"
    and P': "\<And>n. n \<in> P' \<Longrightarrow> caches dev x n \<or> n \<in> P \<and> \<not> caches dev (bufs s ! b) n"
  shows "bc_inv me dev H' P' t"
proof -
  note D = bc_invD [OF inv]
  have cp: "cpu_ok c"
    using D(10) fr(1) settle_simps(5) by metis
  have pd: "pid (ps ! me) = pid (procs s ! me)"
    using wokenD(2) [OF fr(2)] D(3,11) by simp
  have bs: "length (bufs t) = NBUF + 1" "\<And>j. j < NBUF + 1 \<Longrightarrow> bufs t ! j = (if j = b then x else bufs s ! j)"
    using D(9) b by (auto simp: t nth_list_update)
  obtain L where "lru (bufs s) L"
    using D(12) by blast
  moreover have "lru (bufs t) L = lru (bufs s) L"
    by (rule lru_cong) (use bs D(9) lk in auto)
  ultimately have "\<exists>L. lru (bufs t) L"
    by blast
  moreover have "idle_procs t"
    using idle_woken [OF D(1) fr(2) cp] by (simp add: t idle_procs_def)
  moreover have "buf_ok (pid (procs t ! me)) dev H' P' (medium t) i (bufs t ! i)" if "i < NBUF" for i
  proof (cases "i = b")
    case False
    have "buf_ok (pid (procs s ! me)) dev H' P' m i (bufs s ! i)"
      using buf_ok_other [OF D(13) [OF that], of H' P' m] o(1) [OF False] o(2,3) [OF that False] D(13) [OF that] by (auto simp: buf_ok_def)
    then show ?thesis
      using False bs(2) that pd by (simp add: t)
  qed (use x bs(2) b pd in \<open>simp add: t\<close>)
  moreover have "one_copy dev (bufs t)"
    using D(7) ex bs(2) unfolding one_copy_def caches_def by auto
  moreover have "H' \<subseteq> {..<NBUF}"
    using D(8) o(1) b by (auto) (metis D(8) lessThan_iff subsetD)
  moreover have "\<exists>i<NBUF. caches dev (bufs t ! i) n" if "n \<in> P'" for n
    using P' [OF that] D(14) [of n] bs(2) b by (metis less_SucI Suc_eq_plus1)
  ultimately show ?thesis
    using D(2-6) fr(3,4) by (simp add: bc_inv_def t)
qed


lemma view_step:
  assumes "one_copy dev (bufs s)" and "one_copy dev (bufs t)" and "bufs t = (bufs s)[b := x]" and "b < NBUF" and "length (bufs s) = NBUF + 1"
    and "caches dev x n \<Longrightarrow> b_valid x \<noteq> 0"
    and "\<not> caches dev x n \<Longrightarrow> caches dev (bufs s ! b) n \<Longrightarrow> b_valid (bufs s ! b) \<noteq> 0 \<Longrightarrow> b_data (bufs s ! b) = disk_at (medium s) (sector_of n)"
    and "\<not> caches dev x n \<Longrightarrow> disk_at (medium t) (sector_of n) = disk_at (medium s) (sector_of n)"
  shows "view dev t n = (if caches dev x n then b_data x else view dev s n)"
proof (cases "caches dev x n")
  case True
  then show ?thesis
    using view_cached [OF assms(2,4)] assms(3-6) by simp
next
  case False
  show ?thesis
  proof (cases "\<exists>i<NBUF. i \<noteq> b \<and> caches dev (bufs s ! i) n \<and> b_valid (bufs s ! i) \<noteq> 0")
    case True
    then obtain i where "i < NBUF" "i \<noteq> b" "caches dev (bufs s ! i) n" "b_valid (bufs s ! i) \<noteq> 0"
      by blast
    then show ?thesis
      using view_cached [OF assms(1)] view_cached [OF assms(2)] assms(3) False by auto
  next
    case no: False
    have "view dev t n = disk_at (medium t) (sector_of n)"
      using no False assms(3-5) by (intro view_disk) (auto simp: nth_list_update split: if_splits)
    moreover have "view dev s n = disk_at (medium s) (sector_of n)"
    proof (cases "caches dev (bufs s ! b) n \<and> b_valid (bufs s ! b) \<noteq> 0")
      case True
      then show ?thesis
        using view_cached [OF assms(1,4)] assms(7) False by simp
    next
      case cold: False
      show ?thesis
        using no cold by (intro view_disk) blast
    qed
    ultimately show ?thesis
      using assms(8) False by simp
  qed
qed

lemma view_len:
  assumes "bc_inv me dev H P s"
  shows "length (view dev s n) = BSIZE"
proof (cases "\<exists>i<NBUF. caches dev (bufs s ! i) n \<and> b_valid (bufs s ! i) \<noteq> 0")
  case True
  then obtain i where "i < NBUF" "caches dev (bufs s ! i) n" "b_valid (bufs s ! i) \<noteq> 0"
    by blast
  then show ?thesis
    using view_cached [OF bc_invD(7) [OF assms]] bc_invD(13) [OF assms] by (simp add: buf_ok_def)
next
  case False
  then have "view dev s n = disk_at (medium s) (sector_of n)"
    by (intro view_disk) blast
  then show ?thesis
    using disk_at_len [OF bc_invD(15) [OF assms]] by simp
qed

section \<open>Getting a buffer\<close>

lemma unused_exists:
  assumes inv: "bc_inv me dev H P s" and "card H + card P < NBUF" and fin: "finite P"
  shows "\<exists>i<NBUF. b_refcnt (bufs s ! i) = 0"
proof -
  let ?R = "{i. i < NBUF \<and> b_dev (bufs s ! i) = dev \<and> b_blockno (bufs s ! i) \<in> P}"
  have "inj_on (\<lambda>i. b_blockno (bufs s ! i)) ?R"
    using bc_invD(7) [OF inv] unfolding one_copy_def inj_on_def by blast
  then have "card ?R \<le> card P"
    using fin by (intro card_inj_on_le) auto
  moreover have "finite H"
    using bc_invD(8) [OF inv] finite_subset by blast
  ultimately have "card (H \<union> ?R) < NBUF"
    using card_Un_le [of H ?R] assms(2) by linarith
  then have "\<not> {..<NBUF} \<subseteq> H \<union> ?R"
    using card_mono [of "H \<union> ?R" "{..<NBUF}"] \<open>finite H\<close> by auto
  then obtain i where "i < NBUF" "i \<notin> H" "i \<notin> ?R"
    by blast
  then show ?thesis
    using bc_invD(13) [OF inv, of i] by (auto simp: buf_ok_def)
qed

lemma held_refcnt:
  assumes "bc_inv me dev H P s" and "i < NBUF" and "b_refcnt (bufs s ! i) = 0"
  shows "i \<notin> H" "caches dev (bufs s ! i) n \<Longrightarrow> n \<notin> P"
proof -
  have "of_bool (i \<in> H) + of_bool (b_dev (bufs s ! i) = dev \<and> b_blockno (bufs s ! i) \<in> P) = (0 :: u32)"
    using bc_invD(13) [OF assms(1,2)] assms(3) by (simp add: buf_ok_def)
  then show "i \<notin> H" "caches dev (bufs s ! i) n \<Longrightarrow> n \<notin> P"
    unfolding caches_def by (cases "i \<in> H"; cases "b_dev (bufs s ! i) = dev \<and> b_blockno (bufs s ! i) \<in> P"; auto)+
qed

lemma bget_ok:
  assumes inv: "bc_inv me dev H P s" and held: "\<And>i. i \<in> H \<Longrightarrow> b_blockno (bufs s ! i) \<noteq> n"
    and room: "card H + card P < NBUF \<or> (\<exists>i<NBUF. caches dev (bufs s ! i) n)" and fin: "finite P"
  shows "\<exists>b v. bget s dev n = Inr (s\<lparr>hart := settle (hart s), bufs := (bufs s)[b := (bufs s ! b)\<lparr>b_dev := dev, b_blockno := n, b_valid := v,
        b_refcnt := b_refcnt (bufs s ! b) + 1, b_lock := (b_lock (bufs s ! b))\<lparr>sl_locked := 1, sl_pid := pid (procs s ! me)\<rparr>\<rparr>]\<rparr>, b) \<and>
      b < NBUF \<and> b \<notin> H \<and> (if caches dev (bufs s ! b) n then v = b_valid (bufs s ! b)
        else v = 0 \<and> b_refcnt (bufs s ! b) = 0 \<and> (\<forall>i<NBUF. \<not> caches dev (bufs s ! i) n))"
proof -
  note D = bc_invD [OF inv]
  obtain L where L: "lru (bufs s) L" "set L = {..<NBUF}"
    using D(12) by (auto simp: lru_def)
  obtain s1 where s1: "acquire_bcache s = Inr s1" "bufs s1 = bufs s"
    "\<And>f. release_bcache (s1\<lparr>bufs := f\<rparr>) = Inr (s\<lparr>hart := settle (hart s), bufs := f\<rparr>)"
    using bcache_lock_ok [OF D(10,5)] by blast
  have take: "acquiresleep_buf (s\<lparr>hart := settle (hart s), bufs := (bufs s)[b := x]\<rparr>) b =
      Inr (s\<lparr>hart := settle (hart s), bufs := (bufs s)[b := x\<lparr>b_lock := (b_lock (bufs s ! b))\<lparr>sl_locked := 1, sl_pid := pid (procs s ! me)\<rparr>\<rparr>]\<rparr>)"
    if "b < NBUF" "b \<notin> H" "b_lock x = b_lock (bufs s ! b)" for b x
    using acquiresleep_buf_ok [of "s\<lparr>hart := settle (hart s), bufs := (bufs s)[b := x]\<rparr>" me b] D(2,9,10) D(13) [OF that(1)] that
    by (simp add: buf_ok_def)
  show ?thesis
  proof (cases "find (\<lambda>b. b_dev (bufs s ! b) = dev \<and> b_blockno (bufs s ! b) = n) L")
    case (Some b)
    then have b: "caches dev (bufs s ! b) n" "b < NBUF" "b \<notin> H"
      using L(2) held by (auto simp: find_Some_iff caches_def)
    have "(bufs s ! b)\<lparr>b_dev := dev, b_blockno := n, b_valid := b_valid (bufs s ! b), b_refcnt := b_refcnt (bufs s ! b) + 1, b_lock := lk\<rparr> =
        (bufs s ! b)\<lparr>b_refcnt := b_refcnt (bufs s ! b) + 1, b_lock := lk\<rparr>" for lk
      using b(1) by (intro bufr.equality) (simp_all add: caches_def)
    then show ?thesis
      using Some b s1 lru_find(1) [OF L(1), of dev n] take [OF b(2,3)]
      by (intro exI [of _ b] exI [of _ "b_valid (bufs s ! b)"]) (simp add: bget_def upd_buf_def)
  next
    case None
    then have none: "\<not> caches dev (bufs s ! i) n" if "i < NBUF" for i
      using L(2) that by (auto simp: find_None_iff caches_def)
    then obtain i where "i < NBUF" "b_refcnt (bufs s ! i) = 0"
      using room unused_exists [OF inv _ fin] by blast
    then obtain b where b: "find (\<lambda>b. b_refcnt (bufs s ! b) = 0) (rev L) = Some b"
      using L(2) by (cases "find (\<lambda>b. b_refcnt (bufs s ! b) = 0) (rev L)") (auto simp: find_None_iff)
    then have "b \<in> set (rev L) \<and> b_refcnt (bufs s ! b) = 0"
      unfolding find_Some_iff by (metis nth_mem)
    then have b': "b < NBUF" "b_refcnt (bufs s ! b) = 0"
      using L(2) by auto
    then have "b \<notin> H"
      using held_refcnt(1) [OF inv] by blast
    then show ?thesis
      using None b b' none s1 lru_find [OF L(1)] take [OF b'(1)]
      by (intro exI [of _ b] exI [of _ 0]) (simp add: bget_def upd_buf_def)
  qed
qed

lemma bread_run:
  assumes inv: "bc_inv me dev H P s" and held: "\<And>i. i \<in> H \<Longrightarrow> b_blockno (bufs s ! i) \<noteq> n" and n: "n < 2 ^ 31"
    and room: "card H + card P < NBUF \<or> (\<exists>i<NBUF. caches dev (bufs s ! i) n)" and fin: "finite P"
  shows "\<exists>b ps d y. bread s dev n = Inr (s\<lparr>hart := settle (hart s), procs := ps, medium := medium s, vdisk := d, bufs := (bufs s)[b := y]\<rparr>, b) \<and>
    woken (procs s) ps \<and> vd_idle d \<and> b < NBUF \<and> b \<notin> H \<and> b_valid y \<noteq> 0 \<and> b_next y = b_next (bufs s ! b) \<and> b_prev y = b_prev (bufs s ! b) \<and>
    b_lock y = (b_lock (bufs s ! b))\<lparr>sl_locked := 1, sl_pid := pid (procs s ! me)\<rparr> \<and> b_refcnt y = b_refcnt (bufs s ! b) + 1 \<and>
    caches dev y n \<and> b_data y = view dev s n \<and> (caches dev (bufs s ! b) n \<or> b_refcnt (bufs s ! b) = 0 \<and> (\<forall>i<NBUF. \<not> caches dev (bufs s ! i) n))"
proof -
  note D = bc_invD [OF inv]
  obtain b v where g: "bget s dev n = Inr (s\<lparr>hart := settle (hart s), bufs := (bufs s)[b := (bufs s ! b)\<lparr>b_dev := dev, b_blockno := n, b_valid := v,
        b_refcnt := b_refcnt (bufs s ! b) + 1, b_lock := (b_lock (bufs s ! b))\<lparr>sl_locked := 1, sl_pid := pid (procs s ! me)\<rparr>\<rparr>]\<rparr>, b)"
      and b: "b < NBUF" "b \<notin> H" and v: "if caches dev (bufs s ! b) n then v = b_valid (bufs s ! b)
        else v = 0 \<and> b_refcnt (bufs s ! b) = 0 \<and> (\<forall>i<NBUF. \<not> caches dev (bufs s ! i) n)"
    using bget_ok [OF inv held room fin] by blast
  define x where "x = (bufs s ! b)\<lparr>b_dev := dev, b_blockno := n, b_valid := v,
        b_refcnt := b_refcnt (bufs s ! b) + 1, b_lock := (b_lock (bufs s ! b))\<lparr>sl_locked := 1, sl_pid := pid (procs s ! me)\<rparr>\<rparr>"
  let ?s1 = "s\<lparr>hart := settle (hart s), bufs := (bufs s)[b := x]\<rparr>"
  have bx: "bufs ?s1 ! b = x" "b < length (bufs ?s1)"
    using b D(9) by simp_all
  show ?thesis
  proof (cases "v = 0")
    case False
    then have c: "caches dev (bufs s ! b) n" "v = b_valid (bufs s ! b)"
      using v by (auto split: if_splits)
    have "view dev s n = b_data x"
      using view_cached [OF D(7) b(1) c(1)] c(2) False by (simp add: x_def)
    moreover have "bread s dev n = Inr (?s1, b)"
      using g False bx by (simp add: bread_def x_def)
    ultimately show ?thesis
      using b c D(4) False by (intro exI [of _ b] exI [of _ "procs s"] exI [of _ "vdisk s"] exI [of _ x]) (auto simp: x_def caches_def)
  next
    case True
    have "idle_procs ?s1"
      using D(1) by (simp add: idle_procs_def)
    moreover have "dev_io ?s1 (medium ?s1) (rw_type False) (sector_of (b_blockno (bufs ?s1 ! b))) (b_data (bufs ?s1 ! b)) =
        (medium s, disk_at (medium s) (sector_of n), 0)"
      using D(6) D(13) [OF b(1)] b D(9) by (simp add: dev_ok_def rw_type_def buf_ok_def x_def)
    ultimately obtain ps d where rw: "virtio_disk_rw ?s1 b False = Inr (?s1\<lparr>hart := settle (hart ?s1), procs := ps, medium := medium s, vdisk := d,
        bufs := (bufs ?s1)[b := (bufs ?s1 ! b)\<lparr>b_data := disk_at (medium s) (sector_of n), b_disk := 0\<rparr>]\<rparr>)" "woken (procs ?s1) ps" "vd_idle d"
      using virtio_disk_rw_ok [of ?s1 b False] D(4) bx(2) by auto
    let ?y = "x\<lparr>b_data := disk_at (medium s) (sector_of n), b_disk := 0, b_valid := 1\<rparr>"
    have "bread s dev n = Inr (s\<lparr>hart := settle (hart s), procs := ps, medium := medium s, vdisk := d, bufs := (bufs s)[b := ?y]\<rparr>, b)"
      using g rw(1) bx True by (simp add: bread_def upd_buf_def flip: x_def) (simp add: x_def)
    moreover have "view dev s n = disk_at (medium s) (sector_of n)"
    proof (rule view_disk)
      fix i
      assume "i < NBUF" "caches dev (bufs s ! i) n"
      then show "b_valid (bufs s ! i) = 0"
        using v b(1) one_copyD [OF D(7), of i n b] True by (auto split: if_splits)
    qed
    ultimately show ?thesis
      using b rw(2,3) v
      by (intro exI [of _ b] exI [of _ ps] exI [of _ d] exI [of _ ?y]) (auto simp: x_def caches_def split: if_splits)
  qed
qed

lemma bread_ok:
  assumes inv: "bc_inv me dev H P s" and held: "\<And>i. i \<in> H \<Longrightarrow> b_blockno (bufs s ! i) \<noteq> n" and n: "n < 2 ^ 31"
    and room: "card H + card P < NBUF \<or> (\<exists>i<NBUF. caches dev (bufs s ! i) n)" and fin: "finite P"
  shows "\<exists>t b. bread s dev n = Inr (t, b) \<and> bc_inv me dev (insert b H) P t \<and> b \<notin> H \<and> caches dev (bufs t ! b) n \<and>
    b_data (bufs t ! b) = view dev s n \<and> view dev t = view dev s \<and> medium t = medium s \<and> io_step s t \<and>
    (\<forall>i\<in>H. bufs t ! i = bufs s ! i)"
proof -
  note D = bc_invD [OF inv]
  obtain b ps d y where r: "bread s dev n = Inr (s\<lparr>hart := settle (hart s), procs := ps, medium := medium s, vdisk := d, bufs := (bufs s)[b := y]\<rparr>, b)"
    "woken (procs s) ps" "vd_idle d" and b: "b < NBUF" "b \<notin> H" "b_valid y \<noteq> 0" "b_next y = b_next (bufs s ! b)" "b_prev y = b_prev (bufs s ! b)"
    "b_lock y = (b_lock (bufs s ! b))\<lparr>sl_locked := 1, sl_pid := pid (procs s ! me)\<rparr>" "b_refcnt y = b_refcnt (bufs s ! b) + 1"
    "caches dev y n" "b_data y = view dev s n" "caches dev (bufs s ! b) n \<or> b_refcnt (bufs s ! b) = 0 \<and> (\<forall>i<NBUF. \<not> caches dev (bufs s ! i) n)"
    using bread_run [OF assms] by blast
  let ?t = "s\<lparr>hart := settle (hart s), procs := ps, medium := medium s, vdisk := d, bufs := (bufs s)[b := y]\<rparr>"
  have bt: "bufs ?t ! j = (if j = b then y else bufs s ! j)" if "j < NBUF" for j
    using that D(9) b(1) by (simp add: nth_list_update)
  have other: "\<not> caches dev (bufs s ! j) n" if "j < NBUF" "j \<noteq> b" for j
    using b(1,10) that one_copyD [OF D(7)] by blast
  have inv': "bc_inv me dev (insert b H) P ?t"
  proof (rule bc_inv_step [OF inv b(1) refl _ r(2,3) D(15) b(4,5)])
    have "n \<in> P \<Longrightarrow> caches dev (bufs s ! b) n"
      using b(10) D(14) [of n] by blast
    then have "b_refcnt y = 1 + of_bool (n \<in> P)"
      using D(13) [OF b(1)] b(2,7,10) by (auto simp: buf_ok_def caches_def)
    moreover have "length (view dev s n) = BSIZE"
      using view_len [OF inv] .
    ultimately show "buf_ok (pid (procs s ! me)) dev (insert b H) P (medium s) b y"
      using D(13) [OF b(1)] b n by (simp add: buf_ok_def caches_def)
    show "caches dev y m \<or> m \<in> P \<and> \<not> caches dev (bufs s ! b) m" if "m \<in> P" for m
      using that b(1,8,10) held_refcnt(2) [OF inv b(1)] by (auto simp: caches_def)
  qed (use b other in \<open>auto simp: caches_def\<close>)
  have "view dev ?t = view dev s"
  proof
    fix k
    have "view dev ?t k = (if caches dev y k then b_data y else view dev s k)"
    proof (rule view_step [OF D(7) bc_invD(7) [OF inv']])
      show "b_data (bufs s ! b) = disk_at (medium s) (sector_of k)"
        if "\<not> caches dev y k" "caches dev (bufs s ! b) k" "b_valid (bufs s ! b) \<noteq> 0"
      proof -
        have "b_refcnt (bufs s ! b) = 0"
          using that b(8,10) by (auto simp: caches_def)
        then show ?thesis
          using that held_refcnt(2) [OF inv b(1) _ that(2)] D(13) [OF b(1)] b(2) by (auto simp: buf_ok_def caches_def)
      qed
    qed (use b D(9) in simp_all)
    then show "view dev ?t k = view dev s k"
      using b(8,9) by (auto simp: caches_def)
  qed
  moreover have "io_step s ?t"
    by (rule io_stepI) (use r in simp_all)
  ultimately show ?thesis
    using r(1) b bt D(8) inv' by (intro exI [of _ ?t] exI [of _ b]) auto
qed


section \<open>Using a held buffer\<close>

lemma heldD:
  assumes "bc_inv me dev H P s" and "b \<in> H"
  shows "b < NBUF" "b < length (bufs s)" "sl_locked (b_lock (bufs s ! b)) \<noteq> 0" "sl_pid (b_lock (bufs s ! b)) = pid (procs s ! me)"
    "lk_free (sl_lk (b_lock (bufs s ! b)))" "b_valid (bufs s ! b) \<noteq> 0" "caches dev (bufs s ! b) (b_blockno (bufs s ! b))"
    "b_blockno (bufs s ! b) < 2 ^ 31" "length (b_data (bufs s ! b)) = BSIZE"
    "view dev s (b_blockno (bufs s ! b)) = b_data (bufs s ! b)"
    "\<forall>j<NBUF. j \<noteq> b \<longrightarrow> \<not> caches dev (bufs s ! j) (b_blockno (bufs s ! b))"
proof -
  show b: "b < NBUF" "b < length (bufs s)"
    using bc_invD(8,9) [OF assms(1)] assms(2) by auto
  show ok: "sl_locked (b_lock (bufs s ! b)) \<noteq> 0" "sl_pid (b_lock (bufs s ! b)) = pid (procs s ! me)"
    "lk_free (sl_lk (b_lock (bufs s ! b)))" "b_valid (bufs s ! b) \<noteq> 0" "caches dev (bufs s ! b) (b_blockno (bufs s ! b))"
    "b_blockno (bufs s ! b) < 2 ^ 31" "length (b_data (bufs s ! b)) = BSIZE"
    using bc_invD(13) [OF assms(1) b(1)] assms(2) by (simp_all add: buf_ok_def caches_def)
  show "view dev s (b_blockno (bufs s ! b)) = b_data (bufs s ! b)"
    using view_cached [OF bc_invD(7) [OF assms(1)] b(1) ok(5,4)] .
  show "\<forall>j<NBUF. j \<noteq> b \<longrightarrow> \<not> caches dev (bufs s ! j) (b_blockno (bufs s ! b))"
    using one_copyD [OF bc_invD(7) [OF assms(1)]] ok(5) b(1) by blast
qed

text \<open>Storing into the data of a held buffer.\<close>

lemma fill_ok:
  assumes inv: "bc_inv me dev H P s" and b: "b \<in> H" and len: "length data = BSIZE"
  shows "bc_inv me dev H P (upd_buf s b (\<lambda>x. x\<lparr>b_data := data\<rparr>))"
    "view dev (upd_buf s b (\<lambda>x. x\<lparr>b_data := data\<rparr>)) k = (if k = b_blockno (bufs s ! b) then data else view dev s k)"
    "io_step s (upd_buf s b (\<lambda>x. x\<lparr>b_data := data\<rparr>))"
    "bufs (upd_buf s b (\<lambda>x. x\<lparr>b_data := data\<rparr>)) ! i = (if i = b then (bufs s ! b)\<lparr>b_data := data\<rparr> else bufs s ! i)"
proof -
  note D = bc_invD [OF inv] and B = heldD [OF inv b]
  let ?x = "(bufs s ! b)\<lparr>b_data := data\<rparr>"
  let ?t = "s\<lparr>hart := hart s, procs := procs s, medium := medium s, vdisk := vdisk s, bufs := (bufs s)[b := ?x]\<rparr>"
  have t: "upd_buf s b (\<lambda>x. x\<lparr>b_data := data\<rparr>) = ?t"
    by (simp add: upd_buf_def)
  have inv': "bc_inv me dev H P ?t"
  proof (rule bc_inv_step [OF inv B(1) refl refl woken_refl D(4,15)])
    show "buf_ok (pid (procs s ! me)) dev H P (medium s) b ?x"
      using D(13) [OF B(1)] b len by (simp add: buf_ok_def)
    show "caches dev ?x n \<or> n \<in> P \<and> \<not> caches dev (bufs s ! b) n" if "n \<in> P" for n
      using that by (simp add: caches_def)
  qed (use B(11) in auto)
  then show "bc_inv me dev H P (upd_buf s b (\<lambda>x. x\<lparr>b_data := data\<rparr>))"
    unfolding t .
  have "view dev ?t k = (if caches dev ?x k then b_data ?x else view dev s k)"
    by (rule view_step [OF D(7) bc_invD(7) [OF inv'] _ B(1)]) (use B D(9) in \<open>simp_all add: caches_def\<close>)
  then show "view dev (upd_buf s b (\<lambda>x. x\<lparr>b_data := data\<rparr>)) k = (if k = b_blockno (bufs s ! b) then data else view dev s k)"
    unfolding t using B(7) by (simp add: caches_def)
  show "io_step s (upd_buf s b (\<lambda>x. x\<lparr>b_data := data\<rparr>))"
    unfolding t by (rule io_stepI) simp_all
  show "bufs (upd_buf s b (\<lambda>x. x\<lparr>b_data := data\<rparr>)) ! i = (if i = b then ?x else bufs s ! i)"
    using B(2) by (simp add: upd_buf_def nth_list_update)
qed

lemma bwrite_ok:
  assumes inv: "bc_inv me dev H P s" and b: "b \<in> H"
  shows "\<exists>t. bwrite s b = Inr t \<and> bc_inv me dev H P t \<and> (\<forall>k<2 ^ 31. view dev t k = view dev s k) \<and> io_step s t \<and>
    medium t = (sector_of (b_blockno (bufs s ! b)), b_data (bufs s ! b)) # medium s \<and>
    (\<forall>i. bufs t ! i = (if i = b then (bufs s ! b)\<lparr>b_disk := 0\<rparr> else bufs s ! i))"
proof -
  note D = bc_invD [OF inv] and B = heldD [OF inv b]
  let ?x = "(bufs s ! b)\<lparr>b_disk := 0\<rparr>" and ?m = "(sector_of (b_blockno (bufs s ! b)), b_data (bufs s ! b)) # medium s"
  let ?s1 = "s\<lparr>hart := settle (hart s)\<rparr>"
  have "holdingsleep_buf s b = Inr (?s1, True)"
    using holdingsleep_buf_ok [OF D(10,2) B(5)] B(3,4) by simp
  moreover have "dev_io ?s1 (medium ?s1) (rw_type True) (sector_of (b_blockno (bufs ?s1 ! b))) (b_data (bufs ?s1 ! b)) =
      (?m, b_data (bufs s ! b), 0)"
    using D(6) B(9) by (simp add: dev_ok_def rw_type_def)
  ultimately obtain ps d where w: "bwrite s b = Inr (s\<lparr>hart := settle (hart s), procs := ps, medium := ?m, vdisk := d, bufs := (bufs s)[b := ?x]\<rparr>)"
    "woken (procs s) ps" "vd_idle d"
    using virtio_disk_rw_ok [of ?s1 b True] D(1,4) B(2) by (auto simp: bwrite_def idle_procs_def)
  let ?t = "s\<lparr>hart := settle (hart s), procs := ps, medium := ?m, vdisk := d, bufs := (bufs s)[b := ?x]\<rparr>"
  have inv': "bc_inv me dev H P ?t"
  proof (rule bc_inv_step [OF inv B(1) refl _ w(2,3)])
    show "buf_ok (pid (procs s ! me)) dev H P ?m b ?x"
      using D(13) [OF B(1)] b by (simp add: buf_ok_def)
    show "blocks_ok ?m"
      using D(15) B(9) by (simp add: blocks_ok_def)
    show "caches dev ?x n \<or> n \<in> P \<and> \<not> caches dev (bufs s ! b) n" if "n \<in> P" for n
      using that by (simp add: caches_def)
    show "disk_at ?m (sector_of (b_blockno (bufs s ! j))) = disk_at (medium s) (sector_of (b_blockno (bufs s ! j)))"
      if "j < NBUF" "j \<noteq> b" "b_dev (bufs s ! j) = dev" "b_blockno (bufs s ! j) < 2 ^ 31" for j
      using B(8,11) that sector_inj by (auto simp: caches_def)
  qed (use B(11) in auto)
  have "view dev ?t k = view dev s k" if "k < 2 ^ 31" for k
  proof -
    have "view dev ?t k = (if caches dev ?x k then b_data ?x else view dev s k)"
      by (rule view_step [OF D(7) bc_invD(7) [OF inv'] _ B(1)]) (use B(7) sector_inj [OF that B(8)] B(6) D(9) in \<open>simp_all add: caches_def\<close>)
    then show ?thesis
      using B(10) by (auto simp: caches_def)
  qed
  moreover have "io_step s ?t"
    by (rule io_stepI) (use w in simp_all)
  ultimately show ?thesis
    using w(1) inv' B(2) by (intro exI [of _ ?t]) (auto simp: nth_list_update)
qed


text \<open>A change of the reference count of a held buffer, with the pinned blocks changed to match.\<close>

lemma repin_ok:
  assumes inv: "bc_inv me dev H P s" and b: "b \<in> H" and P': "\<And>k. k \<noteq> b_blockno (bufs s ! b) \<Longrightarrow> k \<in> P' \<longleftrightarrow> k \<in> P"
    and r: "r = 1 + of_bool (b_blockno (bufs s ! b) \<in> P')"
  defines "t \<equiv> s\<lparr>hart := settle (hart s), bufs := (bufs s)[b := (bufs s ! b)\<lparr>b_refcnt := r\<rparr>]\<rparr>"
  shows "bc_inv me dev H P' t" "view dev t = view dev s" "io_step s t" "bufs t ! i = (if i = b then (bufs s ! b)\<lparr>b_refcnt := r\<rparr> else bufs s ! i)"
proof -
  note D = bc_invD [OF inv] and B = heldD [OF inv b]
  let ?x = "(bufs s ! b)\<lparr>b_refcnt := r\<rparr>"
  have t: "t = s\<lparr>hart := settle (hart s), procs := procs s, medium := medium s, vdisk := vdisk s, bufs := (bufs s)[b := ?x]\<rparr>"
    by (simp add: t_def)
  show inv': "bc_inv me dev H P' t"
  proof (rule bc_inv_step [OF inv B(1) t _ woken_refl D(4,15)])
    show "buf_ok (pid (procs s ! me)) dev H P' (medium s) b ?x"
      using D(13) [OF B(1)] b r B(6,7) by (simp add: buf_ok_def caches_def)
    show "caches dev ?x n \<or> n \<in> P \<and> \<not> caches dev (bufs s ! b) n" if "n \<in> P'" for n
      using that P' B(7) by (auto simp: caches_def)
  qed (use P' B(11) in \<open>auto simp: caches_def\<close>)
  show "view dev t = view dev s"
  proof
    fix k
    have "view dev t k = (if caches dev ?x k then b_data ?x else view dev s k)"
      by (rule view_step [OF D(7) bc_invD(7) [OF inv'] _ B(1)]) (use B D(9) in \<open>simp_all add: caches_def t\<close>)
    then show "view dev t k = view dev s k"
      using B(10) by (auto simp: caches_def)
  qed
  show "io_step s t"
    unfolding t by (rule io_stepI) simp_all
  show "bufs t ! i = (if i = b then (bufs s ! b)\<lparr>b_refcnt := r\<rparr> else bufs s ! i)"
    using B(2) by (simp add: t_def nth_list_update)
qed

lemma bpin_ok:
  assumes inv: "bc_inv me dev H P s" and b: "b \<in> H" and new: "b_blockno (bufs s ! b) \<notin> P"
  shows "\<exists>t. bpin s b = Inr t \<and> bc_inv me dev H (insert (b_blockno (bufs s ! b)) P) t \<and> view dev t = view dev s \<and> io_step s t \<and>
    medium t = medium s \<and> (\<forall>i. bufs t ! i = (if i = b then (bufs s ! b)\<lparr>b_refcnt := 2\<rparr> else bufs s ! i))"
proof -
  note D = bc_invD [OF inv] and B = heldD [OF inv b]
  have "b_refcnt (bufs s ! b) = 1"
    using D(13) [OF B(1)] b new by (simp add: buf_ok_def)
  then have "bpin s b = Inr (s\<lparr>hart := settle (hart s), bufs := (bufs s)[b := (bufs s ! b)\<lparr>b_refcnt := 2\<rparr>]\<rparr>)"
    using bcache_lock_ok [OF D(10,5)] by (auto simp: bpin_def upd_buf_def)
  then show ?thesis
    using repin_ok [OF inv b, of "insert (b_blockno (bufs s ! b)) P" 2] by auto
qed

lemma bunpin_ok:
  assumes inv: "bc_inv me dev H P s" and b: "b \<in> H" and pin: "b_blockno (bufs s ! b) \<in> P"
  shows "\<exists>t. bunpin s b = Inr t \<and> bc_inv me dev H (P - {b_blockno (bufs s ! b)}) t \<and> view dev t = view dev s \<and> io_step s t \<and>
    medium t = medium s \<and> (\<forall>i. bufs t ! i = (if i = b then (bufs s ! b)\<lparr>b_refcnt := 1\<rparr> else bufs s ! i))"
proof -
  note D = bc_invD [OF inv] and B = heldD [OF inv b]
  have "b_refcnt (bufs s ! b) = 2"
    using D(13) [OF B(1)] b pin B(7) by (simp add: buf_ok_def caches_def)
  then have "bunpin s b = Inr (s\<lparr>hart := settle (hart s), bufs := (bufs s)[b := (bufs s ! b)\<lparr>b_refcnt := 1\<rparr>]\<rparr>)"
    using bcache_lock_ok [OF D(10,5)] by (auto simp: bunpin_def upd_buf_def)
  then show ?thesis
    using repin_ok [OF inv b, of "P - {b_blockno (bufs s ! b)}" 1] by auto
qed

text \<open>Only the links change.\<close>

lemma relink_ok:
  assumes "bc_inv me dev H P s" and "lru bs L" and "\<And>i. unlinked (bs ! i) = unlinked (bufs s ! i)"
  shows "bc_inv me dev H P (s\<lparr>bufs := bs\<rparr>)" "view dev (s\<lparr>bufs := bs\<rparr>) = view dev s"
proof -
  note U = unlinkedD [OF assms(3)]
  have "buf_ok p dev H P m i (bs ! i) = buf_ok p dev H P m i (bufs s ! i)" "caches dev (bs ! i) n = caches dev (bufs s ! i) n" for p m i n
    by (simp_all add: buf_ok_def caches_def U)
  moreover have "one_copy dev bs = one_copy dev (bufs s)"
    by (simp add: one_copy_def U)
  ultimately show "bc_inv me dev H P (s\<lparr>bufs := bs\<rparr>)" "view dev (s\<lparr>bufs := bs\<rparr>) = view dev s"
    using assms(1,2) by (auto simp: bc_inv_def idle_procs_def) (auto simp: view_def U fun_eq_iff cong: option.case_cong)
qed

definition brelse_bufs :: "bufr list \<Rightarrow> nat \<Rightarrow> bufr list" where
  "brelse_bufs bs b = (let x = (bs ! b)\<lparr>b_lock := (b_lock (bs ! b))\<lparr>sl_locked := 0, sl_pid := 0\<rparr>, b_refcnt := b_refcnt (bs ! b) - 1\<rparr>
     in if b_refcnt (bs ! b) = 1 then link_front (unlink_buf (bs[b := x]) b) b else bs[b := x])"

lemma brelse_run:
  assumes inv: "bc_inv me dev H P s" and b: "b \<in> H"
  shows "\<exists>ps. brelse s b = Inr (s\<lparr>hart := settle (hart s), procs := ps, medium := medium s, vdisk := vdisk s, bufs := brelse_bufs (bufs s) b\<rparr>) \<and>
    woken (procs s) ps"
proof -
  note D = bc_invD [OF inv] and B = heldD [OF inv b]
  have r: "b_refcnt (bufs s ! b) - 1 = 0 \<longleftrightarrow> b_refcnt (bufs s ! b) = 1"
    by auto
  obtain ps where ps: "releasesleep_buf (s\<lparr>hart := settle (hart s)\<rparr>) b = Inr (s\<lparr>hart := settle (hart s), procs := ps,
      bufs := (bufs s)[b := (bufs s ! b)\<lparr>b_lock := (b_lock (bufs s ! b))\<lparr>sl_locked := 0, sl_pid := 0\<rparr>\<rparr>]\<rparr>)" "woken (procs s) ps"
    using releasesleep_buf_ok [of "s\<lparr>hart := settle (hart s)\<rparr>" b] D(1) B(5) by (auto simp: idle_procs_def)
  have "brelse s b = Inr (s\<lparr>hart := settle (hart s), procs := ps, bufs := brelse_bufs (bufs s) b\<rparr>)"
    using holdingsleep_buf_ok [OF D(10,2) B(5)] B(2-4) ps(1) D(5,10)
      bcache_lock_ok [of "s\<lparr>hart := settle (hart s), procs := ps,
         bufs := (bufs s)[b := (bufs s ! b)\<lparr>b_lock := (b_lock (bufs s ! b))\<lparr>sl_locked := 0, sl_pid := 0\<rparr>\<rparr>]\<rparr>"]
    by (auto simp: brelse_def brelse_bufs_def upd_buf_def Let_def r)
  then show ?thesis
    using ps(2) by (intro exI [of _ ps]) simp
qed

lemma brelse_bufs_lru:
  assumes "lru bs L" and "b < NBUF"
  shows "lru (brelse_bufs bs b) (if b_refcnt (bs ! b) = 1 then b # remove1 b L else L)"
proof -
  let ?bs = "bs[b := (bs ! b)\<lparr>b_lock := (b_lock (bs ! b))\<lparr>sl_locked := 0, sl_pid := 0\<rparr>, b_refcnt := b_refcnt (bs ! b) - 1\<rparr>]"
  have "length bs = NBUF + 1"
    using assms(1) by (simp add: lru_def)
  then have "lru ?bs L"
    using assms lru_cong [of ?bs bs L] by (auto simp: nth_list_update)
  then show ?thesis
    using brelse_list_lru [of ?bs L b] assms(2) unfolding brelse_bufs_def Let_def by presburger
qed

lemma brelse_ok:
  assumes inv: "bc_inv me dev H P s" and b: "b \<in> H"
    and clean: "b_blockno (bufs s ! b) \<in> P \<or> b_data (bufs s ! b) = disk_at (medium s) (sector_of (b_blockno (bufs s ! b)))"
  shows "\<exists>t. brelse s b = Inr t \<and> bc_inv me dev (H - {b}) P t \<and> view dev t = view dev s \<and> io_step s t \<and> medium t = medium s \<and>
    (\<forall>i. i \<noteq> b \<longrightarrow> unlinked (bufs t ! i) = unlinked (bufs s ! i))"
proof -
  note D = bc_invD [OF inv] and B = heldD [OF inv b]
  let ?x = "(bufs s ! b)\<lparr>b_lock := (b_lock (bufs s ! b))\<lparr>sl_locked := 0, sl_pid := 0\<rparr>, b_refcnt := b_refcnt (bufs s ! b) - 1\<rparr>"
  let ?bs = "(bufs s)[b := ?x]" and ?f = "brelse_bufs (bufs s) b"
  obtain ps where ps: "brelse s b = Inr (s\<lparr>hart := settle (hart s), procs := ps, medium := medium s, vdisk := vdisk s, bufs := ?f\<rparr>)" "woken (procs s) ps"
    using brelse_run [OF inv b] by blast
  let ?t0 = "s\<lparr>hart := settle (hart s), procs := ps, medium := medium s, vdisk := vdisk s, bufs := ?bs\<rparr>"
  have inv0: "bc_inv me dev (H - {b}) P ?t0"
  proof (rule bc_inv_step [OF inv B(1) refl _ ps(2) D(4,15)])
    show "buf_ok (pid (procs s ! me)) dev (H - {b}) P (medium s) b ?x"
      using D(13) [OF B(1)] b clean by (auto simp: buf_ok_def)
    show "caches dev ?x n \<or> n \<in> P \<and> \<not> caches dev (bufs s ! b) n" if "n \<in> P" for n
      using that by (simp add: caches_def)
  qed (use B(11) in auto)
  have view0: "view dev ?t0 = view dev s"
  proof
    fix k
    have "view dev ?t0 k = (if caches dev ?x k then b_data ?x else view dev s k)"
      by (rule view_step [OF D(7) bc_invD(7) [OF inv0] _ B(1)]) (use B D(9) in \<open>simp_all add: caches_def\<close>)
    then show "view dev ?t0 k = view dev s k"
      using B(10) by (auto simp: caches_def)
  qed
  have f: "\<exists>L. lru ?f L" "unlinked (?f ! i) = unlinked (?bs ! i)" for i
    using D(12) brelse_bufs_lru [OF _ B(1)] by (blast, simp add: brelse_bufs_def Let_def)
  then have "bc_inv me dev (H - {b}) P (?t0\<lparr>bufs := ?f\<rparr>)" "view dev (?t0\<lparr>bufs := ?f\<rparr>) = view dev s"
    using relink_ok [OF inv0, of ?f] view0 by auto
  moreover have "io_step s (?t0\<lparr>bufs := ?f\<rparr>)"
    using io_stepI [OF _ ps(2), where c = "settle (hart s)" and m = "medium s" and d = "vdisk s" and bs = ?f] by simp
  ultimately show ?thesis
    using ps(1) f(2) by (intro exI [of _ "?t0\<lparr>bufs := ?f\<rparr>"]) simp
qed

section \<open>Initialisation\<close>

text \<open>The list after the first \<open>k\<close> buffers were put in.\<close>

definition binit_step :: "nat \<Rightarrow> bufr list \<Rightarrow> bufr list" where
  "binit_step b bs = link_front (bs[b := (bs ! b)\<lparr>b_lock := initsleeplock (b_lock (bs ! b)) ''buffer''\<rparr>]) b"

lemma binit_fold:
  assumes "length bs = NBUF + 1" and "b_next (bs ! NBUF) = NBUF" and "b_prev (bs ! NBUF) = NBUF" and "k \<le> NBUF"
  shows "length (fold binit_step [0..<k] bs) = NBUF + 1 \<and> linked (fold binit_step [0..<k] bs) (NBUF # rev [0..<k] @ [NBUF]) \<and>
    (\<forall>i<NBUF. unlinked (fold binit_step [0..<k] bs ! i) =
       unlinked (if i < k then (bs ! i)\<lparr>b_lock := initsleeplock (b_lock (bs ! i)) ''buffer''\<rparr> else bs ! i))"
  using assms(4)
proof (induction k)
  case 0
  then show ?case using assms(1-3) by simp
next
  case (Suc k)
  let ?f = "fold binit_step [0..<k] bs"
  let ?g = "?f[k := (?f ! k)\<lparr>b_lock := initsleeplock (b_lock (?f ! k)) ''buffer''\<rparr>]"
  have f: "length ?f = NBUF + 1" "linked ?f (NBUF # rev [0..<k] @ [NBUF])"
    "\<And>i. i < NBUF \<Longrightarrow> unlinked (?f ! i) = unlinked (if i < k then (bs ! i)\<lparr>b_lock := initsleeplock (b_lock (bs ! i)) ''buffer''\<rparr> else bs ! i)"
    using Suc by simp_all
  have k: "k < NBUF" using Suc.prems by simp
  have "linked ?g (NBUF # rev [0..<k] @ [NBUF]) = linked ?f (NBUF # rev [0..<k] @ [NBUF])"
    using k f(1) by (intro linked_cong) (simp_all add: nth_list_update)
  then have "linked (link_front ?g k) (NBUF # k # rev [0..<k] @ [NBUF])"
    using f(1,2) k by (intro link_front_linked) auto
  moreover have "unlinked (link_front ?g k ! i) = unlinked (if i < Suc k then (bs ! i)\<lparr>b_lock := initsleeplock (b_lock (bs ! i)) ''buffer''\<rparr> else bs ! i)"
    if "i < NBUF" for i
  proof (cases "i = k")
    case True
    have "unlinked (?f ! k) = unlinked (bs ! k)"
      using f(3) [OF k] by simp
    then have "unlinked ((?f ! k)\<lparr>b_lock := initsleeplock (b_lock (?f ! k)) ''buffer''\<rparr>) =
        unlinked ((bs ! k)\<lparr>b_lock := initsleeplock (b_lock (bs ! k)) ''buffer''\<rparr>)"
      using unlinkedD(5) [of "?f ! k" "bs ! k"] by (cases "?f ! k"; cases "bs ! k") (simp add: unlinked_def)
    then show ?thesis
      using True f(1) k by simp
  next
    case False
    then show ?thesis
      using f(3) [OF that] by simp
  qed
  moreover have "fold binit_step [0..<Suc k] bs = binit_step k ?f" "binit_step k ?f = link_front ?g k" "rev [0..<Suc k] = k # rev [0..<k]"
    by (simp_all add: binit_step_def [of k])
  ultimately show ?case
    using f(1) by (simp del: upt_Suc)
qed

lemma binit_bufs: "bufs (binit s) = fold binit_step [0..<NBUF] ((bufs s)[NBUF := (bufs s ! NBUF)\<lparr>b_prev := NBUF, b_next := NBUF\<rparr>])"
proof -
  have "(\<lambda>b bs. let bs1 = bs[b := (bs ! b)\<lparr>b_lock := initsleeplock (b_lock (bs ! b)) ''buffer''\<rparr>] in link_front bs1 b) = binit_step"
    by (simp add: fun_eq_iff binit_step_def)
  then show ?thesis
    by (simp add: binit_def Let_def)
qed

lemma binit_lru:
  assumes "length (bufs s) = NBUF + 1"
  shows "lru (bufs (binit s)) (rev [0..<NBUF])"
    "i < NBUF \<Longrightarrow> unlinked (bufs (binit s) ! i) = unlinked ((bufs s ! i)\<lparr>b_lock := initsleeplock (b_lock (bufs s ! i)) ''buffer''\<rparr>)"
  using binit_fold [of "(bufs s)[NBUF := (bufs s ! NBUF)\<lparr>b_prev := NBUF, b_next := NBUF\<rparr>]" NBUF] assms
  by (auto simp: lru_def binit_bufs simp del: upt_rec_numeral)

text \<open>A cache of zeroed buffers satisfies the invariant, and shows the disk.\<close>

definition zero_buf :: "bufr \<Rightarrow> bool" where
  "zero_buf b \<longleftrightarrow> b_valid b = 0 \<and> b_dev b = 0 \<and> b_refcnt b = 0 \<and> length (b_data b) = BSIZE"

lemma binit_inv:
  assumes "idle_procs s" "curproc s = Some me" "me < NPROC" "vd_idle (vdisk s)" "dev_ok (dev_io s)" "blocks_ok (medium s)"
    and "length (bufs s) = NBUF + 1" and "\<forall>i<NBUF. zero_buf (bufs s ! i)" and "dev \<noteq> 0"
  shows "bc_inv me dev {} {} (binit s)"
proof -
  have b: "zero_buf (bufs (binit s) ! i)" "b_lock (bufs (binit s) ! i) = initsleeplock (b_lock (bufs s ! i)) ''buffer''" if "i < NBUF" for i
    using unlinkedD [OF binit_lru(2) [OF assms(7) that]] assms(8) that by (simp_all add: zero_buf_def)
  have "buf_ok p dev {} {} m i (bufs (binit s) ! i)" if "i < NBUF" for p m i
    using b [OF that] assms(9) by (simp add: buf_ok_def zero_buf_def initsleeplock_def initlock_def lk_free_def)
  moreover have "one_copy dev (bufs (binit s))"
    using b(1) assms(9) unfolding one_copy_def zero_buf_def by metis
  moreover have "procs (binit s) = procs s" "hart (binit s) = hart s" "curproc (binit s) = curproc s" "vdisk (binit s) = vdisk s"
    "dev_io (binit s) = dev_io s" "medium (binit s) = medium s" "lk_free (bc_lock (binit s))"
    by (simp_all add: binit_def Let_def initlock_def lk_free_def)
  ultimately show ?thesis
    using assms(1-6) binit_lru(1) [OF assms(7)] unfolding bc_inv_def idle_procs_def by auto
qed

end
