(* ===== verification/Log_thms.thy ===== *)
theory Log_thms
  imports Log Bio_thms
begin

text \<open>
  The redo log: the header block is decoded as it was encoded; a commit writes the log, the header,
  the blocks and the empty header in this order, and whatever prefix of these writes reaches the disk,
  recovery makes all of the transaction visible or none of it.
\<close>

section \<open>Words in a block\<close>

lemma st32_length [simp]: "length (st32 bs k v) = length bs"
  by (simp add: st32_def)

lemma u32_of_bytes:
  "ucast (ucast v :: u8) OR push_bit 8 (ucast (ucast (drop_bit 8 v) :: u8)) OR push_bit 16 (ucast (ucast (drop_bit 16 v) :: u8)) OR
    push_bit 24 (ucast (ucast (drop_bit 24 v) :: u8)) = v" for v :: u32
proof (rule bit_eqI)
  fix n
  assume "possible_bit TYPE(32 word) n"
  then have "n < 8 \<or> 8 \<le> n \<and> n < 16 \<or> 16 \<le> n \<and> n < 24 \<or> 24 \<le> n \<and> n < 32"
    by auto
  then show "bit (ucast (ucast v :: u8) OR push_bit 8 (ucast (ucast (drop_bit 8 v) :: u8)) OR push_bit 16 (ucast (ucast (drop_bit 16 v) :: u8)) OR
    push_bit 24 (ucast (ucast (drop_bit 24 v) :: u8)) :: u32) n = bit v n"
    by (elim disjE) (auto simp: bit_simps)
qed

lemma ld32_st32_same: "k + 3 < length bs \<Longrightarrow> ld32 (st32 bs k v) k = v"
  using u32_of_bytes [of v] by (simp add: ld32_def st32_def nth_list_update)

lemma ld32_st32_other: "j + 3 < k \<or> k + 3 < j \<Longrightarrow> ld32 (st32 bs k v) j = ld32 bs j"
  by (auto simp: ld32_def st32_def)

text \<open>The header block.\<close>

definition head_block :: "u8 list \<Rightarrow> u32 list \<Rightarrow> nat \<Rightarrow> u8 list" where
  "head_block d bl n = fold (\<lambda>i d. st32 d (4 + 4 * i) (bl ! i)) [0..<n] (st32 d 0 (of_nat n))"

lemma head_fold:
  "4 + 4 * n \<le> length d \<Longrightarrow> (let e = fold (\<lambda>i d. st32 d (4 + 4 * i) (bl ! i)) [0..<n] d in
     length e = length d \<and> ld32 e 0 = ld32 d 0 \<and> (\<forall>i<n. ld32 e (4 + 4 * i) = bl ! i))"
proof (induction n)
  case (Suc n)
  let ?e = "fold (\<lambda>i d. st32 d (4 + 4 * i) (bl ! i)) [0..<n] d"
  have "length ?e = length d" "ld32 ?e 0 = ld32 d 0" "\<forall>i<n. ld32 ?e (4 + 4 * i) = bl ! i"
    using Suc by (simp_all add: Let_def)
  moreover have old: "ld32 (st32 ?e (4 + 4 * n) (bl ! n)) 0 = ld32 ?e 0"
    "\<forall>i<n. ld32 (st32 ?e (4 + 4 * n) (bl ! n)) (4 + 4 * i) = ld32 ?e (4 + 4 * i)"
    by (auto intro!: ld32_st32_other)
  ultimately show ?case
    using Suc.prems ld32_st32_same [of "4 + 4 * n" ?e "bl ! n"] old by (simp add: Let_def less_Suc_eq)
qed simp

lemma head_block_props:
  assumes "length d = BSIZE" and "n \<le> 30"
  shows "length (head_block d bl n) = BSIZE" "ld32 (head_block d bl n) 0 = of_nat n" "i < n \<Longrightarrow> ld32 (head_block d bl n) (4 + 4 * i) = bl ! i"
  using head_fold [of n "st32 d 0 (of_nat n)" bl] assms by (simp_all add: head_block_def Let_def ld32_st32_same)

definition head_count :: "u8 list \<Rightarrow> nat" where
  "head_count d = nat (sint (ld32 d 0))"

lemma sint_small: "n \<le> 30 \<Longrightarrow> sint (of_nat n :: u32) = int n"
  by (simp add: signed_of_nat signed_take_bit_int_eq_self)

lemma head_count_block: "length d = BSIZE \<Longrightarrow> n \<le> 30 \<Longrightarrow> head_count (head_block d bl n) = n"
  using head_block_props(2) [of d n bl] sint_small [of n] by (simp add: head_count_def)


section \<open>One block of the log\<close>

text \<open>The log is not part of a step of the cache.\<close>

lemma io_step_log [simp]: "io_step s t \<Longrightarrow> log t = log s"
  by (auto simp: io_step_def)

lemma bc_inv_log [simp]: "bc_inv me dev H P (s\<lparr>log := l\<rparr>) = bc_inv me dev H P s" "view dev (s\<lparr>log := l\<rparr>) = view dev s"
  by (auto simp: bc_inv_def idle_procs_def view_def fun_eq_iff cong: option.case_cong)

lemma view_clean:
  assumes inv: "bc_inv me dev {} P s" and k: "k \<notin> P"
  shows "view dev s k = disk_at (medium s) (sector_of k)"
proof (cases "\<exists>i<NBUF. caches dev (bufs s ! i) k \<and> b_valid (bufs s ! i) \<noteq> 0")
  case True
  then obtain i where i: "i < NBUF" "caches dev (bufs s ! i) k" "b_valid (bufs s ! i) \<noteq> 0"
    by blast
  then show ?thesis
    using view_cached [OF bc_invD(7) [OF inv] i] bc_invD(13) [OF inv i(1)] k by (auto simp: buf_ok_def caches_def)
next
  case False
  then show ?thesis by (intro view_disk) blast
qed

text \<open>Two blocks are read; one held buffer is filled from the other and written.\<close>

lemma read_two:
  assumes inv: "bc_inv me dev {} P s" and fin: "finite P" and n: "a < 2 ^ 31" "b < 2 ^ 31" "a \<noteq> b" and room: "card P + 1 < NBUF \<or> b \<in> P \<and> card P < NBUF"
  shows "\<exists>s1 x s2 y. bread s dev a = Inr (s1, x) \<and> io_step s s1 \<and> bread s1 dev b = Inr (s2, y) \<and> io_step s s2 \<and> x \<noteq> y \<and>
    bc_inv me dev {x, y} P s2 \<and> b_blockno (bufs s2 ! x) = a \<and> b_blockno (bufs s2 ! y) = b \<and> b_data (bufs s2 ! x) = view dev s a \<and>
    b_data (bufs s2 ! y) = view dev s b \<and> medium s2 = medium s \<and> view dev s2 = view dev s"
proof -
  obtain s1 x where s1: "bread s dev a = Inr (s1, x)" "bc_inv me dev {x} P s1" "caches dev (bufs s1 ! x) a"
    "b_data (bufs s1 ! x) = view dev s a" "view dev s1 = view dev s" "medium s1 = medium s" "io_step s s1"
    using bread_ok [OF inv _ n(1) _ fin] room by auto
  have "\<exists>i<NBUF. caches dev (bufs s1 ! i) b" if "b \<in> P"
    using bc_invD(14) [OF s1(2) that] .
  then obtain s2 y where s2: "bread s1 dev b = Inr (s2, y)" "bc_inv me dev {y, x} P s2" "y \<noteq> x" "caches dev (bufs s2 ! y) b"
    "b_data (bufs s2 ! y) = view dev s1 b" "view dev s2 = view dev s" "medium s2 = medium s" "io_step s1 s2" "bufs s2 ! x = bufs s1 ! x"
    using bread_ok [OF s1(2) _ n(2) _ fin] room n(3) s1(3,5,6) by (auto simp: caches_def)
  then show ?thesis
    using s1 io_step_trans [OF s1(7) s2(8)] by (auto simp: caches_def insert_commute)
qed

lemma fill_write:
  assumes inv: "bc_inv me dev H P s" and y: "y \<in> H" and len: "length data = BSIZE" and b: "b_blockno (bufs s ! y) = b"
  shows "\<exists>t. bwrite (upd_buf s y (\<lambda>z. z\<lparr>b_data := data\<rparr>)) y = Inr t \<and> io_step s t \<and> bc_inv me dev H P t \<and>
    (\<forall>i. b_blockno (bufs t ! i) = b_blockno (bufs s ! i)) \<and> medium t = (sector_of b, data) # medium s \<and>
    (\<forall>k<2 ^ 31. view dev t k = (if k = b then data else view dev s k))"
proof -
  let ?s = "upd_buf s y (\<lambda>z. z\<lparr>b_data := data\<rparr>)"
  have f: "bc_inv me dev H P ?s" "io_step s ?s" "\<And>k. view dev ?s k = (if k = b then data else view dev s k)"
    "\<And>i. bufs ?s ! i = (if i = y then (bufs s ! y)\<lparr>b_data := data\<rparr> else bufs s ! i)"
    using fill_ok [OF inv y len] by (simp_all add: b)
  obtain t where t: "bwrite ?s y = Inr t" "bc_inv me dev H P t" "\<forall>k<2 ^ 31. view dev t k = view dev ?s k" "io_step ?s t"
    "medium t = (sector_of b, data) # medium ?s" "\<And>i. bufs t ! i = (if i = y then (bufs ?s ! y)\<lparr>b_disk := 0\<rparr> else bufs ?s ! i)"
    using bwrite_ok [OF f(1) y] by (auto simp: f(4) b)
  have "b_blockno (bufs t ! i) = b_blockno (bufs s ! i)" for i
    unfolding t(6) f(4) by simp
  moreover have "medium ?s = medium s"
    by (simp add: upd_buf_def)
  ultimately show ?thesis
    using t(1,2,3,5) io_step_trans [OF f(2) t(4)] f(3) by auto
qed

text \<open>Releasing the two buffers once the disk agrees with them or they are pinned.\<close>

lemma release_two:
  assumes inv: "bc_inv me dev {x, y} P t" and "x \<noteq> y" and "b_blockno (bufs t ! x) = a" "b_blockno (bufs t ! y) = b" and "a \<noteq> b"
    and clean: "a \<in> P \<or> view dev t a = disk_at (medium t) (sector_of a)" "b \<in> P \<or> view dev t b = disk_at (medium t) (sector_of b)"
  shows "\<exists>t1 t2. brelse t x = Inr t1 \<and> brelse t1 y = Inr t2 \<and> bc_inv me dev {} P t2 \<and> io_step t t2 \<and> medium t2 = medium t \<and> view dev t2 = view dev t"
proof -
  obtain t1 where t1: "brelse t x = Inr t1" "bc_inv me dev ({x, y} - {x}) P t1" "view dev t1 = view dev t" "io_step t t1" "medium t1 = medium t"
    "unlinked (bufs t1 ! y) = unlinked (bufs t ! y)"
    using brelse_ok [OF inv, of x] clean(1) heldD(10) [OF inv, of x] assms(2,3) by auto
  have yy: "{x, y} - {x} = {y}" using assms(2) by auto
  have "b_blockno (bufs t1 ! y) = b" "b_data (bufs t1 ! y) = view dev t b"
    using unlinkedD(4,7) [OF t1(6)] assms(4) heldD(10) [OF inv, of y] by simp_all
  then obtain t2 where "brelse t1 y = Inr t2" "bc_inv me dev ({y} - {y}) P t2" "view dev t2 = view dev t1" "io_step t1 t2" "medium t2 = medium t1"
    using brelse_ok [OF t1(2) [unfolded yy], of y] clean(2) t1(5) by auto
  then show ?thesis
    using t1 io_step_trans [OF t1(4)] by auto
qed


section \<open>The loops\<close>

text \<open>The log is the header and the 29 blocks that follow it.\<close>

definition slot :: "u32 \<Rightarrow> nat \<Rightarrow> u32" where
  "slot start i = start + of_nat i + 1"

definition log_area :: "u32 \<Rightarrow> u32 set" where
  "log_area start = {k. unat start \<le> unat k \<and> unat k \<le> unat start + 29}"

definition log_geom :: "u32 \<Rightarrow> u32 list \<Rightarrow> nat \<Rightarrow> bool" where
  "log_geom start bl n \<longleftrightarrow> unat start + 30 < 2 ^ 31 \<and> n \<le> 29 \<and> n \<le> length bl \<and> distinct (take n bl) \<and>
     (\<forall>i<n. bl ! i < 2 ^ 31 \<and> bl ! i \<notin> log_area start)"

lemma unat_slot: "unat start + 30 < 2 ^ 31 \<Longrightarrow> i < 29 \<Longrightarrow> unat (slot start i) = unat start + i + 1"
  by (simp add: slot_def unat_word_ariths unat_of_nat)

lemma slot_props:
  assumes "unat start + 30 < 2 ^ 31" and "i < 29"
  shows "slot start i < 2 ^ 31" "slot start i \<in> log_area start" "slot start i \<noteq> start" "j < 29 \<Longrightarrow> slot start i = slot start j \<longleftrightarrow> i = j"
proof -
  note u = unat_slot [OF assms]
  show "slot start i < 2 ^ 31" "slot start i \<in> log_area start"
    using u assms by (simp_all add: word_less_nat_alt log_area_def)
  show "slot start i \<noteq> start"
  proof
    assume "slot start i = start"
    then have "unat (slot start i) = unat start" by (rule arg_cong)
    then show False using u by linarith
  qed
  show "slot start i = slot start j \<longleftrightarrow> i = j" if "j < 29"
  proof
    assume "slot start i = slot start j"
    then have "unat (slot start i) = unat (slot start j)" by (rule arg_cong)
    then show "i = j" using u unat_slot [OF assms(1) that] by linarith
  qed simp
qed

lemma start_props: "unat start + 30 < 2 ^ 31 \<Longrightarrow> start < 2 ^ 31" "start \<in> log_area start"
  by (simp_all add: word_less_nat_alt log_area_def)

lemma log_geomD:
  assumes "log_geom start bl n"
  shows "unat start + 30 < 2 ^ 31" "n \<le> 29" "n \<le> length bl" "i < n \<Longrightarrow> bl ! i < 2 ^ 31" "i < n \<Longrightarrow> bl ! i \<notin> log_area start"
    "i < n \<Longrightarrow> j < n \<Longrightarrow> bl ! i = bl ! j \<longleftrightarrow> i = j"
proof -
  show "i < n \<Longrightarrow> j < n \<Longrightarrow> bl ! i = bl ! j \<longleftrightarrow> i = j"
    using assms nth_eq_iff_index_eq [of "take n bl" i j] by (simp add: log_geom_def)
qed (use assms in \<open>simp_all add: log_geom_def\<close>)

lemma install_step:
  assumes inv: "bc_inv me dev {} P s" and fin: "finite P" and dev: "l_dev (log s) = dev" and geo: "log_geom (l_start (log s)) (lh_block (log s)) n" and t: "t < n"
    and rec: "if recovering then P = {} else lh_block (log s) ! t \<in> P \<and> card P < NBUF \<and> P \<inter> log_area (l_start (log s)) = {}"
  shows "\<exists>s'. install_loop (Suc k) t s recovering = install_loop k (Suc t) s' recovering \<and> io_step s s' \<and>
    bc_inv me dev {} (if recovering then {} else P - {lh_block (log s) ! t}) s' \<and>
    medium s' = (sector_of (lh_block (log s) ! t), view dev s (slot (l_start (log s)) t)) # medium s \<and>
    (\<forall>k<2 ^ 31. view dev s' k = (if k = lh_block (log s) ! t then view dev s (slot (l_start (log s)) t) else view dev s k))"
proof -
  let ?a = "slot (l_start (log s)) t" and ?b = "lh_block (log s) ! t"
  note G = log_geomD [OF geo]
  have a: "?a < 2 ^ 31" "?a \<in> log_area (l_start (log s))" and b: "?b < 2 ^ 31" "?b \<notin> log_area (l_start (log s))"
    using slot_props(1,2) [OF G(1), of t] G(2,4,5) t by simp_all
  then have ne: "?a \<noteq> ?b" and aP: "?a \<notin> P"
    using rec by (auto split: if_splits)
  obtain s1 x s2 y where r: "bread s dev ?a = Inr (s1, x)" "io_step s s1" "bread s1 dev ?b = Inr (s2, y)" "io_step s s2" "x \<noteq> y"
    "bc_inv me dev {x, y} P s2" "b_blockno (bufs s2 ! x) = ?a" "b_blockno (bufs s2 ! y) = ?b" "b_data (bufs s2 ! x) = view dev s ?a"
    "medium s2 = medium s" "view dev s2 = view dev s"
    using read_two [OF inv fin a(1) b(1) ne] rec by (auto split: if_splits)
  obtain s3 where w: "bwrite (upd_buf s2 y (\<lambda>z. z\<lparr>b_data := view dev s ?a\<rparr>)) y = Inr s3" "io_step s2 s3" "bc_inv me dev {x, y} P s3"
    "\<And>i. b_blockno (bufs s3 ! i) = b_blockno (bufs s2 ! i)" "medium s3 = (sector_of ?b, view dev s ?a) # medium s"
    "\<forall>k<2 ^ 31. view dev s3 k = (if k = ?b then view dev s ?a else view dev s k)"
    using fill_write [OF r(6) _ view_len [OF inv, of ?a] r(8), unfolded r(10,11)] by blast
  let ?P = "if recovering then P else P - {?b}"
  obtain s4 where p: "(if \<not> recovering then bunpin s3 y else Inr s3) = Inr s4" "bc_inv me dev {x, y} ?P s4" "view dev s4 = view dev s3"
    "io_step s3 s4" "medium s4 = medium s3" "b_blockno (bufs s4 ! x) = ?a" "b_blockno (bufs s4 ! y) = ?b"
    using bunpin_ok [OF w(3), of y] w(3,4) r(5,7,8) rec by (cases recovering) auto
  have "view dev s4 ?a = disk_at (medium s4) (sector_of ?a)" "view dev s4 ?b = disk_at (medium s4) (sector_of ?b)"
    using view_clean [OF inv aP] w(5,6) p(3,5) a(1) b(1) ne sector_inj [OF a(1) b(1)] by auto
  then obtain s5 s6 where e: "brelse s4 x = Inr s5" "brelse s5 y = Inr s6" "bc_inv me dev {} ?P s6" "io_step s4 s6" "medium s6 = medium s4"
    "view dev s6 = view dev s4"
    using release_two [OF p(2) r(5) p(6,7) ne] by blast
  have "install_loop (Suc k) t s recovering = install_loop k (Suc t) s6 recovering"
    using r w(1) p(1) e(1,2) dev by (simp add: slot_def)
  moreover have "io_step s s6"
    using r(4) w(2) p(4) e(4) by (blast intro: io_step_trans)
  ultimately show ?thesis
    using e w p(3,5) rec by (intro exI [of _ s6]) (auto split: if_splits)
qed


definition install_writes :: "u32 list \<Rightarrow> (nat \<Rightarrow> u8 list) \<Rightarrow> nat \<Rightarrow> nat \<Rightarrow> medium" where
  "install_writes bl c t n = rev (map (\<lambda>i. (sector_of (bl ! i), c i)) [t..<n])"

lemma install_writes_Cons: "t < n \<Longrightarrow> install_writes bl c t n = install_writes bl c (Suc t) n @ [(sector_of (bl ! t), c t)]"
  by (simp add: install_writes_def upt_conv_Cons)

lemma install_loop_ok:
  assumes "log_geom start bl n"
  shows "bc_inv me dev {} P s \<Longrightarrow> l_dev (log s) = dev \<Longrightarrow> l_start (log s) = start \<Longrightarrow> lh_block (log s) = bl \<Longrightarrow> t + k = n \<Longrightarrow>
     P = (if recovering then {} else (!) bl ` {t..<n}) \<Longrightarrow>
   \<exists>s'. install_loop k t s recovering = Inr s' \<and> io_step s s' \<and> bc_inv me dev {} {} s' \<and>
     medium s' = install_writes bl (\<lambda>i. view dev s (slot start i)) t n @ medium s \<and>
     (\<forall>i. t \<le> i \<and> i < n \<longrightarrow> view dev s' (bl ! i) = view dev s (slot start i)) \<and>
     (\<forall>k<2 ^ 31. k \<notin> (!) bl ` {t..<n} \<longrightarrow> view dev s' k = view dev s k)"
proof (induction k arbitrary: t s P)
  case 0
  then have "t = n" "P = {}"
    by (auto split: if_splits)
  then show ?case
    using 0(1) by (auto simp: install_writes_def)
next
  case (Suc k)
  note G = log_geomD [OF assms]
  have t: "t < n" using Suc.prems(5) by simp
  have fin: "finite P" using Suc.prems(6) by simp
  have "P \<inter> log_area start = {}" "card P < NBUF" if "\<not> recovering"
    using Suc.prems(6) that G(2,5) card_image_le [of "{t..<n}" "(!) bl"] by auto
  then have rec: "if recovering then P = {} else bl ! t \<in> P \<and> card P < NBUF \<and> P \<inter> log_area start = {}"
    using Suc.prems(6) t by auto
  obtain s1 where s1: "install_loop (Suc k) t s recovering = install_loop k (Suc t) s1 recovering" "io_step s s1"
    "bc_inv me dev {} (if recovering then {} else P - {bl ! t}) s1" "medium s1 = (sector_of (bl ! t), view dev s (slot start t)) # medium s"
    "\<forall>k<2 ^ 31. view dev s1 k = (if k = bl ! t then view dev s (slot start t) else view dev s k)"
    using install_step [OF Suc.prems(1) fin Suc.prems(2) _ t, of recovering k] assms rec Suc.prems(3,4) by auto
  have sl: "view dev s1 (slot start i) = view dev s (slot start i)" if "i < n" for i
    using s1(5) slot_props(1,2) [OF G(1), of i] G(2,5) t that by fastforce
  have "P - {bl ! t} = (!) bl ` {Suc t..<n}" if "\<not> recovering"
    using that Suc.prems(6) G(6) t by (auto simp: image_iff Bex_def)
  then have P1: "(if recovering then {} else P - {bl ! t}) = (if recovering then {} else (!) bl ` {Suc t..<n})"
    by simp
  obtain s2 where s2: "install_loop k (Suc t) s1 recovering = Inr s2" "io_step s1 s2" "bc_inv me dev {} {} s2"
    "medium s2 = install_writes bl (\<lambda>i. view dev s1 (slot start i)) (Suc t) n @ medium s1"
    "\<forall>i. Suc t \<le> i \<and> i < n \<longrightarrow> view dev s2 (bl ! i) = view dev s1 (slot start i)"
    "\<forall>k<2 ^ 31. k \<notin> (!) bl ` {Suc t..<n} \<longrightarrow> view dev s2 k = view dev s1 k"
    using Suc.IH [OF s1(3) _ _ _ _ P1] Suc.prems(2-5) s1(2) by auto
  have "install_writes bl (\<lambda>i. view dev s1 (slot start i)) (Suc t) n = install_writes bl (\<lambda>i. view dev s (slot start i)) (Suc t) n"
    using sl by (auto simp: install_writes_def)
  then have "medium s2 = install_writes bl (\<lambda>i. view dev s (slot start i)) t n @ medium s"
    using s2(4) s1(4) install_writes_Cons [OF t] by simp
  moreover have "view dev s2 (bl ! i) = view dev s (slot start i)" if "t \<le> i" "i < n" for i
  proof (cases "i = t")
    case True
    have "bl ! t \<notin> (!) bl ` {Suc t..<n}"
      using G(6) t by auto
    then show ?thesis
      using s2(6) s1(5) G(4) [OF t] True by simp
  next
    case False
    then show ?thesis
      using s2(5) sl [of i] that by simp
  qed
  moreover have "view dev s2 k = view dev s k" if "k < 2 ^ 31" "k \<notin> (!) bl ` {t..<n}" for k
    using s2(6) s1(5) that t by (simp add: image_iff)
  ultimately show ?case
    using s1(1) s2(1,3) io_step_trans [OF s1(2) s2(2)] by auto
qed


lemma write_log_step:
  assumes inv: "bc_inv me dev {} P s" and fin: "finite P" and dev: "l_dev (log s) = dev" and geo: "log_geom (l_start (log s)) (lh_block (log s)) n" and t: "t < n"
    and P: "lh_block (log s) ! t \<in> P" "card P < NBUF" "P \<inter> log_area (l_start (log s)) = {}"
  shows "\<exists>s'. write_log_loop (Suc k) t s = write_log_loop k (Suc t) s' \<and> io_step s s' \<and> bc_inv me dev {} P s' \<and>
    medium s' = (sector_of (slot (l_start (log s)) t), view dev s (lh_block (log s) ! t)) # medium s \<and>
    (\<forall>k<2 ^ 31. view dev s' k = (if k = slot (l_start (log s)) t then view dev s (lh_block (log s) ! t) else view dev s k))"
proof -
  let ?a = "slot (l_start (log s)) t" and ?b = "lh_block (log s) ! t"
  note G = log_geomD [OF geo]
  have a: "?a < 2 ^ 31" "?a \<in> log_area (l_start (log s))" and b: "?b < 2 ^ 31"
    using slot_props(1,2) [OF G(1), of t] G(2,4) t by simp_all
  then have ne: "?a \<noteq> ?b" "?b \<noteq> ?a"
    using P by auto
  obtain s1 x s2 y where r: "bread s dev ?a = Inr (s1, x)" "io_step s s1" "bread s1 dev ?b = Inr (s2, y)" "io_step s s2" "x \<noteq> y"
    "bc_inv me dev {x, y} P s2" "b_blockno (bufs s2 ! x) = ?a" "b_blockno (bufs s2 ! y) = ?b" "b_data (bufs s2 ! y) = view dev s ?b"
    "medium s2 = medium s" "view dev s2 = view dev s"
    using read_two [OF inv fin a(1) b ne(1)] P(1,2) by auto
  obtain s3 where w: "bwrite (upd_buf s2 x (\<lambda>z. z\<lparr>b_data := view dev s ?b\<rparr>)) x = Inr s3" "io_step s2 s3" "bc_inv me dev {x, y} P s3"
    "\<And>i. b_blockno (bufs s3 ! i) = b_blockno (bufs s2 ! i)" "medium s3 = (sector_of ?a, view dev s ?b) # medium s"
    "\<forall>k<2 ^ 31. view dev s3 k = (if k = ?a then view dev s ?b else view dev s k)"
    using fill_write [OF r(6) _ view_len [OF inv, of ?b] r(7), unfolded r(10,11)] by blast
  have "view dev s3 ?a = disk_at (medium s3) (sector_of ?a)"
    using w(5,6) a(1) by simp
  then obtain s4 s5 where e: "brelse s3 y = Inr s4" "brelse s4 x = Inr s5" "bc_inv me dev {} P s5" "io_step s3 s5" "medium s5 = medium s3"
    "view dev s5 = view dev s3"
    using release_two [OF w(3) [unfolded insert_commute [of x y]] r(5) [symmetric] _ _ ne(2)] w(4) r(7,8) P(1) by auto
  have "write_log_loop (Suc k) t s = write_log_loop k (Suc t) s5"
    using r w(1) e(1,2) dev by (simp add: slot_def)
  moreover have "io_step s s5"
    using r(4) w(2) e(4) by (blast intro: io_step_trans)
  ultimately show ?thesis
    using e w by (intro exI [of _ s5]) simp
qed

lemma write_log_ok:
  assumes "log_geom start bl n"
  shows "bc_inv me dev {} P s \<Longrightarrow> l_dev (log s) = dev \<Longrightarrow> l_start (log s) = start \<Longrightarrow> lh_block (log s) = bl \<Longrightarrow> t + k = n \<Longrightarrow> P = (!) bl ` {0..<n} \<Longrightarrow>
   \<exists>s'. write_log_loop k t s = Inr s' \<and> io_step s s' \<and> bc_inv me dev {} P s' \<and>
     medium s' = rev (map (\<lambda>i. (sector_of (slot start i), view dev s (bl ! i))) [t..<n]) @ medium s \<and>
     (\<forall>i. t \<le> i \<and> i < n \<longrightarrow> view dev s' (slot start i) = view dev s (bl ! i)) \<and>
     (\<forall>k<2 ^ 31. k \<notin> slot start ` {t..<n} \<longrightarrow> view dev s' k = view dev s k)"
proof (induction k arbitrary: t s)
  case 0
  then have "t = n" by simp
  then show ?case using 0(1) by auto
next
  case (Suc k)
  note G = log_geomD [OF assms]
  have t: "t < n" using Suc.prems(5) by simp
  have P: "finite P" "bl ! t \<in> P" "P \<inter> log_area start = {}" "card P < NBUF"
    using Suc.prems(6) t G(2,5) card_image_le [of "{0..<n}" "(!) bl"] by auto
  obtain s1 where s1: "write_log_loop (Suc k) t s = write_log_loop k (Suc t) s1" "io_step s s1" "bc_inv me dev {} P s1"
    "medium s1 = (sector_of (slot start t), view dev s (bl ! t)) # medium s"
    "\<forall>k<2 ^ 31. view dev s1 k = (if k = slot start t then view dev s (bl ! t) else view dev s k)"
    using write_log_step [OF Suc.prems(1) P(1) Suc.prems(2), unfolded Suc.prems(3,4), OF assms t P(2,4,3), of k] by blast
  have sl: "view dev s1 (bl ! i) = view dev s (bl ! i)" if "i < n" for i
    using s1(5) G(4,5) [OF that] slot_props(2) [OF G(1), of t] G(2) t by auto
  have si: "slot start i < 2 ^ 31" "slot start i = slot start t \<longleftrightarrow> i = t" if "i < n" for i
    using slot_props(1) [OF G(1), of i] slot_props(4) [OF G(1), of i t] that t G(2) by simp_all
  obtain s2 where s2: "write_log_loop k (Suc t) s1 = Inr s2" "io_step s1 s2" "bc_inv me dev {} P s2"
    "medium s2 = rev (map (\<lambda>i. (sector_of (slot start i), view dev s1 (bl ! i))) [Suc t..<n]) @ medium s1"
    "\<forall>i. Suc t \<le> i \<and> i < n \<longrightarrow> view dev s2 (slot start i) = view dev s1 (bl ! i)"
    "\<forall>k<2 ^ 31. k \<notin> slot start ` {Suc t..<n} \<longrightarrow> view dev s2 k = view dev s1 k"
    using Suc.IH [OF s1(3)] Suc.prems(2-6) s1(2) by auto
  have "map (\<lambda>i. (sector_of (slot start i), view dev s1 (bl ! i))) [Suc t..<n] = map (\<lambda>i. (sector_of (slot start i), view dev s (bl ! i))) [Suc t..<n]"
    using sl by simp
  then have "medium s2 = rev (map (\<lambda>i. (sector_of (slot start i), view dev s (bl ! i))) [t..<n]) @ medium s"
    using s2(4) s1(4) t by (simp add: upt_conv_Cons)
  moreover have "view dev s2 (slot start i) = view dev s (bl ! i)" if "t \<le> i" "i < n" for i
  proof (cases "i = t")
    case True
    have "slot start t \<notin> slot start ` {Suc t..<n}"
    proof
      assume "slot start t \<in> slot start ` {Suc t..<n}"
      then obtain j where "slot start j = slot start t" "t < j" "j < n"
        by auto
      then show False
        using si(2) [of j] by simp
    qed
    then show ?thesis
      using s2(6) s1(5) si(1) [OF t] True by simp
  next
    case False
    then show ?thesis
      using s2(5) sl [of i] that by simp
  qed
  moreover have "view dev s2 k = view dev s k" if "k < 2 ^ 31" "k \<notin> slot start ` {t..<n}" for k
    using s2(6) s1(5) that t by (simp add: image_iff)
  ultimately show ?case
    using s1(1) s2(1,3) io_step_trans [OF s1(2) s2(2)] by auto
qed


lemma write_head_ok:
  assumes inv: "bc_inv me dev {} P s" and P: "finite P" "card P < NBUF" "l_start (log s) \<notin> P" and dev: "l_dev (log s) = dev"
    and st: "l_start (log s) < 2 ^ 31" and n: "lh_n (log s) \<le> 30"
  shows "\<exists>s'. write_head s = Inr s' \<and> io_step s s' \<and> bc_inv me dev {} P s' \<and>
    medium s' = (sector_of (l_start (log s)), head_block (view dev s (l_start (log s))) (lh_block (log s)) (lh_n (log s))) # medium s \<and>
    (\<forall>k<2 ^ 31. k \<noteq> l_start (log s) \<longrightarrow> view dev s' k = view dev s k)"
proof -
  let ?a = "l_start (log s)"
  obtain s1 b where r: "bread s dev ?a = Inr (s1, b)" "bc_inv me dev {b} P s1" "caches dev (bufs s1 ! b) ?a" "b_data (bufs s1 ! b) = view dev s ?a"
    "view dev s1 = view dev s" "medium s1 = medium s" "io_step s s1"
    using bread_ok [OF inv _ st _ P(1)] P(2) by auto
  let ?d = "head_block (view dev s ?a) (lh_block (log s)) (lh_n (log s))"
  have len: "length ?d = BSIZE"
    using head_block_props(1) [OF view_len [OF inv] n] .
  obtain s2 where w: "bwrite (upd_buf s1 b (\<lambda>z. z\<lparr>b_data := ?d\<rparr>)) b = Inr s2" "io_step s1 s2" "bc_inv me dev {b} P s2"
    "\<And>i. b_blockno (bufs s2 ! i) = b_blockno (bufs s1 ! i)" "medium s2 = (sector_of ?a, ?d) # medium s"
    "\<forall>k<2 ^ 31. view dev s2 k = (if k = ?a then ?d else view dev s k)"
    using fill_write [OF r(2) _ len refl, of b] r(3,5,6) by (auto simp: caches_def)
  have "b_blockno (bufs s2 ! b) = ?a" "b_data (bufs s2 ! b) = ?d"
    using w(4,6) r(3) heldD(10) [OF w(3), of b] st by (simp_all add: caches_def)
  then obtain s3 where "brelse s2 b = Inr s3" "bc_inv me dev ({b} - {b}) P s3" "view dev s3 = view dev s2" "io_step s2 s3" "medium s3 = medium s2"
    using brelse_ok [OF w(3), of b] w(5) by auto
  then show ?thesis
    using r w io_step_trans [OF io_step_trans [OF r(7) w(2)]] dev by (intro exI [of _ s3]) (simp add: write_head_def Let_def head_block_def)
qed

definition head_list :: "u8 list \<Rightarrow> u32 list" where
  "head_list d = map (\<lambda>i. ld32 d (4 + 4 * i)) [0..<head_count d]"

lemma read_head_ok:
  assumes inv: "bc_inv me dev {} {} s" and dev: "l_dev (log s) = dev" and st: "l_start (log s) < 2 ^ 31"
    and d: "disk_at (medium s) (sector_of (l_start (log s))) = d" "head_count d \<le> 30"
  shows "\<exists>s'. read_head s = Inr s' \<and> bc_inv me dev {} {} s' \<and> medium s' = medium s \<and> view dev s' = view dev s \<and>
    log s' = (log s)\<lparr>lh_n := head_count d, lh_block := head_list d @ drop (head_count d) (lh_block (log s))\<rparr>"
proof -
  let ?a = "l_start (log s)"
  obtain s1 b where r: "bread s dev ?a = Inr (s1, b)" "bc_inv me dev {b} {} s1" "caches dev (bufs s1 ! b) ?a" "b_data (bufs s1 ! b) = view dev s ?a"
    "view dev s1 = view dev s" "medium s1 = medium s" "io_step s s1"
    using bread_ok [OF inv _ st _] by auto
  have data: "b_data (bufs s1 ! b) = d"
    using r(4) view_clean [OF inv] d(1) by simp
  let ?s2 = "s1\<lparr>log := (log s1)\<lparr>lh_n := head_count d, lh_block := head_list d @ drop (head_count d) (lh_block (log s1))\<rparr>\<rparr>"
  have "bc_inv me dev {b} {} ?s2" "b_data (bufs ?s2 ! b) = disk_at (medium ?s2) (sector_of (b_blockno (bufs ?s2 ! b)))"
    using r(2,3,6) data d(1) by (simp_all add: caches_def)
  then obtain s3 where "brelse ?s2 b = Inr s3" "bc_inv me dev ({b} - {b}) {} s3" "view dev s3 = view dev ?s2" "io_step ?s2 s3" "medium s3 = medium ?s2"
    using brelse_ok [of me dev "{b}" "{}" ?s2 b] by auto
  then show ?thesis
    using r data dev d(2) by (intro exI [of _ s3]) (simp add: read_head_def Let_def head_count_def head_list_def)
qed


section \<open>Recovery as a function of the disk\<close>

definition log_head :: "u32 \<Rightarrow> medium \<Rightarrow> u8 list" where
  "log_head start m = disk_at m (sector_of start)"

text \<open>What a block holds once the log on the disk has been installed.\<close>

definition recovered :: "u32 \<Rightarrow> medium \<Rightarrow> u32 \<Rightarrow> u8 list" where
  "recovered start m k =
     (let bl = head_list (log_head start m)
      in case map_of (zip bl [0..<length bl]) k of
           Some i \<Rightarrow> disk_at m (sector_of (slot start i)) | None \<Rightarrow> disk_at m (sector_of k))"

definition disk_wf :: "u32 \<Rightarrow> medium \<Rightarrow> bool" where
  "disk_wf start m \<longleftrightarrow> log_geom start (head_list (log_head start m)) (head_count (log_head start m))"

lemma head_list_length [simp]: "length (head_list d) = head_count d"
  by (simp add: head_list_def)

lemma recovered_logged:
  assumes "disk_wf start m" and "i < head_count (log_head start m)"
  shows "recovered start m (head_list (log_head start m) ! i) = disk_at m (sector_of (slot start i))"
proof -
  let ?bl = "head_list (log_head start m)"
  have "distinct ?bl"
    using assms(1) by (simp add: disk_wf_def log_geom_def)
  then have "map_of (zip ?bl [0..<length ?bl]) (?bl ! i) = Some ([0..<length ?bl] ! i)"
    using assms(2) by (intro map_of_zip_nth) simp_all
  then show ?thesis
    using assms(2) by (simp add: recovered_def)
qed

lemma recovered_other: "k \<notin> set (head_list (log_head start m)) \<Longrightarrow> recovered start m k = disk_at m (sector_of k)"
  by (auto simp: recovered_def split: option.splits dest!: map_of_SomeD dest: set_zip_leftD)

lemma recovered_empty: "head_count (log_head start m) = 0 \<Longrightarrow> recovered start m k = disk_at m (sector_of k)"
  by (simp add: recovered_def head_list_def)

lemma disk_wf_empty: "head_count (log_head start m) = 0 \<Longrightarrow> unat start + 30 < 2 ^ 31 \<Longrightarrow> disk_wf start m"
  by (simp add: disk_wf_def log_geom_def)

text \<open>Writes to different blocks.\<close>

lemma disk_writes_at:
  assumes "\<forall>i<j. g i < 2 ^ 31" and "inj_on g {..<j}"
  shows "i < j \<Longrightarrow> disk_at (rev (map (\<lambda>i. (sector_of (g i), c i)) [0..<j]) @ m) (sector_of (g i)) = c i"
    "k < 2 ^ 31 \<Longrightarrow> k \<notin> g ` {..<j} \<Longrightarrow> disk_at (rev (map (\<lambda>i. (sector_of (g i), c i)) [0..<j]) @ m) (sector_of k) = disk_at m (sector_of k)"
proof -
  show "disk_at (rev (map (\<lambda>i. (sector_of (g i), c i)) [0..<j]) @ m) (sector_of (g i)) = c i" if "i < j"
    using assms that
  proof (induction j)
    case (Suc j)
    have "sector_of (g i) = sector_of (g j) \<longleftrightarrow> i = j"
      using sector_inj [of "g i" "g j"] Suc.prems inj_on_eq_iff [OF Suc.prems(2), of i j] by simp
    moreover have "inj_on g {..<j}"
      using Suc.prems(2) by (rule inj_on_subset) auto
    ultimately show ?case
      using Suc by (auto simp: less_Suc_eq)
  qed simp
  show "disk_at (rev (map (\<lambda>i. (sector_of (g i), c i)) [0..<j]) @ m) (sector_of k) = disk_at m (sector_of k)"
    if "k < 2 ^ 31" "k \<notin> g ` {..<j}"
    using assms(1) that
  proof (induction j)
    case (Suc j)
    have "sector_of k \<noteq> sector_of (g j)"
      using sector_inj [of k "g j"] Suc.prems by auto
    then show ?case
      using Suc by (simp add: lessThan_Suc)
  qed simp
qed


text \<open>Installing part of the log, or all of it and then emptying the header, does not change what recovery gives.\<close>

lemma recovered_install:
  assumes wf: "disk_wf start m" and j: "j \<le> head_count (log_head start m)"
  defines "m' \<equiv> install_writes (head_list (log_head start m)) (\<lambda>i. disk_at m (sector_of (slot start i))) 0 j @ m"
  shows "log_head start m' = log_head start m" "disk_wf start m'" "k < 2 ^ 31 \<Longrightarrow> recovered start m' k = recovered start m k"
    "i < j \<Longrightarrow> disk_at m' (sector_of (head_list (log_head start m) ! i)) = disk_at m (sector_of (slot start i))"
    "k < 2 ^ 31 \<Longrightarrow> k \<notin> (!) (head_list (log_head start m)) ` {..<j} \<Longrightarrow> disk_at m' (sector_of k) = disk_at m (sector_of k)"
proof -
  let ?bl = "head_list (log_head start m)" and ?n = "head_count (log_head start m)"
  have geo: "log_geom start ?bl ?n"
    using wf by (simp add: disk_wf_def)
  note G = log_geomD [OF geo]
  have bl: "\<forall>i<j. ?bl ! i < 2 ^ 31" "inj_on ((!) ?bl) {..<j}"
    using G(4,6) j by (auto simp: inj_on_def)
  note W = disk_writes_at [OF bl, where c = "\<lambda>i. disk_at m (sector_of (slot start i))" and m = m, folded install_writes_def m'_def]
  show at: "disk_at m' (sector_of (?bl ! i)) = disk_at m (sector_of (slot start i))" if "i < j" for i
    using W(1) [OF that] by (simp add: m'_def)
  show off: "disk_at m' (sector_of k) = disk_at m (sector_of k)" if "k < 2 ^ 31" "k \<notin> (!) ?bl ` {..<j}" for k
    using W(2) [OF that] by (simp add: m'_def)
  have area: "disk_at m' (sector_of k) = disk_at m (sector_of k)" if "k < 2 ^ 31" "k \<in> log_area start" for k
    using that G(5) j by (intro off) auto
  show head: "log_head start m' = log_head start m"
    unfolding log_head_def by (intro area start_props G(1))
  then show wf': "disk_wf start m'"
    using wf by (simp add: disk_wf_def)
  show "recovered start m' k = recovered start m k" if "k < 2 ^ 31"
  proof (cases "k \<in> set ?bl")
    case True
    then obtain i where i: "i < ?n" "k = ?bl ! i"
      by (auto simp: in_set_conv_nth)
    then have "disk_at m' (sector_of (slot start i)) = disk_at m (sector_of (slot start i))"
      using slot_props(1,2) [OF G(1), of i] G(2) by (intro area) auto
    then show ?thesis
      using recovered_logged [OF wf i(1)] recovered_logged [OF wf', of i] i head by simp
  next
    case False
    then have "k \<notin> (!) ?bl ` {..<j}"
      using j nth_mem [of _ ?bl] by fastforce
    then show ?thesis
      using recovered_other [of k start m] recovered_other [of k start m'] False head off [OF that] by simp
  qed
qed


lemma recovered_done:
  assumes wf: "disk_wf start m" and d: "head_count d = 0" and k: "k < 2 ^ 31" "k \<noteq> start"
  defines "m' \<equiv> (sector_of start, d) # install_writes (head_list (log_head start m)) (\<lambda>i. disk_at m (sector_of (slot start i))) 0 (head_count (log_head start m)) @ m"
  shows "disk_wf start m'" "recovered start m' k = recovered start m k"
proof -
  let ?n = "head_count (log_head start m)" and ?bl = "head_list (log_head start m)"
  have G: "unat start + 30 < 2 ^ 31"
    using wf by (simp add: disk_wf_def log_geom_def)
  have h: "log_head start m' = d"
    by (simp add: m'_def log_head_def)
  then show "disk_wf start m'"
    using d G by (intro disk_wf_empty) simp_all
  have "recovered start m' k = disk_at m' (sector_of k)"
    using h d by (intro recovered_empty) simp
  also have "\<dots> = disk_at (install_writes ?bl (\<lambda>i. disk_at m (sector_of (slot start i))) 0 ?n @ m) (sector_of k)"
    using k sector_inj [OF k(1) start_props(1) [OF G]] by (simp add: m'_def)
  also have "\<dots> = recovered start m k"
  proof (cases "k \<in> set ?bl")
    case True
    then obtain i where "i < ?n" "k = ?bl ! i"
      by (auto simp: in_set_conv_nth)
    then show ?thesis
      using recovered_install(4) [OF wf, of ?n i] recovered_logged [OF wf, of i] by simp
  next
    case False
    then have "k \<notin> (!) ?bl ` {..<?n}"
      using nth_mem [of _ ?bl] by fastforce
    then show ?thesis
      using recovered_install(5) [OF wf le_refl k(1)] recovered_other [OF False] by simp
  qed
  finally show "recovered start m' k = recovered start m k" .
qed


section \<open>Recovery\<close>

lemma log_geom_append: "log_geom start bl n \<Longrightarrow> length bl = n \<Longrightarrow> log_geom start (bl @ r) n"
  by (auto simp: log_geom_def nth_append)

lemma install_writes_append: "length bl = n \<Longrightarrow> install_writes (bl @ r) c 0 n = install_writes bl c 0 n"
  by (auto simp: install_writes_def nth_append)

lemma head_block_empty: "length d = BSIZE \<Longrightarrow> head_count (head_block d bl 0) = 0"
  using head_count_block [of d 0] by simp

lemma initlog_run:
  assumes inv: "bc_inv me dev {} {} s" and wf: "disk_wf start (medium s)"
  shows "\<exists>s' d. initlog s dev start nlog = Inr s' \<and> bc_inv me dev {} {} s' \<and> lh_n (log s') = 0 \<and> l_start (log s') = start \<and> l_dev (log s') = dev \<and>
    head_count d = 0 \<and> medium s' = (sector_of start, d) #
      install_writes (head_list (log_head start (medium s))) (\<lambda>i. disk_at (medium s) (sector_of (slot start i))) 0
        (head_count (log_head start (medium s))) @ medium s"
proof -
  let ?d = "log_head start (medium s)"
  let ?n = "head_count ?d" and ?bl = "head_list (log_head start (medium s))"
  let ?s0 = "s\<lparr>log := (log s)\<lparr>l_lock := initlock (l_lock (log s)) ''log'', l_start := start, l_size := sint nlog, l_dev := dev\<rparr>\<rparr>"
  have geo: "log_geom start ?bl ?n" and n: "?n \<le> 29"
    using wf by (simp_all add: disk_wf_def log_geom_def)
  note G = log_geomD [OF geo]
  have inv0: "bc_inv me dev {} {} ?s0"
    using inv by simp
  obtain s1 where s1: "read_head ?s0 = Inr s1" "bc_inv me dev {} {} s1" "medium s1 = medium s" "view dev s1 = view dev s"
    "log s1 = (log ?s0)\<lparr>lh_n := ?n, lh_block := ?bl @ drop ?n (lh_block (log ?s0))\<rparr>"
    using read_head_ok [OF inv0, of ?d] n start_props(1) [OF G(1)] by (auto simp: log_head_def)
  let ?bl1 = "lh_block (log s1)"
  have bl1: "?bl1 = ?bl @ drop ?n (lh_block (log s))" "lh_n (log s1) = ?n" "l_start (log s1) = start" "l_dev (log s1) = dev"
    using s1(5) by simp_all
  have "log_geom start ?bl1 ?n"
    using geo bl1(1) by (simp add: log_geom_append)
  then obtain s2 where s2: "install_loop ?n 0 s1 True = Inr s2" "io_step s1 s2" "bc_inv me dev {} {} s2"
    "medium s2 = install_writes ?bl1 (\<lambda>i. view dev s1 (slot start i)) 0 ?n @ medium s1"
    using install_loop_ok [of start ?bl1 ?n me dev "{}" s1 0 ?n True] s1(2) bl1 by auto
  have "view dev s1 (slot start i) = disk_at (medium s) (sector_of (slot start i))" for i
    using view_clean [OF s1(2)] s1(3) by simp
  then have m2: "medium s2 = install_writes ?bl (\<lambda>i. disk_at (medium s) (sector_of (slot start i))) 0 ?n @ medium s"
    using s2(4) s1(3) bl1(1) by (simp add: install_writes_append)
  let ?s3 = "s2\<lparr>log := (log s2)\<lparr>lh_n := 0\<rparr>\<rparr>"
  have log2: "log s2 = log s1"
    using s2(2) by simp
  obtain s4 where s4: "write_head ?s3 = Inr s4" "io_step ?s3 s4" "bc_inv me dev {} {} s4"
    "medium s4 = (sector_of start, head_block (view dev s2 start) ?bl1 0) # medium s2"
    using write_head_ok [of me dev "{}" ?s3] s2(3) log2 bl1 start_props(1) [OF G(1)] by auto
  have "initlog s dev start nlog = Inr s4"
    using s1(1) s2(1) s4(1) bl1(2) by (simp add: initlog_def recover_from_log_def install_trans_def)
  then show ?thesis
    using s4 m2 head_block_empty [OF view_len [OF s2(3)]] log2 bl1
    by (intro exI [of _ s4] exI [of _ "head_block (view dev s2 start) ?bl1 0"]) simp
qed

text \<open>A prefix of a sequence of writes.\<close>

lemma rev_upt_suffix:
  assumes "rev (map f [0..<n]) = V @ W"
  shows "\<exists>j\<le>n. W = rev (map f [0..<j])"
proof -
  have "W = drop (length V) (rev (map f [0..<n]))"
    using assms by simp
  also have "\<dots> = rev (map f [0..<n - length V])"
    by (simp add: drop_rev take_map)
  finally show ?thesis
    by (intro exI [of _ "n - length V"]) simp
qed

lemma Cons_append_suffix: "x # xs = V @ W \<Longrightarrow> W = x # xs \<or> (\<exists>V'. xs = V' @ W)"
  by (cases V) auto


lemma recovery_crash:
  assumes wf: "disk_wf start m" and d: "head_count d = 0"
    and W: "(sector_of start, d) # install_writes (head_list (log_head start m)) (\<lambda>i. disk_at m (sector_of (slot start i))) 0
        (head_count (log_head start m)) = V @ U"
  shows "disk_wf start (U @ m) \<and> (\<forall>k<2 ^ 31. k \<noteq> start \<longrightarrow> recovered start (U @ m) k = recovered start m k)"
  using Cons_append_suffix [OF W]
proof
  assume "U = (sector_of start, d) # install_writes (head_list (log_head start m)) (\<lambda>i. disk_at m (sector_of (slot start i))) 0
        (head_count (log_head start m))"
  then show ?thesis
    using recovered_done [OF wf d] disk_wf_empty [of start "U @ m"] wf d by (auto simp: disk_wf_def log_geom_def log_head_def head_list_def)
next
  assume "\<exists>V'. install_writes (head_list (log_head start m)) (\<lambda>i. disk_at m (sector_of (slot start i))) 0 (head_count (log_head start m)) = V' @ U"
  then obtain j where "j \<le> head_count (log_head start m)"
    "U = install_writes (head_list (log_head start m)) (\<lambda>i. disk_at m (sector_of (slot start i))) 0 j"
    using rev_upt_suffix unfolding install_writes_def by blast
  then show ?thesis
    using recovered_install [OF wf] by simp
qed

lemma initlog_view:
  assumes "bc_inv me dev {} {} s" and "disk_wf start (medium s)"
  shows "\<exists>s'. initlog s dev start nlog = Inr s' \<and> (\<forall>k<2 ^ 31. k \<noteq> start \<longrightarrow> view dev s' k = recovered start (medium s) k)"
proof -
  let ?m = "medium s"
  let ?I = "install_writes (head_list (log_head start ?m)) (\<lambda>i. disk_at ?m (sector_of (slot start i))) 0 (head_count (log_head start ?m))"
  obtain s' d where r: "initlog s dev start nlog = Inr s'" "bc_inv me dev {} {} s'" "head_count d = 0" "medium s' = (sector_of start, d) # ?I @ ?m"
    using initlog_run [OF assms] by blast
  have "head_count (log_head start (medium s')) = 0"
    using r(3,4) by (simp add: log_head_def)
  then have "view dev s' k = recovered start ?m k" if "k < 2 ^ 31" "k \<noteq> start" for k
    using view_clean [OF r(2), of k] recovered_empty [of start "medium s'" k] recovered_done(2) [OF assms(2) r(3) that] r(4) by simp
  then show ?thesis
    using r(1) by blast
qed

section \<open>Commit\<close>

definition log_writes :: "u32 \<Rightarrow> (nat \<Rightarrow> u8 list) \<Rightarrow> nat \<Rightarrow> medium" where
  "log_writes start c n = rev (map (\<lambda>i. (sector_of (slot start i), c i)) [0..<n])"

text \<open>The writes of a commit, the last one first.\<close>

definition commit_writes :: "u32 \<Rightarrow> u32 list \<Rightarrow> nat \<Rightarrow> (nat \<Rightarrow> u8 list) \<Rightarrow> u8 list \<Rightarrow> u8 list \<Rightarrow> medium" where
  "commit_writes start bl n c h d = (sector_of start, d) # install_writes bl c 0 n @ (sector_of start, h) # log_writes start c n"

lemma commit_run:
  assumes inv: "bc_inv me dev {} P s" and P: "P = (!) bl ` {0..<n}" and geo: "log_geom start bl n" and n: "0 < n"
    and l: "lh_n (log s) = n" "lh_block (log s) = bl" "l_start (log s) = start" "l_dev (log s) = dev"
  shows "\<exists>s' d. commit s = Inr s' \<and> bc_inv me dev {} {} s' \<and> log s' = (log s)\<lparr>lh_n := 0\<rparr> \<and> head_count d = 0 \<and>
    medium s' = commit_writes start bl n (\<lambda>i. view dev s (bl ! i)) (head_block (view dev s start) bl n) d @ medium s \<and>
    (\<forall>k<2 ^ 31. k \<notin> log_area start \<longrightarrow> view dev s' k = view dev s k)"
proof -
  note G = log_geomD [OF geo]
  have st: "start < 2 ^ 31" "start \<in> log_area start"
    using start_props(1) [OF G(1)] start_props(2) by blast+
  have PP: "finite P" "card P < NBUF" "start \<notin> P"
    using P G(2,5) st(2) card_image_le [of "{0..<n}" "(!) bl"] by auto
  have sl: "slot start i < 2 ^ 31" "slot start i \<in> log_area start" "slot start i \<noteq> start" if "i < n" for i
    using slot_props [OF G(1), of i] that G(2) by simp_all
  obtain s1 where s1: "write_log_loop n 0 s = Inr s1" "io_step s s1" "bc_inv me dev {} P s1"
    "medium s1 = log_writes start (\<lambda>i. view dev s (bl ! i)) n @ medium s"
    "\<forall>i<n. view dev s1 (slot start i) = view dev s (bl ! i)" "\<forall>k<2 ^ 31. k \<notin> slot start ` {0..<n} \<longrightarrow> view dev s1 k = view dev s k"
    using write_log_ok [OF geo inv l(4,3,2), of 0 n] P by (auto simp: log_writes_def)
  have v1: "view dev s1 k = view dev s k" if "k < 2 ^ 31" "k \<notin> log_area start \<or> k = start" for k
    using s1(6) that sl st(2) by fastforce
  have l1: "log s1 = log s"
    using s1(2) by simp
  obtain s2 where s2: "write_head s1 = Inr s2" "io_step s1 s2" "bc_inv me dev {} P s2"
    "medium s2 = (sector_of start, head_block (view dev s start) bl n) # medium s1" "\<forall>k<2 ^ 31. k \<noteq> start \<longrightarrow> view dev s2 k = view dev s1 k"
    using write_head_ok [OF s1(3) PP(1,2)] PP(3) l1 l st(1) G(2) v1 [OF st(1)] by auto
  have l2: "log s2 = log s"
    using s2(2) l1 by simp
  obtain s3 where s3: "install_loop n 0 s2 False = Inr s3" "io_step s2 s3" "bc_inv me dev {} {} s3"
    "medium s3 = install_writes bl (\<lambda>i. view dev s2 (slot start i)) 0 n @ medium s2"
    "\<forall>i<n. view dev s3 (bl ! i) = view dev s2 (slot start i)" "\<forall>k<2 ^ 31. k \<notin> (!) bl ` {0..<n} \<longrightarrow> view dev s3 k = view dev s2 k"
    using install_loop_ok [OF geo s2(3), of 0 n False] l2 l P by auto
  have c: "view dev s2 (slot start i) = view dev s (bl ! i)" if "i < n" for i
    using s2(5) s1(5) sl that by simp
  have l3: "log s3 = log s"
    using s3(2) l2 by simp
  let ?s3 = "s3\<lparr>log := (log s3)\<lparr>lh_n := 0\<rparr>\<rparr>"
  obtain s4 where s4: "write_head ?s3 = Inr s4" "io_step ?s3 s4" "bc_inv me dev {} {} s4"
    "medium s4 = (sector_of start, head_block (view dev s3 start) bl 0) # medium s3" "\<forall>k<2 ^ 31. k \<noteq> start \<longrightarrow> view dev s4 k = view dev s3 k"
    using write_head_ok [of me dev "{}" ?s3] s3(3) l3 l st(1) by auto
  have run: "commit s = Inr s4"
    using s1(1) s2(1) s3(1) s4(1) l n l2 by (simp add: commit_def write_log_def install_trans_def)
  have "install_writes bl (\<lambda>i. view dev s2 (slot start i)) 0 n = install_writes bl (\<lambda>i. view dev s (bl ! i)) 0 n"
    using c by (simp add: install_writes_def)
  then have "medium s4 = commit_writes start bl n (\<lambda>i. view dev s (bl ! i)) (head_block (view dev s start) bl n) (head_block (view dev s3 start) bl 0) @ medium s"
    using s4(4) s3(4) s2(4) s1(4) by (simp add: commit_writes_def)
  moreover have "view dev s4 k = view dev s k" if k: "k < 2 ^ 31" "k \<notin> log_area start" for k
  proof -
    have ne: "k \<noteq> start" using k st(2) by blast
    have "view dev s3 k = view dev s k"
    proof (cases "k \<in> (!) bl ` {0..<n}")
      case True
      then show ?thesis using s3(5) c by auto
    next
      case False
      then show ?thesis using s3(6) s2(5) v1 k ne by simp
    qed
    then show ?thesis using s4(5) k ne by simp
  qed
  ultimately show ?thesis
    using run s4(2,3) l3 head_block_empty [OF view_len [OF s3(3)], of start bl] by (intro exI [of _ s4]) auto
qed


lemma log_writes_disk:
  assumes G: "unat start + 30 < 2 ^ 31" and j: "j \<le> 29"
  shows "i < j \<Longrightarrow> disk_at (log_writes start c j @ m) (sector_of (slot start i)) = c i"
    "k < 2 ^ 31 \<Longrightarrow> k \<notin> slot start ` {..<j} \<Longrightarrow> disk_at (log_writes start c j @ m) (sector_of k) = disk_at m (sector_of k)"
proof -
  have s: "\<forall>i<j. slot start i < 2 ^ 31" "inj_on (slot start) {..<j}"
    using slot_props(1) [OF G] slot_props(4) [OF G] j by (auto simp: inj_on_def)
  show "i < j \<Longrightarrow> disk_at (log_writes start c j @ m) (sector_of (slot start i)) = c i"
    "k < 2 ^ 31 \<Longrightarrow> k \<notin> slot start ` {..<j} \<Longrightarrow> disk_at (log_writes start c j @ m) (sector_of k) = disk_at m (sector_of k)"
    unfolding log_writes_def by (intro disk_writes_at [OF s]; assumption)+
qed

text \<open>Until the header is written, recovery finds an empty log and the disk as it was.\<close>

lemma recovered_before:
  assumes G: "unat start + 30 < 2 ^ 31" and j: "j \<le> 29" and h: "head_count (log_head start m) = 0"
  shows "disk_wf start (log_writes start c j @ m)"
    "k < 2 ^ 31 \<Longrightarrow> k \<notin> log_area start \<Longrightarrow> recovered start (log_writes start c j @ m) k = disk_at m (sector_of k)"
proof -
  have area: "slot start i \<in> log_area start" "slot start i \<noteq> start" if "i < j" for i
    using slot_props(2,3) [OF G, of i] that j by simp_all
  have "start \<notin> slot start ` {..<j}"
    using area(2) by (metis imageE lessThan_iff)
  then have "head_count (log_head start (log_writes start c j @ m)) = 0"
    using log_writes_disk(2) [OF G j start_props(1) [OF G]] h by (simp add: log_head_def)
  moreover have "disk_at (log_writes start c j @ m) (sector_of k) = disk_at m (sector_of k)" if "k < 2 ^ 31" "k \<notin> log_area start"
    using area(1) that by (intro log_writes_disk(2) [OF G j]) auto
  ultimately show "disk_wf start (log_writes start c j @ m)"
    "k < 2 ^ 31 \<Longrightarrow> k \<notin> log_area start \<Longrightarrow> recovered start (log_writes start c j @ m) k = disk_at m (sector_of k)"
    using disk_wf_empty [OF _ G] recovered_empty by simp_all
qed

text \<open>Once the header is written, recovery finds the whole transaction.\<close>

lemma recovered_after:
  fixes c :: "nat \<Rightarrow> u8 list" and m :: medium
  assumes geo: "log_geom start bl n" and h: "length h = BSIZE"
  defines "m1 \<equiv> (sector_of start, head_block h bl n) # log_writes start c n @ m"
  shows "disk_wf start m1" "head_list (log_head start m1) = take n bl" "head_count (log_head start m1) = n"
    "i < n \<Longrightarrow> disk_at m1 (sector_of (slot start i)) = c i" "i < n \<Longrightarrow> recovered start m1 (bl ! i) = c i"
    "k < 2 ^ 31 \<Longrightarrow> k \<notin> log_area start \<Longrightarrow> k \<notin> set (take n bl) \<Longrightarrow> recovered start m1 k = disk_at m (sector_of k)"
proof -
  note G = log_geomD [OF geo]
  have n: "n \<le> 30" using G(2) by simp
  have hd: "log_head start m1 = head_block h bl n"
    by (simp add: m1_def log_head_def)
  show cnt: "head_count (log_head start m1) = n"
    using head_count_block [OF h n] hd by simp
  show bl: "head_list (log_head start m1) = take n bl"
    using head_block_props(3) [OF h n] cnt G(3) unfolding hd head_list_def by (intro nth_equalityI) simp_all
  show wf: "disk_wf start m1"
    using geo by (simp add: disk_wf_def cnt bl log_geom_def)
  have sl: "slot start i < 2 ^ 31" "slot start i \<noteq> start" "slot start i \<in> log_area start" if "i < n" for i
    using slot_props [OF G(1), of i] that G(2) by simp_all
  show at: "disk_at m1 (sector_of (slot start i)) = c i" if "i < n" for i
    using log_writes_disk(1) [OF G(1,2) that] sector_inj [OF sl(1) [OF that] start_props(1) [OF G(1)]] sl(2) [OF that] by (simp add: m1_def)
  show "recovered start m1 (bl ! i) = c i" if "i < n"
    using recovered_logged [OF wf, of i] at that G(3) by (simp add: bl cnt)
  show "recovered start m1 k = disk_at m (sector_of k)" if k: "k < 2 ^ 31" "k \<notin> log_area start" "k \<notin> set (take n bl)"
  proof -
    have "k \<noteq> start" "k \<notin> slot start ` {..<n}"
      using k(2) sl(3) start_props(2) by auto
    then have "disk_at m1 (sector_of k) = disk_at m (sector_of k)"
      using log_writes_disk(2) [OF G(1,2) k(1)] sector_inj [OF k(1) start_props(1) [OF G(1)]] by (simp add: m1_def)
    then show ?thesis
      using recovered_other [of k start m1] k(3) bl by simp
  qed
qed


lemma commit_crash:
  assumes geo: "log_geom start bl n" and h: "length h = BSIZE" and m: "head_count (log_head start m) = 0" and d: "head_count d = 0"
    and W: "commit_writes start bl n c (head_block h bl n) d = V @ U"
  shows "disk_wf start (U @ m) \<and> ((\<forall>k<2 ^ 31. k \<notin> log_area start \<longrightarrow> recovered start (U @ m) k = disk_at m (sector_of k)) \<or>
    (\<forall>i<n. recovered start (U @ m) (bl ! i) = c i) \<and>
    (\<forall>k<2 ^ 31. k \<notin> log_area start \<longrightarrow> k \<notin> set (take n bl) \<longrightarrow> recovered start (U @ m) k = disk_at m (sector_of k)))"
proof -
  note G = log_geomD [OF geo]
  let ?A = "(sector_of start, d) # install_writes bl c 0 n" and ?B = "(sector_of start, head_block h bl n) # log_writes start c n"
  let ?m1 = "?B @ m"
  note R = recovered_after [OF geo h, where c = c and m = m]
  consider (late) U1 where "?A = V @ U1" "U = U1 @ ?B" | (early) V1 where "?B = V1 @ U"
    using W unfolding commit_writes_def by (auto simp: append_eq_append_conv2 simp flip: append_Cons)
  then show ?thesis
  proof cases
    case late
    have "install_writes (head_list (log_head start ?m1)) (\<lambda>i. disk_at ?m1 (sector_of (slot start i))) 0 (head_count (log_head start ?m1)) = install_writes bl c 0 n"
      using R(2,3,4) by (simp add: install_writes_def)
    then have U: "disk_wf start (U @ m)" "\<And>k. k < 2 ^ 31 \<Longrightarrow> k \<noteq> start \<Longrightarrow> recovered start (U @ m) k = recovered start ?m1 k"
      using recovery_crash [OF _ d, of start ?m1 V U1] R(1) late by simp_all
    have "recovered start (U @ m) (bl ! i) = c i" if "i < n" for i
      using U(2) [OF G(4) [OF that]] G(5) [OF that] start_props(2) R(5) [OF that] by auto
    moreover have "recovered start (U @ m) k = disk_at m (sector_of k)" if "k < 2 ^ 31" "k \<notin> log_area start" "k \<notin> set (take n bl)" for k
      using U(2) [OF that(1)] that(2) start_props(2) R(6) [OF that] by auto
    ultimately show ?thesis
      using U(1) by blast
  next
    case early
    show ?thesis
      using Cons_append_suffix [OF early]
    proof
      assume "U = ?B"
      then show ?thesis
        using R(1,5,6) by simp
    next
      assume "\<exists>V'. log_writes start c n = V' @ U"
      then obtain j where "j \<le> n" "U = log_writes start c j"
        using rev_upt_suffix unfolding log_writes_def by blast
      then show ?thesis
        using recovered_before [OF G(1) _ m, of j] G(2) by simp
    qed
  qed
qed


section \<open>The state of the log between transactions\<close>

text \<open>
  No buffer is held, the pinned blocks are the logged ones, the header on the disk is empty, and the log
  has the size \<open>mkfs\<close> gives it.
\<close>

definition logged :: "logst \<Rightarrow> u32 set" where
  "logged l = set (take (lh_n l) (lh_block l))"

definition log_wf :: "u32 \<Rightarrow> logst \<Rightarrow> bool" where
  "log_wf dev l \<longleftrightarrow> l_dev l = dev \<and> l_size l = LOGSIZE \<and> length (lh_block l) = nat LOGSIZE \<and> lk_free (l_lock l) \<and>
     log_geom (l_start l) (lh_block l) (lh_n l)"

definition log_inv :: "nat \<Rightarrow> u32 \<Rightarrow> 'a lstate_scheme \<Rightarrow> bool" where
  "log_inv me dev s \<longleftrightarrow> log_wf dev (log s) \<and> bc_inv me dev {} (logged (log s)) s \<and> head_count (log_head (l_start (log s)) (medium s)) = 0"

lemma logged_image: "log_geom start bl (lh_n l) \<Longrightarrow> lh_block l = bl \<Longrightarrow> logged l = (!) bl ` {0..<lh_n l}"
  using log_geomD(3) [of start bl "lh_n l"] nth_image [of "lh_n l" bl] by (simp add: logged_def)

text \<open>After any number of the writes \<open>W\<close> to the disk \<open>m\<close>, recovery gives the old contents or the new ones.\<close>

definition all_or_nothing :: "u32 \<Rightarrow> medium \<Rightarrow> (u32 \<Rightarrow> u8 list) \<Rightarrow> medium \<Rightarrow> bool" where
  "all_or_nothing start m new W \<longleftrightarrow> (\<forall>V U. W = V @ U \<longrightarrow> disk_wf start (U @ m) \<and>
     ((\<forall>k<2 ^ 31. k \<notin> log_area start \<longrightarrow> recovered start (U @ m) k = disk_at m (sector_of k)) \<or>
      (\<forall>k<2 ^ 31. k \<notin> log_area start \<longrightarrow> recovered start (U @ m) k = new k)))"

lemma all_or_nothing_reboot:
  assumes "all_or_nothing start m new (V @ U)" and "bc_inv you dev {} {} r" and "medium r = U @ m"
  shows "\<exists>r'. initlog r dev start nlog = Inr r' \<and> ((\<forall>k<2 ^ 31. k \<notin> log_area start \<longrightarrow> view dev r' k = disk_at m (sector_of k)) \<or>
    (\<forall>k<2 ^ 31. k \<notin> log_area start \<longrightarrow> view dev r' k = new k))"
proof -
  have U: "disk_wf start (U @ m)" "(\<forall>k<2 ^ 31. k \<notin> log_area start \<longrightarrow> recovered start (U @ m) k = disk_at m (sector_of k)) \<or>
      (\<forall>k<2 ^ 31. k \<notin> log_area start \<longrightarrow> recovered start (U @ m) k = new k)"
    using assms(1) unfolding all_or_nothing_def by blast+
  obtain r' where r': "initlog r dev start nlog = Inr r'" "\<And>k. k < 2 ^ 31 \<Longrightarrow> k \<noteq> start \<Longrightarrow> view dev r' k = recovered start (U @ m) k"
    using initlog_view [OF assms(2), of start nlog] U(1) assms(3) by auto
  have "view dev r' k = recovered start (U @ m) k" if "k < 2 ^ 31" "k \<notin> log_area start" for k
    using r'(2) [OF that(1)] that(2) start_props(2) by auto
  then show ?thesis
    using U(2) r'(1) by auto
qed

lemma commit_ok:
  assumes inv: "log_inv me dev s" and n: "0 < lh_n (log s)"
  defines "start \<equiv> l_start (log s)"
  shows "\<exists>s' W. commit s = Inr s' \<and> medium s' = W @ medium s \<and> log s' = (log s)\<lparr>lh_n := 0\<rparr> \<and> log_inv me dev s' \<and>
    (\<forall>k<2 ^ 31. k \<notin> log_area start \<longrightarrow> view dev s' k = view dev s k) \<and> all_or_nothing start (medium s) (view dev s) W"
proof -
  let ?l = "log s"
  have geo: "log_geom start (lh_block ?l) (lh_n ?l)" and inv0: "bc_inv me dev {} (logged ?l) s" and dev: "l_dev ?l = dev"
    and h0: "head_count (log_head start (medium s)) = 0"
    using inv by (simp_all add: log_inv_def log_wf_def start_def)
  have P: "logged ?l = (!) (lh_block ?l) ` {0..<lh_n ?l}"
    using logged_image [OF geo] by simp
  obtain s' d where c: "commit s = Inr s'" "bc_inv me dev {} {} s'" "log s' = ?l\<lparr>lh_n := 0\<rparr>" "head_count d = 0"
    "medium s' = commit_writes start (lh_block ?l) (lh_n ?l) (\<lambda>i. view dev s (lh_block ?l ! i)) (head_block (view dev s start) (lh_block ?l) (lh_n ?l)) d @ medium s"
    "\<forall>k<2 ^ 31. k \<notin> log_area start \<longrightarrow> view dev s' k = view dev s k"
    using commit_run [OF inv0 P geo n] dev by (auto simp: start_def)
  let ?W = "commit_writes start (lh_block ?l) (lh_n ?l) (\<lambda>i. view dev s (lh_block ?l ! i)) (head_block (view dev s start) (lh_block ?l) (lh_n ?l)) d"
  have "log_head start (medium s') = d"
    using c(5) by (simp add: log_head_def commit_writes_def)
  then have "log_inv me dev s'"
    using inv c(2,3,4) by (simp add: log_inv_def log_wf_def log_geom_def logged_def start_def)
  moreover have "all_or_nothing start (medium s) (view dev s) ?W"
    unfolding all_or_nothing_def
  proof (intro allI impI)
    fix V U
    assume W: "?W = V @ U"
    have off: "view dev s k = disk_at (medium s) (sector_of k)" if "k \<notin> set (take (lh_n ?l) (lh_block ?l))" for k
      using view_clean [OF inv0] that by (simp add: logged_def)
    have "\<forall>k<2 ^ 31. k \<notin> log_area start \<longrightarrow> recovered start (U @ medium s) k = view dev s k"
      if "\<forall>i<lh_n ?l. recovered start (U @ medium s) (lh_block ?l ! i) = view dev s (lh_block ?l ! i)"
        "\<forall>k<2 ^ 31. k \<notin> log_area start \<longrightarrow> k \<notin> set (take (lh_n ?l) (lh_block ?l)) \<longrightarrow> recovered start (U @ medium s) k = disk_at (medium s) (sector_of k)"
    proof (intro allI impI)
      fix k :: u32
      assume k: "k < 2 ^ 31" "k \<notin> log_area start"
      show "recovered start (U @ medium s) k = view dev s k"
      proof (cases "k \<in> logged ?l")
        case True
        then show ?thesis
          using that(1) unfolding P by auto
      next
        case False
        then show ?thesis
          using that(2) k off by (simp add: logged_def)
      qed
    qed
    then show "disk_wf start (U @ medium s) \<and> ((\<forall>k<2 ^ 31. k \<notin> log_area start \<longrightarrow> recovered start (U @ medium s) k = disk_at (medium s) (sector_of k)) \<or>
      (\<forall>k<2 ^ 31. k \<notin> log_area start \<longrightarrow> recovered start (U @ medium s) k = view dev s k))"
      using commit_crash [OF geo view_len [OF inv0] h0 c(4) W] by blast
  qed
  ultimately show ?thesis
    using c(1,3,5,6) by blast
qed


end
