(* ===== verification/Log_ops.thy ===== *)
theory Log_ops
  imports Log_thms
begin

text \<open>
  The calls of the log that the file system makes: \<open>begin_op\<close> reserves, \<open>log_write\<close> records and absorbs,
  \<open>end_op\<close> commits. A machine after boot and one transaction on it.
\<close>

lemma log_order [simp]:
  "hart_update f (log_update g s) = log_update g (hart_update f s)" "procs_update p (log_update g s) = log_update g (procs_update p s)"
  "medium_update m (log_update g s) = log_update g (medium_update m s)" "vdisk_update d (log_update g s) = log_update g (vdisk_update d s)"
  "bc_lock_update k (log_update g s) = log_update g (bc_lock_update k s)" "bufs_update b (log_update g s) = log_update g (bufs_update b s)"
  for s :: "'a lstate_scheme"
  by simp_all

section \<open>The log's lock\<close>

lemma acquire_log_ok:
  "lk_free (l_lock (log s)) \<Longrightarrow> acquire_log s =
     Inr (s\<lparr>log := (log s)\<lparr>l_lock := held_lock (l_lock (log s)) (hartid (hart s))\<rparr>, hart := push_off (hart s)\<rparr>)"
  by (simp add: acquire_log_def acquire_free held_lock_def)

lemma release_log_ok:
  assumes "lk_free lk" and "cpu_ok c" and "l_lock (log s) = held_lock lk (hartid c)" and "hart s = push_off c"
  shows "release_log s = Inr (s\<lparr>log := (log s)\<lparr>l_lock := lk\<rparr>, hart := settle c\<rparr>)"
  using release_held [OF assms(1,2)] assms(3,4) by (simp add: release_log_def held_lock_def)

lemma bc_inv_hart: "cpu_ok c \<Longrightarrow> bc_inv me dev H P s \<Longrightarrow> bc_inv me dev H P (s\<lparr>hart := c\<rparr>)"
  by (auto simp: bc_inv_def idle_procs_def)

lemma view_hart [simp]: "view dev (s\<lparr>hart := c\<rparr>) = view dev s"
  by (auto simp: view_def fun_eq_iff cong: option.case_cong)

lemma io_step_hart: "io_step s t \<Longrightarrow> cpu_ok c \<Longrightarrow> hart s = push_off c \<Longrightarrow> hart t = push_off c"
  by (auto simp: io_step_def intro: settle_held)

text \<open>A step that also changes the log, for the rest of the state.\<close>

definition log_step :: "'a lstate_scheme \<Rightarrow> 'a lstate_scheme \<Rightarrow> bool" where
  "log_step s t \<longleftrightarrow> (\<exists>c ps m d bs l. t = s\<lparr>hart := c, procs := ps, medium := m, vdisk := d, bufs := bs, log := l\<rparr> \<and>
     settle c = settle (hart s) \<and> woken (procs s) ps)"

lemma log_stepI: "t = s\<lparr>hart := c, procs := ps, medium := m, vdisk := d, bufs := bs, log := l\<rparr> \<Longrightarrow> settle c = settle (hart s) \<Longrightarrow>
   woken (procs s) ps \<Longrightarrow> log_step s t"
  unfolding log_step_def by blast

lemma log_step_trans:
  assumes "log_step s t" and "log_step t u"
  shows "log_step s u"
proof -
  obtain c ps m d bs l where t: "t = s\<lparr>hart := c, procs := ps, medium := m, vdisk := d, bufs := bs, log := l\<rparr>" "settle c = settle (hart s)" "woken (procs s) ps"
    using assms(1) unfolding log_step_def by blast
  obtain c' ps' m' d' bs' l' where u: "u = t\<lparr>hart := c', procs := ps', medium := m', vdisk := d', bufs := bs', log := l'\<rparr>" "settle c' = settle (hart t)"
    "woken (procs t) ps'"
    using assms(2) unfolding log_step_def by blast
  show ?thesis
    by (rule log_stepI [where c = c' and ps = ps' and m = m' and d = d' and bs = bs' and l = l']) (use t u woken_trans in auto)
qed

lemma io_step_log_step:
  assumes "io_step s t"
  shows "log_step s (t\<lparr>log := l\<rparr>)" "log_step s t"
proof -
  obtain c ps m d bs where t: "t = s\<lparr>hart := c, procs := ps, medium := m, vdisk := d, bufs := bs\<rparr>" "settle c = settle (hart s)" "woken (procs s) ps"
    using assms unfolding io_step_def by blast
  show "log_step s (t\<lparr>log := l\<rparr>)" "log_step s t"
    by (rule log_stepI [where c = c and ps = ps and m = m and d = d and bs = bs and l = l], use t in simp_all) (rule log_stepI [where c = c and ps = ps and m = m and d = d and bs = bs and l = "log s"], use t in simp_all)
qed

section \<open>Recording a block\<close>

lemma log_index_in:
  "b \<in> set (take n (drop i bl)) \<Longrightarrow> i + n \<le> length bl \<Longrightarrow> log_index bl n i b < i + n \<and> bl ! log_index bl n i b = b"
proof (induction n arbitrary: i)
  case (Suc n)
  have "take (Suc n) (drop i bl) = bl ! i # take n (drop (Suc i) bl)"
    using Suc.prems(2) by (simp add: Cons_nth_drop_Suc [symmetric])
  then show ?case
    using Suc.IH [of "Suc i"] Suc.prems by auto
qed simp

lemma log_index_out:
  "b \<notin> set (take n (drop i bl)) \<Longrightarrow> i + n \<le> length bl \<Longrightarrow> log_index bl n i b = i + n"
proof (induction n arbitrary: i)
  case (Suc n)
  have "take (Suc n) (drop i bl) = bl ! i # take n (drop (Suc i) bl)"
    using Suc.prems(2) by (simp add: Cons_nth_drop_Suc [symmetric])
  then show ?case
    using Suc.IH [of "Suc i"] Suc.prems by auto
qed simp

text \<open>The log after a block was recorded: a block that is there already is absorbed.\<close>

definition log_add :: "u32 \<Rightarrow> logst \<Rightarrow> logst" where
  "log_add b l = (if b \<in> logged l then l else l\<lparr>lh_n := Suc (lh_n l), lh_block := (lh_block l)[lh_n l := b]\<rparr>)"

lemma log_write_ok:
  assumes inv: "bc_inv me dev H (logged (log s)) s" and wf: "log_wf dev (log s)" and b: "b \<in> H" and n: "lh_n (log s) < 29" and o: "1 \<le> outstanding (log s)"
  shows "\<exists>s'. log_write s b = Inr s' \<and> bc_inv me dev H (insert (b_blockno (bufs s ! b)) (logged (log s))) s' \<and> view dev s' = view dev s \<and>
    medium s' = medium s \<and> log s' = log_add (b_blockno (bufs s ! b)) (log s) \<and> log_step s s' \<and>
    (\<forall>i. b_blockno (bufs s' ! i) = b_blockno (bufs s ! i) \<and> b_data (bufs s' ! i) = b_data (bufs s ! i))"
proof -
  let ?l = "log s" and ?c = "hart s" and ?bn = "b_blockno (bufs s ! b)"
  have lk: "lk_free (l_lock ?l)" and bl: "length (lh_block ?l) = 30" "l_size ?l = 30"
    using wf by (simp_all add: log_wf_def)
  note c = bc_invD(10) [OF inv]
  have st: "log_geom (l_start ?l) (lh_block ?l) (lh_n ?l)"
    using wf by (simp add: log_wf_def)
  let ?l1 = "?l\<lparr>l_lock := held_lock (l_lock ?l) (hartid ?c)\<rparr>"
  let ?i = "log_index (lh_block ?l) (lh_n ?l) 0 ?bn"
  let ?s2 = "s\<lparr>log := ?l1\<lparr>lh_block := (lh_block ?l)[?i := ?bn]\<rparr>, hart := push_off ?c\<rparr>"
  have run: "log_write s b = (if ?i = lh_n ?l then bindr (bpin ?s2 b) (\<lambda>s3. release_log (s3\<lparr>log := (log s3)\<lparr>lh_n := lh_n (log s3) + 1\<rparr>\<rparr>)) else release_log ?s2)"
    using acquire_log_ok [OF lk] n o bl by (simp add: log_write_def Let_def)
  have inv2: "bc_inv me dev H (logged ?l) ?s2"
    using bc_inv_hart [OF push_off_ok [OF c] inv] by (simp add: bc_inv_def idle_procs_def)
  show ?thesis
  proof (cases "?bn \<in> logged ?l")
    case True
    then have i: "?i < lh_n ?l" "lh_block ?l ! ?i = ?bn"
      using log_index_in [of ?bn "lh_n ?l" 0 "lh_block ?l"] n bl by (simp_all add: logged_def)
    have "release_log ?s2 = Inr (s\<lparr>log := ?l, hart := settle ?c\<rparr>)"
      using i(2) list_update_id [of "lh_block ?l" ?i] by (subst release_log_ok [OF lk c]) simp_all
    moreover have "log_step s (s\<lparr>hart := settle ?c\<rparr>)"
      by (rule log_stepI [where c = "settle ?c" and ps = "procs s" and m = "medium s" and d = "vdisk s" and bs = "bufs s" and l = "log s"]) simp_all
    ultimately show ?thesis
      using run i(1) True bc_inv_hart [OF _ inv, of "settle ?c"] c
      by (intro exI [of _ "s\<lparr>hart := settle ?c\<rparr>"]) (simp add: log_add_def insert_absorb)
  next
    case False
    then have i: "?i = lh_n ?l"
      using log_index_out [of ?bn "lh_n ?l" 0 "lh_block ?l"] n bl by (simp add: logged_def)
    obtain t where t: "bpin ?s2 b = Inr t" "bc_inv me dev H (insert ?bn (logged ?l)) t" "view dev t = view dev ?s2" "io_step ?s2 t"
      "medium t = medium s" "\<And>i. bufs t ! i = (if i = b then (bufs s ! b)\<lparr>b_refcnt := 2\<rparr> else bufs s ! i)"
      using bpin_ok [OF inv2 b] False by auto
    have tl: "log t = ?l1\<lparr>lh_block := (lh_block ?l)[lh_n ?l := ?bn]\<rparr>" "hart t = push_off ?c"
      using t(4) io_step_hart [OF t(4) c] i by simp_all
    let ?s' = "t\<lparr>log := ?l\<lparr>lh_n := Suc (lh_n ?l), lh_block := (lh_block ?l)[lh_n ?l := ?bn]\<rparr>, hart := settle ?c\<rparr>"
    have "release_log (t\<lparr>log := (log t)\<lparr>lh_n := lh_n (log t) + 1\<rparr>\<rparr>) = Inr ?s'"
      using tl by (subst release_log_ok [OF lk c]) simp_all
    moreover have "bc_inv me dev H (insert ?bn (logged ?l)) ?s'"
      using bc_inv_hart [OF _ t(2), of "settle ?c"] c by (simp add: bc_inv_def idle_procs_def)
    moreover have "view dev ?s' = view dev s"
      using t(3) by (simp add: view_def fun_eq_iff cong: option.case_cong)
    moreover have "log_step s ?s'"
    proof -
      obtain c ps m d bs where u: "t = ?s2\<lparr>hart := c, procs := ps, medium := m, vdisk := d, bufs := bs\<rparr>" "woken (procs ?s2) ps"
        using t(4) unfolding io_step_def by blast
      show ?thesis
        by (rule log_stepI [where c = "settle ?c" and ps = ps and m = m and d = d and bs = bs and l = "log ?s'"]) (use u in simp_all)
    qed
    ultimately show ?thesis
      using run i t(1,5,6) False by (intro exI [of _ ?s']) (simp add: log_add_def)
  qed
qed


lemma log_add_ok:
  assumes "log_wf dev l" and "lh_n l < 29" and "b < 2 ^ 31" and "b \<notin> log_area (l_start l)"
  shows "log_wf dev (log_add b l)" "logged (log_add b l) = insert b (logged l)"
proof -
  have l: "length (lh_block l) = 30" "log_geom (l_start l) (lh_block l) (lh_n l)"
    using assms(1) by (simp_all add: log_wf_def)
  have t: "take (Suc (lh_n l)) ((lh_block l)[lh_n l := b]) = take (lh_n l) (lh_block l) @ [b]"
    using l(1) assms(2) by (simp add: take_Suc_conv_app_nth)
  show "logged (log_add b l) = insert b (logged l)"
    using t by (auto simp: log_add_def logged_def)
  have "log_geom (l_start l) ((lh_block l)[lh_n l := b]) (Suc (lh_n l))" if "b \<notin> logged l"
    using l that t assms(2-4) unfolding log_geom_def by (auto simp: logged_def less_Suc_eq nth_list_update)
  then show "log_wf dev (log_add b l)"
    using assms(1) by (auto simp: log_add_def log_wf_def)
qed

section \<open>Reserving and committing\<close>

lemma begin_op_ok:
  assumes "log_wf dev (log s)" and "cpu_ok (hart s)" and "committing (log s) = 0"
    and "int (lh_n (log s)) + (outstanding (log s) + 1) * MAXOPBLOCKS \<le> LOGSIZE"
  shows "begin_op s = Inr (s\<lparr>hart := settle (hart s), log := (log s)\<lparr>outstanding := outstanding (log s) + 1\<rparr>\<rparr>)"
proof -
  have lk: "lk_free (l_lock (log s))"
    using assms(1) by (simp add: log_wf_def)
  have "release_log (s\<lparr>hart := push_off (hart s), log := (log s)\<lparr>l_lock := held_lock (l_lock (log s)) (hartid (hart s)), outstanding := outstanding (log s) + 1\<rparr>\<rparr>) =
      Inr (s\<lparr>hart := settle (hart s), log := (log s)\<lparr>outstanding := outstanding (log s) + 1\<rparr>\<rparr>)"
    by (subst release_log_ok [OF lk assms(2)]) simp_all
  then show ?thesis
    using acquire_log_ok [OF lk] assms(3,4) by (simp add: begin_op_def)
qed

text \<open>Waking the processes that wait for the log.\<close>

lemma wakeup_log:
  assumes "bc_inv me dev H P s"
  shows "\<exists>t. wakeup s ch = Inr t \<and> io_step s t \<and> bc_inv me dev H P t \<and> view dev t = view dev s \<and> medium t = medium s"
proof -
  note D = bc_invD [OF assms]
  obtain ps where ps: "wakeup s ch = Inr (s\<lparr>hart := settle (hart s), procs := ps\<rparr>)" "woken (procs s) ps"
    using wakeup_woken [OF D(1)] by blast
  let ?t = "s\<lparr>hart := settle (hart s), procs := ps\<rparr>"
  have "io_step s ?t"
    using io_stepI [of "settle (hart s)" s ps, where m = "medium s" and d = "vdisk s" and bs = "bufs s"] ps(2) by simp
  moreover have "idle_procs ?t" "pid (ps ! me) = pid (procs s ! me)"
    using idle_woken [OF D(1) ps(2)] D(10) wokenD(2) [OF ps(2)] D(3,11) by simp_all
  then have "bc_inv me dev H P ?t"
    using assms by (simp add: bc_inv_def)
  ultimately show ?thesis
    using ps(1) by (intro exI [of _ ?t]) (simp add: view_def fun_eq_iff cong: option.case_cong)
qed

lemma all_or_nothing_empty: "head_count (log_head start m) = 0 \<Longrightarrow> unat start + 30 < 2 ^ 31 \<Longrightarrow> all_or_nothing start m new []"
  by (simp add: all_or_nothing_def recovered_empty disk_wf_empty)

lemma commit_any:
  assumes "log_inv me dev s"
  shows "\<exists>s' W. commit s = Inr s' \<and> medium s' = W @ medium s \<and> log s' = (log s)\<lparr>lh_n := 0\<rparr> \<and> log_inv me dev s' \<and>
    (\<forall>k<2 ^ 31. k \<notin> log_area (l_start (log s)) \<longrightarrow> view dev s' k = view dev s k) \<and> all_or_nothing (l_start (log s)) (medium s) (view dev s) W"
proof (cases "lh_n (log s) = 0")
  case True
  have "(log s)\<lparr>lh_n := 0\<rparr> = log s"
    using True by (intro logst.equality) simp_all
  then show ?thesis
    using assms True all_or_nothing_empty by (auto simp: commit_def log_inv_def log_wf_def log_geom_def)
next
  case False
  then show ?thesis
    using commit_ok [OF assms] by simp
qed


lemma log_inv_upd:
  assumes "log_inv me dev s" and "cpu_ok c" and "log_wf dev l" and "logged l = logged (log s)" and "l_start l = l_start (log s)"
  shows "log_inv me dev (s\<lparr>hart := c, log := l\<rparr>)" "view dev (s\<lparr>hart := c, log := l\<rparr>) = view dev s"
  using assms by (auto simp: log_inv_def intro: bc_inv_hart)

lemma end_op_ok:
  assumes inv: "log_inv me dev s" and o: "outstanding (log s) = 1" "committing (log s) = 0"
  shows "\<exists>s' W. end_op s = Inr s' \<and> medium s' = W @ medium s \<and> log s' = (log s)\<lparr>outstanding := 0, lh_n := 0\<rparr> \<and> log_inv me dev s' \<and>
    (\<forall>k<2 ^ 31. k \<notin> log_area (l_start (log s)) \<longrightarrow> view dev s' k = view dev s k) \<and> all_or_nothing (l_start (log s)) (medium s) (view dev s) W"
proof -
  let ?l = "log s" and ?c = "hart s"
  have wf: "log_wf dev ?l" and c: "cpu_ok ?c"
    using inv bc_invD(10) by (auto simp: log_inv_def)
  then have lk: "lk_free (l_lock ?l)"
    by (simp add: log_wf_def)
  let ?h = "held_lock (l_lock ?l) (hartid ?c)"
  let ?s3 = "s\<lparr>hart := settle ?c, log := ?l\<lparr>outstanding := 0, committing := 1\<rparr>\<rparr>"
  have rel: "release_log (s\<lparr>hart := push_off ?c, log := ?l\<lparr>l_lock := ?h, outstanding := 0, committing := 1\<rparr>\<rparr>) = Inr ?s3"
    by (subst release_log_ok [OF lk c]) simp_all
  have inv3: "log_inv me dev ?s3" "view dev ?s3 = view dev s"
    using log_inv_upd [OF inv, of "settle ?c" "?l\<lparr>outstanding := 0, committing := 1\<rparr>"] wf c by (simp_all add: log_wf_def logged_def)
  obtain s4 W where s4: "commit ?s3 = Inr s4" "medium s4 = W @ medium s" "log s4 = ?l\<lparr>outstanding := 0, committing := 1, lh_n := 0\<rparr>" "log_inv me dev s4"
    "\<forall>k<2 ^ 31. k \<notin> log_area (l_start ?l) \<longrightarrow> view dev s4 k = view dev s k" "all_or_nothing (l_start ?l) (medium s) (view dev s) W"
    using commit_any [OF inv3(1)] inv3(2) by auto
  let ?c4 = "hart s4"
  have c4: "cpu_ok ?c4"
    using s4(4) bc_invD(10) by (auto simp: log_inv_def)
  let ?s5 = "s4\<lparr>hart := push_off ?c4, log := ?l\<lparr>l_lock := held_lock (l_lock ?l) (hartid ?c4), outstanding := 0, lh_n := 0, committing := 0\<rparr>\<rparr>"
  have "bc_inv me dev {} {} s4"
    using s4(3,4) by (simp add: log_inv_def logged_def)
  then have inv5: "bc_inv me dev {} {} ?s5"
    using bc_inv_hart [OF push_off_ok [OF c4]] by simp
  obtain s6 where s6: "wakeup ?s5 WLog = Inr s6" "io_step ?s5 s6" "bc_inv me dev {} {} s6" "view dev s6 = view dev ?s5" "medium s6 = medium s4"
    using wakeup_log [OF inv5, of WLog] by auto
  have h6: "hart s6 = push_off ?c4" "log s6 = log ?s5"
    using io_step_hart [OF s6(2) c4] s6(2) by simp_all
  let ?s' = "s6\<lparr>hart := settle ?c4, log := ?l\<lparr>outstanding := 0, lh_n := 0, committing := 0\<rparr>\<rparr>"
  have "release_log s6 = Inr ?s'"
    using h6 lk by (subst release_log_ok [OF lk c4]) simp_all
  moreover have "acquire_log s4 = Inr (s4\<lparr>hart := push_off ?c4, log := ?l\<lparr>l_lock := held_lock (l_lock ?l) (hartid ?c4), outstanding := 0, committing := 1, lh_n := 0\<rparr>\<rparr>)"
    using acquire_log_ok [of s4] lk s4(3) by simp
  ultimately have run: "end_op s = Inr ?s'"
    using acquire_log_ok [OF lk] o rel s4(1) s6(1) by (simp add: end_op_def Let_def)
  have l': "?l\<lparr>outstanding := 0, lh_n := 0, committing := 0\<rparr> = ?l\<lparr>outstanding := 0, lh_n := 0\<rparr>"
    using o(2) by (intro logst.equality) simp_all
  have "log_inv me dev ?s'"
    using s4(2,3,4) s6(3,5) bc_inv_hart [of "settle ?c4"] c4 wf by (simp add: log_inv_def logged_def log_wf_def log_geom_def)
  moreover have "view dev ?s' = view dev s4"
    using s6(4) by simp
  ultimately show ?thesis
    using run s4(2,5,6) s6(5) l' by (intro exI [of _ ?s'] exI [of _ W]) simp
qed

end
