(* ===== verification/Fs_thms.thy ===== *)
theory Fs_thms
  imports Fs Log_ops
begin

text \<open>
  Blocks under the log: an update of a block inside a transaction changes what the file system sees and
  not the disk; \<open>bzero\<close>, \<open>balloc\<close> and \<open>bfree\<close> are such updates.
\<close>

section \<open>An update in a transaction\<close>

lemma finite_logged [simp]: "finite (logged l)"
  by (simp add: logged_def)

lemma card_logged: "card (logged l) \<le> lh_n l"
  using card_length [of "take (lh_n l) (lh_block l)"] by (simp add: logged_def)

lemma log_read:
  assumes inv: "log_inv me dev s" and k: "k < 2 ^ 31"
  shows "\<exists>s1 b. bread s dev k = Inr (s1, b) \<and> io_step s s1 \<and> bc_inv me dev {b} (logged (log s)) s1 \<and> caches dev (bufs s1 ! b) k \<and>
    b_data (bufs s1 ! b) = view dev s k \<and> view dev s1 = view dev s \<and> medium s1 = medium s"
proof -
  have "bc_inv me dev {} (logged (log s)) s" "card (logged (log s)) < NBUF"
    using inv card_logged [of "log s"] by (simp_all add: log_inv_def log_wf_def log_geom_def)
  then show ?thesis
    using bread_ok [of me dev "{}" "logged (log s)" s k] k by fastforce
qed

text \<open>A block that was only read is released unchanged.\<close>

lemma log_release:
  assumes inv: "log_inv me dev s" and r: "io_step s s1" "bc_inv me dev {b} (logged (log s)) s1" "caches dev (bufs s1 ! b) k"
    "b_data (bufs s1 ! b) = view dev s k" "view dev s1 = view dev s" "medium s1 = medium s"
  shows "\<exists>s2. brelse s1 b = Inr s2 \<and> log_inv me dev s2 \<and> log s2 = log s \<and> io_step s s2 \<and> view dev s2 = view dev s \<and> medium s2 = medium s"
proof -
  have "bc_inv me dev {} (logged (log s)) s"
    using inv by (simp add: log_inv_def)
  then have "k \<in> logged (log s) \<or> b_data (bufs s1 ! b) = disk_at (medium s1) (sector_of k)"
    using view_clean [of me dev "logged (log s)" s k] r(4,6) by auto
  then obtain s2 where s2: "brelse s1 b = Inr s2" "bc_inv me dev ({b} - {b}) (logged (log s)) s2" "view dev s2 = view dev s1" "io_step s1 s2" "medium s2 = medium s1"
    using brelse_ok [OF r(2), of b] r(3) by (auto simp: caches_def)
  have "io_step s s2"
    using io_step_trans [OF r(1) s2(4)] .
  then show ?thesis
    using inv r(5,6) s2(1-3,5) by (intro exI [of _ s2]) (simp add: log_inv_def)
qed

lemma log_update:
  assumes inv: "log_inv me dev s" and o: "1 \<le> outstanding (log s)" "lh_n (log s) < 29" and k: "k < 2 ^ 31" "k \<notin> log_area (l_start (log s))"
    and r: "io_step s s1" "bc_inv me dev {b} (logged (log s)) s1" "caches dev (bufs s1 ! b) k" "view dev s1 = view dev s" "medium s1 = medium s"
    and d: "length d = BSIZE"
  shows "\<exists>s2 s3. log_write (set_data s1 b d) b = Inr s2 \<and> brelse s2 b = Inr s3 \<and> log_inv me dev s3 \<and> log s3 = log_add k (log s) \<and>
    medium s3 = medium s \<and> view dev s3 = (view dev s)(k := d) \<and> log_step s s3"
proof -
  let ?s = "set_data s1 b d"
  have bk: "b_blockno (bufs s1 ! b) = k"
    using r(3) by (simp add: caches_def)
  have f: "bc_inv me dev {b} (logged (log s)) ?s" "io_step s1 ?s" "\<And>j. view dev ?s j = (if j = k then d else view dev s j)" "medium ?s = medium s"
    "b_blockno (bufs ?s ! b) = k"
    using fill_ok [OF r(2) _ d, of b] bk r(4,5) unfolding set_data_def by (simp_all add: upd_buf_def)
  have l: "log ?s = log s"
    using r(1) f(2) by simp
  have wf: "log_wf dev (log s)"
    using inv by (simp add: log_inv_def)
  obtain s2 where s2: "log_write ?s b = Inr s2" "bc_inv me dev {b} (insert k (logged (log s))) s2" "view dev s2 = view dev ?s" "medium s2 = medium s"
    "log s2 = log_add k (log s)" "b_blockno (bufs s2 ! b) = k" "log_step ?s s2"
    using log_write_ok [of me dev "{b}" ?s b] f l wf o by auto
  obtain s3 where s3: "brelse s2 b = Inr s3" "bc_inv me dev ({b} - {b}) (insert k (logged (log s))) s3" "view dev s3 = view dev s2" "io_step s2 s3" "medium s3 = medium s2"
    using brelse_ok [OF s2(2), of b] s2(6) by auto
  have "log s3 = log_add k (log s)"
    using s3(4) s2(5) by simp
  moreover have "log_wf dev (log_add k (log s))" "logged (log_add k (log s)) = insert k (logged (log s))"
    using log_add_ok [OF wf o(2) k] by simp_all
  moreover have "l_start (log_add k (log s)) = l_start (log s)"
    by (simp add: log_add_def)
  ultimately have "log_inv me dev s3"
    using s3(2,5) s2(4) inv by (simp add: log_inv_def)
  moreover have "view dev s3 = (view dev s)(k := d)"
    using s3(3) s2(3) f(3) by (simp add: fun_eq_iff)
  moreover have "log_step s s3"
    using io_step_log_step(2) [OF r(1)] io_step_log_step(2) [OF f(2)] s2(7) io_step_log_step(2) [OF s3(4)] log_step_trans by blast
  ultimately show ?thesis
    using s2(1,4) s3(1,5) \<open>log s3 = _\<close> by auto
qed

lemma log_add_simps [simp]: "outstanding (log_add k l) = outstanding l" "committing (log_add k l) = committing l" "l_start (log_add k l) = l_start l"
  by (simp_all add: log_add_def)

lemma log_add_n: "lh_n (log_add k l) \<le> Suc (lh_n l)"
  by (simp add: log_add_def)

lemma log_step_sb: "log_step s t \<Longrightarrow> sb t = sb s"
  by (auto simp: log_step_def)

section \<open>Blocks\<close>

lemma bzero_ok:
  assumes inv: "log_inv me dev s" and o: "1 \<le> outstanding (log s)" "lh_n (log s) < 29" and k: "k < 2 ^ 31" "k \<notin> log_area (l_start (log s))"
  shows "\<exists>s'. bzero s dev k = Inr s' \<and> log_inv me dev s' \<and> log s' = log_add k (log s) \<and> medium s' = medium s \<and>
    view dev s' = (view dev s)(k := replicate BSIZE 0) \<and> log_step s s'"
proof -
  obtain s1 b where r: "bread s dev k = Inr (s1, b)" "io_step s s1" "bc_inv me dev {b} (logged (log s)) s1" "caches dev (bufs s1 ! b) k"
    "view dev s1 = view dev s" "medium s1 = medium s"
    using log_read [OF inv k(1)] by blast
  then show ?thesis
    using log_update [OF inv o k r(2-6), of "replicate BSIZE 0"] by (auto simp: bzero_def)
qed

lemma bit_free_bit: "bit_free d bi \<longleftrightarrow> \<not> bit (d ! (bi div 8)) (bi mod 8)"
  by (simp add: bit_free_def bmask_def push_bit_of_1 and_exp_eq_0_iff_not_bit)

lemma bit_bmask: "bit (bmask bi) n \<longleftrightarrow> n = bi mod 8"
  by (auto simp: bmask_def bit_simps)

lemma div_mod_8: "(i :: nat) div 8 = j div 8 \<Longrightarrow> i mod 8 = j mod 8 \<longleftrightarrow> i = j"
  by (metis div_mult_mod_eq)

lemma bit_free_set:
  assumes "length d = BSIZE" and "bi < BPB"
  shows "bit_free (d[bi div 8 := d ! (bi div 8) OR bmask bi]) bj \<longleftrightarrow> bit_free d bj \<and> bj \<noteq> bi"
    "bit_free (d[bi div 8 := d ! (bi div 8) AND NOT (bmask bi)]) bj \<longleftrightarrow> bit_free d bj \<or> bj = bi"
proof -
  have "bi div 8 < length d"
    using assms by simp
  then show "bit_free (d[bi div 8 := d ! (bi div 8) OR bmask bi]) bj \<longleftrightarrow> bit_free d bj \<and> bj \<noteq> bi"
    "bit_free (d[bi div 8 := d ! (bi div 8) AND NOT (bmask bi)]) bj \<longleftrightarrow> bit_free d bj \<or> bj = bi"
    using div_mod_8 [of bi bj]
    by (cases "bi div 8 = bj div 8"; auto simp: bit_free_bit nth_list_update bit_or_iff bit_and_iff bit_not_iff bit_bmask)+
qed

text \<open>
  The state during a transaction on a file system with one bitmap block that lies below the data and
  outside the log.
\<close>

definition one_bitmap :: "'a istate_scheme \<Rightarrow> bool" where
  "one_bitmap s \<longleftrightarrow> unat (sb_size (sb s)) \<le> BPB \<and> sb_bmapstart (sb s) < 2 ^ 31 \<and> sb_bmapstart (sb s) \<notin> log_area (l_start (log s))"

lemma BBLOCK_one: "one_bitmap s \<Longrightarrow> unat b < BPB \<Longrightarrow> BBLOCK b (sb s) = sb_bmapstart (sb s)"
proof -
  assume "unat b < BPB"
  then have "unat (b div of_nat BPB) = 0"
    by (simp add: unat_div)
  then have "b div of_nat BPB = 0"
    by (simp only: unat_eq_0)
  then show ?thesis
    by (simp add: BBLOCK_def)
qed

lemma bfree_ok:
  assumes inv: "log_inv me dev s" and o: "1 \<le> outstanding (log s)" "lh_n (log s) < 29" and bm: "one_bitmap s" and b: "unat b < BPB"
    and used: "\<not> bit_free (view dev s (sb_bmapstart (sb s))) (unat b)"
  shows "\<exists>s'. bfree s dev b = Inr s' \<and> log_inv me dev s' \<and> log s' = log_add (sb_bmapstart (sb s)) (log s) \<and> medium s' = medium s \<and>
    (\<forall>k. k \<noteq> sb_bmapstart (sb s) \<longrightarrow> view dev s' k = view dev s k) \<and>
    (\<forall>j. bit_free (view dev s' (sb_bmapstart (sb s))) j \<longleftrightarrow> bit_free (view dev s (sb_bmapstart (sb s))) j \<or> j = unat b)"
proof -
  let ?k = "sb_bmapstart (sb s)"
  let ?d = "view dev s ?k"
  let ?e = "?d[unat b div 8 := ?d ! (unat b div 8) AND NOT (bmask (unat b))]"
  have k: "?k < 2 ^ 31" "?k \<notin> log_area (l_start (log s))"
    using bm by (simp_all add: one_bitmap_def)
  have len: "length ?d = BSIZE"
    using inv view_len by (auto simp: log_inv_def)
  obtain s1 p where r: "bread s dev ?k = Inr (s1, p)" "io_step s s1" "bc_inv me dev {p} (logged (log s)) s1" "caches dev (bufs s1 ! p) ?k"
    "b_data (bufs s1 ! p) = ?d" "view dev s1 = view dev s" "medium s1 = medium s"
    using log_read [OF inv k(1)] by blast
  obtain s2 s3 where u: "log_write (set_data s1 p ?e) p = Inr s2" "brelse s2 p = Inr s3" "log_inv me dev s3" "log s3 = log_add ?k (log s)"
    "medium s3 = medium s" "view dev s3 = (view dev s)(?k := ?e)"
    using log_update [OF inv o k r(2,3,4,6,7), of ?e] len by auto
  have "bfree s dev b = Inr s3"
    using r(1,5) u(1,2) used b BBLOCK_one [OF bm b] by (simp add: bfree_def Let_def)
  then show ?thesis
    using u(3-6) bit_free_set(2) [OF len b] by (intro exI [of _ s3]) auto
qed


text \<open>The bitmap block and the log are marked as used.\<close>

definition marked :: "u32 \<Rightarrow> 'a istate_scheme \<Rightarrow> bool" where
  "marked dev s \<longleftrightarrow> (\<forall>k\<in>insert (sb_bmapstart (sb s)) (log_area (l_start (log s))). \<not> bit_free (view dev s (sb_bmapstart (sb s))) (unat k))"

lemma balloc_found:
  assumes inv: "log_inv me dev s" and o: "1 \<le> outstanding (log s)" "lh_n (log s) < 28" and bm: "one_bitmap s" and mk: "marked dev s"
    and found: "find (bit_free (view dev s (sb_bmapstart (sb s)))) [0..<unat (sb_size (sb s))] = Some i"
  shows "\<exists>s'. balloc s dev = Inr (s', of_nat i) \<and> log_inv me dev s' \<and> log s' = log_add (of_nat i) (log_add (sb_bmapstart (sb s)) (log s)) \<and> sb s' = sb s \<and>
    medium s' = medium s \<and> i < unat (sb_size (sb s)) \<and> bit_free (view dev s (sb_bmapstart (sb s))) i \<and>
    view dev s' (of_nat i) = replicate BSIZE 0 \<and> (\<forall>k. k \<noteq> sb_bmapstart (sb s) \<and> k \<noteq> of_nat i \<longrightarrow> view dev s' k = view dev s k) \<and>
    (\<forall>j. bit_free (view dev s' (sb_bmapstart (sb s))) j \<longleftrightarrow> bit_free (view dev s (sb_bmapstart (sb s))) j \<and> j \<noteq> i)"
proof -
  let ?k = "sb_bmapstart (sb s)"
  let ?d = "view dev s ?k" and ?n = "unat (sb_size (sb s))"
  let ?e = "?d[i div 8 := ?d ! (i div 8) OR bmask i]"
  have i: "i < ?n" "bit_free ?d i" "i < BPB"
    using found bm by (auto simp: find_Some_iff one_bitmap_def)
  have k: "?k < 2 ^ 31" "?k \<notin> log_area (l_start (log s))" and n: "?n \<le> BPB"
    using bm by (simp_all add: one_bitmap_def)
  have ui: "unat (of_nat i :: u32) = i"
    using i(3) by (simp add: unat_of_nat)
  have ki: "of_nat i < (2 ^ 31 :: u32)" "of_nat i \<noteq> ?k" "of_nat i \<notin> log_area (l_start (log s))"
    using mk i(2,3) ui by (auto simp: marked_def word_less_nat_alt)
  have len: "length ?d = BSIZE"
    using inv view_len by (auto simp: log_inv_def)
  obtain s1 p where r: "bread s dev ?k = Inr (s1, p)" "io_step s s1" "bc_inv me dev {p} (logged (log s)) s1" "caches dev (bufs s1 ! p) ?k"
    "b_data (bufs s1 ! p) = ?d" "view dev s1 = view dev s" "medium s1 = medium s"
    using log_read [OF inv k(1)] by blast
  obtain s2 s3 where u: "log_write (set_data s1 p ?e) p = Inr s2" "brelse s2 p = Inr s3" "log_inv me dev s3" "log s3 = log_add ?k (log s)"
    "medium s3 = medium s" "view dev s3 = (view dev s)(?k := ?e)" "log_step s s3"
    using log_update [OF inv o(1) _ k r(2,3,4,6,7), of ?e] len o(2) by auto
  obtain s4 where z: "bzero s3 dev (of_nat i) = Inr s4" "log_inv me dev s4" "log s4 = log_add (of_nat i) (log s3)" "medium s4 = medium s3"
    "view dev s4 = (view dev s3)(of_nat i := replicate BSIZE 0)" "log_step s3 s4"
    using bzero_ok [OF u(3), of "of_nat i"] o ki u(4) log_add_n [of ?k "log s"] by auto
  have sb1: "sb s1 = sb s" "sb s4 = sb s"
    using io_step_log_step(2) [OF r(2)] log_step_trans [OF u(7) z(6)] by (simp_all add: log_step_sb)
  have "balloc s dev = balloc_loop (Suc 0) s dev 0"
  proof -
    have "(?n + (BPB - 1)) div BPB = Suc 0"
      using i(1) n by (intro div_nat_eqI) simp_all
    then show ?thesis
      by (simp only: balloc_def)
  qed
  also have "\<dots> = Inr (s4, of_nat i)"
    using r(1,5) found u(1,2) z(1) min_absorb2 [OF n] sb1(1) BBLOCK_one [OF bm, of 0] by (simp add: Let_def)
  finally show ?thesis
    using i(1,2) z(2-5) u(4-6) ki(2) sb1(2) bit_free_set(1) [OF len i(3)] by (intro exI [of _ s4]) auto
qed


lemma balloc_full:
  assumes inv: "log_inv me dev s" and bm: "one_bitmap s" and full: "find (bit_free (view dev s (sb_bmapstart (sb s)))) [0..<unat (sb_size (sb s))] = None"
    and n: "0 < unat (sb_size (sb s))"
  shows "\<exists>s'. balloc s dev = Inr (s', 0) \<and> log_inv me dev s' \<and> log s' = log s \<and> medium s' = medium s \<and> view dev s' = view dev s"
proof -
  let ?k = "sb_bmapstart (sb s)" and ?n = "unat (sb_size (sb s))"
  have k: "?k < 2 ^ 31" and n': "?n \<le> BPB"
    using bm by (simp_all add: one_bitmap_def)
  obtain s1 p where r: "bread s dev ?k = Inr (s1, p)" "io_step s s1" "bc_inv me dev {p} (logged (log s)) s1" "caches dev (bufs s1 ! p) ?k"
    "b_data (bufs s1 ! p) = view dev s ?k" "view dev s1 = view dev s" "medium s1 = medium s"
    using log_read [OF inv k] by blast
  obtain s2 where e: "brelse s1 p = Inr s2" "log_inv me dev s2" "log s2 = log s" "view dev s2 = view dev s" "medium s2 = medium s"
    using log_release [OF inv r(2-7)] by blast
  have "sb s1 = sb s"
    using io_step_log_step(2) [OF r(2)] by (rule log_step_sb)
  then have "balloc_loop (Suc 0) s dev 0 = Inr (s2, 0)"
    using r(1,5) full e(1) min_absorb2 [OF n'] BBLOCK_one [OF bm, of 0] by (simp add: Let_def)
  moreover have "(?n + (BPB - 1)) div BPB = Suc 0"
    using n n' by (intro div_nat_eqI) simp_all
  ultimately show ?thesis
    using e(2-5) by (intro exI [of _ s2]) (simp only: balloc_def simp_thms)
qed

section \<open>Transactions\<close>

text \<open>An operation that zeroes some blocks.\<close>

fun bzero_all :: "'a lstate_scheme \<Rightarrow> u32 \<Rightarrow> u32 list \<Rightarrow> fault + 'a lstate_scheme" where
  "bzero_all s dev [] = Inr s"
| "bzero_all s dev (k # ks) = bindr (bzero s dev k) (\<lambda>s1. bzero_all s1 dev ks)"

definition data_block :: "u32 \<Rightarrow> u32 \<Rightarrow> bool" where
  "data_block start k \<longleftrightarrow> k < 2 ^ 31 \<and> k \<notin> log_area start"

lemma log_add_same: "k \<notin> logged l \<Longrightarrow> lh_n (log_add k l) = Suc (lh_n l)"
  by (simp add: log_add_def)

lemma bzero_all_ok:
  assumes "\<forall>k\<in>set ks. data_block start k"
  shows "log_inv me dev s \<Longrightarrow> l_start (log s) = start \<Longrightarrow> 1 \<le> outstanding (log s) \<Longrightarrow> lh_n (log s) + length ks \<le> 29 \<Longrightarrow>
    \<exists>s'. bzero_all s dev ks = Inr s' \<and> log_inv me dev s' \<and> medium s' = medium s \<and> outstanding (log s') = outstanding (log s) \<and>
      committing (log s') = committing (log s) \<and> l_start (log s') = start \<and> logged (log s') = logged (log s) \<union> set ks \<and>
      (distinct ks \<and> logged (log s) \<inter> set ks = {} \<longrightarrow> lh_n (log s') = lh_n (log s) + length ks) \<and>
      (\<forall>k. view dev s' k = (if k \<in> set ks then replicate BSIZE 0 else view dev s k))"
  using assms
proof (induction ks arbitrary: s)
  case Nil
  then show ?case by simp
next
  case (Cons k ks)
  have k: "k < 2 ^ 31" "k \<notin> log_area (l_start (log s))"
    using Cons.prems by (auto simp: data_block_def)
  have n: "lh_n (log s) < 29"
    using Cons.prems(4) by simp
  obtain s1 where s1: "bzero s dev k = Inr s1" "log_inv me dev s1" "log s1 = log_add k (log s)" "medium s1 = medium s"
    "view dev s1 = (view dev s)(k := replicate BSIZE 0)"
    using bzero_ok [OF Cons.prems(1,3) n k] by blast
  have lg: "logged (log s1) = insert k (logged (log s))"
    using log_add_ok(2) [of dev, OF _ n k] Cons.prems(1) s1(3) by (simp add: log_inv_def)
  have le: "lh_n (log s1) + length ks \<le> 29"
    using log_add_n [of k "log s"] s1(3) Cons.prems(4) by simp
  obtain s2 where s2: "bzero_all s1 dev ks = Inr s2" "log_inv me dev s2" "medium s2 = medium s1" "outstanding (log s2) = outstanding (log s1)"
    "committing (log s2) = committing (log s1)" "l_start (log s2) = start" "logged (log s2) = logged (log s1) \<union> set ks"
    "distinct ks \<and> logged (log s1) \<inter> set ks = {} \<longrightarrow> lh_n (log s2) = lh_n (log s1) + length ks"
    "\<forall>j. view dev s2 j = (if j \<in> set ks then replicate BSIZE 0 else view dev s1 j)"
    using Cons.IH [OF s1(2) _ _ le] s1(3) Cons.prems(2,3,5) by auto
  have "lh_n (log s2) = lh_n (log s) + length (k # ks)" if "distinct (k # ks) \<and> logged (log s) \<inter> set (k # ks) = {}"
    using that s2(8) lg s1(3) log_add_same [of k "log s"] by auto
  then show ?case
    using s1 s2 lg by (intro exI [of _ s2]) (auto simp: fun_eq_iff)
qed

definition log_idle :: "logst \<Rightarrow> bool" where
  "log_idle l \<longleftrightarrow> lh_n l = 0 \<and> outstanding l = 0 \<and> committing l = 0"

lemma log_inv_cpu: "log_inv me dev s \<Longrightarrow> cpu_ok (hart s)" "log_inv me dev s \<Longrightarrow> log_wf dev (log s)"
  using bc_invD(10) by (auto simp: log_inv_def)

lemma begin_op_inv:
  assumes "log_inv me dev s" and "committing (log s) = 0" and "int (lh_n (log s)) + (outstanding (log s) + 1) * MAXOPBLOCKS \<le> LOGSIZE"
  shows "\<exists>s'. begin_op s = Inr s' \<and> log_inv me dev s' \<and> log s' = (log s)\<lparr>outstanding := outstanding (log s) + 1\<rparr> \<and> medium s' = medium s \<and> view dev s' = view dev s"
proof -
  let ?l = "(log s)\<lparr>outstanding := outstanding (log s) + 1\<rparr>"
  have "log_wf dev ?l" "logged ?l = logged (log s)"
    using log_inv_cpu(2) [OF assms(1)] by (simp_all add: log_wf_def logged_def)
  then show ?thesis
    using begin_op_ok [OF log_inv_cpu(2,1) [OF assms(1)] assms(2,3)] log_inv_upd [OF assms(1), of "settle (hart s)" ?l] log_inv_cpu(1) [OF assms(1)] by simp
qed

lemma log_write_full:
  assumes "lk_free (l_lock (log s))" and "lh_n (log s) = 29" and "l_size (log s) = LOGSIZE"
  shows "log_write s b = Inl (Panic ''too big a transaction'')"
  using acquire_log_ok [OF assms(1)] assms(2,3) by (simp add: log_write_def Let_def)

lemma bzero_full:
  assumes inv: "log_inv me dev s" and n: "lh_n (log s) = 29" and k: "k < 2 ^ 31"
  shows "bzero s dev k = Inl (Panic ''too big a transaction'')"
proof -
  obtain s1 b where r: "bread s dev k = Inr (s1, b)" "io_step s s1" "bc_inv me dev {b} (logged (log s)) s1"
    using log_read [OF inv k] by blast
  have "io_step s1 (set_data s1 b (replicate BSIZE 0))"
    using fill_ok(3) [OF r(3)] unfolding set_data_def by simp
  then have "log (set_data s1 b (replicate BSIZE 0)) = log s"
    using r(2) by simp
  then have "log_write (set_data s1 b (replicate BSIZE 0)) b = Inl (Panic ''too big a transaction'')"
    using inv n by (intro log_write_full) (simp_all add: log_inv_def log_wf_def)
  then show ?thesis
    using r(1) by (simp add: bzero_def)
qed


end
