(* ===== verification/Crash.thy ===== *)
theory Crash
  imports Fs_thms
begin

text \<open>
  What a crash can do: the recovery of the log, the atomicity of a commit and of a whole operation of the
  file system, the number of blocks the log holds, and allocation of blocks in a transaction, each on
  a machine after boot.
\<close>

section \<open>A machine after boot\<close>

definition boot_buf :: bufr where
  "boot_buf = \<lparr>b_valid = 0, b_disk = 0, b_dev = 0, b_blockno = 0, b_lock = \<lparr>sl_locked = 0, sl_lk = \<lparr>locked = 0, lk_name = '''', lk_cpu = None\<rparr>, sl_name = '''', sl_pid = 0\<rparr>,
     b_refcnt = 0, b_prev = 0, b_next = 0, b_data = replicate 1024 0\<rparr>"

definition boot_vdisk :: vdisk where
  "boot_vdisk = \<lparr>desc = replicate 8 null_desc, avail_idx = 0, avail_ring = replicate 8 0, dev_used_idx = 0, used_ring = replicate 8 0, dfree = replicate 8 True,
     used_idx = 0, info = replicate 8 \<lparr>i_b = None, i_status = 0\<rparr>, ops = replicate 8 \<lparr>r_type = 0, r_reserved = 0, r_sector = 0\<rparr>,
     vdisk_lock = \<lparr>locked = 0, lk_name = ''virtio_disk'', lk_cpu = None\<rparr>\<rparr>"

definition boot_raw :: "medium \<Rightarrow> istate" where
  "boot_raw m = lstate.extend (bstate.extend (tstate.extend (pstate.extend (blank_pstate\<lparr>curproc := Some 0\<rparr>)
     (tstate.fields 0 \<lparr>locked = 0, lk_name = ''time'', lk_cpu = None\<rparr>))
     (bstate.fields m disk_dev boot_vdisk \<lparr>locked = 0, lk_name = '''', lk_cpu = None\<rparr> (replicate 31 boot_buf)))
     (lstate.fields \<lparr>l_lock = \<lparr>locked = 0, lk_name = ''log'', lk_cpu = None\<rparr>, l_start = 2, l_size = 30, outstanding = 0, committing = 0, l_dev = 1, lh_n = 0, lh_block = replicate 30 0\<rparr>))
     (istate.fields \<lparr>sb_magic = FSMAGIC, sb_size = 2000, sb_nblocks = 1954, sb_ninodes = 200, sb_nlog = 30, sb_logstart = 2, sb_inodestart = 32, sb_bmapstart = 45\<rparr>
       \<lparr>locked = 0, lk_name = ''itable'', lk_cpu = None\<rparr> [])"


lemma boot_raw_fields [simp]:
  "procs (boot_raw m) = replicate 64 blank_proc" "curproc (boot_raw m) = Some 0" "hart (boot_raw m) = \<lparr>hartid = 0, noff = 0, intena = 0, sie = True\<rparr>"
  "medium (boot_raw m) = m" "dev_io (boot_raw m) = disk_dev" "vdisk (boot_raw m) = boot_vdisk" "bufs (boot_raw m) = replicate 31 boot_buf"
  "log (boot_raw m) = \<lparr>l_lock = \<lparr>locked = 0, lk_name = ''log'', lk_cpu = None\<rparr>, l_start = 2, l_size = 30, outstanding = 0, committing = 0, l_dev = 1, lh_n = 0, lh_block = replicate 30 0\<rparr>"
  "sb_bmapstart (sb (boot_raw m)) = 45" "sb_size (sb (boot_raw m)) = 2000"
  by (simp_all add: boot_raw_def pstate.defs tstate.defs bstate.defs lstate.defs istate.defs blank_pstate_def)

definition boot_state :: "medium \<Rightarrow> istate" where
  "boot_state m = binit (boot_raw m)"

lemma boot_state_fields [simp]:
  "medium (boot_state m) = m" "log (boot_state m) = log (boot_raw m)" "sb (boot_state m) = sb (boot_raw m)"
  by (simp_all add: boot_state_def binit_def Let_def)

lemma boot_inv: "blocks_ok m \<Longrightarrow> bc_inv 0 1 {} {} (boot_state m)"
  unfolding boot_state_def
proof (rule binit_inv)
  show "idle_procs (boot_raw m)"
    by (simp add: idle_procs_def blank_proc_def lk_free_def cpu_ok_def)
  show "vd_idle (vdisk (boot_raw m))"
    by (simp add: vd_idle_def boot_vdisk_def lk_free_def)
  show "\<forall>i<NBUF. zero_buf (bufs (boot_raw m) ! i)"
    by (simp add: zero_buf_def boot_buf_def nth_replicate del: replicate.simps)
qed (simp_all add: disk_dev_ok blocks_ok_def)


lemma boot_log_inv: "blocks_ok m \<Longrightarrow> disk_at m (sector_of 2) = replicate BSIZE 0 \<Longrightarrow> log_inv 0 1 (boot_state m)" "log_idle (log (boot_state m))"
  using boot_inv [of m] by (simp_all add: log_inv_def log_wf_def log_geom_def lk_free_def logged_def log_idle_def head_count_def log_head_def ld32_def)

lemma boot_data_block: "45 \<le> unat k \<Longrightarrow> k < 2 ^ 31 \<Longrightarrow> data_block 2 k"
  by (auto simp: data_block_def log_area_def)

text \<open>A disk whose log holds one committed block that was not yet installed.\<close>

definition crash_disk :: medium where
  "crash_disk = (sector_of 2, head_block (replicate BSIZE 0) [100] 1) # log_writes 2 (\<lambda>_. replicate BSIZE 7) 1 @ []"

lemma crash_geom: "log_geom 2 [100] 1"
  by (simp add: log_geom_def log_area_def)

lemma crash_disk_facts:
  "disk_wf 2 crash_disk" "recovered 2 crash_disk 100 = replicate BSIZE 7" "blocks_ok crash_disk"
proof -
  have h: "length (replicate BSIZE (0 :: u8)) = BSIZE"
    by (rule length_replicate)
  note R = recovered_after [OF crash_geom h, where c = "\<lambda>_. replicate BSIZE 7" and m = "[]"]
  show "disk_wf 2 crash_disk" "recovered 2 crash_disk 100 = replicate BSIZE 7"
    using R(1) R(5) [of 0] by (simp_all add: crash_disk_def)
  show "blocks_ok crash_disk"
    using head_block_props(1) [OF h, of 1] by (simp add: crash_disk_def blocks_ok_def log_writes_def)
qed

text \<open>A disk with a bitmap that marks the first 48 blocks.\<close>

definition bitmap_disk :: medium where
  "bitmap_disk = [(sector_of 45, replicate 6 0xff @ replicate 1018 0)]"

section \<open>Properties\<close>

text \<open>
  C27 (functional). Recovery: from any disk whose log is well formed, \<open>initlog\<close> at boot returns with an empty
  log, every block then holds what the log on the disk says (\<open>recovered\<close>), and this stays so when the
  machine crashes again after any number of the writes of the recovery.
\<close>

theorem initlog_recovers:
  assumes "bc_inv me dev {} {} s" and "disk_wf start (medium s)"
  shows "\<exists>s' W. initlog s dev start nlog = Inr s' \<and> medium s' = W @ medium s \<and> head_count (log_head start (medium s')) = 0 \<and>
    (\<forall>k<2 ^ 31. k \<noteq> start \<longrightarrow> view dev s' k = recovered start (medium s) k) \<and>
    (\<forall>V U. W = V @ U \<longrightarrow> disk_wf start (U @ medium s) \<and> (\<forall>k<2 ^ 31. k \<noteq> start \<longrightarrow> recovered start (U @ medium s) k = recovered start (medium s) k))"
proof -
  let ?m = "medium s"
  let ?I = "install_writes (head_list (log_head start ?m)) (\<lambda>i. disk_at ?m (sector_of (slot start i))) 0 (head_count (log_head start ?m))"
  obtain s' d where r: "initlog s dev start nlog = Inr s'" "bc_inv me dev {} {} s'" "head_count d = 0" "medium s' = (sector_of start, d) # ?I @ ?m"
    using initlog_run [OF assms] by blast
  have "head_count (log_head start (medium s')) = 0"
    using r(3,4) by (simp add: log_head_def)
  moreover have "\<forall>k<2 ^ 31. k \<noteq> start \<longrightarrow> view dev s' k = recovered start ?m k"
    using initlog_view [OF assms, of nlog] r(1) by simp
  moreover have "(sector_of start, d) # ?I = V @ U \<Longrightarrow> disk_wf start (U @ ?m) \<and> (\<forall>k<2 ^ 31. k \<noteq> start \<longrightarrow> recovered start (U @ ?m) k = recovered start ?m k)" for V U
    by (rule recovery_crash [OF assms(2) r(3)])
  ultimately show ?thesis
    using r(1,4) by (intro exI [of _ s'] exI [of _ "(sector_of start, d) # ?I"]) simp
qed


theorem initlog_recovers_witness:
  "\<exists>s'. initlog (boot_state crash_disk) 1 2 30 = Inr s' \<and> view 1 s' 100 = replicate BSIZE 7"
proof -
  have "\<exists>s' W. initlog (boot_state crash_disk) 1 2 30 = Inr s' \<and> (\<forall>k<2 ^ 31. k \<noteq> 2 \<longrightarrow> view 1 s' k = recovered 2 (medium (boot_state crash_disk)) k)"
    using initlog_recovers [OF boot_inv [OF crash_disk_facts(3)], of 2 30] crash_disk_facts(1) by auto
  then show ?thesis
    using crash_disk_facts(2) by auto
qed

text \<open>
  C25 (safety). A commit is atomic: it returns with the log empty and every logged block installed, and whatever
  number of its writes reached the disk before a crash, \<open>initlog\<close> after the reboot makes the disk hold
  either everything the file system had before the transaction or everything it had written.
\<close>

theorem commit_atomic:
  assumes "log_inv me dev s" and "0 < lh_n (log s)" and start: "start = l_start (log s)"
  shows "\<exists>s' W. commit s = Inr s' \<and> medium s' = W @ medium s \<and> lh_n (log s') = 0 \<and> log_inv me dev s' \<and>
    (\<forall>k<2 ^ 31. k \<notin> log_area start \<longrightarrow> view dev s' k = view dev s k \<and> disk_at (medium s') (sector_of k) = view dev s k) \<and>
    (\<forall>V U r you nlog. W = V @ U \<longrightarrow> bc_inv you dev {} {} r \<longrightarrow> medium r = U @ medium s \<longrightarrow>
      (\<exists>r'. initlog r dev start nlog = Inr r' \<and>
        ((\<forall>k<2 ^ 31. k \<notin> log_area start \<longrightarrow> view dev r' k = disk_at (medium s) (sector_of k)) \<or>
         (\<forall>k<2 ^ 31. k \<notin> log_area start \<longrightarrow> view dev r' k = view dev s k))))"
proof -
  obtain s' W where c: "commit s = Inr s'" "medium s' = W @ medium s" "log s' = (log s)\<lparr>lh_n := 0\<rparr>" "log_inv me dev s'"
    "\<forall>k<2 ^ 31. k \<notin> log_area start \<longrightarrow> view dev s' k = view dev s k" "all_or_nothing start (medium s) (view dev s) W"
    using commit_ok [OF assms(1,2)] unfolding start by blast
  have "bc_inv me dev {} {} s'"
    using c(3,4) by (simp add: log_inv_def logged_def)
  then have "view dev s' k = disk_at (medium s') (sector_of k)" for k
    by (rule view_clean) simp
  then show ?thesis
    using c all_or_nothing_reboot by (intro exI [of _ s'] exI [of _ W]) auto
qed

lemma boot_one_logged:
  "\<exists>s1 s2. begin_op (boot_state []) = Inr s1 \<and> bzero_all s1 1 [100] = Inr s2 \<and> log_inv 0 1 s2 \<and> lh_n (log s2) = 1 \<and> l_start (log s2) = 2"
proof -
  have inv: "log_inv 0 1 (boot_state [])"
    by (rule boot_log_inv) (simp_all add: blocks_ok_def disk_at_def)
  obtain s1 where s1: "begin_op (boot_state []) = Inr s1" "log_inv 0 1 s1" "log s1 = (log (boot_state []))\<lparr>outstanding := 1\<rparr>"
    using begin_op_inv [OF inv] by auto
  have "l_start (log s1) = 2" "1 \<le> outstanding (log s1)" "lh_n (log s1) + length [100 :: u32] \<le> 29" "logged (log s1) = {}" "lh_n (log s1) = 0"
    using s1(3) by (simp_all add: logged_def)
  then show ?thesis
    using bzero_all_ok [of "[100]" 2 0 1 s1] s1(1,2) boot_data_block [of 100] by auto
qed

theorem commit_atomic_witness:
  "\<exists>s1 s2 s3. begin_op (boot_state []) = Inr s1 \<and> bzero_all s1 1 [100] = Inr s2 \<and> commit s2 = Inr s3 \<and> lh_n (log s3) = 0"
proof -
  obtain s1 s2 where s: "begin_op (boot_state []) = Inr s1" "bzero_all s1 1 [100] = Inr s2" "log_inv 0 1 s2" "lh_n (log s2) = 1" "l_start (log s2) = 2"
    using boot_one_logged by blast
  then show ?thesis
    using commit_atomic [OF s(3), of 2] by auto
qed

text \<open>
  C26 (safety). A whole system call is atomic: \<open>begin_op\<close>, the zeroing of at most \<open>MAXOPBLOCKS\<close> blocks, \<open>end_op\<close>.
  It returns with the blocks zero on the disk, and after a crash at any point and a reboot either all of
  them are zero or none has changed; no other block changes in any case.
\<close>

theorem operation_atomic:
  assumes "log_inv me dev s" and "log_idle (log s)" and "\<forall>k\<in>set ks. data_block (l_start (log s)) k" and "int (length ks) \<le> MAXOPBLOCKS"
  shows "\<exists>s1 s2 s3 W. begin_op s = Inr s1 \<and> bzero_all s1 dev ks = Inr s2 \<and> end_op s2 = Inr s3 \<and> medium s3 = W @ medium s \<and>
    (\<forall>k. data_block (l_start (log s)) k \<longrightarrow> disk_at (medium s3) (sector_of k) = (if k \<in> set ks then replicate BSIZE 0 else view dev s k)) \<and>
    (\<forall>V U r you nlog. W = V @ U \<longrightarrow> bc_inv you dev {} {} r \<longrightarrow> medium r = U @ medium s \<longrightarrow>
      (\<exists>r'. initlog r dev (l_start (log s)) nlog = Inr r' \<and>
        ((\<forall>k. data_block (l_start (log s)) k \<longrightarrow> view dev r' k = view dev s k) \<or>
         (\<forall>k. data_block (l_start (log s)) k \<longrightarrow> view dev r' k = (if k \<in> set ks then replicate BSIZE 0 else view dev s k)))))"
proof -
  let ?st = "l_start (log s)"
  have l: "lh_n (log s) = 0" "outstanding (log s) = 0" "committing (log s) = 0"
    using assms(2) by (simp_all add: log_idle_def)
  obtain s1 where s1: "begin_op s = Inr s1" "log_inv me dev s1" "log s1 = (log s)\<lparr>outstanding := outstanding (log s) + 1\<rparr>" "medium s1 = medium s" "view dev s1 = view dev s"
    using begin_op_inv [OF assms(1)] l by auto
  obtain s2 where s2: "bzero_all s1 dev ks = Inr s2" "log_inv me dev s2" "medium s2 = medium s" "outstanding (log s2) = 1" "committing (log s2) = 0" "l_start (log s2) = ?st"
    "\<forall>k. view dev s2 k = (if k \<in> set ks then replicate BSIZE 0 else view dev s k)"
  proof -
    have "l_start (log s1) = ?st" "1 \<le> outstanding (log s1)" "lh_n (log s1) + length ks \<le> 29"
      using s1(3) l assms(4) by simp_all
    then show ?thesis
      using bzero_all_ok [OF assms(3) s1(2)] s1(3,4,5) l that by fastforce
  qed
  obtain s3 W where s3: "end_op s2 = Inr s3" "medium s3 = W @ medium s" "log s3 = (log s2)\<lparr>outstanding := 0, lh_n := 0\<rparr>" "log_inv me dev s3"
    "\<forall>k<2 ^ 31. k \<notin> log_area ?st \<longrightarrow> view dev s3 k = view dev s2 k" "all_or_nothing ?st (medium s) (view dev s2) W"
    using end_op_ok [OF s2(2,4,5)] s2(3,6) by auto
  have i: "bc_inv me dev {} {} s3" "bc_inv me dev {} {} s"
    using s3(3,4) assms(1) l by (simp_all add: log_inv_def logged_def)
  have cl: "view dev s3 k = disk_at (medium s3) (sector_of k)" "view dev s k = disk_at (medium s) (sector_of k)" for k
    using view_clean [OF i(1)] view_clean [OF i(2)] by simp_all
  have "disk_at (medium s3) (sector_of k) = (if k \<in> set ks then replicate BSIZE 0 else view dev s k)" if "data_block ?st k" for k
    using cl(1) [of k] s3(5) s2(7) that by (simp add: data_block_def)
  moreover have "\<exists>r'. initlog r dev ?st nlog = Inr r' \<and> ((\<forall>k. data_block ?st k \<longrightarrow> view dev r' k = view dev s k) \<or>
         (\<forall>k. data_block ?st k \<longrightarrow> view dev r' k = (if k \<in> set ks then replicate BSIZE 0 else view dev s k)))"
    if "W = V @ U" "bc_inv you dev {} {} r" "medium r = U @ medium s" for V U r you nlog
    using all_or_nothing_reboot [OF s3(6) [unfolded that(1)] that(2,3), of nlog] cl(2) s2(7) by (auto simp: data_block_def)
  ultimately show ?thesis
    using s1(1) s2(1) s3(1,2) by blast
qed


theorem operation_atomic_witness:
  "\<exists>s1 s2 s3. begin_op (boot_state []) = Inr s1 \<and> bzero_all s1 1 [100, 101] = Inr s2 \<and> end_op s2 = Inr s3 \<and>
    disk_at (medium s3) (sector_of 101) = replicate BSIZE 0"
proof -
  have "log_inv 0 1 (boot_state [])"
    by (rule boot_log_inv) (simp_all add: blocks_ok_def disk_at_def)
  moreover have "\<forall>k\<in>set [100, 101]. data_block (l_start (log (boot_state []))) k"
    using boot_data_block [of 100] boot_data_block [of 101] by simp
  ultimately show ?thesis
    using operation_atomic [of 0 1 "boot_state []" "[100, 101]"] boot_log_inv(2) by fastforce
qed

text \<open>
  C31 (bounds). The log holds 29 blocks, one fewer than three operations may write: on an idle log three \<open>begin_op\<close>
  calls are admitted, which reserve \<open>3 * MAXOPBLOCKS = LOGSIZE\<close> blocks, 29 different blocks can be
  recorded, and the thirtieth makes \<open>log_write\<close> panic.
\<close>

theorem log_reservation_overflow:
  assumes "log_inv me dev s" and "log_idle (log s)" and "distinct ks" and "length ks = 29" and "\<forall>j\<in>set (k # ks). data_block (l_start (log s)) j"
  shows "\<exists>s1 s2 s3 s4. begin_op s = Inr s1 \<and> begin_op s1 = Inr s2 \<and> begin_op s2 = Inr s3 \<and>
    outstanding (log s3) * MAXOPBLOCKS = LOGSIZE \<and> bzero_all s3 dev ks = Inr s4 \<and> bzero s4 dev k = Inl (Panic ''too big a transaction'')"
proof -
  have l: "lh_n (log s) = 0" "outstanding (log s) = 0" "committing (log s) = 0"
    using assms(2) by (simp_all add: log_idle_def)
  obtain s1 where s1: "begin_op s = Inr s1" "log_inv me dev s1" "log s1 = (log s)\<lparr>outstanding := 1\<rparr>"
    using begin_op_inv [OF assms(1)] l by auto
  obtain s2 where s2: "begin_op s1 = Inr s2" "log_inv me dev s2" "log s2 = (log s)\<lparr>outstanding := 2\<rparr>"
    using begin_op_inv [OF s1(2)] l s1(3) by auto
  obtain s3 where s3: "begin_op s2 = Inr s3" "log_inv me dev s3" "log s3 = (log s)\<lparr>outstanding := 3\<rparr>"
    using begin_op_inv [OF s2(2)] l s2(3) by auto
  have "l_start (log s3) = l_start (log s)" "1 \<le> outstanding (log s3)" "lh_n (log s3) + length ks \<le> 29" "logged (log s3) \<inter> set ks = {}"
    using s3(3) l assms(4) by (simp_all add: logged_def)
  then obtain s4 where s4: "bzero_all s3 dev ks = Inr s4" "log_inv me dev s4" "lh_n (log s4) = lh_n (log s3) + 29"
    using bzero_all_ok [of ks "l_start (log s)" me dev s3] s3(2) assms(3,4,5) by auto
  have "bzero s4 dev k = Inl (Panic ''too big a transaction'')"
    using bzero_full [OF s4(2)] s4(3) s3(3) l assms(5) by (simp add: data_block_def)
  then show ?thesis
    using s1(1) s2(1) s3(1,3) s4(1) by auto
qed

theorem log_reservation_overflow_witness:
  "\<exists>s1 s2 s3 s4. begin_op (boot_state []) = Inr s1 \<and> begin_op s1 = Inr s2 \<and> begin_op s2 = Inr s3 \<and>
    bzero_all s3 1 (map of_nat [100..<129]) = Inr s4 \<and> bzero s4 1 200 = Inl (Panic ''too big a transaction'')"
proof -
  let ?ks = "map of_nat [100..<129] :: u32 list"
  have "log_inv 0 1 (boot_state [])"
    by (rule boot_log_inv) (simp_all add: blocks_ok_def disk_at_def)
  moreover have "\<forall>j\<in>set (200 # ?ks). data_block (l_start (log (boot_state []))) j"
    using boot_data_block by (auto simp: unat_of_nat word_less_nat_alt)
  moreover have "distinct ?ks" "length ?ks = 29"
    by (simp_all add: distinct_map inj_on_def word_unat_eq_iff unat_of_nat)
  ultimately show ?thesis
    using log_reservation_overflow [of 0 1 "boot_state []" ?ks 200] boot_log_inv(2) by blast
qed

text \<open>
  C30 (roundtrip). Allocating a block in a transaction gives the first block whose bit is clear, zeroed and marked, with
  every other bit and every other block as before; freeing it again restores the bitmap. With no
  clear bit \<open>balloc\<close> returns 0 and changes nothing.
\<close>

theorem balloc_bfree:
  assumes "log_inv me dev s" and "1 \<le> outstanding (log s)" and "lh_n (log s) \<le> 26" and "one_bitmap s" and "marked dev s" and "0 < unat (sb_size (sb s))"
  shows "case find (bit_free (view dev s (sb_bmapstart (sb s)))) [0..<unat (sb_size (sb s))] of
      None \<Rightarrow> \<exists>s'. balloc s dev = Inr (s', 0) \<and> log s' = log s \<and> view dev s' = view dev s
    | Some i \<Rightarrow> \<exists>s' s''. balloc s dev = Inr (s', of_nat i) \<and> view dev s' (of_nat i) = replicate BSIZE 0 \<and>
        (\<forall>j. bit_free (view dev s' (sb_bmapstart (sb s))) j \<longleftrightarrow> bit_free (view dev s (sb_bmapstart (sb s))) j \<and> j \<noteq> i) \<and>
        (\<forall>k. k \<noteq> sb_bmapstart (sb s) \<and> k \<noteq> of_nat i \<longrightarrow> view dev s' k = view dev s k) \<and>
        bfree s' dev (of_nat i) = Inr s'' \<and> medium s'' = medium s \<and>
        (\<forall>j. bit_free (view dev s'' (sb_bmapstart (sb s))) j \<longleftrightarrow> bit_free (view dev s (sb_bmapstart (sb s))) j) \<and>
        (\<forall>k. k \<noteq> sb_bmapstart (sb s) \<and> k \<noteq> of_nat i \<longrightarrow> view dev s'' k = view dev s k)"
proof (cases "find (bit_free (view dev s (sb_bmapstart (sb s)))) [0..<unat (sb_size (sb s))]")
  case None
  then show ?thesis
    using balloc_full [OF assms(1,4) None assms(6)] by auto
next
  case (Some i)
  let ?k = "sb_bmapstart (sb s)"
  obtain s' where a: "balloc s dev = Inr (s', of_nat i)" "log_inv me dev s'" "log s' = log_add (of_nat i) (log_add ?k (log s))" "sb s' = sb s"
    "medium s' = medium s" "i < unat (sb_size (sb s))" "bit_free (view dev s ?k) i" "view dev s' (of_nat i) = replicate BSIZE 0"
    "\<forall>k. k \<noteq> ?k \<and> k \<noteq> of_nat i \<longrightarrow> view dev s' k = view dev s k" "\<forall>j. bit_free (view dev s' ?k) j \<longleftrightarrow> bit_free (view dev s ?k) j \<and> j \<noteq> i"
    using balloc_found [OF assms(1,2) _ assms(4,5) Some] assms(3) by auto
  have i: "i < BPB" "unat (of_nat i :: u32) = i"
    using a(6) assms(4) by (simp_all add: one_bitmap_def unat_of_nat)
  have "one_bitmap s'"
    using assms(4) a(3,4) by (simp add: one_bitmap_def)
  moreover have "lh_n (log s') < 29"
    using a(3) log_add_n [of "of_nat i" "log_add ?k (log s)"] log_add_n [of ?k "log s"] assms(3) by simp
  ultimately obtain s'' where "bfree s' dev (of_nat i) = Inr s''" "medium s'' = medium s'"
    "\<forall>k. k \<noteq> ?k \<longrightarrow> view dev s'' k = view dev s' k" "\<forall>j. bit_free (view dev s'' ?k) j \<longleftrightarrow> bit_free (view dev s' ?k) j \<or> j = i"
    using bfree_ok [OF a(2), of "of_nat i"] assms(2) a(3,4,10) i by auto
  then show ?thesis
    using Some a by auto
qed

lemma bitmap_bits: "bit_free (replicate 6 0xff @ replicate 1018 0) i \<longleftrightarrow> 48 \<le> i" if "i < 2000"
proof -
  have ff: "(0xff :: u8) = -1" by simp
  have "bit ((replicate 6 (- 1) @ replicate 1018 0) ! (i div 8) :: u8) (i mod 8) \<longleftrightarrow> i < 48"
    using that by (auto simp: nth_append bit_minus_1_iff)
  then show ?thesis
    unfolding bit_free_bit ff by auto
qed

lemma bitmap_boot:
  "\<exists>s1. begin_op (boot_state bitmap_disk) = Inr s1 \<and> log_inv 0 1 s1 \<and> log s1 = (log (boot_state []))\<lparr>outstanding := 1\<rparr> \<and> sb s1 = sb (boot_raw bitmap_disk) \<and>
    view 1 s1 45 = replicate 6 0xff @ replicate 1018 0"
proof -
  let ?b = "boot_state bitmap_disk"
  have ok: "blocks_ok bitmap_disk"
    by (simp add: bitmap_disk_def blocks_ok_def)
  have "disk_at bitmap_disk (sector_of 2) = replicate BSIZE 0"
    using sector_inj [of 2 45] by (simp add: bitmap_disk_def disk_at_def)
  then have inv: "log_inv 0 1 ?b"
    by (rule boot_log_inv(1) [OF ok])
  have "view 1 ?b 45 = replicate 6 0xff @ replicate 1018 0"
    using view_clean [OF boot_inv [OF ok], of 45] by (simp add: bitmap_disk_def disk_at_def)
  moreover have "begin_op ?b = Inr (?b\<lparr>hart := settle (hart ?b), log := (log ?b)\<lparr>outstanding := outstanding (log ?b) + 1\<rparr>\<rparr>)"
    by (rule begin_op_ok [OF log_inv_cpu(2,1) [OF inv]]) simp_all
  moreover obtain s1 where "begin_op ?b = Inr s1" "log_inv 0 1 s1" "view 1 s1 = view 1 ?b"
    using begin_op_inv [OF inv] by auto
  ultimately show ?thesis
    by (intro exI [of _ s1]) auto
qed

theorem balloc_bfree_witness:
  "\<exists>s1 s2 s3. begin_op (boot_state bitmap_disk) = Inr s1 \<and> balloc s1 1 = Inr (s2, 48) \<and> bfree s2 1 48 = Inr s3"
proof -
  obtain s1 where s1: "begin_op (boot_state bitmap_disk) = Inr s1" "log_inv 0 1 s1" "log s1 = (log (boot_state []))\<lparr>outstanding := 1\<rparr>"
    "sb s1 = sb (boot_raw bitmap_disk)" "view 1 s1 45 = replicate 6 0xff @ replicate 1018 0"
    using bitmap_boot by blast
  have one: "one_bitmap s1"
    using s1(3,4) by (simp add: one_bitmap_def log_area_def)
  have mk: "marked 1 s1"
    using bitmap_bits s1(3,4,5) by (auto simp: marked_def log_area_def)
  have "find (bit_free (view 1 s1 45)) [0..<2000] = Some 48"
    unfolding find_Some_iff s1(5) using bitmap_bits by (intro exI [of _ 48]) (auto simp del: upt_rec_numeral)
  then show ?thesis
    using balloc_bfree [OF s1(2) _ _ one mk] s1(1,3,4) by (auto simp del: upt_rec_numeral)
qed

end
