(* ===== verification/Cache.thy ===== *)
theory Cache
  imports Crash
begin

text \<open>
  Properties of the disk driver and of the buffer cache, with the machine after boot as the example.
\<close>

text \<open>
  C32 (functional). With the disk idle, \<open>virtio_disk_rw\<close> transfers the block: what the device answered is the new
  medium and the new data of the buffer, every descriptor is free again, the locks are free, and nothing
  else changes but the states of woken processes. A status other than 0 is the driver's panic.
\<close>

theorem virtio_disk_rw_completes:
  assumes "idle_procs s" and "vd_idle (vdisk s)" and "b < length (bufs s)"
    and "dev_io s (medium s) (rw_type write) (sector_of (b_blockno (bufs s ! b))) (b_data (bufs s ! b)) = (m, data, st)"
  shows "if st \<noteq> 0 then virtio_disk_rw s b write = Inl (Panic ''virtio_disk_intr status'')
    else \<exists>ps d. virtio_disk_rw s b write = Inr (s\<lparr>hart := settle (hart s), procs := ps, medium := m, vdisk := d,
        bufs := (bufs s)[b := (bufs s ! b)\<lparr>b_data := data, b_disk := 0\<rparr>]\<rparr>) \<and> woken (procs s) ps \<and> vd_idle d"
  by (rule virtio_disk_rw_ok [OF assms])

theorem virtio_disk_rw_completes_witness:
  "\<exists>s'. virtio_disk_rw (boot_raw crash_disk) 0 True = Inr s' \<and> medium s' = (sector_of 0, replicate 1024 0) # crash_disk"
proof -
  have "idle_procs (boot_raw crash_disk)" "vd_idle (vdisk (boot_raw crash_disk))"
    by (simp_all add: idle_procs_def blank_proc_def lk_free_def cpu_ok_def vd_idle_def boot_vdisk_def)
  then show ?thesis
    using virtio_disk_rw_completes [of "boot_raw crash_disk" 0 True "(sector_of 0, replicate 1024 0) # crash_disk" "replicate 1024 0" 0]
    by (auto simp: disk_dev_def rw_type_def boot_buf_def)
qed

text \<open>
  C29 (functional). On a well-formed list both walks of \<open>bget\<close> end within \<open>NBUF + 1\<close> steps: it takes the
  buffer that caches the block, else the least recently used buffer with no references, and panics
  exactly when there is neither.
\<close>

theorem bget_searches_lru:
  assumes "lru (bufs s) L" and "cpu_ok (hart s)" and "lk_free (bc_lock s)"
  shows "bget s dev n =
    (case find (\<lambda>b. caches dev (bufs s ! b) n) L of
       Some b \<Rightarrow> bindr (acquiresleep_buf (s\<lparr>hart := settle (hart s), bufs := (bufs s)[b := (bufs s ! b)\<lparr>b_refcnt := b_refcnt (bufs s ! b) + 1\<rparr>]\<rparr>) b)
                   (\<lambda>t. Inr (t, b))
     | None \<Rightarrow>
         (case find (\<lambda>b. b_refcnt (bufs s ! b) = 0) (rev L) of
            Some b \<Rightarrow> bindr (acquiresleep_buf (s\<lparr>hart := settle (hart s),
                bufs := (bufs s)[b := (bufs s ! b)\<lparr>b_dev := dev, b_blockno := n, b_valid := 0, b_refcnt := 1\<rparr>]\<rparr>) b) (\<lambda>t. Inr (t, b))
          | None \<Rightarrow> Inl (Panic ''bget: no buffers'')))"
proof -
  obtain s1 where s1: "acquire_bcache s = Inr s1" "bufs s1 = bufs s"
    "\<And>f. release_bcache (s1\<lparr>bufs := f\<rparr>) = Inr (s\<lparr>hart := settle (hart s), bufs := f\<rparr>)"
    using bcache_lock_ok [OF assms(2,3)] by blast
  have f: "find_cached (NBUF + 1) (bufs s1) (b_next (bufs s1 ! NBUF)) dev n = Inr (find (\<lambda>b. caches dev (bufs s ! b) n) L)"
    "find_unused_buf (NBUF + 1) (bufs s1) (b_prev (bufs s1 ! NBUF)) = Inr (find (\<lambda>b. b_refcnt (bufs s ! b) = 0) (rev L))"
    using lru_find [OF assms(1)] by (simp_all only: s1(2) caches_def)
  show ?thesis
    using f by (auto simp: bget_def s1 upd_buf_def split: option.split)
qed

theorem bget_searches_lru_witness:
  "\<exists>b. bget (boot_state []) 1 7 = bindr (acquiresleep_buf ((boot_state [])\<lparr>hart := settle (hart (boot_state [])),
      bufs := (bufs (boot_state []))[b := (bufs (boot_state []) ! b)\<lparr>b_dev := 1, b_blockno := 7, b_valid := 0, b_refcnt := 1\<rparr>]\<rparr>) b) (\<lambda>t. Inr (t, b))"
proof -
  let ?s = "boot_state []"
  have z: "zero_buf (bufs ?s ! i)" if "i < NBUF" for i
    using unlinkedD [OF binit_lru(2) [of "boot_raw []", OF _ that]] that by (simp add: boot_state_def zero_buf_def boot_buf_def)
  have L: "lru (bufs ?s) (rev [0..<NBUF])"
    using binit_lru(1) [of "boot_raw []"] by (simp add: boot_state_def)
  have none: "find (\<lambda>b. caches 1 (bufs ?s ! b) 7) (rev [0..<NBUF]) = None"
    using z by (auto simp: find_None_iff caches_def zero_buf_def)
  obtain b where b: "find (\<lambda>b. b_refcnt (bufs ?s ! b) = 0) (rev (rev [0..<NBUF])) = Some b"
    using z [of 0] by (cases "find (\<lambda>b. b_refcnt (bufs ?s ! b) = 0) (rev (rev [0..<NBUF]))") (auto simp: find_None_iff zero_buf_def)
  have "cpu_ok (hart ?s)" "lk_free (bc_lock ?s)"
    using bc_invD(5,10) [OF boot_inv [of "[]"]] by (simp_all add: blocks_ok_def)
  then show ?thesis
    using bget_searches_lru [OF L, of 1 7] none b by auto
qed

text \<open>
  The list of the cache is a least-recently-used order: \<open>binit\<close> makes the list of all
  buffers, and \<open>brelse\<close> of the last reference moves the buffer to the front and keeps the order of the
  others.
\<close>

lemma brelse_lru_order:
  assumes "bc_inv me dev H P s" and "b \<in> H" and "lru (bufs s) L"
  shows "lru (bufs (binit s)) (rev [0..<NBUF]) \<and> (\<exists>t. brelse s b = Inr t \<and> lru (bufs t) (if b_refcnt (bufs s ! b) = 1 then b # remove1 b L else L))"
  using brelse_run [OF assms(1,2)] brelse_bufs_lru [OF assms(3) heldD(1) [OF assms(1,2)]] binit_lru(1) [OF bc_invD(9) [OF assms(1)]] by auto

lemma brelse_lru_order_witness:
  "\<exists>t b u L. bread (boot_state []) 1 7 = Inr (t, b) \<and> brelse t b = Inr u \<and> lru (bufs u) (b # L)"
proof -
  have inv: "bc_inv 0 1 {} {} (boot_state [])"
    by (rule boot_inv) (simp add: blocks_ok_def)
  obtain t b where t: "bread (boot_state []) 1 7 = Inr (t, b)" "bc_inv 0 1 {b} {} t"
    using bread_ok [OF inv, of 7] by auto
  obtain L where L: "lru (bufs t) L"
    using bc_invD(12) [OF t(2)] by blast
  have "b_refcnt (bufs t ! b) = 1"
    using bc_invD(13) [OF t(2) heldD(1) [OF t(2)], of b] by (simp add: buf_ok_def)
  then show ?thesis
    using brelse_lru_order [OF t(2) _ L, of b] t(1) by auto
qed

text \<open>
  C28 (refinement). The cache and the disk are two views of blocks. \<open>bread\<close> returns the first and
  changes neither; storing into a held buffer changes the first at that block; \<open>bwrite\<close> copies that block to
  the second; \<open>brelse\<close>, of a block that is pinned or has been written, changes neither.
\<close>

theorem cache_refines_disk:
  assumes inv: "bc_inv me dev H P s" and "finite P"
  shows "(n < 2 ^ 31 \<and> (\<forall>i\<in>H. b_blockno (bufs s ! i) \<noteq> n) \<and> card H + card P < NBUF \<longrightarrow>
      (\<exists>t b. bread s dev n = Inr (t, b) \<and> bc_inv me dev (insert b H) P t \<and> b \<notin> H \<and> b_blockno (bufs t ! b) = n \<and>
        b_data (bufs t ! b) = view dev s n \<and> view dev t = view dev s \<and> medium t = medium s)) \<and>
    (b \<in> H \<and> length x = BSIZE \<longrightarrow>
      bc_inv me dev H P (set_data s b x) \<and> view dev (set_data s b x) = (view dev s)(b_blockno (bufs s ! b) := x) \<and> medium (set_data s b x) = medium s) \<and>
    (b \<in> H \<longrightarrow> (\<exists>t. bwrite s b = Inr t \<and> bc_inv me dev H P t \<and> (\<forall>k<2 ^ 31. view dev t k = view dev s k \<and>
      disk_at (medium t) (sector_of k) = (if k = b_blockno (bufs s ! b) then view dev s k else disk_at (medium s) (sector_of k))))) \<and>
    (b \<in> H \<and> (b_blockno (bufs s ! b) \<in> P \<or> view dev s (b_blockno (bufs s ! b)) = disk_at (medium s) (sector_of (b_blockno (bufs s ! b)))) \<longrightarrow>
      (\<exists>t. brelse s b = Inr t \<and> bc_inv me dev (H - {b}) P t \<and> view dev t = view dev s \<and> medium t = medium s))"
proof (intro conjI impI)
  assume "n < 2 ^ 31 \<and> (\<forall>i\<in>H. b_blockno (bufs s ! i) \<noteq> n) \<and> card H + card P < NBUF"
  then show "\<exists>t b. bread s dev n = Inr (t, b) \<and> bc_inv me dev (insert b H) P t \<and> b \<notin> H \<and> b_blockno (bufs t ! b) = n \<and>
      b_data (bufs t ! b) = view dev s n \<and> view dev t = view dev s \<and> medium t = medium s"
    using bread_ok [OF inv, of n] assms(2) by (auto simp: caches_def)
next
  assume "b \<in> H \<and> length x = BSIZE"
  then show "bc_inv me dev H P (set_data s b x)" "view dev (set_data s b x) = (view dev s)(b_blockno (bufs s ! b) := x)" "medium (set_data s b x) = medium s"
    using fill_ok(1,2) [OF inv, of b x] by (auto simp: set_data_def fun_eq_iff upd_buf_def)
next
  assume b: "b \<in> H"
  note B = heldD(8,10) [OF inv b]
  show "\<exists>t. bwrite s b = Inr t \<and> bc_inv me dev H P t \<and> (\<forall>k<2 ^ 31. view dev t k = view dev s k \<and>
      disk_at (medium t) (sector_of k) = (if k = b_blockno (bufs s ! b) then view dev s k else disk_at (medium s) (sector_of k)))"
  proof -
    obtain t where t: "bwrite s b = Inr t" "bc_inv me dev H P t" "\<forall>k<2 ^ 31. view dev t k = view dev s k"
      "medium t = (sector_of (b_blockno (bufs s ! b)), b_data (bufs s ! b)) # medium s"
      using bwrite_ok [OF inv b] by blast
    then show ?thesis
      using B sector_inj [OF _ B(1)] by (intro exI [of _ t]) simp
  qed
next
  assume "b \<in> H \<and> (b_blockno (bufs s ! b) \<in> P \<or> view dev s (b_blockno (bufs s ! b)) = disk_at (medium s) (sector_of (b_blockno (bufs s ! b))))"
  then show "\<exists>t. brelse s b = Inr t \<and> bc_inv me dev (H - {b}) P t \<and> view dev t = view dev s \<and> medium t = medium s"
    using brelse_ok [OF inv, of b] heldD(10) [OF inv, of b] by auto
qed

theorem cache_refines_disk_witness:
  "\<exists>t b. bread (boot_state crash_disk) 1 3 = Inr (t, b) \<and> b_data (bufs t ! b) = view 1 (boot_state crash_disk) 3"
  using cache_refines_disk [OF boot_inv [OF crash_disk_facts(3)], of 3] by auto

end
