(* ===== verification/Inode_thms.thy ===== *)
theory Inode_thms
  imports Crash
begin

text \<open>
  The contents of a file: \<open>readi\<close> and \<open>writei\<close> over the block map of an inode, direct and indirect, are reads and
  updates of an array of bytes, inside a transaction and through the buffer cache.
\<close>

section \<open>The array of bytes\<close>

definition block_of :: "u32 \<Rightarrow> 'a istate_scheme \<Rightarrow> nat \<Rightarrow> nat \<Rightarrow> u32" where
  "block_of dev s ip bn =
     (if bn < NDIRECT then i_addrs (inodes s ! ip) ! bn
      else ld32 (view dev s (i_addrs (inodes s ! ip) ! NDIRECT)) (4 * (bn - NDIRECT)))"

definition file_byte :: "u32 \<Rightarrow> 'a istate_scheme \<Rightarrow> nat \<Rightarrow> nat \<Rightarrow> u8" where
  "file_byte dev s ip k = view dev s (block_of dev s ip (k div BSIZE)) ! (k mod BSIZE)"

text \<open>The blocks that the file system keeps for a file: its data, the indirect block and the block of the inode.\<close>

definition meta_blocks :: "'a istate_scheme \<Rightarrow> nat \<Rightarrow> nat \<Rightarrow> u32 set" where
  "meta_blocks s ip N =
     insert (IBLOCK (i_inum (inodes s ! ip)) (sb s)) (if NDIRECT < N then {i_addrs (inodes s ! ip) ! NDIRECT} else {})"

text \<open>An inode whose first \<open>N\<close> blocks are allocated, all different and apart from its own.\<close>

definition file_ok :: "u32 \<Rightarrow> nat \<Rightarrow> 'a istate_scheme \<Rightarrow> nat \<Rightarrow> bool" where
  "file_ok dev N s ip \<longleftrightarrow>
     ip < length (inodes s) \<and> i_dev (inodes s ! ip) = dev \<and> N \<le> MAXFILE \<and>
     (\<forall>bn<N. block_of dev s ip bn \<noteq> 0 \<and> data_block (l_start (log s)) (block_of dev s ip bn) \<and> block_of dev s ip bn \<notin> meta_blocks s ip N) \<and>
     inj_on (block_of dev s ip) {..<N} \<and> (\<forall>k\<in>meta_blocks s ip N. data_block (l_start (log s)) k) \<and>
     (NDIRECT < N \<longrightarrow> i_addrs (inodes s ! ip) ! NDIRECT \<noteq> 0 \<and> i_addrs (inodes s ! ip) ! NDIRECT \<noteq> IBLOCK (i_inum (inodes s ! ip)) (sb s))"

lemma file_okD:
  assumes "file_ok dev N s ip" "bn < N"
  shows "block_of dev s ip bn \<noteq> 0" "block_of dev s ip bn < 2 ^ 31" "block_of dev s ip bn \<notin> log_area (l_start (log s))"
    "block_of dev s ip bn \<notin> meta_blocks s ip N"
  using assms by (simp_all add: file_ok_def data_block_def)

lemma file_ok_dev: "file_ok dev N s ip \<Longrightarrow> i_dev (inodes s ! ip) = dev"
  by (simp add: file_ok_def)

section \<open>Steps that change no block\<close>

definition quiet :: "nat \<Rightarrow> u32 \<Rightarrow> 'a istate_scheme \<Rightarrow> 'a istate_scheme \<Rightarrow> bool" where
  "quiet me dev s t \<longleftrightarrow> log_inv me dev t \<and> io_step s t \<and> view dev t = view dev s \<and> medium t = medium s"

lemma io_step_keeps:
  fixes s :: "'a istate_scheme"
  assumes "io_step s t"
  shows "log t = log s" "inodes t = inodes s" "sb t = sb s"
  using assms by (auto simp: io_step_def)

lemma quiet_inv: "quiet me dev s t \<Longrightarrow> log_inv me dev t"
  by (simp add: quiet_def)

lemma quiet_trans: "quiet me dev s t \<Longrightarrow> quiet me dev t u \<Longrightarrow> quiet me dev s u"
  by (auto simp: quiet_def intro: io_step_trans)

lemma quiet_refl: "log_inv me dev s \<Longrightarrow> quiet me dev s s"
  by (simp add: quiet_def)

lemma quiet_file:
  assumes "quiet me dev s t"
  shows "block_of dev t ip = block_of dev s ip" "file_byte dev t ip = file_byte dev s ip" "file_ok dev N t ip = file_ok dev N s ip"
    "log t = log s" "inodes t = inodes s" "sb t = sb s" "meta_blocks t ip N = meta_blocks s ip N"
proof -
  show k: "log t = log s" "inodes t = inodes s" "sb t = sb s"
    using assms io_step_keeps [of s t] by (simp_all add: quiet_def)
  show b: "block_of dev t ip = block_of dev s ip"
    using assms k by (simp add: fun_eq_iff block_of_def quiet_def)
  show mb: "meta_blocks t ip N = meta_blocks s ip N"
    using k by (simp add: meta_blocks_def)
  show "file_byte dev t ip = file_byte dev s ip"
    using assms b by (simp add: fun_eq_iff file_byte_def quiet_def)
  show "file_ok dev N t ip = file_ok dev N s ip"
    by (simp add: file_ok_def b mb k)
qed

lemma read_release:
  assumes "log_inv me dev s" "k < 2 ^ 31"
  shows "\<exists>s1 b s2. bread s dev k = Inr (s1, b) \<and> b_data (bufs s1 ! b) = view dev s k \<and> inodes s1 = inodes s \<and> brelse s1 b = Inr s2 \<and> quiet me dev s s2"
proof -
  obtain s1 b where r: "bread s dev k = Inr (s1, b)" "io_step s s1" "bc_inv me dev {b} (logged (log s)) s1" "caches dev (bufs s1 ! b) k"
    "b_data (bufs s1 ! b) = view dev s k" "view dev s1 = view dev s" "medium s1 = medium s"
    using log_read [OF assms] by blast
  then show ?thesis
    using log_release [OF assms(1) r(2-7)] io_step_keeps(2) [OF r(2)] by (auto simp: quiet_def)
qed

lemma bmap_ok:
  assumes "log_inv me dev s" "file_ok dev N s ip" "bn < N"
  shows "\<exists>t. bmap s ip bn = Inr (t, block_of dev s ip bn) \<and> quiet me dev s t"
proof -
  note f = file_okD [OF assms(2,3)]
  have d: "i_dev (inodes s ! ip) = dev" "N \<le> 268"
    using assms(2) by (simp_all add: file_ok_def)
  show ?thesis
  proof (cases "bn < NDIRECT")
    case True
    then show ?thesis
      using f(1) quiet_refl [OF assms(1)] by (simp add: bmap_def block_of_def Let_def)
  next
    case False
    then have ind: "NDIRECT < N" "bn - NDIRECT < NINDIRECT"
      using assms(3) d(2) by simp_all
    let ?a = "i_addrs (inodes s ! ip) ! NDIRECT"
    have a: "?a \<noteq> 0" "?a < 2 ^ 31"
      using assms(2) ind(1) by (simp_all add: file_ok_def meta_blocks_def data_block_def)
    obtain s1 b s2 where r: "bread s dev ?a = Inr (s1, b)" "b_data (bufs s1 ! b) = view dev s ?a" "brelse s1 b = Inr s2" "quiet me dev s s2"
      using read_release [OF assms(1) a(2)] by blast
    have "block_of dev s ip bn = ld32 (view dev s ?a) (4 * (bn - NDIRECT))"
      using False by (simp add: block_of_def)
    then show ?thesis
      using False ind(2) a(1) r f(1) d(1) unfolding bmap_def by (auto simp: Let_def)
  qed
qed

section \<open>Reading\<close>

lemma part_of_block:
  assumes "off + left \<le> N * 1024" "0 < left"
  shows "off div 1024 < N" "block_part left off \<le> left" "off mod 1024 + block_part left off \<le> 1024" "off + block_part left off + (left - block_part left off) = off + left"
  using assms by (auto simp: block_part_def less_mult_imp_div_less)

lemma same_block:
  assumes "off mod n + j < (n :: nat)"
  shows "(off + j) div n = off div n" "(off + j) mod n = off mod n + j"
proof -
  have e: "off + j = off mod n + j + off div n * n"
    by simp
  show "(off + j) div n = off div n" "(off + j) mod n = off mod n + j"
    using assms by (subst e, simp only: div_mult_self1 mod_mult_self1, simp)+
qed

lemma file_chunk:
  assumes "log_inv me dev s" "m + off mod 1024 \<le> 1024"
  shows "take m (drop (off mod 1024) (view dev s (block_of dev s ip (off div 1024)))) = map (file_byte dev s ip) [off..<off + m]"
proof (rule nth_equalityI)
  have len: "length (view dev s k) = 1024" for k
    using assms(1) view_len [of me dev "{}" "logged (log s)" s k] by (simp add: log_inv_def)
  show "length (take m (drop (off mod 1024) (view dev s (block_of dev s ip (off div 1024))))) = length (map (file_byte dev s ip) [off..<off + m])"
    using assms(2) by (simp add: len)
  fix j
  assume "j < length (take m (drop (off mod 1024) (view dev s (block_of dev s ip (off div 1024)))))"
  then have j: "j < m" "off mod 1024 + j < 1024"
    using assms(2) by (auto simp: len)
  from same_block [OF j(2)] show "take m (drop (off mod 1024) (view dev s (block_of dev s ip (off div 1024)))) ! j = map (file_byte dev s ip) [off..<off + m] ! j"
    using j by (simp add: file_byte_def len)
qed

lemma readi_loop_ok:
  assumes "log_inv me dev s" "file_ok dev N s ip" "off + left \<le> N * 1024"
  shows "\<exists>t. readi_loop s ip ToLocal off left tot acc = Inr (t, int (tot + left), acc @ map (file_byte dev s ip) [off..<off + left]) \<and> quiet me dev s t"
  using assms
proof (induction left arbitrary: s off tot acc rule: less_induct)
  case (less left)
  show ?case
  proof (cases "left = 0")
    case True
    then show ?thesis
      using quiet_refl [OF less(2)] by (simp add: readi_loop.simps)
  next
    case False
    let ?m = "block_part left off" and ?k = "block_of dev s ip (off div 1024)"
    have "0 < left"
      using False by simp
    note p = part_of_block [OF less(4) this]
    note f = file_okD [OF less(3) p(1)]
    have m: "0 < ?m"
      using False block_part_pos by simp
    obtain s1 where s1: "bmap s ip (off div 1024) = Inr (s1, ?k)" "quiet me dev s s1"
      using bmap_ok [OF less(2,3) p(1)] by blast
    note q1 = quiet_file [OF s1(2)]
    have inv1: "log_inv me dev s1" "view dev s1 = view dev s"
      using s1(2) by (simp_all add: quiet_def)
    obtain s2 b s3 where r: "bread s1 dev ?k = Inr (s2, b)" "b_data (bufs s2 ! b) = view dev s ?k" "brelse s2 b = Inr s3" "quiet me dev s1 s3"
      using read_release [OF inv1(1) f(2)] inv1(2) by auto
    have q3: "quiet me dev s s3"
      using quiet_trans [OF s1(2) r(4)] .
    note f3 = quiet_file [OF q3]
    have inv3: "log_inv me dev s3" "file_ok dev N s3 ip" "off + ?m + (left - ?m) \<le> N * 1024"
      using q3 less(3,4) f3(3) p(4) by (simp_all add: quiet_def)
    obtain t where t: "readi_loop s3 ip ToLocal (off + ?m) (left - ?m) (tot + ?m) (acc @ map (file_byte dev s ip) [off..<off + ?m]) =
        Inr (t, int (tot + ?m + (left - ?m)), (acc @ map (file_byte dev s ip) [off..<off + ?m]) @ map (file_byte dev s ip) [off + ?m..<off + ?m + (left - ?m)])"
        "quiet me dev s3 t"
      using less(1) [OF _ inv3, of "tot + ?m" "acc @ map (file_byte dev s ip) [off..<off + ?m]"] m False f3(2) by auto
    have "i_dev (inodes s1 ! ip) = dev"
      using less(3) q1(5) by (simp add: file_ok_def)
    then have "readi_loop s ip ToLocal off left tot acc = readi_loop s3 ip ToLocal (off + ?m) (left - ?m) (tot + ?m) (acc @ map (file_byte dev s ip) [off..<off + ?m])"
      using False s1(1) r(1-3) f(1) file_chunk [OF less(2), of ?m off ip] p(3) by (subst readi_loop.simps) (simp add: Let_def add.commute)
    moreover have "[off..<off + ?m] @ [off + ?m..<off + left] = [off..<off + left]"
      using p(2) by (metis add_le_cancel_left le_add1 upt_add_eq_append le_add_diff_inverse)
    ultimately show ?thesis
      using t quiet_trans [OF q3 t(2)] p(2,4) by (auto simp: map_append [symmetric] simp del: map_append)
  qed
qed

lemma readi_ok:
  assumes "log_inv me dev s" "file_ok dev N s ip" "unat (i_size (inodes s ! ip)) \<le> N * 1024"
    and "unat off \<le> unat (i_size (inodes s ! ip))" "unat off + unat n < 2 ^ 32"
  shows "\<exists>t. readi s ip ToLocal off n = Inr (t, int (min (unat n) (unat (i_size (inodes s ! ip)) - unat off)),
      map (file_byte dev s ip) [unat off..<min (unat off + unat n) (unat (i_size (inodes s ! ip)))]) \<and> quiet me dev s t"
proof -
  let ?z = "i_size (inodes s ! ip)" and ?n = "min (unat n) (unat (i_size (inodes s ! ip)) - unat off)"
  have sum: "unat (off + n) = unat off + unat n"
    using assms(5) by (simp add: unat_word_ariths)
  have "unat (if ?z < off + n then ?z - off else n) = ?n"
    using assms(4) sum by (auto simp: word_less_nat_alt unat_sub word_le_nat_alt)
  moreover have "\<not> (?z < off \<or> off + n < off)"
    using assms(4) sum by (simp add: word_less_nat_alt)
  ultimately have "readi s ip ToLocal off n = readi_loop s ip ToLocal (unat off) ?n 0 []"
    by (simp add: readi_def Let_def)
  moreover have "unat off + ?n = min (unat off + unat n) (unat ?z)" "unat off + ?n \<le> N * 1024"
    using assms(3,4) by auto
  ultimately show ?thesis
    using readi_loop_ok [OF assms(1,2), of "unat off" ?n 0 "[]"] by simp
qed

section \<open>Writing\<close>

definition overlay :: "u8 list \<Rightarrow> nat \<Rightarrow> (nat \<Rightarrow> u8) \<Rightarrow> nat \<Rightarrow> u8" where
  "overlay bs off f k = (if off \<le> k \<and> k < off + length bs then bs ! (k - off) else f k)"

lemma overlay_overlay:
  "m \<le> length bs \<Longrightarrow> overlay (drop m bs) (off + m) (overlay (take m bs) off f) = overlay bs off f"
  by (auto simp: overlay_def fun_eq_iff)

text \<open>The number of blocks that a write of \<open>n\<close> bytes at \<open>off\<close> touches.\<close>

definition parts :: "nat \<Rightarrow> nat \<Rightarrow> nat" where
  "parts off n = (if n = 0 then 0 else (off mod 1024 + n + 1023) div 1024)"

lemma parts_step:
  assumes "0 < n"
  shows "parts off n = Suc (parts (off + block_part n off) (n - block_part n off))"
proof (cases "n \<le> 1024 - off mod 1024")
  case True
  have "off mod 1024 < 1024"
    by simp
  then have "(off mod 1024 + n + 1023) div 1024 = 1"
    using True assms by (intro div_nat_eqI) simp_all
  then show ?thesis
    using True assms by (simp add: parts_def block_part_def)
next
  case False
  let ?m = "1024 - off mod 1024"
  have lt: "off mod 1024 < 1024"
    by simp
  have "off mod 1024 + ?m = 1024"
    using lt by simp
  then have "(off + ?m) mod 1024 = 0"
    using mod_add_left_eq [of off 1024 ?m] by (metis mod_self)
  moreover have "n - ?m \<noteq> 0"
    using False by simp
  ultimately have "parts (off + ?m) (n - ?m) = (n - ?m + 1023) div 1024"
    unfolding parts_def by (simp only: if_False add_0)
  moreover have e: "off mod 1024 + n + 1023 = n - ?m + 1023 + 1024"
    using False lt by simp
  have "parts off n = Suc ((n - ?m + 1023) div 1024)"
    using assms unfolding parts_def e by (simp only: div_add_self2) simp
  moreover have "block_part n off = ?m"
    using False by (simp add: block_part_def)
  ultimately show ?thesis
    by (simp only:)
qed

text \<open>Steps in a transaction that change blocks of the file only.\<close>

definition file_step :: "nat \<Rightarrow> u32 \<Rightarrow> nat \<Rightarrow> nat \<Rightarrow> 'a istate_scheme \<Rightarrow> 'a istate_scheme \<Rightarrow> bool" where
  "file_step me dev N ip s t \<longleftrightarrow> log_inv me dev t \<and> outstanding (log t) = outstanding (log s) \<and> l_start (log t) = l_start (log s) \<and>
     medium t = medium s \<and> inodes t = inodes s \<and> sb t = sb s \<and> (\<forall>k. k \<notin> block_of dev s ip ` {..<N} \<longrightarrow> view dev t k = view dev s k)"

lemma file_step_ok:
  assumes "file_step me dev N ip s t" "file_ok dev N s ip"
  shows "file_ok dev N t ip" "\<And>bn. bn < N \<Longrightarrow> block_of dev t ip bn = block_of dev s ip bn"
proof -
  have same: "inodes t = inodes s" "sb t = sb s" "l_start (log t) = l_start (log s)"
    using assms(1) by (simp_all add: file_step_def)
  have ind: "view dev t (i_addrs (inodes s ! ip) ! NDIRECT) = view dev s (i_addrs (inodes s ! ip) ! NDIRECT)" if "NDIRECT < N"
  proof -
    have "i_addrs (inodes s ! ip) ! NDIRECT \<notin> block_of dev s ip ` {..<N}"
      using file_okD(4) [OF assms(2)] that by (fastforce simp: meta_blocks_def)
    then show ?thesis
      using assms(1) by (simp add: file_step_def)
  qed
  show b: "block_of dev t ip bn = block_of dev s ip bn" if "bn < N" for bn
    using that ind same(1) by (cases "NDIRECT < N") (auto simp: block_of_def)
  have "meta_blocks t ip N = meta_blocks s ip N" "inj_on (block_of dev t ip) {..<N} = inj_on (block_of dev s ip) {..<N}"
    using same b by (simp_all add: meta_blocks_def inj_on_def)
  then show "file_ok dev N t ip"
    using assms(2) same b by (simp add: file_ok_def)
qed

lemma file_step_trans:
  assumes "file_step me dev N ip s t" "file_ok dev N s ip" "file_step me dev N ip t u"
  shows "file_step me dev N ip s u"
proof -
  have "block_of dev t ip ` {..<N} = block_of dev s ip ` {..<N}"
    using file_step_ok(2) [OF assms(1,2)] by (simp add: image_def)
  then show ?thesis
    using assms(1,3) by (simp add: file_step_def)
qed

lemma quiet_file_step:
  assumes "quiet me dev s t"
  shows "file_step me dev N ip s t"
  unfolding file_step_def quiet_file(4-6) [OF assms] using assms by (simp add: quiet_def)

text \<open>A block with some of its bytes replaced, and the file with that block.\<close>

lemma patched_nth:
  assumes "length d = 1024" "o0 + length cs \<le> 1024" "j < 1024"
  shows "(take o0 d @ cs @ drop (o0 + length cs) d) ! j = (if o0 \<le> j \<and> j < o0 + length cs then cs ! (j - o0) else d ! j)"
  using assms by (auto simp: nth_append)

lemma block_arith:
  assumes "d + n \<le> 1024" "b < 1024"
  shows "c * 1024 + d \<le> a * 1024 + b \<and> a * 1024 + b < c * 1024 + d + n \<longleftrightarrow> (a :: nat) = c \<and> d \<le> b \<and> b < d + n"
proof (cases a c rule: linorder_cases)
  case less
  then have "a * 1024 + 1024 \<le> c * 1024"
    using mult_le_mono1 [of "Suc a" c 1024] by simp
  then show ?thesis
    using less assms by auto
next
  case greater
  then have "c * 1024 + 1024 \<le> a * 1024"
    using mult_le_mono1 [of "Suc c" a 1024] by simp
  then show ?thesis
    using greater assms by auto
qed auto

lemma in_same_block:
  assumes "off mod 1024 + n \<le> (1024 :: nat)"
  shows "off \<le> k \<and> k < off + n \<longleftrightarrow> k div 1024 = off div 1024 \<and> off mod 1024 \<le> k mod 1024 \<and> k mod 1024 < off mod 1024 + n"
    "k div 1024 = off div 1024 \<Longrightarrow> k - off = k mod 1024 - off mod 1024"
proof -
  have e: "k = k div 1024 * 1024 + k mod 1024" "off = off div 1024 * 1024 + off mod 1024" "k mod 1024 < 1024"
    by simp_all
  show "off \<le> k \<and> k < off + n \<longleftrightarrow> k div 1024 = off div 1024 \<and> off mod 1024 \<le> k mod 1024 \<and> k mod 1024 < off mod 1024 + n"
    using block_arith [of "off mod 1024" n "k mod 1024" "off div 1024" "k div 1024"] assms e(3) e(1,2) [symmetric] by simp
  show "k - off = k mod 1024 - off mod 1024" if "k div 1024 = off div 1024"
    using e that by linarith
qed

lemma patched_file:
  assumes f: "file_ok dev N s ip" and st: "file_step me dev N ip s t" and inv: "log_inv me dev s" and b: "off div 1024 < N" "off mod 1024 + length cs \<le> 1024"
    and v: "view dev t = (view dev s)(block_of dev s ip (off div 1024) :=
      take (off mod 1024) (view dev s (block_of dev s ip (off div 1024))) @ cs @ drop (off mod 1024 + length cs) (view dev s (block_of dev s ip (off div 1024))))"
    and k: "k < N * 1024"
  shows "file_byte dev t ip k = overlay cs off (file_byte dev s ip) k"
proof -
  have kN: "k div 1024 < N"
    using k by (simp add: less_mult_imp_div_less)
  have blk: "block_of dev t ip (k div 1024) = block_of dev s ip (k div 1024)"
    using file_step_ok(2) [OF st f kN] .
  have len: "length (view dev s j) = 1024" for j
    using inv view_len [of me dev "{}" "logged (log s)" s j] by (simp add: log_inv_def)
  have "block_of dev s ip (k div 1024) = block_of dev s ip (off div 1024) \<longleftrightarrow> k div 1024 = off div 1024"
    using f kN b(1) by (auto simp: file_ok_def dest: inj_onD)
  then show ?thesis
    using in_same_block [OF b(2), of k] patched_nth [OF len b(2), of "k mod 1024"]
    by (auto simp: file_byte_def blk v overlay_def)
qed

lemma write_part:
  assumes inv: "log_inv me dev s" and o: "1 \<le> outstanding (log s)" "lh_n (log s) < 29" and f: "file_ok dev N s ip"
    and b: "off div 1024 < N" "off mod 1024 + length cs \<le> 1024"
  shows "\<exists>s1 b s2 s3. bread s dev (block_of dev s ip (off div 1024)) = Inr (s1, b) \<and>
    log_write (set_data s1 b (take (off mod 1024) (b_data (bufs s1 ! b)) @ cs @ drop (off mod 1024 + length cs) (b_data (bufs s1 ! b)))) b = Inr s2 \<and>
    brelse s2 b = Inr s3 \<and> file_step me dev N ip s s3 \<and> lh_n (log s3) \<le> Suc (lh_n (log s)) \<and>
    (\<forall>k<N * 1024. file_byte dev s3 ip k = overlay cs off (file_byte dev s ip) k)"
proof -
  let ?k = "block_of dev s ip (off div 1024)"
  note fk = file_okD [OF f b(1)]
  obtain s1 b where r: "bread s dev ?k = Inr (s1, b)" "io_step s s1" "bc_inv me dev {b} (logged (log s)) s1" "caches dev (bufs s1 ! b) ?k"
    "b_data (bufs s1 ! b) = view dev s ?k" "view dev s1 = view dev s" "medium s1 = medium s"
    using log_read [OF inv fk(2)] by blast
  let ?d = "take (off mod 1024) (view dev s ?k) @ cs @ drop (off mod 1024 + length cs) (view dev s ?k)"
  have "length (view dev s ?k) = 1024"
    using inv view_len [of me dev "{}" "logged (log s)" s ?k] by (simp add: log_inv_def)
  then have d: "length ?d = BSIZE"
    using b(2) by simp
  obtain s2 s3 where s3: "log_write (set_data s1 b ?d) b = Inr s2" "brelse s2 b = Inr s3" "log_inv me dev s3" "log s3 = log_add ?k (log s)"
    "medium s3 = medium s" "view dev s3 = (view dev s)(?k := ?d)" "log_step s s3"
    using log_update [OF inv o fk(2,3) r(2-4,6,7) d] by blast
  have keep: "inodes s3 = inodes s" "sb s3 = sb s"
    using s3(7) by (auto simp: log_step_def)
  have "file_step me dev N ip s s3"
    using s3(3-6) keep b(1) by (auto simp: file_step_def)
  then show ?thesis
    using r(1,5) s3(1,2) log_add_n [of ?k "log s"] s3(4) patched_file [OF f _ inv b s3(6)] by auto
qed

lemma writei_loop_ok:
  assumes "log_inv me dev s" "1 \<le> outstanding (log s)" "file_ok dev N s ip" "off + length bs \<le> N * 1024" "lh_n (log s) + parts off (length bs) \<le> 29"
  shows "\<exists>t. writei_loop s ip (FromLocal bs) off (length bs) tot = Inr (t, off + length bs, tot + length bs) \<and> file_step me dev N ip s t \<and>
    lh_n (log t) \<le> lh_n (log s) + parts off (length bs) \<and> (\<forall>k<N * 1024. file_byte dev t ip k = overlay bs off (file_byte dev s ip) k)"
  using assms
proof (induction "length bs" arbitrary: s off tot bs rule: less_induct)
  case less
  show ?case
  proof (cases "bs = []")
    case True
    then show ?thesis
      using quiet_file_step [OF quiet_refl [OF less(2)]] by (auto simp: writei_loop.simps overlay_def)
  next
    case False
    let ?m = "block_part (length bs) off" and ?k = "block_of dev s ip (off div 1024)" and ?ds = "drop (block_part (length bs) off) bs"
    have n: "0 < length bs"
      using False by simp
    note p = part_of_block [OF less(5) n] and ps = parts_step [OF n, of off]
    have m: "0 < ?m" "length (take ?m bs) = ?m"
      using p(2) block_part_pos [OF n] by simp_all
    obtain s1 where s1: "bmap s ip (off div 1024) = Inr (s1, ?k)" "quiet me dev s s1"
      using bmap_ok [OF less(2,4) p(1)] by blast
    note q1 = quiet_file [OF s1(2)]
    have inv1: "log_inv me dev s1" "1 \<le> outstanding (log s1)" "lh_n (log s1) < 29" "file_ok dev N s1 ip" "i_dev (inodes s1 ! ip) = dev"
      using quiet_inv [OF s1(2)] less(3,4,6) ps file_ok_dev [OF less(4)] unfolding q1 by simp_all
    obtain s2 b s3 s4 where w: "bread s1 dev ?k = Inr (s2, b)"
        "log_write (set_data s2 b (take (off mod 1024) (b_data (bufs s2 ! b)) @ take ?m bs @ drop (off mod 1024 + ?m) (b_data (bufs s2 ! b)))) b = Inr s3"
        "brelse s3 b = Inr s4" "file_step me dev N ip s1 s4" "lh_n (log s4) \<le> Suc (lh_n (log s))"
        "\<forall>k<N * 1024. file_byte dev s4 ip k = overlay (take ?m bs) off (file_byte dev s ip) k"
      using write_part [OF inv1(1-4) p(1), of "take ?m bs"] p(3) m(2) q1(1,2,4) by auto
    have st: "file_step me dev N ip s s4"
      using file_step_trans [OF quiet_file_step [OF s1(2)] less(4) w(4)] .
    have next_ok: "log_inv me dev s4" "1 \<le> outstanding (log s4)" "file_ok dev N s4 ip" "off + ?m + length ?ds \<le> N * 1024"
        "lh_n (log s4) + parts (off + ?m) (length ?ds) \<le> 29" "length ?ds < length bs"
      using st file_step_ok(1) [OF st less(4)] less(3,5,6) w(5) p(4) ps m(1) n by (simp_all add: file_step_def)
    obtain t where t: "writei_loop s4 ip (FromLocal ?ds) (off + ?m) (length ?ds) (tot + ?m) = Inr (t, off + ?m + length ?ds, tot + ?m + length ?ds)"
        "file_step me dev N ip s4 t" "lh_n (log t) \<le> lh_n (log s4) + parts (off + ?m) (length ?ds)"
        "\<forall>k<N * 1024. file_byte dev t ip k = overlay ?ds (off + ?m) (file_byte dev s4 ip) k"
      using less(1) [OF next_ok(6) next_ok(1-5), of "tot + ?m"] by blast
    have "writei_loop s ip (FromLocal bs) off (length bs) tot = writei_loop s4 ip (FromLocal ?ds) (off + ?m) (length ?ds) (tot + ?m)"
      using n s1(1) w(1-3) inv1(5) file_okD(1) [OF less(4) p(1)] m(2) by (subst writei_loop.simps) (simp add: Let_def)
    moreover have "file_byte dev t ip k = overlay bs off (file_byte dev s ip) k" if "k < N * 1024" for k
      using that t(4) w(6) overlay_overlay [OF p(2), of off "file_byte dev s ip"] by (auto simp: overlay_def fun_eq_iff)
    moreover have "off + ?m + length ?ds = off + length bs" "tot + ?m + length ?ds = tot + length bs"
      using p(2) by simp_all
    ultimately show ?thesis
      using t(1,3) w(5) ps file_step_trans [OF st less(4) t(2)] by (intro exI [of _ t]) simp
  qed
qed

text \<open>The inode is written back.\<close>

lemma length_inode_to_disk [simp]: "length (inode_to_disk i d k) = length d"
proof -
  have "length (fold (\<lambda>j d. st32 d (k + 12 + 4 * j) (i_addrs i ! j)) js d) = length d" for js d
    by (induction js arbitrary: d) (simp_all add: st32_def)
  then show ?thesis
    by (simp add: inode_to_disk_def st32_def st16_def del: upt_rec_numeral)
qed

lemma iupdate_ok:
  assumes "log_inv me dev s" "1 \<le> outstanding (log s)" "lh_n (log s) < 29" "file_ok dev N s ip"
  shows "\<exists>t d. iupdate s ip = Inr t \<and> log_inv me dev t \<and> inodes t = inodes s \<and> sb t = sb s \<and> medium t = medium s \<and>
    log t = log_add (IBLOCK (i_inum (inodes s ! ip)) (sb s)) (log s) \<and> view dev t = (view dev s)(IBLOCK (i_inum (inodes s ! ip)) (sb s) := d)"
proof -
  let ?k = "IBLOCK (i_inum (inodes s ! ip)) (sb s)"
  have k: "?k < 2 ^ 31" "?k \<notin> log_area (l_start (log s))" "i_dev (inodes s ! ip) = dev"
    using assms(4) by (simp_all add: file_ok_def meta_blocks_def data_block_def)
  obtain s1 b where r: "bread s dev ?k = Inr (s1, b)" "io_step s s1" "bc_inv me dev {b} (logged (log s)) s1" "caches dev (bufs s1 ! b) ?k"
    "b_data (bufs s1 ! b) = view dev s ?k" "view dev s1 = view dev s" "medium s1 = medium s"
    using log_read [OF assms(1) k(1)] by blast
  let ?d = "inode_to_disk (inodes s ! ip) (view dev s ?k) (dip_off (i_inum (inodes s ! ip)))"
  have d: "length ?d = BSIZE"
    using assms(1) view_len [of me dev "{}" "logged (log s)" s ?k] by (simp add: log_inv_def)
  obtain s2 s3 where s3: "log_write (set_data s1 b ?d) b = Inr s2" "brelse s2 b = Inr s3" "log_inv me dev s3" "log s3 = log_add ?k (log s)"
    "medium s3 = medium s" "view dev s3 = (view dev s)(?k := ?d)" "log_step s s3"
    using log_update [OF assms(1-3) k(1,2) r(2-4,6,7) d] by blast
  have "inodes s3 = inodes s" "sb s3 = sb s"
    using s3(7) by (auto simp: log_step_def)
  then show ?thesis
    using r(1,5) io_step_keeps(2) [OF r(2)] k(3) s3 by (intro exI [of _ s3] exI [of _ ?d]) (simp add: iupdate_def Let_def)
qed

section \<open>Property\<close>

lemma inodes_keeps [simp]:
  "log_inv me dev (s\<lparr>inodes := x\<rparr>) = log_inv me dev s" "view dev (s\<lparr>inodes := x\<rparr>) = view dev s"
  by (simp_all add: log_inv_def bc_inv_def view_def idle_procs_def fun_eq_iff split: option.split)

lemma upd_inode_keeps [simp]:
  "log_inv me dev (upd_inode s ip f) = log_inv me dev s" "view dev (upd_inode s ip f) = view dev s" "log (upd_inode s ip f) = log s"
  "medium (upd_inode s ip f) = medium s" "sb (upd_inode s ip f) = sb s" "length (inodes (upd_inode s ip f)) = length (inodes s)"
  "ip < length (inodes s) \<Longrightarrow> inodes (upd_inode s ip f) ! ip = f (inodes s ! ip)"
  by (simp_all add: upd_inode_def)

lemma set_size_file:
  assumes "file_ok dev N s ip"
  shows "file_ok dev N (upd_inode s ip (\<lambda>i. i\<lparr>i_size := z\<rparr>)) ip"
    "block_of dev (upd_inode s ip (\<lambda>i. i\<lparr>i_size := z\<rparr>)) ip = block_of dev s ip"
proof -
  have ip: "ip < length (inodes s)"
    using assms by (simp add: file_ok_def)
  show b: "block_of dev (upd_inode s ip (\<lambda>i. i\<lparr>i_size := z\<rparr>)) ip = block_of dev s ip"
    using ip by (simp add: block_of_def fun_eq_iff)
  have "meta_blocks (upd_inode s ip (\<lambda>i. i\<lparr>i_size := z\<rparr>)) ip N = meta_blocks s ip N"
    using ip by (simp add: meta_blocks_def)
  then show "file_ok dev N (upd_inode s ip (\<lambda>i. i\<lparr>i_size := z\<rparr>)) ip"
    using assms ip b by (simp add: file_ok_def)
qed

text \<open>Storing the inode changes no byte of the file.\<close>

lemma inode_block_apart:
  assumes "file_ok dev N s ip" "inodes t = inodes s" "sb t = sb s" "l_start (log t) = l_start (log s)"
    and "view dev t = (view dev s)(IBLOCK (i_inum (inodes s ! ip)) (sb s) := d)"
  shows "file_ok dev N t ip" "\<And>bn. bn < N \<Longrightarrow> block_of dev t ip bn = block_of dev s ip bn" "\<And>k. k < N * 1024 \<Longrightarrow> file_byte dev t ip k = file_byte dev s ip k"
proof -
  show b: "block_of dev t ip bn = block_of dev s ip bn" if "bn < N" for bn
    using that assms by (cases "NDIRECT < N") (auto simp: block_of_def file_ok_def)
  have "meta_blocks t ip N = meta_blocks s ip N" "inj_on (block_of dev t ip) {..<N} = inj_on (block_of dev s ip) {..<N}"
    using assms(2,3) b by (simp_all add: meta_blocks_def inj_on_def)
  then show "file_ok dev N t ip"
    using assms(1-4) b by (simp add: file_ok_def)
  show "file_byte dev t ip k = file_byte dev s ip k" if "k < N * 1024" for k
    using file_okD(4) [OF assms(1), of "k div 1024"] that b [of "k div 1024"] assms(5) by (auto simp: file_byte_def meta_blocks_def less_mult_imp_div_less)
qed

lemma writei_ok:
  assumes inv: "log_inv me dev s" "1 \<le> outstanding (log s)" and f: "file_ok dev N s ip"
    and z: "unat off \<le> unat (i_size (inodes s ! ip))" "unat off + length bs \<le> N * 1024" and l: "lh_n (log s) + parts (unat off) (length bs) < 29"
  shows "\<exists>t. writei s ip (FromLocal bs) off (of_nat (length bs)) = Inr (t, int (length bs)) \<and> log_inv me dev t \<and> file_ok dev N t ip \<and> medium t = medium s \<and>
    unat (i_size (inodes t ! ip)) = max (unat (i_size (inodes s ! ip))) (unat off + length bs) \<and>
    (\<forall>k. k \<notin> insert (IBLOCK (i_inum (inodes s ! ip)) (sb s)) (block_of dev s ip ` {..<N}) \<longrightarrow> view dev t k = view dev s k) \<and>
    (\<forall>k<N * 1024. file_byte dev t ip k = overlay bs (unat off) (file_byte dev s ip) k)"
proof -
  let ?e = "unat off + length bs" and ?z = "i_size (inodes s ! ip)"
  have ip: "ip < length (inodes s)" "N \<le> 268"
    using f by (simp_all add: file_ok_def)
  then have n: "?e \<le> 274432" "unat (of_nat (length bs) :: u32) = length bs"
    using z(2) by (simp_all add: unat_of_nat take_bit_eq_mod)
  then have e: "unat (off + of_nat (length bs)) = ?e" "unat (of_nat ?e :: u32) = ?e"
    by (simp_all add: unat_word_ariths unat_of_nat take_bit_eq_mod)
  obtain s1 where s1: "writei_loop s ip (FromLocal bs) (unat off) (length bs) 0 = Inr (s1, ?e, length bs)" "file_step me dev N ip s s1"
      "lh_n (log s1) \<le> lh_n (log s) + parts (unat off) (length bs)" "\<forall>k<N * 1024. file_byte dev s1 ip k = overlay bs (unat off) (file_byte dev s ip) k"
    using writei_loop_ok [OF inv f z(2), of 0] l by auto
  let ?f = "\<lambda>i. if ?z < of_nat ?e then i\<lparr>i_size := of_nat ?e\<rparr> else i"
  define s2 where "s2 = (if of_nat ?e > ?z then upd_inode s1 ip (\<lambda>i. i\<lparr>i_size := of_nat ?e\<rparr>) else s1)"
  have st: "inodes s1 = inodes s" "sb s1 = sb s" "log_inv me dev s1" "1 \<le> outstanding (log s1)" "l_start (log s1) = l_start (log s)" "medium s1 = medium s"
    using s1(2) inv(2) by (simp_all add: file_step_def)
  have s2: "1 \<le> outstanding (log s2)" "lh_n (log s2) < 29" "log_inv me dev s2" "log s2 = log s1" "file_ok dev N s2 ip" "block_of dev s2 ip = block_of dev s1 ip" "view dev s2 = view dev s1" "sb s2 = sb s"
      "inodes s2 ! ip = ?f (inodes s ! ip)" "medium s2 = medium s"
    using st file_step_ok(1) [OF s1(2) f] set_size_file [OF file_step_ok(1) [OF s1(2) f]] ip(1) s1(3) l unfolding s2_def by auto
  obtain t d where t: "iupdate s2 ip = Inr t" "log_inv me dev t" "inodes t = inodes s2" "sb t = sb s2" "medium t = medium s2"
      "log t = log_add (IBLOCK (i_inum (inodes s2 ! ip)) (sb s2)) (log s2)" "view dev t = (view dev s2)(IBLOCK (i_inum (inodes s2 ! ip)) (sb s2) := d)"
    using iupdate_ok [OF s2(3,1,2,5)] by blast
  have ib: "IBLOCK (i_inum (inodes s2 ! ip)) (sb s2) = IBLOCK (i_inum (inodes s ! ip)) (sb s)"
    using s2(8,9) by simp
  note ia = inode_block_apart [OF s2(5) t(3,4) _ t(7)]
  have "writei s ip (FromLocal bs) off (of_nat (length bs)) = Inr (t, int (length bs))"
    using s1(1) t(1) z(1) n e(1) st(1) by (simp add: writei_def word_less_nat_alt s2_def)
  moreover have "unat (i_size (inodes t ! ip)) = max (unat ?z) ?e"
    using t(3) s2(9) e(2) by (auto simp: word_less_nat_alt)
  moreover have "file_ok dev N t ip"
    using ia(1) t(6) by simp
  moreover have "file_byte dev t ip k = overlay bs (unat off) (file_byte dev s ip) k" if "k < N * 1024" for k
    using ia(3) [OF _ that] s1(4) that s2(6,7) t(6) by (simp add: file_byte_def)
  moreover have "view dev t k = view dev s k" if "k \<notin> insert (IBLOCK (i_inum (inodes s ! ip)) (sb s)) (block_of dev s ip ` {..<N})" for k
    using that s1(2) t(7) s2(7) ib by (simp add: file_step_def)
  ultimately show ?thesis
    using t(2,5) s2(10) by (intro exI [of _ t]) simp
qed

text \<open>
  C33 (roundtrip). Writing a file in a transaction and reading it back. The file has \<open>N\<close> blocks, direct and indirect, and
  the log has room for the blocks that are written and for the inode. \<open>writei\<close> at any offset within the file returns
  the number of bytes, the file grows to the end of what was written, and every later \<open>readi\<close>, at any offset and
  of any length, gives the old bytes overlaid with the new ones, cut off at the new size. Only the file's
  blocks and the block of the inode change, and nothing is on the disk before the commit.
\<close>

theorem file_write_read:
  assumes "log_inv me dev s" "1 \<le> outstanding (log s)" "file_ok dev N s ip" "unat (i_size (inodes s ! ip)) \<le> N * 1024"
    and "unat off \<le> unat (i_size (inodes s ! ip))" "unat off + length bs \<le> N * 1024" "lh_n (log s) + parts (unat off) (length bs) < 29"
  shows "\<exists>t. writei s ip (FromLocal bs) off (of_nat (length bs)) = Inr (t, int (length bs)) \<and> log_inv me dev t \<and> file_ok dev N t ip \<and> medium t = medium s \<and>
    unat (i_size (inodes t ! ip)) = max (unat (i_size (inodes s ! ip))) (unat off + length bs) \<and>
    (\<forall>k. k \<notin> insert (IBLOCK (i_inum (inodes s ! ip)) (sb s)) (block_of dev s ip ` {..<N}) \<longrightarrow> view dev t k = view dev s k) \<and>
    (\<forall>o1 n. unat o1 \<le> unat (i_size (inodes t ! ip)) \<and> unat o1 + unat n < 2 ^ 32 \<longrightarrow>
       (\<exists>u. readi t ip ToLocal o1 n = Inr (u, int (min (unat n) (unat (i_size (inodes t ! ip)) - unat o1)),
           map (overlay bs (unat off) (file_byte dev s ip)) [unat o1..<min (unat o1 + unat n) (unat (i_size (inodes t ! ip)))]) \<and> quiet me dev t u))"
proof -
  obtain t where t: "writei s ip (FromLocal bs) off (of_nat (length bs)) = Inr (t, int (length bs))" "log_inv me dev t" "file_ok dev N t ip" "medium t = medium s"
      "unat (i_size (inodes t ! ip)) = max (unat (i_size (inodes s ! ip))) (unat off + length bs)"
      "\<forall>k. k \<notin> insert (IBLOCK (i_inum (inodes s ! ip)) (sb s)) (block_of dev s ip ` {..<N}) \<longrightarrow> view dev t k = view dev s k"
      "\<forall>k<N * 1024. file_byte dev t ip k = overlay bs (unat off) (file_byte dev s ip) k"
    using writei_ok [OF assms(1-3,5-7)] by blast
  have z: "unat (i_size (inodes t ! ip)) \<le> N * 1024"
    using t(5) assms(4,6) by simp
  have m: "map (file_byte dev t ip) [a..<min b (unat (i_size (inodes t ! ip)))] =
      map (overlay bs (unat off) (file_byte dev s ip)) [a..<min b (unat (i_size (inodes t ! ip)))]" for a b
    using t(7) z by (intro map_cong) auto
  show ?thesis
    using t(1-6) readi_ok [OF t(2,3) z, unfolded m] by blast
qed

text \<open>A file of three bytes in block 100, after boot and \<open>begin_op\<close>.\<close>

definition three_bytes :: inode where
  "three_bytes = \<lparr>i_dev = 1, i_inum = 1, i_ref = 1, i_lock = \<lparr>sl_locked = 0, sl_lk = \<lparr>locked = 0, lk_name = '''', lk_cpu = None\<rparr>, sl_name = '''', sl_pid = 0\<rparr>,
     i_valid = 1, i_type = 2, i_major = 0, i_minor = 0, i_nlink = 1, i_size = 3, i_addrs = 100 # replicate 12 0\<rparr>"

lemma file_boot:
  "\<exists>s. begin_op (boot_state []) = Inr s \<and> log_inv 0 1 (s\<lparr>inodes := [three_bytes]\<rparr>) \<and> log s = (log (boot_state []))\<lparr>outstanding := 1\<rparr> \<and> sb s = sb (boot_raw []) \<and>
    (\<forall>k. view 1 (s\<lparr>inodes := [three_bytes]\<rparr>) k = replicate 1024 0)"
proof -
  let ?b = "boot_state []"
  have ok: "blocks_ok []"
    by (simp add: blocks_ok_def)
  have inv: "log_inv 0 1 ?b"
    by (rule boot_log_inv(1) [OF ok]) (simp add: disk_at_def)
  have "view 1 ?b k = replicate 1024 0" for k
    using view_clean [OF boot_inv [OF ok], of k] by (simp add: disk_at_def)
  moreover have "begin_op ?b = Inr (?b\<lparr>hart := settle (hart ?b), log := (log ?b)\<lparr>outstanding := outstanding (log ?b) + 1\<rparr>\<rparr>)"
    by (rule begin_op_ok [OF log_inv_cpu(2,1) [OF inv]]) simp_all
  moreover obtain s where "begin_op ?b = Inr s" "log_inv 0 1 s" "view 1 s = view 1 ?b"
    using begin_op_inv [OF inv] by auto
  ultimately show ?thesis
    by (intro exI [of _ s]) auto
qed

theorem file_write_read_witness:
  "\<exists>s t u. begin_op (boot_state []) = Inr s \<and> writei (s\<lparr>inodes := [three_bytes]\<rparr>) 0 (FromLocal [7, 8]) 2 2 = Inr (t, 2) \<and>
     readi t 0 ToLocal 0 10 = Inr (u, 4, [0, 0, 7, 8])"
proof -
  obtain s0 where s0: "begin_op (boot_state []) = Inr s0" "log_inv 0 1 (s0\<lparr>inodes := [three_bytes]\<rparr>)" "log s0 = (log (boot_state []))\<lparr>outstanding := 1\<rparr>"
      "sb s0 = sb (boot_raw [])" "\<forall>k. view 1 (s0\<lparr>inodes := [three_bytes]\<rparr>) k = replicate 1024 0"
    using file_boot by blast
  let ?s = "s0\<lparr>inodes := [three_bytes]\<rparr>"
  have sb: "sb_inodestart (sb s0) = 32"
    using s0(4) by (simp add: boot_raw_def pstate.defs tstate.defs bstate.defs lstate.defs istate.defs)
  have "file_ok 1 1 ?s 0"
    using s0(3) sb by (simp add: file_ok_def block_of_def meta_blocks_def data_block_def three_bytes_def IBLOCK_def log_area_def lessThan_Suc)
  moreover have z: "i_size (inodes ?s ! 0) = 3" "1 \<le> outstanding (log ?s)" "lh_n (log ?s) + parts (unat (2 :: u32)) (length [7 :: u8, 8]) < 29"
    using s0(3) by (simp_all add: three_bytes_def parts_def)
  ultimately obtain t where t: "writei ?s 0 (FromLocal [7, 8]) 2 2 = Inr (t, 2)" "unat (i_size (inodes t ! 0)) = 4"
      "\<forall>o1 n. unat o1 \<le> unat (i_size (inodes t ! 0)) \<and> unat o1 + unat n < 2 ^ 32 \<longrightarrow>
       (\<exists>u. readi t 0 ToLocal o1 n = Inr (u, int (min (unat n) (unat (i_size (inodes t ! 0)) - unat o1)),
           map (overlay [7, 8] (unat (2 :: u32)) (file_byte 1 ?s 0)) [unat o1..<min (unat o1 + unat n) (unat (i_size (inodes t ! 0)))]) \<and> quiet 0 1 t u)"
    using file_write_read [OF s0(2) z(2) _ _ _ _ z(3), of 1 0] unfolding z(1) by auto
  obtain u where "readi t 0 ToLocal 0 10 = Inr (u, 4, map (overlay [7, 8] 2 (file_byte 1 ?s 0)) [0..<4])"
    using t(3) [rule_format, of 0 10] unfolding t(2) by auto
  moreover have "map (overlay [7, 8] 2 (file_byte 1 ?s 0)) [0..<4] = [0, 0, 7, 8]"
    using s0(5) by (simp add: file_byte_def nth_replicate overlay_def upt_conv_Cons)
  ultimately show ?thesis
    using s0(1) t(1) by auto
qed

end
