(* ===== verification/Pipe_thms.thy ===== *)
theory Pipe_thms
  imports Pipe Bio_thms Vm_thms Crash
begin

text \<open>
  A pipe is a bounded queue of bytes between two address spaces: what a writer takes from its memory
  is what a reader finds in its own, in order, whatever the counters have wrapped around to.
\<close>

section \<open>The buffer\<close>

interpretation pipe_ring: byte_ring PIPESIZE
  by unfold_locales simp_all

definition pipe_holds :: "pipe \<Rightarrow> u8 list \<Rightarrow> bool" where
  "pipe_holds p q \<longleftrightarrow> ring_holds PIPESIZE (pi_data p) (nread p) q \<and> nwrite p = nread p + of_nat (length q)"

lemma pipe_holds_length: "pipe_holds p q \<Longrightarrow> length q \<le> 512"
  by (simp add: pipe_holds_def ring_holds_def)

lemma pipe_holds_lock [simp]: "pipe_holds (p\<lparr>pi_lock := l\<rparr>) q = pipe_holds p q"
  by (simp add: pipe_holds_def)

lemma pipe_full_iff: "pipe_holds p q \<Longrightarrow> pipe_full p \<longleftrightarrow> length q = 512"
  using pipe_ring.count_eq [of "length q" 512] pipe_holds_length [of p q] by (auto simp: pipe_full_def pipe_holds_def)

lemma pipe_empty_iff: "pipe_holds p q \<Longrightarrow> pipe_empty p \<longleftrightarrow> q = []"
  using pipe_ring.count_eq [of "length q" 0] pipe_holds_length [of p q] by (auto simp: pipe_empty_def pipe_holds_def)

lemma put_char_holds: "pipe_holds p q \<Longrightarrow> length q < 512 \<Longrightarrow> pipe_holds (put_char p c) (q @ [c])"
  using pipe_ring.put [of "pi_data p" "nread p" q c] by (simp add: pipe_holds_def put_char_def)

lemma get_char_holds:
  assumes "pipe_holds p (c # q)"
  shows "fst (get_char p) = c" "pipe_holds (snd (get_char p)) q"
  using pipe_ring.get [of "pi_data p" "nread p" c q] assms by (simp_all add: pipe_holds_def get_char_def)

section \<open>The critical section\<close>

text \<open>Process \<open>pr\<close> runs in the address space \<open>root\<close>; all its locks are free but, inside, the one of the pipe.\<close>

definition pipe_user :: "(u64 \<Rightarrow> pkind) \<Rightarrow> u64 list \<Rightarrow> u64 set \<Rightarrow> nat \<Rightarrow> 'a pistate_scheme \<Rightarrow> bool" where
  "pipe_user T fps roots pr s \<longleftrightarrow> idle_procs s \<and> vm_inv T s fps roots \<and> curproc s = Some pr \<and> pr < NPROC \<and>
     pagetable (procs s ! pr) \<in> roots \<and> p_killed (procs s ! pr) = 0"

definition pipe_crit :: "cpu \<Rightarrow> spinlock \<Rightarrow> u64 \<Rightarrow> 'a pistate_scheme \<Rightarrow> bool" where
  "pipe_crit c l pi s \<longleftrightarrow> cpu_ok c \<and> lk_free l \<and> hart s = push_off c \<and> pi_lock (pipes s pi) = held_lock l (hartid c)"

abbreviation wakes :: "wchan \<Rightarrow> 'a pstate_scheme \<Rightarrow> proc list" where
  "wakes ch s \<equiv> map (\<lambda>i. wake ch (curproc s) i (procs s ! i)) [0..<NPROC]"

lemma vm_inv_pipes [simp]:
  "vm_inv T (upd_pipe s pi f) fps roots = vm_inv T s fps roots" "idle_procs (upd_pipe s pi f) = idle_procs s"
  "procs (upd_pipe s pi f) = procs s" "curproc (upd_pipe s pi f) = curproc s" "mem (upd_pipe s pi f) = mem s"
  "hart (upd_pipe s pi f) = hart s" "pipes (upd_pipe s pi f) pi = f (pipes s pi)"
  by (simp_all add: upd_pipe_def vm_inv_def kmem_inv_def idle_procs_def)

lemma pipe_user_upd [simp]: "pipe_user T fps roots pr (upd_pipe s pi f) = pipe_user T fps roots pr s"
  by (simp add: pipe_user_def)

lemma acquire_pipe_ok:
  assumes "lk_free (pi_lock (pipes s pi))" "cpu_ok (hart s)"
  shows "acquire_pipe s pi =
    Inr (upd_pipe (s\<lparr>hart := push_off (hart s)\<rparr>) pi (\<lambda>p. p\<lparr>pi_lock := held_lock (pi_lock (pipes s pi)) (hartid (hart s))\<rparr>))"
  by (simp add: acquire_pipe_def acquire_free [OF assms(1)] held_lock_def)

lemma release_pipe_ok:
  assumes "pipe_crit c l pi s"
  shows "release_pipe s pi = Inr (upd_pipe (s\<lparr>hart := settle c\<rparr>) pi (\<lambda>p. p\<lparr>pi_lock := l\<rparr>))"
proof -
  have c: "cpu_ok c" "lk_free l" "hart s = push_off c" "pi_lock (pipes s pi) = held_lock l (hartid c)"
    using assms by (simp_all add: pipe_crit_def)
  show ?thesis
    using release_held [OF c(2,1)] c(3,4) by (simp add: release_pipe_def held_lock_def)
qed

lemma killed_crit:
  assumes "pipe_crit c l pi s" "pipe_user T fps roots pr s"
  shows "killed s pr = Inr (s, 0)"
proof -
  have "settled s = s"
    using assms(1) by (simp add: settled_def pipe_crit_def)
  then show ?thesis
    using killed_ok [of s pr] assms(2) by (simp add: pipe_user_def)
qed

lemma wakeup_crit:
  assumes "pipe_crit c l pi s" "pipe_user T fps roots pr s"
  shows "wakeup s ch = Inr (s\<lparr>procs := wakes ch s\<rparr>)" "pipe_crit c l pi (s\<lparr>procs := wakes ch s\<rparr>)"
proof -
  have "settle (hart s) = hart s"
    using assms(1) by (auto simp: pipe_crit_def)
  then show "wakeup s ch = Inr (s\<lparr>procs := wakes ch s\<rparr>)" "pipe_crit c l pi (s\<lparr>procs := wakes ch s\<rparr>)"
    using wakeup_eq [of s ch] assms by (simp_all add: pipe_user_def pipe_crit_def)
qed

section \<open>Writing and reading\<close>

lemma copyin_byte:
  assumes "pipe_user T fps roots pr s" "user_read (mem s) (pagetable (procs s ! pr)) va (Suc n) = Some (b # bs)"
  shows "copyin s (pagetable (procs s ! pr)) va 1 = Inr (0, [b])" "user_read (mem s) (pagetable (procs s ! pr)) (va + 1) n = Some bs"
  using assms copyin_spec [of T s fps roots "pagetable (procs s ! pr)" va 1]
  by (auto simp: pipe_user_def copyin_ok_def split: option.splits)

text \<open>
  What the loop of the writer ends in, with \<open>left\<close> bytes to write, room for \<open>room\<close> of them and \<open>i\<close> written
  before: it returns with the locks free, or it is about to sleep on a full pipe. The readers are awake.
\<close>

definition wrote :: "cpu \<Rightarrow> spinlock \<Rightarrow> u64 \<Rightarrow> 'a pistate_scheme \<Rightarrow> nat \<Rightarrow> nat \<Rightarrow> nat \<Rightarrow> u8 list \<Rightarrow> fault + 'a pistate_scheme \<times> ptransfer \<Rightarrow> bool" where
  "wrote c l pi s left room i q r \<longleftrightarrow>
     (\<exists>p. pipe_holds p q \<and> pi_lock p = pi_lock (pipes s pi) \<and>
        r = (if left \<le> room then Inr (upd_pipe (s\<lparr>hart := settle c, procs := wakes (wread pi) s\<rparr>) pi (\<lambda>_. p\<lparr>pi_lock := l\<rparr>), Returned (int (i + left)))
             else Inr (upd_pipe (s\<lparr>procs := wakes (wread pi) s\<rparr>) pi (\<lambda>_. p), Asleep (i + room))))"

lemma wrote_step:
  assumes "wrote c l pi (upd_pipe s pi f) left room (Suc i) q r" "pi_lock (f (pipes s pi)) = pi_lock (pipes s pi)"
  shows "wrote c l pi s (Suc left) (Suc room) i q r"
  using assms by (auto simp: wrote_def upd_pipe_def)

lemma pipewrite_loop_ok:
  assumes "pipe_crit c l pi s" "pipe_user T fps roots pr s" "readopen (pipes s pi)" "pipe_holds (pipes s pi) q"
    and "user_read (mem s) (pagetable (procs s ! pr)) (addr + of_nat i) left = Some bs"
  shows "wrote c l pi s left (512 - length q) i (q @ take (512 - length q) bs) (pipewrite_loop left s pr pi addr i)"
  using assms
proof (induction left arbitrary: s q i bs)
  case 0
  note w = wakeup_crit [OF 0(1,2), of "wread pi"]
  show ?case
    using 0(4,5) w(1) release_pipe_ok [OF w(2)] by (auto simp: wrote_def upd_pipe_def intro!: exI [of _ "pipes s pi"])
next
  case (Suc left)
  note k = killed_crit [OF Suc(2,3)] and w = wakeup_crit [OF Suc(2,3), of "wread pi"]
  obtain b bs1 where bs: "bs = b # bs1"
    using Suc.prems(5) by (auto split: option.splits)
  show ?case
  proof (cases "length q = 512")
    case True
    then show ?thesis
      using Suc.prems(3,4) k w(1) pipe_full_iff [OF Suc.prems(4)]
      by (auto simp: wrote_def upd_pipe_def intro!: exI [of _ "pipes s pi"])
  next
    case False
    then have room: "length q < 512" "512 - length q = Suc (512 - length (q @ [b]))"
      using pipe_holds_length [OF Suc.prems(4)] by simp_all
    note cp = copyin_byte [OF Suc.prems(2) Suc.prems(5) [unfolded bs]]
    let ?s = "upd_pipe s pi (\<lambda>p. put_char p b)"
    have s: "pipe_crit c l pi ?s" "readopen (pipes ?s pi)" "pi_lock (put_char (pipes s pi) b) = pi_lock (pipes s pi)"
      using Suc.prems(1,3) by (simp_all add: pipe_crit_def put_char_def)
    have "wrote c l pi ?s left (512 - length (q @ [b])) (Suc i) ((q @ [b]) @ take (512 - length (q @ [b])) bs1)
        (pipewrite_loop left ?s pr pi addr (Suc i))"
      using Suc.prems(2) put_char_holds [OF Suc.prems(4) room(1), of b] cp(2) by (intro Suc.IH s(1,2)) (simp_all add: ac_simps)
    then have "wrote c l pi s (Suc left) (512 - length q) i (q @ take (512 - length q) bs) (pipewrite_loop left ?s pr pi addr (Suc i))"
      unfolding room(2) bs using wrote_step [where f = "\<lambda>p. put_char p b"] s(3) by simp
    moreover have "pipewrite_loop (Suc left) s pr pi addr i = pipewrite_loop left ?s pr pi addr (Suc i)"
      using Suc.prems(3) k cp(1) pipe_full_iff [OF Suc.prems(4)] False by simp
    ultimately show ?thesis
      by (simp only:)
  qed
qed

text \<open>The copying loop of the reader; a byte that cannot be stored would be lost, so the destination must be mapped.\<close>

lemma copyout_byte:
  assumes "pipe_user T fps roots pr s" "user_ok (mem s) (pagetable (procs s ! pr)) va (Suc n)"
  shows "\<exists>m. copyout s (pagetable (procs s ! pr)) va (\<lambda>_. b) 1 = Inr (s\<lparr>mem := m\<rparr>, 0) \<and>
    (\<forall>bs. user_write (mem s) (pagetable (procs s ! pr)) va (b # bs) = user_write m (pagetable (procs s ! pr)) (va + 1) bs) \<and>
    pipe_user T fps roots pr (s\<lparr>mem := m\<rparr>) \<and> user_ok m (pagetable (procs s ! pr)) (va + 1) n"
proof -
  let ?r = "pagetable (procs s ! pr)"
  have u: "vm_inv T s fps roots" "?r \<in> roots"
    using assms(1) by (simp_all add: pipe_user_def)
  obtain pa where pa: "xlate (mem s) ?r va = Some pa"
    using assms(2) by (auto simp: user_ok_Suc)
  note wb = user_write_byte [OF u pa, of b]
  have "copyout s ?r va (\<lambda>_. b) 1 = Inr (s\<lparr>mem := (mem s)(pa := b)\<rparr>, 0)"
    using copyout_spec [OF u, of va "\<lambda>_. b" 1] pa by (auto simp: copyout_ok_def)
  moreover have "user_ok ((mem s)(pa := b)) ?r (va + 1) n"
    using assms(2) xlate_same [OF wb(2) u(2)] unfolding user_ok_Suc by (simp add: user_ok_def)
  moreover have "pipe_user T fps roots pr (s\<lparr>mem := (mem s)(pa := b)\<rparr>)"
    using assms(1) wb(1) by (simp add: pipe_user_def idle_procs_def)
  ultimately show ?thesis
    using pa by (intro exI [of _ "(mem s)(pa := b)"]) simp
qed

lemma piperead_copy_ok:
  assumes "pipe_crit c l pi s" "pipe_user T fps roots pr s" "pipe_holds (pipes s pi) q"
    and "user_ok (mem s) (pagetable (procs s ! pr)) (addr + of_nat i) (min left (length q))"
  shows "\<exists>m p. piperead_copy left s pr pi addr i = Inr (upd_pipe (s\<lparr>mem := m\<rparr>) pi (\<lambda>_. p), i + min left (length q)) \<and>
    user_write (mem s) (pagetable (procs s ! pr)) (addr + of_nat i) (take left q) = Some m \<and>
    pipe_user T fps roots pr (s\<lparr>mem := m\<rparr>) \<and> pipe_holds p (drop left q) \<and> pi_lock p = pi_lock (pipes s pi)"
  using assms
proof (induction left arbitrary: s q i)
  case 0
  then show ?case
    by (intro exI [of _ "mem s"] exI [of _ "pipes s pi"]) (simp add: upd_pipe_def)
next
  case (Suc left)
  show ?case
  proof (cases q)
    case Nil
    then show ?thesis
      using Suc.prems pipe_empty_iff [OF Suc.prems(3)]
      by (intro exI [of _ "mem s"] exI [of _ "pipes s pi"]) (simp add: upd_pipe_def)
  next
    case (Cons b q1)
    note g = get_char_holds [OF Suc.prems(3) [unfolded Cons]]
    let ?r = "pagetable (procs s ! pr)" and ?s = "upd_pipe s pi (\<lambda>_. snd (get_char (pipes s pi)))"
    obtain m where m: "copyout ?s ?r (addr + of_nat i) (\<lambda>_. b) 1 = Inr (?s\<lparr>mem := m\<rparr>, 0)"
        "\<And>bs. user_write (mem s) ?r (addr + of_nat i) (b # bs) = user_write m ?r (addr + of_nat i + 1) bs"
        "pipe_user T fps roots pr (?s\<lparr>mem := m\<rparr>)" "user_ok m ?r (addr + of_nat i + 1) (min left (length q1))"
      using copyout_byte [of T fps roots pr ?s "addr + of_nat i" "min left (length q1)" b] Suc.prems(2,4) by (auto simp: Cons)
    have "pipe_crit c l pi (?s\<lparr>mem := m\<rparr>)" "pi_lock (snd (get_char (pipes s pi))) = pi_lock (pipes s pi)"
      using Suc.prems(1) by (simp_all add: pipe_crit_def get_char_def upd_pipe_def)
    then obtain m1 p where p: "piperead_copy left (?s\<lparr>mem := m\<rparr>) pr pi addr (Suc i) = Inr (upd_pipe (?s\<lparr>mem := m1\<rparr>) pi (\<lambda>_. p), Suc i + min left (length q1))"
        "user_write m ?r (addr + of_nat i + 1) (take left q1) = Some m1" "pipe_user T fps roots pr (?s\<lparr>mem := m1\<rparr>)"
        "pipe_holds p (drop left q1)" "pi_lock p = pi_lock (pipes s pi)"
      using Suc.IH [of "?s\<lparr>mem := m\<rparr>" q1 "Suc i"] m(3,4) g(2) by (auto simp: ac_simps upd_pipe_def)
    have "piperead_copy (Suc left) s pr pi addr i = piperead_copy left (?s\<lparr>mem := m\<rparr>) pr pi addr (Suc i)"
      using m(1) g(1) pipe_empty_iff [OF Suc.prems(3)] by (simp add: Cons split_beta Let_def)
    then show ?thesis
      using p m(2) by (intro exI [of _ m1] exI [of _ p]) (auto simp: Cons upd_pipe_def pipe_user_def idle_procs_def vm_inv_def kmem_inv_def)
  qed
qed

lemma piperead_locked_ok:
  assumes "pipe_crit c l pi s" "pipe_user T fps roots pr s" "pipe_holds (pipes s pi) q" "q \<noteq> [] \<or> \<not> writeopen (pipes s pi)"
    and "user_ok (mem s) (pagetable (procs s ! pr)) addr (min n (length q))"
  shows "\<exists>m p. piperead_locked s pr pi addr (int n) =
      Inr (upd_pipe (s\<lparr>mem := m, hart := settle c, procs := wakes (wwrite pi) s\<rparr>) pi (\<lambda>_. p\<lparr>pi_lock := l\<rparr>), Returned (int (min n (length q)))) \<and>
    user_write (mem s) (pagetable (procs s ! pr)) addr (take n q) = Some m \<and> pipe_holds p (drop n q)"
proof -
  have "\<not> (pipe_empty (pipes s pi) \<and> writeopen (pipes s pi))"
    using pipe_empty_iff [OF assms(3)] assms(4) by simp
  moreover obtain m p where p: "piperead_copy n s pr pi addr 0 = Inr (upd_pipe (s\<lparr>mem := m\<rparr>) pi (\<lambda>_. p), min n (length q))"
      "user_write (mem s) (pagetable (procs s ! pr)) addr (take n q) = Some m" "pipe_user T fps roots pr (s\<lparr>mem := m\<rparr>)"
      "pipe_holds p (drop n q)" "pi_lock p = pi_lock (pipes s pi)"
    using piperead_copy_ok [OF assms(1-3), of addr 0 n] assms(5) by auto
  moreover have c: "pipe_crit c l pi (upd_pipe (s\<lparr>mem := m\<rparr>) pi (\<lambda>_. p))"
    using assms(1) p(5) by (simp add: pipe_crit_def)
  have "pipe_user T fps roots pr (upd_pipe (s\<lparr>mem := m\<rparr>) pi (\<lambda>_. p))"
    using p(3) by simp
  note w = wakeup_crit [OF c this, of "wwrite pi"]
  show ?thesis
    using calculation w(1) release_pipe_ok [OF w(2)]
    by (intro exI [of _ m] exI [of _ p]) (auto simp: piperead_locked_def upd_pipe_def)
qed

section \<open>Property\<close>

text \<open>Entering the critical section.\<close>

lemma pipe_enter:
  assumes "pipe_user T fps roots pr s" "lk_free (pi_lock (pipes s pi))"
  shows "\<exists>s1. with_myproc s (\<lambda>s1 pr. bindr (acquire_pipe s1 pi) (\<lambda>s2. f s2 pr)) = f s1 pr \<and>
    s1 = upd_pipe (s\<lparr>hart := push_off (hart s)\<rparr>) pi (\<lambda>p. p\<lparr>pi_lock := held_lock (pi_lock (pipes s pi)) (hartid (hart s))\<rparr>) \<and>
    pipe_crit (hart s) (pi_lock (pipes s pi)) pi s1 \<and> pipe_user T fps roots pr s1"
proof -
  have ok: "cpu_ok (hart s)" "curproc s = Some pr"
    using assms(1) by (auto simp: pipe_user_def idle_procs_def)
  let ?s = "s\<lparr>hart := push_off (hart s)\<rparr>"
  have "pipe_user T fps roots pr ?s"
    using assms(1) push_off_ok [OF ok(1)] by (simp add: pipe_user_def idle_procs_def vm_inv_def kmem_inv_def)
  then show ?thesis
    using acquire_pipe_ok [of "settled s" pi] assms(2) ok
    by (simp add: with_myproc_ok settled_def pipe_crit_def)
qed

text \<open>
  C38 (refinement). A pipe is a bounded queue between two processes. A writer appends the bytes it finds in its
  memory as far as there is room, wakes the readers, and returns or, with the pipe full, sleeps; with the
  read end closed it returns -1. A reader finds the oldest bytes of the queue, as many as it asked for
  or as there are, stored in its own memory, and wakes the writers; on an empty pipe it sleeps while the write end
  is open and returns 0 once it is closed. The locks are free after every return.
\<close>

theorem pipe_fifo:
  fixes s :: "'a pistate_scheme"
  defines "root \<equiv> \<lambda>pr. pagetable (procs s ! pr)" and "free \<equiv> \<lambda>pi t. lk_free (pi_lock (pipes (t :: 'a pistate_scheme) pi)) \<and> hart t = settle (hart s)"
  assumes "pipe_user T fps roots pr s" "lk_free (pi_lock (pipes s pi))" "pipe_holds (pipes s pi) q"
  shows "(readopen (pipes s pi) \<longrightarrow> user_read (mem s) (root pr) addr n = Some bs \<longrightarrow>
      (\<exists>t. pipewrite s pi addr (int n) = Inr (t, if n \<le> 512 - length q then Returned (int n) else Asleep (512 - length q)) \<and>
         pipe_holds (pipes t pi) (q @ take (512 - length q) bs) \<and> mem t = mem s \<and> procs t = wakes (wread pi) s \<and> (n \<le> 512 - length q \<longrightarrow> free pi t))) \<and>
    (\<not> readopen (pipes s pi) \<and> 0 < n \<longrightarrow> (\<exists>t. pipewrite s pi addr (int n) = Inr (t, Returned (-1)) \<and> pipe_holds (pipes t pi) q \<and> free pi t)) \<and>
    (q \<noteq> [] \<or> \<not> writeopen (pipes s pi) \<longrightarrow> user_ok (mem s) (root pr) addr (min n (length q)) \<longrightarrow>
      (\<exists>t. piperead s pi addr (int n) = Inr (t, Returned (int (min n (length q)))) \<and> pipe_holds (pipes t pi) (drop n q) \<and>
         user_write (mem s) (root pr) addr (take n q) = Some (mem t) \<and> procs t = wakes (wwrite pi) s \<and> free pi t)) \<and>
    (q = [] \<and> writeopen (pipes s pi) \<longrightarrow> (\<exists>t. piperead s pi addr (int n) = Inr (t, Asleep 0) \<and> pipe_holds (pipes t pi) q \<and> mem t = mem s))"
    (is "?wr \<and> ?closed \<and> ?rd \<and> ?empty")
proof -
  obtain s1 where s1: "pipe_crit (hart s) (pi_lock (pipes s pi)) pi s1" "pipe_user T fps roots pr s1"
      "s1 = upd_pipe (s\<lparr>hart := push_off (hart s)\<rparr>) pi (\<lambda>p. p\<lparr>pi_lock := held_lock (pi_lock (pipes s pi)) (hartid (hart s))\<rparr>)"
    and w: "pipewrite s pi addr (int n) = pipewrite_loop n s1 pr pi addr 0" and r: "piperead s pi addr (int n) = piperead_locked s1 pr pi addr (int n)"
    using pipe_enter [OF assms(3,4), of "\<lambda>s2 pr. pipewrite_loop n s2 pr pi addr 0"] pipe_enter [OF assms(3,4), of "\<lambda>s2 pr. piperead_locked s2 pr pi addr (int n)"]
    by (auto simp: pipewrite_def piperead_def)
  have f: "mem s1 = mem s" "procs s1 = procs s" "curproc s1 = curproc s" "pipe_holds (pipes s1 pi) q" "readopen (pipes s1 pi) = readopen (pipes s pi)"
      "writeopen (pipes s1 pi) = writeopen (pipes s pi)"
    using assms(5) by (simp_all add: s1(3))
  have ?wr
    using pipewrite_loop_ok [OF s1(1,2) _ f(4), of addr 0 n bs] f assms(4) unfolding w wrote_def
    by (auto simp: root_def free_def)
  moreover have ?closed
    using release_pipe_ok [OF s1(1)] f assms(4) unfolding w by (cases n) (auto simp: free_def)
  moreover have ?rd
    using piperead_locked_ok [OF s1(1,2) f(4), of addr n] f assms(4) unfolding r by (fastforce simp: root_def free_def)
  moreover have ?empty
    using killed_crit [OF s1(1,2)] pipe_empty_iff [OF f(4)] f unfolding r by (auto simp: piperead_locked_def)
  ultimately show ?thesis
    by blast
qed

text \<open>A process of the small machine at a pipe whose counters are about to wrap around, with two bytes in it.\<close>

definition pipe_machine :: pistate where
  "pipe_machine = (istate.extend (boot_raw []) (pistate.fields
     (\<lambda>_. \<lparr>pi_lock = \<lparr>locked = 0, lk_name = ''pipe'', lk_cpu = None\<rparr>, pi_data = replicate 510 0 @ [1, 2], nread = 0xfffffffe, nwrite = 0,
        readopen = True, writeopen = True\<rparr>)))
     \<lparr>mem := small_mem 5, freelist := freelist (small 5), procs := (replicate 64 blank_proc)[0 := blank_proc\<lparr>pagetable := root1\<rparr>]\<rparr>"

lemma pipe_machine_ok:
  "pipe_user (small_type 5) (pool 5) {root1, root2} 0 pipe_machine" "lk_free (pi_lock (pipes pipe_machine 0))" "pipe_holds (pipes pipe_machine 0) [1, 2]"
proof -
  have p: "procs pipe_machine = (replicate 64 blank_proc)[0 := blank_proc\<lparr>pagetable := root1\<rparr>]" "curproc pipe_machine = Some 0"
      "mem pipe_machine = mem (small 5)" "freelist pipe_machine = freelist (small 5)" "kend pipe_machine = kend (small 5)"
      "kmem_lock pipe_machine = kmem_lock (small 5)" "hart pipe_machine = hart (small 5)"
    by (simp_all add: pipe_machine_def small_def boot_raw_def istate.defs pistate.defs pstate.defs tstate.defs bstate.defs lstate.defs
        blank_pstate_def del: replicate.simps)
  have "vm_inv (small_type 5) pipe_machine (pool 5) {root1, root2}"
    using small_inv [of 5] by (simp add: vm_inv_def kmem_inv_def p)
  moreover have "idle_procs pipe_machine"
    by (auto simp: idle_procs_def p small_def blank_proc_def lk_free_def cpu_ok_def nth_list_update nth_replicate simp del: replicate.simps)
  moreover have "procs pipe_machine ! 0 = blank_proc\<lparr>pagetable := root1\<rparr>"
    by (simp add: p)
  ultimately show "pipe_user (small_type 5) (pool 5) {root1, root2} 0 pipe_machine"
    by (simp add: pipe_user_def p blank_proc_def)
  show "lk_free (pi_lock (pipes pipe_machine 0))" "pipe_holds (pipes pipe_machine 0) [1, 2]"
    by (auto simp: pipe_machine_def pistate.defs istate.defs lk_free_def pipe_holds_def ring_holds_def less_Suc_eq nth_append simp del: replicate.simps)
qed

lemma user_ok_read: "user_ok m root va n \<Longrightarrow> \<exists>bs. user_read m root va n = Some bs \<and> length bs = n"
proof (induction n arbitrary: va)
  case (Suc n)
  then show ?case
    using Suc.IH [of "va + 1"] by (force simp: user_ok_Suc)
qed simp

theorem pipe_fifo_witness:
  "(\<exists>t bs. length bs = 3 \<and> pipewrite pipe_machine 0 0 3 = Inr (t, Returned 3) \<and> pipe_holds (pipes t 0) ([1, 2] @ bs)) \<and>
   (\<exists>t. piperead pipe_machine 0 0 1 = Inr (t, Returned 1) \<and> pipe_holds (pipes t 0) [2])"
proof -
  have m: "mem pipe_machine = small_mem 5" "pagetable (procs pipe_machine ! 0) = root1" "readopen (pipes pipe_machine 0)"
    by (simp_all add: pipe_machine_def pistate.defs istate.defs del: replicate.simps)
  obtain bs where bs: "user_read (small_mem 5) root1 0 3 = Some bs" "length bs = 3"
    using user_ok_read [OF small_k_user [of 5 root1 0 3]] by auto
  note f = pipe_fifo [OF pipe_machine_ok, of 0]
  show ?thesis
    using f [of 3 bs] f [of 1] bs m small_k_user [of 5 root1 0 1] by (auto simp: unat_0)
qed

end
