(* ===== verification/Ulib.thy ===== *)
theory Ulib
  imports Cstring
begin

text \<open>
  \<^verbatim>\<open>user/ulib.c\<close>, the library the user programs are linked with, and the conversions of
  \<^verbatim>\<open>user/printf.c\<close>. A string that is only read is the list of its bytes before the NUL; the routines that
  store through a pointer work on the byte store. A call of \<open>read\<close>, \<open>write\<close> or another system call is an
  argument of the routine that makes it. The routines that have a namesake in the kernel have the prefix \<open>u_\<close>.
\<close>

section \<open>Strings\<close>

text \<open>\<open>strcpy\<close> returns only if there is a NUL after \<open>t\<close>.\<close>

partial_function (option) strcpy :: "memory \<Rightarrow> u64 \<Rightarrow> u64 \<Rightarrow> memory option" where
  "strcpy m s t = (if m t \<noteq> 0 then strcpy (m(s := m t)) (s + 1) (t + 1) else Some (m(s := m t)))"

fun strcmp :: "u8 list \<Rightarrow> u8 list \<Rightarrow> int" where
  "strcmp [] [] = 0"
| "strcmp [] (q # qs) = - int (unat q)"
| "strcmp (p # ps) [] = int (unat p)"
| "strcmp (p # ps) (q # qs) = (if p = q then strcmp ps qs else int (unat p) - int (unat q))"

fun u_strlen :: "u8 list \<Rightarrow> nat" where
  "u_strlen [] = 0"
| "u_strlen (c # cs) = Suc (u_strlen cs)"

text \<open>\<open>strchr\<close> gives the offset of the character, \<open>None\<close> for the null pointer; it never finds the NUL.\<close>

fun strchr :: "u8 list \<Rightarrow> u8 \<Rightarrow> nat option" where
  "strchr [] c = None"
| "strchr (x # xs) c = (if x = c then Some 0 else map_option Suc (strchr xs c))"

text \<open>The digits loop of \<open>atoi\<close>, on \<open>int\<close> values of 32 bits.\<close>

fun atoi_loop :: "u32 \<Rightarrow> u8 list \<Rightarrow> u32" where
  "atoi_loop n [] = n"
| "atoi_loop n (c # cs) = (if 48 \<le> c \<and> c \<le> 57 then atoi_loop (n * 10 + ucast c - 48) cs else n)"

definition atoi :: "u8 list \<Rightarrow> int" where
  "atoi s = sint (atoi_loop 0 s)"

text \<open>
  \<open>gets\<close>: \<open>rd\<close> is \<open>read(0, &c, 1)\<close>, which gives the new state of the input and the byte, or \<open>None\<close> when it
  returns less than 1. The result is the string left in the buffer; \<open>i + k = max - 1\<close>.
\<close>

fun gets_loop :: "('w \<Rightarrow> 'w \<times> u8 option) \<Rightarrow> nat \<Rightarrow> 'w \<Rightarrow> u8 list \<Rightarrow> 'w \<times> u8 list" where
  "gets_loop rd 0 w bs = (w, bs)"
| "gets_loop rd (Suc k) w bs =
     (case rd w of (w1, None) \<Rightarrow> (w1, bs)
      | (w1, Some c) \<Rightarrow> if c = 10 \<or> c = 13 then (w1, bs @ [c]) else gets_loop rd k w1 (bs @ [c]))"

definition gets :: "('w \<Rightarrow> 'w \<times> u8 option) \<Rightarrow> int \<Rightarrow> 'w \<Rightarrow> 'w \<times> u8 list" where
  "gets rd mx w = gets_loop rd (nat (mx - 1)) w []"

text \<open>\<open>stat\<close>, with the three system calls it makes; \<open>O_RDONLY\<close> is 0.\<close>

definition u_stat :: "('w \<Rightarrow> u8 list \<Rightarrow> int \<Rightarrow> 'w \<times> int) \<Rightarrow> ('w \<Rightarrow> int \<Rightarrow> 'w \<times> int \<times> 'st) \<Rightarrow> ('w \<Rightarrow> int \<Rightarrow> 'w \<times> int) \<Rightarrow>
    'w \<Rightarrow> u8 list \<Rightarrow> 'st \<Rightarrow> 'w \<times> int \<times> 'st" where
  "u_stat sopen sfstat sclose w n st =
     (let (w1, fd) = sopen w n 0
      in if fd < 0 then (w1, -1, st)
         else let (w2, r, st1) = sfstat w1 fd; (w3, _) = sclose w2 fd in (w3, r, st1))"

section \<open>Memory\<close>

fun u_memset_loop :: "memory \<Rightarrow> u64 \<Rightarrow> u8 \<Rightarrow> nat \<Rightarrow> nat \<Rightarrow> memory" where
  "u_memset_loop m cdst c i 0 = m"
| "u_memset_loop m cdst c i (Suc k) = u_memset_loop (m(cdst + of_nat i := c)) cdst c (Suc i) k"

definition u_memset :: "memory \<Rightarrow> u64 \<Rightarrow> u8 \<Rightarrow> nat \<Rightarrow> memory" where
  "u_memset m dst c n = u_memset_loop m dst c 0 n"

text \<open>The two loops of \<open>memmove\<close> copy upwards from a higher source and downwards otherwise.\<close>

definition u_memmove :: "memory \<Rightarrow> u64 \<Rightarrow> u64 \<Rightarrow> int \<Rightarrow> memory" where
  "u_memmove m vdst vsrc n =
     (if vsrc > vdst then copy_up m vdst vsrc (nat n)
      else copy_down m (vdst + of_int n) (vsrc + of_int n) (nat n))"

fun u_memcmp :: "memory \<Rightarrow> u64 \<Rightarrow> u64 \<Rightarrow> nat \<Rightarrow> int" where
  "u_memcmp m p1 p2 0 = 0"
| "u_memcmp m p1 p2 (Suc n) =
     (if m p1 \<noteq> m p2 then int (unat (m p1)) - int (unat (m p2)) else u_memcmp m (p1 + 1) (p2 + 1) n)"

definition u_memcpy :: "memory \<Rightarrow> u64 \<Rightarrow> u64 \<Rightarrow> nat \<Rightarrow> memory" where
  "u_memcpy m dst src n = u_memmove m dst src (int n)"

section \<open>Conversions of printf\<close>

definition udigits :: "u8 list" where
  "udigits = [48, 49, 50, 51, 52, 53, 54, 55, 56, 57, 65, 66, 67, 68, 69, 70]"

text \<open>
  The loop that fills \<open>buf\<close> with digits, lowest first, for the bases 10 and 16 the callers pass;
  \<open>i\<close> digits are in the buffer of 16 already.
\<close>

function digit_loop :: "u8 list \<Rightarrow> u32 \<Rightarrow> u32 \<Rightarrow> nat \<Rightarrow> u8 list option" where
  "digit_loop dg base x i =
     (if i \<ge> 16 \<or> x mod base \<ge> of_nat (length dg) then None
      else if x div base = 0 then Some [dg ! unat (x mod base)]
      else map_option ((#) (dg ! unat (x mod base))) (digit_loop dg base (x div base) (Suc i)))"
  by pat_completeness auto
termination
  by (relation "measure (\<lambda>(dg, base, x, i). 16 - i)") auto

declare digit_loop.simps [simp del]

text \<open>The bytes that \<open>printint\<close> writes; \<open>None\<close> where it would leave its buffer or its table of digits.\<close>

definition sign_digits :: "u8 list \<Rightarrow> bool \<Rightarrow> u8 list option" where
  "sign_digits ds neg = (if neg then (if length ds < 16 then Some (rev (ds @ [45])) else None) else Some (rev ds))"

definition u_printint :: "u32 \<Rightarrow> u32 \<Rightarrow> bool \<Rightarrow> u8 list option" where
  "u_printint xx base sg =
     (let neg = (sg \<and> sint xx < 0); x = (if neg then - xx else xx)
      in case digit_loop udigits base x 0 of None \<Rightarrow> None | Some ds \<Rightarrow> sign_digits ds neg)"

fun ptr_digits :: "u8 list \<Rightarrow> nat \<Rightarrow> u64 \<Rightarrow> u8 list" where
  "ptr_digits dg 0 x = []"
| "ptr_digits dg (Suc k) x = dg ! unat (drop_bit 60 x) # ptr_digits dg k (push_bit 4 x)"

definition u_printptr :: "u64 \<Rightarrow> u8 list" where
  "u_printptr x = [48, 120] @ ptr_digits udigits 16 x"

text \<open>
  The variable arguments: a register, or a pointer to a string (\<open>None\<close> is the null pointer). A
  conversion without its argument, or of the wrong kind, has no defined result.
\<close>

datatype varg = VReg u64 | VStr "u8 list option"

definition null_text :: "u8 list" where
  "null_text = [40, 110, 117, 108, 108, 41]"

text \<open>One conversion: the output and the arguments left.\<close>

fun uconv :: "u8 \<Rightarrow> varg list \<Rightarrow> (u8 list \<times> varg list) option" where
  "uconv c ap =
     (if c = 37 then Some ([c], ap)
      else if c \<notin> {100, 108, 120, 112, 115, 99} then Some ([37, c], ap)
      else case ap of [] \<Rightarrow> None
      | VStr so # ap1 \<Rightarrow> if c = 115 then Some (case so of None \<Rightarrow> null_text | Some bs \<Rightarrow> bs, ap1) else None
      | VReg v # ap1 \<Rightarrow>
          if c = 100 then map_option (\<lambda>o1. (o1, ap1)) (u_printint (ucast v) 10 True)
          else if c = 108 then map_option (\<lambda>o1. (o1, ap1)) (u_printint (ucast v) 10 False)
          else if c = 120 then map_option (\<lambda>o1. (o1, ap1)) (u_printint (ucast v) 16 False)
          else if c = 112 then Some (u_printptr v, ap1)
          else if c = 99 then Some ([ucast v], ap1) else None)"

text \<open>\<open>vprintf\<close>, with \<open>pct\<close> for its \<open>state\<close>; the result is what it writes to the descriptor.\<close>

fun vprintf_loop :: "bool \<Rightarrow> u8 list \<Rightarrow> varg list \<Rightarrow> u8 list option" where
  "vprintf_loop pct [] ap = Some []"
| "vprintf_loop False (c # fmt) ap =
     (if c = 37 then vprintf_loop True fmt ap else map_option ((#) c) (vprintf_loop False fmt ap))"
| "vprintf_loop True (c # fmt) ap =
     (case uconv c ap of None \<Rightarrow> None | Some (out, ap1) \<Rightarrow> map_option ((@) out) (vprintf_loop False fmt ap1))"

definition vprintf :: "u8 list \<Rightarrow> varg list \<Rightarrow> u8 list option" where
  "vprintf fmt ap = vprintf_loop False fmt ap"

text \<open>\<open>fprintf\<close> and \<open>printf\<close>: what goes to which descriptor.\<close>

definition fprintf :: "int \<Rightarrow> u8 list \<Rightarrow> varg list \<Rightarrow> (int \<times> u8 list) option" where
  "fprintf fd fmt ap = map_option (Pair fd) (vprintf fmt ap)"

definition u_printf :: "u8 list \<Rightarrow> varg list \<Rightarrow> (int \<times> u8 list) option" where
  "u_printf fmt ap = fprintf 1 fmt ap"

section \<open>Printed numbers\<close>

text \<open>The number that a list of digits stands for, lowest digit first.\<close>

definition digits_value :: "nat \<Rightarrow> nat list \<Rightarrow> nat" where
  "digits_value b vs = foldr (\<lambda>v acc. v + b * acc) vs 0"

lemma digit_loop_ok:
  assumes "length dg = 16" "2 \<le> unat base" "unat base \<le> 16"
  shows "unat x < unat base ^ Suc n \<Longrightarrow> i + Suc n \<le> 16 \<Longrightarrow>
    \<exists>vs. digit_loop dg base x i = Some (map ((!) dg) vs) \<and> vs \<noteq> [] \<and> length vs \<le> Suc n \<and>
      (\<forall>v \<in> set vs. v < unat base) \<and> digits_value (unat base) vs = unat x"
proof (induction n arbitrary: x i)
  case 0
  have m: "\<not> x mod base \<ge> of_nat (length dg)"
    using assms 0(1) by (simp add: word_le_nat_alt unat_mod)
  have "x div base = 0" "unat (x mod base) = unat x"
    using 0(1) by (simp_all add: unat_mod unat_div flip: unat_eq_0)
  then have "digit_loop dg base x i = Some (map ((!) dg) [unat x])"
    using 0(2) m by (simp add: digit_loop.simps)
  then show ?case
    using 0(1) by (intro exI [of _ "[unat x]"]) (simp add: digits_value_def)
next
  case (Suc n)
  let ?d = "unat (x mod base)"
  have d: "?d = unat x mod unat base" "?d < unat base"
    using assms(2) by (simp_all add: unat_mod)
  have q: "unat (x div base) = unat x div unat base"
    by (simp add: unat_div)
  have "?d < 16"
    using d(2) assms(3) by linarith
  then have m: "\<not> x mod base \<ge> of_nat (length dg)"
    by (simp add: word_le_nat_alt assms(1))
  show ?case
  proof (cases "x div base = 0")
    case True
    then have "unat x div unat base = 0"
      using q by simp
    then have "digits_value (unat base) [?d] = unat x"
      using d by (simp add: digits_value_def) (metis div_eq_0_iff mod_less not_numeral_le_zero assms(2))
    then show ?thesis
      using True Suc.prems(2) m d by (intro exI [of _ "[?d]"]) (simp add: digit_loop.simps [of dg base x])
  next
    case False
    have "unat (x div base) < unat base ^ Suc n"
      using Suc.prems(1) assms(2) unfolding q by (simp add: less_mult_imp_div_less mult.commute)
    then obtain vs where vs: "digit_loop dg base (x div base) (Suc i) = Some (map ((!) dg) vs)" "length vs \<le> Suc n"
        "\<forall>v \<in> set vs. v < unat base" "digits_value (unat base) vs = unat (x div base)"
      using Suc.IH [of "x div base" "Suc i"] Suc.prems(2) by auto
    then have "digits_value (unat base) (?d # vs) = unat x"
      using d q by (simp add: digits_value_def)
    then show ?thesis
      using vs False Suc.prems(2) m d by (intro exI [of _ "?d # vs"]) (simp add: digit_loop.simps [of dg base x])
  qed
qed

lemma udigits_decimal:
  "list_all (\<lambda>v. 48 \<le> udigits ! v \<and> udigits ! v \<le> 57 \<and> (ucast (udigits ! v) :: u32) = 48 + of_nat v) [0..<10]"
  by code_simp

lemma atoi_loop_digits:
  "\<forall>v \<in> set vs. v < 10 \<Longrightarrow> atoi_loop n (map ((!) udigits) vs) = foldl (\<lambda>a v. a * 10 + of_nat v) n vs"
proof (induction vs arbitrary: n)
  case (Cons v vs)
  have "v < 10"
    using Cons.prems by simp
  then have "48 \<le> udigits ! v" "udigits ! v \<le> 57" "(ucast (udigits ! v) :: u32) = 48 + of_nat v"
    using udigits_decimal by (simp_all add: list_all_iff)
  then show ?case
    using Cons by simp
qed simp

lemma foldl_value: "foldl (\<lambda>a v. a * 10 + of_nat v) 0 (rev vs) = (of_nat (digits_value 10 vs) :: u32)"
proof -
  have "foldr (\<lambda>v a. a * 10 + of_nat v) vs 0 = (of_nat (digits_value 10 vs) :: u32)"
    by (induction vs) (simp_all add: digits_value_def algebra_simps)
  then show ?thesis
    by (simp add: foldr_conv_foldl)
qed

text \<open>The buffer of 16 bytes is large enough for both bases.\<close>

lemma digit_loop_bases:
  assumes "length dg = 16" "base \<in> {10, 16}"
  shows "\<exists>vs. digit_loop dg base x 0 = Some (map ((!) dg) vs) \<and> length vs \<le> 10 \<and> (\<forall>v \<in> set vs. v < unat base) \<and>
    digits_value (unat base) vs = unat x"
proof -
  have "unat x < 2 ^ 32"
    using unsigned_less [of x] by simp
  then have "unat x < unat base ^ Suc 9"
    using assms(2) by auto
  then show ?thesis
    using digit_loop_ok [OF assms(1), of base x 9 0] assms(2) by auto
qed

lemma sign_digits_some: "length ds < 16 \<Longrightarrow> sign_digits ds neg = Some ((if neg then [45] else []) @ rev ds)"
  by (simp add: sign_digits_def)

lemma printint_bytes:
  assumes "base \<in> {10, 16}" "neg = (sg \<and> sint xx < 0)"
  shows "\<exists>vs. u_printint xx base sg = Some ((if neg then [45] else []) @ map ((!) udigits) (rev vs)) \<and>
    (\<forall>v \<in> set vs. v < unat base) \<and> digits_value (unat base) vs = unat (if neg then - xx else xx) \<and> length vs \<le> 10"
proof -
  let ?x = "if neg then - xx else xx"
  have "length udigits = 16"
    by (simp add: udigits_def)
  then obtain vs where vs: "digit_loop udigits base ?x 0 = Some (map ((!) udigits) vs)" "length vs \<le> 10"
      "\<forall>v \<in> set vs. v < unat base" "digits_value (unat base) vs = unat ?x"
    using digit_loop_bases [of udigits base ?x] assms(1) by blast
  then have "u_printint xx base sg = Some ((if neg then [45] else []) @ map ((!) udigits) (rev vs))"
    using sign_digits_some [of "map ((!) udigits) vs" neg] by (simp add: u_printint_def assms(2) rev_map)
  then show ?thesis
    using vs by blast
qed

text \<open>
  C37 (roundtrip). \<open>printint\<close> stays within its buffer of 16 bytes and its table of digits for every \<open>int\<close> and both
  bases, and \<open>atoi\<close> reads back every number that is not negative, in decimal; a negative number is printed
  as a minus sign and the digits of its magnitude, the most negative one included.
\<close>

theorem printint_atoi:
  "\<exists>bs. u_printint xx 10 True = Some bs \<and> u_printint xx 16 False \<noteq> None \<and>
     (if 0 \<le> sint xx then atoi bs = sint xx else hd bs = 45 \<and> atoi_loop 0 (tl bs) = - xx) \<and> length bs \<le> 11"
proof -
  let ?neg = "True \<and> sint xx < 0"
  obtain vs where vs: "u_printint xx 10 True = Some ((if ?neg then [45] else []) @ map ((!) udigits) (rev vs))"
      "\<forall>v \<in> set vs. v < 10" "digits_value 10 vs = unat (if ?neg then - xx else xx)" "length vs \<le> 10"
    using printint_bytes [of 10 ?neg True xx] by auto
  have "atoi_loop 0 (map ((!) udigits) (rev vs)) = (if ?neg then - xx else xx)"
    using vs(2) atoi_loop_digits [of "rev vs" 0] foldl_value [of vs] by (simp add: vs(3))
  moreover have "u_printint xx 16 False \<noteq> None"
    using printint_bytes [of 16 False False xx] by auto
  ultimately show ?thesis
    using vs(1,4) by (auto simp: atoi_def)
qed

end
