(* ===== verification/Grep.thy ===== *)
theory Grep
  imports Ulib
begin

text \<open>
  \<^verbatim>\<open>user/grep.c\<close>: the matcher for patterns with \<open>^ . * $\<close> and the loop that reads a file through a
  buffer of 1024 bytes and prints the lines that match. The reference is the language of a pattern; the
  loop is compared with filtering the complete lines of the input.
\<close>

section \<open>The matcher\<close>

abbreviation "CARET \<equiv> 94 :: u8"
abbreviation "DOLLAR \<equiv> 36 :: u8"
abbreviation "STAR \<equiv> 42 :: u8"
abbreviation "PERIOD \<equiv> 46 :: u8"
abbreviation "NL \<equiv> 10 :: u8"

function (sequential) matchhere :: "u8 list \<Rightarrow> u8 list \<Rightarrow> bool"
  and matchstar :: "u8 \<Rightarrow> u8 list \<Rightarrow> u8 list \<Rightarrow> bool" where
  "matchhere [] tx = True"
| "matchhere (c # re) tx =
     (if re \<noteq> [] \<and> hd re = STAR then matchstar c (tl re) tx
      else if c = DOLLAR \<and> re = [] then tx = []
      else if tx \<noteq> [] \<and> (c = PERIOD \<or> c = hd tx) then matchhere re (tl tx)
      else False)"
| "matchstar c re tx =
     (if matchhere re tx then True
      else if tx \<noteq> [] \<and> (hd tx = c \<or> c = PERIOD) then matchstar c re (tl tx)
      else False)"
  by pat_completeness auto
termination
  by (relation "measures [\<lambda>x. case x of Inl (re, tx) \<Rightarrow> length re | Inr (c, re, tx) \<Rightarrow> length re,
        \<lambda>x. case x of Inl (re, tx) \<Rightarrow> length tx | Inr (c, re, tx) \<Rightarrow> Suc (length tx)]") auto

declare matchhere.simps(2) [simp del] matchstar.simps [simp del]

text \<open>The loop of \<open>match\<close> looks at every suffix, the empty one included.\<close>

fun match_loop :: "u8 list \<Rightarrow> u8 list \<Rightarrow> bool" where
  "match_loop re tx = (if matchhere re tx then True else case tx of [] \<Rightarrow> False | c # cs \<Rightarrow> match_loop re cs)"

declare match_loop.simps [simp del]

definition match :: "u8 list \<Rightarrow> u8 list \<Rightarrow> bool" where
  "match re tx = (if re \<noteq> [] \<and> hd re = CARET then matchhere (tl re) tx else match_loop re tx)"

section \<open>The buffer loop\<close>

text \<open>
  The lines of the buffer: \<open>p\<close> is the buffer from the pointer \<open>p\<close> up to the NUL stored at \<open>buf[m]\<close>. The result is
  what is printed and what is left. \<open>strchr\<close> stops at a NUL of the input.
\<close>

definition c_string :: "u8 list \<Rightarrow> u8 list" where
  "c_string bs = takeWhile (\<lambda>c. c \<noteq> 0) bs"

lemma strchr_less: "strchr bs c = Some q \<Longrightarrow> q < length bs"
  by (induction bs arbitrary: q) (auto split: if_splits)

lemma strchr_c_string: "strchr (c_string p) c = Some q \<Longrightarrow> q < length p"
  using strchr_less [of "c_string p" c q] length_takeWhile_le [of "\<lambda>c. c \<noteq> 0" p] by (simp add: c_string_def)

function grep_lines :: "u8 list \<Rightarrow> u8 list \<Rightarrow> u8 list \<times> u8 list" where
  "grep_lines pattern p =
     (case strchr (c_string p) NL of
        None \<Rightarrow> ([], p)
      | Some q \<Rightarrow>
          let out = (if match pattern (take q p) then take (q + 1) p else []);
              (out1, rest) = grep_lines pattern (drop (q + 1) p)
          in (out @ out1, rest))"
  by pat_completeness auto
termination
  by (relation "measure (\<lambda>(pattern, p). length p)") (auto dest: strchr_c_string)

declare grep_lines.simps [simp del]

text \<open>
  The outer loop. \<open>rd rest n\<close> is how many bytes of the rest of the input \<open>read\<close> delivers when it is asked for
  \<open>n\<close>; \<open>bs\<close> holds the first \<open>m\<close> bytes of \<open>buf\<close>.
\<close>

function grep_loop :: "(u8 list \<Rightarrow> nat \<Rightarrow> nat) \<Rightarrow> u8 list \<Rightarrow> u8 list \<Rightarrow> u8 list \<Rightarrow> u8 list" where
  "grep_loop rd pattern bs rest =
     (let n = min (rd rest (1024 - length bs - 1)) (length rest)
      in if n = 0 then []
         else let (out, bs1) = grep_lines pattern (bs @ take n rest) in out @ grep_loop rd pattern bs1 (drop n rest))"
  by pat_completeness auto
termination
  by (relation "measure (\<lambda>(rd, pattern, bs, rest). length rest)") auto

declare grep_loop.simps [simp del]

definition grep :: "(u8 list \<Rightarrow> nat \<Rightarrow> nat) \<Rightarrow> u8 list \<Rightarrow> u8 list \<Rightarrow> u8 list" where
  "grep rd pattern input = grep_loop rd pattern [] input"

section \<open>The language of a pattern\<close>

text \<open>A pattern is a sequence of characters and starred characters, possibly anchored at the end.\<close>

datatype item = One u8 | Many u8

fun items :: "u8 list \<Rightarrow> item list \<times> bool" where
  "items [] = ([], False)"
| "items [c] = (if c = DOLLAR then ([], True) else ([One c], False))"
| "items (c # d # re) =
     (if d = STAR then apfst ((#) (Many c)) (items re) else apfst ((#) (One c)) (items (d # re)))"

definition char_ok :: "u8 \<Rightarrow> u8 \<Rightarrow> bool" where
  "char_ok c d \<longleftrightarrow> c = PERIOD \<or> c = d"

inductive in_lang :: "item list \<Rightarrow> u8 list \<Rightarrow> bool" where
  Nil: "in_lang [] []"
| One: "char_ok c d \<Longrightarrow> in_lang its ds \<Longrightarrow> in_lang (One c # its) (d # ds)"
| Many: "list_all (char_ok c) es \<Longrightarrow> in_lang its ds \<Longrightarrow> in_lang (Many c # its) (es @ ds)"

inductive_simps in_lang_Nil: "in_lang [] ds"
inductive_simps in_lang_One: "in_lang (One c # its) ds"
inductive_simps in_lang_Many: "in_lang (Many c # its) ds"

lemmas in_lang_simps = in_lang_Nil in_lang_One in_lang_Many

text \<open>A text that begins with a word of the language, or is one if the pattern is anchored.\<close>

definition begins :: "item list \<times> bool \<Rightarrow> u8 list \<Rightarrow> bool" where
  "begins it tx \<longleftrightarrow> (\<exists>v w. tx = v @ w \<and> in_lang (fst it) v \<and> (snd it \<longrightarrow> w = []))"

definition pattern_matches :: "u8 list \<Rightarrow> u8 list \<Rightarrow> bool" where
  "pattern_matches re tx \<longleftrightarrow>
     (if re \<noteq> [] \<and> hd re = CARET then begins (items (tl re)) tx
      else \<exists>u v. tx = u @ v \<and> begins (items re) v)"

lemma begins_Nil: "begins ([], False) tx"
  by (auto simp: begins_def in_lang_simps)

lemma begins_end: "begins ([], True) tx \<longleftrightarrow> tx = []"
  by (auto simp: begins_def in_lang_simps)

lemma begins_One:
  "begins (apfst ((#) (One c)) it) tx \<longleftrightarrow> tx \<noteq> [] \<and> (c = PERIOD \<or> c = hd tx) \<and> begins it (tl tx)"
proof (cases tx)
  case Nil
  then show ?thesis
    by (auto simp: begins_def in_lang_simps)
next
  case (Cons d ds)
  then show ?thesis
    by (cases it) (auto simp: begins_def in_lang_simps char_ok_def Cons_eq_append_conv)
qed

lemma begins_Many:
  "begins (apfst ((#) (Many c)) it) tx \<longleftrightarrow>
     begins it tx \<or> tx \<noteq> [] \<and> (hd tx = c \<or> c = PERIOD) \<and> begins (apfst ((#) (Many c)) it) (tl tx)"
proof -
  obtain its e where it: "it = (its, e)"
    by (cases it)
  have unfold: "begins (apfst ((#) (Many c)) it) t \<longleftrightarrow>
      (\<exists>es ds w. t = es @ ds @ w \<and> list_all (char_ok c) es \<and> in_lang its ds \<and> (e \<longrightarrow> w = []))" for t
    unfolding begins_def it by (simp add: in_lang_simps) (metis append.assoc)
  have one: "begins it t \<longleftrightarrow> (\<exists>ds w. t = ds @ w \<and> in_lang its ds \<and> (e \<longrightarrow> w = []))" for t
    by (auto simp: begins_def it)
  show ?thesis
    unfolding unfold one
  proof (intro iffI)
    assume "\<exists>es ds w. tx = es @ ds @ w \<and> list_all (char_ok c) es \<and> in_lang its ds \<and> (e \<longrightarrow> w = [])"
    then obtain es ds w where h: "tx = es @ ds @ w" "list_all (char_ok c) es" "in_lang its ds" "e \<longrightarrow> w = []"
      by blast
    show "(\<exists>ds w. tx = ds @ w \<and> in_lang its ds \<and> (e \<longrightarrow> w = [])) \<or> tx \<noteq> [] \<and> (hd tx = c \<or> c = PERIOD) \<and>
        (\<exists>es ds w. tl tx = es @ ds @ w \<and> list_all (char_ok c) es \<and> in_lang its ds \<and> (e \<longrightarrow> w = []))"
      using h by (cases es) (auto simp: char_ok_def)
  next
    assume "(\<exists>ds w. tx = ds @ w \<and> in_lang its ds \<and> (e \<longrightarrow> w = [])) \<or> tx \<noteq> [] \<and> (hd tx = c \<or> c = PERIOD) \<and>
        (\<exists>es ds w. tl tx = es @ ds @ w \<and> list_all (char_ok c) es \<and> in_lang its ds \<and> (e \<longrightarrow> w = []))"
    then show "\<exists>es ds w. tx = es @ ds @ w \<and> list_all (char_ok c) es \<and> in_lang its ds \<and> (e \<longrightarrow> w = [])"
    proof
      assume "\<exists>ds w. tx = ds @ w \<and> in_lang its ds \<and> (e \<longrightarrow> w = [])"
      then show ?thesis
        by (metis append_Nil list.pred_inject(1))
    next
      assume h: "tx \<noteq> [] \<and> (hd tx = c \<or> c = PERIOD) \<and>
        (\<exists>es ds w. tl tx = es @ ds @ w \<and> list_all (char_ok c) es \<and> in_lang its ds \<and> (e \<longrightarrow> w = []))"
      then obtain es ds w where t: "tl tx = es @ ds @ w" "list_all (char_ok c) es" "in_lang its ds" "e \<longrightarrow> w = []"
        by blast
      have "tx = (hd tx # es) @ ds @ w" "list_all (char_ok c) (hd tx # es)"
        using h t(2) by (auto simp: char_ok_def simp flip: t(1))
      then show ?thesis
        using t(3,4) by blast
    qed
  qed
qed

lemma matchhere_begins:
  "matchhere re tx \<longleftrightarrow> begins (items re) tx"
  "matchstar c re tx \<longleftrightarrow> begins (apfst ((#) (Many c)) (items re)) tx"
proof (induction re tx and c re tx rule: matchhere_matchstar.induct)
  case (1 tx)
  then show ?case
    by (simp add: begins_Nil)
next
  case (2 c re tx)
  show ?case
  proof (cases re)
    case Nil
    then show ?thesis
      using 2 begins_One [of c "([], False)" tx] by (auto simp: matchhere.simps(2) begins_Nil begins_end)
  next
    case (Cons d re1)
    then show ?thesis
      using 2 by (auto simp: matchhere.simps(2) begins_One)
  qed
next
  case (3 c re tx)
  then show ?case
    by (subst begins_Many) (auto simp: matchstar.simps [of c re tx])
qed

lemma match_loop_begins: "match_loop re tx \<longleftrightarrow> (\<exists>u v. tx = u @ v \<and> begins (items re) v)"
proof (induction tx)
  case Nil
  then show ?case
    by (simp add: match_loop.simps matchhere_begins)
next
  case (Cons c cs)
  have "(\<exists>u v. c # cs = u @ v \<and> begins (items re) v) \<longleftrightarrow>
      begins (items re) (c # cs) \<or> (\<exists>u v. cs = u @ v \<and> begins (items re) v)"
    by (auto simp: Cons_eq_append_conv)
  then show ?case
    using Cons by (simp add: match_loop.simps [of re "c # cs"] matchhere_begins)
qed

lemma match_pattern: "match re tx \<longleftrightarrow> pattern_matches re tx"
  by (simp add: match_def pattern_matches_def matchhere_begins match_loop_begins)

section \<open>The lines of the input\<close>

text \<open>The complete lines of a text, without their newlines, and what follows the last newline.\<close>

function split_lines :: "u8 list \<Rightarrow> u8 list list" where
  "split_lines p =
     (if NL \<in> set p then takeWhile (\<lambda>c. c \<noteq> NL) p # split_lines (tl (dropWhile (\<lambda>c. c \<noteq> NL) p)) else [])"
  by pat_completeness auto
termination
proof (relation "measure length")
  fix p :: "u8 list"
  assume "NL \<in> set p"
  then have "dropWhile (\<lambda>c. c \<noteq> NL) p \<noteq> []"
    by (simp add: dropWhile_eq_Nil_conv)
  then show "(tl (dropWhile (\<lambda>c. c \<noteq> NL) p), p) \<in> measure length"
    using length_dropWhile_le [of "\<lambda>c. c \<noteq> NL" p] by (cases "dropWhile (\<lambda>c. c \<noteq> NL) p") auto
qed simp

declare split_lines.simps [simp del]

lemma while_line:
  "c \<notin> set v \<Longrightarrow> takeWhile (\<lambda>x. x \<noteq> c) (v @ c # w) = v"
  "c \<notin> set v \<Longrightarrow> dropWhile (\<lambda>x. x \<noteq> c) (v @ c # w) = c # w"
  by (induction v) auto

lemma split_lines_Cons: "NL \<notin> set v \<Longrightarrow> split_lines (v @ NL # w) = v # split_lines w"
  by (subst split_lines.simps) (simp add: while_line)

lemma split_lines_none: "NL \<notin> set p \<Longrightarrow> split_lines p = []"
  by (simp add: split_lines.simps)

text \<open>What a search through the complete lines prints.\<close>

definition matching_lines :: "(u8 list \<Rightarrow> bool) \<Rightarrow> u8 list \<Rightarrow> u8 list" where
  "matching_lines P p = concat (map (\<lambda>l. l @ [NL]) (filter P (split_lines p)))"

lemma strchr_none: "c \<notin> set p \<Longrightarrow> strchr p c = None"
  by (induction p) auto

lemma strchr_some: "c \<notin> set v \<Longrightarrow> strchr (v @ c # w) c = Some (length v)"
  by (induction v) auto

lemma c_string_id: "0 \<notin> set p \<Longrightarrow> c_string p = p"
  by (auto simp: c_string_def)

lemma grep_lines_none: "0 \<notin> set p \<Longrightarrow> NL \<notin> set p \<Longrightarrow> grep_lines pattern p = ([], p)"
  by (simp add: grep_lines.simps c_string_id strchr_none)

lemma grep_lines_step:
  assumes "0 \<notin> set (v @ NL # w)" "NL \<notin> set v"
  shows "grep_lines pattern (v @ NL # w) =
    apfst ((@) (if match pattern v then v @ [NL] else [])) (grep_lines pattern w)"
  using assms
  by (subst grep_lines.simps) (auto simp: c_string_id strchr_some split: prod.splits)

text \<open>The inner loop prints the matching lines of the buffer and keeps the unfinished one.\<close>

lemma grep_lines_ok:
  "0 \<notin> set p \<Longrightarrow> \<exists>u v. p = u @ v \<and> NL \<notin> set v \<and> grep_lines pattern p = (matching_lines (match pattern) p, v) \<and>
     (\<forall>r. matching_lines P (p @ r) = matching_lines P p @ matching_lines P (v @ r))"
proof (induction "length p" arbitrary: p rule: less_induct)
  case less
  show ?case
  proof (cases "NL \<in> set p")
    case False
    then show ?thesis
      using less.prems by (intro exI [of _ "[]"] exI [of _ p]) (simp add: grep_lines_none matching_lines_def split_lines_none)
  next
    case True
    then obtain v w where p: "p = v @ NL # w" "NL \<notin> set v"
      by (meson split_list_first)
    obtain u x where w: "w = u @ x" "NL \<notin> set x" "grep_lines pattern w = (matching_lines (match pattern) w, x)"
      "\<forall>r. matching_lines P (w @ r) = matching_lines P w @ matching_lines P (x @ r)"
      using less.hyps [of w] less.prems by (auto simp: p)
    have "matching_lines P (p @ r) = matching_lines P p @ matching_lines P (x @ r)" for r
      using w(4) [rule_format, of r] p(2) by (simp add: p(1) matching_lines_def split_lines_Cons)
    moreover have "grep_lines pattern p = (matching_lines (match pattern) p, x)"
      using less.prems p(2) w(3) by (simp add: p(1) grep_lines_step matching_lines_def split_lines_Cons)
    ultimately show ?thesis
      using w(1,2) p(1) by (intro exI [of _ "v @ NL # u"] exI [of _ x]) simp
  qed
qed

text \<open>A text whose lines, the unfinished last one included, fit the buffer together with the NUL.\<close>

definition short_lines :: "u8 list \<Rightarrow> bool" where
  "short_lines p \<longleftrightarrow> (\<forall>u v w. p = u @ v @ w \<and> NL \<notin> set v \<longrightarrow> length v < 1023)"

lemma short_lines_suffix: "short_lines (u @ v) \<Longrightarrow> short_lines v"
  unfolding short_lines_def by (metis append.assoc)

lemma grep_loop_ok:
  assumes "\<forall>r n. r \<noteq> [] \<and> 0 < n \<longrightarrow> 0 < rd r n \<and> rd r n \<le> n" "0 \<notin> set (bs @ rest)" "NL \<notin> set bs" "short_lines (bs @ rest)"
  shows "grep_loop rd pattern bs rest = matching_lines (match pattern) (bs @ rest)"
  using assms(2-)
proof (induction "length rest" arbitrary: bs rest rule: less_induct)
  case less
  have len: "length bs < 1023"
    using less.prems(2,3) unfolding short_lines_def by (metis append_Nil)
  show ?case
  proof (cases "rest = []")
    case True
    then show ?thesis
      using less.prems(2) by (simp add: grep_loop.simps matching_lines_def split_lines_none)
  next
    case False
    define n where "n = min (rd rest (1024 - length bs - 1)) (length rest)"
    have n: "0 < n"
      using assms(1) False len by (simp add: n_def)
    have "0 \<notin> set (bs @ take n rest)"
      using less.prems(1) set_take_subset [of n rest] by auto
    then obtain u v where uv: "bs @ take n rest = u @ v" "NL \<notin> set v"
      "grep_lines pattern (bs @ take n rest) = (matching_lines (match pattern) (bs @ take n rest), v)"
      "\<forall>r. matching_lines (match pattern) ((bs @ take n rest) @ r) =
         matching_lines (match pattern) (bs @ take n rest) @ matching_lines (match pattern) (v @ r)"
      using grep_lines_ok [of "bs @ take n rest" pattern "match pattern"] by blast
    have all: "bs @ rest = u @ v @ drop n rest"
      using uv(1) by (metis append.assoc append_take_drop_id)
    have "grep_loop rd pattern v (drop n rest) = matching_lines (match pattern) (v @ drop n rest)"
      using less.hyps [of "drop n rest" v] n False less.prems(1,3) uv(2) short_lines_suffix [of u "v @ drop n rest"]
      unfolding all by auto
    moreover have "grep_loop rd pattern bs rest =
        (let (out, bs1) = grep_lines pattern (bs @ take n rest) in out @ grep_loop rd pattern bs1 (drop n rest))"
      using n by (subst grep_loop.simps) (simp only: Let_def n_def [symmetric] split: if_split, simp)
    ultimately show ?thesis
      using uv(3) uv(4) [rule_format, of "drop n rest"] by simp
  qed
qed

section \<open>Property\<close>

text \<open>
  C34 (equivalence). However \<open>read\<close> cuts the input into pieces, \<open>grep\<close> prints exactly the complete lines
  that the pattern matches, in order, each with its newline, for every input without NUL bytes whose
  lines fit the buffer; a line matches when it contains (begins with, after a leading caret; ends with,
  before a final dollar sign) a word of the language of the pattern.
\<close>

theorem grep_prints_matching_lines:
  assumes "\<forall>r n. r \<noteq> [] \<and> 0 < n \<longrightarrow> 0 < rd r n \<and> rd r n \<le> n" "0 \<notin> set input" "short_lines input"
  shows "grep rd pattern input = matching_lines (pattern_matches pattern) input"
  using grep_loop_ok [OF assms(1), of "[]" input pattern] assms(2,3) match_pattern [abs_def]
  by (simp add: grep_def)

theorem grep_prints_matching_lines_witness:
  "grep (\<lambda>_ n. min n 2) [94, 97, 42, 98, 36] [97, 97, 98, 10, 97, 99, 10, 98, 10, 98] = [97, 97, 98, 10, 98, 10] \<and>
   matching_lines (pattern_matches [94, 97, 42, 98, 36]) [97, 97, 98, 10, 97, 99, 10, 98, 10, 98] = [97, 97, 98, 10, 98, 10]"
proof -
  let ?p = "[94, 97, 42, 98, 36] :: u8 list" and ?in = "[97, 97, 98, 10, 97, 99, 10, 98, 10, 98] :: u8 list"
  have short: "short_lines ?in"
    unfolding short_lines_def
  proof (intro allI impI, elim conjE)
    fix u v w
    assume "?in = u @ v @ w"
    then have "length ?in = length (u @ v @ w)"
      by (rule arg_cong)
    then show "length v < 1023"
      by simp
  qed
  have "grep (\<lambda>_ n. min n 2) ?p ?in = [97, 97, 98, 10, 98, 10]"
    by code_simp
  then show ?thesis
    using grep_prints_matching_lines [of "\<lambda>_ n. min n 2" ?in ?p] short by simp
qed

end
