(* ===== verification/Sh.thy ===== *)
theory Sh
  imports Ulib
begin

text \<open>
  \<^verbatim>\<open>user/sh.c\<close>: the parser of the shell, the NUL-termination of the words it found, and the execution of a
  parsed command as the sequence of system calls it makes. A position in the input line is the part of the line
  from there on; the pointers kept in a command are the number of bytes from them to the end of the line.
  Allocating a node of the tree is taken to succeed.
\<close>

section \<open>Commands\<close>

text \<open>
  A word is the pair of the pointers to its first byte and behind its last one, so \<open>argv\<close> and \<open>eargv\<close> of an
  \<open>execcmd\<close> are one list; a redirection has the file name, the mode and the descriptor. The type of words is a
  parameter, so that the same trees serve for what a command says.
\<close>

datatype 'w cmd =
    EXEC "'w list"
  | REDIR "'w cmd" 'w int int
  | PIPE "'w cmd" "'w cmd"
  | LIST "'w cmd" "'w cmd"
  | BACK "'w cmd"

type_synonym wptr = "nat \<times> nat"

datatype sherr = ShPanic string | NoFuel

definition MAXARGS :: nat where [simp]: "MAXARGS = 10"

abbreviation "c_lt \<equiv> 60 :: u8"
abbreviation "c_gt \<equiv> 62 :: u8"
abbreviation "c_bar \<equiv> 124 :: u8"
abbreviation "c_amp \<equiv> 38 :: u8"
abbreviation "c_semi \<equiv> 59 :: u8"
abbreviation "c_open \<equiv> 40 :: u8"
abbreviation "c_close \<equiv> 41 :: u8"
abbreviation "c_plus \<equiv> 43 :: u8"
abbreviation "c_a \<equiv> 97 :: u8"

definition whitespace :: "u8 list" where
  "whitespace = [32, 9, 13, 10, 11]"

definition symbols :: "u8 list" where
  "symbols = [c_lt, c_bar, c_gt, c_amp, c_semi, c_open, c_close]"

section \<open>Tokens\<close>

definition is_ws :: "u8 \<Rightarrow> bool" where
  "is_ws c \<longleftrightarrow> strchr whitespace c \<noteq> None"

definition is_sym :: "u8 \<Rightarrow> bool" where
  "is_sym c \<longleftrightarrow> strchr symbols c \<noteq> None"

definition skip_ws :: "u8 list \<Rightarrow> u8 list" where
  "skip_ws s = dropWhile is_ws s"

text \<open>The switch of \<open>gettoken\<close>: the token and the position after it.\<close>

definition token_at :: "u8 list \<Rightarrow> u8 \<times> u8 list" where
  "token_at s =
     (case s of [] \<Rightarrow> (0, s)
      | c # cs \<Rightarrow>
          if c = 0 then (0, s)
          else if c = c_bar \<or> c = c_open \<or> c = c_close \<or> c = c_semi \<or> c = c_amp \<or> c = c_lt then (c, cs)
          else if c = c_gt then (if cs \<noteq> [] \<and> hd cs = c_gt then (c_plus, tl cs) else (c, cs))
          else (c_a, dropWhile (\<lambda>x. \<not> is_ws x \<and> \<not> is_sym x) s))"

text \<open>The token, the pointers \<open>q\<close> and \<open>eq\<close>, and the new position.\<close>

definition gettoken :: "u8 list \<Rightarrow> u8 \<times> u8 list \<times> u8 list \<times> u8 list" where
  "gettoken ps = (let s = skip_ws ps; (ret, s1) = token_at s in (ret, s, s1, skip_ws s1))"

definition peek :: "u8 list \<Rightarrow> u8 list \<Rightarrow> u8 list \<times> bool" where
  "peek ps toks = (let s = skip_ws ps in (s, s \<noteq> [] \<and> hd s \<noteq> 0 \<and> strchr toks (hd s) \<noteq> None))"

lemma length_skip_ws: "length (skip_ws s) \<le> length s"
  by (simp add: skip_ws_def length_dropWhile_le)

lemma length_token_at: "length (snd (token_at s)) \<le> length s"
  by (auto simp: token_at_def length_dropWhile_le le_Suc_eq split: list.split)

lemma skip_ws_head: "skip_ws s = c # cs \<Longrightarrow> \<not> is_ws c"
  by (metis hd_dropWhile list.sel(1) list.distinct(1) skip_ws_def)

lemma token_at_less:
  assumes "fst (token_at s) \<noteq> 0" "s \<noteq> []" "\<not> is_ws (hd s)"
  shows "length (snd (token_at s)) < length s"
proof (cases s)
  case (Cons c cs)
  have "length (dropWhile (\<lambda>x. \<not> is_ws x \<and> \<not> is_sym x) s) < length s" if "\<not> is_sym c"
    using that assms(3) length_dropWhile_le [of "\<lambda>x. \<not> is_ws x \<and> \<not> is_sym x" cs] by (simp add: Cons)
  moreover have "is_sym c \<longleftrightarrow> c \<in> set symbols"
    by (auto simp: is_sym_def symbols_def)
  ultimately show ?thesis
    using assms(1) by (auto simp: token_at_def Cons symbols_def less_Suc_eq_le split: if_splits)
qed (use assms in simp)

lemma gettoken_less:
  assumes "gettoken ps = (tok, q, eq, rest)" "tok \<noteq> 0"
  shows "length rest < length ps"
proof -
  let ?s = "skip_ws ps"
  have eqs: "fst (token_at ?s) = tok" "rest = skip_ws (snd (token_at ?s))"
    using assms(1) by (auto simp: gettoken_def Let_def split: prod.splits)
  moreover have "?s \<noteq> []"
    using eqs(1) assms(2) by (auto simp: token_at_def)
  ultimately have "length (snd (token_at ?s)) < length ?s"
    using assms(2) skip_ws_head [of ps] by (intro token_at_less) (auto simp: neq_Nil_conv)
  then show ?thesis
    using length_skip_ws [of ps] length_skip_ws [of "snd (token_at ?s)"] unfolding eqs(2) by linarith
qed

lemma gettoken_le: "gettoken ps = (tok, q, eq, rest) \<Longrightarrow> length rest \<le> length ps"
  using length_skip_ws [of ps] length_token_at [of "skip_ws ps"] length_skip_ws [of "snd (token_at (skip_ws ps))"]
  by (auto simp: gettoken_def Let_def split: prod.splits)

lemma skip_ws_idem [simp]: "skip_ws (skip_ws s) = skip_ws s"
  by (simp add: skip_ws_def)

lemma peek_le: "peek ps toks = (s, b) \<Longrightarrow> length s \<le> length ps"
  by (auto simp: peek_def Let_def length_skip_ws)

lemma token_at_end: "token_at s = (0, x) \<Longrightarrow> s = [] \<or> hd s = 0"
  by (cases s) (auto simp: token_at_def split: if_splits)

text \<open>After a successful \<open>peek\<close> the next token is not the end of the line.\<close>

lemma peek_gettoken: "peek ps toks = (s, True) \<Longrightarrow> gettoken s = (tok, q, eq, rest) \<Longrightarrow> tok \<noteq> 0"
  using token_at_end [of "skip_ws ps"] by (auto simp: peek_def gettoken_def Let_def split: prod.splits)

lemma peek_gettoken_less: "peek ps toks = (s, True) \<Longrightarrow> gettoken s = (tok, q, eq, rest) \<Longrightarrow> length rest < length ps"
  using peek_gettoken [of ps toks s tok q eq rest] gettoken_less [of s tok q eq rest] peek_le [of ps toks s True] by simp

lemma two_tokens_less:
  "(s, True) = peek ps toks \<Longrightarrow> (tok, x) = gettoken s \<Longrightarrow> (q, y) = x \<Longrightarrow> (eq, s1) = y \<Longrightarrow>
   (tok1, x1) = gettoken s1 \<Longrightarrow> (q1, y1) = x1 \<Longrightarrow> (eq1, s2) = y1 \<Longrightarrow> length s2 < length ps"
  using peek_gettoken_less [of ps toks s tok q eq s1] gettoken_le [of s1 tok1 q1 eq1 s2] by auto

section \<open>The parser\<close>

text \<open>
  A redirection wraps the command parsed so far. The node of a simple command is filled in place while
  redirections already wrap it, so the parser collects the redirections and wraps the finished node with them.
\<close>

type_synonym 'w redir = "'w \<times> int \<times> int"

definition redirs :: "'w cmd \<Rightarrow> 'w redir list \<Rightarrow> 'w cmd" where
  "redirs c rs = foldl (\<lambda>c (file, mode, fd). REDIR c file mode fd) c rs"

text \<open>Modes: \<open>O_RDONLY\<close>, \<open>O_WRONLY|O_CREATE|O_TRUNC\<close> and \<open>O_WRONLY|O_CREATE\<close>.\<close>

definition redir_of :: "u8 \<Rightarrow> u8 list \<Rightarrow> u8 list \<Rightarrow> wptr redir list" where
  "redir_of tok q eq =
     (if tok = c_lt then [((length q, length eq), 0, 0)]
      else if tok = c_gt then [((length q, length eq), 0x601, 1)]
      else if tok = c_plus then [((length q, length eq), 0x201, 1)] else [])"

function parseredirs :: "u8 list \<Rightarrow> sherr + u8 list \<times> wptr redir list" where
  "parseredirs ps =
     (case peek ps [c_lt, c_gt] of
        (s, False) \<Rightarrow> Inr (s, [])
      | (s, True) \<Rightarrow>
          (case gettoken s of (tok, _, _, s1) \<Rightarrow>
           case gettoken s1 of (tok1, q, eq, s2) \<Rightarrow>
             if tok1 \<noteq> c_a then Inl (ShPanic ''missing file for redirection'')
             else bindr (parseredirs s2) (\<lambda>(s3, rs). Inr (s3, redir_of tok q eq @ rs))))"
  by pat_completeness auto
termination
  by (relation "measure length") (auto dest: two_tokens_less)

declare parseredirs.simps [simp del]

lemma parseredirs_le: "parseredirs ps = Inr (s, rs) \<Longrightarrow> length s \<le> length ps"
proof (induction ps arbitrary: s rs rule: parseredirs.induct)
  case (1 ps)
  obtain s0 b where p: "peek ps [c_lt, c_gt] = (s0, b)"
    by (cases "peek ps [c_lt, c_gt]")
  show ?case
  proof (cases b)
    case False
    then show ?thesis
      using 1(2) p peek_le [OF p] by (simp add: parseredirs.simps)
  next
    case True
    obtain tok q eq s1 where g: "gettoken s0 = (tok, q, eq, s1)"
      by (cases "gettoken s0")
    obtain tok1 q1 eq1 s2 where g1: "gettoken s1 = (tok1, q1, eq1, s2)"
      by (cases "gettoken s1")
    have "tok1 = c_a"
      using 1(2) p True g g1 by (simp add: parseredirs.simps split: if_splits)
    moreover obtain s3 rs3 where r: "parseredirs s2 = Inr (s3, rs3)" "s = s3"
      using 1(2) p True g g1 by (auto simp: parseredirs.simps [of ps] bindr_eq_Inr split: if_splits)
    moreover have "length s2 < length ps"
      using two_tokens_less [of s0 ps "[c_lt, c_gt]" tok _ q _ eq s1 tok1 _ q1 _ eq1 s2] p True g g1 by simp
    ultimately show ?thesis
      using 1(1) [of s0 True tok "(q, eq, s1)" q "(eq, s1)" eq s1 tok1 "(q1, eq1, s2)" q1 "(eq1, s2)" eq1 s2 s3 rs3] p True g g1
      by simp
  qed
qed

text \<open>The loop of \<open>parseexec\<close> over the words, with \<open>argc\<close> of them found already.\<close>

function parseargs :: "nat \<Rightarrow> u8 list \<Rightarrow> sherr + u8 list \<times> wptr list \<times> wptr redir list" where
  "parseargs argc ps =
     (case peek ps [c_bar, c_close, c_amp, c_semi] of
        (s, True) \<Rightarrow> Inr (s, [], [])
      | (s, False) \<Rightarrow>
          (case gettoken s of (tok, q, eq, s1) \<Rightarrow>
             if tok = 0 then Inr (s1, [], [])
             else if tok \<noteq> c_a then Inl (ShPanic ''syntax'')
             else if Suc argc \<ge> MAXARGS then Inl (ShPanic ''too many args'')
             else (case parseredirs s1 of Inl e \<Rightarrow> Inl e
                   | Inr (s2, rs) \<Rightarrow>
                       bindr (parseargs (Suc argc) s2) (\<lambda>(s3, args, rs1). Inr (s3, (length q, length eq) # args, rs @ rs1)))))"
  by pat_completeness auto
termination
proof -
  have "length s2 < length ps"
    if "(s, False) = peek ps toks" "(c_a, x) = gettoken s" "(q, y) = x" "(eq, s1) = y" "parseredirs s1 = Inr z" "(s2, rs) = z"
    for s ps toks x q y eq s1 z s2 rs
    using that peek_le [of ps toks s False] gettoken_less [of s c_a q eq s1] parseredirs_le [of s1 s2 rs] by auto
  then show ?thesis
    by (relation "measure (\<lambda>(argc, ps). length ps)") auto
qed

declare parseargs.simps [simp del]

lemma parseargs_le: "parseargs argc ps = Inr (s, args, rs) \<Longrightarrow> length s \<le> length ps"
proof (induction argc ps arbitrary: s args rs rule: parseargs.induct)
  case (1 argc ps)
  obtain s0 b where p: "peek ps [c_bar, c_close, c_amp, c_semi] = (s0, b)"
    by (cases "peek ps [c_bar, c_close, c_amp, c_semi]")
  obtain tok q eq s1 where g: "gettoken s0 = (tok, q, eq, s1)"
    by (cases "gettoken s0")
  show ?case
  proof (cases "b \<or> tok = 0")
    case True
    then show ?thesis
      using 1(2) p g peek_le [OF p] gettoken_le [OF g] by (auto simp: parseargs.simps split: bool.splits)
  next
    case False
    then obtain s2 rs2 where r: "parseredirs s1 = Inr (s2, rs2)"
      using 1(2) p g by (auto simp: parseargs.simps [of argc ps] split: if_splits sum.splits)
    then obtain s3 args3 rs3 where a: "parseargs (Suc argc) s2 = Inr (s3, args3, rs3)" "s = s3"
      using 1(2) p g False by (auto simp: parseargs.simps [of argc ps] bindr_eq_Inr split: if_splits)
    have "tok = c_a" "\<not> Suc argc \<ge> MAXARGS"
      using 1(2) p g False by (auto simp: parseargs.simps [of argc ps] split: if_splits)
    then have "length s3 \<le> length s2"
      using 1(1) [of s0 False tok "(q, eq, s1)" q "(eq, s1)" eq s1 "(s2, rs2)" s2 rs2 s3 args3 rs3] p g False r a by simp
    then show ?thesis
      using peek_le [OF p] gettoken_le [OF g] parseredirs_le [OF r] a(2) by simp
  qed
qed

text \<open>The loop of \<open>parseline\<close> over the ampersands.\<close>

function parseback :: "'w cmd \<Rightarrow> u8 list \<Rightarrow> u8 list \<times> 'w cmd" where
  "parseback c ps =
     (case peek ps [c_amp] of (s, False) \<Rightarrow> (s, c)
      | (s, True) \<Rightarrow> (case gettoken s of (_, _, _, s1) \<Rightarrow> parseback (BACK c) s1))"
  by pat_completeness auto
termination
proof -
  have "length s1 < length ps"
    if "(s, True) = peek ps toks" "(tok, x) = gettoken s" "(q, y) = x" "(eq, s1) = y" for s ps toks tok x q y eq s1
    using that peek_gettoken_less [of ps toks s tok q eq s1] by simp
  then show ?thesis
    by (relation "measure (\<lambda>(c, ps). length ps)") auto
qed

declare parseback.simps [simp del]

lemma parseback_le: "parseback c ps = (s, c1) \<Longrightarrow> length s \<le> length ps"
proof (induction c ps rule: parseback.induct)
  case (1 c ps)
  obtain s0 b where p: "peek ps [c_amp] = (s0, b)"
    by (cases "peek ps [c_amp]")
  obtain tok q eq s1 where g: "gettoken s0 = (tok, q, eq, s1)"
    by (cases "gettoken s0")
  show ?case
    using 1(1) [of s0 b tok "(q, eq, s1)" q "(eq, s1)" eq s1] 1(2) p g peek_le [OF p] gettoken_le [OF g]
    by (cases b) (auto simp: parseback.simps [of c ps])
qed

text \<open>The position after a token that is not looked at.\<close>

definition skip_token :: "u8 list \<Rightarrow> u8 list" where
  "skip_token s = (case gettoken s of (_, _, _, s1) \<Rightarrow> s1)"

text \<open>The recursive functions; the first argument bounds the depth of the recursion.\<close>

fun parseline :: "nat \<Rightarrow> u8 list \<Rightarrow> sherr + u8 list \<times> wptr cmd"
  and parsepipe :: "nat \<Rightarrow> u8 list \<Rightarrow> sherr + u8 list \<times> wptr cmd"
  and parseblock :: "nat \<Rightarrow> u8 list \<Rightarrow> sherr + u8 list \<times> wptr cmd"
  and parseexec :: "nat \<Rightarrow> u8 list \<Rightarrow> sherr + u8 list \<times> wptr cmd" where
  "parseline 0 ps = Inl NoFuel"
| "parseline (Suc n) ps =
     bindr (parsepipe n ps) (\<lambda>(s1, c).
       case parseback c s1 of (s2, c1) \<Rightarrow>
       case peek s2 [c_semi] of
         (s3, False) \<Rightarrow> Inr (s3, c1)
       | (s3, True) \<Rightarrow> bindr (parseline n (skip_token s3)) (\<lambda>(s4, c2). Inr (s4, LIST c1 c2)))"
| "parsepipe 0 ps = Inl NoFuel"
| "parsepipe (Suc n) ps =
     bindr (parseexec n ps) (\<lambda>(s1, c).
       case peek s1 [c_bar] of
         (s2, False) \<Rightarrow> Inr (s2, c)
       | (s2, True) \<Rightarrow> bindr (parsepipe n (skip_token s2)) (\<lambda>(s3, c1). Inr (s3, PIPE c c1)))"
| "parseblock 0 ps = Inl NoFuel"
| "parseblock (Suc n) ps =
     (case peek ps [c_open] of
        (s1, False) \<Rightarrow> Inl (ShPanic ''parseblock'')
      | (s1, True) \<Rightarrow>
          bindr (parseline n (skip_token s1)) (\<lambda>(s2, c).
            case peek s2 [c_close] of
              (s3, False) \<Rightarrow> Inl (ShPanic ''syntax - missing )'')
            | (s3, True) \<Rightarrow> bindr (parseredirs (skip_token s3)) (\<lambda>(s4, rs). Inr (s4, redirs c rs))))"
| "parseexec 0 ps = Inl NoFuel"
| "parseexec (Suc n) ps =
     (case peek ps [c_open] of
        (s1, True) \<Rightarrow> parseblock n s1
      | (s1, False) \<Rightarrow>
          bindr (parseredirs s1) (\<lambda>(s2, rs).
          bindr (parseargs 0 s2) (\<lambda>(s3, args, rs1). Inr (s3, redirs (EXEC args) (rs @ rs1)))))"

text \<open>Four levels of the recursion consume at least one byte of the line.\<close>

definition parse_depth :: "u8 list \<Rightarrow> nat" where
  "parse_depth s = 4 * length s + 4"

text \<open>
  \<open>nulterminate\<close> on the line: \<open>line\<close> includes the NUL, and a pointer \<open>d\<close> bytes before the end \<open>es\<close> is the index
  \<open>es - d\<close>.
\<close>

definition put_nul :: "nat \<Rightarrow> wptr \<Rightarrow> u8 list \<Rightarrow> u8 list" where
  "put_nul es w line = line[es - snd w := 0]"

fun nulterminate :: "nat \<Rightarrow> wptr cmd \<Rightarrow> u8 list \<Rightarrow> u8 list" where
  "nulterminate es (EXEC args) line = foldl (\<lambda>b w. put_nul es w b) line args"
| "nulterminate es (REDIR c file mode fd) line = put_nul es file (nulterminate es c line)"
| "nulterminate es (PIPE l r) line = nulterminate es r (nulterminate es l line)"
| "nulterminate es (LIST l r) line = nulterminate es r (nulterminate es l line)"
| "nulterminate es (BACK c) line = nulterminate es c line"

definition parsecmd :: "u8 list \<Rightarrow> sherr + wptr cmd \<times> u8 list" where
  "parsecmd s =
     bindr (parseline (parse_depth s) s) (\<lambda>(s1, c).
       if fst (peek s1 []) \<noteq> [] then Inl (ShPanic ''syntax'')
       else Inr (c, nulterminate (u_strlen s) c (s @ [0])))"

section \<open>Every line is parsed or refused\<close>

lemma skip_token_le: "length (skip_token s) \<le> length s"
  using gettoken_le [of s] by (auto simp: skip_token_def split: prod.splits)

lemma skip_token_less: "peek ps toks = (s, True) \<Longrightarrow> length (skip_token s) < length ps"
  using peek_gettoken_less [of ps toks s] by (auto simp: skip_token_def split: prod.splits)

lemma parse_le:
  "parseline n ps = Inr (s, c) \<Longrightarrow> length s \<le> length ps"
  "parsepipe n ps = Inr (s, c) \<Longrightarrow> length s \<le> length ps"
  "parseblock n ps = Inr (s, c) \<Longrightarrow> length s \<le> length ps"
  "parseexec n ps = Inr (s, c) \<Longrightarrow> length s \<le> length ps"
proof (induction n arbitrary: ps s c)
  case (Suc n)
  { case 1
    then obtain s1 c1 where h1: "parsepipe n ps = Inr (s1, c1)"
      by (auto simp: bindr_eq_Inr)
    obtain s2 c2 where h2: "parseback c1 s1 = (s2, c2)"
      by (cases "parseback c1 s1")
    obtain s3 b where h3: "peek s2 [c_semi] = (s3, b)"
      by (cases "peek s2 [c_semi]")
    note h = h1 h2 h3
    have l: "length s3 \<le> length ps"
      using Suc.IH(2) [OF h(1)] parseback_le [OF h(2)] peek_le [OF h(3)] by simp
    show ?case
    proof (cases b)
      case True
      then obtain c4 where "parseline n (skip_token s3) = Inr (s, c4)"
        using 1 h by (auto simp: bindr_eq_Inr)
      then show ?thesis
        using Suc.IH(1) [of "skip_token s3" s c4] skip_token_le [of s3] l by simp
    qed (use 1 h l in auto)
  next
    case 2
    then obtain s1 c1 where h1: "parseexec n ps = Inr (s1, c1)"
      by (auto simp: bindr_eq_Inr)
    obtain s2 b where h2: "peek s1 [c_bar] = (s2, b)"
      by (cases "peek s1 [c_bar]")
    note h = h1 h2
    have l: "length s2 \<le> length ps"
      using Suc.IH(4) [OF h(1)] peek_le [OF h(2)] by simp
    show ?case
    proof (cases b)
      case True
      then obtain c4 where "parsepipe n (skip_token s2) = Inr (s, c4)"
        using 2 h by (auto simp: bindr_eq_Inr)
      then show ?thesis
        using Suc.IH(2) [of "skip_token s2" s c4] skip_token_le [of s2] l by simp
    qed (use 2 h l in auto)
  next
    case 3
    then obtain s1 where p: "peek ps [c_open] = (s1, True)"
      by (cases "peek ps [c_open]") (auto split: bool.splits)
    then obtain s2 c2 where h1: "parseline n (skip_token s1) = Inr (s2, c2)"
      using 3 by (auto simp: bindr_eq_Inr)
    obtain s3 b where h2: "peek s2 [c_close] = (s3, b)"
      by (cases "peek s2 [c_close]")
    have "\<exists>rs. parseredirs (skip_token s3) = Inr (s, rs)"
      using 3 p h1 h2 by (cases b) (auto simp: bindr_eq_Inr)
    then show ?case
      using Suc.IH(1) [OF h1] skip_token_le [of s1] skip_token_le [of s3] peek_le [OF p] peek_le [OF h2] parseredirs_le [of "skip_token s3" s]
      by auto
  next
    case 4
    obtain s1 b where p: "peek ps [c_open] = (s1, b)"
      by (cases "peek ps [c_open]")
    show ?case
    proof (cases b)
      case True
      then show ?thesis
        using 4 p Suc.IH(3) [of s1 s c] peek_le [OF p] by simp
    next
      case False
      then obtain s2 rs args rs1 where "parseredirs s1 = Inr (s2, rs)" "parseargs 0 s2 = Inr (s, args, rs1)"
        using 4 p by (auto simp: bindr_eq_Inr)
      then show ?thesis
        using parseredirs_le [of s1 s2 rs] parseargs_le [of 0 s2 s args rs1] peek_le [OF p] by simp
    qed
  }
qed auto

lemma bindr_fuel: "bindr m f = Inl NoFuel \<longleftrightarrow> m = Inl NoFuel \<or> (\<exists>x. m = Inr x \<and> f x = Inl NoFuel)"
  by (cases m) auto

lemma parseredirs_fuel: "parseredirs ps \<noteq> Inl NoFuel"
proof (induction "length ps" arbitrary: ps rule: less_induct)
  case less
  have "parseredirs s2 \<noteq> Inl NoFuel"
    if "peek ps [c_lt, c_gt] = (s, True)" "gettoken s = (tok, q, eq, s1)" "gettoken s1 = (tok1, q1, eq1, s2)"
    for s tok q eq s1 tok1 q1 eq1 s2
    using less [of s2] that two_tokens_less [of s ps "[c_lt, c_gt]" tok _ q _ eq s1 tok1 _ q1 _ eq1 s2] by simp
  then show ?case
    by (subst parseredirs.simps) (auto simp: bindr_fuel split: prod.splits bool.splits)
qed

lemma parseargs_fuel: "parseargs argc ps \<noteq> Inl NoFuel"
proof (induction "length ps" arbitrary: argc ps rule: less_induct)
  case less
  have "parseargs (Suc argc) s2 \<noteq> Inl NoFuel"
    if "peek ps toks = (s, False)" "gettoken s = (c_a, q, eq, s1)" "parseredirs s1 = Inr (s2, rs)" for toks s q eq s1 s2 rs
    using less [of s2 "Suc argc"] peek_le [OF that(1)] gettoken_less [OF that(2)] parseredirs_le [OF that(3)] by simp
  then show ?case
    using parseredirs_fuel by (subst parseargs.simps) (auto simp: bindr_fuel split: prod.splits bool.splits sum.splits)
qed

lemma parse_fuel:
  "4 * length ps + 4 \<le> n \<Longrightarrow> parseline n ps \<noteq> Inl NoFuel"
  "4 * length ps + 3 \<le> n \<Longrightarrow> parsepipe n ps \<noteq> Inl NoFuel"
  "4 * length ps + 1 \<le> n \<Longrightarrow> parseblock n ps \<noteq> Inl NoFuel"
  "4 * length ps + 2 \<le> n \<Longrightarrow> parseexec n ps \<noteq> Inl NoFuel"
proof (induction n arbitrary: ps)
  case (Suc n)
  { case 1
    have "parseline n (skip_token s3) \<noteq> Inl NoFuel"
      if "parsepipe n ps = Inr (s1, c)" "parseback c s1 = (s2, c1)" "peek s2 [c_semi] = (s3, True)" for s1 c s2 c1 s3
      using Suc.IH(1) [of "skip_token s3"] 1 skip_token_less [OF that(3)] parse_le(2) [OF that(1)] parseback_le [OF that(2)] by simp
    then show ?case
      using Suc.IH(2) [of ps] 1 by (auto simp: bindr_fuel split: prod.splits bool.splits)
  next
    case 2
    have "parsepipe n (skip_token s2) \<noteq> Inl NoFuel"
      if "parseexec n ps = Inr (s1, c)" "peek s1 [c_bar] = (s2, True)" for s1 c s2
      using Suc.IH(2) [of "skip_token s2"] 2 skip_token_less [OF that(2)] parse_le(4) [OF that(1)] by simp
    then show ?case
      using Suc.IH(4) [of ps] 2 by (auto simp: bindr_fuel split: prod.splits bool.splits)
  next
    case 3
    have "parseline n (skip_token s1) \<noteq> Inl NoFuel" if "peek ps [c_open] = (s1, True)" for s1
      using Suc.IH(1) [of "skip_token s1"] 3 skip_token_less [OF that] by simp
    then show ?case
      using parseredirs_fuel by (auto simp: bindr_fuel split: prod.splits bool.splits)
  next
    case 4
    have "parseblock n s1 \<noteq> Inl NoFuel" if "peek ps [c_open] = (s1, b)" for s1 b
      using Suc.IH(3) [of s1] 4 peek_le [OF that] by simp
    then show ?case
      using parseredirs_fuel parseargs_fuel by (auto simp: bindr_fuel split: prod.splits bool.splits)
  }
qed auto

section \<open>Words of the line\<close>

definition word_char :: "u8 \<Rightarrow> bool" where
  "word_char c \<longleftrightarrow> \<not> is_ws c \<and> \<not> is_sym c"

definition stops :: "u8 list \<Rightarrow> bool" where
  "stops r \<longleftrightarrow> r = [] \<or> \<not> word_char (hd r)"

text \<open>A pair of pointers to the ends of a maximal word of the line.\<close>

definition word_ptr :: "u8 list \<Rightarrow> wptr \<Rightarrow> bool" where
  "word_ptr line w \<longleftrightarrow> (\<exists>pre v post. line = pre @ v @ post \<and> v \<noteq> [] \<and> list_all word_char v \<and> stops post \<and>
     w = (length v + length post, length post))"

definition tail_of :: "u8 list \<Rightarrow> u8 list \<Rightarrow> bool" where
  "tail_of line s \<longleftrightarrow> (\<exists>pre. line = pre @ s)"

lemma tail_of_refl [simp]: "tail_of s s"
  by (simp add: tail_of_def)

lemma tail_of_dropWhile: "tail_of line s \<Longrightarrow> tail_of line (dropWhile P s)"
  unfolding tail_of_def by (metis append.assoc takeWhile_dropWhile_id)

lemma tail_of_skip_ws [intro]: "tail_of line s \<Longrightarrow> tail_of line (skip_ws s)"
  by (simp add: skip_ws_def tail_of_dropWhile)

lemma tail_of_Cons: "tail_of line (c # s) \<Longrightarrow> tail_of line s"
  unfolding tail_of_def by (metis append.assoc append_Cons append_Nil)

lemma tail_of_token_at: "tail_of line s \<Longrightarrow> tail_of line (snd (token_at s))"
proof (cases s)
  case (Cons c cs)
  assume t: "tail_of line s"
  then have "tail_of line cs"
    using Cons tail_of_Cons by blast
  moreover have "tail_of line (tl cs)" if "cs \<noteq> []"
    using \<open>tail_of line cs\<close> that tail_of_Cons by (cases cs) auto
  ultimately show ?thesis
    using t by (auto simp: token_at_def Cons intro: tail_of_dropWhile)
qed (simp add: token_at_def)

lemma tail_of_gettoken: "tail_of line ps \<Longrightarrow> gettoken ps = (tok, q, eq, rest) \<Longrightarrow> tail_of line rest"
  using tail_of_token_at [OF tail_of_skip_ws, of line ps] by (auto simp: gettoken_def Let_def split: prod.splits)

lemma tail_of_peek: "tail_of line ps \<Longrightarrow> peek ps toks = (s, b) \<Longrightarrow> tail_of line s"
  by (auto simp: peek_def Let_def)

lemma tail_of_skip_token: "tail_of line ps \<Longrightarrow> tail_of line (skip_token ps)"
  using tail_of_gettoken [of line ps] by (auto simp: skip_token_def split: prod.splits)

lemma stops_dropWhile: "stops (dropWhile word_char s)"
  using hd_dropWhile [of word_char s] by (auto simp: stops_def)

lemma word_char_fold: "(\<lambda>x. \<not> is_ws x \<and> \<not> is_sym x) = word_char"
  by (simp add: word_char_def fun_eq_iff)

lemma is_sym_iff: "is_sym c \<longleftrightarrow> c \<in> {c_lt, c_bar, c_gt, c_amp, c_semi, c_open, c_close}"
  by (auto simp: is_sym_def symbols_def)

lemma token_at_a: "token_at (c # cs) = (c_a, s1) \<Longrightarrow> \<not> is_sym c \<and> s1 = dropWhile word_char (c # cs)"
  unfolding token_at_def word_char_fold by (auto simp: is_sym_iff split: if_splits)

lemma token_at_word:
  assumes "token_at s = (c_a, s1)" "s = [] \<or> \<not> is_ws (hd s)" "tail_of line s"
  shows "word_ptr line (length s, length s1)"
proof -
  obtain c cs where s: "s = c # cs"
    using assms(1) by (cases s) (simp_all add: token_at_def)
  have s1: "s1 = dropWhile word_char s" and c: "\<not> is_sym c"
    using token_at_a [of c cs s1] assms(1) by (simp_all add: s)
  let ?v = "takeWhile word_char s"
  have "word_char c"
    using assms(2) c s by (simp add: word_char_def)
  then have "?v \<noteq> []"
    by (simp add: s)
  moreover have "list_all word_char ?v"
    by (auto simp: list_all_iff dest: set_takeWhileD)
  moreover have sv: "s = ?v @ s1"
    by (simp add: s1)
  moreover have "length s = length ?v + length s1"
    using sv by (metis length_append)
  moreover obtain pre where "line = pre @ s"
    using assms(3) by (auto simp: tail_of_def)
  ultimately have "line = pre @ ?v @ s1 \<and> ?v \<noteq> [] \<and> list_all word_char ?v \<and> stops s1 \<and>
      (length s, length s1) = (length ?v + length s1, length s1)"
    using stops_dropWhile [of s] by (simp add: s1)
  then show ?thesis
    unfolding word_ptr_def by blast
qed

lemma gettoken_word:
  assumes "tail_of line ps" "gettoken ps = (c_a, q, eq, rest)"
  shows "word_ptr line (length q, length eq)"
proof -
  have "token_at (skip_ws ps) = (c_a, eq)" "q = skip_ws ps"
    using assms(2) by (auto simp: gettoken_def Let_def split: prod.splits)
  moreover have "skip_ws ps = [] \<or> \<not> is_ws (hd (skip_ws ps))"
    using skip_ws_head [of ps] by (cases "skip_ws ps") auto
  ultimately show ?thesis
    using token_at_word [of "skip_ws ps" eq line] assms(1) by auto
qed

lemma parseredirs_words:
  "parseredirs ps = Inr (s, rs) \<Longrightarrow> tail_of line ps \<Longrightarrow> tail_of line s \<and> (\<forall>r \<in> set rs. word_ptr line (fst r))"
proof (induction "length ps" arbitrary: ps s rs rule: less_induct)
  case less
  obtain s0 b where p: "peek ps [c_lt, c_gt] = (s0, b)"
    by (cases "peek ps [c_lt, c_gt]")
  obtain tok q eq s1 where g: "gettoken s0 = (tok, q, eq, s1)"
    by (cases "gettoken s0")
  obtain tok1 q1 eq1 s2 where g1: "gettoken s1 = (tok1, q1, eq1, s2)"
    by (cases "gettoken s1")
  show ?case
  proof (cases b)
    case False
    then show ?thesis
      using less.prems p tail_of_peek [of line ps _ s0] by (auto simp: parseredirs.simps [of ps])
  next
    case True
    have t: "tail_of line s1" "tail_of line s2"
      using tail_of_gettoken [OF tail_of_peek [OF less.prems(2) p] g] tail_of_gettoken g1 by blast+
    obtain rs2 where r: "parseredirs s2 = Inr (s, rs2)" "rs = redir_of tok q1 eq1 @ rs2" "tok1 = c_a"
      using less.prems(1) p True g g1 by (auto simp: parseredirs.simps [of ps] bindr_eq_Inr split: if_splits)
    have "tail_of line s \<and> (\<forall>r \<in> set rs2. word_ptr line (fst r))"
      using less.hyps [of s2 s rs2] two_tokens_less [of s0 ps "[c_lt, c_gt]" tok _ q _ eq s1 tok1 _ q1 _ eq1 s2] p True g g1 r t by simp
    moreover have "word_ptr line (length q1, length eq1)"
      using gettoken_word [OF t(1)] g1 r(3) by simp
    ultimately show ?thesis
      using r(2) by (auto simp: redir_of_def)
  qed
qed

lemma parseargs_words:
  "parseargs argc ps = Inr (s, args, rs) \<Longrightarrow> tail_of line ps \<Longrightarrow>
     tail_of line s \<and> (\<forall>w \<in> set args. word_ptr line w) \<and> (\<forall>r \<in> set rs. word_ptr line (fst r))"
proof (induction "length ps" arbitrary: argc ps s args rs rule: less_induct)
  case less
  obtain s0 b where p: "peek ps [c_bar, c_close, c_amp, c_semi] = (s0, b)"
    by (cases "peek ps [c_bar, c_close, c_amp, c_semi]")
  obtain tok q eq s1 where g: "gettoken s0 = (tok, q, eq, s1)"
    by (cases "gettoken s0")
  have t: "tail_of line s0" "tail_of line s1"
    using tail_of_peek [OF less.prems(2) p] tail_of_gettoken g by blast+
  show ?case
  proof (cases "b \<or> tok = 0")
    case True
    then show ?thesis
      using less.prems p g t by (auto simp: parseargs.simps [of argc ps] split: bool.splits)
  next
    case False
    then have tok: "tok = c_a"
      using less.prems(1) p g by (auto simp: parseargs.simps [of argc ps] split: if_splits)
    then obtain s2 rs2 where r: "parseredirs s1 = Inr (s2, rs2)"
      using less.prems(1) p g False by (auto simp: parseargs.simps [of argc ps] split: if_splits sum.splits)
    then obtain args3 rs3 where a: "parseargs (Suc argc) s2 = Inr (s, args3, rs3)"
        "args = (length q, length eq) # args3" "rs = rs2 @ rs3"
      using less.prems(1) p g False tok by (auto simp: parseargs.simps [of argc ps] bindr_eq_Inr split: if_splits)
    have w: "tail_of line s2 \<and> (\<forall>r \<in> set rs2. word_ptr line (fst r))"
      using parseredirs_words [OF r t(2)] .
    have "length s2 < length ps"
      using peek_le [OF p] gettoken_less [OF g] parseredirs_le [OF r] tok by simp
    then show ?thesis
      using less.hyps [OF _ a(1)] w a(2,3) gettoken_word [OF t(1)] g tok by auto
  qed
qed

lemma set_redirs: "set_cmd (redirs c rs) = set_cmd c \<union> fst ` set rs"
  unfolding redirs_def by (induction rs arbitrary: c) auto

lemma parseback_words:
  "parseback c ps = (s, c1) \<Longrightarrow> tail_of line ps \<Longrightarrow> tail_of line s \<and> set_cmd c1 = set_cmd c"
proof (induction "length ps" arbitrary: c ps rule: less_induct)
  case less
  obtain s0 b where p: "peek ps [c_amp] = (s0, b)"
    by (cases "peek ps [c_amp]")
  obtain tok q eq s1 where g: "gettoken s0 = (tok, q, eq, s1)"
    by (cases "gettoken s0")
  have t: "tail_of line s0" "tail_of line s1"
    using tail_of_peek [OF less.prems(2) p] tail_of_gettoken g by blast+
  show ?case
    using less.hyps [of s1 "BACK c"] less.prems(1) p g t peek_gettoken_less [of ps "[c_amp]" s0 tok q eq s1]
    by (cases b) (auto simp: parseback.simps [of c ps])
qed

lemma parse_words:
  "parseline n ps = Inr (s, c) \<Longrightarrow> tail_of line ps \<Longrightarrow> tail_of line s \<and> (\<forall>w \<in> set_cmd c. word_ptr line w)"
  "parsepipe n ps = Inr (s, c) \<Longrightarrow> tail_of line ps \<Longrightarrow> tail_of line s \<and> (\<forall>w \<in> set_cmd c. word_ptr line w)"
  "parseblock n ps = Inr (s, c) \<Longrightarrow> tail_of line ps \<Longrightarrow> tail_of line s \<and> (\<forall>w \<in> set_cmd c. word_ptr line w)"
  "parseexec n ps = Inr (s, c) \<Longrightarrow> tail_of line ps \<Longrightarrow> tail_of line s \<and> (\<forall>w \<in> set_cmd c. word_ptr line w)"
proof (induction n arbitrary: ps s c)
  case (Suc n)
  { case 1
    then obtain s1 c1 where h1: "parsepipe n ps = Inr (s1, c1)"
      by (auto simp: bindr_eq_Inr)
    obtain s2 c2 where h2: "parseback c1 s1 = (s2, c2)"
      by (cases "parseback c1 s1")
    obtain s3 b where h3: "peek s2 [c_semi] = (s3, b)"
      by (cases "peek s2 [c_semi]")
    have w: "tail_of line s3" "\<forall>w \<in> set_cmd c2. word_ptr line w"
      using Suc.IH(2) [OF h1 1(2)] parseback_words [OF h2, of line] tail_of_peek [OF _ h3, of line] by auto
    show ?case
      using 1(1) h1 h2 h3 w Suc.IH(1) [of "skip_token s3"] tail_of_skip_token [OF w(1)] by (cases b) (auto simp: bindr_eq_Inr)
  next
    case 2
    then obtain s1 c1 where h1: "parseexec n ps = Inr (s1, c1)"
      by (auto simp: bindr_eq_Inr)
    obtain s2 b where h2: "peek s1 [c_bar] = (s2, b)"
      by (cases "peek s1 [c_bar]")
    have w: "tail_of line s2" "\<forall>w \<in> set_cmd c1. word_ptr line w"
      using Suc.IH(4) [OF h1 2(2)] tail_of_peek [OF _ h2, of line] by auto
    show ?case
      using 2(1) h1 h2 w Suc.IH(2) [of "skip_token s2"] tail_of_skip_token [OF w(1)] by (cases b) (auto simp: bindr_eq_Inr)
  next
    case 3
    then obtain s1 where p: "peek ps [c_open] = (s1, True)"
      by (cases "peek ps [c_open]") (auto split: bool.splits)
    then obtain s2 c2 where h1: "parseline n (skip_token s1) = Inr (s2, c2)"
      using 3(1) by (auto simp: bindr_eq_Inr)
    obtain s3 b where h2: "peek s2 [c_close] = (s3, b)"
      by (cases "peek s2 [c_close]")
    obtain rs where r: "parseredirs (skip_token s3) = Inr (s, rs)" "c = redirs c2 rs"
      using 3(1) p h1 h2 by (cases b) (auto simp: bindr_eq_Inr)
    have w: "tail_of line s2 \<and> (\<forall>w \<in> set_cmd c2. word_ptr line w)"
      using Suc.IH(1) [OF h1] tail_of_skip_token [OF tail_of_peek [OF 3(2) p]] by blast
    then show ?case
      using parseredirs_words [OF r(1), of line] tail_of_skip_token [OF tail_of_peek [OF _ h2]] r(2) by (auto simp: set_redirs)
  next
    case 4
    obtain s1 b where p: "peek ps [c_open] = (s1, b)"
      by (cases "peek ps [c_open]")
    have t: "tail_of line s1"
      using tail_of_peek [OF 4(2) p] .
    show ?case
    proof (cases b)
      case True
      then show ?thesis
        using 4(1) p t Suc.IH(3) [of s1 s c] by simp
    next
      case False
      then obtain s2 rs args rs1 where r: "parseredirs s1 = Inr (s2, rs)" "parseargs 0 s2 = Inr (s, args, rs1)"
          "c = redirs (EXEC args) (rs @ rs1)"
        using 4(1) p by (auto simp: bindr_eq_Inr)
      then show ?thesis
        using parseredirs_words [OF r(1) t] parseargs_words [OF r(2), of line] by (auto simp: set_redirs)
    qed
  }
qed auto

section \<open>Terminated words\<close>

text \<open>The bytes between two pointers of the line, and the string a program finds at a pointer of a buffer.\<close>

definition wslice :: "u8 list \<Rightarrow> wptr \<Rightarrow> u8 list" where
  "wslice line w = take (fst w - snd w) (drop (length line - fst w) line)"

definition cstring_at :: "nat \<Rightarrow> u8 list \<Rightarrow> wptr \<Rightarrow> u8 list" where
  "cstring_at es b w = takeWhile (\<lambda>c. c \<noteq> 0) (drop (es - fst w) b)"

lemma put_nul_length: "length (put_nul es w b) = length b"
  by (simp add: put_nul_def)

lemma put_nul_nth: "i < length b \<Longrightarrow> put_nul es w b ! i = (if i = es - snd w then 0 else b ! i)"
  by (simp add: put_nul_def nth_list_update)

lemma put_nuls:
  "length (foldl (\<lambda>b w. put_nul es w b) b ws) = length b"
  "i < length b \<Longrightarrow> foldl (\<lambda>b w. put_nul es w b) b ws ! i = (if i \<in> (\<lambda>w. es - snd w) ` set ws then 0 else b ! i)"
  by (induction ws arbitrary: b) (auto simp: put_nul_length put_nul_nth)

lemma length_nulterminate [simp]: "length (nulterminate es c b) = length b"
  by (induction es c b rule: nulterminate.induct) (auto simp: put_nul_length put_nuls)

lemma nth_nulterminate:
  "i < length b \<Longrightarrow> nulterminate es c b ! i = (if i \<in> (\<lambda>w. es - snd w) ` set_cmd c then 0 else b ! i)"
  by (induction es c b rule: nulterminate.induct) (auto simp: put_nul_length put_nul_nth put_nuls)

lemma slice_word: "wslice (pre @ v @ post) (length v + length post, length post) = v"
  by (simp add: wslice_def)

lemma word_end:
  assumes "word_ptr line w"
  shows "length line - snd w \<le> length line" "length line - snd w < length line \<Longrightarrow> \<not> word_char (line ! (length line - snd w))"
proof -
  obtain pre v post where h: "line = pre @ v @ post" "stops post" "w = (length v + length post, length post)"
    using assms by (auto simp: word_ptr_def)
  show "\<not> word_char (line ! (length line - snd w))" if "length line - snd w < length line"
    using h that by (cases post) (auto simp: stops_def nth_append)
qed simp

lemma while_zero: "0 \<notin> set v \<Longrightarrow> takeWhile (\<lambda>c. c \<noteq> 0) (v @ (0 :: u8) # x) = v"
  by (induction v) auto

lemma terminated_word:
  assumes "\<forall>w \<in> set_cmd c. word_ptr line w" "w \<in> set_cmd c" "0 \<notin> set line"
  shows "cstring_at (length line) (nulterminate (length line) c (line @ [0])) w = wslice line w"
proof -
  let ?b = "nulterminate (length line) c (line @ [0])"
  obtain pre v post where h: "line = pre @ v @ post" "list_all word_char v" "w = (length v + length post, length post)"
    using assms(1,2) by (auto simp: word_ptr_def)
  have inside: "?b ! (length pre + i) = v ! i" if "i < length v" for i
  proof -
    have "length pre + i \<noteq> length line - snd w1" if "w1 \<in> set_cmd c" for w1
    proof
      assume e: "length pre + i = length line - snd w1"
      have "line ! (length pre + i) = v ! i" "length pre + i < length line"
        using h(1) \<open>i < length v\<close> by (auto simp: nth_append)
      then show False
        using word_end(2) [of line w1] assms(1) that h(2) \<open>i < length v\<close> e by (auto simp: list_all_length)
    qed
    then show ?thesis
      using that h(1) by (subst nth_nulterminate) (auto simp: nth_append)
  qed
  have "?b ! (length pre + length v) = 0"
    using assms(2) h(1,3) by (subst nth_nulterminate) (auto intro!: image_eqI [of _ _ w])
  then have "drop (length pre) ?b = v @ 0 # drop (length pre + length v + 1) ?b"
    using inside h(1) by (intro nth_equalityI) (auto simp: nth_append nth_Cons' add.assoc)
  then show ?thesis
    using h(1,3) assms(3) slice_word [of pre v post] while_zero [of v] by (simp add: cstring_at_def)
qed

section \<open>Printing commands\<close>

text \<open>
  A command as text, at the level of a line (0), of what stands before a semicolon (1), of a pipe (2) or of
  what stands in a pipe (3); a command of a lower level is put in parentheses.
\<close>

definition paren :: "bool \<Rightarrow> u8 list \<Rightarrow> u8 list" where
  "paren b t = (if b then c_open # t @ [c_close] else t)"

definition redir_text :: "u8 list redir \<Rightarrow> u8 list" where
  "redir_text r = (case r of (file, mode, fd) \<Rightarrow>
     32 # (if mode = 0 then [c_lt] else if mode = 0x601 then [c_gt] else [c_gt, c_gt]) @ 32 # file)"

fun show_cmd :: "nat \<Rightarrow> u8 list cmd \<Rightarrow> u8 list" where
  "show_cmd lev (EXEC ws) = concat (map (\<lambda>w. 32 # w) ws)"
| "show_cmd lev (REDIR c file mode fd) = show_cmd 3 c @ redir_text (file, mode, fd)"
| "show_cmd lev (PIPE l r) = paren (lev > 2) (show_cmd 3 l @ [32, c_bar] @ show_cmd 2 r)"
| "show_cmd lev (LIST l r) = paren (lev > 0) (show_cmd 1 l @ [32, c_semi] @ show_cmd 0 r)"
| "show_cmd lev (BACK c) = paren (lev > 1) (show_cmd 1 c @ [32, c_amp])"

text \<open>The commands the shell can express.\<close>

definition word_ok :: "u8 list \<Rightarrow> bool" where
  "word_ok w \<longleftrightarrow> w \<noteq> [] \<and> list_all word_char w \<and> 0 \<notin> set w"

definition redir_ok :: "u8 list redir \<Rightarrow> bool" where
  "redir_ok r \<longleftrightarrow> word_ok (fst r) \<and> snd r \<in> {(0, 0), (0x601, 1), (0x201, 1)}"

fun cmd_ok :: "u8 list cmd \<Rightarrow> bool" where
  "cmd_ok (EXEC ws) \<longleftrightarrow> length ws < MAXARGS \<and> list_all word_ok ws"
| "cmd_ok (REDIR c file mode fd) \<longleftrightarrow> cmd_ok c \<and> redir_ok (file, mode, fd)"
| "cmd_ok (PIPE l r) \<longleftrightarrow> cmd_ok l \<and> cmd_ok r"
| "cmd_ok (LIST l r) \<longleftrightarrow> cmd_ok l \<and> cmd_ok r"
| "cmd_ok (BACK c) \<longleftrightarrow> cmd_ok c"

text \<open>What may come after a piece of text: nothing, or one of the given symbols.\<close>

definition follow :: "u8 set \<Rightarrow> u8 list \<Rightarrow> bool" where
  "follow F r \<longleftrightarrow> stops r \<and> (skip_ws r = [] \<or> hd (skip_ws r) \<in> F)"

subsection \<open>Tokens of a text\<close>

lemma strchr_mem: "strchr s c \<noteq> None \<longleftrightarrow> c \<in> set s"
  by (induction s) auto

lemma is_ws_iff: "is_ws c \<longleftrightarrow> c \<in> {32, 9, 13, 10, 11}"
  by (auto simp: is_ws_def whitespace_def)

lemma skip_ws_space [simp]: "skip_ws (32 # s) = skip_ws s"
  by (simp add: skip_ws_def is_ws_iff)

lemma skip_ws_sym: "is_sym c \<Longrightarrow> skip_ws (c # s) = c # s"
  by (auto simp: skip_ws_def is_ws_iff is_sym_iff)

lemma skip_ws_word: "word_ok w \<Longrightarrow> skip_ws (w @ r) = w @ r"
  by (cases w) (auto simp: word_ok_def word_char_def skip_ws_def)

lemma peek_skip [simp]: "peek (skip_ws s) toks = peek s toks"
  by (simp add: peek_def)

lemma peek_hit: "skip_ws s = c # cs \<Longrightarrow> c \<noteq> 0 \<Longrightarrow> c \<in> set toks \<Longrightarrow> peek s toks = (c # cs, True)"
  using strchr_mem [of toks c] by (simp add: peek_def)

lemma peek_miss: "skip_ws s = [] \<or> hd (skip_ws s) \<notin> set toks \<Longrightarrow> peek s toks = (skip_ws s, False)"
  using strchr_mem [of toks "hd (skip_ws s)"] by (auto simp: peek_def)

lemma gettoken_skip: "gettoken (skip_ws s) = gettoken s"
  by (simp add: gettoken_def)

lemma skip_token_skip [simp]: "skip_token (skip_ws s) = skip_token s"
  by (simp add: skip_token_def gettoken_skip)

lemma drop_word: "list_all word_char w \<Longrightarrow> stops r \<Longrightarrow> dropWhile word_char (w @ r) = r"
  by (induction w) (auto simp: stops_def dropWhile_eq_self_iff)

lemma token_at_text:
  assumes "word_ok w" "stops r"
  shows "token_at (w @ r) = (c_a, r)"
proof (cases w)
  case (Cons c cs)
  have "c \<noteq> 0" "\<not> is_sym c"
    using assms(1) by (auto simp: Cons word_ok_def word_char_def)
  then show ?thesis
    using drop_word [of w r] assms unfolding token_at_def word_char_fold
    by (simp add: Cons is_sym_iff word_ok_def)
qed (use assms in \<open>simp add: word_ok_def\<close>)

lemma gettoken_text: "word_ok w \<Longrightarrow> stops r \<Longrightarrow> skip_ws s = w @ r \<Longrightarrow> gettoken s = (c_a, w @ r, r, skip_ws r)"
  by (simp add: gettoken_def token_at_text)

lemma gettoken_sym:
  "c \<in> {c_bar, c_open, c_close, c_semi, c_amp, c_lt} \<Longrightarrow> skip_ws s = c # cs \<Longrightarrow> gettoken s = (c, c # cs, cs, skip_ws cs)"
  by (auto simp: gettoken_def token_at_def)

lemma skip_token_sym:
  "c \<in> {c_bar, c_open, c_close, c_semi, c_amp, c_lt} \<Longrightarrow> skip_ws s = c # cs \<Longrightarrow> skip_token s = skip_ws cs"
  using gettoken_sym [of c s cs] by (simp add: skip_token_def)

lemma parse_skip:
  "parseredirs (skip_ws s) = parseredirs s"
  "parseargs argc (skip_ws s) = parseargs argc s"
  "parseexec n (skip_ws s) = parseexec n s"
  "parsepipe n (skip_ws s) = parsepipe n s"
  "parseline n (skip_ws s) = parseline n s"
  "parseback c (skip_ws s) = parseback c s"
proof -
  show e: "parseexec n (skip_ws s) = parseexec n s" for n
    by (cases n) simp_all
  show p: "parsepipe n (skip_ws s) = parsepipe n s" for n
    by (cases n) (simp_all add: e)
  show "parseline n (skip_ws s) = parseline n s"
    by (cases n) (simp_all add: p)
qed (simp_all add: parseredirs.simps [of "skip_ws s"] parseredirs.simps [of s] parseargs.simps [of argc "skip_ws s"]
      parseargs.simps [of argc s] parseback.simps [of c "skip_ws s"] parseback.simps [of c s])

lemma tail_of_append: "tail_of line (a @ b) \<Longrightarrow> tail_of line b"
  unfolding tail_of_def by (metis append.assoc)

lemma slice_tail: "tail_of line (w @ r) \<Longrightarrow> wslice line (length (w @ r), length r) = w"
  by (auto simp: tail_of_def slice_word)

subsection \<open>Parsing a text\<close>

lemma stops_space [simp]: "stops (32 # r)"
  by (simp add: stops_def word_char_def is_ws_iff)

lemma follow_stops: "follow F r \<Longrightarrow> stops r"
  by (simp add: follow_def)

lemma stops_redirs: "stops r \<Longrightarrow> stops (concat (map redir_text rs) @ r)"
  by (cases rs) (auto simp: redir_text_def)

lemma redirs_map: "map_cmd f (redirs c rs) = redirs (map_cmd f c) (map (apfst f) rs)"
  unfolding redirs_def by (induction rs arbitrary: c) auto

lemma parseredirs_none:
  "skip_ws s = [] \<or> hd (skip_ws s) \<notin> {c_lt, c_gt} \<Longrightarrow> parseredirs s = Inr (skip_ws s, [])"
  using peek_miss [of s "[c_lt, c_gt]"] by (simp add: parseredirs.simps)

lemma parseredirs_step:
  assumes "redir_ok rd" "stops r"
  shows "parseredirs (redir_text rd @ r) =
    bindr (parseredirs r) (\<lambda>(s, rs). Inr (s, ((length (fst rd @ r), length r), snd rd) # rs))"
proof -
  obtain fl mode fd where rd: "rd = (fl, mode, fd)"
    by (cases rd)
  have f: "word_ok fl" "(mode, fd) \<in> {(0, 0), (0x601, 1), (0x201, 1)}"
    using assms(1) by (auto simp: redir_ok_def rd)
  have tok: "gettoken (32 # fl @ r) = (c_a, fl @ r, r, skip_ws r)"
    using gettoken_text [OF f(1) assms(2)] skip_ws_word [OF f(1)] by simp
  have tail: "skip_ws (32 # fl @ r) = fl @ r"
    using skip_ws_word [OF f(1)] by simp
  have sp: "gettoken (fl @ r) = (c_a, fl @ r, r, skip_ws r)"
    using tok gettoken_skip [of "32 # fl @ r"] tail by simp
  have gt: "skip_ws (c_gt # x) = c_gt # x" "skip_ws (c_lt # x) = c_lt # x" for x
    by (auto intro: skip_ws_sym simp: is_sym_iff)
  show ?thesis
    using f(2) sp tail
    by (auto simp: rd redir_text_def parseredirs.simps [of "32 # _"] peek_def gt strchr_mem gettoken_def [of "_ # _"] token_at_def
        redir_of_def parse_skip)
qed

lemma parseredirs_text:
  assumes "list_all redir_ok rs" "stops r" "skip_ws r = [] \<or> hd (skip_ws r) \<notin> {c_lt, c_gt}"
    "tail_of L (concat (map redir_text rs) @ r)"
  shows "\<exists>rs'. parseredirs (concat (map redir_text rs) @ r) = Inr (skip_ws r, rs') \<and> map (apfst (wslice L)) rs' = rs"
  using assms(1,4)
proof (induction rs)
  case Nil
  then show ?case
    using assms(3) by (auto simp: parseredirs_none)
next
  case (Cons rd rs)
  let ?r = "concat (map redir_text rs) @ r"
  obtain fl mode fd where rd: "rd = (fl, mode, fd)"
    by (cases rd)
  have "redir_text rd = (32 # (if mode = 0 then [c_lt] else if mode = 0x601 then [c_gt] else [c_gt, c_gt]) @ [32]) @ fl"
    by (simp add: rd redir_text_def)
  then obtain x where "redir_text rd = x @ fl"
    by blast
  then have t: "tail_of L (fl @ ?r)" "tail_of L ?r"
    using Cons.prems(2) tail_of_append [of L x "fl @ ?r"] tail_of_append [of L fl ?r] by simp_all
  obtain rs' where "parseredirs ?r = Inr (skip_ws r, rs')" "map (apfst (wslice L)) rs' = rs"
    using Cons.IH Cons.prems(1) t(2) by auto
  moreover have "parseredirs (redir_text rd @ ?r) =
      bindr (parseredirs ?r) (\<lambda>(s, rs). Inr (s, ((length (fst rd @ ?r), length ?r), snd rd) # rs))"
    using parseredirs_step [of rd ?r] Cons.prems(1) stops_redirs [OF assms(2)] by simp
  ultimately show ?case
    using slice_tail [OF t(1)] by (simp add: rd)
qed

abbreviation "words_text ws \<equiv> concat (map (\<lambda>w. 32 # w) ws)"
abbreviation "redirs_text rs \<equiv> concat (map redir_text rs)"

abbreviation "F_exec \<equiv> {c_bar, c_close, c_amp, c_semi}"
abbreviation "F_pipe \<equiv> {c_close, c_amp, c_semi}"
abbreviation "F_back \<equiv> {c_close, c_semi}"
abbreviation "F_line \<equiv> {c_close}"

lemma follow_mono: "follow F r \<Longrightarrow> F \<subseteq> G \<Longrightarrow> follow G r"
  by (auto simp: follow_def)

lemma follow_no_redir: "follow F_exec r \<Longrightarrow> skip_ws r = [] \<or> hd (skip_ws r) \<notin> {c_lt, c_gt}"
  by (auto simp: follow_def)

lemma gettoken_end: "gettoken [] = (0, [], [], [])"
  by (simp add: gettoken_def token_at_def skip_ws_def)

lemma parseargs_end: "follow F_exec r \<Longrightarrow> parseargs argc r = Inr (skip_ws r, [], [])"
proof (cases "skip_ws r")
  case Nil
  then show ?thesis
    using peek_miss [of r "[c_bar, c_close, c_amp, c_semi]"]
    by (simp add: parseargs.simps gettoken_end)
next
  case (Cons c cs)
  assume "follow F_exec r"
  then show ?thesis
    using Cons peek_hit [of r c cs "[c_bar, c_close, c_amp, c_semi]"] by (auto simp: parseargs.simps follow_def)
qed

lemma parseargs_step:
  assumes "word_ok w" "stops r" "Suc argc < MAXARGS" "parseredirs r = Inr (s2, rs)"
  shows "parseargs argc (32 # w @ r) =
    bindr (parseargs (Suc argc) s2) (\<lambda>(s, args, rs1). Inr (s, (length (w @ r), length r) # args, rs @ rs1))"
proof -
  have s: "skip_ws (32 # w @ r) = w @ r"
    using skip_ws_word [OF assms(1)] by simp
  have "hd (w @ r) \<notin> {c_bar, c_close, c_amp, c_semi}"
    using assms(1) by (cases w) (auto simp: word_ok_def word_char_def is_sym_iff)
  then have p: "peek (32 # w @ r) [c_bar, c_close, c_amp, c_semi] = (w @ r, False)"
    using peek_miss [of "32 # w @ r" "[c_bar, c_close, c_amp, c_semi]"] s by simp
  have g: "gettoken (w @ r) = (c_a, w @ r, r, skip_ws r)"
    using gettoken_text [OF assms(1,2), of "w @ r"] skip_ws_word [OF assms(1)] by simp
  show ?thesis
    using assms(3,4) by (subst parseargs.simps) (simp add: p g parse_skip)
qed

lemma parseargs_text:
  assumes "list_all word_ok ws" "ws \<noteq> []" "argc + length ws < MAXARGS" "list_all redir_ok rs" "follow F_exec r"
    "tail_of L (words_text ws @ redirs_text rs @ r)"
  shows "\<exists>args rs'. parseargs argc (words_text ws @ redirs_text rs @ r) = Inr (skip_ws r, args, rs') \<and>
    map (wslice L) args = ws \<and> map (apfst (wslice L)) rs' = rs"
  using assms(1-3,6)
proof (induction ws arbitrary: argc)
  case (Cons w ws)
  let ?r = "words_text ws @ redirs_text rs @ r"
  have t: "tail_of L (w @ ?r)" "tail_of L ?r"
    using Cons.prems(4) tail_of_append [of L "[32]" "w @ ?r"] tail_of_append [of L "32 # w" ?r] by simp_all
  have st: "stops ?r"
    using stops_redirs [OF follow_stops [OF assms(5)]] by (cases ws) auto
  show ?case
  proof (cases "ws = []")
    case True
    obtain rs' where rs': "parseredirs ?r = Inr (skip_ws r, rs')" "map (apfst (wslice L)) rs' = rs"
      using parseredirs_text [OF assms(4) follow_stops [OF assms(5)] follow_no_redir [OF assms(5)], of L] t(2) True by auto
    then show ?thesis
      using parseargs_step [OF _ st _ rs'(1), of w argc] Cons.prems(1,3) parseargs_end [OF assms(5), of "Suc argc"] True
        slice_tail [OF t(1)] by (simp add: parse_skip)
  next
    case False
    then obtain w1 ws1 where ws: "ws = w1 # ws1"
      by (cases ws) auto
    have "skip_ws ?r = w1 @ words_text ws1 @ redirs_text rs @ r" "word_ok w1"
      using Cons.prems(1) skip_ws_word [of w1] by (simp_all add: ws)
    then have "hd (skip_ws ?r) \<notin> {c_lt, c_gt}"
      by (cases w1) (auto simp: word_ok_def word_char_def is_sym_iff)
    then have none: "parseredirs ?r = Inr (skip_ws ?r, [])"
      using parseredirs_none [of ?r] by blast
    obtain args rs' where "parseargs (Suc argc) ?r = Inr (skip_ws r, args, rs')" "map (wslice L) args = ws"
        "map (apfst (wslice L)) rs' = rs"
      using Cons.IH [of "Suc argc"] Cons.prems(1,3) False t(2) by auto
    then show ?thesis
      using parseargs_step [OF _ st _ none, of w argc] Cons.prems(1,3) slice_tail [OF t(1)] by (simp add: parse_skip)
  qed
qed simp

text \<open>What the functions of the parser make of the text of a command, with enough depth.\<close>

definition exec_parsed :: "u8 list cmd \<Rightarrow> bool" where
  "exec_parsed c \<longleftrightarrow> (\<forall>rs r L n S. S = show_cmd 3 c @ redirs_text rs @ r \<longrightarrow> list_all redir_ok rs \<longrightarrow> follow F_exec r \<longrightarrow>
     tail_of L S \<longrightarrow> 4 * length S + 2 \<le> n \<longrightarrow>
     (\<exists>c'. parseexec n S = Inr (skip_ws r, c') \<and> map_cmd (wslice L) c' = redirs c rs))"

definition pipe_parsed :: "u8 list cmd \<Rightarrow> bool" where
  "pipe_parsed c \<longleftrightarrow> (\<forall>r L n S. S = show_cmd 2 c @ r \<longrightarrow> follow F_pipe r \<longrightarrow> tail_of L S \<longrightarrow> 4 * length S + 3 \<le> n \<longrightarrow>
     (\<exists>c'. parsepipe n S = Inr (skip_ws r, c') \<and> map_cmd (wslice L) c' = c))"

abbreviation "amps k \<equiv> concat (replicate k [32, c_amp])"

definition back_parsed :: "u8 list cmd \<Rightarrow> bool" where
  "back_parsed c \<longleftrightarrow> (\<forall>k r L n S. S = show_cmd 1 c @ amps k @ r \<longrightarrow> follow F_back r \<longrightarrow> tail_of L S \<longrightarrow> 4 * length S + 3 \<le> n \<longrightarrow>
     (\<exists>s c1 c'. parsepipe n S = Inr (s, c1) \<and> parseback c1 s = (skip_ws r, c') \<and> map_cmd (wslice L) c' = (BACK ^^ k) c))"

definition line_parsed :: "u8 list cmd \<Rightarrow> bool" where
  "line_parsed c \<longleftrightarrow> (\<forall>r L n S. S = show_cmd 0 c @ r \<longrightarrow> follow F_line r \<longrightarrow> tail_of L S \<longrightarrow> 4 * length S + 4 \<le> n \<longrightarrow>
     (\<exists>c'. parseline n S = Inr (skip_ws r, c') \<and> map_cmd (wslice L) c' = c))"

lemma exec_EXEC:
  assumes "cmd_ok (EXEC ws)"
  shows "exec_parsed (EXEC ws)"
  unfolding exec_parsed_def
proof (intro allI impI)
  fix rs r L n S
  assume S: "S = show_cmd 3 (EXEC ws) @ redirs_text rs @ r" and rs: "list_all redir_ok rs" and r: "follow F_exec r"
    and t: "tail_of L S" and n: "4 * length S + 2 \<le> n"
  have Seq: "S = words_text ws @ redirs_text rs @ r"
    by (simp add: S)
  have ok: "length ws < MAXARGS" "list_all word_ok ws"
    using assms by simp_all
  obtain m where m: "n = Suc m"
    using n by (cases n) auto
  show "\<exists>c'. parseexec n S = Inr (skip_ws r, c') \<and> map_cmd (wslice L) c' = redirs (EXEC ws) rs"
  proof (cases ws)
    case Nil
    have "skip_ws S = [] \<or> hd (skip_ws S) \<notin> {c_open}"
    proof (cases rs)
      case Nil
      then show ?thesis
        using r by (auto simp: Seq \<open>ws = []\<close> follow_def)
    next
      case (Cons rd rs1)
      then show ?thesis
        by (auto simp: Seq \<open>ws = []\<close> redir_text_def skip_ws_sym is_sym_iff split: prod.splits)
    qed
    then have p: "peek S [c_open] = (skip_ws S, False)"
      using peek_miss [of S "[c_open]"] by auto
    obtain rs' where "parseredirs S = Inr (skip_ws r, rs')" "map (apfst (wslice L)) rs' = rs"
      using parseredirs_text [OF rs follow_stops [OF r] follow_no_redir [OF r], of L] t by (auto simp: Seq Nil)
    then show ?thesis
      using p parseargs_end [OF r, of 0] by (simp add: m parse_skip redirs_map Nil)
  next
    case (Cons w ws1)
    have s: "skip_ws S = w @ words_text ws1 @ redirs_text rs @ r"
      using ok(2) skip_ws_word [of w] by (simp add: Seq Cons)
    then have h: "hd (skip_ws S) \<notin> {c_open, c_lt, c_gt}"
      using ok(2) by (cases w) (auto simp: Cons word_ok_def word_char_def is_sym_iff)
    then have p: "peek S [c_open] = (skip_ws S, False)"
      using peek_miss [of S "[c_open]"] by auto
    have none: "parseredirs S = Inr (skip_ws S, [])"
      using h parseredirs_none [of S] by blast
    obtain args rs' where a: "parseargs 0 S = Inr (skip_ws r, args, rs')" "map (wslice L) args = ws" "map (apfst (wslice L)) rs' = rs"
      using parseargs_text [OF ok(2) _ _ rs r, of 0 L] t ok(1) Cons by (auto simp: Seq)
    then show ?thesis
      using p none by (simp add: m parse_skip redirs_map)
  qed
qed

lemma exec_REDIR:
  assumes "exec_parsed c" "redir_ok (fl, mode, fd)"
  shows "exec_parsed (REDIR c fl mode fd)"
  unfolding exec_parsed_def
proof (intro allI impI)
  fix rs r L n S
  assume "S = show_cmd 3 (REDIR c fl mode fd) @ redirs_text rs @ r" "list_all redir_ok rs" "follow F_exec r" "tail_of L S" "4 * length S + 2 \<le> n"
  then show "\<exists>c'. parseexec n S = Inr (skip_ws r, c') \<and> map_cmd (wslice L) c' = redirs (REDIR c fl mode fd) rs"
    using assms(1) [unfolded exec_parsed_def, rule_format, of S "(fl, mode, fd) # rs" r L n] assms(2)
    by (simp add: redirs_def)
qed

lemma exec_paren:
  assumes "line_parsed c" "show_cmd 3 c = paren True (show_cmd 0 c)"
  shows "exec_parsed c"
  unfolding exec_parsed_def
proof (intro allI impI)
  fix rs r L n S
  assume S: "S = show_cmd 3 c @ redirs_text rs @ r" and rs: "list_all redir_ok rs" and r: "follow F_exec r"
    and t: "tail_of L S" and n: "4 * length S + 2 \<le> n"
  let ?r = "redirs_text rs @ r"
  have Seq: "S = c_open # show_cmd 0 c @ c_close # ?r"
    using S assms(2) by (simp add: paren_def)
  obtain m where m: "n = Suc (Suc m)"
    using n by (cases n; cases "n - 1") (auto simp: Seq)
  have op: "skip_ws S = c_open # show_cmd 0 c @ c_close # ?r"
    by (simp add: Seq skip_ws_sym is_sym_iff)
  have cl: "skip_ws (c_close # ?r) = c_close # ?r"
    by (simp add: skip_ws_sym is_sym_iff)
  have "follow F_line (c_close # ?r)"
    by (simp add: follow_def cl stops_def word_char_def is_sym_iff)
  moreover have "tail_of L (show_cmd 0 c @ c_close # ?r)"
    using t tail_of_Cons by (simp add: Seq)
  moreover have "4 * length (show_cmd 0 c @ c_close # ?r) + 4 \<le> m"
    using n by (simp add: m Seq)
  ultimately obtain c' where c': "parseline m (show_cmd 0 c @ c_close # ?r) = Inr (c_close # ?r, c')" "map_cmd (wslice L) c' = c"
    using assms(1) [unfolded line_parsed_def, rule_format, of _ "c_close # ?r" L m] cl by auto
  obtain rs' where rs': "parseredirs ?r = Inr (skip_ws r, rs')" "map (apfst (wslice L)) rs' = rs"
    using parseredirs_text [OF rs follow_stops [OF r] follow_no_redir [OF r], of L] t
      tail_of_append [of L "c_open # show_cmd 0 c @ [c_close]" ?r] by (auto simp: Seq)
  have "skip_token (c_open # show_cmd 0 c @ c_close # ?r) = skip_ws (show_cmd 0 c @ c_close # ?r)"
    using skip_token_sym [of c_open "c_open # show_cmd 0 c @ c_close # ?r"] op Seq by simp
  moreover have "skip_token (c_close # ?r) = skip_ws ?r"
    using skip_token_sym [of c_close "c_close # ?r"] cl by simp
  ultimately show "\<exists>c'. parseexec n S = Inr (skip_ws r, c') \<and> map_cmd (wslice L) c' = redirs c rs"
    using c' rs' peek_hit [OF op, of "[c_open]"] peek_hit [OF op [unfolded Seq], of "[c_open]"] peek_hit [OF cl, of "[c_close]"]
    by (simp add: m parse_skip redirs_map)
qed

lemma pipe_exec:
  assumes "exec_parsed c" "show_cmd 2 c = show_cmd 3 c"
  shows "pipe_parsed c"
  unfolding pipe_parsed_def
proof (intro allI impI)
  fix r L n S
  assume S: "S = show_cmd 2 c @ r" and r: "follow F_pipe r" and t: "tail_of L S" and n: "4 * length S + 3 \<le> n"
  obtain m where m: "n = Suc m"
    using n by (cases n) auto
  have "peek r [c_bar] = (skip_ws r, False)"
    using r by (intro peek_miss) (auto simp: follow_def)
  moreover obtain c' where "parseexec m S = Inr (skip_ws r, c')" "map_cmd (wslice L) c' = c"
    using assms(1) [unfolded exec_parsed_def, rule_format, of S "[]" r L m] S assms(2) t n follow_mono [OF r, of F_exec]
    by (auto simp: m redirs_def)
  ultimately show "\<exists>c'. parsepipe n S = Inr (skip_ws r, c') \<and> map_cmd (wslice L) c' = c"
    by (simp add: m)
qed

lemma pipe_PIPE:
  assumes "exec_parsed c" "pipe_parsed d"
  shows "pipe_parsed (PIPE c d)"
  unfolding pipe_parsed_def
proof (intro allI impI)
  fix r L n S
  assume S: "S = show_cmd 2 (PIPE c d) @ r" and r: "follow F_pipe r" and t: "tail_of L S" and n: "4 * length S + 3 \<le> n"
  obtain m where m: "n = Suc m"
    using n by (cases n) auto
  let ?d = "show_cmd 2 d @ r"
  have Seq: "S = show_cmd 3 c @ 32 # c_bar # ?d"
    by (simp add: S paren_def)
  have bar: "skip_ws (32 # c_bar # ?d) = c_bar # ?d"
    by (simp add: skip_ws_sym is_sym_iff)
  obtain c' where c': "parseexec m S = Inr (c_bar # ?d, c')" "map_cmd (wslice L) c' = c"
    using assms(1) [unfolded exec_parsed_def, rule_format, of S "[]" "32 # c_bar # ?d" L m] t n bar
    by (auto simp: m redirs_def Seq follow_def)
  obtain d' where d': "parsepipe m ?d = Inr (skip_ws r, d')" "map_cmd (wslice L) d' = d"
    using assms(2) [unfolded pipe_parsed_def, rule_format, of ?d r L m] r t n tail_of_append [of L "show_cmd 3 c @ [32, c_bar]" ?d]
    by (auto simp: m Seq)
  have bar1: "skip_ws (c_bar # ?d) = c_bar # ?d"
    using bar by simp
  show "\<exists>c'. parsepipe n S = Inr (skip_ws r, c') \<and> map_cmd (wslice L) c' = PIPE c d"
    using c' d' peek_hit [OF bar1, of "[c_bar]"] skip_token_sym [OF _ bar1] by (simp add: m parse_skip)
qed

lemma parseback_text: "follow F_back r \<Longrightarrow> parseback c (amps k @ r) = (skip_ws r, (BACK ^^ k) c)"
proof (induction k arbitrary: c)
  case 0
  then have "peek r [c_amp] = (skip_ws r, False)"
    by (intro peek_miss) (auto simp: follow_def)
  then show ?case
    by (simp add: parseback.simps)
next
  case (Suc k)
  have a: "skip_ws (amps (Suc k) @ r) = c_amp # amps k @ r"
    by (simp add: skip_ws_sym is_sym_iff)
  then have "skip_ws (c_amp # amps k @ r) = c_amp # amps k @ r"
    by (simp add: skip_ws_sym is_sym_iff)
  then have "gettoken (c_amp # amps k @ r) = (c_amp, c_amp # amps k @ r, amps k @ r, skip_ws (amps k @ r))"
    using gettoken_sym [of c_amp "c_amp # amps k @ r" "amps k @ r"] by simp
  then show ?case
    using Suc peek_hit [OF a, of "[c_amp]"] by (subst parseback.simps) (simp add: parse_skip funpow_swap1)
qed

lemma follow_amps: "follow F_back r \<Longrightarrow> follow F_pipe (amps k @ r)"
  by (cases k) (auto simp: follow_def skip_ws_sym is_sym_iff)

lemma back_pipe:
  assumes "pipe_parsed c" "show_cmd 1 c = show_cmd 2 c"
  shows "back_parsed c"
  unfolding back_parsed_def
proof (intro allI impI)
  fix k r L n S
  assume S: "S = show_cmd 1 c @ amps k @ r" and r: "follow F_back r" and t: "tail_of L S" and n: "4 * length S + 3 \<le> n"
  obtain c' where c': "parsepipe n S = Inr (skip_ws (amps k @ r), c')" "map_cmd (wslice L) c' = c"
    using assms(1) [unfolded pipe_parsed_def, rule_format, of S "amps k @ r" L n] S assms(2) t n follow_amps [OF r] by auto
  moreover have "parseback c' (skip_ws (amps k @ r)) = (skip_ws r, (BACK ^^ k) c')"
    using parseback_text [OF r] by (simp add: parse_skip)
  moreover have "map_cmd f ((BACK ^^ k) x) = (BACK ^^ k) (map_cmd f x)" for f :: "wptr \<Rightarrow> u8 list" and x
    by (induction k) auto
  ultimately show "\<exists>s c1 c'. parsepipe n S = Inr (s, c1) \<and> parseback c1 s = (skip_ws r, c') \<and> map_cmd (wslice L) c' = (BACK ^^ k) c"
    by auto
qed

lemma back_BACK:
  assumes "back_parsed c"
  shows "back_parsed (BACK c)"
  unfolding back_parsed_def
proof (intro allI impI)
  fix k r L n S
  assume "S = show_cmd 1 (BACK c) @ amps k @ r" "follow F_back r" "tail_of L S" "4 * length S + 3 \<le> n"
  then show "\<exists>s c1 c'. parsepipe n S = Inr (s, c1) \<and> parseback c1 s = (skip_ws r, c') \<and> map_cmd (wslice L) c' = (BACK ^^ k) (BACK c)"
    using assms [unfolded back_parsed_def, rule_format, of S "Suc k" r L n] by (simp add: paren_def funpow_swap1)
qed

lemma line_back:
  assumes "back_parsed c" "show_cmd 0 c = show_cmd 1 c"
  shows "line_parsed c"
  unfolding line_parsed_def
proof (intro allI impI)
  fix r L n S
  assume S: "S = show_cmd 0 c @ r" and r: "follow F_line r" and t: "tail_of L S" and n: "4 * length S + 4 \<le> n"
  obtain m where m: "n = Suc m"
    using n by (cases n) auto
  obtain s c1 c' where "parsepipe m S = Inr (s, c1)" "parseback c1 s = (skip_ws r, c')" "map_cmd (wslice L) c' = c"
    using assms(1) [unfolded back_parsed_def, rule_format, of S 0 r L m] S assms(2) t n follow_mono [OF r, of F_back]
    by (auto simp: m)
  moreover have "peek r [c_semi] = (skip_ws r, False)"
    using r by (intro peek_miss) (auto simp: follow_def)
  ultimately show "\<exists>c'. parseline n S = Inr (skip_ws r, c') \<and> map_cmd (wslice L) c' = c"
    by (simp add: m)
qed

lemma line_LIST:
  assumes "back_parsed c" "line_parsed d"
  shows "line_parsed (LIST c d)"
  unfolding line_parsed_def
proof (intro allI impI)
  fix r L n S
  assume S: "S = show_cmd 0 (LIST c d) @ r" and r: "follow F_line r" and t: "tail_of L S" and n: "4 * length S + 4 \<le> n"
  obtain m where m: "n = Suc m"
    using n by (cases n) auto
  let ?d = "show_cmd 0 d @ r"
  have Seq: "S = show_cmd 1 c @ amps 0 @ 32 # c_semi # ?d"
    by (simp add: S paren_def)
  have semi: "skip_ws (32 # c_semi # ?d) = c_semi # ?d" "skip_ws (c_semi # ?d) = c_semi # ?d"
    by (simp_all add: skip_ws_sym is_sym_iff)
  obtain s c1 c' where c': "parsepipe m S = Inr (s, c1)" "parseback c1 s = (c_semi # ?d, c')" "map_cmd (wslice L) c' = c"
    using assms(1) [unfolded back_parsed_def, rule_format, OF Seq, of L m] t n semi by (auto simp: m follow_def)
  obtain d' where d': "parseline m ?d = Inr (skip_ws r, d')" "map_cmd (wslice L) d' = d"
    using assms(2) [unfolded line_parsed_def, rule_format, of ?d r L m] r t n tail_of_append [of L "show_cmd 1 c @ [32, c_semi]" ?d]
    by (auto simp: m Seq)
  show "\<exists>c'. parseline n S = Inr (skip_ws r, c') \<and> map_cmd (wslice L) c' = LIST c d"
    using c' d' peek_hit [OF semi(2), of "[c_semi]"] skip_token_sym [OF _ semi(2)] by (simp add: m parse_skip)
qed

lemma parse_show_levels: "cmd_ok c \<Longrightarrow> exec_parsed c \<and> pipe_parsed c \<and> back_parsed c \<and> line_parsed c"
proof (induction c)
  case (EXEC ws)
  then show ?case
    using exec_EXEC [of ws] pipe_exec [of "EXEC ws"] back_pipe [of "EXEC ws"] line_back [of "EXEC ws"] by simp
next
  case (REDIR c fl mode fd)
  then show ?case
    using exec_REDIR [of c fl mode fd] pipe_exec [of "REDIR c fl mode fd"] back_pipe [of "REDIR c fl mode fd"]
      line_back [of "REDIR c fl mode fd"] by simp
next
  case (PIPE c d)
  then have "pipe_parsed (PIPE c d)"
    using pipe_PIPE by simp
  then show ?case
    using back_pipe [of "PIPE c d"] line_back [of "PIPE c d"] exec_paren [of "PIPE c d"] by (simp add: paren_def)
next
  case (LIST c d)
  then have "line_parsed (LIST c d)"
    using line_LIST by simp
  then show ?case
    using exec_paren [of "LIST c d"] pipe_exec [of "LIST c d"] back_pipe [of "LIST c d"] by (simp add: paren_def)
next
  case (BACK c)
  then have "back_parsed (BACK c)"
    using back_BACK by simp
  then show ?case
    using line_back [of "BACK c"] exec_paren [of "BACK c"] pipe_exec [of "BACK c"] by (simp add: paren_def)
qed

section \<open>Running a command\<close>

text \<open>
  The system calls of a process, oldest first. \<open>res\<close> gives what the last call of the list returns (the child of a
  \<open>fork\<close> is the process for which it returns 0) and \<open>pfd\<close> the two descriptors of a pipe. \<open>exec\<close> returns only when it
  fails, \<open>exit\<close> never does.
\<close>

datatype sysc = SExec "u8 list" "u8 list list" | SOpen "u8 list" int | SClose int | SFork | SWait | SPipe | SDup int
  | SWrite int "u8 list" | SRead int | SChdir "u8 list" | SExit int

definition ctext :: "string \<Rightarrow> u8 list" where
  "ctext s = map of_char s"

text \<open>\<open>panic\<close>, and \<open>fork1\<close> with what the child and the parent do next.\<close>

definition sh_panic :: "u8 list \<Rightarrow> sysc list \<Rightarrow> sysc list" where
  "sh_panic msg t = t @ [SWrite 2 (msg @ [10]), SExit 1]"

definition fork1 :: "(sysc list \<Rightarrow> int) \<Rightarrow> sysc list \<Rightarrow> (sysc list \<Rightarrow> 'b) \<Rightarrow> (sysc list \<Rightarrow> 'b) \<Rightarrow> (sysc list \<Rightarrow> 'b) \<Rightarrow> 'b" where
  "fork1 res t child par fail =
     (let t1 = t @ [SFork] in if res t1 = -1 then fail (sh_panic (ctext ''fork'') t1) else if res t1 = 0 then child t1 else par t1)"

fun runcmd :: "(sysc list \<Rightarrow> int) \<Rightarrow> (sysc list \<Rightarrow> int \<times> int) \<Rightarrow> u8 list cmd \<Rightarrow> sysc list \<Rightarrow> sysc list" where
  "runcmd res pfd (EXEC argv) t =
     (case argv of [] \<Rightarrow> t @ [SExit 1]
      | a # _ \<Rightarrow>
          let t1 = t @ [SExec a argv]
          in if res t1 \<ge> 0 then t1 else t1 @ [SWrite 2 (ctext ''exec '' @ a @ ctext '' failed'' @ [10]), SExit 0])"
| "runcmd res pfd (REDIR c fname mode fd) t =
     (let t1 = t @ [SClose fd, SOpen fname mode]
      in if res t1 < 0 then t1 @ [SWrite 2 (ctext ''open '' @ fname @ ctext '' failed'' @ [10]), SExit 1] else runcmd res pfd c t1)"
| "runcmd res pfd (LIST l r) t =
     fork1 res t (runcmd res pfd l) (\<lambda>t1. runcmd res pfd r (t1 @ [SWait])) (\<lambda>t1. t1)"
| "runcmd res pfd (PIPE l r) t =
     (let t1 = t @ [SPipe]; (p0, p1) = pfd t1
      in if res t1 < 0 then sh_panic (ctext ''pipe'') t1
         else fork1 res t1 (\<lambda>t2. runcmd res pfd l (t2 @ [SClose 1, SDup p1, SClose p0, SClose p1]))
                (\<lambda>t2. fork1 res t2 (\<lambda>t3. runcmd res pfd r (t3 @ [SClose 0, SDup p0, SClose p0, SClose p1]))
                   (\<lambda>t3. t3 @ [SClose p0, SClose p1, SWait, SWait, SExit 0]) (\<lambda>t3. t3))
                (\<lambda>t2. t2))"
| "runcmd res pfd (BACK c) t = fork1 res t (runcmd res pfd c) (\<lambda>t1. t1 @ [SExit 0]) (\<lambda>t1. t1)"

text \<open>
  The prompt and the input: \<open>inp\<close> gives the byte that the last \<open>read\<close> delivered. The buffer is \<open>None\<close> at
  the end of the input; a string ends at its first NUL.
\<close>

definition read_char :: "(sysc list \<Rightarrow> u8 option) \<Rightarrow> sysc list \<Rightarrow> sysc list \<times> u8 option" where
  "read_char inp t = (let t1 = t @ [SRead 0] in (t1, inp t1))"

definition getcmd :: "(sysc list \<Rightarrow> u8 option) \<Rightarrow> int \<Rightarrow> sysc list \<Rightarrow> sysc list \<times> u8 list option" where
  "getcmd inp nbuf t =
     (let (t1, bs) = gets (read_char inp) nbuf (t @ [SWrite 2 (ctext ''$ '')]); b = takeWhile (\<lambda>c. c \<noteq> 0) bs
      in (t1, if b = [] then None else Some b))"

text \<open>The child that runs one line; a syntax error ends it with the messages of \<open>parsecmd\<close>.\<close>

definition leftovers :: "u8 list \<Rightarrow> sysc list" where
  "leftovers s =
     (case parseline (parse_depth s) s of Inl _ \<Rightarrow> []
      | Inr (s1, _) \<Rightarrow> let s2 = fst (peek s1 []) in if s2 \<noteq> [] then [SWrite 2 (ctext ''leftovers: '' @ s2 @ [10])] else [])"

definition run_line :: "(sysc list \<Rightarrow> int) \<Rightarrow> (sysc list \<Rightarrow> int \<times> int) \<Rightarrow> u8 list \<Rightarrow> sysc list \<Rightarrow> sysc list" where
  "run_line res pfd s t =
     (case parsecmd s of
        Inl (ShPanic msg) \<Rightarrow> sh_panic (ctext msg) (t @ leftovers s)
      | Inl NoFuel \<Rightarrow> t
      | Inr (c, b) \<Rightarrow> runcmd res pfd (map_cmd (cstring_at (length s) b) c) t)"

text \<open>The first three descriptors are opened; a process has 16 of them, which bounds the calls.\<close>

fun open_console :: "nat \<Rightarrow> (sysc list \<Rightarrow> int) \<Rightarrow> sysc list \<Rightarrow> sysc list option" where
  "open_console 0 res t = None"
| "open_console (Suc k) res t =
     (let t1 = t @ [SOpen (ctext ''console'') 2]; fd = res t1
      in if fd < 0 then Some t1 else if fd \<ge> 3 then Some (t1 @ [SClose fd]) else open_console k res t1)"

partial_function (option) sh_loop ::
    "(sysc list \<Rightarrow> int) \<Rightarrow> (sysc list \<Rightarrow> int \<times> int) \<Rightarrow> (sysc list \<Rightarrow> u8 option) \<Rightarrow> sysc list \<Rightarrow> sysc list option" where
  "sh_loop res pfd inp t =
     (case getcmd inp 100 t of
        (t1, None) \<Rightarrow> Some (t1 @ [SExit 0])
      | (t1, Some b) \<Rightarrow>
          if take 3 b = ctext ''cd '' then
            let dir = butlast (drop 3 b); t2 = t1 @ [SChdir dir]
            in sh_loop res pfd inp (if res t2 < 0 then t2 @ [SWrite 2 (ctext ''cannot cd '' @ dir @ [10])] else t2)
          else
            let t2 = t1 @ [SFork]
            in if res t2 = -1 then Some (sh_panic (ctext ''fork'') t2)
               else if res t2 = 0 then Some (run_line res pfd b t2)
               else sh_loop res pfd inp (t2 @ [SWait]))"

definition sh_main :: "(sysc list \<Rightarrow> int) \<Rightarrow> (sysc list \<Rightarrow> int \<times> int) \<Rightarrow> (sysc list \<Rightarrow> u8 option) \<Rightarrow> sysc list option" where
  "sh_main res pfd inp = Option.bind (open_console 16 res []) (sh_loop res pfd inp)"

text \<open>Every process that runs a command ends in a successful \<open>exec\<close> or in \<open>exit\<close>.\<close>

definition ends_process :: "(sysc list \<Rightarrow> int) \<Rightarrow> sysc list \<Rightarrow> bool" where
  "ends_process res t \<longleftrightarrow> t \<noteq> [] \<and> (case last t of SExit _ \<Rightarrow> True | SExec _ _ \<Rightarrow> res t \<ge> 0 | _ \<Rightarrow> False)"

lemma ends_exit [simp]: "ends_process res (t @ [SExit n])"
  by (simp add: ends_process_def)

lemma ends_exits [simp]: "ends_process res (t @ [x, SExit n])" "ends_process res (t @ [x, y, z, SExit n])"
    "ends_process res (sh_panic msg t)"
  by (simp_all add: ends_process_def sh_panic_def)

lemma runcmd_ends: "ends_process res (runcmd res pfd c t)"
proof (induction c arbitrary: t)
  case (EXEC argv)
  then show ?case
    by (cases argv) (auto simp: Let_def ends_process_def)
next
  case (PIPE l r)
  show ?case
    by (auto simp: fork1_def Let_def PIPE split: prod.splits) (simp_all add: ends_process_def)
qed (auto simp: fork1_def Let_def)

section \<open>Properties\<close>

lemma show_no_nul: "cmd_ok c \<Longrightarrow> 0 \<notin> set (show_cmd lev c)"
proof (induction c arbitrary: lev)
  case (EXEC ws)
  then show ?case
    by (auto simp: list_all_iff word_ok_def)
next
  case (REDIR c fl mode fd)
  then show ?case
    by (auto simp: redir_ok_def word_ok_def redir_text_def)
qed (auto simp: paren_def)

lemma u_strlen_length [simp]: "u_strlen s = length s"
  by (induction s) auto

text \<open>
  C35 (roundtrip). The text of every command the shell can express (pipes, lists, background commands,
  redirections and parentheses nested in any way, with up to nine words each) is parsed back to that command:
  the tree has the same shape, and the strings found at its pointers in the NUL-terminated line are the words.
\<close>

theorem parsecmd_show:
  assumes "cmd_ok c"
  shows "\<exists>p b. parsecmd (show_cmd 0 c) = Inr (p, b) \<and> map_cmd (cstring_at (length (show_cmd 0 c)) b) p = c"
proof -
  let ?S = "show_cmd 0 c"
  have end_ok: "follow F_line []" "skip_ws [] = []"
    by (simp_all add: follow_def stops_def skip_ws_def)
  obtain p where p: "parseline (parse_depth ?S) ?S = Inr ([], p)" "map_cmd (wslice ?S) p = c"
    using conjunct2 [OF conjunct2 [OF conjunct2 [OF parse_show_levels [OF assms]]],
        unfolded line_parsed_def, rule_format, of ?S "[]" ?S "parse_depth ?S"] end_ok by (auto simp: parse_depth_def)
  have "\<forall>w \<in> set_cmd p. word_ptr ?S w"
    using parse_words(1) [OF p(1), of ?S] by simp
  then have "map_cmd (cstring_at (length ?S) (nulterminate (length ?S) p (?S @ [0]))) p = map_cmd (wslice ?S) p"
    using terminated_word [of p ?S] show_no_nul [OF assms] by (intro cmd.map_cong0) auto
  then show ?thesis
    using p end_ok by (simp add: parsecmd_def peek_def)
qed

theorem parsecmd_show_witness:
  "\<exists>p b. parsecmd (show_cmd 0 (LIST (BACK (EXEC [[97], [98]])) (PIPE (REDIR (EXEC [[99]]) [102] 0 0) (LIST (EXEC [[100]]) (EXEC [[101]]))))) = Inr (p, b) \<and>
    map_cmd (cstring_at (length (show_cmd 0 (LIST (BACK (EXEC [[97], [98]])) (PIPE (REDIR (EXEC [[99]]) [102] 0 0) (LIST (EXEC [[100]]) (EXEC [[101]])))))) b) p =
      LIST (BACK (EXEC [[97], [98]])) (PIPE (REDIR (EXEC [[99]]) [102] 0 0) (LIST (EXEC [[100]]) (EXEC [[101]])))"
  by (rule parsecmd_show) (simp add: word_ok_def redir_ok_def word_char_def is_ws_iff is_sym_iff)

text \<open>
  C36 (termination). Every line without NUL bytes is parsed or refused with a syntax error, the recursion
  never needing more depth than four levels for each byte; and when it is parsed, every pointer of the command
  is at a maximal word of the line, and the string found there after \<open>nulterminate\<close> is exactly that word.
\<close>

theorem parsecmd_total:
  assumes "0 \<notin> set line"
  shows "(\<exists>msg. parsecmd line = Inl (ShPanic msg)) \<or>
    (\<exists>p b. parsecmd line = Inr (p, b) \<and>
       (\<forall>w \<in> set_cmd p. word_ptr line w \<and> cstring_at (length line) b w = wslice line w))"
proof (cases "parseline (parse_depth line) line")
  case (Inl e)
  then show ?thesis
    using parse_fuel(1) [of line "parse_depth line"] by (cases e) (auto simp: parsecmd_def parse_depth_def)
next
  case (Inr sp)
  obtain s p where sp: "sp = (s, p)"
    by (cases sp)
  have "\<forall>w \<in> set_cmd p. word_ptr line w"
    using parse_words(1) [of "parse_depth line" line s p line] Inr sp by simp
  then show ?thesis
    using terminated_word [of p line] assms Inr sp by (simp add: parsecmd_def)
qed

theorem parsecmd_total_witness:
  "(\<exists>msg. parsecmd [c_open, 97] = Inl (ShPanic msg)) \<or>
   (\<exists>p b. parsecmd [c_open, 97] = Inr (p, b) \<and>
      (\<forall>w \<in> set_cmd p. word_ptr [c_open, 97] w \<and> cstring_at (length [c_open, 97]) b w = wslice [c_open, 97] w))"
  by (rule parsecmd_total) simp

end
