(* ===== verification/Uart.thy ===== *)
theory Uart
  imports File
begin

text \<open>
  \<^verbatim>\<open>kernel/uart.c\<close>: the driver of the serial port. The device is a parameter: what it answers when a register
  is read is a function of the accesses made so far, which the driver's state records, newest first. A process
  that finds the transmit buffer full stops at the call of \<open>sleep\<close>.
\<close>

section \<open>Registers and state\<close>

definition RHR :: nat where [simp]: "RHR = 0"
definition THR :: nat where [simp]: "THR = 0"
definition IER :: nat where [simp]: "IER = 1"
definition IER_RX_ENABLE :: u8 where [simp]: "IER_RX_ENABLE = 1"
definition IER_TX_ENABLE :: u8 where [simp]: "IER_TX_ENABLE = 2"
definition FCR :: nat where [simp]: "FCR = 2"
definition FCR_FIFO_ENABLE :: u8 where [simp]: "FCR_FIFO_ENABLE = 1"
definition FCR_FIFO_CLEAR :: u8 where [simp]: "FCR_FIFO_CLEAR = 6"
definition LCR :: nat where [simp]: "LCR = 3"
definition LCR_EIGHT_BITS :: u8 where [simp]: "LCR_EIGHT_BITS = 3"
definition LCR_BAUD_LATCH :: u8 where [simp]: "LCR_BAUD_LATCH = 128"
definition LSR :: nat where [simp]: "LSR = 5"
definition LSR_RX_READY :: u8 where [simp]: "LSR_RX_READY = 1"
definition LSR_TX_IDLE :: u8 where [simp]: "LSR_TX_IDLE = 32"

definition UART_TX_BUF_SIZE :: nat where [simp]: "UART_TX_BUF_SIZE = 32"

datatype uop = URead nat u8 | UWrite nat u8

text \<open>\<open>panicked\<close> is the flag of \<^verbatim>\<open>kernel/printf.c\<close> that freezes the output.\<close>

record ustate = fstate +
  uart_dev :: "uop list \<Rightarrow> nat \<Rightarrow> u8"
  uart_ops :: "uop list"
  uart_tx_lock :: spinlock
  uart_tx_buf :: "u8 list"
  uart_tx_w :: u64
  uart_tx_r :: u64
  panicked :: bool

definition ReadReg :: "'a ustate_scheme \<Rightarrow> nat \<Rightarrow> 'a ustate_scheme \<times> u8" where
  "ReadReg s reg = (let v = uart_dev s (uart_ops s) reg in (s\<lparr>uart_ops := URead reg v # uart_ops s\<rparr>, v))"

definition WriteReg :: "'a ustate_scheme \<Rightarrow> nat \<Rightarrow> u8 \<Rightarrow> 'a ustate_scheme" where
  "WriteReg s reg v = s\<lparr>uart_ops := UWrite reg v # uart_ops s\<rparr>"

definition acquire_uart :: "'a ustate_scheme \<Rightarrow> fault + 'a ustate_scheme" where
  "acquire_uart s = bindr (acquire (uart_tx_lock s) (hart s)) (\<lambda>(l, c). Inr (s\<lparr>uart_tx_lock := l, hart := c\<rparr>))"

definition release_uart :: "'a ustate_scheme \<Rightarrow> fault + 'a ustate_scheme" where
  "release_uart s = bindr (release (uart_tx_lock s) (hart s)) (\<lambda>(l, c). Inr (s\<lparr>uart_tx_lock := l, hart := c\<rparr>))"

section \<open>Operations\<close>

definition uartinit :: "'a ustate_scheme \<Rightarrow> 'a ustate_scheme" where
  "uartinit s =
     (let s1 = WriteReg s IER 0;
          s2 = WriteReg s1 LCR LCR_BAUD_LATCH;
          s3 = WriteReg s2 0 3;
          s4 = WriteReg s3 1 0;
          s5 = WriteReg s4 LCR LCR_EIGHT_BITS;
          s6 = WriteReg s5 FCR (FCR_FIFO_ENABLE OR FCR_FIFO_CLEAR);
          s7 = WriteReg s6 IER (IER_TX_ENABLE OR IER_RX_ENABLE)
      in s7\<lparr>uart_tx_lock := initlock (uart_tx_lock s7) ''uart''\<rparr>)"

text \<open>The loop of \<open>uartstart\<close>; every round sends one byte of the buffer, so their number bounds the rounds.\<close>

fun uartstart_loop :: "nat \<Rightarrow> 'a ustate_scheme \<Rightarrow> fault + 'a ustate_scheme" where
  "uartstart_loop 0 s = Inl OutOfFuel"
| "uartstart_loop (Suc k) s =
     (if uart_tx_w s = uart_tx_r s then Inr s
      else let (s1, v) = ReadReg s LSR
           in if v AND LSR_TX_IDLE = 0 then Inr s1
              else let c = uart_tx_buf s1 ! (unat (uart_tx_r s1) mod UART_TX_BUF_SIZE);
                       s2 = s1\<lparr>uart_tx_r := uart_tx_r s1 + 1\<rparr>
                   in bindr (wakeup s2 WUart) (\<lambda>s3. uartstart_loop k (WriteReg s3 THR c)))"

definition uartstart :: "'a ustate_scheme \<Rightarrow> fault + 'a ustate_scheme" where
  "uartstart s = uartstart_loop (Suc (unat (uart_tx_w s - uart_tx_r s))) s"

text \<open>\<open>uartputc\<close> after the lock is taken: it returns, or sleeps because the buffer is full.\<close>

definition uartputc_locked :: "'a ustate_scheme \<Rightarrow> u8 \<Rightarrow> fault + 'a ustate_scheme \<times> ptransfer" where
  "uartputc_locked s c =
     (if uart_tx_w s = uart_tx_r s + of_nat UART_TX_BUF_SIZE then Inr (s, Asleep 0)
      else let s1 = s\<lparr>uart_tx_buf := (uart_tx_buf s)[unat (uart_tx_w s) mod UART_TX_BUF_SIZE := c], uart_tx_w := uart_tx_w s + 1\<rparr>
           in bindr (uartstart s1) (\<lambda>s2. bindr (release_uart s2) (\<lambda>s3. Inr (s3, Returned 0))))"

definition uartputc :: "'a ustate_scheme \<Rightarrow> u8 \<Rightarrow> fault + 'a ustate_scheme \<times> ptransfer" where
  "uartputc s c = bindr (acquire_uart s) (\<lambda>s1. if panicked s1 then Inl Spin else uartputc_locked s1 c)"

text \<open>The loop that polls the line status returns only if the device gets ready.\<close>

partial_function (option) wait_tx_idle :: "'a ustate_scheme \<Rightarrow> 'a ustate_scheme option" where
  "wait_tx_idle s = (let (s1, v) = ReadReg s LSR in if v AND LSR_TX_IDLE = 0 then wait_tx_idle s1 else Some s1)"

definition uartputc_sync :: "'a ustate_scheme \<Rightarrow> u8 \<Rightarrow> fault + 'a ustate_scheme" where
  "uartputc_sync s c =
     (let s1 = s\<lparr>hart := push_off (hart s)\<rparr>
      in if panicked s1 then Inl Spin
         else case wait_tx_idle s1 of None \<Rightarrow> Inl Spin
              | Some s2 \<Rightarrow> let s3 = WriteReg s2 THR c in bindr (pop_off (hart s3)) (\<lambda>c1. Inr (s3\<lparr>hart := c1\<rparr>)))"

text \<open>A byte, or \<open>None\<close> for -1.\<close>

definition uartgetc :: "'a ustate_scheme \<Rightarrow> 'a ustate_scheme \<times> u8 option" where
  "uartgetc s =
     (let (s1, v) = ReadReg s LSR
      in if v AND 1 \<noteq> 0 then let (s2, c) = ReadReg s1 RHR in (s2, Some c) else (s1, None))"

end
