(* ===== verification/Kprintf.thy ===== *)
theory Kprintf
  imports Uart Ulib
begin

text \<open>
  \<^verbatim>\<open>kernel/printf.c\<close>, \<open>consputc\<close> of \<^verbatim>\<open>kernel/console.c\<close> and \<open>procdump\<close> of \<^verbatim>\<open>kernel/proc.c\<close>: formatted output to the
  console. The variable arguments are those of \<^verbatim>\<open>user/printf.c\<close>: registers and strings.
\<close>

definition BACKSPACE :: int where [simp]: "BACKSPACE = 0x100"

definition consputc :: "'a ustate_scheme \<Rightarrow> int \<Rightarrow> fault + 'a ustate_scheme" where
  "consputc s c =
     (if c = BACKSPACE then
        bindr (uartputc_sync s 8) (\<lambda>s1. bindr (uartputc_sync s1 32) (\<lambda>s2. uartputc_sync s2 8))
      else uartputc_sync s (of_int c))"

fun consputs :: "'a ustate_scheme \<Rightarrow> u8 list \<Rightarrow> fault + 'a ustate_scheme" where
  "consputs s [] = Inr s"
| "consputs s (c # cs) = bindr (consputc s (uint c)) (\<lambda>s1. consputs s1 cs)"

definition kdigits :: "u8 list" where
  "kdigits = [48, 49, 50, 51, 52, 53, 54, 55, 56, 57, 97, 98, 99, 100, 101, 102]"

definition printint :: "'a ustate_scheme \<Rightarrow> u32 \<Rightarrow> u32 \<Rightarrow> bool \<Rightarrow> fault + 'a ustate_scheme" where
  "printint s xx base sg =
     (let neg = (sg \<and> sint xx < 0); x = (if neg then - xx else xx)
      in case Option.bind (digit_loop kdigits base x 0) (\<lambda>ds. sign_digits ds neg) of
           None \<Rightarrow> Inl (Overrun ''buf'') | Some bs \<Rightarrow> consputs s bs)"

definition printptr :: "'a ustate_scheme \<Rightarrow> u64 \<Rightarrow> fault + 'a ustate_scheme" where
  "printptr s x = consputs s ([48, 120] @ ptr_digits kdigits 16 x)"

text \<open>The lock of \<open>printf\<close>.\<close>

record prstate = ustate +
  pr_lock :: spinlock
  pr_locking :: bool

definition acquire_pr :: "'a prstate_scheme \<Rightarrow> fault + 'a prstate_scheme" where
  "acquire_pr s = bindr (acquire (pr_lock s) (hart s)) (\<lambda>(l, c). Inr (s\<lparr>pr_lock := l, hart := c\<rparr>))"

definition release_pr :: "'a prstate_scheme \<Rightarrow> fault + 'a prstate_scheme" where
  "release_pr s = bindr (release (pr_lock s) (hart s)) (\<lambda>(l, c). Inr (s\<lparr>pr_lock := l, hart := c\<rparr>))"

text \<open>
  One conversion, for the character after the percent sign. An argument that is missing or of the wrong
  kind has no defined effect.
\<close>

definition kconv :: "'a ustate_scheme \<Rightarrow> u8 \<Rightarrow> varg list \<Rightarrow> fault + 'a ustate_scheme \<times> varg list" where
  "kconv s c ap =
     (if c = 37 then bindr (consputc s 37) (\<lambda>s1. Inr (s1, ap))
      else if c \<notin> {100, 120, 112, 115} then bindr (consputs s [37, c]) (\<lambda>s1. Inr (s1, ap))
      else case ap of [] \<Rightarrow> Inl (Overrun ''va_list'')
      | VReg v # ap1 \<Rightarrow>
          if c = 100 then bindr (printint s (ucast v) 10 True) (\<lambda>s1. Inr (s1, ap1))
          else if c = 120 then bindr (printint s (ucast v) 16 True) (\<lambda>s1. Inr (s1, ap1))
          else if c = 112 then bindr (printptr s v) (\<lambda>s1. Inr (s1, ap1))
          else Inl (BadAccess v)
      | VStr so # ap1 \<Rightarrow>
          if c = 115 then bindr (consputs s (case so of None \<Rightarrow> null_text | Some bs \<Rightarrow> bs)) (\<lambda>s1. Inr (s1, ap1))
          else Inl (Overrun ''va_list''))"

fun printf_loop :: "'a ustate_scheme \<Rightarrow> u8 list \<Rightarrow> varg list \<Rightarrow> fault + 'a ustate_scheme" where
  "printf_loop s [] ap = Inr s"
| "printf_loop s [c] ap = (if c \<noteq> 37 then consputc s (uint c) else Inr s)"
| "printf_loop s (c # d # fmt) ap =
     (if c \<noteq> 37 then bindr (consputc s (uint c)) (\<lambda>s1. printf_loop s1 (d # fmt) ap)
      else bindr (kconv s d ap) (\<lambda>(s1, ap1). printf_loop s1 fmt ap1))"

definition printf :: "'a prstate_scheme \<Rightarrow> u8 list option \<Rightarrow> varg list \<Rightarrow> fault + 'a prstate_scheme" where
  "printf s fmt ap =
     (let locking = pr_locking s
      in bindr (if locking then acquire_pr s else Inr s) (\<lambda>s1.
           case fmt of None \<Rightarrow> Inl (Panic ''null fmt'')
           | Some f \<Rightarrow> bindr (printf_loop s1 f ap) (\<lambda>s2. if locking then release_pr s2 else Inr s2)))"

definition ktext :: "string \<Rightarrow> u8 list" where
  "ktext s = map of_char s"

text \<open>\<open>panic\<close> never returns; the result is the state in which it loops.\<close>

definition panic :: "'a prstate_scheme \<Rightarrow> u8 list \<Rightarrow> fault + 'a prstate_scheme" where
  "panic s msg =
     bindr (printf (s\<lparr>pr_locking := False\<rparr>) (Some (ktext ''panic: '')) []) (\<lambda>s1.
     bindr (printf s1 (Some msg) []) (\<lambda>s2.
     bindr (printf s2 (Some [10]) []) (\<lambda>s3. Inr (s3\<lparr>panicked := True\<rparr>))))"

definition printfinit :: "'a prstate_scheme \<Rightarrow> 'a prstate_scheme" where
  "printfinit s = s\<lparr>pr_lock := initlock (pr_lock s) ''pr'', pr_locking := True\<rparr>"

section \<open>The process listing\<close>

definition state_name :: "procstate \<Rightarrow> u8 list" where
  "state_name st = ktext (case st of UNUSED \<Rightarrow> ''unused'' | USED \<Rightarrow> ''used'' | SLEEPING \<Rightarrow> ''sleep '' | RUNNABLE \<Rightarrow> ''runble''
     | RUNNING \<Rightarrow> ''run   '' | ZOMBIE \<Rightarrow> ''zombie'')"

fun procdump_loop :: "nat \<Rightarrow> nat \<Rightarrow> 'a prstate_scheme \<Rightarrow> fault + 'a prstate_scheme" where
  "procdump_loop 0 i s = Inr s"
| "procdump_loop (Suc k) i s =
     (let p = procs s ! i
      in if state p = UNUSED then procdump_loop k (Suc i) s
         else bindr (printf s (Some (ktext ''%d %s %s'')) [VReg (of_int (pid p)), VStr (Some (state_name (state p))),
                      VStr (Some (cstr_take 16 (p_name p)))]) (\<lambda>s1.
              bindr (printf s1 (Some [10]) []) (\<lambda>s2. procdump_loop k (Suc i) s2)))"

definition procdump :: "'a prstate_scheme \<Rightarrow> fault + 'a prstate_scheme" where
  "procdump s = bindr (printf s (Some [10]) []) (\<lambda>s1. procdump_loop NPROC 0 s1)"

end
