(* ===== verification/Console.thy ===== *)
theory Console
  imports Kprintf
begin

text \<open>
  \<^verbatim>\<open>kernel/console.c\<close>: the line discipline. Characters that arrive are echoed and edited in a circular buffer of
  128 bytes; a whole line is committed by moving the write index. The indices are \<open>uint\<close> and wrap around.
  \<open>uartintr\<close> of \<^verbatim>\<open>kernel/uart.c\<close>, which feeds the characters in, is here too.
\<close>

definition INPUT_BUF_SIZE :: nat where [simp]: "INPUT_BUF_SIZE = 128"

record cons =
  cs_lock :: spinlock
  cs_buf :: "u8 list"
  cs_r :: u32
  cs_w :: u32
  cs_e :: u32

record cstate = prstate +
  console :: cons

definition upd_cons :: "'a cstate_scheme \<Rightarrow> (cons \<Rightarrow> cons) \<Rightarrow> 'a cstate_scheme" where
  "upd_cons s f = s\<lparr>console := f (console s)\<rparr>"

definition acquire_cons :: "'a cstate_scheme \<Rightarrow> fault + 'a cstate_scheme" where
  "acquire_cons s = bindr (acquire (cs_lock (console s)) (hart s)) (\<lambda>(l, c). Inr (upd_cons (s\<lparr>hart := c\<rparr>) (\<lambda>k. k\<lparr>cs_lock := l\<rparr>)))"

definition release_cons :: "'a cstate_scheme \<Rightarrow> fault + 'a cstate_scheme" where
  "release_cons s = bindr (release (cs_lock (console s)) (hart s)) (\<lambda>(l, c). Inr (upd_cons (s\<lparr>hart := c\<rparr>) (\<lambda>k. k\<lparr>cs_lock := l\<rparr>)))"

text \<open>The byte of the buffer at an index.\<close>

definition cons_at :: "cons \<Rightarrow> u32 \<Rightarrow> u8" where
  "cons_at k i = cs_buf k ! (unat i mod INPUT_BUF_SIZE)"

section \<open>Writing\<close>

text \<open>The loop of \<open>consolewrite\<close>, with \<open>left = n - i\<close> bytes to go. A full transmit buffer puts the writer to sleep.\<close>

fun consolewrite_loop :: "nat \<Rightarrow> 'a cstate_scheme \<Rightarrow> bool \<Rightarrow> u64 \<Rightarrow> nat \<Rightarrow> fault + 'a cstate_scheme \<times> ptransfer" where
  "consolewrite_loop 0 s user_src src i = Inr (s, Returned (int i))"
| "consolewrite_loop (Suc left) s user_src src i =
     bindr (either_copyin s user_src (src + of_nat i) 1) (\<lambda>(s1, r, bs).
       if r = -1 then Inr (s1, Returned (int i))
       else bindr (uartputc s1 (bs ! 0)) (\<lambda>(s2, w).
         case w of Asleep _ \<Rightarrow> Inr (s2, Asleep i) | Returned _ \<Rightarrow> consolewrite_loop left s2 user_src src (Suc i)))"

definition consolewrite :: "'a cstate_scheme \<Rightarrow> bool \<Rightarrow> u64 \<Rightarrow> int \<Rightarrow> fault + 'a cstate_scheme \<times> int" where
  "consolewrite s user_src src n = awake (consolewrite_loop (nat n) s user_src src 0)"

section \<open>Reading\<close>

abbreviation "ctrl_d \<equiv> 4 :: u8"
abbreviation "ctrl_h \<equiv> 8 :: u8"
abbreviation "newline \<equiv> 10 :: u8"
abbreviation "creturn \<equiv> 13 :: u8"
abbreviation "ctrl_p \<equiv> 16 :: u8"
abbreviation "ctrl_u \<equiv> 21 :: u8"
abbreviation "del_key \<equiv> 127 :: u8"

text \<open>
  The loop of \<open>consoleread\<close> with the lock held, \<open>left\<close> bytes wanted and \<open>i = target - n\<close> copied. A reader that finds no
  committed input sleeps, or gives up if its process was killed.
\<close>

fun consoleread_loop :: "nat \<Rightarrow> 'a cstate_scheme \<Rightarrow> bool \<Rightarrow> u64 \<Rightarrow> nat \<Rightarrow> fault + 'a cstate_scheme \<times> ptransfer" where
  "consoleread_loop 0 s user_dst dst i = bindr (release_cons s) (\<lambda>s1. Inr (s1, Returned (int i)))"
| "consoleread_loop (Suc left) s user_dst dst i =
     (if cs_r (console s) = cs_w (console s) then
        with_myproc s (\<lambda>s0 p.
        bindr (killed s0 p) (\<lambda>(s1, k).
          if k \<noteq> 0 then bindr (release_cons s1) (\<lambda>s2. Inr (s2, Returned (-1))) else Inr (s1, Asleep i)))
      else
        let c = cons_at (console s) (cs_r (console s)); s1 = upd_cons s (\<lambda>k. k\<lparr>cs_r := cs_r k + 1\<rparr>)
        in if c = ctrl_d then
             bindr (release_cons (if 0 < i then upd_cons s1 (\<lambda>k. k\<lparr>cs_r := cs_r k - 1\<rparr>) else s1)) (\<lambda>s2. Inr (s2, Returned (int i)))
           else
             bindr (either_copyout s1 user_dst dst (\<lambda>_. c) 1) (\<lambda>(s2, r).
               if r = -1 then bindr (release_cons s2) (\<lambda>s3. Inr (s3, Returned (int i)))
               else if c = newline then bindr (release_cons s2) (\<lambda>s3. Inr (s3, Returned (int (Suc i))))
               else consoleread_loop left s2 user_dst (dst + 1) (Suc i)))"

definition consoleread :: "'a cstate_scheme \<Rightarrow> bool \<Rightarrow> u64 \<Rightarrow> int \<Rightarrow> fault + 'a cstate_scheme \<times> int" where
  "consoleread s user_dst dst n =
     awake (bindr (acquire_cons s) (\<lambda>s1. consoleread_loop (nat n) s1 user_dst dst 0))"

section \<open>The interrupt handler\<close>

definition erase_char :: "'a cstate_scheme \<Rightarrow> fault + 'a cstate_scheme" where
  "erase_char s = consputc (upd_cons s (\<lambda>k. k\<lparr>cs_e := cs_e k - 1\<rparr>)) BACKSPACE"

text \<open>The loop that erases the line; the distance to the write index bounds it.\<close>

fun kill_line :: "nat \<Rightarrow> 'a cstate_scheme \<Rightarrow> fault + 'a cstate_scheme" where
  "kill_line 0 s = Inl OutOfFuel"
| "kill_line (Suc n) s =
     (if cs_e (console s) \<noteq> cs_w (console s) \<and> cons_at (console s) (cs_e (console s) - 1) \<noteq> newline
      then bindr (erase_char s) (\<lambda>s1. kill_line n s1) else Inr s)"

definition store_char :: "'a cstate_scheme \<Rightarrow> u8 \<Rightarrow> 'a cstate_scheme" where
  "store_char s c = upd_cons s (\<lambda>k. k\<lparr>cs_buf := (cs_buf k)[unat (cs_e k) mod INPUT_BUF_SIZE := c], cs_e := cs_e k + 1\<rparr>)"

definition input_char :: "'a cstate_scheme \<Rightarrow> u8 \<Rightarrow> fault + 'a cstate_scheme" where
  "input_char s c0 =
     (if c0 \<noteq> 0 \<and> cs_e (console s) - cs_r (console s) < of_nat INPUT_BUF_SIZE then
        let c = (if c0 = creturn then newline else c0)
        in bindr (consputc s (uint c)) (\<lambda>s1.
             let s2 = store_char s1 c; k = console s2
             in if c = newline \<or> c = ctrl_d \<or> cs_e k - cs_r k = of_nat INPUT_BUF_SIZE
                then wakeup (upd_cons s2 (\<lambda>k. k\<lparr>cs_w := cs_e k\<rparr>)) WCons else Inr s2)
      else Inr s)"

text \<open>The switch of the handler, and the handler.\<close>

definition cons_switch :: "'a cstate_scheme \<Rightarrow> u8 \<Rightarrow> fault + 'a cstate_scheme" where
  "cons_switch s c =
     (if c = ctrl_p then procdump s
      else if c = ctrl_u then kill_line (Suc (unat (cs_e (console s) - cs_w (console s)))) s
      else if c = ctrl_h \<or> c = del_key then (if cs_e (console s) \<noteq> cs_w (console s) then erase_char s else Inr s)
      else input_char s c)"

definition consoleintr :: "'a cstate_scheme \<Rightarrow> u8 \<Rightarrow> fault + 'a cstate_scheme" where
  "consoleintr s c = bindr (acquire_cons s) (\<lambda>s1. bindr (cons_switch s1 c) (\<lambda>s2. release_cons s2))"

text \<open>The device switch after initialisation: the entry of the console has the two functions above.\<close>

definition console_devsw :: "nat \<Rightarrow> 'a cstate_scheme devswr" where
  "console_devsw mj =
     (if mj = CONSOLE then \<lparr>dev_read = Some consoleread, dev_write = Some consolewrite\<rparr> else \<lparr>dev_read = None, dev_write = None\<rparr>)"

definition consoleinit :: "'a cstate_scheme \<Rightarrow> 'a cstate_scheme" where
  "consoleinit s = uartinit (upd_cons s (\<lambda>k. k\<lparr>cs_lock := initlock (cs_lock k) ''cons''\<rparr>))"

section \<open>The interrupt of the serial port\<close>

text \<open>The loop over the received characters returns only if the device runs out of them.\<close>

partial_function (option) uartintr_loop :: "'a cstate_scheme \<Rightarrow> (fault + 'a cstate_scheme) option" where
  "uartintr_loop s =
     (case uartgetc s of (s1, None) \<Rightarrow> Some (Inr s1)
      | (s1, Some c) \<Rightarrow> (case consoleintr s1 c of Inl e \<Rightarrow> Some (Inl e) | Inr s2 \<Rightarrow> uartintr_loop s2))"

definition uartintr :: "'a cstate_scheme \<Rightarrow> fault + 'a cstate_scheme" where
  "uartintr s =
     (case uartintr_loop s of None \<Rightarrow> Inl Spin
      | Some r \<Rightarrow> bindr r (\<lambda>s1. bindr (acquire_uart s1) (\<lambda>s2. bindr (uartstart s2) (\<lambda>s3. release_uart s3))))"

end
