(* ===== verification/Console_thms.thy ===== *)
theory Console_thms
  imports Console Crash Usermem
begin

text \<open>
  The console driver keeps a line discipline: the committed input and the line being edited, as two lists of
  bytes, with one transition for each character that arrives. The indices of the buffer wrap around; the
  buffer never holds more than 128 bytes.
\<close>

section \<open>Output\<close>

text \<open>A serial port that is always ready to send; the interrupts of the hart are off.\<close>

definition uart_ready :: "'a ustate_scheme \<Rightarrow> bool" where
  "uart_ready s \<longleftrightarrow> (\<forall>h. uart_dev s h LSR AND LSR_TX_IDLE \<noteq> 0) \<and> \<not> panicked s \<and> cpu_ok (hart s) \<and> settle (hart s) = hart s"

text \<open>The bytes given to the transmitter, in order.\<close>

definition sent_bytes :: "uop list \<Rightarrow> u8 list" where
  "sent_bytes us = concat (map (\<lambda>x. case x of UWrite reg v \<Rightarrow> if reg = THR then [v] else [] | _ \<Rightarrow> []) (rev us))"

definition printed :: "u8 list \<Rightarrow> 'a ustate_scheme \<Rightarrow> 'a ustate_scheme \<Rightarrow> bool" where
  "printed bs s t \<longleftrightarrow> (\<exists>us. t = s\<lparr>uart_ops := us\<rparr> \<and> sent_bytes us = sent_bytes (uart_ops s) @ bs)"

lemma printed_nil: "printed [] s s"
  unfolding printed_def by (rule exI [of _ "uart_ops s"]) simp

lemma printed_trans: "printed a s t \<Longrightarrow> printed b t u \<Longrightarrow> printed (a @ b) s u"
  unfolding printed_def by fastforce

lemma printed_ready: "printed bs s t \<Longrightarrow> uart_ready t = uart_ready s"
  by (auto simp: printed_def uart_ready_def)

lemma uartputc_sync_ok:
  assumes "uart_ready s"
  shows "\<exists>t. uartputc_sync s c = Inr t \<and> printed [c] s t"
proof -
  have r: "uart_dev s h LSR AND LSR_TX_IDLE \<noteq> 0" "\<not> panicked s" "cpu_ok (hart s)" "settle (hart s) = hart s" for h
    using assms by (simp_all add: uart_ready_def)
  let ?s1 = "s\<lparr>hart := push_off (hart s)\<rparr>" and ?us = "URead LSR (uart_dev s (uart_ops s) LSR) # uart_ops s"
  have "wait_tx_idle ?s1 = Some (?s1\<lparr>uart_ops := ?us\<rparr>)"
    using r(1) by (subst wait_tx_idle.simps) (simp add: ReadReg_def Let_def)
  then have "uartputc_sync s c = Inr (s\<lparr>uart_ops := UWrite THR c # ?us\<rparr>)"
    using r(2) push_pop_off [OF r(3)] r(4) by (simp add: uartputc_sync_def WriteReg_def)
  then show ?thesis
    unfolding printed_def by (intro exI conjI) (auto simp: sent_bytes_def)
qed

lemma consputc_ok:
  assumes "uart_ready s"
  shows "\<exists>t. consputc s c = Inr t \<and> printed (if c = BACKSPACE then [8, 32, 8] else [of_int c]) s t"
proof (cases "c = BACKSPACE")
  case True
  obtain t where t: "uartputc_sync s 8 = Inr t" "printed [8] s t"
    using uartputc_sync_ok [OF assms] by blast
  obtain u where u: "uartputc_sync t 32 = Inr u" "printed [32] t u"
    using uartputc_sync_ok printed_ready [OF t(2)] assms by blast
  obtain v where v: "uartputc_sync u 8 = Inr v" "printed [8] u v"
    using uartputc_sync_ok printed_ready [OF t(2)] printed_ready [OF u(2)] assms by blast
  show ?thesis
    using t u v printed_trans [OF t(2) printed_trans [OF u(2) v(2)]] True by (simp add: consputc_def)
next
  case False
  then show ?thesis
    using uartputc_sync_ok [OF assms, of "of_int c"] by (auto simp: consputc_def)
qed

lemma consputc_byte: "uart_ready s \<Longrightarrow> \<exists>t. consputc s (uint c) = Inr t \<and> printed [c] s t" for c :: u8
  using consputc_ok [of s "uint c"] uint_bounded [of c] by auto

lemma consputs_ok: "uart_ready s \<Longrightarrow> \<exists>t. consputs s bs = Inr t \<and> printed bs s t"
proof (induction bs arbitrary: s)
  case Nil
  then show ?case
    using printed_nil by auto
next
  case (Cons c bs)
  obtain t where t: "consputc s (uint c) = Inr t" "printed [c] s t"
    using consputc_byte [OF Cons.prems] by blast
  obtain u where u: "consputs t bs = Inr u" "printed bs t u"
    using Cons.IH printed_ready [OF t(2)] Cons.prems by blast
  show ?case
    using t u printed_trans [OF t(2) u(2)] by simp
qed

section \<open>Formatted output\<close>

text \<open>Some bytes are printed, and nothing else happens.\<close>

definition prints :: "'a ustate_scheme \<Rightarrow> fault + 'a ustate_scheme \<Rightarrow> bool" where
  "prints s r \<longleftrightarrow> (\<exists>bs t. r = Inr t \<and> printed bs s t)"

lemma printsI: "r = Inr t \<Longrightarrow> printed bs s t \<Longrightarrow> prints s r"
  by (auto simp: prints_def)

lemma prints_consputs: "uart_ready s \<Longrightarrow> prints s (consputs s bs)"
  unfolding prints_def using consputs_ok by blast

lemma prints_consputc: "uart_ready s \<Longrightarrow> prints s (consputc s c)"
  unfolding prints_def using consputc_ok by blast

lemma prints_bind:
  assumes "prints s m" "uart_ready s" "\<And>t. m = Inr t \<Longrightarrow> uart_ready t \<Longrightarrow> prints t (f t)"
  shows "prints s (bindr m f)"
proof -
  obtain bs t where t: "m = Inr t" "printed bs s t"
    using assms(1) by (auto simp: prints_def)
  obtain cs u where "f t = Inr u" "printed cs t u"
    using assms(3) [OF t(1)] printed_ready [OF t(2)] assms(2) by (auto simp: prints_def)
  then show ?thesis
    using t printed_trans [OF t(2)] by (auto intro: printsI)
qed

lemma prints_printint:
  assumes "uart_ready s" "base \<in> {10, 16}"
  shows "prints s (printint s xx base sg)"
proof -
  have "length kdigits = 16"
    by (simp add: kdigits_def)
  then obtain vs where "digit_loop kdigits base (if sg \<and> sint xx < 0 then - xx else xx) 0 = Some (map ((!) kdigits) vs)" "length vs \<le> 10"
    using digit_loop_bases [OF _ assms(2)] by blast
  then show ?thesis
    using sign_digits_some [of "map ((!) kdigits) vs"] prints_consputs [OF assms(1)] by (simp add: printint_def Let_def)
qed

text \<open>A conversion whose arguments fit, so that it is defined.\<close>

definition conv_ok :: "u8 \<Rightarrow> varg list \<Rightarrow> bool" where
  "conv_ok c ap \<longleftrightarrow> c = 37 \<or> c \<notin> {100, 120, 112, 115} \<or>
     (case ap of [] \<Rightarrow> False | VReg _ # _ \<Rightarrow> c \<noteq> 115 | VStr _ # _ \<Rightarrow> c = 115)"

fun fmt_ok :: "u8 list \<Rightarrow> varg list \<Rightarrow> bool" where
  "fmt_ok [] ap = True"
| "fmt_ok [c] ap = True"
| "fmt_ok (c # d # fmt) ap =
     (if c \<noteq> 37 then fmt_ok (d # fmt) ap else conv_ok d ap \<and> fmt_ok fmt (if d \<in> {100, 120, 112, 115} then tl ap else ap))"

lemma kconv_ok:
  assumes "uart_ready s" "conv_ok c ap"
  shows "\<exists>bs t. kconv s c ap = Inr (t, if c \<in> {100, 120, 112, 115} then tl ap else ap) \<and> printed bs s t"
proof -
  have some: "\<exists>bs t. bindr m (\<lambda>s1. Inr (s1, x)) = Inr (t, x) \<and> printed bs s t" if "prints s m" for m :: "fault + 'a ustate_scheme" and x :: "varg list"
    using that by (auto simp: prints_def)
  show ?thesis
  proof (cases "c \<in> {100, 120, 112, 115}")
    case False
    then show ?thesis
      using some [OF prints_consputs [OF assms(1)]] some [OF prints_consputc [OF assms(1)]]
      by (auto simp: kconv_def simp del: consputs.simps)
  next
    case True
    then obtain v ap1 where ap: "ap = v # ap1"
      using assms(2) by (cases ap) (auto simp: conv_ok_def)
    show ?thesis
    proof (cases v)
      case (VReg x)
      then have "c \<in> {100, 120, 112}"
        using True assms(2) ap by (auto simp: conv_ok_def)
      then show ?thesis
        using some [OF prints_printint [OF assms(1)]] some [OF prints_consputs [OF assms(1)]] VReg ap
        by (auto simp: kconv_def printptr_def simp del: consputs.simps)
    next
      case (VStr so)
      then have "c = 115"
        using True assms(2) ap by (auto simp: conv_ok_def)
      then show ?thesis
        using some [OF prints_consputs [OF assms(1)]] VStr ap by (simp add: kconv_def)
    qed
  qed
qed

lemma printf_loop_ok: "uart_ready s \<Longrightarrow> fmt_ok fmt ap \<Longrightarrow> prints s (printf_loop s fmt ap)"
proof (induction s fmt ap rule: printf_loop.induct)
  case (1 s ap)
  then show ?case
    using printed_nil by (auto intro: printsI)
next
  case (2 s c ap)
  then show ?case
    using prints_consputc printed_nil by (auto intro: printsI)
next
  case (3 s c d fmt ap)
  show ?case
  proof (cases "c = 37")
    case False
    have "prints s (bindr (consputc s (uint c)) (\<lambda>s1. printf_loop s1 (d # fmt) ap))"
      using 3 False by (intro prints_bind prints_consputc) auto
    then show ?thesis
      using False by simp
  next
    case True
    let ?ap = "if d \<in> {100, 120, 112, 115} then tl ap else ap"
    obtain bs t where t: "kconv s d ap = Inr (t, ?ap)" "printed bs s t"
      using kconv_ok [OF 3(3), of d ap] 3(4) True by fastforce
    have "prints t (printf_loop t fmt ?ap)"
      using 3(2) [of "(t, ?ap)" t ?ap] 3(3,4) True printed_ready [OF t(2)] t(1) by simp
    then obtain cs u where "printf_loop t fmt ?ap = Inr u" "printed cs t u"
      by (auto simp: prints_def)
    then show ?thesis
      using True t printed_trans [OF t(2)] by (auto intro: printsI)
  qed
qed

lemma cons_order [simp]:
  "hart_update f (uart_ops_update g s) = uart_ops_update g (hart_update f s)"
  "pr_lock_update h (uart_ops_update g t) = uart_ops_update g (pr_lock_update h t)"
  "pr_lock_update h (hart_update f t) = hart_update f (pr_lock_update h t)"
  "console_update k (uart_ops_update g u) = uart_ops_update g (console_update k u)"
  "console_update k (hart_update f u) = hart_update f (console_update k u)"
  "console_update k (procs_update p u) = procs_update p (console_update k u)"
  "uart_ops_update g (procs_update p s) = procs_update p (uart_ops_update g s)"
  for s :: "'a ustate_scheme" and t :: "'b prstate_scheme" and u :: "'c cstate_scheme"
  by (cases s; simp; fail | cases t; simp; fail | cases u; simp)+

lemma printf_ok:
  assumes "uart_ready s" "lk_free (pr_lock s)" "0 < noff (hart s)" "fmt_ok fmt ap"
  shows "prints s (printf s (Some fmt) ap)"
proof (cases "pr_locking s")
  case False
  then show ?thesis
    using printf_loop_ok [OF assms(1,4)] by (auto simp: printf_def prints_def)
next
  case True
  have ok: "cpu_ok (hart s)" "settle (hart s) = hart s"
    using assms(1) by (simp_all add: uart_ready_def)
  let ?l = "held_lock (pr_lock s) (hartid (hart s))"
  let ?s1 = "s\<lparr>pr_lock := ?l, hart := push_off (hart s)\<rparr>"
  have acq: "acquire_pr s = Inr ?s1"
    by (simp add: acquire_pr_def acquire_free [OF assms(2)] held_lock_def)
  have "uart_ready ?s1"
    using assms(1) push_off_ok [OF ok(1)] ok(1) by (simp add: uart_ready_def)
  then obtain bs us where t: "printf_loop ?s1 fmt ap = Inr (?s1\<lparr>uart_ops := us\<rparr>)" "sent_bytes us = sent_bytes (uart_ops ?s1) @ bs"
    using printf_loop_ok [OF _ assms(4), of ?s1] by (auto simp: prints_def printed_def)
  have "release_pr (?s1\<lparr>uart_ops := us\<rparr>) = Inr (s\<lparr>uart_ops := us\<rparr>)"
    using release_held [OF assms(2) ok(1)] ok(2) by (simp add: release_pr_def held_lock_def)
  then have "printf s (Some fmt) ap = Inr (s\<lparr>uart_ops := us\<rparr>)"
    using True acq t(1) by (simp add: printf_def)
  moreover have "printed bs s (s\<lparr>uart_ops := us\<rparr>)"
    unfolding printed_def using t(2) by auto
  ultimately show ?thesis
    by (rule printsI)
qed

lemma dump_format: "fmt_ok (ktext ''%d %s %s'') [VReg a, VStr b, VStr c]"
  by (simp add: ktext_def conv_ok_def of_char_def)

text \<open>Everything a print needs of the state is kept by a print.\<close>

definition print_ready :: "'a prstate_scheme \<Rightarrow> bool" where
  "print_ready s \<longleftrightarrow> uart_ready s \<and> lk_free (pr_lock s) \<and> 0 < noff (hart s)"

lemma printed_print_ready: "printed bs s t \<Longrightarrow> print_ready t = print_ready s"
  by (auto simp: printed_def uart_ready_def print_ready_def)

lemma prints_bind_pr:
  assumes "prints s m" "print_ready s" "\<And>t. m = Inr t \<Longrightarrow> print_ready t \<Longrightarrow> prints t (f t)"
  shows "prints s (bindr m f)"
proof -
  obtain bs t where t: "m = Inr t" "printed bs s t"
    using assms(1) by (auto simp: prints_def)
  obtain cs u where "f t = Inr u" "printed cs t u"
    using assms(3) [OF t(1)] printed_print_ready [OF t(2)] assms(2) by (auto simp: prints_def)
  then show ?thesis
    using t printed_trans [OF t(2)] by (auto intro: printsI)
qed

lemma procdump_loop_ok: "print_ready s \<Longrightarrow> prints s (procdump_loop k i s)"
proof (induction k arbitrary: i s)
  case 0
  then show ?case
    using printed_nil by (auto intro: printsI)
next
  case (Suc k)
  have "prints s (bindr (printf s (Some (ktext ''%d %s %s'')) [VReg a, VStr b, VStr c]) (\<lambda>s1.
      bindr (printf s1 (Some [10]) []) (\<lambda>s2. procdump_loop k (Suc i) s2)))" for a b c
    using Suc by (intro prints_bind_pr printf_ok dump_format Suc.IH) (auto simp: print_ready_def)
  then show ?case
    using Suc by (simp add: Let_def)
qed

lemma procdump_ok: "print_ready s \<Longrightarrow> prints s (procdump s)"
  unfolding procdump_def
  by (intro prints_bind_pr printf_ok procdump_loop_ok) (auto simp: print_ready_def)

section \<open>The line discipline\<close>

text \<open>
  The committed input and the line being edited. A newline, an end of file or a full buffer commits the line;
  backspace erases its last byte and control-U all of it. What is echoed is given separately.
\<close>

definition in_char :: "u8 \<Rightarrow> u8" where
  "in_char c = (if c = creturn then newline else c)"

definition line_step :: "u8 list \<times> u8 list \<Rightarrow> u8 \<Rightarrow> u8 list \<times> u8 list" where
  "line_step l c =
     (case l of (com, ed) \<Rightarrow>
        if c = ctrl_p then (com, ed)
        else if c = ctrl_u then (com, [])
        else if c = ctrl_h \<or> c = del_key then (com, butlast ed)
        else if c = 0 \<or> length com + length ed = INPUT_BUF_SIZE then (com, ed)
        else if in_char c = newline \<or> in_char c = ctrl_d \<or> Suc (length com + length ed) = INPUT_BUF_SIZE
             then (com @ ed @ [in_char c], []) else (com, ed @ [in_char c]))"

abbreviation "rubout \<equiv> [8, 32, 8] :: u8 list"

definition echo :: "u8 list \<times> u8 list \<Rightarrow> u8 \<Rightarrow> u8 list" where
  "echo l c =
     (case l of (com, ed) \<Rightarrow>
        if c = ctrl_u then concat (replicate (length ed) rubout)
        else if c = ctrl_h \<or> c = del_key then (if ed = [] then [] else rubout)
        else if c = 0 \<or> length com + length ed = INPUT_BUF_SIZE then [] else [in_char c])"

text \<open>The buffer holds the two lists one after the other, from the read index on.\<close>

definition cons_holds :: "cons \<Rightarrow> u8 list \<times> u8 list \<Rightarrow> bool" where
  "cons_holds k l \<longleftrightarrow>
     (case l of (com, ed) \<Rightarrow>
        ring_holds INPUT_BUF_SIZE (cs_buf k) (cs_r k) (com @ ed) \<and>
        cs_w k = cs_r k + of_nat (length com) \<and> cs_e k = cs_r k + of_nat (length (com @ ed)) \<and> newline \<notin> set ed)"

lemma cons_holdsD:
  assumes "cons_holds k (com, ed)"
  shows "length (cs_buf k) = 128" "length (com @ ed) \<le> 128" "cs_w k = cs_r k + of_nat (length com)"
    "cs_e k = cs_r k + of_nat (length (com @ ed))" "newline \<notin> set ed"
    "\<And>j. j < length (com @ ed) \<Longrightarrow> cs_buf k ! ((unat (cs_r k) + j) mod 128) = (com @ ed) ! j"
    "ring_holds 128 (cs_buf k) (cs_r k) (com @ ed)"
  using assms by (simp_all add: cons_holds_def ring_holds_def)

interpretation cons_ring: byte_ring INPUT_BUF_SIZE
  by unfold_locales simp_all

lemmas cons_index = cons_ring.index_mod [unfolded INPUT_BUF_SIZE_def]
  and small_u32 = cons_ring.small_count [unfolded INPUT_BUF_SIZE_def]
  and u32_of_nat_eq = cons_ring.count_eq [unfolded INPUT_BUF_SIZE_def]

lemma store_ring:
  assumes "cons_holds k (com, ed)" "length (com @ ed) < 128"
  shows "ring_holds 128 ((cs_buf k)[unat (cs_e k) mod 128 := c]) (cs_r k) (com @ ed @ [c])"
  using cons_ring.put [of "cs_buf k" "cs_r k" "com @ ed" c] cons_holdsD(4,7) [OF assms(1)] assms(2) by simp

lemma store_holds:
  assumes "cons_holds k (com, ed)" "length (com @ ed) < 128" "c \<noteq> newline"
  shows "cons_holds (k\<lparr>cs_buf := (cs_buf k)[unat (cs_e k) mod INPUT_BUF_SIZE := c], cs_e := cs_e k + 1\<rparr>) (com, ed @ [c])"
  using cons_holdsD(1-5) [OF assms(1)] store_ring [OF assms(1,2)] assms(2,3) by (auto simp: cons_holds_def)

lemma commit_store_holds:
  assumes "cons_holds k (com, ed)" "length (com @ ed) < 128"
  shows "cons_holds (k\<lparr>cs_buf := (cs_buf k)[unat (cs_e k) mod INPUT_BUF_SIZE := c], cs_e := cs_e k + 1, cs_w := cs_e k + 1\<rparr>)
    (com @ ed @ [c], [])"
  using cons_holdsD(1-5) [OF assms(1)] store_ring [OF assms(1,2)] assms(2) by (auto simp: cons_holds_def)

lemma erase_holds:
  assumes "cons_holds k (com, ed)" "ed \<noteq> []"
  shows "cons_holds (k\<lparr>cs_e := cs_e k - 1\<rparr>) (com, butlast ed)"
proof -
  note h = cons_holdsD [OF assms(1)]
  obtain xs x where ed: "ed = xs @ [x]"
    using assms(2) by (cases ed rule: rev_cases) auto
  have "cs_e k - 1 = cs_r k + of_nat (length (com @ xs))"
    unfolding h(4) by (simp add: ed)
  moreover have "cs_buf k ! ((unat (cs_r k) + j) mod 128) = (com @ xs) ! j" if "j < length (com @ xs)" for j
    using h(6) [of j] that by (auto simp: ed nth_append)
  ultimately show ?thesis
    using h(1,2,3,5) by (simp add: cons_holds_def ring_holds_def ed)
qed

section \<open>One character\<close>

text \<open>What the handler may change while it holds the lock of the console.\<close>

definition con_step :: "u8 list \<Rightarrow> 'a cstate_scheme \<Rightarrow> fault + 'a cstate_scheme \<Rightarrow> u8 list \<times> u8 list \<Rightarrow> bool" where
  "con_step bs s r l \<longleftrightarrow> (\<exists>ps us k. r = Inr (s\<lparr>procs := ps, uart_ops := us, console := k\<rparr>) \<and> woken (procs s) ps \<and>
     sent_bytes us = sent_bytes (uart_ops s) @ bs \<and> cs_lock k = cs_lock (console s) \<and> cons_holds k l)"

lemma con_stepI:
  "r = Inr (s\<lparr>procs := ps, uart_ops := us, console := k\<rparr>) \<Longrightarrow> woken (procs s) ps \<Longrightarrow>
   sent_bytes us = sent_bytes (uart_ops s) @ bs \<Longrightarrow> cs_lock k = cs_lock (console s) \<Longrightarrow> cons_holds k l \<Longrightarrow> con_step bs s r l"
  unfolding con_step_def by blast

lemma con_step_same: "cons_holds (console s) l \<Longrightarrow> con_step [] s (Inr s) l"
  by (rule con_stepI [where ps = "procs s" and us = "uart_ops s" and k = "console s"]) (simp_all add: woken_refl)

lemma console_of_printed: "printed bs s t \<Longrightarrow> console t = console s \<and> procs t = procs s"
  by (auto simp: printed_def)

lemma erase_char_ok:
  assumes "print_ready s" "cons_holds (console s) (com, ed)" "ed \<noteq> []"
  shows "con_step rubout s (erase_char s) (com, butlast ed)"
proof -
  let ?k = "(console s)\<lparr>cs_e := cs_e (console s) - 1\<rparr>"
  let ?s = "s\<lparr>console := ?k\<rparr>"
  have "uart_ready ?s"
    using assms(1) by (simp add: print_ready_def uart_ready_def)
  then obtain us where "consputc ?s BACKSPACE = Inr (?s\<lparr>uart_ops := us\<rparr>)" "sent_bytes us = sent_bytes (uart_ops s) @ rubout"
    using consputc_ok [of ?s BACKSPACE] by (auto simp: printed_def)
  then show ?thesis
    using erase_holds [OF assms(2,3)]
    by (intro con_stepI [where ps = "procs s" and us = us and k = ?k]) (simp_all add: erase_char_def upd_cons_def woken_refl)
qed

lemma con_step_bind:
  assumes "con_step a s m l" "print_ready s"
    and "\<And>t. m = Inr t \<Longrightarrow> print_ready t \<Longrightarrow> cons_holds (console t) l \<Longrightarrow> con_step b t (f t) l'"
  shows "con_step (a @ b) s (bindr m f) l'"
proof -
  obtain ps us k where t: "m = Inr (s\<lparr>procs := ps, uart_ops := us, console := k\<rparr>)" "woken (procs s) ps"
      "sent_bytes us = sent_bytes (uart_ops s) @ a" "cs_lock k = cs_lock (console s)" "cons_holds k l"
    using assms(1) by (auto simp: con_step_def)
  let ?t = "s\<lparr>procs := ps, uart_ops := us, console := k\<rparr>"
  have "print_ready ?t"
    using assms(2) by (simp add: print_ready_def uart_ready_def)
  then have "con_step b ?t (f ?t) l'"
    using assms(3) [OF t(1)] t(5) by simp
  then obtain ps' us' k' where u: "f ?t = Inr (?t\<lparr>procs := ps', uart_ops := us', console := k'\<rparr>)" "woken ps ps'"
      "sent_bytes us' = sent_bytes us @ b" "cs_lock k' = cs_lock k" "cons_holds k' l'"
    by (auto simp: con_step_def)
  then show ?thesis
    using t woken_trans [OF t(2) u(2)]
    by (intro con_stepI [where ps = ps' and us = us' and k = k']) simp_all
qed

lemma last_char:
  assumes "cons_holds k (com, ed)" "ed \<noteq> []"
  shows "cons_at k (cs_e k - 1) = last ed" "cs_e k \<noteq> cs_w k"
proof -
  note h = cons_holdsD [OF assms(1)]
  obtain xs x where ed: "ed = xs @ [x]"
    using assms(2) by (cases ed rule: rev_cases) auto
  have "cs_e k - 1 = cs_r k + of_nat (length (com @ xs))"
    unfolding h(4) by (simp add: ed)
  then show "cons_at k (cs_e k - 1) = last ed"
    using h(6) [of "length (com @ xs)"] cons_index [of "cs_r k" "length (com @ xs)"] by (simp add: cons_at_def ed nth_append)
  show "cs_e k \<noteq> cs_w k"
    using h(2) u32_of_nat_eq [of "length (com @ ed)" "length com"] unfolding h(3,4) by (simp add: ed)
qed

lemma kill_line_ok:
  "print_ready s \<Longrightarrow> cons_holds (console s) (com, ed) \<Longrightarrow>
     con_step (concat (replicate (length ed) rubout)) s (kill_line (Suc (length ed)) s) (com, [])"
proof (induction "length ed" arbitrary: s ed)
  case 0
  then have "cs_e (console s) = cs_w (console s)"
    by (simp add: cons_holds_def)
  then show ?case
    using 0 con_step_same [of s "(com, [])"] by simp
next
  case (Suc n)
  then obtain xs x where ed: "ed = xs @ [x]"
    by (cases ed rule: rev_cases) auto
  have "last ed \<noteq> newline"
    using cons_holdsD(5) [OF Suc.prems(2)] by (auto simp: ed)
  then have "kill_line (Suc (length ed)) s = bindr (erase_char s) (\<lambda>s1. kill_line (Suc (length xs)) s1)"
    using last_char [OF Suc.prems(2)] by (subst kill_line.simps(2)) (simp add: ed del: kill_line.simps)
  moreover have "con_step (rubout @ concat (replicate (length xs) rubout)) s
      (bindr (erase_char s) (\<lambda>s1. kill_line (Suc (length xs)) s1)) (com, [])"
  proof (rule con_step_bind)
    show "con_step rubout s (erase_char s) (com, xs)"
      using erase_char_ok [OF Suc.prems] by (simp add: ed)
  qed (use Suc ed in auto)
  ultimately show ?case
    by (simp add: ed)
qed

lemma input_char_ok:
  assumes "print_ready s" "idle_procs s" "cons_holds (console s) (com, ed)" "c \<notin> {ctrl_p, ctrl_u, ctrl_h, del_key}"
  shows "con_step (echo (com, ed) c) s (input_char s c) (line_step (com, ed) c)"
proof -
  note h = cons_holdsD [OF assms(3)]
  let ?n = "length (com @ ed)" and ?c = "in_char c"
  have sz: "cs_e (console s) - cs_r (console s) = of_nat ?n"
    unfolding h(4) by simp
  have room: "cs_e (console s) - cs_r (console s) < of_nat INPUT_BUF_SIZE \<longleftrightarrow> ?n < 128"
    unfolding sz using h(2) small_u32 [OF h(2)] by (simp add: word_less_nat_alt)
  show ?thesis
  proof (cases "c \<noteq> 0 \<and> ?n < 128")
    case False
    then show ?thesis
      using con_step_same [OF assms(3)] room h(2) assms(4) by (auto simp: input_char_def echo_def line_step_def)
  next
    case True
    obtain us where out: "consputc s (uint ?c) = Inr (s\<lparr>uart_ops := us\<rparr>)" "sent_bytes us = sent_bytes (uart_ops s) @ [?c]"
      using consputc_byte [of s ?c] assms(1) by (auto simp: print_ready_def printed_def)
    let ?k = "(console s)\<lparr>cs_buf := (cs_buf (console s))[unat (cs_e (console s)) mod INPUT_BUF_SIZE := ?c], cs_e := cs_e (console s) + 1\<rparr>"
    let ?s2 = "s\<lparr>uart_ops := us, console := ?k\<rparr>"
    have e: "cs_e ?k - cs_r ?k = of_nat (Suc ?n)"
      unfolding h(4) by simp
    have full: "cs_e ?k - cs_r ?k = of_nat INPUT_BUF_SIZE \<longleftrightarrow> Suc ?n = 128"
      unfolding e using u32_of_nat_eq [of "Suc ?n" 128] True by simp
    let ?commit = "?c = newline \<or> ?c = ctrl_d \<or> Suc ?n = 128"
    have step: "input_char s c = (if ?commit then wakeup (?s2\<lparr>console := ?k\<lparr>cs_w := cs_e ?k\<rparr>\<rparr>) WCons else Inr ?s2)"
      using True room out(1) full by (simp add: input_char_def store_char_def upd_cons_def in_char_def Let_def)
    have ls: "line_step (com, ed) c = (if ?commit then (com @ ed @ [?c], []) else (com, ed @ [?c]))" "echo (com, ed) c = [?c]"
      using True assms(4) by (auto simp: line_step_def echo_def)
    show ?thesis
    proof (cases ?commit)
      case False
      then have "cons_holds ?k (com, ed @ [?c])"
        using store_holds [OF assms(3), of ?c] True by simp
      then show ?thesis
        using step ls False out(2)
        by (intro con_stepI [where ps = "procs s" and us = us and k = ?k]) (simp_all add: woken_refl)
    next
      case commit: True
      let ?s3 = "?s2\<lparr>console := ?k\<lparr>cs_w := cs_e ?k\<rparr>\<rparr>"
      have "idle_procs ?s3" "settle (hart ?s3) = hart s"
        using assms(1,2) by (simp_all add: idle_procs_def print_ready_def uart_ready_def)
      then obtain ps where ps: "wakeup ?s3 WCons = Inr (?s3\<lparr>hart := hart s, procs := ps\<rparr>)" "woken (procs s) ps"
        using wakeup_woken [of ?s3 WCons] by auto
      have "cons_holds (?k\<lparr>cs_w := cs_e ?k\<rparr>) (com @ ed @ [?c], [])"
        using commit_store_holds [OF assms(3)] True by simp
      then show ?thesis
        using step ls commit out(2) ps
        by (intro con_stepI [where ps = ps and us = us and k = "?k\<lparr>cs_w := cs_e ?k\<rparr>"]) simp_all
    qed
  qed
qed

text \<open>A console at rest: all the locks the handler takes are free, and the serial port is ready to send.\<close>

definition console_idle :: "'a cstate_scheme \<Rightarrow> bool" where
  "console_idle s \<longleftrightarrow> lk_free (cs_lock (console s)) \<and> lk_free (pr_lock s) \<and> idle_procs s \<and>
     (\<forall>h. uart_dev s h LSR AND LSR_TX_IDLE \<noteq> 0) \<and> \<not> panicked s"

lemma acquire_cons_ok:
  assumes "console_idle s"
  shows "\<exists>t. acquire_cons s = Inr t \<and> t = s\<lparr>hart := push_off (hart s), console := (console s)\<lparr>cs_lock :=
      held_lock (cs_lock (console s)) (hartid (hart s))\<rparr>\<rparr> \<and> print_ready t \<and> idle_procs t"
proof -
  have ok: "lk_free (cs_lock (console s))" "cpu_ok (hart s)" "lk_free (pr_lock s)" "idle_procs s"
    using assms by (simp_all add: console_idle_def idle_procs_def)
  let ?t = "s\<lparr>hart := push_off (hart s), console := (console s)\<lparr>cs_lock := held_lock (cs_lock (console s)) (hartid (hart s))\<rparr>\<rparr>"
  have "acquire_cons s = Inr ?t"
    by (simp add: acquire_cons_def acquire_free [OF ok(1)] held_lock_def upd_cons_def)
  moreover have "0 < noff (push_off (hart s))"
    using ok(2) by (auto simp: cpu_ok_def push_off_def intr_off_def Let_def)
  ultimately show ?thesis
    using assms ok push_off_ok [OF ok(2)] by (simp add: print_ready_def uart_ready_def console_idle_def idle_procs_def)
qed

lemma cons_switch_ok:
  assumes r: "print_ready s" "idle_procs s" and h: "cons_holds (console s) (com, ed)"
  shows "\<exists>bs. con_step bs s (cons_switch s c) (line_step (com, ed) c) \<and> (c \<noteq> ctrl_p \<longrightarrow> bs = echo (com, ed) c)"
proof -
  have dist: "unat (cs_e (console s) - cs_w (console s)) = length ed"
    using cons_holdsD(2,3,4) [OF h] small_u32 [of "length ed"] by simp
  consider "c = ctrl_p" | "c = ctrl_u" | "c = ctrl_h \<or> c = del_key" "ed = []" | "c = ctrl_h \<or> c = del_key" "ed \<noteq> []"
    | "c \<notin> {ctrl_p, ctrl_u, ctrl_h, del_key}"
    by blast
  then show ?thesis
  proof cases
    case 1
    obtain bs us where "procdump s = Inr (s\<lparr>uart_ops := us\<rparr>)" "sent_bytes us = sent_bytes (uart_ops s) @ bs"
      using procdump_ok [OF r(1)] by (auto simp: prints_def printed_def)
    then show ?thesis
      using 1 h by (intro exI [of _ bs]) (auto intro!: con_stepI [where ps = "procs s" and us = us and k = "console s"]
          simp: woken_refl line_step_def cons_switch_def)
  next
    case 2
    then show ?thesis
      using kill_line_ok [OF r(1) h] by (simp add: dist line_step_def echo_def cons_switch_def)
  next
    case 3
    then have "cs_e (console s) = cs_w (console s)"
      using h by (simp add: cons_holds_def)
    then show ?thesis
      using 3 con_step_same [OF h] by (auto simp: line_step_def echo_def cons_switch_def)
  next
    case 4
    then show ?thesis
      using erase_char_ok [OF r(1) h] last_char(2) [OF h] by (auto simp: line_step_def echo_def cons_switch_def)
  next
    case 5
    then show ?thesis
      using input_char_ok [OF r h] by (auto simp: cons_switch_def)
  qed
qed

lemma consoleintr_ok:
  assumes "console_idle s" "cons_holds (console s) (com, ed)"
  shows "\<exists>t bs. consoleintr s c = Inr t \<and> console_idle t \<and> cons_holds (console t) (line_step (com, ed) c) \<and>
    sent_bytes (uart_ops t) = sent_bytes (uart_ops s) @ bs \<and> (c \<noteq> ctrl_p \<longrightarrow> bs = echo (com, ed) c)"
proof -
  let ?l = "cs_lock (console s)"
  have ok: "lk_free ?l" "cpu_ok (hart s)" "idle_procs s"
    using assms(1) by (simp_all add: console_idle_def idle_procs_def)
  obtain s1 where acq: "acquire_cons s = Inr s1" and s1: "s1 = s\<lparr>hart := push_off (hart s),
      console := (console s)\<lparr>cs_lock := held_lock ?l (hartid (hart s))\<rparr>\<rparr>" and r: "print_ready s1" "idle_procs s1"
    using acquire_cons_ok [OF assms(1)] by blast
  have h: "cons_holds (console s1) (com, ed)"
    using assms(2) by (simp add: s1 cons_holds_def)
  obtain bs ps us k where b: "cons_switch s1 c = Inr (s1\<lparr>procs := ps, uart_ops := us, console := k\<rparr>)" "woken (procs s) ps"
      "sent_bytes us = sent_bytes (uart_ops s) @ bs" "cs_lock k = held_lock ?l (hartid (hart s))"
      "cons_holds k (line_step (com, ed) c)" "c \<noteq> ctrl_p \<longrightarrow> bs = echo (com, ed) c"
    using cons_switch_ok [OF r h, of c] by (auto simp: con_step_def s1)
  let ?t = "s\<lparr>hart := settle (hart s), procs := ps, uart_ops := us, console := k\<lparr>cs_lock := ?l\<rparr>\<rparr>"
  have "release_cons (s1\<lparr>procs := ps, uart_ops := us, console := k\<rparr>) = Inr ?t"
    using release_held [OF ok(1,2)] b(4) by (simp add: release_cons_def upd_cons_def held_lock_def s1)
  then have "consoleintr s c = Inr ?t"
    using acq b(1) by (simp add: consoleintr_def)
  moreover have "idle_procs ?t"
    using idle_woken [OF ok(3) b(2), of "settle (hart s)"] ok(2) by (simp add: idle_procs_def)
  moreover have "cons_holds (console ?t) (line_step (com, ed) c)"
    using b(5) by (simp add: cons_holds_def split: prod.splits)
  ultimately show ?thesis
    using assms(1) b(3,6) ok(1) by (intro exI [of _ ?t] exI [of _ bs]) (simp add: console_idle_def)
qed

section \<open>Reading a line\<close>

text \<open>
  What a reader that wants \<open>n\<close> bytes takes from the committed input, after \<open>i\<close> bytes: up to a newline, which it gets,
  or up to an end of file, which is kept for the next reader unless nothing came before it; \<open>None\<close> if it has to wait.
\<close>

fun take_line :: "nat \<Rightarrow> nat \<Rightarrow> u8 list \<Rightarrow> (u8 list \<times> u8 list) option" where
  "take_line 0 i com = Some ([], com)"
| "take_line (Suc n) i [] = None"
| "take_line (Suc n) i (c # com) =
     (if c = ctrl_d then Some ([], if 0 < i then c # com else com)
      else if c = newline then Some ([c], com)
      else map_option (apfst ((#) c)) (take_line n (Suc i) com))"

lemma next_char:
  assumes "cons_holds k (c # com, ed)"
  shows "cons_at k (cs_r k) = c" "cs_r k \<noteq> cs_w k" "cons_holds (k\<lparr>cs_r := cs_r k + 1\<rparr>) (com, ed)"
proof -
  note h = cons_holdsD [OF assms]
  show "cons_at k (cs_r k) = c"
    using h(6) [of 0] by (simp add: cons_at_def)
  show "cs_r k \<noteq> cs_w k"
    using h(2) u32_of_nat_eq [of 0 "length (c # com)"] unfolding h(3) by simp
  show "cons_holds (k\<lparr>cs_r := cs_r k + 1\<rparr>) (com, ed)"
    using h(3-5) cons_ring.get(2) [of "cs_buf k" "cs_r k" c "com @ ed"] h(7) by (simp add: cons_holds_def)
qed

text \<open>The reader in the critical section: the hart \<open>c0\<close> took the lock \<open>l\<close>.\<close>

definition reading :: "cpu \<Rightarrow> spinlock \<Rightarrow> 'a cstate_scheme \<Rightarrow> bool" where
  "reading c0 l s \<longleftrightarrow> cpu_ok c0 \<and> lk_free l \<and> hart s = push_off c0 \<and> cs_lock (console s) = held_lock l (hartid c0)"

lemma release_reading:
  assumes "reading c0 l s"
  shows "release_cons s = Inr (s\<lparr>hart := settle c0, console := (console s)\<lparr>cs_lock := l\<rparr>\<rparr>)"
proof -
  have r: "cpu_ok c0" "lk_free l" "hart s = push_off c0" "cs_lock (console s) = held_lock l (hartid c0)"
    using assms by (simp_all add: reading_def)
  show ?thesis
    using release_held [OF r(2,1)] r(3,4) by (simp add: release_cons_def held_lock_def upd_cons_def)
qed

lemma copy_char:
  assumes "reading c0 l s"
  shows "either_copyout s False dst (\<lambda>_. c) 1 = Inr (s\<lparr>mem := (mem s)(dst := c)\<rparr>, 0)"
proof -
  have "cpu_ok (hart s)" "settle (hart s) = hart s"
    using assms push_off_ok by (auto simp: reading_def)
  then show ?thesis
    using myproc_ok [of s] put_bytes_Suc [of "mem s" dst "\<lambda>_. c" 0] by (simp add: either_copyout_def settled_def)
qed

lemma consoleread_loop_ok:
  assumes "take_line n i com = Some (bs, com')" "reading c0 l s" "cons_holds (console s) (com, ed)"
  shows "\<exists>k. consoleread_loop n s False dst i =
      Inr (s\<lparr>mem := put_bytes (mem s) dst ((!) bs) (length bs), hart := settle c0, console := k\<rparr>, Returned (int (i + length bs))) \<and>
    cs_lock k = l \<and> cons_holds k (com', ed)"
  using assms
proof (induction n i com arbitrary: s dst bs rule: take_line.induct)
  case (1 i com)
  then show ?case
    using release_reading [OF 1(2)] by (auto simp: cons_holds_def)
next
  case (2 n i)
  then show ?case
    by simp
next
  case (3 n i c com)
  let ?k = "(console s)\<lparr>cs_r := cs_r (console s) + 1\<rparr>"
  let ?s = "s\<lparr>console := ?k\<rparr>"
  note nx = next_char [OF 3(4)]
  have rd: "reading c0 l ?s" "reading c0 l (?s\<lparr>mem := m\<rparr>)" for m
    using 3(3) by (simp_all add: reading_def)
  have lk: "cons_holds (k\<lparr>cs_lock := l\<rparr>) x = cons_holds k x" for k x
    by (simp add: cons_holds_def)
  have copy: "either_copyout ?s False dst (\<lambda>_. c) 1 = Inr (?s\<lparr>mem := (mem s)(dst := c)\<rparr>, 0)"
    using copy_char [OF rd(1)] by simp
  let ?s1 = "?s\<lparr>mem := (mem s)(dst := c)\<rparr>"
  have step: "consoleread_loop (Suc n) s False dst i =
      (if c = ctrl_d then bindr (release_cons (if 0 < i then s else ?s)) (\<lambda>s2. Inr (s2, Returned (int i)))
       else if c = newline then bindr (release_cons ?s1) (\<lambda>s3. Inr (s3, Returned (int (Suc i))))
       else consoleread_loop n ?s1 False (dst + 1) (Suc i))"
    using nx(1,2) copy by (simp add: upd_cons_def Let_def)
  consider "c = ctrl_d" | "c = newline" | "c \<noteq> ctrl_d" "c \<noteq> newline"
    by blast
  then show ?case
  proof cases
    case 1
    let ?k1 = "(if 0 < i then console s else ?k)\<lparr>cs_lock := l\<rparr>"
    have "bs = []" "cons_holds ?k1 (com', ed)"
      using 1 3(2,4) nx(3) lk by (auto split: if_splits)
    then show ?thesis
      using 1 step release_reading [OF 3(3)] release_reading [OF rd(1)] by (intro exI [of _ ?k1]) simp
  next
    case 2
    have "bs = [c]" "com' = com"
      using 2 3(2) by auto
    then show ?thesis
      using 2 step nx(3) release_reading [OF rd(2)] lk put_bytes_Suc [of "mem s" dst "(!) [c]" 0]
      by (intro exI [of _ "?k\<lparr>cs_lock := l\<rparr>"]) (simp add: fun_upd_def)
  next
    case neither: 3
    then obtain bs1 where bs: "take_line n (Suc i) com = Some (bs1, com')" "bs = c # bs1"
      using 3(2) by auto
    obtain k where k: "consoleread_loop n ?s1 False (dst + 1) (Suc i) =
        Inr (?s1\<lparr>mem := put_bytes (mem ?s1) (dst + 1) ((!) bs1) (length bs1), hart := settle c0, console := k\<rparr>,
          Returned (int (Suc i + length bs1)))" "cs_lock k = l" "cons_holds k (com', ed)"
      using 3(1) [OF neither bs(1) rd(2), of "(mem s)(dst := c)" "dst + 1"] nx(3) by (auto simp: fun_upd_def)
    have "(\<lambda>j. (c # bs1) ! Suc j) = (!) bs1"
      by auto
    then show ?thesis
      using neither step k put_bytes_Suc [of "mem s" dst "(!) (c # bs1)" "length bs1"]
      by (intro exI [of _ k]) (simp add: bs(2) fun_upd_def)
  qed
qed

lemma consoleread_ok:
  assumes "console_idle s" "cons_holds (console s) (com, ed)" "take_line (nat n) 0 com = Some (bs, com')"
  shows "\<exists>t. consoleread s False dst n = Inr (t, int (length bs)) \<and> mem t = put_bytes (mem s) dst ((!) bs) (length bs) \<and>
    console_idle t \<and> cons_holds (console t) (com', ed)"
proof -
  let ?l = "cs_lock (console s)" and ?h = "hartid (hart s)"
  let ?s1 = "s\<lparr>hart := push_off (hart s), console := (console s)\<lparr>cs_lock := held_lock ?l ?h\<rparr>\<rparr>"
  have ok: "lk_free ?l" "cpu_ok (hart s)" "idle_procs s"
    using assms(1) by (simp_all add: console_idle_def idle_procs_def)
  have acq: "acquire_cons s = Inr ?s1"
    using acquire_cons_ok [OF assms(1)] by blast
  have "reading (hart s) ?l ?s1" "cons_holds (console ?s1) (com, ed)"
    using ok assms(2) by (simp_all add: reading_def cons_holds_def)
  then obtain k where k: "consoleread_loop (nat n) ?s1 False dst 0 =
      Inr (?s1\<lparr>mem := put_bytes (mem s) dst ((!) bs) (length bs), hart := settle (hart s), console := k\<rparr>, Returned (int (length bs)))"
      "cs_lock k = ?l" "cons_holds k (com', ed)"
    using consoleread_loop_ok [OF assms(3), of "hart s" ?l ?s1 ed dst] by auto
  have "consoleread s False dst n =
      Inr (?s1\<lparr>mem := put_bytes (mem s) dst ((!) bs) (length bs), hart := settle (hart s), console := k\<rparr>, int (length bs))"
    using acq k(1) by (simp add: consoleread_def)
  then show ?thesis
    using assms(1) k(2,3) ok by (auto simp: console_idle_def idle_procs_def)
qed

section \<open>Property\<close>

text \<open>Characters that arrive one after the other.\<close>

fun type_chars :: "'a cstate_scheme \<Rightarrow> u8 list \<Rightarrow> fault + 'a cstate_scheme" where
  "type_chars s [] = Inr s"
| "type_chars s (c # cs) = bindr (consoleintr s c) (\<lambda>s1. type_chars s1 cs)"

lemma type_chars_ok:
  "console_idle s \<Longrightarrow> cons_holds (console s) l \<Longrightarrow>
     \<exists>t. type_chars s cs = Inr t \<and> console_idle t \<and> cons_holds (console t) (foldl line_step l cs)"
proof (induction cs arbitrary: s l)
  case (Cons c cs)
  obtain com ed where l: "l = (com, ed)"
    by (cases l)
  obtain t where "consoleintr s c = Inr t" "console_idle t" "cons_holds (console t) (line_step l c)"
    using consoleintr_ok [of s com ed c] Cons.prems l by blast
  then show ?case
    using Cons.IH [of t "line_step l c"] by auto
qed auto

text \<open>
  C39 (refinement). Whatever characters arrive, the console handles each of them and its buffer implements the
  line discipline: the committed lines and the line being edited are those of the abstract transitions, with
  the indices wrapping around and never more than 128 bytes kept. A reader in the kernel then receives exactly the
  next line of the committed input (or what comes before an end of file, which a later reader sees), stored at its
  destination, and the rest stays.
\<close>

theorem console_line_discipline:
  assumes "console_idle s" "cons_holds (console s) l" "foldl line_step l cs = (com, ed)"
  shows "\<exists>t. type_chars s cs = Inr t \<and> console_idle t \<and> cons_holds (console t) (com, ed) \<and>
    (\<forall>n dst bs com'. take_line (nat n) 0 com = Some (bs, com') \<longrightarrow>
       (\<exists>u. consoleread t False dst n = Inr (u, int (length bs)) \<and> mem u = put_bytes (mem t) dst ((!) bs) (length bs) \<and>
          console_idle u \<and> cons_holds (console u) (com', ed)))"
proof -
  obtain t where t: "type_chars s cs = Inr t" "console_idle t" "cons_holds (console t) (com, ed)"
    using type_chars_ok [OF assms(1,2), of cs] assms(3) by auto
  then show ?thesis
    using consoleread_ok [OF t(2,3)] by blast
qed

text \<open>A machine whose console is empty and whose serial port is always ready.\<close>

definition boot_console :: cstate where
  "boot_console = prstate.extend (ustate.extend (fstate.extend (pistate.extend (istate.extend (boot_raw [])
     (pistate.fields (\<lambda>_. \<lparr>pi_lock = \<lparr>locked = 0, lk_name = '''', lk_cpu = None\<rparr>, pi_data = replicate 512 0, nread = 0, nwrite = 0,
        readopen = False, writeopen = False\<rparr>)))
     (fstate.fields \<lparr>locked = 0, lk_name = ''ftable'', lk_cpu = None\<rparr> []))
     (ustate.fields (\<lambda>_ _. 0x20) [] \<lparr>locked = 0, lk_name = ''uart'', lk_cpu = None\<rparr> (replicate 32 0) 0 0 False))
     (prstate.fields \<lparr>locked = 0, lk_name = ''pr'', lk_cpu = None\<rparr> True))
     (cstate.fields \<lparr>cs_lock = \<lparr>locked = 0, lk_name = ''cons'', lk_cpu = None\<rparr>, cs_buf = replicate 128 0, cs_r = 0xfffffff0, cs_w = 0xfffffff0, cs_e = 0xfffffff0\<rparr>)"

lemma boot_console_ok: "console_idle boot_console" "cons_holds (console boot_console) ([], [])"
  by (simp_all add: boot_console_def console_idle_def cons_holds_def ring_holds_def istate.defs pistate.defs fstate.defs ustate.defs prstate.defs cstate.defs
      idle_procs_def lk_free_def boot_raw_def pstate.defs tstate.defs bstate.defs lstate.defs blank_pstate_def blank_proc_def cpu_ok_def
      nth_replicate del: replicate.simps)

theorem console_line_discipline_witness:
  "\<exists>t u. type_chars boot_console [97, 98, 8, 99, 13, 100] = Inr t \<and> cons_holds (console t) ([97, 99, 10], [100]) \<and>
     consoleread t False 0x80001000 10 = Inr (u, 3) \<and> cons_holds (console u) ([], [100])"
proof -
  have l: "foldl line_step ([], []) [97, 98, 8, 99, 13, 100] = ([97, 99, 10], [100])"
    by (simp add: line_step_def in_char_def)
  have tl: "take_line (nat 10) 0 [97, 99, 10 :: u8] = Some ([97, 99, 10], [])"
    by code_simp
  obtain t where t: "type_chars boot_console [97, 98, 8, 99, 13, 100] = Inr t" "cons_holds (console t) ([97, 99, 10], [100])"
      "\<forall>n dst bs com'. take_line (nat n) 0 [97, 99, 10] = Some (bs, com') \<longrightarrow>
       (\<exists>u. consoleread t False dst n = Inr (u, int (length bs)) \<and> mem u = put_bytes (mem t) dst ((!) bs) (length bs) \<and>
          console_idle u \<and> cons_holds (console u) (com', [100]))"
    using console_line_discipline [OF boot_console_ok l] by blast
  obtain u where "consoleread t False 0x80001000 10 = Inr (u, int (length [97, 99, 10 :: u8]))" "cons_holds (console u) ([], [100])"
    using t(3) tl by blast
  then show ?thesis
    using t(1,2) by auto
qed

end
