(* ===== verification/Hart.thy ===== *)
theory Hart
  imports Console Proc_life
begin

text \<open>
  The control and status registers of a hart with the accessors of \<^verbatim>\<open>kernel/riscv.h\<close>, the memory-mapped device
  registers, and \<^verbatim>\<open>kernel/plic.c\<close>. The interrupt-enable bit of \<open>sstatus\<close> is the one the spin locks work on, so the
  register is put together from it. What a device answers when a register is read is a function of the accesses
  made so far, newest first.
\<close>

section \<open>Registers\<close>

definition MSTATUS_MPP_MASK :: u64 where "MSTATUS_MPP_MASK = push_bit 11 3"
definition MSTATUS_MPP_S :: u64 where "MSTATUS_MPP_S = push_bit 11 1"
definition MSTATUS_MIE :: u64 where "MSTATUS_MIE = push_bit 3 1"
definition SSTATUS_SPP :: u64 where "SSTATUS_SPP = push_bit 8 1"
definition SSTATUS_SPIE :: u64 where "SSTATUS_SPIE = push_bit 5 1"
definition SSTATUS_SIE :: u64 where "SSTATUS_SIE = push_bit 1 1"
definition SIE_SEIE :: u64 where "SIE_SEIE = push_bit 9 1"
definition SIE_STIE :: u64 where "SIE_STIE = push_bit 5 1"
definition SIE_SSIE :: u64 where "SIE_SSIE = push_bit 1 1"
definition MIE_MTIE :: u64 where "MIE_MTIE = push_bit 7 1"
definition SATP_SV39 :: u64 where "SATP_SV39 = push_bit 60 8"

definition MAKE_SATP :: "u64 \<Rightarrow> u64" where
  "MAKE_SATP pt = SATP_SV39 OR drop_bit 12 pt"

record csrs =
  x_mhartid :: u64
  x_mstatus :: u64
  x_mepc :: u64
  x_sstatus :: u64
  x_sip :: u64
  x_sie :: u64
  x_mie :: u64
  x_sepc :: u64
  x_medeleg :: u64
  x_mideleg :: u64
  x_stvec :: u64
  x_mtvec :: u64
  x_pmpcfg0 :: u64
  x_pmpaddr0 :: u64
  x_satp :: u64
  x_mscratch :: u64
  x_scause :: u64
  x_stval :: u64

datatype mop = MRead u64 u32 | MWrite u64 u32

record hstate = cstate +
  csr :: csrs
  mmio_dev :: "mop list \<Rightarrow> u64 \<Rightarrow> u32"
  mmio_ops :: "mop list"
  kernel_pagetable :: u64

section \<open>Accessors\<close>

definition r_mhartid :: "'a csrs_scheme \<Rightarrow> u64" where "r_mhartid c = x_mhartid c"
definition r_mstatus :: "'a csrs_scheme \<Rightarrow> u64" where "r_mstatus c = x_mstatus c"
definition w_mstatus :: "u64 \<Rightarrow> 'a csrs_scheme \<Rightarrow> 'a csrs_scheme" where "w_mstatus x c = c\<lparr>x_mstatus := x\<rparr>"
definition w_mepc :: "u64 \<Rightarrow> 'a csrs_scheme \<Rightarrow> 'a csrs_scheme" where "w_mepc x c = c\<lparr>x_mepc := x\<rparr>"
definition r_sie :: "'a csrs_scheme \<Rightarrow> u64" where "r_sie c = x_sie c"
definition w_sie :: "u64 \<Rightarrow> 'a csrs_scheme \<Rightarrow> 'a csrs_scheme" where "w_sie x c = c\<lparr>x_sie := x\<rparr>"
definition r_mie :: "'a csrs_scheme \<Rightarrow> u64" where "r_mie c = x_mie c"
definition w_mie :: "u64 \<Rightarrow> 'a csrs_scheme \<Rightarrow> 'a csrs_scheme" where "w_mie x c = c\<lparr>x_mie := x\<rparr>"
definition w_medeleg :: "u64 \<Rightarrow> 'a csrs_scheme \<Rightarrow> 'a csrs_scheme" where "w_medeleg x c = c\<lparr>x_medeleg := x\<rparr>"
definition w_mideleg :: "u64 \<Rightarrow> 'a csrs_scheme \<Rightarrow> 'a csrs_scheme" where "w_mideleg x c = c\<lparr>x_mideleg := x\<rparr>"
definition w_mtvec :: "u64 \<Rightarrow> 'a csrs_scheme \<Rightarrow> 'a csrs_scheme" where "w_mtvec x c = c\<lparr>x_mtvec := x\<rparr>"
definition w_pmpcfg0 :: "u64 \<Rightarrow> 'a csrs_scheme \<Rightarrow> 'a csrs_scheme" where "w_pmpcfg0 x c = c\<lparr>x_pmpcfg0 := x\<rparr>"
definition w_pmpaddr0 :: "u64 \<Rightarrow> 'a csrs_scheme \<Rightarrow> 'a csrs_scheme" where "w_pmpaddr0 x c = c\<lparr>x_pmpaddr0 := x\<rparr>"
definition w_mscratch :: "u64 \<Rightarrow> 'a csrs_scheme \<Rightarrow> 'a csrs_scheme" where "w_mscratch x c = c\<lparr>x_mscratch := x\<rparr>"
definition w_satp :: "u64 \<Rightarrow> 'a csrs_scheme \<Rightarrow> 'a csrs_scheme" where "w_satp x c = c\<lparr>x_satp := x\<rparr>"

definition upd_csr :: "'a hstate_scheme \<Rightarrow> (csrs \<Rightarrow> csrs) \<Rightarrow> 'a hstate_scheme" where
  "upd_csr s f = s\<lparr>csr := f (csr s)\<rparr>"

definition r_sstatus :: "'a hstate_scheme \<Rightarrow> u64" where
  "r_sstatus s = (if sie (hart s) then x_sstatus (csr s) OR SSTATUS_SIE else x_sstatus (csr s) AND NOT SSTATUS_SIE)"

definition w_sstatus :: "'a hstate_scheme \<Rightarrow> u64 \<Rightarrow> 'a hstate_scheme" where
  "w_sstatus s x = (upd_csr s (\<lambda>c. c\<lparr>x_sstatus := x\<rparr>))\<lparr>hart := (hart s)\<lparr>sie := bit x 1\<rparr>\<rparr>"

definition r_sip :: "'a hstate_scheme \<Rightarrow> u64" where "r_sip s = x_sip (csr s)"
definition w_sip :: "'a hstate_scheme \<Rightarrow> u64 \<Rightarrow> 'a hstate_scheme" where "w_sip s x = upd_csr s (\<lambda>c. c\<lparr>x_sip := x\<rparr>)"
definition r_sepc :: "'a hstate_scheme \<Rightarrow> u64" where "r_sepc s = x_sepc (csr s)"
definition w_sepc :: "'a hstate_scheme \<Rightarrow> u64 \<Rightarrow> 'a hstate_scheme" where "w_sepc s x = upd_csr s (\<lambda>c. c\<lparr>x_sepc := x\<rparr>)"
definition w_stvec :: "'a hstate_scheme \<Rightarrow> u64 \<Rightarrow> 'a hstate_scheme" where "w_stvec s x = upd_csr s (\<lambda>c. c\<lparr>x_stvec := x\<rparr>)"
definition r_satp :: "'a hstate_scheme \<Rightarrow> u64" where "r_satp s = x_satp (csr s)"
definition r_scause :: "'a hstate_scheme \<Rightarrow> u64" where "r_scause s = x_scause (csr s)"
definition r_stval :: "'a hstate_scheme \<Rightarrow> u64" where "r_stval s = x_stval (csr s)"

text \<open>The register \<open>tp\<close> holds the number of the hart.\<close>

definition r_tp :: "'a pstate_scheme \<Rightarrow> u64" where "r_tp s = of_nat (hartid (hart s))"

text \<open>The inline functions that switch the interrupts, as accesses of \<open>sstatus\<close>, are those of the spin locks.\<close>

lemma bit_SIE [simp]: "bit SSTATUS_SIE n \<longleftrightarrow> n = 1"
  by (auto simp: SSTATUS_SIE_def bit_simps)

lemma intr_on_sstatus: "hart (w_sstatus s (r_sstatus s OR SSTATUS_SIE)) = intr_on (hart s)"
  by (simp add: w_sstatus_def intr_on_def bit_simps)

lemma intr_off_sstatus: "hart (w_sstatus s (r_sstatus s AND NOT SSTATUS_SIE)) = intr_off (hart s)"
  by (simp add: w_sstatus_def intr_off_def bit_simps)

lemma intr_get_sstatus: "intr_get (hart s) \<noteq> 0 \<longleftrightarrow> r_sstatus s AND SSTATUS_SIE \<noteq> 0"
proof -
  have "r_sstatus s AND SSTATUS_SIE = (if sie (hart s) then SSTATUS_SIE else 0)"
    by (rule bit_eqI) (auto simp: r_sstatus_def bit_simps)
  then show ?thesis
    by (simp add: intr_get_def SSTATUS_SIE_def)
qed

section \<open>Device registers\<close>

definition mmio_read :: "'a hstate_scheme \<Rightarrow> u64 \<Rightarrow> 'a hstate_scheme \<times> u32" where
  "mmio_read s a = (let v = mmio_dev s (mmio_ops s) a in (s\<lparr>mmio_ops := MRead a v # mmio_ops s\<rparr>, v))"

definition mmio_write :: "'a hstate_scheme \<Rightarrow> u64 \<Rightarrow> u32 \<Rightarrow> 'a hstate_scheme" where
  "mmio_write s a v = s\<lparr>mmio_ops := MWrite a v # mmio_ops s\<rparr>"

section \<open>The interrupt controller\<close>

definition UART0 :: u64 where "UART0 = 0x10000000"
definition UART0_IRQ :: nat where [simp]: "UART0_IRQ = 10"
definition VIRTIO0 :: u64 where "VIRTIO0 = 0x10001000"
definition VIRTIO0_IRQ :: nat where [simp]: "VIRTIO0_IRQ = 1"
definition PLIC :: u64 where "PLIC = 0x0c000000"
definition PLIC_SENABLE :: "nat \<Rightarrow> u64" where "PLIC_SENABLE h = PLIC + 0x2080 + of_nat h * 0x100"
definition PLIC_SPRIORITY :: "nat \<Rightarrow> u64" where "PLIC_SPRIORITY h = PLIC + 0x201000 + of_nat h * 0x2000"
definition PLIC_SCLAIM :: "nat \<Rightarrow> u64" where "PLIC_SCLAIM h = PLIC + 0x201004 + of_nat h * 0x2000"

definition plicinit :: "'a hstate_scheme \<Rightarrow> 'a hstate_scheme" where
  "plicinit s = mmio_write (mmio_write s (PLIC + of_nat UART0_IRQ * 4) 1) (PLIC + of_nat VIRTIO0_IRQ * 4) 1"

definition plicinithart :: "'a hstate_scheme \<Rightarrow> 'a hstate_scheme" where
  "plicinithart s =
     (let h = cpuid s; s1 = mmio_write s (PLIC_SENABLE h) (push_bit UART0_IRQ 1 OR push_bit VIRTIO0_IRQ 1)
      in mmio_write s1 (PLIC_SPRIORITY h) 0)"

definition plic_claim :: "'a hstate_scheme \<Rightarrow> 'a hstate_scheme \<times> u32" where
  "plic_claim s = mmio_read s (PLIC_SCLAIM (cpuid s))"

definition plic_complete :: "'a hstate_scheme \<Rightarrow> u32 \<Rightarrow> 'a hstate_scheme" where
  "plic_complete s irq = mmio_write s (PLIC_SCLAIM (cpuid s)) irq"

end
