(* ===== verification/Trap.thy ===== *)
theory Trap
  imports Hart
begin

text \<open>
  \<^verbatim>\<open>kernel/trap.c\<close> and \<open>forkret\<close> of \<^verbatim>\<open>kernel/proc.c\<close>: traps from user space and from the kernel, the clock, and
  the way back to user space. The addresses of the assembly routines are arguments. A handler that gives up
  the CPU stops at the context switch; what it does when it runs again is a definition of its own.
\<close>

record kaddrs =
  a_kernelvec :: u64
  a_trampoline :: u64
  a_uservec :: u64
  a_userret :: u64
  a_usertrap :: u64

text \<open>Members of \<open>struct trapframe\<close> for the kernel.\<close>

definition tf_kernel_satp :: u64 where "tf_kernel_satp = 0"
definition tf_kernel_sp :: u64 where "tf_kernel_sp = 8"
definition tf_kernel_trap :: u64 where "tf_kernel_trap = 16"
definition tf_kernel_hartid :: u64 where "tf_kernel_hartid = 32"

definition trapinit :: "'a tstate_scheme \<Rightarrow> 'a tstate_scheme" where
  "trapinit s = s\<lparr>tickslock := initlock (tickslock s) ''time''\<rparr>"

definition trapinithart :: "kaddrs \<Rightarrow> 'a hstate_scheme \<Rightarrow> 'a hstate_scheme" where
  "trapinithart ka s = w_stvec s (a_kernelvec ka)"

section \<open>Interrupts\<close>

definition clockintr :: "'a tstate_scheme \<Rightarrow> fault + 'a tstate_scheme" where
  "clockintr s =
     bindr (acquire (tickslock s) (hart s)) (\<lambda>(l, c).
     let s1 = s\<lparr>tickslock := l, hart := c\<rparr>; s2 = s1\<lparr>ticks := ticks s1 + 1\<rparr>
     in bindr (wakeup s2 WTicks) (\<lambda>s3.
        bindr (release (tickslock s3) (hart s3)) (\<lambda>(l1, c1). Inr (s3\<lparr>tickslock := l1, hart := c1\<rparr>))))"

definition devintr_plic :: "'a hstate_scheme \<Rightarrow> fault + 'a hstate_scheme" where
  "devintr_plic s =
     (let (s1, irq) = plic_claim s
      in bindr (if irq = of_nat UART0_IRQ then uartintr s1
                else if irq = of_nat VIRTIO0_IRQ then virtio_disk_intr s1
                else if irq \<noteq> 0 then printf s1 (Some (ktext ''unexpected interrupt irq=%d'' @ [10])) [VReg (ucast irq)]
                else Inr s1) (\<lambda>s2.
           Inr (if irq \<noteq> 0 then plic_complete s2 irq else s2)))"

definition devintr :: "'a hstate_scheme \<Rightarrow> fault + 'a hstate_scheme \<times> nat" where
  "devintr s =
     (let scause = r_scause s
      in if bit scause 63 \<and> scause AND 0xff = 9 then bindr (devintr_plic s) (\<lambda>s1. Inr (s1, 1))
         else if scause = 0x8000000000000001 then
           bindr (if cpuid s = 0 then clockintr s else Inr s) (\<lambda>s1. Inr (w_sip s1 (r_sip s1 AND NOT 2), 2))
         else Inr (s, 0))"

section \<open>Returning to user space\<close>

text \<open>The result is the state at the jump to \<open>userret\<close>, the address jumped to and its argument.\<close>

definition usertrapret :: "kaddrs \<Rightarrow> 'a hstate_scheme \<Rightarrow> fault + 'a hstate_scheme \<times> u64 \<times> u64" where
  "usertrapret ka s =
     with_myproc s (\<lambda>s0 p.
       let s1 = s0\<lparr>hart := intr_off (hart s0)\<rparr>;
           s2 = w_stvec s1 (TRAMPOLINE + (a_uservec ka - a_trampoline ka));
           s3 = set_tf s2 p tf_kernel_satp (r_satp s2);
           s4 = set_tf s3 p tf_kernel_sp (kstack (procs s3 ! p) + PGSIZE);
           s5 = set_tf s4 p tf_kernel_trap (a_usertrap ka);
           s6 = set_tf s5 p tf_kernel_hartid (r_tp s5);
           x = r_sstatus s6;
           s7 = w_sstatus s6 ((x AND NOT SSTATUS_SPP) OR SSTATUS_SPIE);
           s8 = w_sepc s7 (get_tf s7 p tf_epc);
           satp = MAKE_SATP (pagetable (procs s8 ! p))
       in Inr (s8, TRAMPOLINE + (a_userret ka - a_trampoline ka), satp))"

text \<open>
  How a trap ends: at the jump to user space, at the context switch of \<open>exit\<close>, or at the one of \<open>yield\<close>, with the
  process and its saved interrupt flag.
\<close>

datatype 's trapend = ToUserspace 's u64 u64 | Exited 's | Yielded 's nat int

definition trap_return :: "kaddrs \<Rightarrow> 'a hstate_scheme \<Rightarrow> fault + 'a hstate_scheme trapend" where
  "trap_return ka s = bindr (usertrapret ka s) (\<lambda>(s1, pc, satp). Inr (ToUserspace s1 pc satp))"

definition trap_exit :: "'a hstate_scheme \<Rightarrow> fault + 'a hstate_scheme trapend" where
  "trap_exit s = bindr (exit s (-1)) (\<lambda>(s1, _). Inr (Exited s1))"

section \<open>Traps from user space\<close>

text \<open>
  The end of \<open>usertrap\<close>, after the cause has been handled. \<open>usertrap_resumed\<close> continues it after \<open>yield\<close>.
\<close>

definition usertrap_end :: "kaddrs \<Rightarrow> 'a hstate_scheme \<Rightarrow> nat \<Rightarrow> nat \<Rightarrow> fault + 'a hstate_scheme trapend" where
  "usertrap_end ka s p which_dev =
     bindr (killed s p) (\<lambda>(s1, k).
       if k \<noteq> 0 then trap_exit s1
       else if which_dev = 2 then bindr (yield_enter s1) (\<lambda>(s2, ie). Inr (Yielded s2 p ie))
       else trap_return ka s1)"

definition usertrap_resumed :: "kaddrs \<Rightarrow> 'a hstate_scheme \<Rightarrow> nat \<Rightarrow> int \<Rightarrow> fault + 'a hstate_scheme trapend" where
  "usertrap_resumed ka s p ie = bindr (yield_return s p ie) (\<lambda>s1. trap_return ka s1)"

text \<open>\<open>syscalls\<close> is the table of handlers.\<close>

definition usertrap_syscall ::
    "kaddrs \<Rightarrow> ('a hstate_scheme \<Rightarrow> fault + 'a hstate_scheme \<times> u64) option list \<Rightarrow> 'a hstate_scheme \<Rightarrow> nat \<Rightarrow> fault + 'a hstate_scheme trapend" where
  "usertrap_syscall ka syscalls s p =
     bindr (killed s p) (\<lambda>(s1, k).
       if k \<noteq> 0 then trap_exit s1
       else let s2 = set_tf s1 p tf_epc (get_tf s1 p tf_epc + 4);
                s3 = s2\<lparr>hart := intr_on (hart s2)\<rparr>
            in bindr (syscall syscalls s3) (\<lambda>s4. usertrap_end ka s4 p 0))"

definition usertrap_unexpected :: "'a hstate_scheme \<Rightarrow> nat \<Rightarrow> fault + 'a hstate_scheme" where
  "usertrap_unexpected s p =
     bindr (printf s (Some (ktext ''usertrap(): unexpected scause %p pid=%d'' @ [10])) [VReg (r_scause s), VReg (of_int (pid (procs s ! p)))]) (\<lambda>s1.
     bindr (printf s1 (Some (ktext ''            sepc=%p stval=%p'' @ [10])) [VReg (r_sepc s1), VReg (r_stval s1)]) (\<lambda>s2.
     setkilled s2 p))"

definition usertrap ::
    "kaddrs \<Rightarrow> ('a hstate_scheme \<Rightarrow> fault + 'a hstate_scheme \<times> u64) option list \<Rightarrow> 'a hstate_scheme \<Rightarrow> fault + 'a hstate_scheme trapend" where
  "usertrap ka syscalls s =
     (if r_sstatus s AND SSTATUS_SPP \<noteq> 0 then Inl (Panic ''usertrap: not from user mode'')
      else with_myproc (w_stvec s (a_kernelvec ka)) (\<lambda>s1 p.
        let s2 = set_tf s1 p tf_epc (r_sepc s1)
        in if r_scause s2 = 8 then usertrap_syscall ka syscalls s2 p
           else bindr (devintr s2) (\<lambda>(s3, which_dev).
             if which_dev \<noteq> 0 then usertrap_end ka s3 p which_dev
             else bindr (usertrap_unexpected s3 p) (\<lambda>s4. usertrap_end ka s4 p 0))))"

section \<open>Traps from the kernel\<close>

datatype 's ktrapend = Resumed 's | KYielded 's nat int

definition kerneltrap_end :: "'a hstate_scheme \<Rightarrow> u64 \<Rightarrow> u64 \<Rightarrow> 'a hstate_scheme" where
  "kerneltrap_end s sepc sstatus = w_sstatus (w_sepc s sepc) sstatus"

definition kerneltrap_unexpected :: "'a hstate_scheme \<Rightarrow> u64 \<Rightarrow> fault + 'b" where
  "kerneltrap_unexpected s scause =
     bindr (printf s (Some (ktext ''scause %p'' @ [10])) [VReg scause]) (\<lambda>s1.
     bindr (printf s1 (Some (ktext ''sepc=%p stval=%p'' @ [10])) [VReg (r_sepc s1), VReg (r_stval s1)]) (\<lambda>s2.
     Inl (Panic ''kerneltrap'')))"

definition kerneltrap :: "'a hstate_scheme \<Rightarrow> fault + 'a hstate_scheme ktrapend" where
  "kerneltrap s =
     (let sepc = r_sepc s; sstatus = r_sstatus s; scause = r_scause s
      in if sstatus AND SSTATUS_SPP = 0 then Inl (Panic ''kerneltrap: not from supervisor mode'')
         else if intr_get (hart s) \<noteq> 0 then Inl (Panic ''kerneltrap: interrupts enabled'')
         else bindr (devintr s) (\<lambda>(s1, which_dev).
           if which_dev = 0 then kerneltrap_unexpected s1 scause
           else if which_dev = 2 then
             bindr (myproc s1) (\<lambda>(s2, me).
               case me of None \<Rightarrow> Inr (Resumed (kerneltrap_end s2 sepc sstatus))
               | Some _ \<Rightarrow>
                   with_myproc s2 (\<lambda>s3 p.
                     if state (procs s3 ! p) = RUNNING then bindr (yield_enter s3) (\<lambda>(s4, ie). Inr (KYielded s4 p ie))
                     else Inr (Resumed (kerneltrap_end s3 sepc sstatus))))
           else Inr (Resumed (kerneltrap_end s1 sepc sstatus))))"

definition kerneltrap_resumed :: "'a hstate_scheme \<Rightarrow> nat \<Rightarrow> int \<Rightarrow> u64 \<Rightarrow> u64 \<Rightarrow> fault + 'a hstate_scheme" where
  "kerneltrap_resumed s p ie sepc sstatus = bindr (yield_return s p ie) (\<lambda>s1. Inr (kerneltrap_end s1 sepc sstatus))"

section \<open>The first return of a new process\<close>

text \<open>\<open>first\<close> is the static flag; the result has its new value.\<close>

definition forkret :: "kaddrs \<Rightarrow> bool \<Rightarrow> 'a hstate_scheme \<Rightarrow> fault + bool \<times> 'a hstate_scheme trapend" where
  "forkret ka first s =
     with_myproc s (\<lambda>s1 p.
     bindr (release_proc s1 p) (\<lambda>s2.
     bindr (if first then fsinit s2 1 else Inr s2) (\<lambda>s3.
     bindr (trap_return ka s3) (\<lambda>r. Inr (False, r)))))"

end
