(* ===== verification/Trap_thms.thy ===== *)
theory Trap_thms
  imports Trap Console_thms
begin

text \<open>
  A system call from the trap to the return: which registers and which slots of the trap frame the way
  through the kernel changes.
\<close>

section \<open>The trap frame\<close>

text \<open>The trap frame is at the start of a page; its members are 8-byte slots.\<close>

definition tf_slot :: "'a pstate_scheme \<Rightarrow> nat \<Rightarrow> nat \<Rightarrow> u64" where
  "tf_slot s p i = ld64 (mem s) (trapframe (procs s ! p) + of_nat (8 * i))"

definition set_slot :: "'a pstate_scheme \<Rightarrow> nat \<Rightarrow> nat \<Rightarrow> u64 \<Rightarrow> 'a pstate_scheme" where
  "set_slot s p i v = s\<lparr>mem := st64 (mem s) (trapframe (procs s ! p) + of_nat (8 * i)) v\<rparr>"

lemma tf_members:
  "set_tf s p tf_kernel_satp = set_slot s p 0" "set_tf s p tf_kernel_sp = set_slot s p 1" "set_tf s p tf_kernel_trap = set_slot s p 2"
  "set_tf s p tf_epc = set_slot s p 3" "set_tf s p tf_kernel_hartid = set_slot s p 4" "set_tf s p (tf_a 0) = set_slot s p 14"
  "get_tf s p tf_epc = tf_slot s p 3" "get_tf s p (tf_a 7) = tf_slot s p 21"
  by (simp_all add: fun_eq_iff set_tf_def set_slot_def get_tf_def tf_slot_def tf_kernel_satp_def tf_kernel_sp_def tf_kernel_trap_def tf_epc_def
      tf_kernel_hartid_def tf_a_def)

lemma set_slot_slot:
  assumes "pg_aligned (trapframe (procs s ! p))" "i < 512" "j < 512"
  shows "tf_slot (set_slot s p i v) p j = (if i = j then v else tf_slot s p j)"
  using ld64_st64_slot [OF assms] by (simp add: tf_slot_def set_slot_def)

lemma set_slot_keeps [simp]:
  "procs (set_slot s p i v) = procs s" "hart (set_slot s p i v) = hart s" "curproc (set_slot s p i v) = curproc s"
  by (simp_all add: set_slot_def)

lemma set_slot_csr [simp]: "csr (set_slot s p i v) = csr s" for s :: "'a hstate_scheme"
  by (simp add: set_slot_def)

lemma csr_writes_keep [simp]:
  "procs (w_stvec s x) = procs s" "procs (w_sepc s x) = procs s" "procs (w_sstatus s x) = procs s"
  "mem (w_stvec s x) = mem s" "mem (w_sepc s x) = mem s" "mem (w_sstatus s x) = mem s"
  "curproc (w_stvec s x) = curproc s" "hart (w_stvec s x) = hart s"
  "tf_slot (w_stvec s x) p i = tf_slot s p i" "tf_slot (w_sstatus s x) p i = tf_slot s p i" "tf_slot (w_sepc s x) p i = tf_slot s p i"
  by (simp_all add: w_stvec_def w_sepc_def w_sstatus_def upd_csr_def tf_slot_def)

lemma r_tp_keeps [simp]: "r_tp (set_slot s p i v) = r_tp s"
  by (simp add: r_tp_def)

lemma idle_set_slot [simp]: "idle_procs (set_slot s p i v) = idle_procs s"
  by (simp add: idle_procs_def)

lemma bit_SPP: "bit SSTATUS_SPP n \<longleftrightarrow> n = 8"
proof -
  have "bit SSTATUS_SPP n \<longleftrightarrow> 8 \<le> n \<and> n < 64 \<and> n - 8 = 0"
    unfolding SSTATUS_SPP_def bit_push_bit_iff bit_1_iff by (auto simp: possible_bit_def)
  then show ?thesis
    by auto
qed

section \<open>The steps of the kernel\<close>

lemma with_myproc_settled: "cpu_ok (hart s) \<Longrightarrow> curproc s = Some p \<Longrightarrow> with_myproc s f = f (settled s) p" for s :: "'a pstate_scheme"
  by (simp add: with_myproc_ok settled_def)

lemma usertrapret_ok:
  fixes s :: "'a hstate_scheme"
  assumes "cpu_ok (hart s)" "curproc s = Some p" "pg_aligned (trapframe (procs s ! p))"
  shows "\<exists>t. usertrapret ka s = Inr (t, TRAMPOLINE + (a_userret ka - a_trampoline ka), MAKE_SATP (pagetable (procs s ! p))) \<and>
    r_sepc t = tf_slot s p 3 \<and> x_stvec (csr t) = TRAMPOLINE + (a_uservec ka - a_trampoline ka) \<and>
    \<not> bit (r_sstatus t) 8 \<and> bit (r_sstatus t) 5 \<and> \<not> sie (hart t) \<and>
    tf_slot t p 0 = r_satp s \<and> tf_slot t p 1 = kstack (procs s ! p) + PGSIZE \<and> tf_slot t p 2 = a_usertrap ka \<and> tf_slot t p 4 = r_tp s \<and>
    (\<forall>i<512. i \<notin> {0, 1, 2, 4} \<longrightarrow> tf_slot t p i = tf_slot s p i) \<and> procs t = procs s"
proof -
  let ?s0 = "settled s"
  define s2 where "s2 = w_stvec (?s0\<lparr>hart := intr_off (hart ?s0)\<rparr>) (TRAMPOLINE + (a_uservec ka - a_trampoline ka))"
  define s6 where "s6 = set_slot (set_slot (set_slot (set_slot s2 p 0 (r_satp s2)) p 1 (kstack (procs s ! p) + PGSIZE)) p 2 (a_usertrap ka)) p 4 (r_tp s2)"
  define t where "t = w_sepc (w_sstatus s6 ((r_sstatus s6 AND NOT SSTATUS_SPP) OR SSTATUS_SPIE)) (tf_slot s6 p 3)"
  have s2f: "procs s2 = procs s" "mem s2 = mem s" "curproc s2 = curproc s" "r_satp s2 = r_satp s" "r_tp s2 = r_tp s" "sie (hart s2) = False"
    by (simp_all add: s2_def w_stvec_def upd_csr_def settled_def r_satp_def r_tp_def intr_off_def)
  have al: "pg_aligned (trapframe (procs s2 ! p))"
    using assms(3) s2f(1) by simp
  have slots: "tf_slot s6 p i = (if i = 4 then r_tp s else if i = 2 then a_usertrap ka else if i = 1 then kstack (procs s ! p) + PGSIZE
      else if i = 0 then r_satp s else tf_slot s p i)" if "i < 512" for i
    using that al s2f unfolding s6_def by (simp add: set_slot_slot tf_slot_def [of s2] tf_slot_def [of s])
  have t: "mem t = mem s6" "procs t = procs s" "sie (hart t) = bit (r_sstatus s6) 1"
    by (simp_all add: t_def w_sepc_def w_sstatus_def upd_csr_def s6_def s2f SSTATUS_SPP_def SSTATUS_SPIE_def bit_simps)
  have off: "\<not> bit (r_sstatus s6) 1"
    using s2f(6) by (simp add: r_sstatus_def s6_def bit_simps)
  have st: "r_sstatus t = ((r_sstatus s6 AND NOT SSTATUS_SPP) OR SSTATUS_SPIE) AND NOT SSTATUS_SIE"
    using t(3) off by (simp add: r_sstatus_def [of t]) (simp add: t_def w_sepc_def w_sstatus_def upd_csr_def)
  have "usertrapret ka s = Inr (t, TRAMPOLINE + (a_userret ka - a_trampoline ka), MAKE_SATP (pagetable (procs s ! p)))"
    unfolding usertrapret_def with_myproc_settled [OF assms(1,2)] Let_def tf_members t_def s6_def s2_def by simp
  moreover have "tf_slot t p i = tf_slot s6 p i" for i
    using t(1,2) by (simp add: tf_slot_def s6_def s2f)
  moreover have "x_stvec (csr t) = TRAMPOLINE + (a_uservec ka - a_trampoline ka)" "r_sepc t = tf_slot s6 p 3"
    by (simp_all add: t_def s6_def s2_def w_sepc_def w_sstatus_def w_stvec_def upd_csr_def r_sepc_def)
  ultimately show ?thesis
    using slots t(2,3) off st by (simp add: SSTATUS_SPP_def SSTATUS_SPIE_def bit_simps)
qed

lemma settled_csr [simp]: "csr (settled s) = csr s" "curproc (settled s) = curproc s" "mem (settled s) = mem s" for s :: "'a hstate_scheme"
  by (simp_all add: settled_def)

lemma r_sepc_keeps [simp]: "r_sepc (settled s) = r_sepc s" "r_sepc (w_stvec s x) = r_sepc s" for s :: "'a hstate_scheme"
  by (simp_all add: r_sepc_def w_stvec_def upd_csr_def settled_def)

lemma tf_slot_settled [simp]: "tf_slot (settled s) p i = tf_slot s p i" "tf_slot (s\<lparr>hart := c\<rparr>) p i = tf_slot s p i" for s :: "'a hstate_scheme"
  by (simp_all add: tf_slot_def settled_def)

lemma syscall_getpid:
  fixes s :: "'a pstate_scheme"
  assumes "cpu_ok (hart s)" "curproc s = Some p" "to_int (tf_slot s p 21) = 11" "11 < length tab" "tab ! 11 = Some sys_getpid"
  shows "syscall tab s = Inr (set_slot (settled s) p 14 (of_int (pid (procs s ! p))))"
proof -
  have "tf_slot (settled s) p 21 = tf_slot s p 21"
    by (simp add: tf_slot_def settled_def)
  moreover have "sys_getpid (settled s) = Inr (settled s, of_int (pid (procs s ! p)))"
    using assms(1,2) by (simp add: sys_getpid_def with_myproc_settled)
  ultimately show ?thesis
    using assms by (simp add: syscall_def tf_members with_myproc_settled)
qed

section \<open>Property\<close>

text \<open>
  C40 (functional). A \<open>getpid\<close> made by a user program: from the trap to the jump to \<open>userret\<close> the kernel saves the
  program counter, dispatches on the number in a7 and returns the process id in a0; the program resumes behind the
  \<open>ecall\<close> instruction with its own page table, in user mode and with interrupts enabled there, the next trap
  goes to \<open>uservec\<close>, and no other user register of the trap frame has changed.
\<close>

theorem ecall_getpid:
  fixes s :: "'a hstate_scheme"
  assumes "idle_procs s" "curproc s = Some p" "p < NPROC" "pg_aligned (trapframe (procs s ! p))" "p_killed (procs s ! p) = 0"
    and "\<not> bit (x_sstatus (csr s)) 8" "r_scause s = 8" "noff (hart s) = 0"
    and "to_int (tf_slot s p 21) = 11" "11 < length tab" "tab ! 11 = Some sys_getpid"
  shows "\<exists>t. usertrap ka tab s =
      Inr (ToUserspace t (TRAMPOLINE + (a_userret ka - a_trampoline ka)) (MAKE_SATP (pagetable (procs s ! p)))) \<and>
    r_sepc t = r_sepc s + 4 \<and> tf_slot t p 14 = of_int (pid (procs s ! p)) \<and>
    (\<forall>i<512. i \<notin> {0, 1, 2, 3, 4, 14} \<longrightarrow> tf_slot t p i = tf_slot s p i) \<and>
    x_stvec (csr t) = TRAMPOLINE + (a_uservec ka - a_trampoline ka) \<and> \<not> bit (r_sstatus t) 8 \<and> bit (r_sstatus t) 5 \<and> \<not> sie (hart t)"
proof -
  have cpu: "cpu_ok (hart s)"
    using assms(1) by (simp add: idle_procs_def)
  define s1 where "s1 = set_slot (settled (w_stvec s (a_kernelvec ka))) p 3 (r_sepc s)"
  have keep1: "procs s1 = procs s" "curproc s1 = Some p" "hart s1 = settle (hart s)" "idle_procs s1" "r_scause s1 = 8"
    using assms(1,2,7) by (simp_all add: s1_def idle_procs_def r_scause_def w_stvec_def upd_csr_def)
  have slot1: "tf_slot s1 p i = (if i = 3 then r_sepc s else tf_slot s p i)" if "i < 512" for i
    using that assms(4) by (simp add: s1_def set_slot_slot)
  define s3 where "s3 = (set_slot (settled s1) p 3 (r_sepc s + 4))\<lparr>hart := intr_on (settle (hart s))\<rparr>"
  have keep3: "procs s3 = procs s" "curproc s3 = Some p" "cpu_ok (hart s3)" "idle_procs s3"
    using keep1 assms(8) by (simp_all add: s3_def cpu_ok_def intr_on_def idle_procs_def)
  have slot3: "tf_slot s3 p i = (if i = 3 then r_sepc s + 4 else tf_slot s p i)" if "i < 512" for i
    using that assms(4) slot1 keep1(1) by (simp add: s3_def set_slot_slot)
  define s4 where "s4 = set_slot (settled s3) p 14 (of_int (pid (procs s ! p)))"
  have keep4: "procs s4 = procs s" "curproc s4 = Some p" "idle_procs s4" "cpu_ok (hart s4)"
    using keep3 by (simp_all add: s4_def)
  have slot4: "tf_slot s4 p i = (if i = 14 then of_int (pid (procs s ! p)) else if i = 3 then r_sepc s + 4 else tf_slot s p i)" if "i < 512" for i
    using that assms(4) slot3 keep3(1) by (simp add: s4_def set_slot_slot)
  have sys: "syscall tab s3 = Inr s4"
    using syscall_getpid [OF keep3(3,2) _ assms(10,11)] slot3 [of 21] assms(9) keep3(1) by (simp add: s4_def)
  obtain t where t: "usertrapret ka (settled s4) = Inr (t, TRAMPOLINE + (a_userret ka - a_trampoline ka), MAKE_SATP (pagetable (procs s ! p)))"
      "r_sepc t = tf_slot s4 p 3" "x_stvec (csr t) = TRAMPOLINE + (a_uservec ka - a_trampoline ka)"
      "\<not> bit (r_sstatus t) 8" "bit (r_sstatus t) 5" "\<not> sie (hart t)" "\<forall>i<512. i \<notin> {0, 1, 2, 4} \<longrightarrow> tf_slot t p i = tf_slot s4 p i"
    using usertrapret_ok [of "settled s4" p ka] keep4 assms(4) by auto
  have "r_sstatus s AND SSTATUS_SPP = 0"
    using assms(6) by (intro bit_eqI) (auto simp: r_sstatus_def bit_SPP bit_simps)
  moreover have "usertrap_end ka s4 p 0 = Inr (ToUserspace t (TRAMPOLINE + (a_userret ka - a_trampoline ka)) (MAKE_SATP (pagetable (procs s ! p))))"
    using killed_ok [OF keep4(3) assms(3)] keep4(1) assms(5) t(1) by (simp add: usertrap_end_def trap_return_def)
  moreover have "(set_slot (settled s1) p 3 (tf_slot (settled s1) p 3 + 4))\<lparr>hart := intr_on (hart (settled s1))\<rparr> = s3"
    using slot1 [of 3] keep1(3) by (simp add: s3_def)
  ultimately have "usertrap ka tab s = Inr (ToUserspace t (TRAMPOLINE + (a_userret ka - a_trampoline ka)) (MAKE_SATP (pagetable (procs s ! p))))"
    using killed_ok [OF keep1(4) assms(3)] keep1 assms(2,5) sys cpu
    by (simp add: usertrap_def with_myproc_settled tf_members usertrap_syscall_def Let_def s1_def [symmetric])
  then show ?thesis
    using t slot4 by auto
qed

text \<open>A process that has just executed \<open>ecall\<close> with the number of \<open>getpid\<close> in a7.\<close>

definition ecall_csrs :: csrs where
  "ecall_csrs = \<lparr>x_mhartid = 0, x_mstatus = 0, x_mepc = 0, x_sstatus = 0x20, x_sip = 0, x_sie = 0, x_mie = 0, x_sepc = 0x1000,
     x_medeleg = 0, x_mideleg = 0, x_stvec = 0, x_mtvec = 0, x_pmpcfg0 = 0, x_pmpaddr0 = 0, x_satp = 0, x_mscratch = 0, x_scause = 8, x_stval = 0\<rparr>"

definition ecall_state :: hstate where
  "ecall_state = cstate.extend (boot_console\<lparr>mem := st64 (\<lambda>_. 0) (of_nat (8 * 21)) 11,
     hart := \<lparr>hartid = 0, noff = 0, intena = 0, sie = False\<rparr>, procs := (replicate 64 blank_proc)[0 := blank_proc\<lparr>pid := 5, state := RUNNING\<rparr>]\<rparr>) (hstate.fields ecall_csrs (\<lambda>_ _. 0) [] 0)"

lemma ecall_state_facts:
  "procs ecall_state = (replicate 64 blank_proc)[0 := blank_proc\<lparr>pid := 5, state := RUNNING\<rparr>]" "csr ecall_state = ecall_csrs"
  "hart ecall_state = \<lparr>hartid = 0, noff = 0, intena = 0, sie = False\<rparr>" "curproc ecall_state = Some 0"
  "mem ecall_state = st64 (\<lambda>_. 0) (of_nat (8 * 21)) 11"
  by (simp_all add: ecall_state_def boot_console_def hstate.defs istate.defs pistate.defs fstate.defs ustate.defs prstate.defs cstate.defs
      boot_raw_def pstate.defs tstate.defs bstate.defs lstate.defs blank_pstate_def del: replicate.simps)

theorem ecall_getpid_witness:
  "\<exists>t. usertrap \<lparr>a_kernelvec = 1, a_trampoline = 2, a_uservec = 2, a_userret = 3, a_usertrap = 4\<rparr> (replicate 11 None @ [Some sys_getpid]) ecall_state =
      Inr (ToUserspace t (TRAMPOLINE + 1) (MAKE_SATP 0)) \<and> r_sepc t = 0x1004 \<and> tf_slot t 0 14 = 5"
proof -
  have p0: "procs ecall_state ! 0 = blank_proc\<lparr>pid := 5, state := RUNNING\<rparr>"
    by (simp add: ecall_state_facts)
  have idle: "idle_procs ecall_state"
    by (auto simp: idle_procs_def ecall_state_facts lk_free_def blank_proc_def cpu_ok_def nth_list_update nth_replicate simp del: replicate.simps)
  have "trapframe (procs ecall_state ! 0) = 0"
    by (simp add: p0 blank_proc_def)
  then have a7: "tf_slot ecall_state 0 21 = 11"
    by (simp add: tf_slot_def ecall_state_facts)
  have tab: "(replicate 11 None @ [Some sys_getpid]) ! 11 = Some sys_getpid" "11 < length (replicate 11 None @ [Some sys_getpid])"
    by (simp_all add: nth_append)
  have u: "\<not> bit (x_sstatus (csr ecall_state)) 8" "r_scause ecall_state = 8" "noff (hart ecall_state) = 0" "r_sepc ecall_state = 0x1000"
      "p_killed (procs ecall_state ! 0) = 0" "pg_aligned (trapframe (procs ecall_state ! 0))" "pid (procs ecall_state ! 0) = 5"
      "pagetable (procs ecall_state ! 0) = 0" "to_int (tf_slot ecall_state 0 21) = 11"
    unfolding p0 by (simp_all add: ecall_state_facts ecall_csrs_def r_scause_def r_sepc_def blank_proc_def pg_aligned_def a7 to_int_def)
  show ?thesis
    using ecall_getpid [OF idle ecall_state_facts(4) _ u(6,5,1,2,3,9) tab(2,1),
        where ka = "\<lparr>a_kernelvec = 1, a_trampoline = 2, a_uservec = 2, a_userret = 3, a_usertrap = 4\<rparr>"] u(4,7,8) by auto
qed

end
