(* ===== verification/Boot.thy ===== *)
theory Boot
  imports Trap
begin

text \<open>
  Starting the machine: \<^verbatim>\<open>kernel/start.c\<close> in machine mode, the kernel's page table (\<open>kvmmake\<close>, \<open>kvminit\<close>,
  \<open>kvminithart\<close> of \<^verbatim>\<open>kernel/vm.c\<close>), the negotiation with the disk (\<open>virtio_disk_init\<close>) and the sequence of
  \<^verbatim>\<open>kernel/main.c\<close>. Addresses fixed by the linker are arguments.
\<close>

section \<open>Machine mode\<close>

definition CLINT :: u64 where "CLINT = 0x2000000"
definition CLINT_MTIMECMP :: "u64 \<Rightarrow> u64" where "CLINT_MTIMECMP h = CLINT + 0x4000 + 8 * h"
definition CLINT_MTIME :: u64 where "CLINT_MTIME = CLINT + 0xBFF8"

text \<open>
  A hart before it enters the kernel: its registers, \<open>tp\<close>, the timer's registers (read and written as 8-byte words)
  and the scratch areas. \<open>stack\<close> addresses are left to \<^verbatim>\<open>entry.S\<close>.
\<close>

record mhart = csrs +
  x_tp :: u64
  clint :: "u64 \<Rightarrow> u64"
  timer_scratch :: "nat \<Rightarrow> nat \<Rightarrow> u64"

definition w_tp :: "u64 \<Rightarrow> mhart \<Rightarrow> mhart" where "w_tp x m = m\<lparr>x_tp := x\<rparr>"

definition timerinit :: "u64 \<Rightarrow> u64 \<Rightarrow> mhart \<Rightarrow> mhart" where
  "timerinit scratch_addr timervec m0 =
     (let id = r_mhartid m0; interval = 1000000;
          m1 = m0\<lparr>clint := (clint m0)(CLINT_MTIMECMP id := clint m0 CLINT_MTIME + interval)\<rparr>;
          sc = timer_scratch m1 (unat id);
          m2 = m1\<lparr>timer_scratch := (timer_scratch m1)(unat id := sc(3 := CLINT_MTIMECMP id, 4 := interval))\<rparr>;
          m3 = w_mscratch (scratch_addr + id * 40) m2;
          m4 = w_mtvec timervec m3;
          m5 = w_mstatus (r_mstatus m4 OR MSTATUS_MIE) m4
      in w_mie (r_mie m5 OR MIE_MTIE) m5)"

text \<open>\<open>mret\<close> continues at \<open>mepc\<close> with the previous mode in \<open>mstatus\<close>; 1 is supervisor mode.\<close>

definition start :: "u64 \<Rightarrow> u64 \<Rightarrow> u64 \<Rightarrow> mhart \<Rightarrow> mhart \<times> u64 \<times> u64" where
  "start main_addr scratch_addr timervec m0 =
     (let x = (r_mstatus m0 AND NOT MSTATUS_MPP_MASK) OR MSTATUS_MPP_S;
          m1 = w_mstatus x m0;
          m2 = w_mepc main_addr m1;
          m3 = w_satp 0 m2;
          m4 = w_mideleg 0xffff (w_medeleg 0xffff m3);
          m5 = w_sie (r_sie m4 OR SIE_SEIE OR SIE_STIE OR SIE_SSIE) m4;
          m6 = w_pmpcfg0 0xf (w_pmpaddr0 0x3fffffffffffff m5);
          m7 = timerinit scratch_addr timervec m6;
          m8 = w_tp (r_mhartid m7) m7
      in (m8, x_mepc m8, drop_bit 11 (x_mstatus m8) AND 3))"

section \<open>The kernel's page table\<close>

definition kvmmake :: "'a kmem_scheme \<Rightarrow> u64 \<Rightarrow> u64 \<Rightarrow> fault + 'a kmem_scheme \<times> u64" where
  "kvmmake s etext trampoline =
     bindr (kalloc s) (\<lambda>(s0, kpgtbl). if kpgtbl = 0 then Inl (BadAccess 0) else
     let s1 = s0\<lparr>mem := memset (mem s0) kpgtbl 0 4096\<rparr>
     in bindr (kvmmap s1 kpgtbl UART0 UART0 PGSIZE (PTE_R OR PTE_W)) (\<lambda>s2.
        bindr (kvmmap s2 kpgtbl VIRTIO0 VIRTIO0 PGSIZE (PTE_R OR PTE_W)) (\<lambda>s3.
        bindr (kvmmap s3 kpgtbl PLIC PLIC 0x400000 (PTE_R OR PTE_W)) (\<lambda>s4.
        bindr (kvmmap s4 kpgtbl KERNBASE KERNBASE (etext - KERNBASE) (PTE_R OR PTE_X)) (\<lambda>s5.
        bindr (kvmmap s5 kpgtbl etext etext (PHYSTOP - etext) (PTE_R OR PTE_W)) (\<lambda>s6.
        bindr (kvmmap s6 kpgtbl TRAMPOLINE trampoline PGSIZE (PTE_R OR PTE_X)) (\<lambda>s7.
        bindr (proc_mapstacks s7 kpgtbl) (\<lambda>s8. Inr (s8, kpgtbl)))))))))"

definition kvminit :: "u64 \<Rightarrow> u64 \<Rightarrow> 'a hstate_scheme \<Rightarrow> fault + 'a hstate_scheme" where
  "kvminit etext trampoline s = bindr (kvmmake s etext trampoline) (\<lambda>(s1, pt). Inr (s1\<lparr>kernel_pagetable := pt\<rparr>))"

definition kvminithart :: "'a hstate_scheme \<Rightarrow> 'a hstate_scheme" where
  "kvminithart s = upd_csr s (w_satp (MAKE_SATP (kernel_pagetable s)))"

section \<open>The disk\<close>

definition VIRTIO_MMIO_MAGIC_VALUE :: u64 where "VIRTIO_MMIO_MAGIC_VALUE = 0x000"
definition VIRTIO_MMIO_VERSION :: u64 where "VIRTIO_MMIO_VERSION = 0x004"
definition VIRTIO_MMIO_DEVICE_ID :: u64 where "VIRTIO_MMIO_DEVICE_ID = 0x008"
definition VIRTIO_MMIO_VENDOR_ID :: u64 where "VIRTIO_MMIO_VENDOR_ID = 0x00c"
definition VIRTIO_MMIO_DEVICE_FEATURES :: u64 where "VIRTIO_MMIO_DEVICE_FEATURES = 0x010"
definition VIRTIO_MMIO_DRIVER_FEATURES :: u64 where "VIRTIO_MMIO_DRIVER_FEATURES = 0x020"
definition VIRTIO_MMIO_QUEUE_SEL :: u64 where "VIRTIO_MMIO_QUEUE_SEL = 0x030"
definition VIRTIO_MMIO_QUEUE_NUM_MAX :: u64 where "VIRTIO_MMIO_QUEUE_NUM_MAX = 0x034"
definition VIRTIO_MMIO_QUEUE_NUM :: u64 where "VIRTIO_MMIO_QUEUE_NUM = 0x038"
definition VIRTIO_MMIO_QUEUE_READY :: u64 where "VIRTIO_MMIO_QUEUE_READY = 0x044"
definition VIRTIO_MMIO_STATUS :: u64 where "VIRTIO_MMIO_STATUS = 0x070"
definition VIRTIO_MMIO_QUEUE_DESC_LOW :: u64 where "VIRTIO_MMIO_QUEUE_DESC_LOW = 0x080"
definition VIRTIO_MMIO_QUEUE_DESC_HIGH :: u64 where "VIRTIO_MMIO_QUEUE_DESC_HIGH = 0x084"
definition VIRTIO_MMIO_DRIVER_DESC_LOW :: u64 where "VIRTIO_MMIO_DRIVER_DESC_LOW = 0x090"
definition VIRTIO_MMIO_DRIVER_DESC_HIGH :: u64 where "VIRTIO_MMIO_DRIVER_DESC_HIGH = 0x094"
definition VIRTIO_MMIO_DEVICE_DESC_LOW :: u64 where "VIRTIO_MMIO_DEVICE_DESC_LOW = 0x0a0"
definition VIRTIO_MMIO_DEVICE_DESC_HIGH :: u64 where "VIRTIO_MMIO_DEVICE_DESC_HIGH = 0x0a4"

definition VIRTIO_CONFIG_S_ACKNOWLEDGE :: u32 where "VIRTIO_CONFIG_S_ACKNOWLEDGE = 1"
definition VIRTIO_CONFIG_S_DRIVER :: u32 where "VIRTIO_CONFIG_S_DRIVER = 2"
definition VIRTIO_CONFIG_S_DRIVER_OK :: u32 where "VIRTIO_CONFIG_S_DRIVER_OK = 4"
definition VIRTIO_CONFIG_S_FEATURES_OK :: u32 where "VIRTIO_CONFIG_S_FEATURES_OK = 8"

definition vread :: "'a hstate_scheme \<Rightarrow> u64 \<Rightarrow> 'a hstate_scheme \<times> u32" where
  "vread s r = mmio_read s (VIRTIO0 + r)"

definition vwrite :: "u64 \<Rightarrow> u32 \<Rightarrow> 'a hstate_scheme \<Rightarrow> 'a hstate_scheme" where
  "vwrite r v s = mmio_write s (VIRTIO0 + r) v"

text \<open>The four registers that identify the device are read until one is wrong.\<close>

fun videntify :: "(u64 \<times> u32) list \<Rightarrow> 'a hstate_scheme \<Rightarrow> fault + 'a hstate_scheme" where
  "videntify [] s = Inr s"
| "videntify ((r, v) # rs) s =
     (let (s1, x) = vread s r in if x \<noteq> v then Inl (Panic ''could not find virtio disk'') else videntify rs s1)"

text \<open>The feature bits that are refused.\<close>

definition vfeatures :: "u32 \<Rightarrow> u32" where
  "vfeatures f = foldl (\<lambda>x b. x AND NOT (push_bit b 1)) f [5, 7, 11, 12, 27, 29, 28]"

definition vnegotiate :: "'a hstate_scheme \<Rightarrow> fault + 'a hstate_scheme \<times> u32" where
  "vnegotiate s0 =
     (let s1 = vwrite VIRTIO_MMIO_STATUS 0 s0;
          st1 = VIRTIO_CONFIG_S_ACKNOWLEDGE; s2 = vwrite VIRTIO_MMIO_STATUS st1 s1;
          st2 = st1 OR VIRTIO_CONFIG_S_DRIVER; s3 = vwrite VIRTIO_MMIO_STATUS st2 s2;
          (s4, f) = vread s3 VIRTIO_MMIO_DEVICE_FEATURES;
          s5 = vwrite VIRTIO_MMIO_DRIVER_FEATURES (vfeatures f) s4;
          st3 = st2 OR VIRTIO_CONFIG_S_FEATURES_OK; s6 = vwrite VIRTIO_MMIO_STATUS st3 s5;
          (s7, st) = vread s6 VIRTIO_MMIO_STATUS
      in if st AND VIRTIO_CONFIG_S_FEATURES_OK = 0 then Inl (Panic ''virtio disk FEATURES_OK unset'') else Inr (s7, st))"

definition vqueue :: "'a hstate_scheme \<Rightarrow> fault + 'a hstate_scheme" where
  "vqueue s0 =
     (let s1 = vwrite VIRTIO_MMIO_QUEUE_SEL 0 s0; (s2, rdy) = vread s1 VIRTIO_MMIO_QUEUE_READY
      in if rdy \<noteq> 0 then Inl (Panic ''virtio disk should not be ready'')
         else let (s3, mx) = vread s2 VIRTIO_MMIO_QUEUE_NUM_MAX
              in if mx = 0 then Inl (Panic ''virtio disk has no queue 0'')
                 else if mx < of_nat NUM then Inl (Panic ''virtio disk max queue too short'') else Inr s3)"

text \<open>The addresses of the three pages, low and high halves; the rings themselves start out zero.\<close>

definition vaddrs :: "u64 \<Rightarrow> u64 \<Rightarrow> u64 \<Rightarrow> 'a hstate_scheme \<Rightarrow> 'a hstate_scheme" where
  "vaddrs d a u s0 =
     (let s1 = vwrite VIRTIO_MMIO_QUEUE_NUM (of_nat NUM) s0;
          s2 = vwrite VIRTIO_MMIO_QUEUE_DESC_HIGH (ucast (drop_bit 32 d)) (vwrite VIRTIO_MMIO_QUEUE_DESC_LOW (ucast d) s1);
          s3 = vwrite VIRTIO_MMIO_DRIVER_DESC_HIGH (ucast (drop_bit 32 a)) (vwrite VIRTIO_MMIO_DRIVER_DESC_LOW (ucast a) s2);
          s4 = vwrite VIRTIO_MMIO_DEVICE_DESC_HIGH (ucast (drop_bit 32 u)) (vwrite VIRTIO_MMIO_DEVICE_DESC_LOW (ucast u) s3)
      in vwrite VIRTIO_MMIO_QUEUE_READY 1 s4)"

definition zero_rings :: "vdisk \<Rightarrow> vdisk" where
  "zero_rings v = v\<lparr>desc := replicate NUM \<lparr>d_addr = DNull, d_len = 0, d_flags = 0, d_next = 0\<rparr>, avail_idx := 0, avail_ring := replicate NUM 0,
     dev_used_idx := 0, used_ring := replicate NUM 0\<rparr>"

definition virtio_disk_init :: "'a hstate_scheme \<Rightarrow> fault + 'a hstate_scheme" where
  "virtio_disk_init s0 =
     (let s1 = s0\<lparr>vdisk := (vdisk s0)\<lparr>vdisk_lock := initlock (vdisk_lock (vdisk s0)) ''virtio_disk''\<rparr>\<rparr>
      in bindr (videntify [(VIRTIO_MMIO_MAGIC_VALUE, 0x74726976), (VIRTIO_MMIO_VERSION, 2), (VIRTIO_MMIO_DEVICE_ID, 2),
                  (VIRTIO_MMIO_VENDOR_ID, 0x554d4551)] s1) (\<lambda>s2.
         bindr (vnegotiate s2) (\<lambda>(s3, status).
         bindr (vqueue s3) (\<lambda>s4.
         bindr (kalloc s4) (\<lambda>(s5, d).
         bindr (kalloc s5) (\<lambda>(s6, a).
         bindr (kalloc s6) (\<lambda>(s7, u).
           if d = 0 \<or> a = 0 \<or> u = 0 then Inl (Panic ''virtio disk kalloc'')
           else
             let s8 = s7\<lparr>mem := memset (memset (memset (mem s7) d 0 4096) a 0 4096) u 0 4096, vdisk := zero_rings (vdisk s7)\<rparr>;
                 s9 = vaddrs d a u s8;
                 s10 = s9\<lparr>vdisk := (vdisk s9)\<lparr>dfree := replicate NUM True\<rparr>\<rparr>
             in Inr (vwrite VIRTIO_MMIO_STATUS (status OR VIRTIO_CONFIG_S_DRIVER_OK) s10))))))))"

section \<open>The kernel's main\<close>

text \<open>Hart 0 up to the call of the scheduler; \<open>name0\<close> is the buffer of the path lookup in \<open>userinit\<close>.\<close>

definition main0 :: "kaddrs \<Rightarrow> u64 \<Rightarrow> u64 \<Rightarrow> cstr \<Rightarrow> 'a hstate_scheme \<Rightarrow> fault + 'a hstate_scheme" where
  "main0 ka etext forkret_addr name0 s0 =
     (let s1 = printfinit (consoleinit s0)
      in bindr (printf s1 (Some [10]) []) (\<lambda>s2.
         bindr (printf s2 (Some (ktext ''xv6 kernel is booting'' @ [10])) []) (\<lambda>s3.
         bindr (printf s3 (Some [10]) []) (\<lambda>s4.
         bindr (kinit s4) (\<lambda>s5.
         bindr (kvminit etext (a_trampoline ka) s5) (\<lambda>s6.
           let s7 = trapinithart ka (trapinit (procinit (kvminithart s6)));
               s8 = fileinit (iinit (binit (plicinithart (plicinit s7))))
           in bindr (virtio_disk_init s8) (\<lambda>s9. userinit (a_trampoline ka) forkret_addr name0 s9)))))))"

text \<open>The other harts, once hart 0 has set \<open>started\<close>; before that they spin.\<close>

definition main_other :: "kaddrs \<Rightarrow> bool \<Rightarrow> 'a hstate_scheme \<Rightarrow> fault + 'a hstate_scheme" where
  "main_other ka started s0 =
     (if \<not> started then Inl Spin
      else bindr (printf s0 (Some (ktext ''hart %d starting'' @ [10])) [VReg (of_nat (cpuid s0))]) (\<lambda>s1.
             Inr (plicinithart (trapinithart ka (kvminithart s1)))))"

end
