(* ===== verification/Spec2Isabelle.thy ===== *)
theory Spec2Isabelle
  imports Kframe Proc_free Sleep_thms Vm_thms Spsc Proc_life Cache Inode_thms Pipe_thms Grep Sh Console_thms Trap_thms Boot
begin

text \<open>
  A verification development for an xv6 kernel on RISC-V with a zero-copy ring buffer: a system call
  (\<^verbatim>\<open>src/kernel/ringbuf.c\<close>) that maps 16 physical pages twice in a row into a process, and into every other
  process that opens the same name, and a user library (\<^verbatim>\<open>src/user/ringbuf.c\<close>) that passes bytes through it.

  \<^bold>\<open>The program and the theories.\<close> The source is C; every routine is a HOL function of the same name, in the order
  of the code, and the theories follow the files:

  \<^item> \<open>Prelude\<close>: word types, the byte store \<open>memory\<close>, the faults (\<open>Panic\<close>, \<open>Spin\<close>, \<open>Blocked\<close>, \<open>BadAccess\<close>,
    \<open>Overrun\<close>, \<open>OutOfFuel\<close>, \<open>Exit\<close>) and \<open>bindr\<close>, which sequences fallible operations. \<open>Riscv\<close>: the page
    macros of \<^verbatim>\<open>riscv.h\<close> and \<^verbatim>\<open>memlayout.h\<close>. \<open>Cstring\<close>: \<^verbatim>\<open>string.c\<close>.
  \<^item> \<open>Spinlock\<close>: \<^verbatim>\<open>spinlock.c\<close>, as an interleaving of the atomic swaps of many harts and as single transitions that
    refine it. The other theories use the single transitions.
  \<^item> \<open>Kalloc\<close>: \<^verbatim>\<open>kalloc.c\<close>, with the free list kept in the free pages. \<open>Vm\<close>: \<^verbatim>\<open>vm.c\<close>, with page tables kept in memory.
    \<open>Pagetable\<close>, \<open>Usermem\<close>, \<open>Vm_thms\<close>, \<open>Freewalk\<close>: what a page table denotes, the invariant of all page tables
    and of the free list, the copy routines, and giving an address space back. \<open>Small_machine\<close> is a concrete
    machine to which the theorems are applied.
  \<^item> \<open>Ringbuf\<close>: \<^verbatim>\<open>kernel/ringbuf.c\<close>. \<open>Ringbuf_spec\<close>, \<open>Ringbuf_life\<close>, \<open>Ringbuf_thms\<close>, \<open>Kframe\<close>: its behaviour.
    \<open>Uring\<close>: \<^verbatim>\<open>user/ringbuf.c\<close> over the system call and the memory of the process. \<open>Spsc\<close>: one writer and one
    reader of a ring in every interleaving.
  \<^item> \<open>Proc\<close>, \<open>Proc_life\<close>: \<^verbatim>\<open>proc.c\<close>, before and after the file system it needs. \<open>Proc_thms\<close>, \<open>Proc_free\<close>: sleeping, waking,
    freeing. \<open>Syscall\<close>: \<^verbatim>\<open>syscall.c\<close> and \<^verbatim>\<open>sysproc.c\<close>; the table of handlers is an argument of \<open>syscall\<close>. \<open>Sleeplock\<close>:
    \<^verbatim>\<open>sleeplock.c\<close>. \<open>Sleep_thms\<close>: two harts in \<open>acquiresleep\<close> and \<open>releasesleep\<close>, in every interleaving of the statements of
    \<open>sleep\<close> and \<open>wakeup\<close>.
  \<^item> \<open>Virtio\<close>: \<^verbatim>\<open>virtio_disk.c\<close>. \<open>Bio\<close>: \<^verbatim>\<open>bio.c\<close>. \<open>Log\<close>: \<^verbatim>\<open>log.c\<close>. \<open>Fs\<close>: \<^verbatim>\<open>fs.c\<close>. \<open>Pipe\<close>: \<^verbatim>\<open>pipe.c\<close>. \<open>File\<close>: \<^verbatim>\<open>file.c\<close>. \<open>Exec\<close>: \<^verbatim>\<open>exec.c\<close>.
    \<open>Sysfile\<close>: \<^verbatim>\<open>sysfile.c\<close>. \<open>Virtio_thms\<close>, \<open>Bio_thms\<close>, \<open>Log_thms\<close>, \<open>Log_ops\<close>, \<open>Fs_thms\<close>, \<open>Crash\<close>, \<open>Cache\<close>: the disk as
    the layers above see it, with and without a crash. \<open>Inode_thms\<close>: a file as an array of bytes. \<open>Pipe_thms\<close>: a pipe as a
    queue.
  \<^item> \<open>Uart\<close>: \<^verbatim>\<open>uart.c\<close>. \<open>Kprintf\<close>: \<^verbatim>\<open>printf.c\<close> and \<open>procdump\<close>. \<open>Console\<close>, \<open>Console_thms\<close>: \<^verbatim>\<open>console.c\<close>. \<open>Hart\<close>: the control
    registers of \<^verbatim>\<open>riscv.h\<close> and \<^verbatim>\<open>plic.c\<close>. \<open>Trap\<close>, \<open>Trap_thms\<close>: \<^verbatim>\<open>trap.c\<close>. \<open>Boot\<close>: \<^verbatim>\<open>start.c\<close>, \<^verbatim>\<open>main.c\<close>, the kernel's page
    table and the negotiation with the disk.
  \<^item> \<open>Ulib\<close>: \<^verbatim>\<open>user/ulib.c\<close> and \<^verbatim>\<open>user/printf.c\<close>. \<open>Grep\<close>: \<^verbatim>\<open>user/grep.c\<close>. \<open>Sh\<close>: \<^verbatim>\<open>user/sh.c\<close>.

  \<^bold>\<open>State.\<close> The kernel's globals are fields of records that extend each other in the order of the layers: \<open>kmem\<close>
  (memory, allocator, hart), \<open>kstate\<close> (the table of rings), \<open>pstate\<close> (processes), \<open>tstate\<close> (clock), \<open>bstate\<close> (disk and
  buffers), \<open>lstate\<close> (log), \<open>istate\<close> (inodes), \<open>pistate\<close> (pipes), \<open>fstate\<close> (files), \<open>ustate\<close> (serial port), \<open>prstate\<close>
  (printf), \<open>cstate\<close> (console), \<open>hstate\<close> (control registers and devices). An operation is polymorphic in the
  fields above its own layer, so the layers above call it on their larger state. A pointer into a
  table is an index; a pointer to a page is its physical address. An operation returns \<open>Inl\<close> of a fault or
  \<open>Inr\<close> of the new state and its result, so that every panic and every early return of the code is a branch.

  \<^bold>\<open>Processes and waiting.\<close> A theorem about one operation is about the hart that runs it. A call that has to wait
  stops at the call of \<open>sleep\<close>, as \<open>Blocked\<close> or as \<open>Asleep\<close> with its progress; the code behind a context switch is
  a function of its own (\<open>sleep_return\<close>, \<open>yield_return\<close>, \<open>usertrap_resumed\<close>, \<open>kerneltrap_resumed\<close>). Interleaving is
  explicit where it is the point: the harts on a spin lock, a sleeping process and its waker, and writer and
  reader of a ring. \<open>sleep\<close> and the body of \<open>wakeup\<close> are lists of statements (\<open>sleep_steps\<close>, \<open>sleep_return_steps\<close>,
  \<open>wakeup_steps\<close>): run in one go they are the transitions \<open>sleep_enter\<close>, \<open>sleep_return\<close> and \<open>wakeup\<close> that the other theories
  use, and one at a time the steps of \<open>Sleep_thms\<close>, where the sleeping process is resumed on the hart it left and
  timer interrupts are not taken. The runs of \<open>Spsc\<close> end before a counter of a ring wraps around at 2^64.

  \<^bold>\<open>Devices.\<close> Hardware is a parameter. The disk serves a published request with a function of the state; the
  serial port, the interrupt controller and the registers of the disk answer a read with a function of
  all accesses so far. A loop that polls a device is a \<^theory_text>\<open>partial_function\<close> in \<open>option\<close>, whose \<open>None\<close> is \<open>Spin\<close>. For
  crashes the medium is the history of the writes that reached it, and a crash keeps a prefix.

  \<^bold>\<open>Bounds.\<close> Loops over arrays recurse on the number of elements left. Fuel stands where the code follows links or
  calls itself, and is always more than the structure has: three levels for \<open>freewalk\<close>, \<open>NUM\<close> for a chain of
  descriptors and for the used ring, one more than the buffers for the walks of the cache (proved to be
  enough for a well-formed list), the distance of the indices for the console and for the transmit buffer, and
  four levels for each byte, and four more, for the parser of the shell (proved to be enough for every line).

  \<^bold>\<open>What is shown.\<close> Spin locks exclude each other, and the transitions used elsewhere refine them. The allocator is a
  stack of exactly the pages of memory; a page is never handed out twice. Mapping and unmapping change exactly
  the translations they name and keep the invariant of all page tables; the copy routines equal copying one
  byte at a time; freeing an address space returns every page of it. For the ring: what creating, opening by a
  second process and closing do to the translations of all processes, that the two halves of a window are the same
  bytes and the windows of two processes too, so that what one stores the other loads, that opening and closing
  restores the translations and returns the pages of the ring, that the lock is free after every path, and
  that the writer never overruns the reader. Where the code does not do what it is meant to, the theorem states what it does: opening an
  existing ring with just enough room panics, creating one can overwrite a live one, closing at an unmapped
  address dereferences a bad pointer, a process that exits with an open ring cannot be freed, and the
  reader's address is wrong unless it reads multiples of 64 KB, since a macro lacks parentheses. For the file system: a
  request to the disk completes, the cache is a map from blocks to bytes with least-recently-used replacement, a
  commit and a whole operation are atomic under crashes, recovery may itself be interrupted, block
  allocation is undone by freeing, what is written to a file is read back at every offset, and the log can overflow although every operation kept to its share. A wakeup
  wakes exactly the sleepers on its channel, and none is lost between the test of the waiting process and its sleep. A pipe is a bounded queue between two address
  spaces. The console refines a line editor in
  front of a queue, and a system call travels from the trap to the return with exactly its result changed.
  In user space, grep prints the lines in the language of its pattern, the shell parses what it prints and
  ends on every line, and printed numbers are read back.

  \<^bold>\<open>Interfaces.\<close> \<open>page_allocator\<close> (in \<open>Kalloc\<close>) is what the users of the allocator rely on, \<open>page_mapper\<close> (in
  \<open>Ringbuf_spec\<close>) what the ring relies on for mapping pages, \<open>frame\<close> (in \<open>Kframe\<close>) what operations leave alone, and
  \<open>ring_reader\<close> (in \<open>Spsc\<close>) what a reader's address computation must give for the bytes to arrive in order. Each is
  interpreted on the definitions of the model. \<open>byte_ring\<close> (in \<open>Prelude\<close>) is the arithmetic of circular buffers with counters
  that wrap around, interpreted for the sizes of the pipe and of the console.

  \<^bold>\<open>Not modelled.\<close> The assembly files (\<^verbatim>\<open>entry.S\<close>, \<^verbatim>\<open>kernelvec.S\<close>, \<^verbatim>\<open>swtch.S\<close>, \<^verbatim>\<open>trampoline.S\<close>, \<^verbatim>\<open>initcode.S\<close>): registers are
  saved and restored outside the model, entry addresses are arguments. The translation cache and memory
  ordering between harts: fences have no effect in the model. Log messages of the ring-buffer call, of the allocation of blocks and inodes and of unknown
  system calls: they only print. The registers of the disk that the driver writes to notify the device and to acknowledge its
  interrupt: the device serves a request when the driver waits for it, from the three descriptors of the chain and
  without a check of their flags and lengths. The \<open>int\<close> counters of locks and tables are integers without
  a bound. \<^verbatim>\<open>mkfs.c\<close>, which runs on the host; \<^verbatim>\<open>ramdisk.c\<close>, which is not linked; \<^verbatim>\<open>umalloc.c\<close>, since the parser builds a datatype
  in place of allocated nodes; \<open>main\<close> of \<^verbatim>\<open>grep.c\<close> and the other user programs, which pass their arguments to system
  calls; and the test programs.
\<close>

end
